(* ===== verification/Prelude.thy ===== *)
theory Prelude
  imports Complex_Main "HOL-Library.Word" "HOL-Library.AList"
begin

text \<open>
  Shared vocabulary of the development.

  \<^item> The exceptions the code raises are the values of \<open>err\<close> (messages are dropped, the
    class and, where the code computes with it, the argument are kept).
    \<open>NonTermination\<close> is not a Python exception: it is the outcome of a loop of the source that
    would not end (a cyclic page chain).
  \<^item> A function that may raise returns \<open>err + 'a\<close>; a method that also mutates an object is a
    state transformer \<open>'s \<Rightarrow> (err + 'a) \<times> 's\<close>, which returns the state reached when an exception
    left the method half way.
  \<^item> A Python dict is an association list in insertion order (\<open>AList.update\<close> keeps the place of
    an existing key and appends a new one, as CPython does).
  \<^item> Python strings are HOL strings: a \<open>char\<close> is a code point between 0 and 255.
\<close>

type_synonym byte = "8 word"
type_synonym bytes = "byte list"

datatype err =
    PageOutOfRangeError
  | StorageCorruptionError
  | TableExistsError
  | TableNotFoundError
  | SchemaMismatchError
  | StructError
  | ValueError
  | TypeError
  | AttributeError
  | IndexError
  | KeyError
  | OverflowError
  | ZeroDivisionError
  | UnicodeError
  | NotImplementedError
  | OSError
  | LexerError nat nat
  | ParserError nat nat
  | PlanningError
  | ExecutionError
  | ConstraintError
  | TransactionError
  | DeadlockError "nat list"
  | DatabaseError
  | CsvError
  | NonTermination

section \<open>Results\<close>

type_synonym 'a res = "err + 'a"

definition rbind :: "'a res \<Rightarrow> ('a \<Rightarrow> 'b res) \<Rightarrow> 'b res" where
  "rbind m f = (case m of Inl e \<Rightarrow> Inl e | Inr x \<Rightarrow> f x)"

definition rguard :: "bool \<Rightarrow> err \<Rightarrow> unit res" where
  "rguard b e = (if b then Inr () else Inl e)"

lemma rbind_simps [simp]:
  "rbind (Inl e) f = Inl e"
  "rbind (Inr x) f = f x"
  by (simp_all add: rbind_def)

lemma rbind_cong [fundef_cong]:
  "m = m' \<Longrightarrow> (\<And>x. m' = Inr x \<Longrightarrow> f x = f' x) \<Longrightarrow> rbind m f = rbind m' f'"
  by (cases m') (auto simp: rbind_def)

lemma rbind_Inr_iff [simp]: "rbind m f = Inr y \<longleftrightarrow> (\<exists>x. m = Inr x \<and> f x = Inr y)"
  by (cases m) auto

lemma rbind_Inl_iff: "rbind m f = Inl e \<longleftrightarrow> m = Inl e \<or> (\<exists>x. m = Inr x \<and> f x = Inl e)"
  by (cases m) auto

lemma rguard_simps [simp]:
  "rguard b e = Inr u \<longleftrightarrow> b"
  "rguard True e = Inr ()"
  "rguard False e = Inl e"
  by (auto simp: rguard_def)

fun rmap :: "('a \<Rightarrow> 'b res) \<Rightarrow> 'a list \<Rightarrow> 'b list res" where
  "rmap f [] = Inr []"
| "rmap f (x # xs) = rbind (f x) (\<lambda>y. rbind (rmap f xs) (\<lambda>ys. Inr (y # ys)))"

lemma rmap_cong [fundef_cong]:
  "xs = ys \<Longrightarrow> (\<And>x. x \<in> set ys \<Longrightarrow> f x = g x) \<Longrightarrow> rmap f xs = rmap g ys"
  by (induction ys arbitrary: xs) auto

lemma rmap_Inr_iff: "rmap f xs = Inr ys \<longleftrightarrow> list_all2 (\<lambda>x y. f x = Inr y) xs ys"
  by (induction xs arbitrary: ys) (auto simp: list_all2_Cons1)

lemma rmap_length: "rmap f xs = Inr ys \<Longrightarrow> length ys = length xs"
  by (auto simp: rmap_Inr_iff dest: list_all2_lengthD)

lemma rmap_append:
  "rmap f (xs @ ys) = rbind (rmap f xs) (\<lambda>us. rbind (rmap f ys) (\<lambda>vs. Inr (us @ vs)))"
  by (induction xs) (auto simp: rbind_def split: sum.splits)

lemma rmap_total: "(\<And>x. x \<in> set xs \<Longrightarrow> f x = Inr (g x)) \<Longrightarrow> rmap f xs = Inr (map g xs)"
  by (induction xs) auto

text \<open>A loop that changes an accumulator and may stop with an exception.\<close>

fun rfold :: "('x \<Rightarrow> 'a \<Rightarrow> 'a res) \<Rightarrow> 'x list \<Rightarrow> 'a \<Rightarrow> 'a res" where
  "rfold g [] acc = Inr acc"
| "rfold g (x # xs) acc = rbind (g x acc) (rfold g xs)"

lemma rfold_append: "rfold g (xs @ ys) acc = rbind (rfold g xs acc) (rfold g ys)"
  by (induction xs arbitrary: acc) (auto split: sum.splits simp: rbind_def)

lemma rfold_collect: "rfold (\<lambda>x acc. Inr (acc @ [x])) xs acc = Inr (acc @ xs)"
  by (induction xs arbitrary: acc) auto

definition rfilter :: "('r \<Rightarrow> bool res) \<Rightarrow> 'r list \<Rightarrow> 'r list res" where
  "rfilter keep rs = rbind (rmap keep rs) (\<lambda>bs. Inr (map fst (filter snd (zip rs bs))))"

lemma rfilter_simps [simp]:
  "rfilter p [] = Inr []"
  "rfilter p (x # xs) = rbind (p x) (\<lambda>b. rbind (rfilter p xs) (\<lambda>ys. Inr (if b then x # ys else ys)))"
  by (auto simp: rfilter_def rbind_def split: sum.splits)

lemma rfilter_eq:
  assumes "rfilter keep rs = Inr out"
  obtains P where "out = filter P rs" "\<And>r. r \<in> set rs \<Longrightarrow> keep r = Inr (P r)"
proof -
  have "out = filter (\<lambda>r. keep r = Inr True) rs \<and> (\<forall>r \<in> set rs. keep r = Inr (keep r = Inr True))"
    using assms by (induction rs arbitrary: out) (auto split: if_splits)
  then show thesis using that by blast
qed

section \<open>State transformers that may raise\<close>

type_synonym ('s, 'a) st = "'s \<Rightarrow> (err + 'a) \<times> 's"

definition sret :: "'a \<Rightarrow> ('s, 'a) st" where
  "sret x s = (Inr x, s)"

definition sraise :: "err \<Rightarrow> ('s, 'a) st" where
  "sraise e s = (Inl e, s)"

definition sbind :: "('s, 'a) st \<Rightarrow> ('a \<Rightarrow> ('s, 'b) st) \<Rightarrow> ('s, 'b) st" where
  "sbind m f s = (case m s of (Inl e, t) \<Rightarrow> (Inl e, t) | (Inr x, t) \<Rightarrow> f x t)"

definition slift :: "'a res \<Rightarrow> ('s, 'a) st" where
  "slift r s = (r, s)"

definition sget :: "('s \<Rightarrow> 'a) \<Rightarrow> ('s, 'a) st" where
  "sget f s = (Inr (f s), s)"

definition smod :: "('s \<Rightarrow> 's) \<Rightarrow> ('s, unit) st" where
  "smod f s = (Inr (), f s)"

text \<open>Run a method of a component held in a field of a larger state.\<close>

definition szoom :: "('s \<Rightarrow> 't) \<Rightarrow> ('t \<Rightarrow> 's \<Rightarrow> 's) \<Rightarrow> ('t, 'a) st \<Rightarrow> ('s, 'a) st" where
  "szoom get put m s = (case m (get s) of (r, t) \<Rightarrow> (r, put t s))"

lemma st_simps [simp]:
  "sret x s = (Inr x, s)"
  "sraise e s = (Inl e, s)"
  "slift r s = (r, s)"
  "sget f s = (Inr (f s), s)"
  "smod g s = (Inr (), g s)"
  by (simp_all add: sret_def sraise_def slift_def sget_def smod_def)

lemma sbind_simps [simp]:
  "sbind (sret x) f s = f x s"
  "sbind (sraise e) f s = (Inl e, s)"
  "sbind (sget g) f s = f (g s) s"
  "sbind (smod h) f1 s = f1 () (h s)"
  "sbind (slift (Inr x)) f s = f x s"
  "sbind (slift (Inl e)) f s = (Inl e, s)"
  by (simp_all add: sbind_def)

lemma sbind_step:
  "m s = (Inr x, t) \<Longrightarrow> sbind m f s = f x t"
  "m s = (Inl e, t) \<Longrightarrow> sbind m f s = (Inl e, t)"
  by (simp_all add: sbind_def)

lemma sbind_assoc: "sbind (sbind m f) g = sbind m (\<lambda>x. sbind (f x) g)"
  by (rule ext) (simp add: sbind_def split: prod.splits sum.splits)

lemma sbind_Inr_iff:
  "sbind m f s = (Inr y, u) \<longleftrightarrow> (\<exists>x t. m s = (Inr x, t) \<and> f x t = (Inr y, u))"
  by (auto simp: sbind_def split: prod.splits sum.splits)

lemma sbind_InrE:
  assumes "sbind m f s = (Inr y, u)"
  obtains x t where "m s = (Inr x, t)" "f x t = (Inr y, u)"
  using assms by (auto simp: sbind_Inr_iff)

lemma sbind_cong [fundef_cong]:
  "m s = m' s' \<Longrightarrow> s = s' \<Longrightarrow> (\<And>x t. m' s' = (Inr x, t) \<Longrightarrow> f x t = f' x t)
   \<Longrightarrow> sbind m f s = sbind m' f' s'"
  by (auto simp: sbind_def split: prod.splits sum.splits)

fun smap :: "('a \<Rightarrow> ('s, 'b) st) \<Rightarrow> 'a list \<Rightarrow> ('s, 'b list) st" where
  "smap f [] = sret []"
| "smap f (x # xs) = sbind (f x) (\<lambda>y. sbind (smap f xs) (\<lambda>ys. sret (y # ys)))"

text \<open>
  \<open>preserves I m\<close>: every run of \<open>m\<close>, also one that raises, keeps \<open>I\<close>. One rule per
  combinator; the collection \<open>preserve\<close> holds the rule of each operation.
\<close>

definition preserves :: "('s \<Rightarrow> bool) \<Rightarrow> ('s, 'a) st \<Rightarrow> bool" where
  "preserves I m \<longleftrightarrow> (\<forall>s. I s \<longrightarrow> I (snd (m s)))"

named_theorems preserve "rules that an operation keeps an invariant"

lemma preservesI: "(\<And>s. I s \<Longrightarrow> I (snd (m s))) \<Longrightarrow> preserves I m"
  by (simp add: preserves_def)

lemma preservesD: "preserves I m \<Longrightarrow> I s \<Longrightarrow> m s = (r, t) \<Longrightarrow> I t"
  unfolding preserves_def by (metis snd_conv)

lemma preserves_basic [preserve]:
  "preserves I (sret x)" "preserves I (sraise e)" "preserves I (sget f)" "preserves I (slift r)"
  by (simp_all add: preserves_def)

lemma preserves_bind [preserve]:
  assumes "preserves I m" and "\<And>x. preserves I (f x)"
  shows "preserves I (sbind m f)"
proof (rule preservesI)
  fix s assume "I s"
  obtain r t where mt: "m s = (r, t)" by (cases "m s")
  with assms(1) \<open>I s\<close> have "I t" by (auto dest: preservesD)
  with mt assms(2) show "I (snd (sbind m f s))"
    by (auto simp: sbind_def preserves_def split: sum.splits)
qed

lemma preserves_if [preserve]:
  "(b \<Longrightarrow> preserves I m) \<Longrightarrow> (\<not> b \<Longrightarrow> preserves I m') \<Longrightarrow> preserves I (if b then m else m')"
  by simp

lemma preserves_smod [preserve]: "(\<And>s. I s \<Longrightarrow> I (f s)) \<Longrightarrow> preserves I (smod f)"
  by (simp add: preserves_def)

lemma preserves_smap [preserve]: "(\<And>x. preserves I (f x)) \<Longrightarrow> preserves I (smap f xs)"
  by (induction xs) (auto intro!: preserve)

section \<open>Python slices\<close>

text \<open>
  \<open>xs[a:b]\<close> clamps its bounds and counts negative ones from the end; assigning to a slice of a
  bytearray replaces the stretch, and inserts at \<open>a\<close> when \<open>b \<le> a\<close>.
\<close>

definition slice_idx :: "nat \<Rightarrow> int \<Rightarrow> nat" where
  "slice_idx n i = (if i < 0 then nat (int n + i) else min n (nat i))"

definition slice_get :: "'a list \<Rightarrow> int \<Rightarrow> int \<Rightarrow> 'a list" where
  "slice_get xs a b =
     (let i = slice_idx (length xs) a; j = slice_idx (length xs) b in take (j - i) (drop i xs))"

definition slice_set :: "'a list \<Rightarrow> int \<Rightarrow> int \<Rightarrow> 'a list \<Rightarrow> 'a list" where
  "slice_set xs a b ys =
     (let i = slice_idx (length xs) a; j = max i (slice_idx (length xs) b)
      in take i xs @ ys @ drop j xs)"

lemma slice_get_nat:
  "a \<le> b \<Longrightarrow> b \<le> length xs \<Longrightarrow> slice_get xs (int a) (int b) = take (b - a) (drop a xs)"
  by (simp add: slice_get_def slice_idx_def)

text \<open>The in-range form, which the page lemmas use: overwrite \<open>ys\<close> at position \<open>i\<close>.\<close>

definition overwrite :: "'a list \<Rightarrow> nat \<Rightarrow> 'a list \<Rightarrow> 'a list" where
  "overwrite xs i ys = take i xs @ ys @ drop (i + length ys) xs"

lemma slice_set_overwrite:
  "i + length ys \<le> length xs \<Longrightarrow>
   slice_set xs (int i) (int i + int (length ys)) ys = overwrite xs i ys"
  by (simp add: slice_set_def slice_idx_def overwrite_def nat_add_distrib)

lemma length_overwrite [simp]:
  "i + length ys \<le> length xs \<Longrightarrow> length (overwrite xs i ys) = length xs"
  by (simp add: overwrite_def)

lemma nth_overwrite:
  assumes "i + length ys \<le> length xs" and "k < length xs"
  shows "overwrite xs i ys ! k = (if i \<le> k \<and> k < i + length ys then ys ! (k - i) else xs ! k)"
proof -
  consider "k < i" | "i \<le> k" "k < i + length ys" | "i + length ys \<le> k" by linarith
  then show ?thesis
  proof cases
    case 3
    with assms have "min (length xs) i = i" and "\<not> k < i" and "\<not> k - i < length ys"
      and "i + length ys + (k - i - length ys) = k"
      by simp_all
    with 3 assms show ?thesis by (simp add: overwrite_def nth_append)
  qed (use assms in \<open>auto simp: overwrite_def nth_append\<close>)
qed

lemma take_drop_nth_eq:
  assumes "a + n \<le> length xs" and "length ys = length xs"
    and "\<And>k. a \<le> k \<Longrightarrow> k < a + n \<Longrightarrow> xs ! k = ys ! k"
  shows "take n (drop a xs) = take n (drop a ys)"
  by (rule nth_equalityI) (use assms in auto)

lemma take_drop_overwrite_same [simp]:
  "i + length ys \<le> length xs \<Longrightarrow> take (length ys) (drop i (overwrite xs i ys)) = ys"
  by (simp add: overwrite_def)

lemma take_drop_overwrite_other:
  assumes "i + length ys \<le> length xs" and "a + n \<le> length xs" and "a + n \<le> i \<or> i + length ys \<le> a"
  shows "take n (drop a (overwrite xs i ys)) = take n (drop a xs)"
  by (rule take_drop_nth_eq) (use assms in \<open>auto simp: nth_overwrite\<close>)

section \<open>Dictionaries\<close>

type_synonym ('k, 'v) dict = "('k \<times> 'v) list"

abbreviation dict_get :: "('k, 'v) dict \<Rightarrow> 'k \<Rightarrow> 'v option" where
  "dict_get d k \<equiv> map_of d k"

abbreviation dict_set :: "'k \<Rightarrow> 'v \<Rightarrow> ('k, 'v) dict \<Rightarrow> ('k, 'v) dict" where
  "dict_set k v d \<equiv> AList.update k v d"

abbreviation dict_del :: "'k \<Rightarrow> ('k, 'v) dict \<Rightarrow> ('k, 'v) dict" where
  "dict_del k d \<equiv> AList.delete k d"

abbreviation dict_keys :: "('k, 'v) dict \<Rightarrow> 'k list" where
  "dict_keys d \<equiv> map fst d"

declare map_of_eq_Some_iff [simp del]

lemma dict_get_set [simp]: "dict_get (dict_set k v d) j = (if j = k then Some v else dict_get d j)"
  by (simp add: update_conv')

lemma dict_get_del [simp]: "dict_get (dict_del k d) j = (if j = k then None else dict_get d j)"
  by (simp add: delete_conv')

lemma distinct_dict_set [simp]: "distinct (dict_keys d) \<Longrightarrow> distinct (dict_keys (dict_set k v d))"
  by (rule distinct_update)

lemma distinct_dict_del [simp]: "distinct (dict_keys d) \<Longrightarrow> distinct (dict_keys (dict_del k d))"
  by (rule distinct_delete)

lemma dict_keys_set [simp]: "set (dict_keys (dict_set k v d)) = insert k (set (dict_keys d))"
  by (simp add: dom_update)

lemma dict_keys_del [simp]: "set (dict_keys (dict_del k d)) = set (dict_keys d) - {k}"
  by (simp add: delete_keys)

lemma dict_set_new: "k \<notin> set (dict_keys d) \<Longrightarrow> dict_set k v d = d @ [(k, v)]"
  by (induction d) auto

lemma dict_get_None_iff: "dict_get d k = None \<longleftrightarrow> k \<notin> set (dict_keys d)"
  by (simp add: map_of_eq_None_iff)

lemma dict_get_SomeD: "dict_get d k = Some v \<Longrightarrow> (k, v) \<in> set d \<and> k \<in> set (dict_keys d)"
  by (force dest: map_of_SomeD)

lemma dict_get_Some_iff:
  "distinct (dict_keys d) \<Longrightarrow> dict_get d k = Some v \<longleftrightarrow> (k, v) \<in> set d"
  by (auto dest: map_of_SomeD)

end
