(* ===== verification/Py_Float.thy ===== *)
theory Py_Float
  imports Prelude
begin

text \<open>
  Python floats: IEEE-754 doubles, represented by their 64 bits (what \<open>struct\<close> writes for the
  format \<open>d\<close>). A finite double denotes a rational; each arithmetic operation is the exact
  rational operation followed by one rounding to nearest, ties to even, as IEEE-754 prescribes.
  A NaN result is the canonical quiet NaN (its sign and payload are platform dependent).
\<close>

type_synonym double = "64 word"

section \<open>Fields and values of a double\<close>

definition f_neg :: "double \<Rightarrow> bool" where
  "f_neg w \<longleftrightarrow> 2 ^ 63 \<le> unat w"

definition f_expo :: "double \<Rightarrow> nat" where
  "f_expo w = unat w div 2 ^ 52 mod 2048"

definition f_frac :: "double \<Rightarrow> nat" where
  "f_frac w = unat w mod 2 ^ 52"

definition f_is_nan :: "double \<Rightarrow> bool" where
  "f_is_nan w \<longleftrightarrow> f_expo w = 2047 \<and> f_frac w \<noteq> 0"

definition f_is_inf :: "double \<Rightarrow> bool" where
  "f_is_inf w \<longleftrightarrow> f_expo w = 2047 \<and> f_frac w = 0"

definition f_nan :: double where
  "f_nan = word_of_nat (2047 * 2 ^ 52 + 2 ^ 51)"

definition f_inf :: "bool \<Rightarrow> double" where
  "f_inf s = word_of_nat ((if s then 2 ^ 63 else 0) + 2047 * 2 ^ 52)"

definition f_zero :: "bool \<Rightarrow> double" where
  "f_zero s = word_of_nat (if s then 2 ^ 63 else 0)"

definition pow2 :: "int \<Rightarrow> rat" where
  "pow2 e = (if 0 \<le> e then 2 ^ nat e else 1 / 2 ^ nat (- e))"

definition f_rat :: "double \<Rightarrow> rat" where
  "f_rat w = (if f_neg w then -1 else 1) *
     (if f_expo w = 0 then of_nat (f_frac w) * pow2 (-1074)
      else of_nat (2 ^ 52 + f_frac w) * pow2 (int (f_expo w) - 1075))"

text \<open>The numbers Python compares: doubles and integers embed in the extended rationals.\<close>

datatype xnum = NegInf | Fin rat | PosInf | NotANumber

definition f_xnum :: "double \<Rightarrow> xnum" where
  "f_xnum w =
     (if f_is_nan w then NotANumber
      else if f_is_inf w then (if f_neg w then NegInf else PosInf)
      else Fin (f_rat w))"

fun xnum_eq :: "xnum \<Rightarrow> xnum \<Rightarrow> bool" where
  "xnum_eq NotANumber y = False"
| "xnum_eq x NotANumber = False"
| "xnum_eq x y = (x = y)"

fun xnum_lt :: "xnum \<Rightarrow> xnum \<Rightarrow> bool" where
  "xnum_lt NotANumber y = False"
| "xnum_lt x NotANumber = False"
| "xnum_lt x NegInf = False"
| "xnum_lt NegInf y = True"
| "xnum_lt PosInf y = False"
| "xnum_lt x PosInf = True"
| "xnum_lt (Fin a) (Fin b) = (a < b)"

definition xnum_le :: "xnum \<Rightarrow> xnum \<Rightarrow> bool" where
  "xnum_le x y \<longleftrightarrow> xnum_lt x y \<or> xnum_eq x y"

lemma xnum_eq_sym: "xnum_eq x y = xnum_eq y x"
  by (cases x; cases y) auto

lemma xnum_eq_trans: "xnum_eq x y \<Longrightarrow> xnum_eq y z \<Longrightarrow> xnum_eq x z"
  by (cases x; cases y; cases z) auto

lemma xnum_eq_iff: "xnum_eq x y \<longleftrightarrow> x = y \<and> x \<noteq> NotANumber"
  by (cases x; cases y) auto

lemma xnum_lt_trans: "xnum_lt x y \<Longrightarrow> xnum_lt y z \<Longrightarrow> xnum_lt x z"
  by (cases x; cases y; cases z) auto

lemma xnum_lt_irrefl [simp]: "\<not> xnum_lt x x"
  by (cases x) auto

lemma xnum_total:
  "x \<noteq> NotANumber \<Longrightarrow> y \<noteq> NotANumber \<Longrightarrow> xnum_lt x y \<or> x = y \<or> xnum_lt y x"
  by (cases x; cases y) auto

section \<open>Rounding\<close>

fun bitlen :: "nat \<Rightarrow> nat" where
  "bitlen n = (if n = 0 then 0 else Suc (bitlen (n div 2)))"

declare bitlen.simps [simp del]

definition round_half_even :: "nat \<Rightarrow> nat \<Rightarrow> nat" where
  "round_half_even n d =
     (let q = n div d; r = n mod d in if 2 * r < d \<or> (2 * r = d \<and> even q) then q else Suc q)"

definition scaled :: "nat \<Rightarrow> nat \<Rightarrow> int \<Rightarrow> nat \<times> nat" where
  "scaled p q e = (if 0 \<le> e then (p, q * 2 ^ nat e) else (p * 2 ^ nat (- e), q))"

text \<open>
  The double nearest to \<open>\<plusminus> p / q\<close> (\<open>0 < p\<close>, \<open>0 < q\<close>). The exponent \<open>e\<close> is that of the
  last bit of the significand; \<open>(e + 1074) * 2 ^ 52 + m\<close> puts exponent and significand together
  for normal and subnormal numbers alike, and a carry out of the significand moves into the
  exponent.
\<close>

definition f_round :: "bool \<Rightarrow> nat \<Rightarrow> nat \<Rightarrow> double" where
  "f_round s p q =
     (let e1 = int (bitlen p) - int (bitlen q) - 53;
          (n1, d1) = scaled p q e1;
          e = max (-1074) (if d1 * 2 ^ 53 \<le> n1 then e1 + 1 else e1);
          (n, d) = scaled p q e;
          bits = nat (e + 1074) * 2 ^ 52 + round_half_even n d
      in if 2047 * 2 ^ 52 \<le> bits then f_inf s
         else word_of_nat ((if s then 2 ^ 63 else 0) + bits))"

definition f_of_rat :: "bool \<Rightarrow> rat \<Rightarrow> double" where
  "f_of_rat zs r = (case quotient_of r of (p, q) \<Rightarrow>
     if p = 0 then f_zero zs else f_round (p < 0) (nat \<bar>p\<bar>) (nat q))"

text \<open>\<open>float(i)\<close> and \<open>i / j\<close> on integers raise where the rounded value is infinite.\<close>

definition f_of_int :: "int \<Rightarrow> double res" where
  "f_of_int i = (let w = f_of_rat False (of_int i) in if f_is_inf w then Inl OverflowError else Inr w)"

definition int_true_div :: "int \<Rightarrow> int \<Rightarrow> double res" where
  "int_true_div i j =
     (if j = 0 then Inl ZeroDivisionError
      else let w = f_of_rat ((i < 0) \<noteq> (j < 0)) (of_int i / of_int j)
           in if f_is_inf w then Inl OverflowError else Inr w)"

section \<open>Arithmetic\<close>

definition f_minus :: "double \<Rightarrow> double" where
  "f_minus w = w + 2 ^ 63"

definition f_add :: "double \<Rightarrow> double \<Rightarrow> double" where
  "f_add a b =
     (if f_is_nan a \<or> f_is_nan b then f_nan
      else if f_is_inf a then (if f_is_inf b \<and> f_neg a \<noteq> f_neg b then f_nan else a)
      else if f_is_inf b then b
      else f_of_rat (f_neg a \<and> f_neg b) (f_rat a + f_rat b))"

definition f_sub :: "double \<Rightarrow> double \<Rightarrow> double" where
  "f_sub a b = f_add a (f_minus b)"

definition f_is_zero :: "double \<Rightarrow> bool" where
  "f_is_zero w \<longleftrightarrow> f_expo w = 0 \<and> f_frac w = 0"

definition f_mul :: "double \<Rightarrow> double \<Rightarrow> double" where
  "f_mul a b =
     (let s = (f_neg a \<noteq> f_neg b) in
      if f_is_nan a \<or> f_is_nan b then f_nan
      else if f_is_inf a \<or> f_is_inf b then (if f_is_zero a \<or> f_is_zero b then f_nan else f_inf s)
      else f_of_rat s (f_rat a * f_rat b))"

definition f_div :: "double \<Rightarrow> double \<Rightarrow> double res" where
  "f_div a b =
     (let s = (f_neg a \<noteq> f_neg b) in
      if f_is_zero b then Inl ZeroDivisionError
      else if f_is_nan a \<or> f_is_nan b then Inr f_nan
      else if f_is_inf a then Inr (if f_is_inf b then f_nan else f_inf s)
      else if f_is_inf b then Inr (f_zero s)
      else Inr (f_of_rat s (f_rat a / f_rat b)))"

text \<open>\<open>float(text)\<close> for the numerals of the lexer: \<open>n\<close> is the number without its point, \<open>k\<close>
  the count of digits behind it.\<close>

definition f_of_decimal :: "nat \<Rightarrow> nat \<Rightarrow> double" where
  "f_of_decimal n k = f_of_rat False (of_nat n / 10 ^ k)"

lemma f_expo_bound: "f_expo w < 2048"
  by (simp add: f_expo_def)

lemma f_frac_bound: "f_frac w < 2 ^ 52"
  by (simp add: f_frac_def)

lemma f_not_inf_nan: "f_is_inf w \<Longrightarrow> \<not> f_is_nan w"
  by (simp add: f_is_inf_def f_is_nan_def)

end
