(* ===== verification/Struct_Pack.thy ===== *)
theory Struct_Pack
  imports Prelude
begin

text \<open>
  The parts of Python's \<open>struct\<close> module and of the UTF-8 codec that the storage engine uses.
  Integers are packed little-endian (\<open>le_bytes\<close>) or, for index keys, big-endian (\<open>be_bytes\<close>);
  a value that does not fit its field, and a buffer that is too short, raise \<open>StructError\<close>.
  Strings hold code points below 256, whose UTF-8 form has one or two bytes; the decoder raises
  \<open>UnicodeError\<close> on every other byte sequence.
\<close>

section \<open>Byte order\<close>

fun le_bytes :: "nat \<Rightarrow> nat \<Rightarrow> bytes" where
  "le_bytes 0 x = []"
| "le_bytes (Suc n) x = word_of_nat x # le_bytes n (x div 256)"

fun le_nat :: "bytes \<Rightarrow> nat" where
  "le_nat [] = 0"
| "le_nat (b # bs) = unat b + 256 * le_nat bs"

definition be_bytes :: "nat \<Rightarrow> nat \<Rightarrow> bytes" where
  "be_bytes n x = rev (le_bytes n x)"

definition be_nat :: "bytes \<Rightarrow> nat" where
  "be_nat bs = le_nat (rev bs)"

lemma unat_byte_less: "unat (b :: byte) < 256"
  using unsigned_less [of b, where ?'a = nat] by simp

lemma length_le_bytes [simp]: "length (le_bytes n x) = n"
  by (induction n arbitrary: x) auto

lemma le_bytes_eq_Nil [simp]: "le_bytes n x = [] \<longleftrightarrow> n = 0"
  by (cases n) auto

lemma length_be_bytes [simp]: "length (be_bytes n x) = n"
  by (simp add: be_bytes_def)

lemma le_nat_le_bytes [simp]: "le_nat (le_bytes n x) = x mod 256 ^ n"
proof (induction n arbitrary: x)
  case (Suc n)
  have "x mod 256 ^ Suc n = 256 * (x div 256 mod 256 ^ n) + x mod 256"
    by (simp add: mod_mult2_eq)
  with Suc show ?case by (simp add: unat_of_nat)
qed simp

lemma le_nat_bound: "le_nat bs < 256 ^ length bs"
proof (induction bs)
  case (Cons b bs)
  have "unat b < 256" by (rule unat_byte_less)
  with Cons show ?case by simp
qed simp

lemma le_bytes_le_nat [simp]: "le_bytes (length bs) (le_nat bs) = bs"
proof (induction bs)
  case (Cons b bs)
  have "unat b < 256" by (rule unat_byte_less)
  then have "(unat b + 256 * le_nat bs) div 256 = le_nat bs" by simp
  moreover have "(word_of_nat (unat b + 256 * le_nat bs) :: byte) = word_of_nat (unat b)"
    unfolding word_of_nat_eq_iff by (simp add: take_bit_eq_mod)
  ultimately show ?case using Cons by simp
qed simp

lemma be_nat_be_bytes [simp]: "be_nat (be_bytes n x) = x mod 256 ^ n"
  by (simp add: be_nat_def be_bytes_def)

lemma be_bytes_be_nat [simp]: "length bs = n \<Longrightarrow> be_bytes n (be_nat bs) = bs"
  using le_bytes_le_nat [of "rev bs"] by (simp add: be_nat_def be_bytes_def)

lemma be_nat_bound: "be_nat bs < 256 ^ length bs"
  using le_nat_bound [of "rev bs"] by (simp add: be_nat_def)

section \<open>Unsigned and signed fields\<close>

text \<open>\<open>pack_u n x\<close>: the formats B (1), H (2), I (4) and Q (8 bytes).\<close>

definition pack_u :: "nat \<Rightarrow> int \<Rightarrow> bytes res" where
  "pack_u n x = (if 0 \<le> x \<and> x < 256 ^ n then Inr (le_bytes n (nat x)) else Inl StructError)"

definition unpack_u :: "nat \<Rightarrow> bytes \<Rightarrow> nat \<Rightarrow> nat res" where
  "unpack_u n data off =
     (if off + n \<le> length data then Inr (le_nat (take n (drop off data))) else Inl StructError)"

text \<open>Two's complement of a 64-bit integer (format q) as an unsigned number, and back.\<close>

definition i64_to_u :: "int \<Rightarrow> nat" where
  "i64_to_u x = nat (x mod 2 ^ 64)"

definition u_to_i64 :: "nat \<Rightarrow> int" where
  "u_to_i64 u = (if u < 2 ^ 63 then int u else int u - 2 ^ 64)"

definition in_i64 :: "int \<Rightarrow> bool" where
  "in_i64 x \<longleftrightarrow> - (2 ^ 63) \<le> x \<and> x < 2 ^ 63"

definition pack_i64 :: "int \<Rightarrow> bytes res" where
  "pack_i64 x = (if in_i64 x then Inr (le_bytes 8 (i64_to_u x)) else Inl StructError)"

definition unpack_i64 :: "bytes \<Rightarrow> nat \<Rightarrow> int res" where
  "unpack_i64 data off = rbind (unpack_u 8 data off) (\<lambda>u. Inr (u_to_i64 u))"

text \<open>\<open>struct.pack_into\<close> at a non-negative offset.\<close>

definition pack_into :: "bytes \<Rightarrow> nat \<Rightarrow> bytes \<Rightarrow> bytes res" where
  "pack_into data off bs =
     (if off + length bs \<le> length data then Inr (overwrite data off bs) else Inl StructError)"

lemma pack_u_Inr_iff: "pack_u n x = Inr bs \<longleftrightarrow> 0 \<le> x \<and> x < 256 ^ n \<and> bs = le_bytes n (nat x)"
  by (auto simp: pack_u_def)

lemma pack_u_ok [simp]: "x < 256 ^ n \<Longrightarrow> pack_u n (int x) = Inr (le_bytes n x)"
proof -
  assume "x < 256 ^ n"
  then have "int x < int (256 ^ n)" by (simp only: of_nat_less_iff)
  then show ?thesis by (simp add: pack_u_def)
qed

lemma pack_u_length: "pack_u n x = Inr bs \<Longrightarrow> length bs = n"
  by (auto simp: pack_u_Inr_iff)

lemma unpack_u_Inr_iff:
  "unpack_u n data off = Inr x \<longleftrightarrow> off + n \<le> length data \<and> x = le_nat (take n (drop off data))"
  by (auto simp: unpack_u_def)

lemma unpack_u_bound: "unpack_u n data off = Inr x \<Longrightarrow> x < 256 ^ n"
  using le_nat_bound [of "take n (drop off data)"] by (auto simp: unpack_u_Inr_iff)

lemma unpack_u_append [simp]:
  "off = length xs \<Longrightarrow> unpack_u n (xs @ le_bytes n x @ ys) off = Inr (x mod 256 ^ n)"
  by (simp add: unpack_u_def)

lemma i64_to_u_bound: "i64_to_u x < 2 ^ 64"
proof -
  have "x mod 2 ^ 64 < 2 ^ 64" by (rule pos_mod_bound) simp
  then show ?thesis by (simp add: i64_to_u_def nat_less_iff)
qed

lemma u_to_i64_i64_to_u [simp]: "in_i64 x \<Longrightarrow> u_to_i64 (i64_to_u x) = x"
proof (cases "0 \<le> x")
  case True
  assume "in_i64 x"
  with True show ?thesis by (simp add: in_i64_def i64_to_u_def u_to_i64_def nat_less_iff)
next
  case False
  assume r: "in_i64 x"
  have "x mod 2 ^ 64 = x + 2 ^ 64"
    by (rule int_mod_pos_eq [of x "2 ^ 64" "-1"]) (use r False in \<open>auto simp: in_i64_def\<close>)
  with r False show ?thesis by (simp add: in_i64_def i64_to_u_def u_to_i64_def nat_less_iff)
qed

lemma i64_to_u_u_to_i64 [simp]: "u < 2 ^ 64 \<Longrightarrow> i64_to_u (u_to_i64 u) = u"
  by (auto simp: i64_to_u_def u_to_i64_def nat_mod_distrib)

lemma in_i64_u_to_i64: "u < 2 ^ 64 \<Longrightarrow> in_i64 (u_to_i64 u)"
  by (auto simp: in_i64_def u_to_i64_def)

lemma pack_i64_Inr_iff: "pack_i64 x = Inr bs \<longleftrightarrow> in_i64 x \<and> bs = le_bytes 8 (i64_to_u x)"
  by (auto simp: pack_i64_def)

lemma unpack_i64_append [simp]:
  "off = length xs \<Longrightarrow> in_i64 x \<Longrightarrow>
   unpack_i64 (xs @ le_bytes 8 (i64_to_u x) @ ys) off = Inr x"
  using i64_to_u_bound [of x] by (simp add: unpack_i64_def)

section \<open>UTF-8\<close>

definition utf8_char :: "char \<Rightarrow> bytes" where
  "utf8_char c = (let n = of_char c :: nat in
     if n < 128 then [word_of_nat n] else [word_of_nat (192 + n div 64), word_of_nat (128 + n mod 64)])"

definition utf8_encode :: "string \<Rightarrow> bytes" where
  "utf8_encode s = concat (map utf8_char s)"

fun utf8_decode :: "bytes \<Rightarrow> string res" where
  "utf8_decode [] = Inr []"
| "utf8_decode (b # bs) =
     (if unat b < 128 then rbind (utf8_decode bs) (\<lambda>s. Inr (char_of (unat b) # s))
      else if unat b = 194 \<or> unat b = 195 then
        (case bs of
           [] \<Rightarrow> Inl UnicodeError
         | c # cs \<Rightarrow>
             if 128 \<le> unat c \<and> unat c < 192
             then rbind (utf8_decode cs) (\<lambda>s. Inr (char_of ((unat b - 192) * 64 + (unat c - 128)) # s))
             else Inl UnicodeError)
      else Inl UnicodeError)"

lemma of_char_bound: "(of_char c :: nat) < 256"
  using of_char_mod_256 [of c, where ?'a = nat] by (metis mod_less_divisor zero_less_numeral)

lemma unat_byte_of_nat: "n < 256 \<Longrightarrow> unat (word_of_nat n :: byte) = n"
  by (simp add: unat_of_nat)

lemma utf8_decode_1: "unat b < 128 \<Longrightarrow> char_of (unat b) = c \<Longrightarrow>
    utf8_decode ([b] @ bs) = rbind (utf8_decode bs) (\<lambda>s. Inr (c # s))"
  by simp

lemma utf8_decode_2:
  "unat b1 = 194 \<or> unat b1 = 195 \<Longrightarrow> 128 \<le> unat b2 \<Longrightarrow> unat b2 < 192 \<Longrightarrow>
   char_of ((unat b1 - 192) * 64 + (unat b2 - 128)) = c \<Longrightarrow>
    utf8_decode ([b1, b2] @ bs) = rbind (utf8_decode bs) (\<lambda>s. Inr (c # s))"
  by auto

lemma utf8_decode_char [simp]:
  "utf8_decode (utf8_char c @ bs) = rbind (utf8_decode bs) (\<lambda>s. Inr (c # s))"
proof (cases "(of_char c :: nat) < 128")
  case True
  then have "utf8_char c = [word_of_nat (of_char c)]" by (simp add: utf8_char_def Let_def)
  moreover have "unat (word_of_nat (of_char c) :: byte) = of_char c"
    using True by (simp add: unat_byte_of_nat)
  ultimately show ?thesis using True by (simp only: utf8_decode_1 char_of_char)
next
  case False
  define n where "n = (of_char c :: nat)"
  have b: "n < 256" using of_char_bound n_def by simp
  have a: "128 \<le> n" using False n_def by simp
  have q: "n div 64 = 2 \<or> n div 64 = 3" using a b by arith
  obtain b1 b2 :: byte where b12: "b1 = word_of_nat (192 + n div 64)" "b2 = word_of_nat (128 + n mod 64)"
    by blast
  have u1: "unat b1 = 192 + n div 64"
    unfolding b12 by (rule unat_byte_of_nat) (use q in auto)
  have u2: "unat b2 = 128 + n mod 64"
    unfolding b12 by (rule unat_byte_of_nat) (simp add: less_le_trans [OF mod_less_divisor])
  have "(192 + n div 64 - 192) * 64 + (128 + n mod 64 - 128) = n" by simp
  then have "char_of ((unat b1 - 192) * 64 + (unat b2 - 128)) = c"
    unfolding u1 u2 by (simp only: n_def char_of_char)
  moreover have "utf8_char c = [b1, b2]"
    using False by (simp add: utf8_char_def Let_def n_def b12)
  moreover have "unat b1 = 194 \<or> unat b1 = 195" "128 \<le> unat b2" "unat b2 < 192"
    using q unfolding u1 u2 by auto
  ultimately show ?thesis by (simp only: utf8_decode_2)
qed

lemma utf8_roundtrip [simp]: "utf8_decode (utf8_encode s) = Inr s"
  by (induction s) (simp_all add: utf8_encode_def)

lemma utf8_encode_inj: "utf8_encode s = utf8_encode t \<Longrightarrow> s = t"
  by (metis utf8_roundtrip sum.inject(2))

lemma utf8_encode_length: "length (utf8_encode s) \<le> 2 * length s"
  by (induction s) (auto simp: utf8_encode_def utf8_char_def Let_def)

end
