(* ===== verification/Py_Types.thy ===== *)
theory Py_Types
  imports Py_Float Struct_Pack
begin

text \<open>
  \<open>tinydb/types.py\<close>: the column types, the column definitions, and the check and conversion a
  value passes before it is stored. \<open>pval\<close> holds the Python objects that rows and SQL
  expressions carry; \<open>bool\<close> is a subclass of \<open>int\<close> in Python, so a \<open>PBool\<close> also counts as a
  number. \<open>PRowId\<close> is the \<open>RowId\<close> that a scan puts under the key \<open>_rowid\<close>.
\<close>

section \<open>Python values\<close>

datatype pval =
    PNone
  | PBool bool
  | PInt int
  | PFloat double
  | PStr string
  | PRowId nat nat

text \<open>The number a bool, int or float stands for.\<close>

fun py_num :: "pval \<Rightarrow> xnum option" where
  "py_num (PBool b) = Some (Fin (if b then 1 else 0))"
| "py_num (PInt i) = Some (Fin (of_int i))"
| "py_num (PFloat w) = Some (f_xnum w)"
| "py_num _ = None"

text \<open>\<open>a == b\<close>, and the truth value of an object.\<close>

definition py_eq :: "pval \<Rightarrow> pval \<Rightarrow> bool" where
  "py_eq a b = (case (py_num a, py_num b) of
     (Some x, Some y) \<Rightarrow> xnum_eq x y
   | (None, None) \<Rightarrow> a = b
   | _ \<Rightarrow> False)"

fun py_truth :: "pval \<Rightarrow> bool" where
  "py_truth PNone = False"
| "py_truth (PBool b) = b"
| "py_truth (PInt i) = (i \<noteq> 0)"
| "py_truth (PFloat w) = (\<not> xnum_eq (f_xnum w) (Fin 0))"
| "py_truth (PStr s) = (s \<noteq> [])"
| "py_truth (PRowId _ _) = True"

lemma py_eq_sym: "py_eq a b = py_eq b a"
  by (auto simp: py_eq_def xnum_eq_sym split: option.splits)

lemma py_eq_trans: "py_eq a b \<Longrightarrow> py_eq b c \<Longrightarrow> py_eq a c"
  by (auto simp: py_eq_def split: option.splits dest: xnum_eq_trans)

lemma py_eq_None_iff [simp]: "py_eq PNone b \<longleftrightarrow> b = PNone" "py_eq b PNone \<longleftrightarrow> b = PNone"
  by (cases b; simp add: py_eq_def)+

lemma py_eq_PStr_iff [simp]: "py_eq (PStr s) b \<longleftrightarrow> b = PStr s"
  by (cases b; auto simp: py_eq_def)

lemma py_eq_PInt_iff [simp]: "py_eq (PInt i) (PInt j) \<longleftrightarrow> i = j"
  by (simp add: py_eq_def)

lemma py_eq_refl: "(\<And>w. a = PFloat w \<Longrightarrow> \<not> f_is_nan w) \<Longrightarrow> py_eq a a"
  by (cases a) (auto simp: py_eq_def f_xnum_def)

section \<open>Column definitions\<close>

datatype DataType = INTEGER | FLOAT | TEXT | BOOLEAN

record ColumnDef =
  col_name :: string
  data_type :: DataType
  nullable :: bool
  primary_key :: bool
  is_unique :: bool

section \<open>validate_value and convert_value\<close>

fun is_instance_int :: "pval \<Rightarrow> bool" where
  "is_instance_int (PBool _) = True"
| "is_instance_int (PInt _) = True"
| "is_instance_int _ = False"

fun is_instance_bool :: "pval \<Rightarrow> bool" where
  "is_instance_bool (PBool _) = True"
| "is_instance_bool _ = False"

fun is_instance_float :: "pval \<Rightarrow> bool" where
  "is_instance_float (PFloat _) = True"
| "is_instance_float _ = False"

fun is_instance_str :: "pval \<Rightarrow> bool" where
  "is_instance_str (PStr _) = True"
| "is_instance_str _ = False"

definition validate_value :: "pval \<Rightarrow> ColumnDef \<Rightarrow> unit res" where
  "validate_value v col =
     (if v = PNone then (if \<not> nullable col then Inl SchemaMismatchError else Inr ())
      else case data_type col of
        INTEGER \<Rightarrow>
          if is_instance_bool v \<or> is_instance_float v then Inl SchemaMismatchError
          else if \<not> is_instance_int v then Inl SchemaMismatchError
          else Inr ()
      | FLOAT \<Rightarrow>
          if is_instance_bool v \<or> \<not> (is_instance_int v \<or> is_instance_float v)
          then Inl SchemaMismatchError else Inr ()
      | TEXT \<Rightarrow> if \<not> is_instance_str v then Inl SchemaMismatchError else Inr ()
      | BOOLEAN \<Rightarrow> if \<not> is_instance_bool v then Inl SchemaMismatchError else Inr ())"

text \<open>\<open>float(value)\<close> of an int (a bool counts as 0 or 1).\<close>

fun py_float :: "pval \<Rightarrow> double res" where
  "py_float (PInt i) = f_of_int i"
| "py_float (PBool b) = f_of_int (if b then 1 else 0)"
| "py_float (PFloat w) = Inr w"
| "py_float _ = Inl TypeError"

definition convert_value :: "pval \<Rightarrow> ColumnDef \<Rightarrow> pval res" where
  "convert_value v col =
     rbind (validate_value v col) (\<lambda>_.
       if v = PNone then Inr PNone
       else if data_type col = FLOAT \<and> is_instance_int v
            then rbind (py_float v) (\<lambda>w. Inr (PFloat w))
       else Inr v)"

text \<open>
  The value types of the four column types: what \<open>convert_value\<close> promises its caller. The
  converted value of a FLOAT column is always a float; an INTEGER column never holds a bool.
\<close>

fun has_type :: "DataType \<Rightarrow> pval \<Rightarrow> bool" where
  "has_type INTEGER (PInt _) = True"
| "has_type FLOAT (PFloat _) = True"
| "has_type TEXT (PStr _) = True"
| "has_type BOOLEAN (PBool _) = True"
| "has_type _ _ = False"

definition conforms :: "pval \<Rightarrow> ColumnDef \<Rightarrow> bool" where
  "conforms v col \<longleftrightarrow> (if v = PNone then nullable col else has_type (data_type col) v)"

lemma has_type_cases:
  "has_type t v \<Longrightarrow>
   (t = INTEGER \<and> (\<exists>i. v = PInt i)) \<or> (t = FLOAT \<and> (\<exists>w. v = PFloat w)) \<or>
   (t = TEXT \<and> (\<exists>s. v = PStr s)) \<or> (t = BOOLEAN \<and> (\<exists>b. v = PBool b))"
  by (cases t; cases v) auto

lemma convert_value_conforms: "convert_value v col = Inr w \<Longrightarrow> conforms w col"
  by (cases v; cases "data_type col")
     (auto simp: convert_value_def validate_value_def conforms_def split: if_splits)

text \<open>Conversion is the identity on a value that already conforms, so it is idempotent.\<close>

lemma convert_value_id: "conforms v col \<Longrightarrow> convert_value v col = Inr v"
  by (cases v; cases "data_type col")
     (auto simp: convert_value_def validate_value_def conforms_def)

lemma convert_value_errors:
  "convert_value v col = Inl e \<Longrightarrow>
   e = SchemaMismatchError \<or> (e = OverflowError \<and> data_type col = FLOAT \<and> (\<exists>i. v = PInt i))"
  by (cases v; cases "data_type col")
     (auto simp: convert_value_def validate_value_def f_of_int_def rbind_Inl_iff Let_def
           split: if_splits)

definition convert_row :: "pval list \<Rightarrow> ColumnDef list \<Rightarrow> pval list res" where
  "convert_row row cols = rmap (\<lambda>(v, c). convert_value v c) (zip row cols)"

lemma convert_row_conforms:
  assumes "convert_row row cols = Inr vs"
  shows "length vs = min (length row) (length cols)"
    and "i < length vs \<Longrightarrow> conforms (vs ! i) (cols ! i)"
proof -
  have all: "list_all2 (\<lambda>(v, c) w. convert_value v c = Inr w) (zip row cols) vs"
    using assms unfolding convert_row_def rmap_Inr_iff by (simp add: case_prod_beta')
  then show len: "length vs = min (length row) (length cols)"
    by (auto dest: list_all2_lengthD)
  assume "i < length vs"
  with len have "i < length row" "i < length cols" by simp_all
  with all \<open>i < length vs\<close> have "convert_value (row ! i) (cols ! i) = Inr (vs ! i)"
    by (auto simp: list_all2_conv_all_nth)
  then show "conforms (vs ! i) (cols ! i)" by (rule convert_value_conforms)
qed

section \<open>Claims\<close>

text \<open>
  C25. Type conversion is sound and complete for the column types: \<open>convert_value\<close> succeeds
  only with a value of the column's type (NULL only where the column allows it), and a value
  that is already of the column's type comes back unchanged. A bool is never stored in an
  INTEGER or FLOAT column.
\<close>

theorem convert_value_sound:
  "(\<forall>w. convert_value v col = Inr w \<longrightarrow> conforms w col \<and> convert_value w col = Inr w) \<and>
   (conforms v col \<longrightarrow> convert_value v col = Inr v) \<and>
   convert_value (PBool b) (col\<lparr>data_type := INTEGER\<rparr>) = Inl SchemaMismatchError"
  by (auto simp: convert_value_conforms convert_value_id)
     (simp add: convert_value_def validate_value_def)

theorem convert_value_sound_witness:
  "convert_value (PInt 5) \<lparr>col_name = ''n'', data_type = INTEGER, nullable = False,
     primary_key = True, is_unique = False\<rparr> = Inr (PInt 5)"
  using convert_value_sound
    [of "PInt 5" "\<lparr>col_name = ''n'', data_type = INTEGER, nullable = False,
       primary_key = True, is_unique = False\<rparr>"]
  by (simp add: conforms_def)

end
