(* ===== verification/Row_Format.thy ===== *)
theory Row_Format
  imports Py_Types
begin

unbundle bit_operations_syntax

text \<open>
  \<open>tinydb/row_format.py\<close>: a row is a NULL bitmap of one bit per value, the number of columns as a
  16-bit integer, and the encodings of the values that are not NULL, in column order.
\<close>

section \<open>The NULL bitmap\<close>

definition bitmap_size :: "nat \<Rightarrow> nat" where
  "bitmap_size n = (n + 7) div 8"

definition set_flag :: "bytes \<Rightarrow> nat \<Rightarrow> bytes" where
  "set_flag bm i = bm[i div 8 := (bm ! (i div 8)) OR push_bit (i mod 8) 1]"

definition encode_null_flags :: "bool list \<Rightarrow> bytes" where
  "encode_null_flags flags =
     fold (\<lambda>(i, is_null) bm. if is_null then set_flag bm i else bm)
       (enumerate 0 flags) (replicate (bitmap_size (length flags)) 0)"

definition decode_null_flags :: "bytes \<Rightarrow> nat \<Rightarrow> bool list res" where
  "decode_null_flags bitmap num_columns =
     rmap (\<lambda>i. if i div 8 < length bitmap
               then Inr (bitmap ! (i div 8) AND push_bit (i mod 8) 1 \<noteq> 0)
               else Inl IndexError) [0..<num_columns]"

definition flag_of :: "bytes \<Rightarrow> nat \<Rightarrow> bool" where
  "flag_of bm i = bit (bm ! (i div 8)) (i mod 8)"

lemma bitmap_size_bound: "i < n \<Longrightarrow> i div 8 < bitmap_size n"
  unfolding bitmap_size_def by arith

lemma length_set_flag [simp]: "length (set_flag bm i) = length bm"
  by (simp add: set_flag_def)

lemma bit_push_one: "k < 8 \<Longrightarrow> bit (push_bit k (1 :: byte)) j \<longleftrightarrow> j = k"
  by (simp only: bit_push_bit_iff bit_1_iff) auto

lemma and_push_bit_one:
  assumes "k < 8"
  shows "(b AND push_bit k (1 :: byte) \<noteq> 0) = bit b k"
proof -
  have "bit (b AND push_bit k 1) j \<longleftrightarrow> j = k \<and> bit b k" for j
    using assms by (simp only: bit_and_iff bit_push_one) auto
  then show ?thesis using assms by (metis bit_0_eq bit_eqI bot_apply bot_bool_def)
qed

lemma flag_of_set_flag:
  assumes "i div 8 < length bm"
  shows "flag_of (set_flag bm i) j \<longleftrightarrow> flag_of bm j \<or> j = i"
proof (cases "j div 8 = i div 8")
  case True
  then have "j mod 8 = i mod 8 \<longleftrightarrow> j = i" by (metis div_mult_mod_eq)
  with True assms show ?thesis
    by (simp only: flag_of_def set_flag_def nth_list_update_eq bit_or_iff bit_push_one
        mod_less_divisor zero_less_numeral)
next
  case False
  then have "j \<noteq> i" by auto
  with False show ?thesis by (simp add: flag_of_def set_flag_def)
qed

lemma fold_flags:
  assumes "(k + length flags + 7) div 8 \<le> length bm"
  shows "length (fold (\<lambda>(i, b) bm. if b then set_flag bm i else bm) (enumerate k flags) bm) = length bm \<and>
    (\<forall>j. flag_of (fold (\<lambda>(i, b) bm. if b then set_flag bm i else bm) (enumerate k flags) bm) j \<longleftrightarrow>
      flag_of bm j \<or> (k \<le> j \<and> j < k + length flags \<and> flags ! (j - k)))"
  using assms
proof (induction flags arbitrary: k bm)
  case (Cons b flags)
  let ?bm = "if b then set_flag bm k else bm"
  have k: "k div 8 < length bm" using Cons.prems by simp
  have "(Suc k + length flags + 7) div 8 \<le> length ?bm" using Cons.prems by simp
  note IH = Cons.IH [OF this]
  have "flag_of ?bm j \<longleftrightarrow> flag_of bm j \<or> (b \<and> j = k)" for j
    using k by (auto simp: flag_of_set_flag)
  with IH show ?case
    by (auto simp: nth_Cons' Suc_le_eq le_less)
qed auto

lemma length_encode_null_flags [simp]:
  "length (encode_null_flags flags) = bitmap_size (length flags)"
  using fold_flags [of 0 flags "replicate (bitmap_size (length flags)) 0"]
  by (simp add: encode_null_flags_def bitmap_size_def)

lemma flag_of_encode: "i < length flags \<Longrightarrow> flag_of (encode_null_flags flags) i = flags ! i"
  using fold_flags [of 0 flags "replicate (bitmap_size (length flags)) 0"] bitmap_size_bound [of i]
  by (simp add: encode_null_flags_def bitmap_size_def flag_of_def)

lemma decode_encode_null_flags [simp]:
  "decode_null_flags (encode_null_flags flags) (length flags) = Inr flags"
proof -
  have "decode_null_flags (encode_null_flags flags) (length flags)
      = Inr (map (\<lambda>i. flags ! i) [0..<length flags])"
    unfolding decode_null_flags_def
    by (rule rmap_total)
       (simp add: bitmap_size_bound and_push_bit_one flag_of_encode [unfolded flag_of_def]
         del: push_bit_of_1)
  then show ?thesis by (simp add: map_nth)
qed

section \<open>Values\<close>

text \<open>The body of the loop of \<open>serialize_row\<close> for a value that is not None.\<close>

definition serialize_value :: "DataType \<Rightarrow> pval \<Rightarrow> bytes res" where
  "serialize_value t v = (case t of
     INTEGER \<Rightarrow> (case v of PInt i \<Rightarrow> pack_i64 i | PBool b \<Rightarrow> pack_i64 (if b then 1 else 0)
                 | _ \<Rightarrow> Inl StructError)
   | FLOAT \<Rightarrow> (if is_instance_int v \<or> is_instance_float v
               then rbind (py_float v) (\<lambda>w. Inr (le_bytes 8 (unat w))) else Inl StructError)
   | TEXT \<Rightarrow> (case v of
       PStr s \<Rightarrow> (let encoded = utf8_encode s in
         rbind (pack_u 4 (int (length encoded))) (\<lambda>len. Inr (len @ encoded)))
     | _ \<Rightarrow> Inl AttributeError)
   | BOOLEAN \<Rightarrow> Inr [if py_truth v then 1 else 0])"

fun serialize_body :: "pval list \<Rightarrow> ColumnDef list \<Rightarrow> bytes res" where
  "serialize_body (v # vs) (c # cs) =
     (if v = PNone then serialize_body vs cs
      else rbind (serialize_value (data_type c) v) (\<lambda>b.
           rbind (serialize_body vs cs) (\<lambda>bs. Inr (b @ bs))))"
| "serialize_body _ _ = Inr []"

definition serialize_row :: "pval list \<Rightarrow> ColumnDef list \<Rightarrow> bytes res" where
  "serialize_row values columns =
     (let n = length columns; null_flags = map (\<lambda>v. v = PNone) values in
      rbind (pack_u 2 (int n)) (\<lambda>num.
      rbind (serialize_body values columns) (\<lambda>body.
        Inr (encode_null_flags null_flags @ num @ body))))"

text \<open>One value read at an offset, with the offset behind it.\<close>

definition read_value :: "DataType \<Rightarrow> bytes \<Rightarrow> nat \<Rightarrow> (pval \<times> nat) res" where
  "read_value t data off = (case t of
     INTEGER \<Rightarrow> rbind (unpack_i64 data off) (\<lambda>i. Inr (PInt i, off + 8))
   | FLOAT \<Rightarrow> rbind (unpack_u 8 data off) (\<lambda>u. Inr (PFloat (word_of_nat u), off + 8))
   | TEXT \<Rightarrow> rbind (unpack_u 4 data off) (\<lambda>len.
       rbind (utf8_decode (slice_get data (int (off + 4)) (int (off + 4 + len)))) (\<lambda>s.
         Inr (PStr s, off + 4 + len)))
   | BOOLEAN \<Rightarrow> rbind (unpack_u 1 data off) (\<lambda>u. Inr (PBool (u \<noteq> 0), off + 1)))"

text \<open>
  The loop of \<open>deserialize_row\<close>: \<open>i\<close> is the column, \<open>k\<close> the columns still to read. The count
  comes from the data, so it may exceed the columns of the table.
\<close>

fun deserialize_loop ::
  "bytes \<Rightarrow> bool list \<Rightarrow> ColumnDef list \<Rightarrow> nat \<Rightarrow> nat \<Rightarrow> nat \<Rightarrow> pval list res" where
  "deserialize_loop data flags columns i off 0 = Inr []"
| "deserialize_loop data flags columns i off (Suc k) =
     (if length flags \<le> i then Inl IndexError
      else if flags ! i
      then rbind (deserialize_loop data flags columns (Suc i) off k) (\<lambda>vs. Inr (PNone # vs))
      else if length columns \<le> i then Inl IndexError
      else rbind (read_value (data_type (columns ! i)) data off) (\<lambda>(v, off').
           rbind (deserialize_loop data flags columns (Suc i) off' k) (\<lambda>vs. Inr (v # vs))))"

definition deserialize_row :: "bytes \<Rightarrow> ColumnDef list \<Rightarrow> pval list res" where
  "deserialize_row data columns =
     (if data = [] then Inr []
      else let n = length columns; nb = bitmap_size n in
        rbind (decode_null_flags (take nb data) n) (\<lambda>flags.
        rbind (unpack_u 2 data nb) (\<lambda>num_columns.
          deserialize_loop data flags columns 0 (nb + 2) num_columns)))"

text \<open>The values that have an encoding: a 64-bit integer, a text of less than \<open>2 ^ 32\<close> bytes.\<close>

fun storable :: "pval \<Rightarrow> bool" where
  "storable (PInt i) = in_i64 i"
| "storable (PStr s) = (length (utf8_encode s) < 2 ^ 32)"
| "storable _ = True"

lemma serialize_read_value:
  assumes "has_type t v" and "storable v"
  shows "\<exists>b. serialize_value t v = Inr b \<and>
    (\<forall>xs ys. read_value t (xs @ b @ ys) (length xs) = Inr (v, length xs + length b))"
proof (cases v)
  case (PInt i)
  with assms have "t = INTEGER" "in_i64 i" by (cases t; simp)+
  with PInt show ?thesis
    by (intro exI [of _ "le_bytes 8 (i64_to_u i)"])
       (simp_all add: serialize_value_def read_value_def pack_i64_Inr_iff)
next
  case (PFloat w)
  with assms have "t = FLOAT" by (cases t; simp)
  moreover have "unat w mod 256 ^ 8 = unat w"
    using unsigned_less [of w, where ?'a = nat] by simp
  ultimately show ?thesis using PFloat
    by (intro exI [of _ "le_bytes 8 (unat w)"]) (simp_all add: serialize_value_def read_value_def)
next
  case (PStr s)
  let ?e = "utf8_encode s"
  have t: "t = TEXT" and len: "length ?e < 256 ^ 4" using assms PStr by (cases t; simp)+
  have "slice_get (xs @ (le_bytes 4 (length ?e) @ ?e) @ ys) (int (length xs + 4))
      (int (length xs + 4 + length ?e)) = ?e" for xs ys
    by (subst slice_get_nat) simp_all
  with t len PStr show ?thesis
    by (intro exI [of _ "le_bytes 4 (length ?e) @ ?e"])
       (simp_all add: serialize_value_def read_value_def Let_def)
next
  case (PBool b)
  with assms have "t = BOOLEAN" by (cases t; simp)
  moreover have "[if b then 1 else 0] = le_bytes 1 (if b then 1 else 0)" by simp
  ultimately show ?thesis using PBool
    by (intro exI [of _ "[if b then 1 else 0]"])
       (auto simp: serialize_value_def read_value_def unpack_u_def)
qed (use assms in \<open>cases t; simp\<close>)+

definition storable_row :: "pval list \<Rightarrow> ColumnDef list \<Rightarrow> bool" where
  "storable_row vs cs \<longleftrightarrow>
     list_all2 (\<lambda>v c. v = PNone \<or> has_type (data_type c) v \<and> storable v) vs cs"

text \<open>Converted values of full length that have an encoding at all are storable.\<close>

lemma serialize_value_storable:
  assumes "has_type t v" and "serialize_value t v = Inr b"
  shows "storable v"
  using assms
  by (cases v; cases t) (auto simp: serialize_value_def pack_i64_Inr_iff pack_u_def Let_def split: if_splits)

lemma serialize_body_storable:
  "serialize_body vs cs = Inr b \<Longrightarrow> list_all2 conforms vs cs \<Longrightarrow> storable_row vs cs"
proof (induction vs cs arbitrary: b rule: list_induct2')
  case (4 v vs c cs)
  then show ?case by (auto simp: storable_row_def conforms_def split: if_splits intro: serialize_value_storable)
qed (simp_all add: storable_row_def)

lemma serialized_storable:
  assumes "convert_row row cols = Inr vs" and "serialize_row vs cols = Inr d" and "length vs = length cols"
  shows "storable_row vs cols"
proof -
  have "list_all2 conforms vs cols"
    using convert_row_conforms(2) [OF assms(1)] assms(3) by (simp add: list_all2_conv_all_nth)
  moreover obtain b where "serialize_body vs cols = Inr b" using assms(2) by (auto simp: serialize_row_def Let_def)
  ultimately show ?thesis using serialize_body_storable by blast
qed

lemma serialize_deserialize_body:
  assumes "storable_row vs cs"
  shows "\<exists>b. serialize_body vs cs = Inr b \<and>
    (\<forall>pre fs ds. length fs = length ds \<longrightarrow>
      deserialize_loop (pre @ b) (fs @ map (\<lambda>v. v = PNone) vs) (ds @ cs)
        (length fs) (length pre) (length vs) = Inr vs)"
  using assms unfolding storable_row_def
proof (induction vs cs rule: list_all2_induct)
  case Nil
  then show ?case by simp
next
  case (Cons v vs c cs)
  from Cons.IH obtain b where b: "serialize_body vs cs = Inr b"
    and IH: "\<And>pre fs ds. length fs = length ds \<Longrightarrow>
      deserialize_loop (pre @ b) (fs @ map (\<lambda>v. v = PNone) vs) (ds @ cs)
        (length fs) (length pre) (length vs) = Inr vs"
    by blast
  show ?case
  proof (cases "v = PNone")
    case True
    have "deserialize_loop (pre @ b) (fs @ True # map (\<lambda>v. v = PNone) vs) (ds @ c # cs)
        (Suc (length fs)) (length pre) (length vs) = Inr vs" if "length fs = length ds" for pre fs ds
      using IH [of "fs @ [True]" "ds @ [c]" pre] that by simp
    with True b show ?thesis by (intro exI [of _ b]) (simp_all add: nth_append)
  next
    case False
    with Cons.hyps have "has_type (data_type c) v" "storable v" by auto
    then obtain a where a: "serialize_value (data_type c) v = Inr a"
      and ra: "\<And>xs ys. read_value (data_type c) (xs @ a @ ys) (length xs) = Inr (v, length xs + length a)"
      using serialize_read_value by blast
    have "deserialize_loop (pre @ a @ b) (fs @ False # map (\<lambda>v. v = PNone) vs) (ds @ c # cs)
        (Suc (length fs)) (length pre + length a) (length vs) = Inr vs"
      if "length fs = length ds" for pre fs ds
      using IH [of "fs @ [False]" "ds @ [c]" "pre @ a"] that by simp
    with False a b ra show ?thesis
      by (intro exI [of _ "a @ b"]) (simp_all add: nth_append)
  qed
qed

lemma serialize_deserialize:
  assumes "storable_row vs cs" and "length cs < 65536"
  obtains b where "serialize_row vs cs = Inr b" and "deserialize_row b cs = Inr vs"
    and "bitmap_size (length cs) + 2 \<le> length b"
proof -
  obtain body where body: "serialize_body vs cs = Inr body"
    and rd: "\<And>pre fs ds. length fs = length ds \<Longrightarrow>
      deserialize_loop (pre @ body) (fs @ map (\<lambda>v. v = PNone) vs) (ds @ cs)
        (length fs) (length pre) (length vs) = Inr vs"
    using serialize_deserialize_body [OF assms(1)] by blast
  have len: "length vs = length cs"
    using assms(1) by (auto simp: storable_row_def dest: list_all2_lengthD)
  let ?flags = "map (\<lambda>v. v = PNone) vs"
  let ?bm = "encode_null_flags ?flags"
  let ?num = "le_bytes 2 (length cs)"
  have n: "length cs < 256 ^ 2" using assms(2) by simp
  then have "serialize_row vs cs = Inr (?bm @ ?num @ body)"
    using body pack_u_ok [OF n] by (simp add: serialize_row_def)
  moreover have "deserialize_row (?bm @ ?num @ body) cs = Inr vs"
  proof -
    have "decode_null_flags ?bm (length cs) = Inr ?flags"
      using decode_encode_null_flags [of ?flags] len by simp
    moreover have "deserialize_loop (?bm @ ?num @ body) ?flags cs 0
        (bitmap_size (length cs) + 2) (length cs) = Inr vs"
      using rd [of "[]" "[]" "?bm @ ?num"] len by simp
    moreover have "unpack_u 2 (?bm @ ?num @ body) (bitmap_size (length cs)) = Inr (length cs)"
      using n len by simp
    ultimately show ?thesis
      using len by (simp add: deserialize_row_def Let_def)
  qed
  ultimately show ?thesis using len by (intro that [of "?bm @ ?num @ body"]) simp_all
qed

section \<open>Claims\<close>

text \<open>
  C15. Rows survive storage: a row whose values are NULL or of their columns' types, with
  integers of 64 bits and texts below \<open>2 ^ 32\<close> bytes, in a table of fewer than 65536 columns, is
  serialized without an error and read back unchanged by \<open>deserialize_row\<close>.
\<close>

theorem row_roundtrip:
  assumes "storable_row vs cs" and "length cs < 65536"
  shows "rbind (serialize_row vs cs) (\<lambda>b. deserialize_row b cs) = Inr vs"
proof -
  obtain b where "serialize_row vs cs = Inr b" and "deserialize_row b cs = Inr vs"
    using assms by (rule serialize_deserialize)
  then show ?thesis by simp
qed

theorem row_roundtrip_witness:
  "let c = \<lparr>col_name = ''a'', data_type = INTEGER, nullable = True, primary_key = False, is_unique = False\<rparr>;
       t = c\<lparr>data_type := TEXT\<rparr>
   in rbind (serialize_row [PInt (-7), PNone, PStr ''x''] [c, c, t])
        (\<lambda>b. deserialize_row b [c, c, t]) = Inr [PInt (-7), PNone, PStr ''x'']"
  unfolding Let_def
  by (rule row_roundtrip)
     (simp_all add: storable_row_def in_i64_def utf8_encode_def utf8_char_def Let_def)

end
