(* ===== verification/Page.thy ===== *)
theory Page
  imports Struct_Pack
begin

text \<open>
  \<open>tinydb/page.py\<close> with the sizes of \<open>tinydb/constants.py\<close>: a 4096-byte slotted page. The 32-byte
  header and the slot array (4 bytes per slot) grow from the front, the rows from the back.
  The abstract view of a page is \<open>page_rows\<close>, its slots as a list of optional rows.
\<close>

section \<open>Constants, page types, row ids\<close>

definition PAGE_SIZE :: nat where "PAGE_SIZE = 4096"
definition PAGE_HEADER_SIZE :: nat where "PAGE_HEADER_SIZE = 32"
definition SLOT_SIZE :: nat where "SLOT_SIZE = 4"
definition MAX_FREE_SPACE :: nat where "MAX_FREE_SPACE = PAGE_SIZE - PAGE_HEADER_SIZE"

lemmas page_consts = PAGE_SIZE_def PAGE_HEADER_SIZE_def SLOT_SIZE_def MAX_FREE_SPACE_def

datatype PageType = DATA | CATALOG | INDEX

fun page_type_value :: "PageType \<Rightarrow> nat" where
  "page_type_value DATA = 1"
| "page_type_value CATALOG = 2"
| "page_type_value INDEX = 3"

definition page_type_of :: "nat \<Rightarrow> PageType res" where
  "page_type_of n = (if n = 1 then Inr DATA else if n = 2 then Inr CATALOG
     else if n = 3 then Inr INDEX else Inl ValueError)"

record RowId =
  rid_page_id :: nat
  rid_slot_index :: nat

record Page =
  p_page_id :: nat
  p_page_type :: "PageType option"
  p_data :: bytes
  p_dirty :: bool

section \<open>The header\<close>

record page_header =
  h_page_id :: nat
  h_page_type :: PageType
  h_slot_count :: nat
  h_free_space :: nat
  h_free_offset :: nat
  h_next_page_id :: nat
  h_flags :: nat

text \<open>The format \<open>"<IBHHHIB16x"\<close>.\<close>

definition pack_page_header :: "page_header \<Rightarrow> bytes res" where
  "pack_page_header h =
     rbind (pack_u 4 (int (h_page_id h))) (\<lambda>a.
     rbind (pack_u 1 (int (page_type_value (h_page_type h)))) (\<lambda>b.
     rbind (pack_u 2 (int (h_slot_count h))) (\<lambda>c.
     rbind (pack_u 2 (int (h_free_space h))) (\<lambda>d.
     rbind (pack_u 2 (int (h_free_offset h))) (\<lambda>e.
     rbind (pack_u 4 (int (h_next_page_id h))) (\<lambda>f.
     rbind (pack_u 1 (int (h_flags h))) (\<lambda>g.
       Inr (a @ b @ c @ d @ e @ f @ g @ replicate 16 0))))))))"

text \<open>The unsigned field of \<open>n\<close> bytes at \<open>off\<close>.\<close>

definition fld :: "nat \<Rightarrow> nat \<Rightarrow> bytes \<Rightarrow> nat" where
  "fld off n d = le_nat (take n (drop off d))"

definition parse_page_header :: "bytes \<Rightarrow> page_header res" where
  "parse_page_header data =
     (if length data < PAGE_HEADER_SIZE then Inl StructError
      else rbind (page_type_of (fld 4 1 data)) (\<lambda>t.
        Inr \<lparr>h_page_id = fld 0 4 data, h_page_type = t, h_slot_count = fld 5 2 data,
             h_free_space = fld 7 2 data, h_free_offset = fld 9 2 data,
             h_next_page_id = fld 11 4 data, h_flags = fld 15 1 data\<rparr>))"

definition header_fits :: "page_header \<Rightarrow> bool" where
  "header_fits h \<longleftrightarrow> h_page_id h < 2 ^ 32 \<and> h_slot_count h < 2 ^ 16 \<and> h_free_space h < 2 ^ 16 \<and>
     h_free_offset h < 2 ^ 16 \<and> h_next_page_id h < 2 ^ 32 \<and> h_flags h < 256"

lemma page_type_roundtrip [simp]: "page_type_of (page_type_value t) = Inr t"
  by (cases t) (simp_all add: page_type_of_def)

lemma page_type_value_less [simp]: "page_type_value t < 256"
  by (cases t) simp_all

definition header_bytes :: "page_header \<Rightarrow> bytes" where
  "header_bytes h = le_bytes 4 (h_page_id h) @ le_bytes 1 (page_type_value (h_page_type h)) @
     le_bytes 2 (h_slot_count h) @ le_bytes 2 (h_free_space h) @ le_bytes 2 (h_free_offset h) @
     le_bytes 4 (h_next_page_id h) @ le_bytes 1 (h_flags h) @ replicate 16 0"

lemma length_header_bytes [simp]: "length (header_bytes h) = 32"
  by (simp add: header_bytes_def)

lemma pack_page_header_Inr_iff:
  "pack_page_header h = Inr bs \<longleftrightarrow> header_fits h \<and> bs = header_bytes h"
  by (auto simp: pack_page_header_def header_fits_def header_bytes_def pack_u_Inr_iff)

lemma pack_page_header_ok: "header_fits h \<Longrightarrow> pack_page_header h = Inr (header_bytes h)"
  by (simp add: pack_page_header_Inr_iff)

lemma pack_page_header_cases:
  "pack_page_header h = (if header_fits h then Inr (header_bytes h) else Inl StructError)"
proof (cases "pack_page_header h")
  case (Inl e)
  moreover have "\<not> header_fits h" using Inl pack_page_header_ok [of h] by auto
  moreover have "e = StructError"
    using Inl by (auto simp: pack_page_header_def rbind_Inl_iff pack_u_def split: if_splits)
  ultimately show ?thesis by simp
qed (simp add: pack_page_header_Inr_iff)

lemma fld_bound: "fld off n d < 256 ^ n"
proof -
  have "fld off n d < 256 ^ length (take n (drop off d))" by (simp only: fld_def le_nat_bound)
  also have "\<dots> \<le> 256 ^ n" by (rule power_increasing) simp_all
  finally show ?thesis .
qed

lemma fld_overwrite_other:
  "i + length ys \<le> length xs \<Longrightarrow> a + n \<le> length xs \<Longrightarrow> a + n \<le> i \<or> i + length ys \<le> a \<Longrightarrow>
   fld a n (overwrite xs i ys) = fld a n xs"
  by (simp add: fld_def take_drop_overwrite_other)

lemma fld_append_left: "a + n \<le> length xs \<Longrightarrow> fld a n (xs @ ys) = fld a n xs"
  by (simp add: fld_def)

lemma fld_header_bytes:
  assumes "header_fits h"
  shows "fld 0 4 (header_bytes h) = h_page_id h" "fld 4 1 (header_bytes h) = page_type_value (h_page_type h)"
    "fld 5 2 (header_bytes h) = h_slot_count h" "fld 7 2 (header_bytes h) = h_free_space h"
    "fld 9 2 (header_bytes h) = h_free_offset h" "fld 11 4 (header_bytes h) = h_next_page_id h"
    "fld 15 1 (header_bytes h) = h_flags h"
  using assms by (simp_all add: fld_def header_bytes_def header_fits_def del: le_bytes.simps)

lemma parse_page_header_header_bytes:
  assumes "header_fits h"
  shows "parse_page_header (header_bytes h @ rest) = Inr h"
  using assms
  by (simp add: parse_page_header_def fld_append_left fld_header_bytes [unfolded One_nat_def] page_consts)

lemma overwrite_0: "length ys \<le> length xs \<Longrightarrow> overwrite xs 0 ys = ys @ drop (length ys) xs"
  by (simp add: overwrite_def)

lemma parse_overwrite_header:
  "header_fits h \<Longrightarrow> 32 \<le> length d \<Longrightarrow> parse_page_header (overwrite d 0 (header_bytes h)) = Inr h"
  by (simp add: overwrite_0 parse_page_header_header_bytes)

lemma parse_page_header_fits: "parse_page_header d = Inr h \<Longrightarrow> header_fits h"
  using fld_bound [of 0 4 d] fld_bound [of 5 2 d] fld_bound [of 7 2 d] fld_bound [of 9 2 d]
    fld_bound [of 11 4 d] fld_bound [of 15 1 d]
  by (auto simp: parse_page_header_def header_fits_def split: if_splits)

lemma parse_overwrite_other:
  "32 \<le> i \<Longrightarrow> i + length ys \<le> length d \<Longrightarrow>
   parse_page_header (overwrite d i ys) = parse_page_header d"
  by (simp add: parse_page_header_def page_consts fld_overwrite_other)

section \<open>Slots\<close>

definition write_slot :: "bytes \<Rightarrow> nat \<Rightarrow> int \<Rightarrow> int \<Rightarrow> bytes res" where
  "write_slot data slot_idx offset len =
     rbind (pack_u 2 offset) (\<lambda>a. rbind (pack_u 2 len) (\<lambda>b.
       pack_into data (PAGE_HEADER_SIZE + slot_idx * SLOT_SIZE) (a @ b)))"

definition read_slot :: "bytes \<Rightarrow> nat \<Rightarrow> (nat \<times> nat) res" where
  "read_slot data slot_idx =
     (let slot_offset = PAGE_HEADER_SIZE + slot_idx * SLOT_SIZE in
      rbind (unpack_u 2 data slot_offset) (\<lambda>offset.
      rbind (unpack_u 2 data (slot_offset + 2)) (\<lambda>len. Inr (offset, len))))"

section \<open>Operations\<close>

definition create_empty_page :: "nat \<Rightarrow> PageType \<Rightarrow> Page res" where
  "create_empty_page page_id page_type =
     rbind (pack_page_header \<lparr>h_page_id = page_id, h_page_type = page_type, h_slot_count = 0,
        h_free_space = MAX_FREE_SPACE, h_free_offset = PAGE_SIZE, h_next_page_id = 0, h_flags = 0\<rparr>)
       (\<lambda>header. Inr \<lparr>p_page_id = page_id, p_page_type = Some page_type,
          p_data = slice_set (replicate PAGE_SIZE 0) 0 (int PAGE_HEADER_SIZE) header,
          p_dirty = False\<rparr>)"

definition get_free_space :: "Page \<Rightarrow> nat res" where
  "get_free_space page = rbind (parse_page_header (p_data page)) (\<lambda>h. Inr (h_free_space h))"

definition insert_row_into_page :: "Page \<Rightarrow> bytes \<Rightarrow> (nat \<times> Page) res" where
  "insert_row_into_page page row_data =
     (let data = p_data page in
      rbind (parse_page_header data) (\<lambda>h.
      let row_len = length row_data; needed = row_len + SLOT_SIZE in
      if needed > h_free_space h then Inl PageOutOfRangeError
      else
        let slot_idx = h_slot_count h;
            new_free_offset = int (h_free_offset h) - int row_len;
            data1 = slice_set data new_free_offset (new_free_offset + int row_len) row_data
        in rbind (write_slot data1 slot_idx new_free_offset (int row_len)) (\<lambda>data2.
           rbind (pack_page_header (h\<lparr>h_slot_count := h_slot_count h + 1,
               h_free_space := h_free_space h - needed,
               h_free_offset := nat new_free_offset\<rparr>)) (\<lambda>new_header.
             Inr (slot_idx, page\<lparr>p_data := slice_set data2 0 (int PAGE_HEADER_SIZE) new_header,
                                p_dirty := True\<rparr>)))))"

definition get_row_from_page :: "Page \<Rightarrow> nat \<Rightarrow> bytes option res" where
  "get_row_from_page page slot_idx =
     (let data = p_data page in
      rbind (parse_page_header data) (\<lambda>h.
      if slot_idx \<ge> h_slot_count h then Inr None
      else rbind (read_slot data slot_idx) (\<lambda>(offset, len).
        if len = 0 then Inr None
        else Inr (Some (slice_get data (int offset) (int (offset + len)))))))"

definition delete_row_from_page :: "Page \<Rightarrow> nat \<Rightarrow> Page res" where
  "delete_row_from_page page slot_idx =
     (let data = p_data page in
      rbind (parse_page_header data) (\<lambda>h.
      if slot_idx \<ge> h_slot_count h then Inl PageOutOfRangeError
      else rbind (write_slot data slot_idx 0 0) (\<lambda>data1.
           rbind (pack_page_header h) (\<lambda>new_header.
             Inr (page\<lparr>p_data := slice_set data1 0 (int PAGE_HEADER_SIZE) new_header,
                       p_dirty := True\<rparr>)))))"

definition get_slot_count :: "Page \<Rightarrow> nat res" where
  "get_slot_count page = unpack_u 2 (p_data page) 5"

definition get_all_rows_from_page :: "Page \<Rightarrow> bytes list res" where
  "get_all_rows_from_page page =
     rbind (get_slot_count page) (\<lambda>count.
     rbind (rmap (get_row_from_page page) [0..<count]) (\<lambda>rows.
       Inr (List.map_filter id rows)))"

section \<open>Well-formed pages and their abstract rows\<close>

definition slot_off :: "bytes \<Rightarrow> nat \<Rightarrow> nat" where
  "slot_off d i = fld (32 + 4 * i) 2 d"

definition slot_len :: "bytes \<Rightarrow> nat \<Rightarrow> nat" where
  "slot_len d i = fld (34 + 4 * i) 2 d"

definition slot_row :: "bytes \<Rightarrow> nat \<Rightarrow> bytes option" where
  "slot_row d i = (if slot_len d i = 0 then None else Some (take (slot_len d i) (drop (slot_off d i) d)))"

text \<open>
  The free space the header claims lies between the slot array and the rows, and every live slot
  points behind the free space.
\<close>

definition wf_page :: "bytes \<Rightarrow> bool" where
  "wf_page d \<longleftrightarrow> length d = 4096 \<and>
     (\<exists>h. parse_page_header d = Inr h \<and> h_free_offset h \<le> 4096 \<and>
        32 + 4 * h_slot_count h + h_free_space h \<le> h_free_offset h \<and>
        (\<forall>i < h_slot_count h. slot_len d i = 0 \<or>
           (h_free_offset h \<le> slot_off d i \<and> slot_off d i + slot_len d i \<le> 4096)))"

text \<open>Without the claim on the free space a page can still be read.\<close>

definition open_page :: "bytes \<Rightarrow> bool" where
  "open_page d \<longleftrightarrow> length d = 4096 \<and>
     (\<exists>h. parse_page_header d = Inr h \<and> h_free_offset h \<le> 4096 \<and> 32 + 4 * h_slot_count h \<le> h_free_offset h \<and>
        (\<forall>i < h_slot_count h. slot_len d i = 0 \<or>
           (h_free_offset h \<le> slot_off d i \<and> slot_off d i + slot_len d i \<le> 4096)))"

definition page_rows :: "bytes \<Rightarrow> bytes option list" where
  "page_rows d = (case parse_page_header d of
     Inl e \<Rightarrow> [] | Inr h \<Rightarrow> map (slot_row d) [0..<h_slot_count h])"

definition page_next :: "bytes \<Rightarrow> nat" where
  "page_next d = fld 11 4 d"

lemma wf_pageE:
  assumes "wf_page d"
  obtains h where "length d = 4096" "parse_page_header d = Inr h" "header_fits h"
    "h_free_offset h \<le> 4096" "32 + 4 * h_slot_count h + h_free_space h \<le> h_free_offset h"
    "\<And>i. i < h_slot_count h \<Longrightarrow> slot_len d i = 0 \<or>
       (h_free_offset h \<le> slot_off d i \<and> slot_off d i + slot_len d i \<le> 4096)"
  using assms parse_page_header_fits by (auto simp: wf_page_def)

lemma wf_page_open [intro]: "wf_page d \<Longrightarrow> open_page d"
  by (auto simp: wf_page_def open_page_def)

lemma open_pageE:
  assumes "open_page d"
  obtains h where "length d = 4096" "parse_page_header d = Inr h" "header_fits h"
    "h_free_offset h \<le> 4096" "32 + 4 * h_slot_count h \<le> h_free_offset h"
    "\<And>i. i < h_slot_count h \<Longrightarrow> slot_len d i = 0 \<or>
       (h_free_offset h \<le> slot_off d i \<and> slot_off d i + slot_len d i \<le> 4096)"
  using assms parse_page_header_fits by (auto simp: open_page_def)

lemma page_rows_eq: "parse_page_header d = Inr h \<Longrightarrow> page_rows d = map (slot_row d) [0..<h_slot_count h]"
  by (simp add: page_rows_def)

lemma read_slot_eq:
  "36 + 4 * i \<le> length d \<Longrightarrow> read_slot d i = Inr (slot_off d i, slot_len d i)"
  by (simp add: read_slot_def unpack_u_def page_consts slot_off_def slot_len_def fld_def
      Let_def add.commute mult.commute)

lemma get_row_eq:
  assumes "open_page (p_data page)"
  shows "get_row_from_page page i =
    Inr (if i < length (page_rows (p_data page)) then page_rows (p_data page) ! i else None)"
proof -
  let ?d = "p_data page"
  from assms obtain h where h: "length ?d = 4096" "parse_page_header ?d = Inr h"
    "h_free_offset h \<le> 4096" "32 + 4 * h_slot_count h \<le> h_free_offset h"
    and ok: "\<And>i. i < h_slot_count h \<Longrightarrow> slot_len ?d i = 0 \<or>
       (h_free_offset h \<le> slot_off ?d i \<and> slot_off ?d i + slot_len ?d i \<le> 4096)"
    using open_pageE by blast
  show ?thesis
  proof (cases "i < h_slot_count h")
    case True
    with h have "36 + 4 * i \<le> length ?d" by simp
    then have "read_slot ?d i = Inr (slot_off ?d i, slot_len ?d i)" by (rule read_slot_eq)
    moreover have "slot_len ?d i \<noteq> 0 \<Longrightarrow>
        slice_get ?d (int (slot_off ?d i)) (int (slot_off ?d i + slot_len ?d i))
        = take (slot_len ?d i) (drop (slot_off ?d i) ?d)"
      using ok [OF True] h by (subst slice_get_nat) auto
    ultimately show ?thesis using True h
      by (auto simp: get_row_from_page_def page_rows_eq slot_row_def Let_def)
  next
    case False
    with h show ?thesis by (simp add: get_row_from_page_def page_rows_eq Let_def)
  qed
qed

lemma slot_overwrite_other:
  assumes "i + length ys \<le> length d" and "36 + 4 * k \<le> length d"
    and "36 + 4 * k \<le> i \<or> i + length ys \<le> 32 + 4 * k"
  shows "slot_off (overwrite d i ys) k = slot_off d k" "slot_len (overwrite d i ys) k = slot_len d k"
  using assms by (auto simp: slot_off_def slot_len_def intro!: fld_overwrite_other)

lemma slot_overwrite_slot:
  assumes "36 + 4 * i \<le> length d" "36 + 4 * k \<le> length d" "k \<noteq> i" "length ys = 4"
  shows "slot_off (overwrite d (32 + 4 * i) ys) k = slot_off d k"
    "slot_len (overwrite d (32 + 4 * i) ys) k = slot_len d k"
  using assms by (auto intro!: slot_overwrite_other)

lemma slot_overwrite_same:
  assumes "36 + 4 * k \<le> length d" and "a < 2 ^ 16" and "b < 2 ^ 16"
  shows "slot_off (overwrite d (32 + 4 * k) (le_bytes 2 a @ le_bytes 2 b)) k = a"
    "slot_len (overwrite d (32 + 4 * k) (le_bytes 2 a @ le_bytes 2 b)) k = b"
  using assms
  by (simp_all add: slot_off_def slot_len_def fld_def overwrite_def del: le_bytes.simps)

lemma slice_set_header:
  "32 \<le> length d \<Longrightarrow> slice_set d 0 (int PAGE_HEADER_SIZE) (header_bytes h) = overwrite d 0 (header_bytes h)"
  using slice_set_overwrite [of 0 "header_bytes h" d] by (simp add: page_consts)

lemma write_slot_ok:
  "36 + 4 * k \<le> length d \<Longrightarrow> a < 2 ^ 16 \<Longrightarrow> b < 2 ^ 16 \<Longrightarrow>
   write_slot d k (int a) (int b) = Inr (overwrite d (32 + 4 * k) (le_bytes 2 a @ le_bytes 2 b))"
  by (simp add: write_slot_def pack_into_def page_consts mult.commute del: le_bytes.simps)

subsection \<open>A fresh page\<close>

definition empty_page_data :: "nat \<Rightarrow> PageType \<Rightarrow> bytes" where
  "empty_page_data pid t = header_bytes \<lparr>h_page_id = pid, h_page_type = t, h_slot_count = 0,
     h_free_space = 4064, h_free_offset = 4096, h_next_page_id = 0, h_flags = 0\<rparr> @ replicate 4064 0"

lemma create_empty_page_ok:
  assumes "pid < 2 ^ 32"
  shows "create_empty_page pid t = Inr \<lparr>p_page_id = pid, p_page_type = Some t,
    p_data = empty_page_data pid t, p_dirty = False\<rparr>"
proof -
  let ?h = "\<lparr>h_page_id = pid, h_page_type = t, h_slot_count = 0,
     h_free_space = 4064, h_free_offset = 4096, h_next_page_id = 0, h_flags = 0\<rparr>"
  have "header_fits ?h" using assms by (simp add: header_fits_def)
  then have "pack_page_header ?h = Inr (header_bytes ?h)" by (rule pack_page_header_ok)
  moreover have "slice_set (replicate 4096 0) 0 32 (header_bytes ?h) = header_bytes ?h @ replicate 4064 0"
    using slice_set_header [of "replicate 4096 0" ?h]
    by (simp add: page_consts overwrite_0)
  ultimately show ?thesis
    by (simp add: create_empty_page_def page_consts empty_page_data_def)
qed

lemma parse_empty_page:
  "pid < 2 ^ 32 \<Longrightarrow> parse_page_header (empty_page_data pid t) =
   Inr \<lparr>h_page_id = pid, h_page_type = t, h_slot_count = 0,
     h_free_space = 4064, h_free_offset = 4096, h_next_page_id = 0, h_flags = 0\<rparr>"
  unfolding empty_page_data_def by (rule parse_page_header_header_bytes) (simp add: header_fits_def)

lemma length_empty_page [simp]: "length (empty_page_data pid t) = 4096"
  by (simp add: empty_page_data_def)

lemma wf_empty_page: "pid < 2 ^ 32 \<Longrightarrow> wf_page (empty_page_data pid t)"
  by (simp add: wf_page_def parse_empty_page)

lemma page_rows_empty_page: "pid < 2 ^ 32 \<Longrightarrow> page_rows (empty_page_data pid t) = []"
  by (simp add: page_rows_def parse_empty_page)

subsection \<open>Insertion\<close>

definition inserted_data :: "bytes \<Rightarrow> page_header \<Rightarrow> bytes \<Rightarrow> bytes" where
  "inserted_data d h row =
     overwrite
       (overwrite (overwrite d (h_free_offset h - length row) row)
          (32 + 4 * h_slot_count h)
          (le_bytes 2 (h_free_offset h - length row) @ le_bytes 2 (length row)))
       0 (header_bytes (h\<lparr>h_slot_count := h_slot_count h + 1,
            h_free_space := h_free_space h - (length row + 4),
            h_free_offset := h_free_offset h - length row\<rparr>))"

lemma insert_row_ok:
  assumes wf: "wf_page (p_data page)" and h: "parse_page_header (p_data page) = Inr h"
    and sp: "length row + 4 \<le> h_free_space h"
  shows "insert_row_into_page page row =
    Inr (h_slot_count h, page\<lparr>p_data := inserted_data (p_data page) h row, p_dirty := True\<rparr>)"
proof -
  let ?d = "p_data page" and ?fo = "h_free_offset h" and ?n = "length row"
  let ?h' = "h\<lparr>h_slot_count := h_slot_count h + 1, h_free_space := h_free_space h - (?n + 4),
            h_free_offset := ?fo - ?n\<rparr>"
  from wf h have len: "length ?d = 4096" and fo: "?fo \<le> 4096"
    and sl: "32 + 4 * h_slot_count h + h_free_space h \<le> ?fo" and fits: "header_fits h"
    by (auto elim!: wf_pageE)
  have nfo: "int ?fo - int ?n = int (?fo - ?n)" using sl sp by simp
  have s1: "slice_set ?d (int (?fo - ?n)) (int (?fo - ?n) + int ?n) row = overwrite ?d (?fo - ?n) row"
    by (rule slice_set_overwrite) (use len fo sl sp in simp)
  have s2: "write_slot (overwrite ?d (?fo - ?n) row) (h_slot_count h) (int (?fo - ?n)) (int ?n)
      = Inr (overwrite (overwrite ?d (?fo - ?n) row) (32 + 4 * h_slot_count h)
               (le_bytes 2 (?fo - ?n) @ le_bytes 2 ?n))" (is "_ = Inr ?d2")
    by (rule write_slot_ok) (use len fo sl sp in simp_all)
  have fits': "header_fits ?h'"
    using fits sl sp fo unfolding header_fits_def by simp arith
  have len2: "length ?d2 = 4096" using len fo sl sp by simp
  have s3: "slice_set ?d2 0 (int PAGE_HEADER_SIZE) (header_bytes ?h') = inserted_data ?d h row"
    using len2 by (subst slice_set_header) (simp_all add: inserted_data_def)
  show ?thesis
    using h sp s2 s3 pack_page_header_ok [OF fits']
    by (simp add: insert_row_into_page_def Let_def nfo s1 page_consts)
qed

lemma insert_row_full:
  "parse_page_header (p_data page) = Inr h \<Longrightarrow> h_free_space h < length row + 4 \<Longrightarrow>
   insert_row_into_page page row = Inl PageOutOfRangeError"
  by (simp add: insert_row_into_page_def Let_def page_consts)

lemma inserted_data_facts:
  assumes wf: "wf_page d" and h: "parse_page_header d = Inr h"
    and sp: "length row + 4 \<le> h_free_space h"
  shows "length (inserted_data d h row) = 4096"
    and "parse_page_header (inserted_data d h row) = Inr (h\<lparr>h_slot_count := h_slot_count h + 1,
            h_free_space := h_free_space h - (length row + 4),
            h_free_offset := h_free_offset h - length row\<rparr>)"
    and "i < h_slot_count h \<Longrightarrow> slot_off (inserted_data d h row) i = slot_off d i"
    and "i < h_slot_count h \<Longrightarrow> slot_len (inserted_data d h row) i = slot_len d i"
    and "slot_off (inserted_data d h row) (h_slot_count h) = h_free_offset h - length row"
    and "slot_len (inserted_data d h row) (h_slot_count h) = length row"
    and "a + n \<le> 4096 \<Longrightarrow> h_free_offset h \<le> a \<Longrightarrow>
      take n (drop a (inserted_data d h row)) = take n (drop a d)"
    and "take (length row) (drop (h_free_offset h - length row) (inserted_data d h row)) = row"
proof -
  from wf h have len: "length d = 4096" and fo: "h_free_offset h \<le> 4096"
    and sl: "32 + 4 * h_slot_count h + h_free_space h \<le> h_free_offset h" and fits: "header_fits h"
    by (auto elim!: wf_pageE)
  let ?d1 = "overwrite d (h_free_offset h - length row) row"
  let ?s = "le_bytes 2 (h_free_offset h - length row) @ le_bytes 2 (length row)"
  let ?d2 = "overwrite ?d1 (32 + 4 * h_slot_count h) ?s"
  let ?h' = "h\<lparr>h_slot_count := h_slot_count h + 1, h_free_space := h_free_space h - (length row + 4),
            h_free_offset := h_free_offset h - length row\<rparr>"
  have e: "inserted_data d h row = overwrite ?d2 0 (header_bytes ?h')" by (simp add: inserted_data_def)
  have l1: "length ?d1 = 4096" using len fo sl sp by simp
  have l2: "length ?d2 = 4096" using l1 sl sp fo by simp
  show "length (inserted_data d h row) = 4096" unfolding e using l2 by simp
  have "header_fits ?h'"
    using fits sl sp fo unfolding header_fits_def by simp arith
  then show "parse_page_header (inserted_data d h row) = Inr ?h'"
    unfolding e using l2 by (simp add: parse_overwrite_header)
  show "slot_off (inserted_data d h row) i = slot_off d i" and
       "slot_len (inserted_data d h row) i = slot_len d i" if "i < h_slot_count h"
    unfolding e using that len l1 l2 sl sp fo by (simp_all add: slot_overwrite_other del: le_bytes.simps)
  show "slot_off (inserted_data d h row) (h_slot_count h) = h_free_offset h - length row" and
    "slot_len (inserted_data d h row) (h_slot_count h) = length row"
    unfolding e using l1 l2 sl sp fo
    by (simp_all add: slot_overwrite_other slot_overwrite_same del: le_bytes.simps)
  show "take n (drop a (inserted_data d h row)) = take n (drop a d)"
    if "a + n \<le> 4096" "h_free_offset h \<le> a"
    unfolding e using that len l1 l2 sl sp fo by (simp add: take_drop_overwrite_other del: le_bytes.simps)
  show "take (length row) (drop (h_free_offset h - length row) (inserted_data d h row)) = row"
    unfolding e using len l1 l2 sl sp fo by (simp add: take_drop_overwrite_other del: le_bytes.simps)
qed

lemma inserted_data_wf:
  assumes wf: "wf_page d" and h: "parse_page_header d = Inr h"
    and sp: "length row + 4 \<le> h_free_space h"
  shows "wf_page (inserted_data d h row)"
proof -
  note f = inserted_data_facts [OF assms]
  let ?e = "inserted_data d h row"
  from wf h have len: "length d = 4096" and fo: "h_free_offset h \<le> 4096"
    and sl: "32 + 4 * h_slot_count h + h_free_space h \<le> h_free_offset h"
    and ok: "\<And>i. i < h_slot_count h \<Longrightarrow> slot_len d i = 0 \<or>
       (h_free_offset h \<le> slot_off d i \<and> slot_off d i + slot_len d i \<le> 4096)"
    by (auto elim!: wf_pageE)
  have "slot_len ?e i = 0 \<or> (h_free_offset h - length row \<le> slot_off ?e i \<and> slot_off ?e i + slot_len ?e i \<le> 4096)"
    if "i < h_slot_count h + 1" for i
  proof (cases "i = h_slot_count h")
    case True
    then show ?thesis using f(5,6) fo sl sp by simp
  next
    case False
    then have "i < h_slot_count h" using that by simp
    with ok [OF this] f(3,4) [OF this] show ?thesis by auto
  qed
  then show ?thesis
    unfolding wf_page_def using f(1,2) fo sl sp by auto
qed

lemma page_rows_inserted:
  assumes wf: "wf_page d" and h: "parse_page_header d = Inr h"
    and sp: "length row + 4 \<le> h_free_space h" and ne: "row \<noteq> []"
  shows "page_rows (inserted_data d h row) = page_rows d @ [Some row]"
proof -
  note f = inserted_data_facts [OF assms(1-3)]
  let ?e = "inserted_data d h row"
  from wf h have ok: "\<And>i. i < h_slot_count h \<Longrightarrow> slot_len d i = 0 \<or>
       (h_free_offset h \<le> slot_off d i \<and> slot_off d i + slot_len d i \<le> 4096)"
    by (auto elim!: wf_pageE)
  have "slot_row ?e i = slot_row d i" if "i < h_slot_count h" for i
    using ok [OF that] f(3,4) [OF that] f(7) by (auto simp: slot_row_def)
  moreover have "slot_row ?e (h_slot_count h) = Some row"
    using f(5,6,8) ne by (simp add: slot_row_def)
  ultimately show ?thesis
    by (simp add: page_rows_eq [OF h] page_rows_eq [OF f(2)])
qed

subsection \<open>Deletion\<close>

definition deleted_data :: "bytes \<Rightarrow> page_header \<Rightarrow> nat \<Rightarrow> bytes" where
  "deleted_data d h i =
     overwrite (overwrite d (32 + 4 * i) (le_bytes 2 0 @ le_bytes 2 0)) 0 (header_bytes h)"

lemma delete_row_ok:
  assumes "wf_page (p_data page)" and h: "parse_page_header (p_data page) = Inr h"
    and i: "i < h_slot_count h"
  shows "delete_row_from_page page i =
    Inr (page\<lparr>p_data := deleted_data (p_data page) h i, p_dirty := True\<rparr>)"
proof -
  let ?d = "p_data page"
  from assms have len: "36 + 4 * i \<le> length ?d" "length ?d = 4096" and fits: "header_fits h"
    by (auto elim!: wf_pageE)
  have s1: "write_slot ?d i 0 0 = Inr (overwrite ?d (32 + 4 * i) (le_bytes 2 0 @ le_bytes 2 0))"
    using write_slot_ok [OF len(1), of 0 0] by simp
  have s2: "slice_set (overwrite ?d (32 + 4 * i) (le_bytes 2 0 @ le_bytes 2 0)) 0 (int PAGE_HEADER_SIZE)
      (header_bytes h) = deleted_data ?d h i"
    using len by (subst slice_set_header) (simp_all add: deleted_data_def)
  show ?thesis
    using h i s1 s2 pack_page_header_ok [OF fits]
    by (simp add: delete_row_from_page_def Let_def del: le_bytes.simps)
qed

lemma deleted_data_facts:
  assumes wf: "wf_page d" and h: "parse_page_header d = Inr h" and i: "i < h_slot_count h"
  shows "wf_page (deleted_data d h i)"
    and "parse_page_header (deleted_data d h i) = Inr h"
    and "page_rows (deleted_data d h i) = (page_rows d)[i := None]"
proof -
  from wf h have len: "length d = 4096" and fo: "h_free_offset h \<le> 4096"
    and sl: "32 + 4 * h_slot_count h + h_free_space h \<le> h_free_offset h" and fits: "header_fits h"
    and ok: "\<And>k. k < h_slot_count h \<Longrightarrow> slot_len d k = 0 \<or>
       (h_free_offset h \<le> slot_off d k \<and> slot_off d k + slot_len d k \<le> 4096)"
    by (auto elim!: wf_pageE)
  let ?d1 = "overwrite d (32 + 4 * i) (le_bytes 2 0 @ le_bytes 2 0)"
  let ?e = "deleted_data d h i"
  have l1: "length ?d1 = 4096" using len fo sl i by simp
  have l: "length ?e = 4096" unfolding deleted_data_def using l1 by simp
  show p: "parse_page_header ?e = Inr h"
    unfolding deleted_data_def using l1 fits by (simp add: parse_overwrite_header)
  have same: "slot_off ?e k = slot_off d k \<and> slot_len ?e k = slot_len d k"
    if "k \<noteq> i" "k < h_slot_count h" for k
    unfolding deleted_data_def using that len l1 fo sl i
    by (simp add: slot_overwrite_other slot_overwrite_slot del: le_bytes.simps)
  have zero: "slot_len ?e i = 0"
    unfolding deleted_data_def using len l1 fo sl i
    by (simp add: slot_overwrite_other slot_overwrite_same del: le_bytes.simps)
  have body: "take n (drop a ?e) = take n (drop a d)" if "h_free_offset h \<le> a" "a + n \<le> 4096" for a n
    unfolding deleted_data_def using that len l1 fo sl i
    by (simp add: take_drop_overwrite_other del: le_bytes.simps)
  have "slot_row ?e k = (if k = i then None else slot_row d k)" if "k < h_slot_count h" for k
    using same [OF _ that] zero ok [OF that] body by (auto simp: slot_row_def)
  then show "page_rows ?e = (page_rows d)[i := None]"
    by (simp add: page_rows_eq [OF h] page_rows_eq [OF p] list_eq_iff_nth_eq nth_list_update)
  show "wf_page ?e"
    unfolding wf_page_def using l p fo sl same zero ok by (metis (no_types, lifting))
qed

lemma get_all_rows_eq:
  assumes "wf_page (p_data page)"
  shows "get_all_rows_from_page page = Inr (List.map_filter id (page_rows (p_data page)))"
proof -
  let ?d = "p_data page"
  from assms obtain h where h: "length ?d = 4096" "parse_page_header ?d = Inr h"
    using wf_pageE by blast
  then have sc: "get_slot_count page = Inr (h_slot_count h)"
    by (auto simp: get_slot_count_def unpack_u_def parse_page_header_def fld_def page_consts split: if_splits)
  have lr: "length (page_rows ?d) = h_slot_count h" using h by (simp add: page_rows_eq)
  have "rmap (get_row_from_page page) [0..<h_slot_count h] = Inr (map (\<lambda>i. page_rows ?d ! i) [0..<h_slot_count h])"
    by (rule rmap_total) (simp add: get_row_eq [OF wf_page_open [OF assms]] lr)
  also have "map (\<lambda>i. page_rows ?d ! i) [0..<h_slot_count h] = page_rows ?d"
    using lr map_nth [of "page_rows ?d"] by simp
  finally show ?thesis by (simp add: get_all_rows_from_page_def sc)
qed

section \<open>The slotted page as a row store\<close>

text \<open>
  What the table code relies on: slot numbers are handed out in order and are never reused, a
  deletion empties one slot, and a read returns the slot. \<open>rows s\<close> is the contents.
\<close>

datatype row_op = Put bytes | Del nat

fun run_ops :: "('s \<Rightarrow> bytes \<Rightarrow> (nat \<times> 's) res) \<Rightarrow> ('s \<Rightarrow> nat \<Rightarrow> 's res) \<Rightarrow> row_op list \<Rightarrow> 's \<Rightarrow> 's res" where
  "run_ops put del [] s = Inr s"
| "run_ops put del (Put r # ops) s = rbind (put s r) (\<lambda>(i, s'). run_ops put del ops s')"
| "run_ops put del (Del i # ops) s = rbind (del s i) (\<lambda>s'. run_ops put del ops s')"

fun spec_op :: "row_op \<Rightarrow> bytes option list \<Rightarrow> bytes option list" where
  "spec_op (Put r) rows = rows @ [Some r]"
| "spec_op (Del i) rows = rows[i := None]"

locale row_store =
  fixes inv :: "'s \<Rightarrow> bool"
    and rows :: "'s \<Rightarrow> bytes option list"
    and put :: "'s \<Rightarrow> bytes \<Rightarrow> (nat \<times> 's) res"
    and del :: "'s \<Rightarrow> nat \<Rightarrow> 's res"
    and get :: "'s \<Rightarrow> nat \<Rightarrow> bytes option res"
  assumes put_law: "inv s \<Longrightarrow> r \<noteq> [] \<Longrightarrow> put s r = Inr (i, s') \<Longrightarrow>
      inv s' \<and> i = length (rows s) \<and> rows s' = rows s @ [Some r]"
    and del_law: "inv s \<Longrightarrow> i < length (rows s) \<Longrightarrow>
      \<exists>s'. del s i = Inr s' \<and> inv s' \<and> rows s' = (rows s)[i := None]"
    and del_range: "inv s \<Longrightarrow> length (rows s) \<le> i \<Longrightarrow> \<exists>e. del s i = Inl e"
    and get_law: "inv s \<Longrightarrow> get s i = Inr (if i < length (rows s) then rows s ! i else None)"
begin

lemma del_Inr: "inv s \<Longrightarrow> del s i = Inr s' \<Longrightarrow> inv s' \<and> i < length (rows s) \<and> rows s' = (rows s)[i := None]"
  using del_law [of s i] del_range [of s i] by (cases "i < length (rows s)") auto

lemma run_ops_refines:
  "inv s \<Longrightarrow> Put [] \<notin> set ops \<Longrightarrow> run_ops put del ops s = Inr s' \<Longrightarrow>
   inv s' \<and> rows s' = fold spec_op ops (rows s)"
proof (induction ops arbitrary: s)
  case (Cons op ops)
  show ?case
  proof (cases op)
    case (Put r)
    with Cons.prems obtain i s1 where p: "put s r = Inr (i, s1)" and r: "run_ops put del ops s1 = Inr s'"
      by auto
    from put_law [OF Cons.prems(1) _ p] Cons.prems(2) Put have "inv s1" "rows s1 = rows s @ [Some r]" by auto
    with Cons.IH [OF _ _ r] Cons.prems(2) Put show ?thesis by simp
  next
    case (Del i)
    with Cons.prems obtain s1 where d: "del s i = Inr s1" and r: "run_ops put del ops s1 = Inr s'"
      by auto
    from del_Inr [OF Cons.prems(1) d] have "inv s1" "rows s1 = (rows s)[i := None]" by auto
    with Cons.IH [OF _ _ r] Cons.prems(2) Del show ?thesis by simp
  qed
qed simp

lemma run_ops_length: "length rs \<le> length (fold spec_op ops rs)"
proof (induction ops arbitrary: rs)
  case (Cons op ops)
  have "length rs \<le> length (spec_op op rs)" by (cases op) auto
  with Cons.IH [of "spec_op op rs"] show ?case by simp
qed simp

lemma fold_spec_keeps:
  "i < length rs \<Longrightarrow> Del i \<notin> set ops \<Longrightarrow> fold spec_op ops rs ! i = rs ! i"
proof (induction ops arbitrary: rs)
  case (Cons op ops)
  have "i < length (spec_op op rs)" "spec_op op rs ! i = rs ! i"
    using Cons.prems by (cases op; auto simp: nth_append nth_list_update)+
  with Cons.IH [of "spec_op op rs"] Cons.prems(2) show ?case by simp
qed simp

text \<open>A row stays readable under its slot number until that slot is deleted.\<close>

lemma row_is_stable:
  assumes "inv s" and "r \<noteq> []" and "put s r = Inr (i, s1)" and "run_ops put del ops s1 = Inr s'"
    and "Put [] \<notin> set ops" and "Del i \<notin> set ops"
  shows "get s' i = Inr (Some r)"
proof -
  from put_law [OF assms(1-3)] have s1: "inv s1" "i < length (rows s1)" "rows s1 ! i = Some r" by auto
  from run_ops_refines [OF s1(1) assms(5,4)] have s': "inv s'" "rows s' = fold spec_op ops (rows s1)" by auto
  with fold_spec_keeps [OF s1(2) assms(6)] run_ops_length [of "rows s1" ops] s1 show ?thesis
    by (simp add: get_law)
qed

end

lemma insert_row_Inr:
  assumes "wf_page (p_data page)" and "row \<noteq> []" and "insert_row_into_page page row = Inr (i, page')"
  shows "wf_page (p_data page') \<and> i = length (page_rows (p_data page)) \<and>
    page_rows (p_data page') = page_rows (p_data page) @ [Some row] \<and> p_page_id page' = p_page_id page"
proof -
  obtain h where h: "parse_page_header (p_data page) = Inr h"
    using assms(1) wf_pageE by blast
  have sp: "length row + 4 \<le> h_free_space h"
    using insert_row_full [OF h, of row] assms(3) by (cases "h_free_space h < length row + 4") auto
  show ?thesis
    using insert_row_ok [OF assms(1) h sp] assms(3) inserted_data_wf [OF assms(1) h sp]
      page_rows_inserted [OF assms(1) h sp assms(2)] page_rows_eq [OF h] by auto
qed

interpretation page: row_store "\<lambda>p. wf_page (p_data p)" "\<lambda>p. page_rows (p_data p)"
    insert_row_into_page delete_row_from_page get_row_from_page
proof
  fix p :: Page and r i p'
  assume "wf_page (p_data p)" "r \<noteq> []" "insert_row_into_page p r = Inr (i, p')"
  then show "wf_page (p_data p') \<and> i = length (page_rows (p_data p)) \<and>
      page_rows (p_data p') = page_rows (p_data p) @ [Some r]"
    using insert_row_Inr by blast
next
  fix p :: Page and i
  assume wf: "wf_page (p_data p)" and i: "i < length (page_rows (p_data p))"
  then obtain h where h: "parse_page_header (p_data p) = Inr h" using wf_pageE by blast
  with i have "i < h_slot_count h" by (simp add: page_rows_eq)
  then show "\<exists>p'. delete_row_from_page p i = Inr p' \<and> wf_page (p_data p') \<and>
      page_rows (p_data p') = (page_rows (p_data p))[i := None]"
    using delete_row_ok [OF wf h] deleted_data_facts [OF wf h] by auto
next
  fix p :: Page and i
  assume wf: "wf_page (p_data p)" and i: "length (page_rows (p_data p)) \<le> i"
  then obtain h where h: "parse_page_header (p_data p) = Inr h" using wf_pageE by blast
  with i show "\<exists>e. delete_row_from_page p i = Inl e"
    by (simp add: delete_row_from_page_def Let_def page_rows_eq)
next
  fix p :: Page and i
  assume "wf_page (p_data p)"
  then show "get_row_from_page p i =
      Inr (if i < length (page_rows (p_data p)) then page_rows (p_data p) ! i else None)"
    by (rule get_row_eq [OF wf_page_open])
qed

section \<open>Claims\<close>

text \<open>
  C14. A slotted page is a list of rows: after any sequence of insertions and deletions on a new
  page that succeeds, reading slot \<open>i\<close> gives exactly the row put there or nothing if it was deleted
  or never used, and listing the page gives the live rows in slot order. In particular rows never
  overlap one another, the slot array or the header.
\<close>

theorem slotted_page_refines_row_list:
  assumes "pid < 2 ^ 32" and "create_empty_page pid t = Inr page" and "Put [] \<notin> set ops"
    and "run_ops insert_row_into_page delete_row_from_page ops page = Inr page'"
  shows "(\<forall>i. get_row_from_page page' i =
      Inr (if i < length (fold spec_op ops []) then fold spec_op ops [] ! i else None)) \<and>
    get_all_rows_from_page page' = Inr (List.map_filter id (fold spec_op ops []))"
proof -
  have d: "p_data page = empty_page_data pid t"
    using assms(2) create_empty_page_ok [OF assms(1), of t] by auto
  have "wf_page (p_data page)" "page_rows (p_data page) = []"
    unfolding d by (rule wf_empty_page [OF assms(1)], rule page_rows_empty_page [OF assms(1)])
  with page.run_ops_refines [OF _ assms(3,4)]
  have "wf_page (p_data page')" "page_rows (p_data page') = fold spec_op ops []" by auto
  then show ?thesis by (simp add: get_row_eq [OF wf_page_open] get_all_rows_eq)
qed

lemma run_ops_start:
  assumes "pid < 2 ^ 32" and "r \<noteq> []" and "length r + 4 \<le> 4064"
  shows "\<exists>page page'. create_empty_page pid t = Inr page \<and>
    run_ops insert_row_into_page delete_row_from_page [Put r] page = Inr page'"
proof -
  note c = create_empty_page_ok [OF assms(1), of t]
  let ?p = "\<lparr>p_page_id = pid, p_page_type = Some t, p_data = empty_page_data pid t, p_dirty = False\<rparr>"
  have "insert_row_into_page ?p r \<in> range Inr"
    using insert_row_ok [of ?p _ r] wf_empty_page [OF assms(1), of t] parse_empty_page [OF assms(1), of t]
      assms(3) by simp
  with c show ?thesis by (auto simp: rbind_def)
qed

theorem slotted_page_refines_row_list_witness:
  "\<exists>page page'. create_empty_page 7 DATA = Inr page \<and>
     run_ops insert_row_into_page delete_row_from_page [Put [1, 2, 3]] page = Inr page' \<and>
     get_row_from_page page' 0 = Inr (Some [1, 2, 3]) \<and> get_all_rows_from_page page' = Inr [[1, 2, 3]]"
proof -
  obtain page page' where p: "create_empty_page 7 DATA = Inr page"
    "run_ops insert_row_into_page delete_row_from_page [Put [1, 2, 3]] page = Inr page'"
    using run_ops_start [of 7 "[1, 2, 3]" DATA] by auto
  have "Put [] \<notin> set [Put [1, 2, 3 :: byte]]" by simp
  from slotted_page_refines_row_list [OF _ p(1) this p(2)]
  have "get_row_from_page page' 0 = Inr (Some [1, 2, 3]) \<and> get_all_rows_from_page page' = Inr [[1, 2, 3]]"
    by (simp add: map_filter_simps)
  with p show ?thesis by blast
qed

text \<open>
  An insertion fails exactly when the row and its slot entry do not fit in the free space the
  header reports, and otherwise takes that much from it: the free space reported is real.
\<close>

theorem insert_row_space:
  assumes "wf_page (p_data page)" and "get_free_space page = Inr fs"
  shows "(fs < length row + 4 \<longleftrightarrow> insert_row_into_page page row = Inl PageOutOfRangeError) \<and>
    (length row + 4 \<le> fs \<longrightarrow> (\<exists>i page'. insert_row_into_page page row = Inr (i, page') \<and>
       wf_page (p_data page') \<and> get_free_space page' = Inr (fs - (length row + 4))))"
proof -
  obtain h where h: "parse_page_header (p_data page) = Inr h" "fs = h_free_space h"
    using assms(2) by (auto simp: get_free_space_def)
  show ?thesis
  proof (cases "length row + 4 \<le> fs")
    case True
    then have sp: "length row + 4 \<le> h_free_space h" using h by simp
    show ?thesis
      using insert_row_ok [OF assms(1) h(1) sp] inserted_data_wf [OF assms(1) h(1) sp]
        inserted_data_facts(2) [OF assms(1) h(1) sp] True h
      by (simp add: get_free_space_def)
  next
    case False
    with insert_row_full [OF h(1), of row] h show ?thesis by simp
  qed
qed

theorem insert_row_space_witness:
  "\<exists>page i page'. create_empty_page 1 DATA = Inr page \<and>
     insert_row_into_page page [9] = Inr (i, page') \<and> get_free_space page' = Inr 4059"
proof -
  note c = create_empty_page_ok [of 1 DATA, simplified]
  let ?p = "\<lparr>p_page_id = 1, p_page_type = Some DATA, p_data = empty_page_data 1 DATA, p_dirty = False\<rparr>"
  have wf: "wf_page (p_data ?p)" and fs: "get_free_space ?p = Inr 4064"
    using wf_empty_page [of 1 DATA] parse_empty_page [of 1 DATA] by (simp_all add: get_free_space_def)
  from insert_row_space [OF wf fs, of "[9]"] c show ?thesis by simp blast
qed

end
