(* ===== verification/File_Manager.thy ===== *)
theory File_Manager
  imports Page
begin

unbundle bit_operations_syntax

text \<open>
  \<open>tinydb/file_manager.py\<close>: the database file as a list of bytes, with the cached header fields of
  the \<open>FileManager\<close> object. Page 0 is the file header (magic, version, page size, page count, free
  list head, catalog root, root page and a CRC-32 over these fields). The operating system is
  modelled as far as the code relies on it: seek and write at an offset (a gap is filled with
  zeros), read at an offset (short at the end of the file). Page ids are naturals, so the test
  \<open>page_id < 0\<close> of \<open>write_page\<close> has no counterpart.
\<close>

section \<open>State\<close>

record file_manager =
  fm_file :: bytes
  fm_page_count :: nat
  fm_free_list_head :: nat
  fm_catalog_root :: nat
  fm_root_page_id :: nat

definition MAGIC_BYTES :: bytes where
  "MAGIC_BYTES = map (\<lambda>c. word_of_nat (of_char c)) ''TINYDB'' @ [0]"

definition FORMAT_VERSION :: nat where "FORMAT_VERSION = 2"

text \<open>\<open>zlib.crc32\<close>: the reflected CRC-32 with polynomial EDB88320.\<close>

fun crc32_bits :: "nat \<Rightarrow> 32 word \<Rightarrow> 32 word" where
  "crc32_bits 0 c = c"
| "crc32_bits (Suc n) c =
     crc32_bits n (if bit c 0 then drop_bit 1 c XOR 0xEDB88320 else drop_bit 1 c)"

definition crc32 :: "bytes \<Rightarrow> nat" where
  "crc32 bs = unat (NOT (fold (\<lambda>b c. crc32_bits 8 (c XOR ucast b)) bs (NOT 0)))"

lemma crc32_bound: "crc32 bs < 2 ^ 32"
  unfolding crc32_def using unsigned_less [where ?'a = nat and ?'b = 32] by simp

section \<open>File access\<close>

definition file_write :: "nat \<Rightarrow> bytes \<Rightarrow> bytes \<Rightarrow> bytes" where
  "file_write off d f = overwrite (f @ replicate (off + length d - length f) 0) off d"

definition file_read :: "nat \<Rightarrow> nat \<Rightarrow> bytes \<Rightarrow> bytes" where
  "file_read off n f = take n (drop off f)"

text \<open>\<open>data + b"\x00" * (PAGE_SIZE - len(data))\<close>.\<close>

definition pad_page :: "bytes \<Rightarrow> bytes" where
  "pad_page d = (if length d < PAGE_SIZE then d @ replicate (PAGE_SIZE - length d) 0 else d)"

section \<open>The file header\<close>

definition write_header :: "(file_manager, unit) st" where
  "write_header fm =
     (let r =
        rbind (pack_u 4 (int FORMAT_VERSION)) (\<lambda>a.
        rbind (pack_u 4 (int PAGE_SIZE)) (\<lambda>b.
        rbind (pack_u 4 (int (fm_page_count fm))) (\<lambda>c.
        rbind (pack_u 4 (int (fm_free_list_head fm))) (\<lambda>d.
        rbind (pack_u 4 (int (fm_catalog_root fm))) (\<lambda>e.
        rbind (pack_u 4 (int (fm_root_page_id fm))) (\<lambda>f.
        rbind (pack_into (slice_set (replicate PAGE_SIZE 0) 0 (int (length MAGIC_BYTES)) MAGIC_BYTES)
                 8 (a @ b @ c @ d @ e @ f @ le_bytes 8 0)) (\<lambda>raw.
        rbind (pack_into raw 32 (le_bytes 8 (crc32 (slice_get raw 8 32)))) Inr)))))))
      in case r of Inl err \<Rightarrow> (Inl err, fm)
         | Inr raw \<Rightarrow> (Inr (), fm\<lparr>fm_file := file_write 0 raw (fm_file fm)\<rparr>))"

definition read_header :: "(file_manager, unit) st" where
  "read_header fm =
     (let raw = file_read 0 PAGE_SIZE (fm_file fm) in
      if take (length MAGIC_BYTES) raw \<noteq> MAGIC_BYTES then (Inl StorageCorruptionError, fm)
      else case
        rbind (unpack_u 4 raw 8) (\<lambda>version.
          if version = 2 then
            rbind (unpack_u 4 raw 12) (\<lambda>page_size.
            rbind (unpack_u 4 raw 16) (\<lambda>page_count.
            rbind (unpack_u 4 raw 20) (\<lambda>free_list_head.
            rbind (unpack_u 4 raw 24) (\<lambda>catalog_root.
            rbind (unpack_u 4 raw 28) (\<lambda>root_page_id.
            rbind (unpack_u 8 raw 32) (\<lambda>checksum.
              Inr (page_size, page_count, free_list_head, catalog_root, root_page_id, checksum,
                   slice_get raw 8 32)))))))
          else if version = 1 then
            rbind (unpack_u 4 raw 12) (\<lambda>page_size.
            rbind (unpack_u 4 raw 16) (\<lambda>page_count.
            rbind (unpack_u 4 raw 20) (\<lambda>free_list_head.
            rbind (unpack_u 4 raw 24) (\<lambda>catalog_root.
            rbind (unpack_u 8 raw 28) (\<lambda>checksum.
              Inr (page_size, page_count, free_list_head, catalog_root, catalog_root, checksum,
                   slice_get raw 8 28))))))
          else Inl StorageCorruptionError)
        of Inl e \<Rightarrow> (Inl e, fm)
         | Inr (page_size, page_count, free_list_head, catalog_root, root_page_id, checksum, header_data) \<Rightarrow>
             if page_size \<noteq> PAGE_SIZE then (Inl StorageCorruptionError, fm)
             else if crc32 header_data \<noteq> checksum then (Inl StorageCorruptionError, fm)
             else (Inr (), fm\<lparr>fm_page_count := page_count, fm_free_list_head := free_list_head,
                             fm_catalog_root := catalog_root, fm_root_page_id := root_page_id\<rparr>))"

definition init_new_database :: "(file_manager, unit) st" where
  "init_new_database fm = write_header (fm\<lparr>fm_page_count := 1, fm_free_list_head := 0,
     fm_catalog_root := 0, fm_root_page_id := 0\<rparr>)"

text \<open>\<open>FileManager(path).open()\<close>: \<open>None\<close> stands for a path that does not exist.\<close>

definition fm_open :: "bytes option \<Rightarrow> (err + unit) \<times> file_manager" where
  "fm_open content = (case content of
     Some f \<Rightarrow> read_header \<lparr>fm_file = f, fm_page_count = 0, fm_free_list_head = 0,
                 fm_catalog_root = 0, fm_root_page_id = 0\<rparr>
   | None \<Rightarrow> init_new_database \<lparr>fm_file = [], fm_page_count = 0, fm_free_list_head = 0,
                 fm_catalog_root = 0, fm_root_page_id = 0\<rparr>)"

text \<open>\<open>close()\<close> writes the header; the bytes left on disk are \<open>fm_file\<close> of the final state.\<close>

definition fm_close :: "(file_manager, unit) st" where
  "fm_close = write_header"

section \<open>Pages\<close>

definition grow_to :: "nat \<Rightarrow> (file_manager, unit) st" where
  "grow_to new_count fm =
     (if new_count \<le> fm_page_count fm then (Inr (), fm)
      else let pages_to_add = new_count - fm_page_count fm in
        write_header (fm\<lparr>fm_file := file_write (fm_page_count fm * PAGE_SIZE)
                            (replicate (PAGE_SIZE * pages_to_add) 0) (fm_file fm),
                         fm_page_count := new_count\<rparr>))"

definition read_page :: "nat \<Rightarrow> (file_manager, bytes) st" where
  "read_page page_id fm =
     (if page_id \<ge> fm_page_count fm then (Inl PageOutOfRangeError, fm)
      else (Inr (pad_page (file_read (page_id * PAGE_SIZE) PAGE_SIZE (fm_file fm))), fm))"

definition write_page :: "nat \<Rightarrow> bytes \<Rightarrow> (file_manager, unit) st" where
  "write_page page_id data fm =
     (if length data \<noteq> PAGE_SIZE then (Inl ValueError, fm)
      else sbind (\<lambda>fm. if page_id \<ge> fm_page_count fm then grow_to (page_id + 1) fm else (Inr (), fm))
        (\<lambda>_. smod (\<lambda>fm. fm\<lparr>fm_file := file_write (page_id * PAGE_SIZE) data (fm_file fm)\<rparr>)) fm)"

definition alloc_page :: "(file_manager, nat) st" where
  "alloc_page fm =
     (if fm_free_list_head fm \<noteq> 0 then
        (let page_id = fm_free_list_head fm in
         sbind (read_page page_id) (\<lambda>raw.
         sbind (slift (parse_page_header raw)) (\<lambda>header.
         sbind (smod (\<lambda>fm. fm\<lparr>fm_free_list_head := h_next_page_id header\<rparr>)) (\<lambda>_.
         sbind write_header (\<lambda>_. sret page_id)))) fm)
      else
        (let page_id = fm_page_count fm in
         sbind (grow_to (page_id + 1)) (\<lambda>_. sret page_id) fm))"

definition free_page :: "nat \<Rightarrow> (file_manager, unit) st" where
  "free_page page_id fm =
     (if page_id = 0 then (Inl PageOutOfRangeError, fm)
      else sbind (read_page page_id) (\<lambda>raw.
           sbind (if raw ! 4 = 0 then sret DATA
                  else slift (rbind (parse_page_header raw) (\<lambda>h. Inr (h_page_type h)))) (\<lambda>page_type.
           sbind (slift (pack_page_header \<lparr>h_page_id = page_id, h_page_type = page_type,
                     h_slot_count = 0, h_free_space = 0, h_free_offset = PAGE_SIZE,
                     h_next_page_id = fm_free_list_head fm, h_flags = 0\<rparr>)) (\<lambda>new_header.
           sbind (write_page page_id (slice_set raw 0 (int (length new_header)) new_header)) (\<lambda>_.
           sbind (smod (\<lambda>fm. fm\<lparr>fm_free_list_head := page_id\<rparr>)) (\<lambda>_.
             write_header))))) fm)"

section \<open>Views and the invariant\<close>

definition page_at :: "bytes \<Rightarrow> nat \<Rightarrow> bytes" where
  "page_at f p = take 4096 (drop (p * 4096) f)"

definition fm_inv :: "file_manager \<Rightarrow> bool" where
  "fm_inv fm \<longleftrightarrow> 1 \<le> fm_page_count fm \<and> fm_page_count fm * 4096 \<le> length (fm_file fm) \<and>
     fm_page_count fm < 2 ^ 32 \<and> fm_free_list_head fm < 2 ^ 32 \<and> fm_catalog_root fm < 2 ^ 32 \<and>
     fm_root_page_id fm < 2 ^ 32"

text \<open>What \<open>read_page\<close> returns for each page id.\<close>

definition disk :: "file_manager \<Rightarrow> nat \<Rightarrow> bytes option" where
  "disk fm p = (if p < fm_page_count fm then Some (page_at (fm_file fm) p) else None)"

definition header_fields :: "file_manager \<Rightarrow> bytes" where
  "header_fields fm = le_bytes 4 2 @ le_bytes 4 4096 @ le_bytes 4 (fm_page_count fm) @
     le_bytes 4 (fm_free_list_head fm) @ le_bytes 4 (fm_catalog_root fm) @ le_bytes 4 (fm_root_page_id fm)"

definition header_page :: "file_manager \<Rightarrow> bytes" where
  "header_page fm = MAGIC_BYTES @ [0] @ header_fields fm @ le_bytes 8 (crc32 (header_fields fm)) @
     replicate 4056 0"

definition fields_fit :: "file_manager \<Rightarrow> bool" where
  "fields_fit fm \<longleftrightarrow> fm_page_count fm < 2 ^ 32 \<and> fm_free_list_head fm < 2 ^ 32 \<and>
     fm_catalog_root fm < 2 ^ 32 \<and> fm_root_page_id fm < 2 ^ 32"

lemma fm_inv_fields: "fm_inv fm \<Longrightarrow> fields_fit fm"
  by (simp add: fm_inv_def fields_fit_def)

lemma length_MAGIC [simp]: "length MAGIC_BYTES = 7"
  by (simp add: MAGIC_BYTES_def)

lemma length_header_fields [simp]: "length (header_fields fm) = 24"
  by (simp add: header_fields_def)

lemma length_header_page [simp]: "length (header_page fm) = 4096"
  by (simp add: header_page_def)

lemma write_header_ok:
  assumes "fields_fit fm"
  shows "write_header fm = (Inr (), fm\<lparr>fm_file := file_write 0 (header_page fm) (fm_file fm)\<rparr>)"
proof -
  let ?m = "MAGIC_BYTES @ replicate 4089 (0 :: byte)"
  have m: "slice_set (replicate PAGE_SIZE 0) 0 (int (length MAGIC_BYTES)) MAGIC_BYTES = ?m"
    using slice_set_overwrite [of 0 MAGIC_BYTES "replicate 4096 0"] by (simp add: page_consts overwrite_def)
  have r: "replicate 4089 (0 :: byte) = [0] @ replicate 32 0 @ replicate 4056 0"
    by (simp flip: replicate_add replicate_Suc)
  have p1: "pack_into ?m 8 (header_fields fm @ le_bytes 8 0)
      = Inr (MAGIC_BYTES @ [0] @ header_fields fm @ le_bytes 8 0 @ replicate 4056 0)" (is "_ = Inr ?raw")
    by (subst r) (simp add: pack_into_def overwrite_def del: le_bytes.simps)
  have g: "slice_get ?raw 8 32 = header_fields fm"
    using slice_get_nat [of 8 32 ?raw] by simp
  have p2: "pack_into ?raw 32 (le_bytes 8 (crc32 (header_fields fm))) = Inr (header_page fm)"
    by (simp add: pack_into_def overwrite_def header_page_def del: le_bytes.simps)
  show ?thesis
    using assms p1 p2 g m
    by (simp add: write_header_def fields_fit_def FORMAT_VERSION_def page_consts header_fields_def
        pack_u_def Let_def del: le_bytes.simps)
qed

lemma file_write_within:
  "off + length d \<le> length f \<Longrightarrow> file_write off d f = overwrite f off d"
  by (simp add: file_write_def)

lemma length_file_write [simp]: "length (file_write off d f) = max (length f) (off + length d)"
  by (simp add: file_write_def)

lemma page_at_file_write_same:
  "length d = 4096 \<Longrightarrow> page_at (file_write (p * 4096) d f) p = d"
  using take_drop_overwrite_same [of "p * 4096" d "f @ replicate (p * 4096 + 4096 - length f) 0"]
  by (simp add: page_at_def file_write_def)

lemma page_at_file_write_other:
  assumes "p \<noteq> q" and "length d = 4096" and "(q + 1) * 4096 \<le> length f"
  shows "page_at (file_write (p * 4096) d f) q = page_at f q"
proof -
  let ?f = "f @ replicate (p * 4096 + length d - length f) 0"
  have "q < p \<or> p < q" using assms(1) by auto
  then have "q * 4096 + 4096 \<le> p * 4096 \<or> p * 4096 + 4096 \<le> q * 4096" by auto
  then have "take 4096 (drop (q * 4096) (overwrite ?f (p * 4096) d)) = take 4096 (drop (q * 4096) ?f)"
    using assms by (intro take_drop_overwrite_other) auto
  with assms(3) show ?thesis by (simp add: page_at_def file_write_def)
qed

lemma length_page_at: "(p + 1) * 4096 \<le> length f \<Longrightarrow> length (page_at f p) = 4096"
  by (simp add: page_at_def)

lemma fm_inv_page: "fm_inv fm \<Longrightarrow> p < fm_page_count fm \<Longrightarrow> (p + 1) * 4096 \<le> length (fm_file fm)"
proof -
  assume i: "fm_inv fm" and "p < fm_page_count fm"
  then have "(p + 1) * 4096 \<le> fm_page_count fm * 4096" by simp
  with i show ?thesis by (simp add: fm_inv_def)
qed

lemma disk_length: "fm_inv fm \<Longrightarrow> disk fm p = Some d \<Longrightarrow> length d = 4096"
  using fm_inv_page by (auto simp: disk_def length_page_at split: if_splits)

lemma disk_fields [simp]:
  "disk (fm\<lparr>fm_free_list_head := x\<rparr>) = disk fm"
  "disk (fm\<lparr>fm_catalog_root := x\<rparr>) = disk fm"
  "disk (fm\<lparr>fm_root_page_id := x\<rparr>) = disk fm"
  by (simp_all add: disk_def fun_eq_iff)

lemma disk_eq_None_iff: "disk fm p = None \<longleftrightarrow> fm_page_count fm \<le> p"
  by (simp add: disk_def)

lemma read_page_eq:
  assumes "fm_inv fm"
  shows "read_page p fm = (case disk fm p of None \<Rightarrow> Inl PageOutOfRangeError | Some d \<Rightarrow> Inr d, fm)"
proof (cases "p < fm_page_count fm")
  case True
  then have "length (page_at (fm_file fm) p) = 4096"
    by (intro length_page_at fm_inv_page [OF assms])
  with True show ?thesis
    by (simp add: read_page_def disk_def pad_page_def file_read_def page_at_def page_consts)
qed (simp add: read_page_def disk_def)

text \<open>Writing the header changes page 0 only.\<close>

lemma write_header_facts:
  assumes "fm_inv fm" and "write_header fm = (r, fm')"
  shows "r = Inr ()" and "fm_inv fm'" and "p \<noteq> 0 \<Longrightarrow> disk fm' p = disk fm p"
    and "fm' = fm\<lparr>fm_file := fm_file fm'\<rparr>" and "page_at (fm_file fm') 0 = header_page fm"
proof -
  have e: "r = Inr ()" "fm' = fm\<lparr>fm_file := file_write (0 * 4096) (header_page fm) (fm_file fm)\<rparr>"
    using assms write_header_ok [OF fm_inv_fields] by auto
  then show "r = Inr ()" by simp
  show "fm_inv fm'" using assms(1) e by (simp add: fm_inv_def)
  show "fm' = fm\<lparr>fm_file := fm_file fm'\<rparr>" using e by simp
  show "disk fm' p = disk fm p" if "p \<noteq> 0"
    using page_at_file_write_other [of 0 p "header_page fm" "fm_file fm"] fm_inv_page [OF assms(1), of p] that e
    by (auto simp: disk_def)
  show "page_at (fm_file fm') 0 = header_page fm"
    using page_at_file_write_same [of "header_page fm" 0 "fm_file fm"] e by simp
qed

lemma grow_one_facts:
  assumes "fm_inv fm" and "fm_page_count fm + 1 < 2 ^ 32"
    and "grow_to (fm_page_count fm + 1) fm = (r, fm')"
  shows "r = Inr ()" and "fm_inv fm'" and "fm_page_count fm' = fm_page_count fm + 1"
    and "p \<noteq> 0 \<Longrightarrow> disk fm' p = (if p = fm_page_count fm then Some (replicate 4096 0) else disk fm p)"
    and "fm_free_list_head fm' = fm_free_list_head fm" "fm_catalog_root fm' = fm_catalog_root fm"
    "fm_root_page_id fm' = fm_root_page_id fm"
proof -
  let ?n = "fm_page_count fm"
  let ?g = "fm\<lparr>fm_file := file_write (?n * 4096) (replicate 4096 0) (fm_file fm), fm_page_count := ?n + 1\<rparr>"
  have w: "write_header ?g = (r, fm')"
    using assms(3) by (simp add: grow_to_def page_consts)
  have g: "fm_inv ?g" using assms(1,2) by (simp add: fm_inv_def)
  note f = write_header_facts [OF g w]
  show "r = Inr ()" "fm_inv fm'" by fact+
  show "fm_page_count fm' = ?n + 1" "fm_free_list_head fm' = fm_free_list_head fm"
    "fm_catalog_root fm' = fm_catalog_root fm" "fm_root_page_id fm' = fm_root_page_id fm"
    by (subst f(4), simp)+
  show "disk fm' p = (if p = ?n then Some (replicate 4096 0) else disk fm p)" if "p \<noteq> 0"
    using f(3) [OF that] page_at_file_write_same [of "replicate 4096 0" ?n "fm_file fm"]
      page_at_file_write_other [of ?n p "replicate 4096 0" "fm_file fm"] fm_inv_page [OF assms(1), of p]
    by (auto simp: disk_def)
qed

lemma write_page_facts:
  assumes "fm_inv fm" and "p < fm_page_count fm" and "length d = 4096"
  shows "fst (write_page p d fm) = Inr ()" and "fm_inv (snd (write_page p d fm))"
    and "disk (snd (write_page p d fm)) q = (if q = p then Some d else disk fm q)"
    and "snd (write_page p d fm) = fm\<lparr>fm_file := fm_file (snd (write_page p d fm))\<rparr>"
proof -
  have e: "write_page p d fm = (Inr (), fm\<lparr>fm_file := file_write (p * 4096) d (fm_file fm)\<rparr>)"
    using assms by (simp add: write_page_def page_consts sbind_def)
  show "fst (write_page p d fm) = Inr ()"
    and "snd (write_page p d fm) = fm\<lparr>fm_file := fm_file (snd (write_page p d fm))\<rparr>"
    using e by simp_all
  show "fm_inv (snd (write_page p d fm))" using e assms by (simp add: fm_inv_def)
  show "disk (snd (write_page p d fm)) q = (if q = p then Some d else disk fm q)"
    using e assms page_at_file_write_same [of d p "fm_file fm"]
      page_at_file_write_other [of p q d "fm_file fm"] fm_inv_page [OF assms(1), of q]
    by (auto simp: disk_def)
qed

section \<open>The free list as a stack\<close>

text \<open>
  \<open>free_chain fm p xs\<close>: following the next pointers from \<open>p\<close> visits exactly the pages \<open>xs\<close>. Freed
  pages keep a header whose type byte is valid, so \<open>alloc_page\<close> can parse it.
\<close>

fun free_chain :: "file_manager \<Rightarrow> nat \<Rightarrow> nat list \<Rightarrow> bool" where
  "free_chain fm p [] = (p = 0)"
| "free_chain fm p (x # xs) = (p = x \<and> x \<noteq> 0 \<and>
     (\<exists>d h. disk fm x = Some d \<and> parse_page_header d = Inr h \<and> free_chain fm (h_next_page_id h) xs))"

definition free_list :: "file_manager \<Rightarrow> nat list \<Rightarrow> bool" where
  "free_list fm xs \<longleftrightarrow> free_chain fm (fm_free_list_head fm) xs \<and> distinct xs"

lemma free_chain_cong:
  "(\<And>x. x \<in> set xs \<Longrightarrow> disk fm' x = disk fm x) \<Longrightarrow> free_chain fm p xs \<Longrightarrow> free_chain fm' p xs"
  by (induction xs arbitrary: p) auto

lemma free_chain_nonzero: "free_chain fm p xs \<Longrightarrow> 0 \<notin> set xs"
  by (induction xs arbitrary: p) auto

lemma free_chain_disk: "free_chain fm p xs \<Longrightarrow> x \<in> set xs \<Longrightarrow> disk fm x \<noteq> None"
  by (induction xs arbitrary: p) auto

lemma alloc_page_reuse:
  assumes inv: "fm_inv fm" and fl: "free_list fm (x # xs)"
  shows "fst (alloc_page fm) = Inr x" and "fm_inv (snd (alloc_page fm))"
    and "free_list (snd (alloc_page fm)) xs"
    and "p \<noteq> 0 \<Longrightarrow> disk (snd (alloc_page fm)) p = disk fm p"
    and "fm_page_count (snd (alloc_page fm)) = fm_page_count fm"
proof -
  from fl obtain d h where hd: "fm_free_list_head fm = x" "x \<noteq> 0" "disk fm x = Some d"
    and h: "parse_page_header d = Inr h" and ch: "free_chain fm (h_next_page_id h) xs" and dist: "distinct xs"
    by (auto simp: free_list_def)
  let ?g = "fm\<lparr>fm_free_list_head := h_next_page_id h\<rparr>"
  have g: "fm_inv ?g" using inv parse_page_header_fits [OF h] by (simp add: fm_inv_def header_fits_def)
  obtain r fm' where w: "write_header ?g = (r, fm')" by (cases "write_header ?g")
  note f = write_header_facts [OF g w]
  have e: "alloc_page fm = (Inr x, fm')"
    using hd h w f(1) read_page_eq [OF inv, of x]
    by (simp add: alloc_page_def Let_def sbind_def)
  show "fst (alloc_page fm) = Inr x" "fm_inv (snd (alloc_page fm))" using e f(2) by simp_all
  have dk: "disk fm' p = disk fm p" if "p \<noteq> 0" for p
    using f(3) [OF that] by (simp add: disk_def)
  then show "p \<noteq> 0 \<Longrightarrow> disk (snd (alloc_page fm)) p = disk fm p" using e by simp
  have "fm_free_list_head fm' = h_next_page_id h" "fm_page_count fm' = fm_page_count fm"
    by (subst f(4), simp)+
  moreover have "free_chain fm' (h_next_page_id h) xs"
    using free_chain_nonzero [OF ch] by (intro free_chain_cong [OF _ ch]) (metis dk)
  ultimately show "free_list (snd (alloc_page fm)) xs"
    and "fm_page_count (snd (alloc_page fm)) = fm_page_count fm"
    using e dist by (simp_all add: free_list_def)
qed

lemma alloc_page_grow:
  assumes inv: "fm_inv fm" and fl: "free_list fm []" and sz: "fm_page_count fm + 1 < 2 ^ 32"
  shows "fst (alloc_page fm) = Inr (fm_page_count fm)" and "fm_inv (snd (alloc_page fm))"
    and "free_list (snd (alloc_page fm)) []"
    and "p \<noteq> 0 \<Longrightarrow> disk (snd (alloc_page fm)) p =
      (if p = fm_page_count fm then Some (replicate 4096 0) else disk fm p)"
    and "fm_page_count (snd (alloc_page fm)) = fm_page_count fm + 1"
proof -
  obtain r fm' where g: "grow_to (fm_page_count fm + 1) fm = (r, fm')"
    by (cases "grow_to (fm_page_count fm + 1) fm")
  note f = grow_one_facts [OF inv sz g]
  have e: "alloc_page fm = (Inr (fm_page_count fm), fm')"
    using fl g f(1) by (simp add: alloc_page_def free_list_def sbind_def)
  show "fst (alloc_page fm) = Inr (fm_page_count fm)" "fm_inv (snd (alloc_page fm))"
    "free_list (snd (alloc_page fm)) []" "fm_page_count (snd (alloc_page fm)) = fm_page_count fm + 1"
    using e f fl by (simp_all add: free_list_def)
  show "p \<noteq> 0 \<Longrightarrow> disk (snd (alloc_page fm)) p =
      (if p = fm_page_count fm then Some (replicate 4096 0) else disk fm p)"
    using e f(4) by simp
qed

definition freed_header :: "file_manager \<Rightarrow> nat \<Rightarrow> PageType \<Rightarrow> page_header" where
  "freed_header fm p t = \<lparr>h_page_id = p, h_page_type = t, h_slot_count = 0, h_free_space = 0,
     h_free_offset = 4096, h_next_page_id = fm_free_list_head fm, h_flags = 0\<rparr>"

lemma free_page_facts:
  assumes inv: "fm_inv fm" and fl: "free_list fm xs" and p: "p \<noteq> 0" "p \<notin> set xs"
    and d: "disk fm p = Some d" and t: "d ! 4 = 0 \<or> parse_page_header d = Inr h"
  shows "fst (free_page p fm) = Inr ()" and "fm_inv (snd (free_page p fm))"
    and "free_list (snd (free_page p fm)) (p # xs)"
    and "q \<noteq> 0 \<Longrightarrow> q \<noteq> p \<Longrightarrow> disk (snd (free_page p fm)) q = disk fm q"
    and "fm_page_count (snd (free_page p fm)) = fm_page_count fm"
proof -
  define ty where "ty = (if d ! 4 = 0 then DATA else h_page_type h)"
  let ?h = "freed_header fm p ty"
  have pc: "p < fm_page_count fm" using d by (simp add: disk_def split: if_splits)
  have fits: "header_fits ?h"
    using inv pc by (simp add: freed_header_def header_fits_def fm_inv_def)
  have len: "length d = 4096" using disk_length [OF inv d] .
  have sl: "slice_set d 0 32 (header_bytes ?h) = overwrite d 0 (header_bytes ?h)"
    using slice_set_header [of d ?h] len by (simp add: page_consts)
  let ?d = "overwrite d 0 (header_bytes ?h)"
  have ld: "length ?d = 4096" using len by simp
  obtain fm1 where wpe: "write_page p ?d fm = (Inr (), fm1)"
    using write_page_facts(1) [OF inv pc ld] by (metis prod.collapse)
  note wp = write_page_facts [OF inv pc ld, unfolded wpe snd_conv fst_conv]
  let ?g = "fm1\<lparr>fm_free_list_head := p\<rparr>"
  have g: "fm_inv ?g" using wp(2) inv pc by (simp add: fm_inv_def)
  obtain r fm' where w: "write_header ?g = (r, fm')" by (cases "write_header ?g")
  note f = write_header_facts [OF g w]
  have hp: "pack_page_header \<lparr>h_page_id = p, h_page_type = ty, h_slot_count = 0, h_free_space = 0,
     h_free_offset = PAGE_SIZE, h_next_page_id = fm_free_list_head fm, h_flags = 0\<rparr> = Inr (header_bytes ?h)"
    using pack_page_header_ok [OF fits] by (simp add: freed_header_def page_consts)
  have "(if d ! 4 = 0 then sret DATA
      else slift (rbind (parse_page_header d) (\<lambda>h. Inr (h_page_type h)))) fm = (Inr ty, fm)"
    using t by (auto simp: ty_def)
  then have e: "free_page p fm = (Inr (), fm')"
    using p d hp sl wpe w f(1) read_page_eq [OF inv, of p]
    by (simp add: free_page_def sbind_def)
  show "fst (free_page p fm) = Inr ()" "fm_inv (snd (free_page p fm))" using e f(2) by simp_all
  have dk: "disk fm' q = (if q = p then Some ?d else disk fm q)" if "q \<noteq> 0" for q
    using f(3) [OF that] wp(3) [of q] by simp
  then show "q \<noteq> 0 \<Longrightarrow> q \<noteq> p \<Longrightarrow> disk (snd (free_page p fm)) q = disk fm q" using e by simp
  have hd: "fm_free_list_head fm' = p" by (subst f(4)) simp
  have "fm_page_count fm' = fm_page_count fm1" by (subst f(4)) simp
  also have "\<dots> = fm_page_count fm" by (subst wp(4)) simp
  finally show "fm_page_count (snd (free_page p fm)) = fm_page_count fm" using e by simp
  have ch: "free_chain fm (fm_free_list_head fm) xs" and dist: "distinct xs"
    using fl by (auto simp: free_list_def)
  have "disk fm' x = disk fm x" if "x \<in> set xs" for x
  proof -
    have "x \<noteq> 0" "x \<noteq> p" using that p free_chain_nonzero [OF ch] by metis+
    then show ?thesis by (simp add: dk)
  qed
  then have "free_chain fm' (fm_free_list_head fm) xs" using ch by (rule free_chain_cong)
  moreover have "parse_page_header ?d = Inr ?h" using fits len by (simp add: parse_overwrite_header)
  ultimately show "free_list (snd (free_page p fm)) (p # xs)"
    using e hd dk [OF p(1)] p dist by (auto simp: free_list_def freed_header_def)
qed

section \<open>Reopening the file\<close>

lemma read_header_page:
  assumes "fields_fit fm" and "4096 \<le> length f" and "page_at f 0 = header_page fm"
  shows "fm_open (Some f) = (Inr (), fm\<lparr>fm_file := f\<rparr>)"
proof -
  let ?raw = "header_page fm"
  have raw: "file_read 0 4096 f = ?raw" using assms(3) by (simp add: file_read_def page_at_def page_consts)
  have magic: "take 7 ?raw = MAGIC_BYTES" by (simp add: header_page_def)
  have u: "unpack_u 4 ?raw 8 = Inr 2" "unpack_u 4 ?raw 12 = Inr 4096"
    "unpack_u 4 ?raw 16 = Inr (fm_page_count fm)" "unpack_u 4 ?raw 20 = Inr (fm_free_list_head fm)"
    "unpack_u 4 ?raw 24 = Inr (fm_catalog_root fm)" "unpack_u 4 ?raw 28 = Inr (fm_root_page_id fm)"
    using assms(1)
    by (simp_all add: unpack_u_def header_page_def header_fields_def fields_fit_def del: le_bytes.simps)
  have "crc32 (header_fields fm) < 256 ^ 8" using crc32_bound [of "header_fields fm"] by simp
  then have c: "unpack_u 8 ?raw 32 = Inr (crc32 (header_fields fm))"
    by (simp add: unpack_u_def header_page_def del: le_bytes.simps)
  have g: "slice_get ?raw 8 32 = header_fields fm"
    using slice_get_nat [of 8 32 ?raw] by (simp add: header_page_def)
  show ?thesis
    using magic u c g by (simp add: fm_open_def read_header_def page_consts raw Let_def)
qed

section \<open>The allocator as a stack\<close>

text \<open>
  What the clients of the allocator rely on: freed pages form a stack, allocation pops it (or
  grows the file when it is empty), and neither touches another page. Page 0 is the header.
\<close>

definition freeable :: "file_manager \<Rightarrow> nat \<Rightarrow> bool" where
  "freeable fm p \<longleftrightarrow> p \<noteq> 0 \<and>
     (\<exists>d. disk fm p = Some d \<and> (d ! 4 = 0 \<or> (\<exists>h. parse_page_header d = Inr h)))"

locale page_allocator =
  fixes inv :: "'s \<Rightarrow> nat list \<Rightarrow> bool"
    and view :: "'s \<Rightarrow> nat \<Rightarrow> bytes option"
    and can_free :: "'s \<Rightarrow> nat \<Rightarrow> bool"
    and alloc :: "('s, nat) st"
    and free :: "nat \<Rightarrow> ('s, unit) st"
  assumes alloc_pop: "inv s (x # xs) \<Longrightarrow>
      \<exists>s'. alloc s = (Inr x, s') \<and> inv s' xs \<and> (\<forall>p. p \<noteq> 0 \<longrightarrow> view s' p = view s p)"
    and free_push: "inv s xs \<Longrightarrow> can_free s p \<Longrightarrow> p \<notin> set xs \<Longrightarrow>
      \<exists>s'. free p s = (Inr (), s') \<and> inv s' (p # xs) \<and> (\<forall>q. q \<noteq> 0 \<longrightarrow> q \<noteq> p \<longrightarrow> view s' q = view s q)"
    and can_free_nonzero: "can_free s p \<Longrightarrow> p \<noteq> 0"
    and can_free_view: "can_free s p \<Longrightarrow> view s' p = view s p \<Longrightarrow> can_free s' p"
begin

lemma free_many:
  "inv s xs \<Longrightarrow> distinct ps \<Longrightarrow> set ps \<inter> set xs = {} \<Longrightarrow> \<forall>p \<in> set ps. can_free s p \<Longrightarrow>
   \<exists>s'. smap free ps s = (Inr (replicate (length ps) ()), s') \<and> inv s' (rev ps @ xs) \<and>
     (\<forall>q. q \<noteq> 0 \<longrightarrow> q \<notin> set ps \<longrightarrow> view s' q = view s q)"
proof (induction ps arbitrary: s xs)
  case (Cons p ps)
  obtain s1 where s1: "free p s = (Inr (), s1)" "inv s1 (p # xs)"
      "\<forall>q. q \<noteq> 0 \<longrightarrow> q \<noteq> p \<longrightarrow> view s1 q = view s q"
    using free_push [OF Cons.prems(1), of p] Cons.prems by auto
  have "can_free s1 q" if "q \<in> set ps" for q
    using can_free_view [of s q s1] s1(3) can_free_nonzero [of s q] Cons.prems(2,4) that by auto
  then obtain s2 where "smap free ps s1 = (Inr (replicate (length ps) ()), s2)"
      "inv s2 (rev ps @ p # xs)" "\<forall>q. q \<noteq> 0 \<longrightarrow> q \<notin> set ps \<longrightarrow> view s2 q = view s1 q"
    using Cons.IH [OF s1(2)] Cons.prems by auto
  with s1 show ?case by (simp add: sbind_def)
qed simp

lemma alloc_many:
  "inv s (ps @ xs) \<Longrightarrow>
   \<exists>s'. smap (\<lambda>_. alloc) ps s = (Inr ps, s') \<and> inv s' xs \<and> (\<forall>q. q \<noteq> 0 \<longrightarrow> view s' q = view s q)"
proof (induction ps arbitrary: s)
  case (Cons p ps)
  obtain s1 where s1: "alloc s = (Inr p, s1)" "inv s1 (ps @ xs)" "\<forall>q. q \<noteq> 0 \<longrightarrow> view s1 q = view s q"
    using alloc_pop [of s p "ps @ xs"] Cons.prems by auto
  from Cons.IH [OF s1(2)] s1(1,3) show ?case by (auto simp: sbind_def)
qed simp

end

interpretation fm: page_allocator "\<lambda>fm xs. fm_inv fm \<and> free_list fm xs" disk freeable alloc_page free_page
proof
  fix s x xs
  assume "fm_inv s \<and> free_list s (x # xs)"
  then show "\<exists>s'. alloc_page s = (Inr x, s') \<and> (fm_inv s' \<and> free_list s' xs) \<and>
      (\<forall>p. p \<noteq> 0 \<longrightarrow> disk s' p = disk s p)"
    using alloc_page_reuse [of s x xs] by (intro exI [of _ "snd (alloc_page s)"]) (auto simp: prod_eq_iff)
next
  fix s xs p
  assume i: "fm_inv s \<and> free_list s xs" and c: "freeable s p" and n: "p \<notin> set xs"
  obtain d h where p: "p \<noteq> 0" and d: "disk s p = Some d" and h: "d ! 4 = 0 \<or> parse_page_header d = Inr h"
    using c unfolding freeable_def by blast
  note f = free_page_facts [OF conjunct1 [OF i] conjunct2 [OF i] p n d h]
  show "\<exists>s'. free_page p s = (Inr (), s') \<and> (fm_inv s' \<and> free_list s' (p # xs)) \<and>
      (\<forall>q. q \<noteq> 0 \<longrightarrow> q \<noteq> p \<longrightarrow> disk s' q = disk s q)"
    using f by (intro exI [of _ "snd (free_page p s)"]) (auto simp: prod_eq_iff)
qed (auto simp: freeable_def)

section \<open>Claims\<close>

text \<open>
  C22. The free list is a stack: freeing distinct pages and then allocating as many gives them back,
  last freed first, leaves the older free list in place below them, and changes no other page of
  the file on the way.
\<close>

theorem free_list_is_a_stack:
  assumes "fm_inv fm" and "free_list fm xs" and "distinct ps" and "set ps \<inter> set xs = {}"
    and "\<forall>p \<in> set ps. freeable fm p"
  shows "\<exists>fm1 fm2. smap free_page ps fm = (Inr (replicate (length ps) ()), fm1) \<and>
    smap (\<lambda>_. alloc_page) (rev ps) fm1 = (Inr (rev ps), fm2) \<and> fm_inv fm2 \<and> free_list fm2 xs \<and>
    (\<forall>q. q \<noteq> 0 \<longrightarrow> q \<notin> set ps \<longrightarrow> disk fm2 q = disk fm q)"
proof -
  obtain fm1 where f: "smap free_page ps fm = (Inr (replicate (length ps) ()), fm1)"
      "fm_inv fm1 \<and> free_list fm1 (rev ps @ xs)"
      "\<forall>q. q \<noteq> 0 \<longrightarrow> q \<notin> set ps \<longrightarrow> disk fm1 q = disk fm q"
    using fm.free_many [of fm xs ps] assms by blast
  from fm.alloc_many [OF f(2)] f show ?thesis by fastforce
qed

text \<open>A new database whose file has been grown by \<open>n\<close> pages of zeros.\<close>

definition fresh_fm :: "nat \<Rightarrow> file_manager" where
  "fresh_fm n = \<lparr>fm_file = replicate ((n + 1) * 4096) 0, fm_page_count = n + 1,
     fm_free_list_head = 0, fm_catalog_root = 0, fm_root_page_id = 0\<rparr>"

lemma fresh_fm_facts:
  assumes "n + 1 < 2 ^ 32"
  shows "fm_inv (fresh_fm n)" and "free_list (fresh_fm n) []"
    and "p \<le> n \<Longrightarrow> disk (fresh_fm n) p = Some (replicate 4096 0)"
    and "0 < p \<Longrightarrow> p \<le> n \<Longrightarrow> freeable (fresh_fm n) p"
proof -
  show "fm_inv (fresh_fm n)" using assms by (simp add: fm_inv_def fresh_fm_def)
  show "free_list (fresh_fm n) []" by (simp add: free_list_def fresh_fm_def)
  show d: "disk (fresh_fm n) p = Some (replicate 4096 0)" if "p \<le> n" for p
  proof -
    have "min 4096 ((n + 1) * 4096 - p * 4096) = 4096" using that by auto
    then show ?thesis using that by (simp add: disk_def fresh_fm_def page_at_def)
  qed
  show "freeable (fresh_fm n) p" if "0 < p" "p \<le> n"
    using d [OF that(2)] that(1) by (simp add: freeable_def)
qed

theorem free_list_is_a_stack_witness:
  "\<exists>fm1 fm2. smap free_page [2, 1, 3] (fresh_fm 3) = (Inr [(), (), ()], fm1) \<and>
     smap (\<lambda>_. alloc_page) [3, 1, 2] fm1 = (Inr [3, 1, 2], fm2)"
proof -
  have f: "fm_inv (fresh_fm 3)" "free_list (fresh_fm 3) []" "\<forall>p \<in> set [2, 1, 3]. freeable (fresh_fm 3) p"
    using fresh_fm_facts [of 3] by auto
  show ?thesis using free_list_is_a_stack [OF f(1,2) _ _ f(3)] by (auto simp: numeral_eq_Suc)
qed

lemma close_open:
  assumes "fm_inv fm"
  shows "\<exists>fm'. fm_close fm = (Inr (), fm') \<and> fm_open (Some (fm_file fm')) = (Inr (), fm') \<and>
    fm_page_count fm' = fm_page_count fm \<and> fm_free_list_head fm' = fm_free_list_head fm \<and>
    fm_catalog_root fm' = fm_catalog_root fm \<and> fm_root_page_id fm' = fm_root_page_id fm \<and>
    (\<forall>p. p \<noteq> 0 \<longrightarrow> fst (read_page p fm') = fst (read_page p fm)) \<and> fm_inv fm'"
proof -
  obtain r fm' where w: "write_header fm = (r, fm')" by (cases "write_header fm")
  note f = write_header_facts [OF assms w]
  have e: "fm_page_count fm' = fm_page_count fm" "fm_free_list_head fm' = fm_free_list_head fm"
    "fm_catalog_root fm' = fm_catalog_root fm" "fm_root_page_id fm' = fm_root_page_id fm"
    by (subst f(4), simp)+
  have "header_page fm' = header_page fm" by (simp add: header_page_def header_fields_def e)
  moreover have "4096 \<le> length (fm_file fm')" using f(2) by (simp add: fm_inv_def)
  ultimately have "fm_open (Some (fm_file fm')) = (Inr (), fm')"
    using read_header_page [OF fm_inv_fields [OF f(2)], of "fm_file fm'"] f(5) by simp
  moreover have "fst (read_page p fm') = fst (read_page p fm)" if "p \<noteq> 0" for p
    using f(3) [OF that] by (simp add: read_page_eq [OF assms] read_page_eq [OF f(2)])
  ultimately show ?thesis using w f(1,2) e unfolding fm_close_def by blast
qed

text \<open>
  C23. Closing a database and opening the file again restores the manager: the header written by
  \<open>close\<close> passes the checks of \<open>open\<close> (magic, version, page size, checksum) and gives the same page
  count, free list, catalog root and root page, and every data page reads as before.
\<close>

theorem close_open_roundtrip:
  assumes "fm_inv fm"
  shows "\<exists>fm'. fm_close fm = (Inr (), fm') \<and> fm_open (Some (fm_file fm')) = (Inr (), fm') \<and>
    fm_page_count fm' = fm_page_count fm \<and> fm_free_list_head fm' = fm_free_list_head fm \<and>
    fm_catalog_root fm' = fm_catalog_root fm \<and> fm_root_page_id fm' = fm_root_page_id fm \<and>
    (\<forall>p. p \<noteq> 0 \<longrightarrow> fst (read_page p fm') = fst (read_page p fm))"
  using close_open [OF assms] by blast

theorem close_open_roundtrip_witness:
  "\<exists>fm'. fm_close (fresh_fm 2) = (Inr (), fm') \<and> fm_open (Some (fm_file fm')) = (Inr (), fm') \<and>
     fm_page_count fm' = 3"
  using close_open_roundtrip [OF fresh_fm_facts(1) [of 2]] by (auto simp: fresh_fm_def)

end
