(* ===== verification/Deadlock_Detector.thy ===== *)
theory Deadlock_Detector
  imports Prelude
begin

text \<open>
  \<open>tinydb/concurrency/deadlock_detector.py\<close>: the wait-for graph and its depth-first search for a
  cycle. A Python set of transaction ids is a list without duplicates (the order in which CPython
  iterates over it is not fixed, and nothing below depends on it). The recursion of \<open>dfs\<close> carries
  fuel; \<open>detect_cycle_total\<close> shows that the fuel \<open>detect_cycle\<close> starts with is always enough.
\<close>

type_synonym wait_graph = "(nat, nat list) dict"

section \<open>Operations\<close>

definition succs :: "wait_graph \<Rightarrow> nat \<Rightarrow> nat list" where
  "succs g u = (case dict_get g u of None \<Rightarrow> [] | Some vs \<Rightarrow> vs)"

definition add_wait_edge :: "nat \<Rightarrow> nat \<Rightarrow> wait_graph \<Rightarrow> wait_graph" where
  "add_wait_edge waiter holder g =
     (let hs = succs g waiter in
      dict_set waiter (if holder \<in> set hs then hs else hs @ [holder]) g)"

definition remove_wait_edge :: "nat \<Rightarrow> nat \<Rightarrow> wait_graph \<Rightarrow> wait_graph" where
  "remove_wait_edge waiter holder g =
     (case dict_get g waiter of
        None \<Rightarrow> g
      | Some hs \<Rightarrow> (let hs' = removeAll holder hs in
          if hs' = [] then dict_del waiter g else dict_set waiter hs' g))"

definition clear_txn :: "nat \<Rightarrow> wait_graph \<Rightarrow> wait_graph" where
  "clear_txn txn g = List.map_filter
     (\<lambda>(w, hs). let hs' = removeAll txn hs in if hs' = [] then None else Some (w, hs'))
     (dict_del txn g)"

datatype color = WHITE | GRAY | BLACK

text \<open>
  The inner \<open>while\<close> of \<open>dfs\<close>: climb the parent links from \<open>node\<close> until the parent is \<open>v\<close> (or there
  is none), collecting the nodes; then the collected list is reversed.
\<close>

fun climb :: "nat \<Rightarrow> (nat \<Rightarrow> nat option) \<Rightarrow> nat \<Rightarrow> nat \<Rightarrow> nat list \<Rightarrow> nat list option" where
  "climb 0 parent v node cycle = None"
| "climb (Suc k) parent v node cycle =
     (case parent node of
        None \<Rightarrow> Some (rev cycle)
      | Some q \<Rightarrow> if q = v then Some (rev cycle) else climb k parent v q (cycle @ [q]))"

definition graph_nodes :: "wait_graph \<Rightarrow> nat list" where
  "graph_nodes g = remdups (dict_keys g @ concat (map snd g))"

type_synonym dfs_result = "(nat list option \<times> (nat \<Rightarrow> color) \<times> (nat \<Rightarrow> nat option)) option"

fun dfs :: "nat \<Rightarrow> wait_graph \<Rightarrow> nat \<Rightarrow> (nat \<Rightarrow> color) \<Rightarrow> (nat \<Rightarrow> nat option) \<Rightarrow> dfs_result"
  and dfs_list :: "nat \<Rightarrow> wait_graph \<Rightarrow> nat \<Rightarrow> nat list \<Rightarrow> (nat \<Rightarrow> color) \<Rightarrow> (nat \<Rightarrow> nat option) \<Rightarrow> dfs_result"
where
  "dfs 0 g u color parent = None"
| "dfs (Suc n) g u color parent = dfs_list n g u (succs g u) (color(u := GRAY)) parent"
| "dfs_list n g u [] color parent = Some (None, color(u := BLACK), parent)"
| "dfs_list n g u (v # vs) color parent =
     (if color v = GRAY then
        (case climb (Suc (length (graph_nodes g))) parent v u [v, u] of
           None \<Rightarrow> None | Some cycle \<Rightarrow> Some (Some cycle, color, parent))
      else if color v = WHITE then
        (case dfs n g v color (parent(v := Some u)) of
           None \<Rightarrow> None
         | Some (Some result, color', parent') \<Rightarrow> Some (Some result, color', parent')
         | Some (None, color', parent') \<Rightarrow> dfs_list n g u vs color' parent')
      else dfs_list n g u vs color parent)"

fun dfs_roots :: "nat \<Rightarrow> wait_graph \<Rightarrow> nat list \<Rightarrow> (nat \<Rightarrow> color) \<Rightarrow> (nat \<Rightarrow> nat option) \<Rightarrow> nat list option option" where
  "dfs_roots n g [] color parent = Some None"
| "dfs_roots n g (u # us) color parent =
     (if color u = WHITE then
        (case dfs n g u color parent of
           None \<Rightarrow> None
         | Some (Some result, color', parent') \<Rightarrow> Some (Some result)
         | Some (None, color', parent') \<Rightarrow> dfs_roots n g us color' parent')
      else dfs_roots n g us color parent)"

text \<open>\<open>None\<close> would mean that the fuel ran out, \<open>Some None\<close> that there is no cycle.\<close>

definition detect_cycle :: "wait_graph \<Rightarrow> nat list option option" where
  "detect_cycle g = dfs_roots (Suc (length (graph_nodes g))) g (dict_keys g) (\<lambda>_. WHITE) (\<lambda>_. None)"

definition select_victim :: "nat list \<Rightarrow> nat res" where
  "select_victim cycle = (if cycle = [] then Inl ValueError else Inr (Max (set cycle)))"

section \<open>The graph operations on edges\<close>

definition wait_edge :: "wait_graph \<Rightarrow> nat \<Rightarrow> nat \<Rightarrow> bool" where
  "wait_edge g u v \<longleftrightarrow> v \<in> set (succs g u)"

lemma wait_edge_add: "wait_edge (add_wait_edge w h g) u v \<longleftrightarrow> wait_edge g u v \<or> (u = w \<and> v = h)"
  by (auto simp: wait_edge_def add_wait_edge_def succs_def Let_def split: option.splits)

lemma wait_edge_remove:
  "wait_edge (remove_wait_edge w h g) u v \<longleftrightarrow> wait_edge g u v \<and> \<not> (u = w \<and> v = h)"
proof (cases "dict_get g w")
  case (Some hs)
  show ?thesis
  proof (cases "removeAll h hs = []")
    case True
    then have "set hs - {h} = {}" by (metis set_removeAll set_empty)
    with True Some show ?thesis
      by (auto simp: wait_edge_def remove_wait_edge_def succs_def)
  next
    case False
    with Some show ?thesis
      by (auto simp: wait_edge_def remove_wait_edge_def succs_def)
  qed
qed (auto simp: wait_edge_def remove_wait_edge_def succs_def)

lemma dict_get_map_filter:
  assumes "distinct (dict_keys g)"
  shows "dict_get (List.map_filter (\<lambda>(w, hs). if P hs then None else Some (w, f hs)) g) u =
    (case dict_get g u of None \<Rightarrow> None | Some hs \<Rightarrow> if P hs then None else Some (f hs))"
  using assms
proof (induction g)
  case (Cons x g)
  obtain w hs where x: "x = (w, hs)" by (cases x)
  from Cons.prems x have "dict_get g w = None" by (simp add: dict_get_None_iff)
  with Cons x show ?case
    by (auto simp: List.map_filter_simps)
qed (simp add: List.map_filter_simps)

lemma succs_clear_txn:
  assumes "distinct (dict_keys g)"
  shows "succs (clear_txn t g) u = (if u = t then [] else removeAll t (succs g u))"
  using dict_get_map_filter [of "dict_del t g" "\<lambda>hs. removeAll t hs = []" "removeAll t" u] assms
  by (auto simp: clear_txn_def succs_def Let_def cong: if_cong split: option.splits)

lemma wait_edge_clear:
  "distinct (dict_keys g) \<Longrightarrow>
   wait_edge (clear_txn t g) u v \<longleftrightarrow> wait_edge g u v \<and> u \<noteq> t \<and> v \<noteq> t"
  by (auto simp: wait_edge_def succs_clear_txn)

section \<open>Correctness of the search\<close>

text \<open>A cycle as a list: every node waits for the next one, the last one for the first.\<close>

definition is_cycle :: "wait_graph \<Rightarrow> nat list \<Rightarrow> bool" where
  "is_cycle g c \<longleftrightarrow> c \<noteq> [] \<and> successively (wait_edge g) c \<and> wait_edge g (last c) (hd c)"

text \<open>The gray nodes are the stack of the search, linked by the parent map.\<close>

definition linked :: "wait_graph \<Rightarrow> (nat \<Rightarrow> nat option) \<Rightarrow> nat list \<Rightarrow> bool" where
  "linked g parent S \<longleftrightarrow> successively (\<lambda>x y. parent x = Some y \<and> wait_edge g y x) S"

definition dfs_inv ::
  "wait_graph \<Rightarrow> nat list \<Rightarrow> (nat \<Rightarrow> color) \<Rightarrow> (nat \<Rightarrow> nat option) \<Rightarrow> bool" where
  "dfs_inv g S color parent \<longleftrightarrow> distinct S \<and> (\<forall>x. color x = GRAY \<longleftrightarrow> x \<in> set S) \<and> linked g parent S \<and>
     (\<forall>x. color x = BLACK \<longrightarrow> Wellfounded.accp (\<lambda>y x. wait_edge g x y) x) \<and>
     (\<forall>x \<in> set S. x \<in> set (graph_nodes g))"

definition no_self_wait :: "wait_graph \<Rightarrow> bool" where
  "no_self_wait g \<longleftrightarrow> (\<forall>u. \<not> wait_edge g u u)"

lemma succs_nodes: "wait_edge g u v \<Longrightarrow> v \<in> set (graph_nodes g)"
proof -
  assume "wait_edge g u v"
  then obtain hs where "dict_get g u = Some hs" and v: "v \<in> set hs"
    by (cases "dict_get g u") (auto simp: wait_edge_def succs_def)
  then have "(u, hs) \<in> set g" by (simp add: map_of_SomeD)
  then have "hs \<in> set (map snd g)" by force
  with v have "v \<in> set (concat (map snd g))" by auto
  then show ?thesis by (simp add: graph_nodes_def)
qed

lemma wait_edge_key: "wait_edge g u v \<Longrightarrow> u \<in> set (dict_keys g)"
  by (cases "dict_get g u") (auto simp: wait_edge_def succs_def dest: dict_get_SomeD)

lemma climb_linked:
  assumes "linked g parent (u # xs @ v # ys)" and "v \<notin> set (u # xs)" and "length xs < k"
  shows "climb k parent v u cyc = Some (rev (cyc @ xs))"
  using assms
proof (induction xs arbitrary: k u cyc)
  case Nil
  then show ?case by (cases k) (auto simp: linked_def)
next
  case (Cons x xs)
  then obtain k' where k: "k = Suc k'" "length xs < k'" by (cases k) auto
  from Cons.prems have "parent u = Some x" "linked g parent (x # xs @ v # ys)"
    by (auto simp: linked_def)
  with Cons.IH [OF this(2), of k' "cyc @ [x]"] Cons.prems k show ?case by auto
qed

lemma linked_cycle:
  assumes "linked g parent (u # xs @ v # ys)" and "wait_edge g u v"
  shows "is_cycle g (rev ([v, u] @ xs))"
proof -
  have "successively (\<lambda>x y. wait_edge g y x) (u # xs @ v # ys)"
    using assms(1) unfolding linked_def by (rule successively_mono) simp
  then have "successively (\<lambda>x y. wait_edge g y x) ((u # xs) @ v # ys)" by simp
  then have path: "successively (\<lambda>x y. wait_edge g y x) (u # xs)"
    and lst: "wait_edge g v (last (u # xs))"
    unfolding successively_append_iff by simp_all
  have "successively (wait_edge g) (rev (u # xs))" using path by (simp only: successively_rev)
  then have "successively (wait_edge g) (rev (u # xs) @ [v])"
    using assms(2) by (simp only: successively_append_iff) simp
  moreover have "hd (rev (u # xs) @ [v]) = last (u # xs)" by (simp add: hd_append hd_rev)
  ultimately show ?thesis using lst by (simp add: is_cycle_def)
qed

text \<open>White nodes never come back, and only gray nodes keep their parent.\<close>

definition whites :: "wait_graph \<Rightarrow> (nat \<Rightarrow> color) \<Rightarrow> nat set" where
  "whites g color = {x \<in> set (graph_nodes g). color x = WHITE}"

lemma finite_whites [simp]: "finite (whites g color)"
  by (simp add: whites_def)

definition dfs_post ::
  "wait_graph \<Rightarrow> nat list \<Rightarrow> nat \<Rightarrow> (nat \<Rightarrow> color) \<Rightarrow> dfs_result \<Rightarrow> bool" where
  "dfs_post g S u color r \<longleftrightarrow> (case r of
     None \<Rightarrow> False
   | Some (Some c, _, _) \<Rightarrow> is_cycle g c
   | Some (None, color', parent') \<Rightarrow> dfs_inv g S color' parent' \<and> color' u = BLACK \<and>
       (\<forall>x. color x = BLACK \<longrightarrow> color' x = BLACK) \<and> whites g color' \<subseteq> whites g color)"

lemma dfs_inv_white: "dfs_inv g S color parent \<Longrightarrow> color v = WHITE \<Longrightarrow> v \<notin> set S"
  unfolding dfs_inv_def by (metis color.distinct(1))

lemma dfs_inv_push:
  assumes inv: "dfs_inv g S color parent" and w: "color u = WHITE" and n: "u \<in> set (graph_nodes g)"
    and e: "S \<noteq> [] \<longrightarrow> wait_edge g (hd S) u \<and> parent u = Some (hd S)"
  shows "dfs_inv g (u # S) (color(u := GRAY)) parent"
  using assms dfs_inv_white [OF inv w] by (cases S) (auto simp: dfs_inv_def linked_def)

lemma dfs_inv_parent:
  assumes "dfs_inv g S color parent" and "color v = WHITE"
  shows "dfs_inv g S color (parent(v := q))"
proof -
  have v: "v \<notin> set S" using assms by (rule dfs_inv_white)
  have "successively (\<lambda>x y. (parent(v := q)) x = Some y \<and> wait_edge g y x) S"
    using assms(1) v unfolding dfs_inv_def linked_def
    by (auto intro: successively_mono [of _ S])
  with assms(1) show ?thesis by (simp add: dfs_inv_def linked_def)
qed

lemma dfs_inv_pop:
  assumes inv: "dfs_inv g (u # S) color parent" and fin: "\<forall>v \<in> set (succs g u). color v = BLACK"
  shows "dfs_post g S u color (Some (None, color(u := BLACK), parent))"
proof -
  have acc: "Wellfounded.accp (\<lambda>y x. wait_edge g x y) u"
  proof (rule accp.accI)
    fix y assume "wait_edge g u y"
    then have "color y = BLACK" using fin by (simp add: wait_edge_def)
    then show "Wellfounded.accp (\<lambda>y x. wait_edge g x y) y" using inv by (simp add: dfs_inv_def)
  qed
  have "linked g parent S" using inv by (cases S) (simp_all add: dfs_inv_def linked_def)
  moreover have "u \<notin> set S" "distinct S" using inv by (simp_all add: dfs_inv_def)
  moreover have "\<forall>x. (color(u := BLACK)) x = GRAY \<longleftrightarrow> x \<in> set S"
    using inv \<open>u \<notin> set S\<close> by (simp add: dfs_inv_def)
  moreover have "\<forall>x. (color(u := BLACK)) x = BLACK \<longrightarrow> Wellfounded.accp (\<lambda>y x. wait_edge g x y) x"
    using inv acc by (simp add: dfs_inv_def)
  moreover have "\<forall>x \<in> set S. x \<in> set (graph_nodes g)" using inv by (simp add: dfs_inv_def)
  ultimately have "dfs_inv g S (color(u := BLACK)) parent"
    unfolding dfs_inv_def by (intro conjI)
  then show ?thesis by (auto simp: dfs_post_def whites_def)
qed

lemma dfs_post_gray:
  assumes "dfs_post g S u (color(u := GRAY)) r" and "color u = WHITE"
  shows "dfs_post g S u color r"
proof -
  have "whites g (color(u := GRAY)) \<subseteq> whites g color" by (auto simp: whites_def)
  moreover have "color x = BLACK \<Longrightarrow> (color(u := GRAY)) x = BLACK" for x using assms(2) by auto
  ultimately show ?thesis
    using assms(1) unfolding dfs_post_def by (force split: option.splits prod.splits)
qed

text \<open>A gray successor closes a cycle, which \<open>climb\<close> reads off the stack.\<close>

lemma dfs_gray:
  assumes inv: "dfs_inv g (u # S) color parent" and ns: "no_self_wait g"
    and e: "wait_edge g u v" and gray: "color v = GRAY"
  obtains c where "climb (Suc (length (graph_nodes g))) parent v u [v, u] = Some c" and "is_cycle g c"
proof -
  from inv gray have "v \<in> set (u # S)" by (auto simp: dfs_inv_def)
  moreover have "v \<noteq> u" using ns e by (auto simp: no_self_wait_def)
  ultimately obtain xs ys where S: "S = xs @ v # ys" by (auto simp: in_set_conv_decomp)
  have l: "linked g parent (u # xs @ v # ys)" and d: "distinct (u # xs @ v # ys)"
    and sub: "set (u # xs @ v # ys) \<subseteq> set (graph_nodes g)"
    using inv S by (auto simp: dfs_inv_def)
  have "length (u # xs @ v # ys) = card (set (u # xs @ v # ys))" using d by (simp only: distinct_card)
  also have "\<dots> \<le> card (set (graph_nodes g))" using sub by (intro card_mono) auto
  also have "\<dots> \<le> length (graph_nodes g)" by (rule card_length)
  finally have "length xs < Suc (length (graph_nodes g))" by simp
  with l d have "climb (Suc (length (graph_nodes g))) parent v u [v, u] = Some (rev ([v, u] @ xs))"
    by (intro climb_linked) auto
  with linked_cycle [OF l e] show ?thesis by (intro that)
qed

lemma whites_gray:
  "u \<in> set (graph_nodes g) \<Longrightarrow> color u = WHITE \<Longrightarrow>
   card (whites g (color(u := GRAY))) < card (whites g color)"
  by (rule psubset_card_mono) (auto simp: whites_def)

lemma dfs_correct:
  "no_self_wait g \<Longrightarrow> dfs_inv g S color parent \<Longrightarrow> color u = WHITE \<Longrightarrow> u \<in> set (graph_nodes g) \<Longrightarrow>
   (S \<noteq> [] \<longrightarrow> wait_edge g (hd S) u \<and> parent u = Some (hd S)) \<Longrightarrow> card (whites g color) \<le> n \<Longrightarrow>
   dfs_post g S u color (dfs n g u color parent)"
  "no_self_wait g \<Longrightarrow> dfs_inv g (u # S) color parent \<Longrightarrow> set vs \<subseteq> set (succs g u) \<Longrightarrow>
   (\<forall>v \<in> set (succs g u) - set vs. color v = BLACK) \<Longrightarrow> card (whites g color) \<le> n \<Longrightarrow>
   dfs_post g S u color (dfs_list n g u vs color parent)"
proof (induction n g u color parent and n g u vs color parent arbitrary: S and S rule: dfs_dfs_list.induct)
  case (1 g u color parent)
  then have "u \<in> whites g color" by (simp add: whites_def)
  with 1 show ?case by auto
next
  case (2 n g u color parent)
  have a: "dfs_inv g (u # S) (color(u := GRAY)) parent" using 2 by (intro dfs_inv_push)
  have b: "card (whites g (color(u := GRAY))) \<le> n" using 2 whites_gray [of u g color] by simp
  have "dfs_post g S u (color(u := GRAY)) (dfs_list n g u (succs g u) (color(u := GRAY)) parent)"
    by (rule 2(1) [OF 2(2) a _ _ b]) simp_all
  then have "dfs_post g S u color (dfs_list n g u (succs g u) (color(u := GRAY)) parent)"
    using 2(4) by (rule dfs_post_gray)
  then show ?case by simp
next
  case (3 n g u color parent)
  then show ?case by (simp add: dfs_inv_pop)
next
  case (4 n g u v vs color parent)
  have e: "wait_edge g u v" using 4 by (auto simp: wait_edge_def)
  consider "color v = GRAY" | "color v = WHITE" | "color v = BLACK" by (cases "color v")
  then show ?case
  proof cases
    case 1
    obtain c where "climb (Suc (length (graph_nodes g))) parent v u [v, u] = Some c" "is_cycle g c"
      by (rule dfs_gray [OF 4(5,4) e 1])
    with 1 show ?thesis by (simp add: dfs_post_def del: climb.simps)
  next
    case 2
    have "dfs_post g (u # S) v color (dfs n g v color (parent(v := Some u)))"
      using 2 e by (intro 4(1) [OF _ 2 4(4) dfs_inv_parent [OF 4(5) 2] 2 succs_nodes [OF e] _ 4(8)]) simp_all
    then show ?thesis
    proof (cases "dfs n g v color (parent(v := Some u))")
      case (Some r)
      obtain res color' parent' where r: "r = (res, color', parent')" by (cases r)
      show ?thesis
      proof (cases res)
        case None
        have post: "dfs_inv g (u # S) color' parent'" "color' v = BLACK"
          "\<forall>x. color x = BLACK \<longrightarrow> color' x = BLACK" "whites g color' \<subseteq> whites g color"
          using \<open>dfs_post g (u # S) v color _\<close> Some r None by (auto simp: dfs_post_def)
        have "card (whites g color') \<le> n" using card_mono [OF _ post(4)] 4(8) by simp
        then have "dfs_post g S u color' (dfs_list n g u vs color' parent')"
          using 4 2 Some r None post by (intro 4(2)) auto
        then have "dfs_post g S u color (dfs_list n g u vs color' parent')"
          using post by (fastforce simp: dfs_post_def split: option.splits)
        with 2 Some r None show ?thesis by simp
      qed (use 2 Some r \<open>dfs_post g (u # S) v color _\<close> in \<open>auto simp: dfs_post_def\<close>)
    qed (simp add: dfs_post_def)
  next
    case 3
    with 4 have "dfs_post g S u color (dfs_list n g u vs color parent)" by (intro 4(3)) auto
    with 3 show ?thesis by simp
  qed
qed

lemma dfs_roots_correct:
  assumes "no_self_wait g" and "dfs_inv g [] color parent" and "set us \<subseteq> set (graph_nodes g)"
    and "card (whites g color) \<le> n"
  shows "\<exists>r. dfs_roots n g us color parent = Some r \<and>
    (case r of Some c \<Rightarrow> is_cycle g c
     | None \<Rightarrow> \<forall>u. u \<in> set us \<or> color u = BLACK \<longrightarrow> Wellfounded.accp (\<lambda>y x. wait_edge g x y) u)"
  using assms(2-)
proof (induction us arbitrary: color parent)
  case Nil
  then show ?case by (auto simp: dfs_inv_def)
next
  case (Cons u us)
  have gray: "color u \<noteq> GRAY" using Cons.prems(1) by (auto simp: dfs_inv_def)
  show ?case
  proof (cases "color u = WHITE")
    case True
    have post: "dfs_post g [] u color (dfs n g u color parent)"
      using Cons.prems True assms(1) by (intro dfs_correct(1)) auto
    then obtain res color' parent' where d: "dfs n g u color parent = Some (res, color', parent')"
      by (cases "dfs n g u color parent") (auto simp: dfs_post_def)
    show ?thesis
    proof (cases res)
      case None
      with post d have p: "dfs_inv g [] color' parent'" "color' u = BLACK"
        "\<forall>x. color x = BLACK \<longrightarrow> color' x = BLACK" "whites g color' \<subseteq> whites g color"
        by (auto simp: dfs_post_def)
      have "card (whites g color') \<le> n" using card_mono [OF _ p(4)] Cons.prems(3) by simp
      with Cons.IH [OF p(1)] Cons.prems p True d None show ?thesis by (auto split: option.splits)
    qed (use True d post in \<open>auto simp: dfs_post_def\<close>)
  next
    case False
    with gray have "color u = BLACK" by (cases "color u") auto
    with Cons.prems Cons.IH [OF Cons.prems(1)] obtain r where "dfs_roots n g us color parent = Some r"
      "case r of Some c \<Rightarrow> is_cycle g c
       | None \<Rightarrow> \<forall>u. u \<in> set us \<or> color u = BLACK \<longrightarrow> Wellfounded.accp (\<lambda>y x. wait_edge g x y) u"
      by auto
    with \<open>color u = BLACK\<close> show ?thesis by (cases r) auto
  qed
qed

lemma accp_no_cycle:
  assumes "Wellfounded.accp (\<lambda>y x. wait_edge g x y) u"
  shows "\<not> (wait_edge g)\<^sup>+\<^sup>+ u u"
  using assms
proof (induction rule: accp.induct)
  case (accI u)
  show ?case
  proof
    assume "(wait_edge g)\<^sup>+\<^sup>+ u u"
    then obtain y where "wait_edge g u y" "(wait_edge g)\<^sup>*\<^sup>* y u" by (meson tranclpD)
    then have "(wait_edge g)\<^sup>+\<^sup>+ y y" by (metis rtranclp_into_tranclp1 rtranclp_tranclp_tranclp tranclp.simps)
    with accI.IH \<open>wait_edge g u y\<close> show False by blast
  qed
qed

lemma is_cycle_tranclp: "is_cycle g c \<Longrightarrow> x \<in> set c \<Longrightarrow> (wait_edge g)\<^sup>+\<^sup>+ x x"
proof -
  assume c: "is_cycle g c" and x: "x \<in> set c"
  have path: "(wait_edge g)\<^sup>*\<^sup>* a (last (a # ys))" if "successively (wait_edge g) (a # ys)" for a ys
    using that
  proof (induction ys arbitrary: a)
    case (Cons b ys)
    then have "wait_edge g a b" "(wait_edge g)\<^sup>*\<^sup>* b (last (b # ys))" by auto
    then show ?case by (simp add: converse_rtranclp_into_rtranclp)
  qed simp
  from x obtain xs ys where s: "c = xs @ x # ys" by (auto simp: in_set_conv_decomp)
  have "(wait_edge g)\<^sup>*\<^sup>* x (last c)"
    using c s path [of x ys] by (auto simp: is_cycle_def successively_append_iff)
  moreover have "(wait_edge g)\<^sup>*\<^sup>* (hd c) x"
  proof (cases xs)
    case (Cons a as)
    have "successively (wait_edge g) ((a # as @ [x]) @ ys)" using c s Cons by (simp add: is_cycle_def)
    then have "successively (wait_edge g) (a # as @ [x])" by (simp only: successively_append_iff)
    from path [OF this] show ?thesis using s Cons by simp
  qed (simp add: s)
  moreover have "wait_edge g (last c) (hd c)" using c by (simp add: is_cycle_def)
  ultimately show ?thesis by (meson rtranclp_into_tranclp1 tranclp_rtranclp_tranclp)
qed

text \<open>\<open>detect_cycle\<close> always returns; what it returns is a cycle, or there is none.\<close>

lemma detect_cycle_correct:
  assumes "no_self_wait g"
  shows "\<exists>r. detect_cycle g = Some r \<and>
    (case r of Some c \<Rightarrow> is_cycle g c | None \<Rightarrow> \<forall>u. \<not> (wait_edge g)\<^sup>+\<^sup>+ u u)"
proof -
  have inv: "dfs_inv g [] (\<lambda>_. WHITE) (\<lambda>_. None)" by (simp add: dfs_inv_def linked_def)
  have keys: "set (dict_keys g) \<subseteq> set (graph_nodes g)" by (auto simp: graph_nodes_def)
  have "card (whites g (\<lambda>_. WHITE)) \<le> card (set (graph_nodes g))"
    by (rule card_mono) (auto simp: whites_def)
  also have "\<dots> \<le> length (graph_nodes g)" by (rule card_length)
  finally have "card (whites g (\<lambda>_. WHITE)) \<le> Suc (length (graph_nodes g))" by simp
  from dfs_roots_correct [OF assms inv keys this] obtain r where
    r: "detect_cycle g = Some r" and
    c: "case r of Some c \<Rightarrow> is_cycle g c
      | None \<Rightarrow> \<forall>u. u \<in> set (dict_keys g) \<or> WHITE = BLACK \<longrightarrow>
          Wellfounded.accp (\<lambda>y x. wait_edge g x y) u"
    unfolding detect_cycle_def by blast
  have "\<not> (wait_edge g)\<^sup>+\<^sup>+ u u" if "r = None" for u
  proof
    assume cyc: "(wait_edge g)\<^sup>+\<^sup>+ u u"
    then obtain v where "wait_edge g u v" by (meson tranclpD)
    then have "u \<in> set (dict_keys g)" by (rule wait_edge_key)
    with c that have "Wellfounded.accp (\<lambda>y x. wait_edge g x y) u" by simp
    with cyc show False using accp_no_cycle by blast
  qed
  with r c show ?thesis by (auto split: option.splits)
qed

end
