(* ===== verification/Lock_Manager.thy ===== *)
theory Lock_Manager
  imports Deadlock_Detector
begin

text \<open>
  \<open>tinydb/concurrency/lock_manager.py\<close>: page locks, under one mutex. A blocked \<open>acquire\<close> gives the mutex up while it
  waits and takes it again for each of its later pieces, \<open>release_all\<close> takes it once per page: an operation below is what
  runs while the mutex is held without a break, with the calls of the detector in it. A thread is somewhere between two
  such pieces, and \<open>lm_step\<close> interleaves the threads in any order, also in the loop after a timeout, which runs without
  the mutex. The condition objects of the wait queue carry no data; a queue entry is the pair of transaction and mode,
  and \<open>release\<close> returns the entries it wakes.
\<close>

section \<open>State\<close>

datatype LockMode = SHARED | EXCLUSIVE

fun compatible :: "LockMode \<Rightarrow> LockMode \<Rightarrow> bool" where
  "compatible SHARED SHARED = True"
| "compatible SHARED EXCLUSIVE = False"
| "compatible EXCLUSIVE SHARED = False"
| "compatible EXCLUSIVE EXCLUSIVE = False"

type_synonym holders = "(nat, LockMode) dict"

record lock_manager =
  lm_holders :: "(nat, holders) dict"
  lm_wait_queue :: "(nat, (nat \<times> LockMode) list) dict"
  lm_detector :: "wait_graph option"

definition new_lock_manager :: "wait_graph option \<Rightarrow> lock_manager" where
  "new_lock_manager det = \<lparr>lm_holders = [], lm_wait_queue = [], lm_detector = det\<rparr>"

definition holders_of :: "lock_manager \<Rightarrow> nat \<Rightarrow> holders" where
  "holders_of lm page = (case dict_get (lm_holders lm) page of None \<Rightarrow> [] | Some hs \<Rightarrow> hs)"

definition set_holders :: "nat \<Rightarrow> holders \<Rightarrow> lock_manager \<Rightarrow> lock_manager" where
  "set_holders page hs lm = lm\<lparr>lm_holders := dict_set page hs (lm_holders lm)\<rparr>"

section \<open>Operations under the mutex\<close>

text \<open>\<open>_try_upgrade_locked\<close>.\<close>

definition try_upgrade_locked :: "nat \<Rightarrow> nat \<Rightarrow> lock_manager \<Rightarrow> bool \<times> lock_manager" where
  "try_upgrade_locked txn page lm =
     (if length (holders_of lm page) = 1
      then (True, set_holders page (dict_set txn EXCLUSIVE (holders_of lm page)) lm)
      else (False, lm))"

text \<open>The loop of \<open>_try_acquire\<close> over the holders of the page, with its early returns.\<close>

datatype scan = AllCompatible | Conflict | AlreadyHeld | WantsUpgrade

fun scan_holders :: "nat \<Rightarrow> LockMode \<Rightarrow> holders \<Rightarrow> scan" where
  "scan_holders txn mode [] = AllCompatible"
| "scan_holders txn mode ((h, m) # rest) =
     (if h = txn then (if mode = EXCLUSIVE \<and> m = SHARED then WantsUpgrade else AlreadyHeld)
      else if \<not> compatible m mode then Conflict
      else scan_holders txn mode rest)"

definition try_acquire :: "nat \<Rightarrow> nat \<Rightarrow> LockMode \<Rightarrow> lock_manager \<Rightarrow> bool \<times> lock_manager" where
  "try_acquire txn page mode lm =
     (if holders_of lm page = [] then (True, set_holders page [(txn, mode)] lm)
      else case scan_holders txn mode (holders_of lm page) of
        WantsUpgrade \<Rightarrow> try_upgrade_locked txn page lm
      | AlreadyHeld \<Rightarrow> (True, lm)
      | Conflict \<Rightarrow> (False, lm)
      | AllCompatible \<Rightarrow> (True, set_holders page (dict_set txn mode (holders_of lm page)) lm))"

definition other_holders :: "nat \<Rightarrow> nat \<Rightarrow> lock_manager \<Rightarrow> nat list" where
  "other_holders txn page lm = filter (\<lambda>h. h \<noteq> txn) (dict_keys (holders_of lm page))"

text \<open>One call of \<open>remove_wait_edge\<close>, and the loop that removes the edges from \<open>txn\<close> to the holders of the page.\<close>

definition unlink :: "nat \<Rightarrow> nat \<Rightarrow> lock_manager \<Rightarrow> lock_manager" where
  "unlink txn holder lm = lm\<lparr>lm_detector := map_option (remove_wait_edge txn holder) (lm_detector lm)\<rparr>"

definition drop_edges :: "nat \<Rightarrow> nat \<Rightarrow> lock_manager \<Rightarrow> lock_manager" where
  "drop_edges txn page lm = lm\<lparr>lm_detector :=
     map_option (fold (remove_wait_edge txn) (other_holders txn page lm)) (lm_detector lm)\<rparr>"

definition add_edges :: "nat \<Rightarrow> nat \<Rightarrow> lock_manager \<Rightarrow> lock_manager" where
  "add_edges txn page lm = lm\<lparr>lm_detector :=
     map_option (fold (add_wait_edge txn) (other_holders txn page lm)) (lm_detector lm)\<rparr>"

definition enqueue :: "nat \<Rightarrow> nat \<Rightarrow> LockMode \<Rightarrow> lock_manager \<Rightarrow> lock_manager" where
  "enqueue txn page mode lm = lm\<lparr>lm_wait_queue := dict_set page
     ((case dict_get (lm_wait_queue lm) page of None \<Rightarrow> [] | Some q \<Rightarrow> q) @ [(txn, mode)])
     (lm_wait_queue lm)\<rparr>"

definition dequeue :: "nat \<Rightarrow> nat \<Rightarrow> lock_manager \<Rightarrow> lock_manager" where
  "dequeue txn page lm = (case dict_get (lm_wait_queue lm) page of
     None \<Rightarrow> lm
   | Some q \<Rightarrow> lm\<lparr>lm_wait_queue :=
       dict_set page (filter (\<lambda>e. fst e \<noteq> txn) q) (lm_wait_queue lm)\<rparr>)"

text \<open>
  The first critical section of \<open>acquire\<close>: the lock is granted, or a deadlock is reported (and the
  edges just added are removed), or the transaction joins the wait queue. \<open>Hangs\<close> stands for a search
  for cycles that does not end.
\<close>

datatype acquire_result = Granted | Waiting | Deadlocked "nat list" | Hangs

definition acquire_enter :: "nat \<Rightarrow> nat \<Rightarrow> LockMode \<Rightarrow> lock_manager \<Rightarrow> acquire_result \<times> lock_manager" where
  "acquire_enter txn page mode lm =
     (case try_acquire txn page mode lm of
        (True, lm') \<Rightarrow> (Granted, lm')
      | (False, lm') \<Rightarrow>
          (let lm1 = add_edges txn page lm' in
           case (case lm_detector lm1 of None \<Rightarrow> Some None | Some g \<Rightarrow> detect_cycle g) of
             None \<Rightarrow> (Hangs, lm1)
           | Some (Some cycle) \<Rightarrow> (Deadlocked cycle, drop_edges txn page lm1)
           | Some None \<Rightarrow> (Waiting, enqueue txn page mode lm1)))"

text \<open>A waiting transaction evaluates its predicate, with the mutex that its condition is bound to.\<close>

definition acquire_wake :: "nat \<Rightarrow> nat \<Rightarrow> LockMode \<Rightarrow> lock_manager \<Rightarrow> acquire_result \<times> lock_manager" where
  "acquire_wake txn page mode lm =
     (case try_acquire txn page mode lm of
        (True, lm') \<Rightarrow> (Granted, lm')
      | (False, lm') \<Rightarrow> (Waiting, lm'))"

text \<open>
  \<open>acquire\<close> called while no other thread runs: what it waits for cannot happen. After a success it
  takes the mutex again and drops its edges; after a timeout it leaves the queue, then drops its edges.
\<close>

definition acquire :: "nat \<Rightarrow> nat \<Rightarrow> LockMode \<Rightarrow> (lock_manager, bool) st" where
  "acquire txn page mode lm =
     (case acquire_enter txn page mode lm of
        (Granted, lm1) \<Rightarrow> (Inr True, lm1)
      | (Deadlocked cycle, lm1) \<Rightarrow> (Inl (DeadlockError cycle), lm1)
      | (Hangs, lm1) \<Rightarrow> (Inl NonTermination, lm1)
      | (Waiting, lm1) \<Rightarrow> (case acquire_wake txn page mode lm1 of
            (Granted, lm2) \<Rightarrow> (Inr True, drop_edges txn page lm2)
          | (_, lm2) \<Rightarrow> (Inr False, drop_edges txn page (dequeue txn page lm2))))"

definition release :: "nat \<Rightarrow> nat \<Rightarrow> lock_manager \<Rightarrow> (nat \<times> LockMode) list \<times> lock_manager" where
  "release txn page lm =
     (let lm1 = (case dict_get (lm_holders lm) page of
            None \<Rightarrow> lm
          | Some hs \<Rightarrow>
              if txn \<in> set (dict_keys hs)
              then let hs' = dict_del txn hs in
                lm\<lparr>lm_holders := (if hs' = [] then dict_del page (lm_holders lm)
                                 else dict_set page hs' (lm_holders lm))\<rparr>
              else lm);
          lm2 = dequeue txn page lm1;
          waiters = (case dict_get (lm_wait_queue lm2) page of None \<Rightarrow> [] | Some q \<Rightarrow> q);
          notified = (if dict_get (lm_holders lm2) page = None then waiters else take 1 waiters)
      in (notified, lm2))"

definition held_pages :: "nat \<Rightarrow> lock_manager \<Rightarrow> nat list" where
  "held_pages txn lm =
     map fst (filter (\<lambda>(page, hs). txn \<in> set (dict_keys hs)) (lm_holders lm))"

definition release_all :: "nat \<Rightarrow> lock_manager \<Rightarrow> lock_manager" where
  "release_all txn lm = fold (\<lambda>page lm. snd (release txn page lm)) (held_pages txn lm) lm"

definition is_holder :: "nat \<Rightarrow> nat \<Rightarrow> lock_manager \<Rightarrow> bool" where
  "is_holder txn page lm \<longleftrightarrow> txn \<in> set (dict_keys (holders_of lm page))"

definition upgrade :: "nat \<Rightarrow> nat \<Rightarrow> lock_manager \<Rightarrow> bool \<times> lock_manager" where
  "upgrade txn page lm =
     (if \<not> is_holder txn page lm then (False, lm)
      else if dict_get (holders_of lm page) txn = Some EXCLUSIVE then (True, lm)
      else if length (holders_of lm page) = 1
      then (True, set_holders page (dict_set txn EXCLUSIVE (holders_of lm page)) lm)
      else (False, lm))"

definition get_lock_holders :: "nat \<Rightarrow> lock_manager \<Rightarrow> nat set" where
  "get_lock_holders page lm = set (dict_keys (holders_of lm page))"

section \<open>The lock invariant\<close>

text \<open>
  The holders of a page are distinct, and either all share the page or there is only one.
\<close>

definition holders_ok :: "holders \<Rightarrow> bool" where
  "holders_ok hs \<longleftrightarrow> distinct (dict_keys hs) \<and> ((\<forall>m \<in> set (map snd hs). m = SHARED) \<or> length hs = 1)"

definition lm_inv :: "lock_manager \<Rightarrow> bool" where
  "lm_inv lm \<longleftrightarrow> distinct (dict_keys (lm_holders lm)) \<and> (\<forall>page. holders_ok (holders_of lm page))"

lemma holders_of_set [simp]:
  "holders_of (set_holders page hs lm) p = (if p = page then hs else holders_of lm p)"
  by (simp add: holders_of_def set_holders_def)

lemma holders_of_other_fields [simp]:
  "holders_of (drop_edges t p lm) = holders_of lm" "holders_of (add_edges t p lm) = holders_of lm"
  "holders_of (enqueue t p m lm) = holders_of lm" "holders_of (dequeue t p lm) = holders_of lm"
  "holders_of (unlink t u lm) = holders_of lm" "holders_of (lm\<lparr>lm_detector := d\<rparr>) = holders_of lm"
  by (auto simp: holders_of_def unlink_def drop_edges_def add_edges_def enqueue_def dequeue_def fun_eq_iff
      split: option.splits)

lemma holders_keys_other_fields [simp]:
  "lm_holders (drop_edges t p lm) = lm_holders lm" "lm_holders (add_edges t p lm) = lm_holders lm"
  "lm_holders (enqueue t p m lm) = lm_holders lm" "lm_holders (dequeue t p lm) = lm_holders lm"
  "lm_holders (unlink t u lm) = lm_holders lm"
  by (auto simp: unlink_def drop_edges_def add_edges_def enqueue_def dequeue_def split: option.splits)

lemma lm_inv_other_fields [simp]:
  "lm_inv (drop_edges t p lm) = lm_inv lm" "lm_inv (add_edges t p lm) = lm_inv lm"
  "lm_inv (enqueue t p m lm) = lm_inv lm" "lm_inv (dequeue t p lm) = lm_inv lm"
  "lm_inv (unlink t u lm) = lm_inv lm" "lm_inv (lm\<lparr>lm_detector := d\<rparr>) = lm_inv lm"
  by (simp_all add: lm_inv_def)

lemma lm_inv_new [simp]: "lm_inv (new_lock_manager det)"
  by (simp add: lm_inv_def new_lock_manager_def holders_of_def holders_ok_def)

lemma holders_of_new [simp]: "holders_of (new_lock_manager det) p = []"
  by (simp add: new_lock_manager_def holders_of_def)

lemma lm_inv_set: "lm_inv lm \<Longrightarrow> holders_ok hs \<Longrightarrow> lm_inv (set_holders page hs lm)"
  by (simp add: lm_inv_def) (simp add: set_holders_def)

lemma holders_ok_single [simp]: "holders_ok [(t, m)]"
  by (simp add: holders_ok_def)

lemma dict_set_single: "length hs = 1 \<Longrightarrow> t \<in> set (dict_keys hs) \<Longrightarrow> dict_set t m hs = [(t, m)]"
  by (cases hs) auto

lemma scan_WantsUpgrade: "scan_holders t m hs = WantsUpgrade \<Longrightarrow> t \<in> set (dict_keys hs)"
  by (induction t m hs rule: scan_holders.induct) (auto split: if_splits)

lemma scan_AllCompatible:
  "scan_holders t m hs = AllCompatible \<Longrightarrow>
   t \<notin> set (dict_keys hs) \<and> (hs \<noteq> [] \<longrightarrow> m = SHARED) \<and> (\<forall>n \<in> set (map snd hs). n = SHARED)"
proof (induction t m hs rule: scan_holders.induct)
  case (2 txn mode h m rest)
  then show ?case by (cases m; cases mode) (auto split: if_splits)
qed simp

lemma try_upgrade_locked_inv:
  "lm_inv lm \<Longrightarrow> t \<in> set (dict_keys (holders_of lm p)) \<Longrightarrow> lm_inv (snd (try_upgrade_locked t p lm))"
  by (auto simp: try_upgrade_locked_def dict_set_single intro!: lm_inv_set)

lemma holders_ok_share:
  "holders_ok hs \<Longrightarrow> t \<notin> set (dict_keys hs) \<Longrightarrow> \<forall>n \<in> set (map snd hs). n = SHARED \<Longrightarrow>
   holders_ok (dict_set t SHARED hs)"
  by (auto simp: holders_ok_def dict_set_new)

lemma try_acquire_inv:
  assumes "lm_inv lm"
  shows "lm_inv (snd (try_acquire t p m lm))"
proof (cases "holders_of lm p = []")
  case False
  have ok: "holders_ok (holders_of lm p)" using assms by (simp add: lm_inv_def)
  show ?thesis
  proof (cases "scan_holders t m (holders_of lm p)")
    case AllCompatible
    with False scan_AllCompatible [OF this] ok assms show ?thesis
      by (auto simp: try_acquire_def intro!: lm_inv_set holders_ok_share)
  qed (use False assms try_upgrade_locked_inv scan_WantsUpgrade in \<open>auto simp: try_acquire_def\<close>)
qed (use assms in \<open>simp add: try_acquire_def lm_inv_set\<close>)

text \<open>A lock that \<open>_try_acquire\<close> reports as acquired is held, in the requested mode or above.\<close>

lemma scan_AlreadyHeld:
  "scan_holders t m hs = AlreadyHeld \<Longrightarrow>
   \<exists>n. dict_get hs t = Some n \<and> (m = EXCLUSIVE \<longrightarrow> n = EXCLUSIVE)"
  by (induction t m hs rule: scan_holders.induct) (auto split: if_splits intro: LockMode.exhaust)

lemma try_acquire_held:
  assumes "try_acquire t p m lm = (True, lm')"
  shows "\<exists>n. dict_get (holders_of lm' p) t = Some n \<and> (m = EXCLUSIVE \<longrightarrow> n = EXCLUSIVE)"
  using assms scan_AlreadyHeld [of t m "holders_of lm p"]
  by (auto simp: try_acquire_def try_upgrade_locked_def split: if_splits scan.splits)

lemma try_acquire_fail: "try_acquire t p m lm = (False, lm') \<Longrightarrow> lm' = lm"
  by (auto simp: try_acquire_def try_upgrade_locked_def split: if_splits scan.splits)

lemma acquire_enter_inv: "lm_inv lm \<Longrightarrow> lm_inv (snd (acquire_enter t p m lm))"
  using try_acquire_inv [of lm t p m]
  by (auto simp: acquire_enter_def Let_def split: prod.splits bool.splits option.splits)

lemma acquire_wake_inv: "lm_inv lm \<Longrightarrow> lm_inv (snd (acquire_wake t p m lm))"
  using try_acquire_inv [of lm t p m]
  by (auto simp: acquire_wake_def split: prod.splits bool.splits)

lemma holders_of_release:
  "holders_of (snd (release t p lm)) q =
     (if q = p then dict_del t (holders_of lm p) else holders_of lm q)"
  by (auto simp: release_def Let_def holders_of_def delete_idem image_iff split: option.splits)

lemma holders_ok_del: "holders_ok hs \<Longrightarrow> holders_ok (dict_del t hs)"
proof -
  assume ok: "holders_ok hs"
  have sub: "set (dict_del t hs) \<subseteq> set hs" by (auto simp: AList.delete_eq)
  have len: "length (dict_del t hs) \<le> length hs" by (rule length_delete_le)
  show ?thesis
  proof (cases "\<forall>m \<in> set (map snd hs). m = SHARED")
    case True
    with ok sub show ?thesis by (auto simp: holders_ok_def)
  next
    case False
    with ok have "length hs = 1" by (auto simp: holders_ok_def)
    with len have "dict_del t hs = [] \<or> length (dict_del t hs) = 1"
      by (cases "dict_del t hs") auto
    with ok show ?thesis by (auto simp: holders_ok_def)
  qed
qed

lemma release_inv: "lm_inv lm \<Longrightarrow> lm_inv (snd (release t p lm))"
proof -
  assume i: "lm_inv lm"
  have "distinct (dict_keys (lm_holders (snd (release t p lm))))"
    using i by (auto simp: lm_inv_def release_def Let_def split: option.splits)
  with i show ?thesis by (simp add: lm_inv_def holders_of_release holders_ok_del)
qed

lemma upgrade_inv: "lm_inv lm \<Longrightarrow> lm_inv (snd (upgrade t p lm))"
  by (auto simp: upgrade_def is_holder_def dict_set_single intro!: lm_inv_set)

lemma fold_release_holders:
  "holders_of (fold (\<lambda>page lm. snd (release t page lm)) ps lm) q =
     (if q \<in> set ps then dict_del t (holders_of lm q) else holders_of lm q)"
  by (induction ps arbitrary: lm) (auto simp: holders_of_release AList.delete_eq)

lemma fold_release_inv: "lm_inv lm \<Longrightarrow> lm_inv (fold (\<lambda>page lm. snd (release t page lm)) ps lm)"
  by (induction ps arbitrary: lm) (auto simp: release_inv)

lemma held_pages_iff:
  "distinct (dict_keys (lm_holders lm)) \<Longrightarrow>
   p \<in> set (held_pages t lm) \<longleftrightarrow> t \<in> set (dict_keys (holders_of lm p))"
  by (force simp: held_pages_def holders_of_def split: option.splits dest: map_of_SomeD)

lemma holders_of_release_all:
  assumes "lm_inv lm"
  shows "holders_of (release_all t lm) p = dict_del t (holders_of lm p)"
  using assms
  by (auto simp: release_all_def fold_release_holders held_pages_iff lm_inv_def
      delete_idem image_iff)

lemma release_all_inv: "lm_inv lm \<Longrightarrow> lm_inv (release_all t lm)"
  by (simp add: release_all_def fold_release_inv)

section \<open>Interleavings\<close>

text \<open>
  Where a thread is between two critical sections: in no call; waiting in \<open>acquire\<close>; after a successful wait, before it
  drops its edges; after a timeout, before it leaves the queue, before it lists the holders, and in the loop over them,
  which runs without the mutex; in the loop of \<open>release_all\<close>.
\<close>

datatype phase = Idle | Blocked nat nat LockMode | Granting nat nat
  | Leaving nat nat | Left nat nat | Unlinking nat "nat list" | Releasing nat "nat list"

inductive lm_step :: "(nat \<Rightarrow> phase) \<times> lock_manager \<Rightarrow> (nat \<Rightarrow> phase) \<times> lock_manager \<Rightarrow> bool" where
  enter: "ths i = Idle \<Longrightarrow> acquire_enter t p m lm = (r, lm') \<Longrightarrow> r \<noteq> Hangs \<Longrightarrow>
     lm_step (ths, lm) (ths(i := if r = Waiting then Blocked t p m else Idle), lm')"
| wake: "ths i = Blocked t p m \<Longrightarrow> acquire_wake t p m lm = (r, lm') \<Longrightarrow>
     lm_step (ths, lm) (ths(i := if r = Granted then Granting t p else Blocked t p m), lm')"
| granted: "ths i = Granting t p \<Longrightarrow> lm_step (ths, lm) (ths(i := Idle), drop_edges t p lm)"
| time_out: "ths i = Blocked t p m \<Longrightarrow> fst (acquire_wake t p m lm) = Waiting \<Longrightarrow>
     lm_step (ths, lm) (ths(i := Leaving t p), lm)"
| leave: "ths i = Leaving t p \<Longrightarrow> lm_step (ths, lm) (ths(i := Left t p), dequeue t p lm)"
| list_holders: "ths i = Left t p \<Longrightarrow> lm_step (ths, lm) (ths(i := Unlinking t (other_holders t p lm)), lm)"
| unlink_one: "ths i = Unlinking t (h # hs) \<Longrightarrow> lm_step (ths, lm) (ths(i := Unlinking t hs), unlink t h lm)"
| unlinked: "ths i = Unlinking t [] \<Longrightarrow> lm_step (ths, lm) (ths(i := Idle), lm)"
| release: "ths i = Idle \<Longrightarrow> lm_step (ths, lm) (ths, snd (release t p lm))"
| release_all: "ths i = Idle \<Longrightarrow> lm_step (ths, lm) (ths(i := Releasing t (held_pages t lm)), lm)"
| release_next: "ths i = Releasing t (p # ps) \<Longrightarrow> lm_step (ths, lm) (ths(i := Releasing t ps), snd (release t p lm))"
| released: "ths i = Releasing t [] \<Longrightarrow> lm_step (ths, lm) (ths(i := Idle), lm)"
| upgrade: "ths i = Idle \<Longrightarrow> lm_step (ths, lm) (ths, snd (upgrade t p lm))"
| clear: "ths i = Idle \<Longrightarrow> lm_step (ths, lm) (ths, lm\<lparr>lm_detector := map_option (clear_txn t) (lm_detector lm)\<rparr>)"

inductive_cases lm_stepE: "lm_step (ths, lm) (ths', lm')"

inductive lm_run :: "wait_graph option \<Rightarrow> (nat \<Rightarrow> phase) \<Rightarrow> lock_manager \<Rightarrow> bool" for det where
  start: "lm_run det (\<lambda>_. Idle) (new_lock_manager det)"
| step: "lm_run det ths lm \<Longrightarrow> lm_step (ths, lm) (ths', lm') \<Longrightarrow> lm_run det ths' lm'"

definition lm_reachable :: "wait_graph option \<Rightarrow> lock_manager \<Rightarrow> bool" where
  "lm_reachable det lm \<longleftrightarrow> (\<exists>ths. lm_run det ths lm)"

lemma lm_reachable_new: "lm_reachable det (new_lock_manager det)"
  using lm_run.start by (auto simp: lm_reachable_def)

text \<open>Some thread is in no call, so the next request can come in any reachable state.\<close>

lemma lm_run_busy: "lm_run det ths lm \<Longrightarrow> finite {i. ths i \<noteq> Idle}"
proof (induction rule: lm_run.induct)
  case (step ths lm ths' lm')
  from step.hyps(2) have "\<exists>i. \<forall>j. j \<noteq> i \<longrightarrow> ths' j = ths j" by (rule lm_stepE) auto
  then obtain i where "\<forall>j. j \<noteq> i \<longrightarrow> ths' j = ths j" by blast
  then have "{i. ths' i \<noteq> Idle} \<subseteq> insert i {i. ths i \<noteq> Idle}" by auto
  with step.IH show ?case by (meson finite_insert finite_subset)
qed simp

lemma lm_reachable_enter:
  assumes "lm_reachable det lm" and "fst (acquire_enter t p m lm) \<noteq> Hangs"
  shows "lm_reachable det (snd (acquire_enter t p m lm))"
proof -
  obtain ths where r: "lm_run det ths lm" using assms(1) by (auto simp: lm_reachable_def)
  from ex_new_if_finite [OF infinite_UNIV_nat lm_run_busy [OF r]] obtain i where "ths i = Idle" by auto
  from lm_run.step [OF r lm_step.enter [of ths i, OF this prod.collapse [symmetric] assms(2)]] show ?thesis
    by (auto simp: lm_reachable_def)
qed

lemma lm_step_inv: "lm_step (ths, lm) (ths', lm') \<Longrightarrow> lm_inv lm \<Longrightarrow> lm_inv lm'"
  by (erule lm_stepE) (auto intro: release_inv upgrade_inv,
    metis acquire_enter_inv snd_conv, metis acquire_wake_inv snd_conv)

lemma lm_reachable_inv: "lm_reachable det lm \<Longrightarrow> lm_inv lm"
proof -
  have "lm_run det ths lm \<Longrightarrow> lm_inv lm" for ths
    by (induction rule: lm_run.induct) (auto intro: lm_step_inv)
  then show "lm_reachable det lm \<Longrightarrow> ?thesis" by (auto simp: lm_reachable_def)
qed

lemma holders_ok_exclusive:
  "holders_ok hs \<Longrightarrow> dict_get hs t = Some EXCLUSIVE \<Longrightarrow> dict_get hs u = Some m \<Longrightarrow> u = t"
proof (cases "\<forall>m \<in> set (map snd hs). m = SHARED")
  case True
  assume "dict_get hs t = Some EXCLUSIVE"
  then have "EXCLUSIVE \<in> set (map snd hs)" by (force dest: map_of_SomeD)
  with True show ?thesis by auto
next
  case False
  assume "holders_ok hs" and h: "dict_get hs t = Some EXCLUSIVE" "dict_get hs u = Some m"
  with False have "length hs = 1" by (auto simp: holders_ok_def)
  with h show ?thesis by (cases hs) (auto split: if_splits)
qed

section \<open>The wait-for graph of a reachable state\<close>

lemma wait_edge_fold_add:
  "wait_edge (fold (add_wait_edge t) hs g) u v \<longleftrightarrow> wait_edge g u v \<or> (u = t \<and> v \<in> set hs)"
  by (induction hs arbitrary: g) (auto simp: wait_edge_add)

lemma wait_edge_fold_remove:
  "wait_edge (fold (remove_wait_edge t) hs g) u v \<longleftrightarrow> wait_edge g u v \<and> \<not> (u = t \<and> v \<in> set hs)"
  by (induction hs arbitrary: g) (auto simp: wait_edge_remove)

lemma set_other_holders: "set (other_holders t p lm) = set (dict_keys (holders_of lm p)) - {t}"
  by (auto simp: other_holders_def)

definition detector_ok :: "lock_manager \<Rightarrow> bool" where
  "detector_ok lm \<longleftrightarrow> (\<forall>g. lm_detector lm = Some g \<longrightarrow> no_self_wait g \<and> distinct (dict_keys g))"

lemma distinct_add_edge: "distinct (dict_keys g) \<Longrightarrow> distinct (dict_keys (add_wait_edge t u g))"
  by (simp add: add_wait_edge_def Let_def)

lemma distinct_remove_edge: "distinct (dict_keys g) \<Longrightarrow> distinct (dict_keys (remove_wait_edge t u g))"
  by (auto simp: remove_wait_edge_def Let_def split: option.split)

lemma distinct_map_filter_keys:
  "distinct (dict_keys xs) \<Longrightarrow>
   distinct (dict_keys (List.map_filter (\<lambda>(w, hs). if P hs then None else Some (w, f hs)) xs)) \<and>
   set (dict_keys (List.map_filter (\<lambda>(w, hs). if P hs then None else Some (w, f hs)) xs)) \<subseteq> set (dict_keys xs)"
proof (induction xs)
  case (Cons x xs)
  obtain w hs where "x = (w, hs)" by (cases x)
  with Cons show ?case by (auto simp: List.map_filter_simps)
qed (simp add: List.map_filter_simps)

lemma distinct_clear_txn: "distinct (dict_keys g) \<Longrightarrow> distinct (dict_keys (clear_txn t g))"
  using distinct_map_filter_keys [of "dict_del t g" "\<lambda>hs. removeAll t hs = []" "removeAll t"]
  by (simp add: clear_txn_def Let_def)

lemma distinct_fold_edges:
  "distinct (dict_keys g) \<Longrightarrow> distinct (dict_keys (fold (add_wait_edge t) hs g))"
  "distinct (dict_keys g) \<Longrightarrow> distinct (dict_keys (fold (remove_wait_edge t) hs g))"
  by (induction hs arbitrary: g) (simp_all add: distinct_add_edge distinct_remove_edge)

lemma detector_ok_edges [simp]:
  "detector_ok lm \<Longrightarrow> detector_ok (add_edges t p lm)"
  "detector_ok lm \<Longrightarrow> detector_ok (drop_edges t p lm)"
  "detector_ok lm \<Longrightarrow> detector_ok (unlink t u lm)"
  "detector_ok lm \<Longrightarrow> detector_ok (lm\<lparr>lm_detector := map_option (clear_txn t) (lm_detector lm)\<rparr>)"
  by (auto simp: detector_ok_def add_edges_def drop_edges_def unlink_def no_self_wait_def wait_edge_fold_add
      wait_edge_fold_remove set_other_holders wait_edge_remove wait_edge_clear distinct_fold_edges distinct_remove_edge
      distinct_clear_txn)

lemma detector_ok_frame [simp]:
  "detector_ok (enqueue t p m lm) = detector_ok lm" "detector_ok (dequeue t p lm) = detector_ok lm"
  "detector_ok (set_holders p hs lm) = detector_ok lm"
  "detector_ok (snd (try_acquire t p m lm)) = detector_ok lm"
  "detector_ok (snd (release t p lm)) = detector_ok lm"
  "detector_ok (snd (upgrade t p lm)) = detector_ok lm"
  by (auto simp: detector_ok_def enqueue_def dequeue_def set_holders_def try_acquire_def
      try_upgrade_locked_def release_def upgrade_def Let_def split: option.splits scan.splits)

lemma detector_ok_try: "try_acquire t p m lm = (b, lm') \<Longrightarrow> detector_ok lm \<Longrightarrow> detector_ok lm'"
  using detector_ok_frame(4) [of t p m lm] by simp

lemma detector_ok_enter: "detector_ok lm \<Longrightarrow> detector_ok (snd (acquire_enter t p m lm))"
  using detector_ok_try [of t p m lm]
  by (auto simp: acquire_enter_def Let_def split: prod.splits bool.splits option.splits)

lemma detector_ok_wake: "detector_ok lm \<Longrightarrow> detector_ok (snd (acquire_wake t p m lm))"
  using detector_ok_try [of t p m lm]
  by (auto simp: acquire_wake_def split: prod.splits bool.splits)

lemma lm_step_detector: "lm_step (ths, lm) (ths', lm') \<Longrightarrow> detector_ok lm \<Longrightarrow> detector_ok lm'"
  by (erule lm_stepE) (auto, metis detector_ok_enter snd_conv, metis detector_ok_wake snd_conv)

lemma lm_reachable_detector: "lm_reachable (Some []) lm \<Longrightarrow> detector_ok lm"
proof -
  have "lm_run (Some []) ths lm \<Longrightarrow> detector_ok lm" for ths
  proof (induction rule: lm_run.induct)
    case start
    show ?case by (simp add: detector_ok_def new_lock_manager_def no_self_wait_def wait_edge_def succs_def)
  qed (rule lm_step_detector)
  then show "lm_reachable (Some []) lm \<Longrightarrow> ?thesis" by (auto simp: lm_reachable_def)
qed

lemma extended_graph_ok:
  assumes "lm_reachable (Some []) lm" and "lm_detector lm = Some g"
  shows "no_self_wait (fold (add_wait_edge t) (other_holders t p lm) g)"
  using detector_ok_edges(1) [OF lm_reachable_detector [OF assms(1)], of t p] assms(2)
  by (simp add: detector_ok_def add_edges_def)

lemma acquire_enter_ends: "lm_reachable (Some []) lm \<Longrightarrow> fst (acquire_enter t p m lm) \<noteq> Hangs"
proof (cases "lm_detector lm")
  case (Some g)
  assume r: "lm_reachable (Some []) lm"
  obtain b lm' where tr: "try_acquire t p m lm = (b, lm')" by fastforce
  show ?thesis
  proof (cases b)
    case False
    then have e: "lm' = lm" using tr try_acquire_fail [of t p m lm lm'] by simp
    obtain x where "detect_cycle (fold (add_wait_edge t) (other_holders t p lm) g) = Some x"
      using detect_cycle_correct [OF extended_graph_ok [OF r Some]] by blast
    then show ?thesis using tr False Some e
      by (cases x) (simp_all add: acquire_enter_def, simp_all add: add_edges_def)
  qed (use tr in \<open>simp add: acquire_enter_def\<close>)
qed (auto simp: acquire_enter_def add_edges_def try_acquire_def try_upgrade_locked_def set_holders_def
    split: prod.split bool.split scan.split if_splits)

lemma lm_reachable_enter_any: "lm_reachable (Some []) lm \<Longrightarrow> lm_reachable (Some []) (snd (acquire_enter t p m lm))"
  by (rule lm_reachable_enter [OF _ acquire_enter_ends])

section \<open>Claims\<close>

text \<open>
  C13. Mutual exclusion: in every state the lock manager can reach, by any interleaving of the critical sections of
  requests, wake-ups, timeouts, releases, upgrades and \<open>clear_txn\<close>, a transaction that holds a page exclusively is its
  only holder.
\<close>

theorem exclusive_lock_is_exclusive:
  assumes "lm_reachable det lm"
    and "dict_get (holders_of lm page) t = Some EXCLUSIVE" and "dict_get (holders_of lm page) u = Some m"
  shows "u = t"
proof -
  have "holders_ok (holders_of lm page)" using lm_reachable_inv [OF assms(1)] by (simp add: lm_inv_def)
  then show ?thesis using assms(2,3) by (rule holders_ok_exclusive)
qed

theorem exclusive_lock_is_exclusive_witness:
  "let lm = snd (acquire_enter 2 7 SHARED (snd (acquire_enter 1 7 EXCLUSIVE (new_lock_manager None))))
   in dict_get (holders_of lm 7) 1 = Some EXCLUSIVE \<and> dict_get (holders_of lm 7) 2 = None"
proof -
  let ?lm = "snd (acquire_enter 2 7 SHARED (snd (acquire_enter 1 7 EXCLUSIVE (new_lock_manager None))))"
  have "lm_reachable None (snd (acquire_enter 1 7 EXCLUSIVE (new_lock_manager None)))"
    by (intro lm_reachable_enter lm_reachable_new)
      (simp add: acquire_enter_def try_acquire_def holders_of_def new_lock_manager_def)
  then have r: "lm_reachable None ?lm"
    by (rule lm_reachable_enter)
      (simp add: acquire_enter_def try_acquire_def holders_of_def set_holders_def new_lock_manager_def add_edges_def)
  have e: "dict_get (holders_of ?lm 7) 1 = Some EXCLUSIVE"
    by (simp add: acquire_enter_def try_acquire_def holders_of_def set_holders_def new_lock_manager_def
        add_edges_def)
  have "dict_get (holders_of ?lm 7) 2 \<noteq> Some m" for m
    using exclusive_lock_is_exclusive [OF r e, of 2 m] by auto
  then have "dict_get (holders_of ?lm 7) 2 = None" by auto
  with e show ?thesis by (simp add: Let_def)
qed

text \<open>
  C21. Deadlock detection ends and is exact: in every reachable state (with the detector that the transaction
  manager installs), the search started by a request that cannot be granted returns; the request raises
  \<open>DeadlockError\<close> if and only if the wait-for graph, extended by the edges of this request, has a cycle; the cycle
  it names is one; else the transaction waits.
\<close>

theorem deadlock_detection_exact:
  assumes "lm_reachable (Some []) lm" and "lm_detector lm = Some g"
    and "fst (try_acquire t page mode lm) = False"
  shows "let g' = fold (add_wait_edge t) (other_holders t page lm) g;
             r = fst (acquire_enter t page mode lm)
         in (\<exists>found. detect_cycle g' = Some found) \<and> r \<noteq> Hangs \<and>
            ((\<exists>c. r = Deadlocked c) \<longleftrightarrow> (\<exists>u. (wait_edge g')\<^sup>+\<^sup>+ u u)) \<and>
            (\<forall>c. r = Deadlocked c \<longrightarrow> is_cycle g' c) \<and> (r = Waiting \<or> (\<exists>c. r = Deadlocked c))"
proof -
  let ?g = "fold (add_wait_edge t) (other_holders t page lm) g"
  have tr: "try_acquire t page mode lm = (False, lm)"
    using assms(3) try_acquire_fail by (metis prod.collapse)
  have det: "lm_detector (add_edges t page lm) = Some ?g" using assms(2) by (simp add: add_edges_def)
  from detect_cycle_correct [OF extended_graph_ok [OF assms(1,2)]] obtain r where r: "detect_cycle ?g = Some r"
    and c: "case r of Some c \<Rightarrow> is_cycle ?g c | None \<Rightarrow> \<forall>u. \<not> (wait_edge ?g)\<^sup>+\<^sup>+ u u"
    by blast
  show ?thesis
  proof (cases r)
    case None
    with c r tr det show ?thesis by (simp add: acquire_enter_def)
  next
    case (Some cyc)
    with c have cyc: "is_cycle ?g cyc" by simp
    then have "(wait_edge ?g)\<^sup>+\<^sup>+ (hd cyc) (hd cyc)"
      by (intro is_cycle_tranclp) (auto simp: is_cycle_def)
    with Some r tr det cyc show ?thesis by (auto simp: acquire_enter_def)
  qed
qed

text \<open>A two-transaction deadlock, step by step, for the witness.\<close>

definition lm_crossed :: lock_manager where
  "lm_crossed = snd (acquire_enter 1 20 EXCLUSIVE (snd (acquire_enter 2 20 EXCLUSIVE
     (snd (acquire_enter 1 10 EXCLUSIVE (new_lock_manager (Some [])))))))"

lemma lm_crossed_eq: "lm_crossed =
  \<lparr>lm_holders = [(10, [(1, EXCLUSIVE)]), (20, [(2, EXCLUSIVE)])],
   lm_wait_queue = [(20, [(1, EXCLUSIVE)])], lm_detector = Some [(1, [2])]\<rparr>"
  by (simp add: lm_crossed_def acquire_enter_def try_acquire_def holders_of_def set_holders_def
      new_lock_manager_def add_edges_def other_holders_def add_wait_edge_def succs_def enqueue_def
      detect_cycle_def graph_nodes_def Let_def)

lemma lm_crossed_reachable: "lm_reachable (Some []) lm_crossed"
  unfolding lm_crossed_def by (intro lm_reachable_enter_any lm_reachable_new)

theorem deadlock_detection_exact_witness:
  "\<exists>c. fst (acquire_enter 2 10 EXCLUSIVE lm_crossed) = Deadlocked c"
proof -
  let ?g = "fold (add_wait_edge 2) (other_holders 2 10 lm_crossed) [(1, [2])]"
  have "wait_edge ?g 1 2" "wait_edge ?g 2 1"
    by (simp_all add: wait_edge_def add_wait_edge_def succs_def other_holders_def holders_of_def lm_crossed_eq)
  then have "(wait_edge ?g)\<^sup>+\<^sup>+ 1 1" by (meson tranclp.intros)
  moreover have "lm_detector lm_crossed = Some [(1, [2])]" by (simp add: lm_crossed_eq)
  moreover have "fst (try_acquire 2 10 EXCLUSIVE lm_crossed) = False"
    by (simp add: try_acquire_def holders_of_def lm_crossed_eq)
  ultimately show ?thesis
    using deadlock_detection_exact [OF lm_crossed_reachable, of "[(1, [2])]" 2 10 EXCLUSIVE]
    by (auto simp: Let_def)
qed

text \<open>
  \<open>release_all\<close>, which ends a transaction, takes the transaction off every page it held and
  leaves the locks of all other transactions as they were.
\<close>

theorem release_all_releases:
  assumes "lm_reachable det lm"
  shows "t \<notin> get_lock_holders page (release_all t lm) \<and>
    (\<forall>u. u \<noteq> t \<longrightarrow> dict_get (holders_of (release_all t lm) page) u = dict_get (holders_of lm page) u)"
  using holders_of_release_all [OF lm_reachable_inv [OF assms]]
  by (simp add: get_lock_holders_def delete_notin_dom)

theorem release_all_releases_witness:
  "1 \<notin> get_lock_holders 10 (release_all 1 lm_crossed) \<and>
   dict_get (holders_of (release_all 1 lm_crossed) 20) 2 = Some EXCLUSIVE"
  using release_all_releases [OF lm_crossed_reachable, of 1 10]
    release_all_releases [OF lm_crossed_reachable, of 1 20]
  by (simp add: holders_of_def lm_crossed_eq)

text \<open>
  Wait-for edges go stale: when a blocked request is granted, only edges to the present
  holders of the page are dropped, so the edge to the holder that has just released the page
  stays in the graph although nobody waits any more.
\<close>

theorem granted_request_keeps_stale_edge:
  assumes "acquire_wake t page mode lm = (Granted, lm')" and "lm_detector lm = Some g"
    and "wait_edge g t h" and "h \<notin> get_lock_holders page lm'"
  shows "\<exists>g'. lm_detector (drop_edges t page lm') = Some g' \<and> wait_edge g' t h"
proof -
  from assms(1) have "try_acquire t page mode lm = (True, lm')"
    by (auto simp: acquire_wake_def split: prod.splits bool.splits)
  then have det: "lm_detector lm' = Some g" using assms(2)
    by (auto simp: try_acquire_def try_upgrade_locked_def set_holders_def split: if_splits scan.splits)
  have "h \<notin> set (other_holders t page lm')"
    using assms(4) by (simp add: get_lock_holders_def set_other_holders)
  with det assms(3) show ?thesis by (simp add: drop_edges_def wait_edge_fold_remove)
qed

text \<open>
  The consequence: transaction 2 waits for page 5 of transaction 1, gets it after the release and
  waits for nothing; a later request of transaction 1 for the page is refused as a deadlock.
\<close>

theorem granted_request_keeps_stale_edge_witness:
  "let lm1 = snd (acquire_enter 2 5 EXCLUSIVE (snd (acquire_enter 1 5 EXCLUSIVE (new_lock_manager (Some [])))));
       (r, lm2) = acquire_wake 2 5 EXCLUSIVE (snd (release 1 5 lm1));
       lm3 = drop_edges 2 5 lm2
   in r = Granted \<and> (\<exists>g'. lm_detector lm3 = Some g' \<and> wait_edge g' 2 1) \<and>
      fst (acquire_enter 1 5 EXCLUSIVE lm3) = Deadlocked [1, 2]"
proof -
  define lm1 where "lm1 = snd (acquire_enter 2 5 EXCLUSIVE
    (snd (acquire_enter 1 5 EXCLUSIVE (new_lock_manager (Some [])))))"
  define lm2 where "lm2 = snd (acquire_wake 2 5 EXCLUSIVE (snd (release 1 5 lm1)))"
  have "lm1 = \<lparr>lm_holders = [(5, [(1, EXCLUSIVE)])], lm_wait_queue = [(5, [(2, EXCLUSIVE)])],
      lm_detector = Some [(2, [1])]\<rparr>"
    by (simp add: lm1_def acquire_enter_def try_acquire_def holders_of_def set_holders_def
        new_lock_manager_def add_edges_def other_holders_def add_wait_edge_def succs_def enqueue_def
        detect_cycle_def graph_nodes_def Let_def)
  then have r: "snd (release 1 5 lm1) = \<lparr>lm_holders = [], lm_wait_queue = [(5, [(2, EXCLUSIVE)])],
      lm_detector = Some [(2, [1])]\<rparr>"
    by (simp add: release_def dequeue_def Let_def)
  have e2: "acquire_wake 2 5 EXCLUSIVE (snd (release 1 5 lm1)) = (Granted, lm2)"
    "lm2 = \<lparr>lm_holders = [(5, [(2, EXCLUSIVE)])], lm_wait_queue = [(5, [(2, EXCLUSIVE)])],
      lm_detector = Some [(2, [1])]\<rparr>"
    unfolding lm2_def r by (simp_all add: acquire_wake_def try_acquire_def holders_of_def set_holders_def)
  have e3: "drop_edges 2 5 lm2 = lm2" by (simp add: e2(2) drop_edges_def other_holders_def holders_of_def)
  have "wait_edge [(2, [1])] 2 1" by (simp add: wait_edge_def succs_def)
  moreover have "1 \<notin> get_lock_holders 5 lm2"
    by (simp add: e2(2) get_lock_holders_def holders_of_def)
  ultimately have "\<exists>g'. lm_detector (drop_edges 2 5 lm2) = Some g' \<and> wait_edge g' 2 1"
    using granted_request_keeps_stale_edge [OF e2(1) [unfolded r], of "[(2, [1])]" 1] by simp
  moreover have "fst (acquire_enter 1 5 EXCLUSIVE (drop_edges 2 5 lm2)) = Deadlocked [1, 2]"
    unfolding e3
    by (simp add: e2(2) acquire_enter_def try_acquire_def holders_of_def
        add_edges_def other_holders_def add_wait_edge_def succs_def
        detect_cycle_def graph_nodes_def Let_def)
  ultimately show ?thesis
    unfolding Let_def lm1_def [symmetric] e2(1) prod.case by blast
qed

end
