(* ===== verification/Mvcc.thy ===== *)
theory Mvcc
  imports Struct_Pack
begin

text \<open>
  \<open>tinydb/concurrency/mvcc_manager.py\<close>: a chain of versions per page, newest first, and the
  snapshot reads over it. The linked list is a list of versions; the loop of \<open>gc\<close>, which unlinks
  versions in place behind a \<open>prev\<close> pointer, keeps the versions before \<open>current\<close> as its argument
  \<open>kept\<close> (\<open>prev\<close> is \<open>None\<close> exactly when \<open>kept\<close> is empty). The objects with their links are in
  \<open>Mvcc_Heap\<close>, and refined there to these lists. Timestamps are never read and are left out.
\<close>

section \<open>State\<close>

record PageVersion =
  pv_data :: bytes
  pv_created_txn :: nat
  pv_deleted_txn :: "nat option"

record Snapshot =
  active_txns :: "nat set"

type_synonym mvcc = "(nat, PageVersion list) dict"

section \<open>Operations\<close>

definition chain_of :: "mvcc \<Rightarrow> nat \<Rightarrow> PageVersion list" where
  "chain_of m page = (case dict_get m page of None \<Rightarrow> [] | Some c \<Rightarrow> c)"

definition create_version :: "nat \<Rightarrow> bytes \<Rightarrow> nat \<Rightarrow> mvcc \<Rightarrow> mvcc" where
  "create_version page data txn m =
     dict_set page (\<lparr>pv_data = data, pv_created_txn = txn, pv_deleted_txn = None\<rparr> # chain_of m page) m"

definition is_visible :: "PageVersion \<Rightarrow> Snapshot \<Rightarrow> bool" where
  "is_visible v s =
     (if pv_created_txn v \<notin> active_txns s then False
      else case pv_deleted_txn v of
        None \<Rightarrow> True
      | Some d \<Rightarrow> if d \<in> active_txns s then False else True)"

fun first_visible :: "PageVersion list \<Rightarrow> Snapshot \<Rightarrow> bytes option" where
  "first_visible [] s = None"
| "first_visible (v # vs) s = (if is_visible v s then Some (pv_data v) else first_visible vs s)"

definition get_visible_version :: "nat \<Rightarrow> Snapshot \<Rightarrow> mvcc \<Rightarrow> bytes option" where
  "get_visible_version page s m =
     (case dict_get m page of None \<Rightarrow> None | Some c \<Rightarrow> first_visible c s)"

fun mark_first :: "nat \<Rightarrow> nat \<Rightarrow> PageVersion list \<Rightarrow> PageVersion list option" where
  "mark_first vt t [] = None"
| "mark_first vt t (v # vs) =
     (if pv_created_txn v = vt then Some (v\<lparr>pv_deleted_txn := Some t\<rparr> # vs)
      else map_option (\<lambda>vs'. v # vs') (mark_first vt t vs))"

definition mark_deleted :: "nat \<Rightarrow> nat \<Rightarrow> nat \<Rightarrow> mvcc \<Rightarrow> bool \<times> mvcc" where
  "mark_deleted page version_txn txn m =
     (case dict_get m page of
        None \<Rightarrow> (False, m)
      | Some c \<Rightarrow> (case mark_first version_txn txn c of
            None \<Rightarrow> (False, m)
          | Some c' \<Rightarrow> (True, dict_set page c' m)))"

definition no_active_txn_can_see :: "PageVersion \<Rightarrow> nat set \<Rightarrow> bool" where
  "no_active_txn_can_see v active = (if active = {} then True else pv_created_txn v < Min active)"

definition can_gc :: "nat set \<Rightarrow> PageVersion \<Rightarrow> bool" where
  "can_gc active v \<longleftrightarrow> pv_created_txn v \<notin> active \<and> no_active_txn_can_see v active"

fun gc_chain :: "nat set \<Rightarrow> nat \<Rightarrow> PageVersion list \<Rightarrow> PageVersion list \<Rightarrow> mvcc \<times> nat \<Rightarrow> mvcc \<times> nat" where
  "gc_chain active page kept [] (m, freed) = (m, freed)"
| "gc_chain active page kept (v # rest) (m, freed) =
     (if can_gc active v then
        let m' = (if kept = []
                  then (if rest = [] then dict_del page m else dict_set page rest m)
                  else dict_set page (kept @ rest) m)
        in gc_chain active page kept rest (m', freed + 1)
      else gc_chain active page (kept @ [v]) rest (m, freed))"

definition gc :: "nat set \<Rightarrow> mvcc \<Rightarrow> mvcc \<times> nat" where
  "gc active m = fold (\<lambda>page (m, freed). gc_chain active page [] (chain_of m page) (m, freed))
     (dict_keys m) (m, 0)"

section \<open>The loop of gc is a filter\<close>

definition mvcc_inv :: "mvcc \<Rightarrow> bool" where
  "mvcc_inv m \<longleftrightarrow> distinct (dict_keys m) \<and> (\<forall>page c. dict_get m page = Some c \<longrightarrow> c \<noteq> [])"

lemma chain_of_set [simp]: "chain_of (dict_set page c m) q = (if q = page then c else chain_of m q)"
  by (simp add: chain_of_def)

lemma chain_of_del [simp]: "chain_of (dict_del page m) q = (if q = page then [] else chain_of m q)"
  by (simp add: chain_of_def)

lemma get_visible_chain: "get_visible_version page s m = first_visible (chain_of m page) s"
  by (auto simp: get_visible_version_def chain_of_def split: option.splits)

lemma gc_chain_spec:
  assumes "chain_of m page = kept @ rest"
  shows "chain_of (fst (gc_chain active page kept rest (m, freed))) q =
           (if q = page then kept @ filter (\<lambda>v. \<not> can_gc active v) rest else chain_of m q)
       \<and> snd (gc_chain active page kept rest (m, freed)) = freed + length (filter (can_gc active) rest)"
  using assms
proof (induction active page kept rest "(m, freed)" arbitrary: m freed rule: gc_chain.induct)
  case (2 active page kept v rest m freed)
  show ?case
  proof (cases "can_gc active v")
    case True
    let ?m = "if kept = [] then (if rest = [] then dict_del page m else dict_set page rest m)
              else dict_set page (kept @ rest) m"
    have c: "chain_of ?m page = kept @ rest" "q \<noteq> page \<Longrightarrow> chain_of ?m q = chain_of m q" by auto
    with 2(1) [OF True refl c(1)] True show ?thesis by (simp add: Let_def)
  next
    case False
    with 2(2) 2(3) show ?thesis by simp
  qed
qed auto

lemma gc_chain_inv:
  assumes "mvcc_inv m" and "kept @ rest = [] \<or> chain_of m page = kept @ rest"
  shows "mvcc_inv (fst (gc_chain active page kept rest (m, freed)))"
  using assms
proof (induction active page kept rest "(m, freed)" arbitrary: m freed rule: gc_chain.induct)
  case (2 active page kept v rest m freed)
  show ?case
  proof (cases "can_gc active v")
    case True
    let ?m = "if kept = [] then (if rest = [] then dict_del page m else dict_set page rest m)
              else dict_set page (kept @ rest) m"
    have "mvcc_inv ?m" using 2(3) by (auto simp: mvcc_inv_def)
    moreover have "kept @ rest = [] \<or> chain_of ?m page = kept @ rest" by auto
    ultimately have "mvcc_inv (fst (gc_chain active page kept rest (?m, freed + 1)))"
      by (intro 2(1) [OF True refl])
    with True show ?thesis by (simp add: Let_def)
  next
    case False
    with 2 show ?thesis by auto
  qed
qed simp

lemma fold_gc_spec:
  assumes "distinct ps"
  shows "chain_of (fst (fold (\<lambda>page (m, freed). gc_chain active page [] (chain_of m page) (m, freed)) ps (m, n))) q =
     (if q \<in> set ps then filter (\<lambda>v. \<not> can_gc active v) (chain_of m q) else chain_of m q) \<and>
   snd (fold (\<lambda>page (m, freed). gc_chain active page [] (chain_of m page) (m, freed)) ps (m, n)) =
     n + (\<Sum>p\<leftarrow>ps. length (filter (can_gc active) (chain_of m p)))"
  using assms
proof (induction ps arbitrary: m n)
  case (Cons p ps)
  obtain m1 n1 where g: "gc_chain active p [] (chain_of m p) (m, n) = (m1, n1)"
    by (cases "gc_chain active p [] (chain_of m p) (m, n)")
  have c: "chain_of m1 r = (if r = p then filter (\<lambda>v. \<not> can_gc active v) (chain_of m p) else chain_of m r)"
    and n1: "n1 = n + length (filter (can_gc active) (chain_of m p))" for r
    using gc_chain_spec [of m p "[]" "chain_of m p" active n r] g by simp_all
  have s: "(\<Sum>r\<leftarrow>ps. length (filter (can_gc active) (chain_of m1 r)))
      = (\<Sum>r\<leftarrow>ps. length (filter (can_gc active) (chain_of m r)))"
    using Cons.prems by (intro arg_cong [where f = sum_list] map_cong) (auto simp: c)
  have d: "distinct ps" "p \<notin> set ps" using Cons.prems by auto
  show ?case
    using Cons.IH [OF d(1), of m1 n1, unfolded s] d(2) by (simp add: g n1 c [of q] c [of p])
qed simp

lemma fold_gc_inv:
  "mvcc_inv m \<Longrightarrow>
   mvcc_inv (fst (fold (\<lambda>page (m, freed). gc_chain active page [] (chain_of m page) (m, freed)) ps (m, n)))"
proof (induction ps arbitrary: m n)
  case (Cons p ps)
  obtain m1 n1 where g: "gc_chain active p [] (chain_of m p) (m, n) = (m1, n1)"
    by (cases "gc_chain active p [] (chain_of m p) (m, n)")
  have "mvcc_inv m1" using gc_chain_inv [OF Cons.prems, of "[]" "chain_of m p" p active n] g by simp
  with Cons.IH g show ?case by simp
qed simp

lemma chain_not_key: "q \<notin> set (dict_keys m) \<Longrightarrow> chain_of m q = []"
  unfolding dict_get_None_iff [symmetric] by (simp add: chain_of_def)

lemma gc_spec:
  assumes "mvcc_inv m"
  shows "chain_of (fst (gc active m)) q = filter (\<lambda>v. \<not> can_gc active v) (chain_of m q)"
    and "snd (gc active m) = (\<Sum>p\<leftarrow>dict_keys m. length (filter (can_gc active) (chain_of m p)))"
    and "mvcc_inv (fst (gc active m))"
proof -
  have d: "distinct (dict_keys m)" using assms by (simp add: mvcc_inv_def)
  show "chain_of (fst (gc active m)) q = filter (\<lambda>v. \<not> can_gc active v) (chain_of m q)"
    using fold_gc_spec [OF d, of active m 0 q] chain_not_key [of q m] by (auto simp: gc_def)
  show "snd (gc active m) = (\<Sum>p\<leftarrow>dict_keys m. length (filter (can_gc active) (chain_of m p)))"
    using fold_gc_spec [OF d, of active m 0] by (simp add: gc_def)
  show "mvcc_inv (fst (gc active m))" unfolding gc_def by (rule fold_gc_inv [OF assms])
qed

lemma create_version_inv: "mvcc_inv m \<Longrightarrow> mvcc_inv (create_version page data txn m)"
  by (simp add: mvcc_inv_def create_version_def)

lemma mark_first_nonempty: "mark_first vt t c = Some c' \<Longrightarrow> c' \<noteq> []"
  by (cases c) (auto split: if_splits)

lemma mark_deleted_inv: "mvcc_inv m \<Longrightarrow> mvcc_inv (snd (mark_deleted page vt t m))"
  by (auto simp: mark_deleted_def mvcc_inv_def mark_first_nonempty split: option.splits)

lemma first_visible_filter:
  "(\<And>v. v \<in> set c \<Longrightarrow> is_visible v s \<Longrightarrow> P v) \<Longrightarrow> first_visible (filter P c) s = first_visible c s"
  by (induction c) auto

section \<open>Claims\<close>

text \<open>
  Garbage collection, done in place on the linked chains, is the filter it is meant to be:
  each chain keeps exactly the versions that may not be collected, in their order, chains that
  become empty disappear, and the count returned is the number of versions removed.
\<close>

theorem gc_is_filter:
  assumes "mvcc_inv m"
  shows "(\<forall>page. chain_of (fst (gc active m)) page = filter (\<lambda>v. \<not> can_gc active v) (chain_of m page)) \<and>
    (\<forall>page c. dict_get (fst (gc active m)) page = Some c \<longrightarrow> c \<noteq> []) \<and>
    snd (gc active m) = (\<Sum>page\<leftarrow>dict_keys m. length (filter (can_gc active) (chain_of m page)))"
  using gc_spec [OF assms] by (auto simp: mvcc_inv_def)

theorem gc_is_filter_witness:
  "snd (gc {5} (create_version 9 [1] 5 (create_version 9 [2] 3 (create_version 9 [3] 2 [])))) = 2"
proof -
  have "mvcc_inv (create_version 9 [1] 5 (create_version 9 [2] 3 (create_version 9 [3] 2 [])))"
    by (intro create_version_inv) (simp add: mvcc_inv_def)
  from gc_is_filter [OF this, of "{5}"] show ?thesis
    by (simp add: create_version_def chain_of_def can_gc_def no_active_txn_can_see_def)
qed

text \<open>
  Garbage collection changes the reads of a running transaction: for every transaction \<open>t\<close>
  that began while an older transaction \<open>c\<close> was running, the version that \<open>c\<close> wrote is visible to
  \<open>t\<close>, and the collection that follows the end of \<open>c\<close> removes it although \<open>t\<close> is still active, so
  the same snapshot read no longer finds it.
\<close>

theorem gc_loses_visible_version:
  assumes "c < t"
  shows "let s = \<lparr>active_txns = {c, t}\<rparr>; m = create_version page data c [] in
    get_visible_version page s m = Some data \<and>
    get_visible_version page s (fst (gc {t} m)) = None"
proof -
  let ?m = "create_version page data c []"
  have "mvcc_inv ?m" by (intro create_version_inv) (simp add: mvcc_inv_def)
  with assms have "chain_of (fst (gc {t} ?m)) page = []"
    by (simp add: gc_spec(1)) (simp add: can_gc_def no_active_txn_can_see_def create_version_def chain_of_def)
  then show ?thesis
    by (simp add: Let_def get_visible_chain) (simp add: create_version_def is_visible_def chain_of_def)
qed

theorem gc_loses_visible_version_witness:
  "let s = \<lparr>active_txns = {1, 2}\<rparr>; m = create_version 4 [7] 1 [] in
    get_visible_version 4 s m = Some [7] \<and> get_visible_version 4 s (fst (gc {2} m)) = None"
  by (rule gc_loses_visible_version) simp

text \<open>
  A snapshot read returns the newest version whose creator is in the snapshot and whose
  deleter is not: a transaction reads back what it wrote last, versions of transactions outside
  the snapshot (in particular of all those that committed before) are passed over, and marking a
  version deleted hides it from the snapshots that contain the deleter.
\<close>

theorem snapshot_read:
  "get_visible_version q s (create_version page data t m) =
     (if q = page \<and> t \<in> active_txns s then Some data else get_visible_version q s m) \<and>
   get_visible_version q s (snd (mark_deleted page t d (create_version page data t m))) =
     (if q = page \<and> t \<in> active_txns s \<and> d \<notin> active_txns s then Some data
      else get_visible_version q s m)"
proof -
  have "get_visible_version q s (create_version page data t m) =
     (if q = page \<and> t \<in> active_txns s then Some data else get_visible_version q s m)"
    by (simp add: get_visible_chain create_version_def is_visible_def)
  moreover have "get_visible_version q s (snd (mark_deleted page t d (create_version page data t m))) =
     (if q = page \<and> t \<in> active_txns s \<and> d \<notin> active_txns s then Some data
      else get_visible_version q s m)"
    by (simp add: get_visible_chain create_version_def mark_deleted_def) (simp add: is_visible_def)
  ultimately show ?thesis ..
qed

end
