(* ===== verification/Buffer_Pool.thy ===== *)
theory Buffer_Pool
  imports File_Manager Lock_Manager Mvcc
begin

text \<open>
  \<open>tinydb/buffer_pool.py\<close>: the page cache. The \<open>OrderedDict\<close> is an association list whose first
  entry is the least recently used page; \<open>move_to_end\<close> is \<open>touch\<close>. The pool owns a lock manager and
  a version store of its own. The mutex around the cache is not modelled: each method is one step.

  The view \<open>pool_view\<close> is what a reader sees for each page, cached or not; \<open>pool_inv\<close> ties the cache
  to the file. The section on the invariant shows that reading, evicting, pinning and flushing keep
  the view, which is the whole point of a cache.
\<close>

section \<open>State\<close>

record buffer_pool =
  bp_fm :: file_manager
  bp_capacity :: nat
  bp_cache :: "(nat, Page) dict"
  bp_pinned :: "nat set"
  bp_lock_mgr :: lock_manager
  bp_mvcc :: mvcc

definition new_pool :: "file_manager \<Rightarrow> nat \<Rightarrow> buffer_pool" where
  "new_pool fm capacity = \<lparr>bp_fm = fm, bp_capacity = capacity, bp_cache = [], bp_pinned = {},
     bp_lock_mgr = new_lock_manager None, bp_mvcc = []\<rparr>"

definition pool_size :: "buffer_pool \<Rightarrow> nat" where
  "pool_size bp = length (bp_cache bp)"

abbreviation on_fm :: "(file_manager, 'a) st \<Rightarrow> (buffer_pool, 'a) st" where
  "on_fm \<equiv> szoom bp_fm (\<lambda>fm bp. bp\<lparr>bp_fm := fm\<rparr>)"

abbreviation on_pool_locks :: "(lock_manager, 'a) st \<Rightarrow> (buffer_pool, 'a) st" where
  "on_pool_locks \<equiv> szoom bp_lock_mgr (\<lambda>lm bp. bp\<lparr>bp_lock_mgr := lm\<rparr>)"

section \<open>Operations\<close>

definition put_last :: "nat \<Rightarrow> Page \<Rightarrow> (nat, Page) dict \<Rightarrow> (nat, Page) dict" where
  "put_last k p c = dict_del k c @ [(k, p)]"

text \<open>\<open>_cache[k] = p; _cache.move_to_end(k)\<close> and \<open>_cache.move_to_end(k)\<close>.\<close>

definition cache_put :: "nat \<Rightarrow> Page \<Rightarrow> buffer_pool \<Rightarrow> buffer_pool" where
  "cache_put k p bp = bp\<lparr>bp_cache := put_last k p (bp_cache bp)\<rparr>"

definition touch :: "nat \<Rightarrow> buffer_pool \<Rightarrow> buffer_pool" where
  "touch k bp = (case dict_get (bp_cache bp) k of None \<Rightarrow> bp | Some p \<Rightarrow> cache_put k p bp)"

text \<open>\<open>_evict_one\<close>: the least recently used page that is not pinned; a dirty one is written first.\<close>

definition evict_one :: "(buffer_pool, unit) st" where
  "evict_one bp =
     (case find (\<lambda>(pid, page). pid \<notin> bp_pinned bp) (bp_cache bp) of
        None \<Rightarrow> (Inl PageOutOfRangeError, bp)
      | Some (pid, page) \<Rightarrow>
          sbind (if p_dirty page then on_fm (write_page pid (p_data page)) else sret ())
            (\<lambda>_. smod (\<lambda>bp. bp\<lparr>bp_cache := dict_del pid (bp_cache bp)\<rparr>)) bp)"

lemma evict_one_shorter:
  assumes "evict_one bp = (Inr u, bp')"
  shows "length (bp_cache bp') < length (bp_cache bp)"
proof -
  from assms obtain pid page where f: "find (\<lambda>(pid, page). pid \<notin> bp_pinned bp) (bp_cache bp) = Some (pid, page)"
    and e: "bp_cache bp' = dict_del pid (bp_cache bp)"
    by (auto simp: evict_one_def szoom_def sbind_def split: option.splits prod.splits sum.splits if_splits)
  from f have "(pid, page) \<in> set (bp_cache bp)"
    by (auto simp: find_Some_iff dest: nth_mem)
  then show ?thesis unfolding e by (auto simp: AList.delete_eq intro!: length_filter_less)
qed

text \<open>The loop \<open>while len(self._cache) >= self._capacity: self._evict_one()\<close>.\<close>

function make_room :: "(buffer_pool, unit) st" where
  "make_room bp =
     (if length (bp_cache bp) < bp_capacity bp then (Inr (), bp)
      else case evict_one bp of
        (Inl e, bp') \<Rightarrow> (Inl e, bp')
      | (Inr u, bp') \<Rightarrow> make_room bp')"
  by pat_completeness auto

termination
  by (relation "measure (\<lambda>bp. length (bp_cache bp))") (auto dest: evict_one_shorter [OF sym])

declare make_room.simps [simp del]

definition insert_page :: "nat \<Rightarrow> Page \<Rightarrow> bool \<Rightarrow> (buffer_pool, unit) st" where
  "insert_page page_id page pinned =
     (if pinned then smod (\<lambda>bp. (cache_put page_id page bp)\<lparr>bp_pinned := insert page_id (bp_pinned bp)\<rparr>)
      else sbind make_room (\<lambda>_. smod (cache_put page_id page)))"

definition fetch :: "nat \<Rightarrow> (buffer_pool, Page) st" where
  "fetch page_id =
     sbind (on_fm (read_page page_id)) (\<lambda>raw.
     sbind (slift (parse_page_header raw)) (\<lambda>header.
       sret \<lparr>p_page_id = page_id, p_page_type = Some (h_page_type header), p_data = raw, p_dirty = False\<rparr>))"

definition get_page :: "nat \<Rightarrow> Snapshot option \<Rightarrow> (buffer_pool, bytes) st" where
  "get_page page_id snapshot bp =
     (case (case snapshot of None \<Rightarrow> None | Some s \<Rightarrow> get_visible_version page_id s (bp_mvcc bp)) of
        Some data \<Rightarrow> (Inr data, bp)
      | None \<Rightarrow>
          (case dict_get (bp_cache bp) page_id of
             Some page \<Rightarrow> (Inr (p_data page), touch page_id bp)
           | None \<Rightarrow> sbind (fetch page_id) (\<lambda>page.
               sbind (insert_page page_id page False) (\<lambda>_. sret (p_data page))) bp))"

definition cache_update :: "nat \<Rightarrow> (Page \<Rightarrow> Page) \<Rightarrow> buffer_pool \<Rightarrow> buffer_pool" where
  "cache_update k f bp = (case dict_get (bp_cache bp) k of
     None \<Rightarrow> bp | Some p \<Rightarrow> bp\<lparr>bp_cache := dict_set k (f p) (bp_cache bp)\<rparr>)"

definition mark_dirty :: "nat \<Rightarrow> buffer_pool \<Rightarrow> buffer_pool" where
  "mark_dirty page_id = cache_update page_id (p_dirty_update (\<lambda>_. True))"

definition set_page_data :: "nat \<Rightarrow> bytes \<Rightarrow> buffer_pool \<Rightarrow> buffer_pool" where
  "set_page_data page_id data = cache_update page_id (\<lambda>p. p\<lparr>p_data := data, p_dirty := True\<rparr>)"

text \<open>The request for a lock is the pair of transaction id and mode, when both are given.\<close>

definition pin :: "nat \<Rightarrow> (nat \<times> LockMode) option \<Rightarrow> (buffer_pool, unit) st" where
  "pin page_id lock =
     sbind (\<lambda>bp. if dict_get (bp_cache bp) page_id = None
         then sbind (fetch page_id) (\<lambda>page. insert_page page_id page True) bp
         else (Inr (), touch page_id (bp\<lparr>bp_pinned := insert page_id (bp_pinned bp)\<rparr>)))
     (\<lambda>_. case lock of
         None \<Rightarrow> sret ()
       | Some (txn_id, mode) \<Rightarrow> sbind (on_pool_locks (acquire txn_id page_id mode)) (\<lambda>_. sret ()))"

definition unpin :: "nat \<Rightarrow> nat option \<Rightarrow> buffer_pool \<Rightarrow> buffer_pool" where
  "unpin page_id txn_id bp =
     (let bp1 = bp\<lparr>bp_pinned := bp_pinned bp - {page_id}\<rparr> in
      case txn_id of None \<Rightarrow> bp1
      | Some t \<Rightarrow> bp1\<lparr>bp_lock_mgr := snd (release t page_id (bp_lock_mgr bp1))\<rparr>)"

definition flush :: "(buffer_pool, unit) st" where
  "flush bp =
     (let dirty_pages = map (\<lambda>p. (p_page_id p, p_data p)) (filter p_dirty (map snd (bp_cache bp))) in
      sbind (smap (\<lambda>(page_id, data). on_fm (write_page page_id data)) dirty_pages)
        (\<lambda>_. smod (\<lambda>bp. bp\<lparr>bp_cache := map (\<lambda>(k, p). (k, p\<lparr>p_dirty := False\<rparr>)) (bp_cache bp)\<rparr>)) bp)"

section \<open>View and invariant\<close>

definition cached :: "buffer_pool \<Rightarrow> nat \<Rightarrow> bool" where
  "cached bp p \<longleftrightarrow> dict_get (bp_cache bp) p \<noteq> None"

lemma cached_keys: "cached bp p \<longleftrightarrow> p \<in> set (dict_keys (bp_cache bp))"
  unfolding cached_def by (simp add: dict_get_None_iff)

definition pool_view :: "buffer_pool \<Rightarrow> nat \<Rightarrow> bytes option" where
  "pool_view bp p = (case dict_get (bp_cache bp) p of Some page \<Rightarrow> Some (p_data page) | None \<Rightarrow> disk (bp_fm bp) p)"

definition parses :: "bytes \<Rightarrow> bool" where
  "parses d \<longleftrightarrow> length d = 4096 \<and> (\<exists>h. parse_page_header d = Inr h)"

definition page_ok :: "file_manager \<Rightarrow> nat \<Rightarrow> Page \<Rightarrow> bool" where
  "page_ok fm k p \<longleftrightarrow> p_page_id p = k \<and> 0 < k \<and> k < fm_page_count fm \<and> parses (p_data p) \<and>
     (\<not> p_dirty p \<longrightarrow> disk fm k = Some (p_data p))"

definition pool_inv :: "buffer_pool \<Rightarrow> bool" where
  "pool_inv bp \<longleftrightarrow> fm_inv (bp_fm bp) \<and> distinct (dict_keys (bp_cache bp)) \<and>
     (\<forall>k p. dict_get (bp_cache bp) k = Some p \<longrightarrow> page_ok (bp_fm bp) k p)"

text \<open>There is a frame that is not taken by a pinned page.\<close>

definition has_frame :: "buffer_pool \<Rightarrow> bool" where
  "has_frame bp \<longleftrightarrow> finite (bp_pinned bp) \<and> card (bp_pinned bp) < bp_capacity bp"

text \<open>
  \<open>same_pages K bp bp'\<close>: the pool went from \<open>bp\<close> to \<open>bp'\<close> without any change of contents; pages of
  \<open>K\<close> may have entered the cache, and the file changed at most under pages that were cached.
\<close>

definition same_pages :: "nat set \<Rightarrow> buffer_pool \<Rightarrow> buffer_pool \<Rightarrow> bool" where
  "same_pages K bp bp' \<longleftrightarrow> pool_inv bp' \<and> pool_view bp' = pool_view bp \<and>
     bp_capacity bp' = bp_capacity bp \<and> bp_pinned bp' = bp_pinned bp \<and>
     bp_lock_mgr bp' = bp_lock_mgr bp \<and> bp_mvcc bp' = bp_mvcc bp \<and>
     bp_fm bp' = (bp_fm bp)\<lparr>fm_file := fm_file (bp_fm bp')\<rparr> \<and>
     (\<forall>p. \<not> cached bp p \<longrightarrow> p \<notin> K \<longrightarrow> disk (bp_fm bp') p = disk (bp_fm bp) p) \<and>
     (\<forall>p. cached bp' p \<longrightarrow> cached bp p \<or> p \<in> K)"

lemma same_pages_refl: "pool_inv bp \<Longrightarrow> same_pages K bp bp"
  by (simp add: same_pages_def)

lemma same_pages_trans:
  assumes "same_pages K a b" and "same_pages L b c"
  shows "same_pages (K \<union> L) a c"
proof -
  have fmc: "bp_fm c = (bp_fm a)\<lparr>fm_file := fm_file (bp_fm c)\<rparr>"
    using assms unfolding same_pages_def by (metis file_manager.surjective file_manager.update_convs(1))
  have cch: "\<And>p. cached b p \<Longrightarrow> cached a p \<or> p \<in> K" "\<And>p. cached c p \<Longrightarrow> cached b p \<or> p \<in> L"
    using assms by (auto simp: same_pages_def)
  have d: "disk (bp_fm c) p = disk (bp_fm a) p" if "\<not> cached a p" "p \<notin> K \<union> L" for p
  proof -
    have "\<not> cached b p" using cch(1) [of p] that by auto
    then have "disk (bp_fm c) p = disk (bp_fm b) p" using assms(2) that by (simp add: same_pages_def)
    also have "\<dots> = disk (bp_fm a) p" using assms(1) that by (simp add: same_pages_def)
    finally show ?thesis .
  qed
  have "\<And>p. cached c p \<Longrightarrow> cached a p \<or> p \<in> K \<union> L" using cch by blast
  with fmc d assms show ?thesis by (simp add: same_pages_def)
qed

lemma same_pages_mono: "same_pages K a b \<Longrightarrow> K \<subseteq> L \<Longrightarrow> same_pages L a b"
  by (auto simp: same_pages_def)

lemma same_pagesD:
  assumes "same_pages K a b"
  shows "pool_inv b" "pool_view b = pool_view a" "bp_capacity b = bp_capacity a" "bp_pinned b = bp_pinned a"
    "bp_lock_mgr b = bp_lock_mgr a" "bp_mvcc b = bp_mvcc a"
    "fm_page_count (bp_fm b) = fm_page_count (bp_fm a)"
    "fm_free_list_head (bp_fm b) = fm_free_list_head (bp_fm a)"
    "has_frame b = has_frame a"
proof -
  have e: "bp_fm b = (bp_fm a)\<lparr>fm_file := fm_file (bp_fm b)\<rparr>" using assms by (simp add: same_pages_def)
  show "fm_page_count (bp_fm b) = fm_page_count (bp_fm a)"
    "fm_free_list_head (bp_fm b) = fm_free_list_head (bp_fm a)"
    by (subst e, simp)+
qed (use assms in \<open>auto simp: same_pages_def has_frame_def\<close>)

section \<open>The cache operations\<close>

lemma dict_get_put_last [simp]: "dict_get (put_last k p c) q = (if q = k then Some p else dict_get c q)"
  by (auto simp: put_last_def map_add_def split: option.splits)

lemma distinct_put_last [simp]: "distinct (dict_keys c) \<Longrightarrow> distinct (dict_keys (put_last k p c))"
  using dict_keys_del [of k c] by (simp add: put_last_def)

lemma pool_view_simps [simp]:
  "pool_view (bp\<lparr>bp_cache := c\<rparr>) q = (case dict_get c q of Some page \<Rightarrow> Some (p_data page) | None \<Rightarrow> disk (bp_fm bp) q)"
  "cached (bp\<lparr>bp_cache := c\<rparr>) q = (dict_get c q \<noteq> None)"
  by (simp_all add: pool_view_def cached_def split: option.splits)

lemma same_fields:
  assumes "fm' = fm\<lparr>fm_file := f\<rparr>"
  shows "fm_page_count fm' = fm_page_count fm" "fm_free_list_head fm' = fm_free_list_head fm"
    "fm_catalog_root fm' = fm_catalog_root fm" "fm_root_page_id fm' = fm_root_page_id fm"
  by (simp_all add: assms)

lemma pool_invD:
  assumes "pool_inv bp"
  shows "fm_inv (bp_fm bp)" "distinct (dict_keys (bp_cache bp))"
    "dict_get (bp_cache bp) k = Some p \<Longrightarrow> page_ok (bp_fm bp) k p"
  using assms by (auto simp: pool_inv_def)

lemma touch_same:
  assumes "pool_inv bp"
  shows "same_pages K bp (touch k bp)"
proof (cases "dict_get (bp_cache bp) k")
  case (Some p)
  with assms show ?thesis
    by (auto simp: touch_def cache_put_def same_pages_def pool_inv_def fun_eq_iff pool_view_def [of bp]
        cached_def [of bp] split: if_splits)
qed (use assms in \<open>simp add: touch_def same_pages_refl\<close>)

lemma touch_cached [simp]: "cached (touch k bp) p = cached bp p"
  by (simp add: touch_def cached_def [of bp] cache_put_def split: option.splits)

lemma evict_one_same:
  assumes inv: "pool_inv bp" and e: "evict_one bp = (r, bp')"
  shows "same_pages {} bp bp' \<and>
    ((\<exists>pid. cached bp pid \<and> pid \<notin> bp_pinned bp) \<longrightarrow> r = Inr ())"
proof (cases "find (\<lambda>(pid, page). pid \<notin> bp_pinned bp) (bp_cache bp)")
  case None
  then have "\<not> (\<exists>pid. cached bp pid \<and> pid \<notin> bp_pinned bp)" by (force simp: find_None_iff cached_keys)
  with None e inv show ?thesis by (auto simp: evict_one_def same_pages_refl)
next
  case (Some kp)
  obtain k page where kp: "kp = (k, page)" by (cases kp)
  from Some kp have mem: "(k, page) \<in> set (bp_cache bp)" by (auto simp: find_Some_iff dest: nth_mem)
  then have get: "dict_get (bp_cache bp) k = Some page"
    using pool_invD(2) [OF inv] by (simp add: dict_get_Some_iff)
  from pool_invD(3) [OF inv this] have ok: "page_ok (bp_fm bp) k page" .
  then have k: "k < fm_page_count (bp_fm bp)" "length (p_data page) = 4096"
    by (auto simp: page_ok_def parses_def)
  note w = write_page_facts [OF pool_invD(1) [OF inv] k]
  let ?fm = "if p_dirty page then snd (write_page k (p_data page) (bp_fm bp)) else bp_fm bp"
  define fm1 where "fm1 = snd (write_page k (p_data page) (bp_fm bp))"
  have we: "write_page k (p_data page) (bp_fm bp) = (Inr (), fm1)"
    using w(1) by (simp add: fm1_def prod_eq_iff)
  have "evict_one bp = (Inr (), bp\<lparr>bp_fm := ?fm, bp_cache := dict_del k (bp_cache bp)\<rparr>)"
    by (cases "p_dirty page") (simp_all add: evict_one_def Some kp szoom_def sbind_def we flip: fm1_def)
  with e have e': "r = Inr ()" "bp' = bp\<lparr>bp_fm := ?fm, bp_cache := dict_del k (bp_cache bp)\<rparr>" by auto
  define fm' where "fm' = ?fm"
  have dk: "disk fm' q = (if q = k then Some (p_data page) else disk (bp_fm bp) q)" for q
    using w(3) ok unfolding fm'_def by (auto simp: page_ok_def)
  have fmi: "fm_inv fm'" using w(2) pool_invD(1) [OF inv] unfolding fm'_def by simp
  have fme: "fm' = (bp_fm bp)\<lparr>fm_file := fm_file fm'\<rparr>" using w(4) unfolding fm'_def by simp
  have pc: "fm_page_count fm' = fm_page_count (bp_fm bp)" by (rule same_fields [OF fme])
  note e' = e' [folded fm'_def]
  have "pool_inv bp'"
    unfolding pool_inv_def using e'(2) fmi pool_invD(2) [OF inv] pool_invD(3) [OF inv] dk pc
    by (auto simp: page_ok_def split: if_splits)
  moreover have "pool_view bp' = pool_view bp"
    using e'(2) dk get by (auto simp: pool_view_def fun_eq_iff split: option.splits)
  moreover have "\<forall>p. \<not> cached bp p \<longrightarrow> disk (bp_fm bp') p = disk (bp_fm bp) p"
    using e'(2) dk get by (auto simp: cached_def)
  moreover have "\<forall>p. cached bp' p \<longrightarrow> cached bp p"
    using e'(2) by (auto simp: cached_def)
  moreover have "bp_fm bp' = (bp_fm bp)\<lparr>fm_file := fm_file (bp_fm bp')\<rparr>" using e'(2) fme by simp
  ultimately show ?thesis using e' by (simp add: same_pages_def)
qed

lemma unpinned_exists:
  assumes "pool_inv bp" and "has_frame bp" and "bp_capacity bp \<le> length (bp_cache bp)"
  shows "\<exists>pid. cached bp pid \<and> pid \<notin> bp_pinned bp"
proof (rule ccontr)
  assume "\<not> ?thesis"
  then have "set (dict_keys (bp_cache bp)) \<subseteq> bp_pinned bp" by (auto simp: cached_keys)
  moreover have "finite (bp_pinned bp)" using assms(2) by (simp add: has_frame_def)
  ultimately have "card (set (dict_keys (bp_cache bp))) \<le> card (bp_pinned bp)" by (rule card_mono [rotated])
  moreover have "card (set (dict_keys (bp_cache bp))) = length (bp_cache bp)"
    using pool_invD(2) [OF assms(1)] by (simp add: distinct_card del: set_map)
  ultimately show False using assms(2,3) by (simp add: has_frame_def)
qed

lemma make_room_same:
  "pool_inv bp \<Longrightarrow> make_room bp = (r, bp') \<Longrightarrow>
   same_pages {} bp bp' \<and> (r = Inr () \<longrightarrow> length (bp_cache bp') < bp_capacity bp') \<and>
   (has_frame bp \<longrightarrow> r = Inr ())"
proof (induction bp arbitrary: r bp' rule: make_room.induct)
  case (1 bp)
  show ?case
  proof (cases "length (bp_cache bp) < bp_capacity bp")
    case True
    with 1 show ?thesis by (simp add: make_room.simps [of bp] same_pages_refl)
  next
    case False
    obtain r1 b where e: "evict_one bp = (r1, b)" by (cases "evict_one bp")
    note ev = evict_one_same [OF 1(2) e]
    show ?thesis
    proof (cases r1)
      case (Inl err)
      have "\<not> has_frame bp" using ev unpinned_exists [OF 1(2)] False Inl by auto
      moreover have "r = Inl err" "bp' = b" using Inl e False 1(3) by (auto simp: make_room.simps [of bp])
      ultimately show ?thesis using ev by simp
    next
      case (Inr u)
      with False e 1(3) have m: "make_room b = (r, bp')" by (simp add: make_room.simps [of bp])
      note s = same_pagesD [OF conjunct1 [OF ev]]
      have "same_pages {} b bp' \<and> (r = Inr () \<longrightarrow> length (bp_cache bp') < bp_capacity bp') \<and>
         (has_frame b \<longrightarrow> r = Inr ())"
        using 1(1) [OF False e [symmetric] Inr s(1) m] .
      with same_pages_trans [OF conjunct1 [OF ev]] s show ?thesis by fastforce
    qed
  qed
qed

lemma cache_put_same:
  assumes "pool_inv bp" and "page_ok (bp_fm bp) k p" and "\<not> cached bp k" and "\<not> p_dirty p"
  shows "same_pages {k} bp (cache_put k p bp)"
proof -
  have n: "dict_get (bp_cache bp) k = None" using assms(3) by (simp add: cached_def)
  show ?thesis
    using assms n by (auto simp: same_pages_def cache_put_def pool_inv_def pool_view_def [of bp] page_ok_def
        cached_def [of bp] fun_eq_iff split: if_splits)
qed

text \<open>Fetching reads the file, or fails when the page is out of range or has no valid header.\<close>

definition fetched :: "nat \<Rightarrow> bytes option \<Rightarrow> Page res" where
  "fetched k d = (case d of None \<Rightarrow> Inl PageOutOfRangeError
     | Some raw \<Rightarrow> rbind (parse_page_header raw) (\<lambda>h. Inr
         \<lparr>p_page_id = k, p_page_type = Some (h_page_type h), p_data = raw, p_dirty = False\<rparr>))"

lemma fetch_eq: "pool_inv bp \<Longrightarrow> fetch k bp = (fetched k (disk (bp_fm bp) k), bp)"
  using read_page_eq [OF pool_invD(1), of bp k]
  by (auto simp: fetch_def fetched_def szoom_def sbind_def rbind_def split: option.splits sum.splits)

lemma fetched_ok:
  assumes "pool_inv bp" and "0 < k" and "fetched k (disk (bp_fm bp) k) = Inr p"
  shows "page_ok (bp_fm bp) k p" and "disk (bp_fm bp) k = Some (p_data p)" and "\<not> p_dirty p"
  using assms disk_length [OF pool_invD(1) [OF assms(1)], of k]
  by (auto simp: fetched_def page_ok_def parses_def disk_def split: option.splits if_splits)

text \<open>What \<open>get_page\<close> returns, as a function of the view.\<close>

definition page_result :: "bytes option \<Rightarrow> bytes res" where
  "page_result d = (case d of None \<Rightarrow> Inl PageOutOfRangeError
     | Some raw \<Rightarrow> rbind (parse_page_header raw) (\<lambda>_. Inr raw))"

lemma get_page_eq:
  assumes inv: "pool_inv bp" and k: "0 < k" and fr: "has_frame bp"
  shows "\<exists>bp'. get_page k None bp = (page_result (pool_view bp k), bp') \<and> same_pages {k} bp bp' \<and>
     (\<forall>d. page_result (pool_view bp k) = Inr d \<longrightarrow> cached bp' k)"
proof (cases "dict_get (bp_cache bp) k")
  case (Some page)
  then have ok: "parses (p_data page)" using pool_invD(3) [OF inv] by (auto simp: page_ok_def)
  have "cached bp k" using Some by (simp add: cached_def)
  then show ?thesis
    using Some ok touch_same [OF inv, of "{k}" k]
    by (auto simp: get_page_def pool_view_def page_result_def parses_def)
next
  case None
  then have v: "pool_view bp k = disk (bp_fm bp) k" and nc: "\<not> cached bp k"
    by (auto simp: pool_view_def cached_def)
  show ?thesis
  proof (cases "fetched k (disk (bp_fm bp) k)")
    case (Inl e)
    then have "page_result (pool_view bp k) = Inl e"
      by (auto simp: v page_result_def fetched_def rbind_Inl_iff split: option.splits)
    with None Inl fetch_eq [OF inv] inv show ?thesis
      by (auto simp: get_page_def sbind_def same_pages_refl)
  next
    case (Inr page)
    note f = fetched_ok [OF inv k Inr]
    have pr: "page_result (pool_view bp k) = Inr (p_data page)"
      using Inr f by (auto simp: v page_result_def fetched_def split: option.splits)
    obtain r b where m: "make_room bp = (r, b)" by (cases "make_room bp")
    note mr = make_room_same [OF inv m]
    then have r: "r = Inr ()" using fr by simp
    note s = same_pagesD [OF conjunct1 [OF mr]]
    have ncb: "\<not> cached b k" using mr nc by (auto simp: same_pages_def)
    have okb: "page_ok (bp_fm b) k page"
      using f s(7) mr nc by (auto simp: page_ok_def same_pages_def)
    note p = cache_put_same [OF s(1) okb ncb f(3)]
    have "same_pages {k} bp (cache_put k page b)"
      using same_pages_trans [OF conjunct1 [OF mr] p] by simp
    moreover have "cached (cache_put k page b) k" by (simp add: cached_def cache_put_def)
    moreover have "get_page k None bp = (Inr (p_data page), cache_put k page b)"
      using None Inr fetch_eq [OF inv] m r by (simp add: get_page_def sbind_def insert_page_def)
    ultimately show ?thesis using pr by auto
  qed
qed

lemma set_page_data_facts:
  assumes inv: "pool_inv bp" and c: "cached bp k" and d: "parses d"
  shows "pool_inv (set_page_data k d bp)" and "pool_view (set_page_data k d bp) = (pool_view bp)(k := Some d)"
    and "cached (set_page_data k d bp) = cached bp" and "bp_fm (set_page_data k d bp) = bp_fm bp"
    and "has_frame (set_page_data k d bp) = has_frame bp"
proof -
  obtain p where p: "dict_get (bp_cache bp) k = Some p"
    using c by (auto simp: cached_def)
  then have ok: "page_ok (bp_fm bp) k p" by (rule pool_invD(3) [OF inv])
  have e: "set_page_data k d bp = bp\<lparr>bp_cache := dict_set k (p\<lparr>p_data := d, p_dirty := True\<rparr>) (bp_cache bp)\<rparr>"
    using p by (simp add: set_page_data_def cache_update_def)
  show "pool_inv (set_page_data k d bp)"
    using inv ok d by (auto simp: e pool_inv_def page_ok_def)
  show "pool_view (set_page_data k d bp) = (pool_view bp)(k := Some d)"
    by (simp add: e pool_view_def [of bp] fun_eq_iff)
  show "cached (set_page_data k d bp) = cached bp"
    using c by (auto simp: e cached_def [of bp] fun_eq_iff)
qed (simp_all add: set_page_data_def cache_update_def has_frame_def split: option.splits)

section \<open>Flush\<close>

lemma flush_writes:
  assumes "fm_inv (bp_fm bp)" and "\<forall>(k, d) \<in> set ps. k < fm_page_count (bp_fm bp) \<and> length d = 4096"
    and "distinct (map fst ps)"
  shows "\<exists>fm. smap (\<lambda>(page_id, data). on_fm (write_page page_id data)) ps bp
       = (Inr (replicate (length ps) ()), bp\<lparr>bp_fm := fm\<rparr>) \<and> fm_inv fm \<and>
     fm = (bp_fm bp)\<lparr>fm_file := fm_file fm\<rparr> \<and>
     (\<forall>q. disk fm q = (case dict_get ps q of Some d \<Rightarrow> Some d | None \<Rightarrow> disk (bp_fm bp) q))"
  using assms
proof (induction ps arbitrary: bp)
  case (Cons kd ps)
  obtain k d where kd: "kd = (k, d)" by (cases kd)
  have kb: "k < fm_page_count (bp_fm bp)" "length d = 4096" using Cons.prems kd by auto
  note w = write_page_facts [OF Cons.prems(1) kb]
  define fm1 where "fm1 = snd (write_page k d (bp_fm bp))"
  have we: "write_page k d (bp_fm bp) = (Inr (), fm1)" using w(1) by (simp add: fm1_def prod_eq_iff)
  have fm1: "fm_inv fm1" "fm1 = (bp_fm bp)\<lparr>fm_file := fm_file fm1\<rparr>"
    "disk fm1 q = (if q = k then Some d else disk (bp_fm bp) q)" for q
    using w by (simp_all add: fm1_def)
  have pc: "fm_page_count fm1 = fm_page_count (bp_fm bp)" by (subst fm1(2)) simp
  let ?b = "bp\<lparr>bp_fm := fm1\<rparr>"
  have pre: "fm_inv (bp_fm ?b)" "\<forall>(k, d) \<in> set ps. k < fm_page_count (bp_fm ?b) \<and> length d = 4096"
      "distinct (map fst ps)"
    using Cons.prems(2,3) pc fm1(1) by simp_all
  have fmb: "bp_fm ?b = fm1" by simp
  from Cons.IH [OF pre, unfolded fmb]
  obtain fm where fm: "smap (\<lambda>(page_id, data). on_fm (write_page page_id data)) ps ?b
       = (Inr (replicate (length ps) ()), ?b\<lparr>bp_fm := fm\<rparr>)" "fm_inv fm"
     "fm = fm1\<lparr>fm_file := fm_file fm\<rparr>"
     "\<forall>q. disk fm q = (case dict_get ps q of Some d \<Rightarrow> Some d | None \<Rightarrow> disk fm1 q)"
    by blast
  have e: "fm = (bp_fm bp)\<lparr>fm_file := fm_file fm\<rparr>"
    using fm(3) fm1(2) by (metis file_manager.surjective file_manager.update_convs(1))
  have "k \<notin> set (map fst ps)" using Cons.prems(3) kd by simp
  then have dn: "dict_get ps k = None" by (simp add: dict_get_None_iff del: set_map)
  have "smap (\<lambda>(page_id, data). on_fm (write_page page_id data)) (kd # ps) bp
      = (Inr (replicate (length (kd # ps)) ()), bp\<lparr>bp_fm := fm\<rparr>)"
    using fm(1) kd we by (simp add: szoom_def sbind_def)
  moreover have "disk fm q = (case dict_get (kd # ps) q of Some d \<Rightarrow> Some d | None \<Rightarrow> disk (bp_fm bp) q)" for q
    using fm(4) dn fm1(3) kd by (simp split: option.splits)
  ultimately show ?case using fm(2) e by blast
qed (force intro: exI [of _ "bp_fm _"])

lemma map_of_dirty:
  "distinct (dict_keys c) \<Longrightarrow> (\<And>k p. dict_get c k = Some p \<Longrightarrow> p_page_id p = k) \<Longrightarrow>
   dict_get (map (\<lambda>p. (p_page_id p, p_data p)) (filter p_dirty (map snd c))) q =
     (case dict_get c q of None \<Rightarrow> None | Some p \<Rightarrow> if p_dirty p then Some (p_data p) else None)"
proof (induction c)
  case (Cons kp c)
  obtain k p where kp: "kp = (k, p)" by (cases kp)
  have n: "k \<notin> set (dict_keys c)" and d: "distinct (dict_keys c)" using Cons.prems(1) kp by auto
  have id: "p_page_id p = k" using Cons.prems(2) [of k p] kp by simp
  have ids: "p_page_id p' = k'" if "dict_get c k' = Some p'" for k' p'
  proof -
    have "k' \<noteq> k" using dict_get_SomeD [OF that] n by auto
    then show ?thesis using Cons.prems(2) [of k' p'] that kp by simp
  qed
  have nk: "dict_get c k = None" using n by (simp only: dict_get_None_iff not_False_eq_True)
  show ?case using Cons.IH [OF d ids] id nk kp by (cases "q = k") auto
qed simp

lemma flush_facts:
  assumes inv: "pool_inv bp"
  shows "\<exists>bp'. flush bp = (Inr (), bp') \<and> same_pages {} bp bp' \<and>
    (\<forall>k. disk (bp_fm bp') k = pool_view bp k) \<and> dict_keys (bp_cache bp') = dict_keys (bp_cache bp)"
proof -
  let ?c = "bp_cache bp"
  let ?ps = "map (\<lambda>p. (p_page_id p, p_data p)) (filter p_dirty (map snd ?c))"
  let ?clean = "\<lambda>c. map (\<lambda>(k, p). (k, p\<lparr>p_dirty := False\<rparr>)) c"
  note dist = pool_invD(2) [OF inv] and ok = pool_invD(3) [OF inv]
  have mem: "page_ok (bp_fm bp) k p" if "(k, p) \<in> set ?c" for k p
    using ok dist that by (simp add: dict_get_Some_iff)
  have ids: "map p_page_id (map snd ?c) = dict_keys ?c" using mem by (auto simp: page_ok_def)
  have "distinct (map p_page_id (filter p_dirty (map snd ?c)))"
    using dist unfolding ids [symmetric] by (rule distinct_map_filter)
  then have d: "distinct (map fst ?ps)" by (simp add: comp_def)
  have b: "\<forall>(k, d) \<in> set ?ps. k < fm_page_count (bp_fm bp) \<and> length d = 4096"
    using mem by (force simp: page_ok_def parses_def)
  have look: "dict_get ?ps q = (case dict_get ?c q of None \<Rightarrow> None
      | Some p \<Rightarrow> if p_dirty p then Some (p_data p) else None)" for q
    by (rule map_of_dirty [OF dist]) (use ok in \<open>auto simp: page_ok_def\<close>)
  obtain fm where fm: "smap (\<lambda>(page_id, data). on_fm (write_page page_id data)) ?ps bp
       = (Inr (replicate (length ?ps) ()), bp\<lparr>bp_fm := fm\<rparr>)" "fm_inv fm"
     "fm = (bp_fm bp)\<lparr>fm_file := fm_file fm\<rparr>"
     "\<forall>q. disk fm q = (case dict_get ?ps q of Some d \<Rightarrow> Some d | None \<Rightarrow> disk (bp_fm bp) q)"
    using flush_writes [OF pool_invD(1) [OF inv] b d] by blast
  let ?bp = "bp\<lparr>bp_fm := fm, bp_cache := ?clean ?c\<rparr>"
  have fl: "flush bp = (Inr (), ?bp)" using fm(1) by (simp add: flush_def Let_def sbind_def)
  have keys: "dict_keys (?clean c) = dict_keys c" for c by (induction c) auto
  have dist': "distinct (dict_keys (?clean ?c))" unfolding keys by (rule dist)
  have get: "dict_get (?clean c) k = map_option (\<lambda>p. p\<lparr>p_dirty := False\<rparr>) (dict_get c k)" for c k
    by (induction c) auto
  have dk: "disk fm k = pool_view bp k" for k
    using fm(4) look [of k] ok [of k] by (auto simp: pool_view_def page_ok_def split: option.splits)
  have pc: "fm_page_count fm = fm_page_count (bp_fm bp)" by (subst fm(3)) simp
  have v: "pool_view ?bp = pool_view bp"
    using dk by (auto simp: pool_view_def get fun_eq_iff split: option.splits)
  have "pool_inv ?bp"
    unfolding pool_inv_def using fm(2) dist' ok dk pc
    by (auto simp: get page_ok_def pool_view_def simp del: map_map)
  then have "same_pages {} bp ?bp"
    using v fm(3) dk by (auto simp: same_pages_def cached_def get pool_view_def [of bp])
  with fl dk keys show ?thesis by auto
qed

section \<open>The order of the cache\<close>

definition cache_keys :: "buffer_pool \<Rightarrow> nat list" where
  "cache_keys bp = dict_keys (bp_cache bp)"

text \<open>The page to evict: the first key, in least recently used order, that is not pinned.\<close>

definition victim :: "buffer_pool \<Rightarrow> nat option" where
  "victim bp = find (\<lambda>k. k \<notin> bp_pinned bp) (cache_keys bp)"

lemma pool_size_keys: "pool_size bp = length (cache_keys bp)"
  by (simp add: pool_size_def cache_keys_def)

lemma cache_keys_put: "cache_keys (cache_put k p bp) = removeAll k (cache_keys bp) @ [k]"
  by (simp add: cache_keys_def cache_put_def put_last_def delete_keys)

lemma cache_keys_touch: "cached bp k \<Longrightarrow> cache_keys (touch k bp) = removeAll k (cache_keys bp) @ [k]"
  by (auto simp: touch_def cache_keys_put cached_def)

lemma cached_cache_keys: "cached bp k \<longleftrightarrow> k \<in> set (cache_keys bp)"
  by (simp add: cache_keys_def cached_keys)

lemma distinct_cache_keys: "pool_inv bp \<Longrightarrow> distinct (cache_keys bp)"
  by (simp add: cache_keys_def pool_inv_def)

lemma find_fst: "find (\<lambda>(k, v). P k) xs = None \<longleftrightarrow> find P (map fst xs) = None"
  "find (\<lambda>(k, v). P k) xs = Some kv \<Longrightarrow> find P (map fst xs) = Some (fst kv)"
  by (induction xs) (auto split: if_splits)

lemma evict_one_keys:
  assumes "evict_one bp = (Inr u, bp')"
  shows "\<exists>k. victim bp = Some k \<and> cache_keys bp' = removeAll k (cache_keys bp)"
proof -
  from assms obtain kp where f: "find (\<lambda>(pid, page). pid \<notin> bp_pinned bp) (bp_cache bp) = Some kp"
    and e: "bp_cache bp' = dict_del (fst kp) (bp_cache bp)"
    by (auto simp: evict_one_def szoom_def sbind_def split: option.splits prod.splits sum.splits if_splits)
  show ?thesis using find_fst(2) [OF f] e by (simp add: victim_def cache_keys_def delete_keys)
qed

lemma make_room_keys:
  "pool_inv bp \<Longrightarrow> make_room bp = (r, bp') \<Longrightarrow>
   set (cache_keys bp) \<inter> bp_pinned bp \<subseteq> set (cache_keys bp') \<and>
   length (cache_keys bp') \<le> length (cache_keys bp)"
proof (induction bp arbitrary: r bp' rule: make_room.induct)
  case (1 bp)
  show ?case
  proof (cases "length (bp_cache bp) < bp_capacity bp")
    case False
    obtain r1 b where e: "evict_one bp = (r1, b)" by (cases "evict_one bp")
    note ev = conjunct1 [OF evict_one_same [OF 1(2) e]]
    show ?thesis
    proof (cases r1)
      case Inl
      then have "bp' = b" using e False 1(3) by (auto simp: make_room.simps [of bp])
      moreover have "b = bp \<or> b = bp\<lparr>bp_fm := bp_fm b\<rparr>" using e Inl
        by (auto simp: evict_one_def szoom_def sbind_def split: option.splits prod.splits sum.splits if_splits)
      then have "cache_keys b = cache_keys bp" by (metis cache_keys_def buffer_pool.select_convs(3)
            buffer_pool.surjective buffer_pool.update_convs(1))
      ultimately show ?thesis by simp
    next
      case (Inr u)
      with False e 1(3) have m: "make_room b = (r, bp')" by (simp add: make_room.simps [of bp])
      from e Inr evict_one_keys obtain k where k: "victim bp = Some k" "cache_keys b = removeAll k (cache_keys bp)"
        by blast
      have "k \<notin> bp_pinned bp" using k(1) by (auto simp: victim_def find_Some_iff)
      moreover have l: "length (removeAll k (cache_keys bp)) \<le> length (cache_keys bp)"
        by (simp add: removeAll_filter_not_eq)
      moreover note IH = 1(1) [OF False e [symmetric] Inr same_pagesD(1) [OF ev] m]
      ultimately show ?thesis using k(2) same_pagesD(4) [OF ev] order_trans [OF _ l] by auto
    qed
  qed (use 1(3) in \<open>simp add: make_room.simps [of bp]\<close>)
qed

text \<open>A full cache loses exactly its victim.\<close>

lemma make_room_full:
  assumes inv: "pool_inv bp" and full: "pool_size bp = bp_capacity bp" and v: "victim bp = Some v"
  shows "\<exists>bp'. make_room bp = (Inr (), bp') \<and> cache_keys bp' = removeAll v (cache_keys bp)"
proof -
  obtain r b where e: "evict_one bp = (r, b)" by (cases "evict_one bp")
  note ev = evict_one_same [OF inv e]
  have "v \<in> set (cache_keys bp)" "v \<notin> bp_pinned bp"
    using v by (auto simp: victim_def find_Some_iff)
  with ev have r: "r = Inr ()" by (auto simp: cached_cache_keys)
  with evict_one_keys e v have k: "cache_keys b = removeAll v (cache_keys bp)" by fastforce
  have "length (bp_cache b) < bp_capacity b"
    using evict_one_shorter [of bp "()" b] e r full same_pagesD(3) [OF conjunct1 [OF ev]]
    by (simp add: pool_size_def)
  then have "make_room b = (Inr (), b)" by (simp add: make_room.simps [of b])
  moreover have "\<not> length (bp_cache bp) < bp_capacity bp" using full by (simp add: pool_size_def)
  ultimately show ?thesis using e r k by (simp add: make_room.simps [of bp])
qed

section \<open>Runs of the pool\<close>

text \<open>
  The operations a client performs, and the memory they should behave like. A write is what the
  table code does: it reads the page and then sets its data.
\<close>

datatype pool_op = Read nat | Write nat bytes | Flush

fun exec_op :: "pool_op \<Rightarrow> buffer_pool \<Rightarrow> bytes option res \<times> buffer_pool" where
  "exec_op (Read p) bp = sbind (get_page p None) (\<lambda>d. sret (Some d)) bp"
| "exec_op (Write p d) bp = sbind (get_page p None) (\<lambda>_. sbind (smod (set_page_data p d)) (\<lambda>_. sret None)) bp"
| "exec_op Flush bp = sbind flush (\<lambda>_. sret None) bp"

fun run_pool :: "pool_op list \<Rightarrow> buffer_pool \<Rightarrow> bytes option res list \<times> buffer_pool" where
  "run_pool [] bp = ([], bp)"
| "run_pool (op # ops) bp =
     (let (r, bp1) = exec_op op bp; (rs, bp2) = run_pool ops bp1 in (r # rs, bp2))"

fun mem_op :: "pool_op \<Rightarrow> (nat \<Rightarrow> bytes option) \<Rightarrow> bytes option res \<times> (nat \<Rightarrow> bytes option)" where
  "mem_op (Read p) mem = (rbind (page_result (mem p)) (\<lambda>d. Inr (Some d)), mem)"
| "mem_op (Write p d) mem = (case page_result (mem p) of
     Inl e \<Rightarrow> (Inl e, mem) | Inr _ \<Rightarrow> (Inr None, mem(p := Some d)))"
| "mem_op Flush mem = (Inr None, mem)"

fun run_mem :: "pool_op list \<Rightarrow> (nat \<Rightarrow> bytes option) \<Rightarrow> bytes option res list \<times> (nat \<Rightarrow> bytes option)" where
  "run_mem [] mem = ([], mem)"
| "run_mem (op # ops) mem =
     (let (r, mem1) = mem_op op mem; (rs, mem2) = run_mem ops mem1 in (r # rs, mem2))"

fun op_ok :: "pool_op \<Rightarrow> bool" where
  "op_ok (Read p) = (0 < p)"
| "op_ok (Write p d) = (0 < p \<and> parses d)"
| "op_ok Flush = True"

lemma exec_op_refines:
  assumes inv: "pool_inv bp" and fr: "has_frame bp" and ok: "op_ok op"
  shows "\<exists>bp'. exec_op op bp = (fst (mem_op op (pool_view bp)), bp') \<and> pool_inv bp' \<and> has_frame bp' \<and>
    pool_view bp' = snd (mem_op op (pool_view bp))"
proof (cases op)
  case (Read p)
  obtain b where "get_page p None bp = (page_result (pool_view bp p), b)" "same_pages {p} bp b"
    using get_page_eq [OF inv _ fr, of p] ok Read by auto
  then show ?thesis using same_pagesD [of "{p}" bp b] fr
    by (auto simp: Read sbind_def split: sum.splits)
next
  case (Write p d)
  obtain b where b: "get_page p None bp = (page_result (pool_view bp p), b)" "same_pages {p} bp b"
      "\<forall>d. page_result (pool_view bp p) = Inr d \<longrightarrow> cached b p"
    using get_page_eq [OF inv _ fr, of p] ok Write by auto
  note s = same_pagesD [OF b(2)]
  show ?thesis
  proof (cases "page_result (pool_view bp p)")
    case (Inr d')
    then have c: "cached b p" using b(3) by simp
    from ok Write have d: "parses d" by simp
    note f = set_page_data_facts [OF s(1) c d]
    show ?thesis using b(1) Inr f s fr by (simp add: Write sbind_def)
  qed (use b(1) s fr in \<open>simp add: Write sbind_def\<close>)
next
  case Flush
  obtain b where "flush bp = (Inr (), b)" "same_pages {} bp b" using flush_facts [OF inv] by blast
  then show ?thesis using same_pagesD [of "{}" bp b] fr by (simp add: Flush sbind_def)
qed

lemma run_pool_refines:
  "pool_inv bp \<Longrightarrow> has_frame bp \<Longrightarrow> list_all op_ok ops \<Longrightarrow>
   \<exists>bp'. run_pool ops bp = (fst (run_mem ops (pool_view bp)), bp') \<and> pool_inv bp' \<and> has_frame bp' \<and>
     pool_view bp' = snd (run_mem ops (pool_view bp))"
proof (induction ops arbitrary: bp)
  case (Cons op ops)
  obtain b where b: "exec_op op bp = (fst (mem_op op (pool_view bp)), b)" "pool_inv b" "has_frame b"
      "pool_view b = snd (mem_op op (pool_view bp))"
    using exec_op_refines [OF Cons.prems(1,2)] Cons.prems(3) by auto
  from Cons.IH [OF b(2,3)] Cons.prems(3) b show ?case
    by (auto simp: Let_def split: prod.splits)
qed simp

lemma new_pool_inv:
  assumes "fm_inv fm" and "0 < capacity"
  shows "pool_inv (new_pool fm capacity)" and "has_frame (new_pool fm capacity)"
    and "pool_view (new_pool fm capacity) = disk fm"
  using assms by (auto simp: pool_inv_def new_pool_def has_frame_def pool_view_def)

section \<open>Claims\<close>

text \<open>
  C18. The buffer pool is transparent: any sequence of reads, writes and flushes gives exactly the
  answers of a plain memory holding the pages (whatever the capacity, however often pages are
  evicted and fetched again), and after a final flush the file holds that memory's contents.
\<close>

theorem buffer_pool_is_transparent:
  assumes "fm_inv fm" and "0 < capacity" and "list_all op_ok ops"
  shows "\<exists>bp bp'. run_pool ops (new_pool fm capacity) = (fst (run_mem ops (disk fm)), bp) \<and>
    flush bp = (Inr (), bp') \<and> disk (bp_fm bp') = snd (run_mem ops (disk fm))"
proof -
  note n = new_pool_inv [OF assms(1,2)]
  obtain bp where bp: "run_pool ops (new_pool fm capacity) = (fst (run_mem ops (disk fm)), bp)"
      "pool_inv bp" "pool_view bp = snd (run_mem ops (disk fm))"
    using run_pool_refines [OF n(1,2) assms(3)] n(3) by auto
  from flush_facts [OF bp(2)] bp show ?thesis by (auto simp: fun_eq_iff)
qed

text \<open>A file with data pages 1 to \<open>n\<close>.\<close>

definition data_fm :: "nat \<Rightarrow> file_manager" where
  "data_fm n = (fresh_fm n)\<lparr>fm_file := replicate 4096 0 @
     concat (map (\<lambda>p. empty_page_data p DATA) [1..<n + 1])\<rparr>"

lemma parses_empty: "p < 2 ^ 32 \<Longrightarrow> parses (empty_page_data p t)"
  by (simp add: parses_def parse_empty_page)

lemma take_drop_concat:
  assumes "i < length xs" and "\<forall>x \<in> set xs. length x = n"
  shows "take n (drop (i * n) (concat xs)) = xs ! i"
  using assms
proof (induction xs arbitrary: i)
  case (Cons x xs)
  show ?case
  proof (cases i)
    case (Suc j)
    with Cons.prems have "drop (i * n) (concat (x # xs)) = drop (j * n) (concat xs)" by simp
    with Cons.IH [of j] Cons.prems Suc show ?thesis by simp
  qed (use Cons.prems in simp)
qed simp

lemma data_fm_facts:
  assumes "n + 1 < 2 ^ 32"
  shows "fm_inv (data_fm n)" and "free_list (data_fm n) []"
    and "0 < p \<Longrightarrow> disk (data_fm n) p = (if p \<le> n then Some (empty_page_data p DATA) else None)"
    and "fm_page_count (data_fm n) = n + 1"
proof -
  let ?xs = "map (\<lambda>p. empty_page_data p DATA) [1..<n + 1]"
  have l: "length (concat ?xs) = n * 4096" by (simp add: length_concat comp_def sum_list_triv)
  show "fm_inv (data_fm n)" using assms l by (simp add: fm_inv_def data_fm_def fresh_fm_def)
  show "free_list (data_fm n) []" by (simp add: free_list_def data_fm_def fresh_fm_def)
  show "fm_page_count (data_fm n) = n + 1" by (simp add: data_fm_def fresh_fm_def)
  assume p: "0 < p"
  show "disk (data_fm n) p = (if p \<le> n then Some (empty_page_data p DATA) else None)"
  proof (cases "p \<le> n")
    case True
    have "drop (p * 4096) (replicate 4096 0 @ concat ?xs) = drop ((p - 1) * 4096) (concat ?xs)"
      using p by (simp add: algebra_simps)
    moreover have "take 4096 (drop ((p - 1) * 4096) (concat ?xs)) = ?xs ! (p - 1)"
      by (rule take_drop_concat) (use p True in auto)
    moreover have "?xs ! (p - 1) = empty_page_data p DATA"
      using p True by (subst nth_map) (auto simp del: upt_Suc)
    ultimately show ?thesis using True by (simp add: disk_def data_fm_def fresh_fm_def page_at_def)
  qed (simp add: disk_def data_fm_def fresh_fm_def)
qed

theorem buffer_pool_is_transparent_witness:
  "\<exists>bp bp'. run_pool [Write 1 (empty_page_data 8 INDEX), Read 2, Read 1] (new_pool (data_fm 2) 1)
       = ([Inr None, Inr (Some (empty_page_data 2 DATA)), Inr (Some (empty_page_data 8 INDEX))], bp) \<and>
     flush bp = (Inr (), bp') \<and> disk (bp_fm bp') 1 = Some (empty_page_data 8 INDEX)"
proof -
  note d = data_fm_facts [of 2]
  have pr: "page_result (Some (empty_page_data p t)) = Inr (empty_page_data p t)" if "p < 2 ^ 32" for p t
    using that by (simp add: page_result_def parse_empty_page)
  have "list_all op_ok [Write 1 (empty_page_data 8 INDEX), Read 2, Read 1]"
    by (simp add: parses_empty)
  from buffer_pool_is_transparent [OF d(1) _ this, of 1] d(3) [of 1] d(3) [of 2] pr show ?thesis
    by (auto simp: Let_def)
qed

text \<open>
  Replacement is least recently used and respects pins: a hit moves the page to the young end;
  a miss on a full cache evicts the least recently used page that is not pinned, and only that;
  the cache never outgrows its capacity and pinned pages stay cached.
\<close>

theorem lru_replacement:
  assumes "pool_inv bp" and "has_frame bp" and "0 < p" and "page_result (pool_view bp p) = Inr d"
    and "pool_size bp \<le> bp_capacity bp"
  shows "\<exists>bp'. get_page p None bp = (Inr d, bp') \<and> pool_size bp' \<le> bp_capacity bp' \<and>
    (\<forall>q \<in> bp_pinned bp. cached bp q \<longrightarrow> cached bp' q) \<and>
    cache_keys bp' =
      (if cached bp p \<or> pool_size bp < bp_capacity bp then removeAll p (cache_keys bp)
       else removeAll (the (victim bp)) (cache_keys bp)) @ [p]"
proof (cases "dict_get (bp_cache bp) p")
  case (Some page)
  then have c: "cached bp p" by (simp add: cached_def)
  have g: "get_page p None bp = (Inr d, touch p bp)"
    using get_page_eq [OF assms(1,3,2)] assms(4) Some by (auto simp: get_page_def)
  have k: "cache_keys (touch p bp) = removeAll p (cache_keys bp) @ [p]" by (rule cache_keys_touch [OF c])
  have "length (removeAll p (cache_keys bp)) < length (cache_keys bp)"
    using c by (intro length_removeAll_less) (simp add: cached_cache_keys)
  then have "length (cache_keys (touch p bp)) \<le> length (cache_keys bp)" using k by simp
  moreover have "bp_capacity (touch p bp) = bp_capacity bp"
    using same_pagesD(3) [OF touch_same [OF assms(1)]] .
  ultimately show ?thesis using g k c assms(5) by (simp add: pool_size_def cache_keys_def)
next
  case None
  then have nc: "\<not> cached bp p" by (simp add: cached_def)
  obtain r b where m: "make_room bp = (r, b)" by (cases "make_room bp")
  note mr = make_room_same [OF assms(1) m] and mk = make_room_keys [OF assms(1) m]
  have r: "r = Inr ()" using mr assms(2) by simp
  obtain page where pg: "fetched p (disk (bp_fm bp) p) = Inr page" "p_data page = d"
    using assms(4) None by (auto simp: pool_view_def page_result_def fetched_def split: option.splits)
  have g: "get_page p None bp = (Inr d, cache_put p page b)"
    using None pg fetch_eq [OF assms(1)] m r by (simp add: get_page_def sbind_def insert_page_def)
  have nb: "p \<notin> set (cache_keys b)"
    using mr nc by (auto simp: same_pages_def cached_cache_keys)
  have k: "cache_keys (cache_put p page b) = cache_keys b @ [p]" using nb by (simp add: cache_keys_put)
  have sz: "pool_size (cache_put p page b) \<le> bp_capacity (cache_put p page b)"
    using mr r k pool_size_keys [of b] pool_size_keys [of "cache_put p page b"]
    by (simp add: pool_size_def cache_put_def)
  have "cache_keys b = (if pool_size bp < bp_capacity bp then cache_keys bp
      else removeAll (the (victim bp)) (cache_keys bp))"
  proof (cases "pool_size bp < bp_capacity bp")
    case True
    then have "b = bp" using m by (simp add: make_room.simps [of bp] pool_size_def)
    with True show ?thesis by simp
  next
    case False
    then have full: "pool_size bp = bp_capacity bp" using assms(5) by simp
    obtain k where "cached bp k" "k \<notin> bp_pinned bp"
      using unpinned_exists [OF assms(1,2)] full by (auto simp: pool_size_def)
    then obtain v where "victim bp = Some v"
      by (cases "victim bp") (auto simp: victim_def find_None_iff cached_cache_keys)
    with make_room_full [OF assms(1) full this] m False show ?thesis by auto
  qed
  moreover have "removeAll p (cache_keys bp) = cache_keys bp" using nc by (simp add: cached_cache_keys)
  ultimately show ?thesis using g k sz nc mk by (auto simp: cached_cache_keys)
qed

theorem lru_replacement_witness:
  "\<exists>bp'. get_page 1 None (new_pool (data_fm 2) 4) = (Inr (empty_page_data 1 DATA), bp') \<and> cache_keys bp' = [1]"
proof -
  note d = data_fm_facts [of 2]
  note n = new_pool_inv [OF d(1), of 4]
  have "page_result (pool_view (new_pool (data_fm 2) 4) 1) = Inr (empty_page_data 1 DATA)"
    using n(3) d(3) [of 1] by (simp add: page_result_def parse_empty_page)
  from lru_replacement [OF n(1,2) _ this] show ?thesis
    by (auto simp: pool_size_def new_pool_def cache_keys_def)
qed

end
