(* ===== verification/Page_Store.thy ===== *)
theory Page_Store
  imports Buffer_Pool
begin

text \<open>
  The interface between the table code and the two kinds of pool. Python passes any object with
  \<open>get_page\<close>, \<open>set_page_data\<close>, \<open>pin\<close>, \<open>unpin\<close> and \<open>_fm\<close>; here these methods are the fields of
  \<open>pool_ops\<close>. The locale \<open>page_store\<close> states what the table code needs of them, and is interpreted
  below on the plain pool and in \<open>Shadow_Paging\<close> on the pool of a transaction.
\<close>

section \<open>Pool methods\<close>

record 's pool_ops =
  po_get :: "nat \<Rightarrow> Snapshot option \<Rightarrow> ('s, bytes) st"
  po_set :: "nat \<Rightarrow> bytes \<Rightarrow> ('s, unit) st"
  po_alloc :: "('s, nat) st"
  po_write :: "nat \<Rightarrow> bytes \<Rightarrow> ('s, unit) st"
  po_pin :: "nat \<Rightarrow> (nat \<times> LockMode) option \<Rightarrow> ('s, unit) st"
  po_unpin :: "nat \<Rightarrow> nat option \<Rightarrow> ('s, unit) st"
  po_acquire :: "nat \<Rightarrow> nat \<Rightarrow> LockMode \<Rightarrow> ('s, bool) st"
  po_count :: "'s \<Rightarrow> nat"

text \<open>
  \<open>Transaction\<close> of \<open>transaction/shadow_paging.py\<close> and the state that a statement works on: the
  pool, the transaction whose shadow pages are in use, and the lock manager of the transaction
  manager, which is the \<open>lock_mgr\<close> of an execution context.
\<close>

datatype txn_state = Active | Committed | Aborted

record Transaction =
  txn_id :: nat
  txn_state :: txn_state
  shadow_pages :: "(nat, nat) dict"
  snapshot_root :: nat
  new_root :: nat

record session =
  ss_pool :: buffer_pool
  ss_txn :: Transaction
  ss_locks :: lock_manager

abbreviation on_pool :: "(buffer_pool, 'a) st \<Rightarrow> (session, 'a) st" where
  "on_pool \<equiv> szoom ss_pool (\<lambda>bp s. s\<lparr>ss_pool := bp\<rparr>)"

abbreviation on_locks :: "(lock_manager, 'a) st \<Rightarrow> (session, 'a) st" where
  "on_locks \<equiv> szoom ss_locks (\<lambda>lm s. s\<lparr>ss_locks := lm\<rparr>)"

definition main_ops :: "session pool_ops" where
  "main_ops = \<lparr>
     po_get = (\<lambda>p snap. on_pool (get_page p snap)),
     po_set = (\<lambda>p d. on_pool (smod (set_page_data p d))),
     po_alloc = on_pool (on_fm alloc_page),
     po_write = (\<lambda>p d. on_pool (on_fm (write_page p d))),
     po_pin = (\<lambda>p lock. on_pool (pin p lock)),
     po_unpin = (\<lambda>p txn. on_pool (smod (unpin p txn))),
     po_acquire = (\<lambda>txn p mode. on_locks (acquire txn p mode)),
     po_count = (\<lambda>s. fm_page_count (bp_fm (ss_pool s)))\<rparr>"

section \<open>The interface\<close>

text \<open>
  \<open>inv n\<close>: the store is consistent and \<open>n\<close> more pages can be allocated before the 32-bit page
  count runs out. \<open>live\<close> pages are those handed out and not freed; \<open>ready\<close> pages have just been
  read and may be overwritten; \<open>fresh\<close> pages have been allocated and not been touched since.
\<close>

locale page_store =
  fixes inv :: "nat \<Rightarrow> 's \<Rightarrow> bool"
    and live :: "'s \<Rightarrow> nat \<Rightarrow> bool"
    and view :: "'s \<Rightarrow> nat \<Rightarrow> bytes option"
    and ready :: "'s \<Rightarrow> nat \<Rightarrow> bool"
    and fresh :: "'s \<Rightarrow> nat \<Rightarrow> bool"
    and ops :: "'s pool_ops"
  assumes inv_mono: "inv (Suc n) s \<Longrightarrow> inv n s"
    and live_page: "inv n s \<Longrightarrow> live s p \<Longrightarrow> 0 < p \<and> p < po_count ops s"
    and get_law: "inv n s \<Longrightarrow> live s p \<Longrightarrow> view s p = Some d \<Longrightarrow> parses d \<Longrightarrow>
      \<exists>s'. po_get ops p None s = (Inr d, s') \<and> inv n s' \<and> live s' = live s \<and>
        (\<forall>q. live s q \<longrightarrow> view s' q = view s q) \<and> ready s' p \<and>
        (\<forall>q. fresh s q \<longrightarrow> q \<noteq> p \<longrightarrow> fresh s' q)"
    and set_law: "inv (Suc n) s \<Longrightarrow> live s p \<Longrightarrow> ready s p \<Longrightarrow> parses d \<Longrightarrow>
      \<exists>s'. po_set ops p d s = (Inr (), s') \<and> inv n s' \<and> live s' = live s \<and>
        (\<forall>q. live s q \<longrightarrow> view s' q = (if q = p then Some d else view s q)) \<and>
        (\<forall>q. fresh s q \<longrightarrow> q \<noteq> p \<longrightarrow> fresh s' q)"
    and alloc_law: "inv (Suc n) s \<Longrightarrow>
      \<exists>q s'. po_alloc ops s = (Inr q, s') \<and> \<not> live s q \<and> q < 2 ^ 32 \<and> inv n s' \<and>
        live s' = (live s)(q := True) \<and> (\<forall>r. live s r \<longrightarrow> view s' r = view s r) \<and> fresh s' q"
    and write_law: "inv n s \<Longrightarrow> live s q \<Longrightarrow> fresh s q \<Longrightarrow> parses d \<Longrightarrow>
      \<exists>s'. po_write ops q d s = (Inr (), s') \<and> inv n s' \<and> live s' = live s \<and>
        (\<forall>r. live s r \<longrightarrow> view s' r = (if r = q then Some d else view s r))"

text \<open>Reads and writes through the methods of a pool, in the order of the table code.\<close>

fun store_op :: "'s pool_ops \<Rightarrow> pool_op \<Rightarrow> 's \<Rightarrow> bytes option res \<times> 's" where
  "store_op ops (Read p) s = sbind (po_get ops p None) (\<lambda>d. sret (Some d)) s"
| "store_op ops (Write p d) s = sbind (po_get ops p None) (\<lambda>_. sbind (po_set ops p d) (\<lambda>_. sret None)) s"
| "store_op ops Flush s = (Inr None, s)"

fun store_run :: "'s pool_ops \<Rightarrow> pool_op list \<Rightarrow> 's \<Rightarrow> bytes option res list \<times> 's" where
  "store_run ops [] s = ([], s)"
| "store_run ops (x # xs) s =
     (let (r, s1) = store_op ops x s; (rs, s2) = store_run ops xs s1 in (r # rs, s2))"

fun touches :: "pool_op \<Rightarrow> nat \<Rightarrow> bool" where
  "touches (Read p) q = (p = q)"
| "touches (Write p d) q = (p = q)"
| "touches Flush q = False"

fun writes :: "pool_op \<Rightarrow> bytes \<Rightarrow> bool" where
  "writes (Write p d) e = (d = e)"
| "writes op e = False"

context page_store
begin

lemma inv_weaken: "m \<le> n \<Longrightarrow> inv n s \<Longrightarrow> inv m s"
  by (induction n) (auto simp: le_Suc_eq dest: inv_mono)

text \<open>On live pages a store behaves as a memory: the last value written is the value read.\<close>

definition good :: "'s \<Rightarrow> bool" where
  "good s \<longleftrightarrow> (\<forall>p. live s p \<longrightarrow> (\<exists>d. view s p = Some d \<and> parses d))"

lemma store_op_refines:
  assumes inv: "inv (Suc n) s" and g: "good s" and l: "\<forall>q. touches x q \<longrightarrow> live s q"
    and w: "\<forall>d. writes x d \<longrightarrow> parses d" and m: "\<forall>q. live s q \<longrightarrow> mem q = view s q"
  shows "\<exists>s'. store_op ops x s = (fst (mem_op x mem), s') \<and> inv n s' \<and> good s' \<and> live s' = live s \<and>
    (\<forall>q. live s q \<longrightarrow> snd (mem_op x mem) q = view s' q)"
proof -
  have pr: "page_result (Some d) = Inr d" if "parses d" for d
    using that by (auto simp: page_result_def parses_def)
  have get: "\<exists>d s'. view s p = Some d \<and> page_result (mem p) = Inr d \<and> po_get ops p None s = (Inr d, s') \<and>
      inv (Suc n) s' \<and> live s' = live s \<and> (\<forall>q. live s q \<longrightarrow> view s' q = view s q) \<and> ready s' p"
    if p: "live s p" for p
  proof -
    obtain d where d: "view s p = Some d" "parses d" using g p by (auto simp: good_def)
    from get_law [OF inv p d] pr [OF d(2)] m p d(1) show ?thesis by auto
  qed
  show ?thesis
  proof (cases x)
    case (Read p)
    then have "live s p" using l by simp
    from get [OF this] obtain d s' where "page_result (mem p) = Inr d" "po_get ops p None s = (Inr d, s')"
      "inv (Suc n) s'" "live s' = live s" "\<forall>q. live s q \<longrightarrow> view s' q = view s q" by blast
    then show ?thesis using g m Read inv_mono by (auto simp: sbind_def good_def)
  next
    case (Write p d)
    then have p: "live s p" and d: "parses d" using l w by auto
    from get [OF p] obtain e s1 where s1: "page_result (mem p) = Inr e" "po_get ops p None s = (Inr e, s1)"
      "inv (Suc n) s1" "live s1 = live s" "\<forall>q. live s q \<longrightarrow> view s1 q = view s q" "ready s1 p" by blast
    have "live s1 p" using s1(4) p by simp
    from set_law [OF s1(3) this s1(6) d] obtain s2 where s2: "po_set ops p d s1 = (Inr (), s2)" "inv n s2"
      "live s2 = live s1" "\<forall>q. live s1 q \<longrightarrow> view s2 q = (if q = p then Some d else view s1 q)" by blast
    have "good s2" using g s1(4,5) s2(3,4) d by (auto simp: good_def)
    with s1 s2 m Write show ?thesis by (auto simp: sbind_def)
  qed (use g m inv inv_mono in auto)
qed

lemma store_run_refines:
  "inv (length xs + n) s \<Longrightarrow> good s \<Longrightarrow> \<forall>x \<in> set xs. \<forall>q. touches x q \<longrightarrow> live s q \<Longrightarrow>
   \<forall>x \<in> set xs. \<forall>d. writes x d \<longrightarrow> parses d \<Longrightarrow> \<forall>q. live s q \<longrightarrow> mem q = view s q \<Longrightarrow>
   \<exists>s'. store_run ops xs s = (fst (run_mem xs mem), s') \<and> inv n s' \<and> good s' \<and> live s' = live s \<and>
    (\<forall>q. live s q \<longrightarrow> snd (run_mem xs mem) q = view s' q)"
proof (induction xs arbitrary: s mem)
  case (Cons x xs)
  have "inv (Suc (length xs + n)) s" using Cons.prems(1) by simp
  from store_op_refines [OF this Cons.prems(2) _ _ Cons.prems(5), of x] Cons.prems(3,4)
  obtain s1 where s1: "store_op ops x s = (fst (mem_op x mem), s1)" "inv (length xs + n) s1" "good s1"
    "live s1 = live s" "\<forall>q. live s q \<longrightarrow> snd (mem_op x mem) q = view s1 q" by auto
  from Cons.IH [OF s1(2,3), of "snd (mem_op x mem)"] Cons.prems(3,4) s1(4,5)
  obtain s2 where "store_run ops xs s1 = (fst (run_mem xs (snd (mem_op x mem))), s2)" "inv n s2" "good s2"
    "live s2 = live s1" "\<forall>q. live s1 q \<longrightarrow> snd (run_mem xs (snd (mem_op x mem))) q = view s2 q" by auto
  with s1 show ?case by (auto simp: Let_def split: prod.splits)
qed auto

end

section \<open>The plain pool\<close>

definition is_free :: "file_manager \<Rightarrow> nat \<Rightarrow> bool" where
  "is_free fm p \<longleftrightarrow> (\<exists>xs. free_list fm xs \<and> p \<in> set xs)"

lemma free_chain_unique: "free_chain fm p xs \<Longrightarrow> free_chain fm p ys \<Longrightarrow> xs = ys"
proof (induction xs arbitrary: p ys)
  case Nil
  then show ?case by (cases ys) auto
next
  case (Cons x xs)
  then show ?case by (cases ys) auto
qed

lemma is_free_eq: "free_list fm xs \<Longrightarrow> is_free fm p \<longleftrightarrow> p \<in> set xs"
  by (auto simp: is_free_def free_list_def dest: free_chain_unique)

text \<open>
  No page of the free list may be cached: \<open>alloc_page\<close> would hand out a page whose old contents
  the pool still shows, and an eviction could overwrite the links of the free list.
\<close>

definition store_ok :: "nat \<Rightarrow> buffer_pool \<Rightarrow> bool" where
  "store_ok n bp \<longleftrightarrow> pool_inv bp \<and> has_frame bp \<and> fm_page_count (bp_fm bp) + n < 2 ^ 32 \<and>
     (\<exists>xs. free_list (bp_fm bp) xs \<and> (\<forall>x \<in> set xs. \<not> cached bp x))"

definition pool_live :: "buffer_pool \<Rightarrow> nat \<Rightarrow> bool" where
  "pool_live bp p \<longleftrightarrow> 0 < p \<and> p < fm_page_count (bp_fm bp) \<and> \<not> is_free (bp_fm bp) p"

lemma free_list_same_pages:
  assumes "same_pages K bp bp'" and "free_list (bp_fm bp) xs" and "\<forall>x \<in> set xs. \<not> cached bp x"
    and "K \<inter> set xs = {}"
  shows "free_list (bp_fm bp') xs" and "\<forall>x \<in> set xs. \<not> cached bp' x"
proof -
  have "disk (bp_fm bp') x = disk (bp_fm bp) x" if "x \<in> set xs" for x
    using assms that by (auto simp: same_pages_def)
  with assms(2) same_pagesD(8) [OF assms(1)] show "free_list (bp_fm bp') xs"
    by (auto simp: free_list_def intro: free_chain_cong)
  show "\<forall>x \<in> set xs. \<not> cached bp' x" using assms by (auto simp: same_pages_def)
qed

lemma store_ok_same_pages:
  assumes ok: "store_ok n bp" and s: "same_pages K bp bp'" and K: "\<forall>k \<in> K. pool_live bp k"
  shows "store_ok n bp'" and "pool_live bp' = pool_live bp"
proof -
  obtain xs where xs: "free_list (bp_fm bp) xs" "\<forall>x \<in> set xs. \<not> cached bp x"
    using ok by (auto simp: store_ok_def)
  have "K \<inter> set xs = {}" using K is_free_eq [OF xs(1)] by (auto simp: pool_live_def)
  note f = free_list_same_pages [OF s xs this]
  show "store_ok n bp'" using ok f same_pagesD [OF s] by (auto simp: store_ok_def)
  show "pool_live bp' = pool_live bp"
    using is_free_eq [OF xs(1)] is_free_eq [OF f(1)] same_pagesD(7) [OF s]
    by (simp add: pool_live_def fun_eq_iff)
qed

lemma get_page_live:
  assumes ok: "store_ok n bp" and l: "pool_live bp p" and v: "pool_view bp p = Some d" and d: "parses d"
  shows "\<exists>bp'. get_page p None bp = (Inr d, bp') \<and> store_ok n bp' \<and> pool_live bp' = pool_live bp \<and>
    same_pages {p} bp bp' \<and> cached bp' p"
proof -
  have "page_result (pool_view bp p) = Inr d" using v d by (auto simp: page_result_def parses_def)
  with get_page_eq [of bp p] ok l obtain bp' where
    "get_page p None bp = (Inr d, bp')" "same_pages {p} bp bp'" "cached bp' p"
    by (auto simp: store_ok_def pool_live_def)
  with store_ok_same_pages [OF ok this(2)] l show ?thesis by auto
qed

lemma set_page_live:
  assumes ok: "store_ok n bp" and c: "cached bp p" and d: "parses d"
  shows "store_ok n (set_page_data p d bp)" and "pool_live (set_page_data p d bp) = pool_live bp"
  using ok set_page_data_facts [OF _ c d] by (auto simp: store_ok_def pool_live_def)

text \<open>Allocation and direct writes go past the cache.\<close>

lemma pool_inv_fm:
  assumes "pool_inv bp" and "fm_inv fm" and "fm_page_count (bp_fm bp) \<le> fm_page_count fm"
    and "\<And>p. cached bp p \<Longrightarrow> disk fm p = disk (bp_fm bp) p"
  shows "pool_inv (bp\<lparr>bp_fm := fm\<rparr>)"
  using assms by (force simp: pool_inv_def page_ok_def cached_def)

lemma alloc_live:
  assumes ok: "store_ok (Suc n) bp"
  shows "\<exists>q fm. on_fm alloc_page bp = (Inr q, bp\<lparr>bp_fm := fm\<rparr>) \<and> \<not> pool_live bp q \<and> 0 < q \<and>
    q < fm_page_count fm \<and> \<not> cached bp q \<and> store_ok n (bp\<lparr>bp_fm := fm\<rparr>) \<and>
    pool_live (bp\<lparr>bp_fm := fm\<rparr>) = (pool_live bp)(q := True) \<and>
    (\<forall>p. p \<noteq> 0 \<longrightarrow> p \<noteq> q \<longrightarrow> pool_view (bp\<lparr>bp_fm := fm\<rparr>) p = pool_view bp p)"
proof -
  let ?fm = "bp_fm bp"
  have inv: "pool_inv bp" "has_frame bp" and sz: "fm_page_count ?fm + Suc n < 2 ^ 32"
    using ok by (auto simp: store_ok_def)
  note fmi = pool_invD(1) [OF inv(1)]
  have c0: "\<not> cached bp 0" using pool_invD(3) [OF inv(1), of 0]
    by (cases "dict_get (bp_cache bp) 0") (auto simp: cached_def page_ok_def)
  obtain xs where xs: "free_list ?fm xs" "\<forall>x \<in> set xs. \<not> cached bp x"
    using ok by (auto simp: store_ok_def)
  have cl: "k < fm_page_count ?fm" if "cached bp k" for k
    using pool_invD(3) [OF inv(1)] that by (auto simp: cached_def page_ok_def)
  have hf: "has_frame (bp\<lparr>bp_fm := fm\<rparr>)" for fm using inv(2) by (simp add: has_frame_def)
  define fm where "fm = snd (alloc_page ?fm)"
  show ?thesis
  proof (cases xs)
    case Nil
    let ?q = "fm_page_count ?fm"
    note a = alloc_page_grow [OF fmi xs(1) [unfolded Nil], folded fm_def]
    have q: "0 < ?q" using fmi by (simp add: fm_inv_def)
    have e: "on_fm alloc_page bp = (Inr ?q, bp\<lparr>bp_fm := fm\<rparr>)"
      using a(1) sz by (cases "alloc_page ?fm") (simp add: szoom_def fm_def)
    have nc: "\<not> cached bp ?q" using cl by blast
    have "pool_inv (bp\<lparr>bp_fm := fm\<rparr>)"
    proof (rule pool_inv_fm [OF inv(1)])
      fix p assume "cached bp p"
      then have "p \<noteq> 0" "p \<noteq> ?q" using c0 nc by metis+
      then show "disk fm p = disk ?fm p" using a(4) [of p] sz by simp
    qed (use a sz in auto)
    then have st: "store_ok n (bp\<lparr>bp_fm := fm\<rparr>)"
      using hf a(3,5) sz by (auto simp: store_ok_def)
    have lv: "pool_live (bp\<lparr>bp_fm := fm\<rparr>) = (pool_live bp)(?q := True)"
      using is_free_eq [OF a(3)] is_free_eq [OF xs(1)] Nil sz a(5) q
      by (auto simp: pool_live_def fun_eq_iff)
    have "pool_view (bp\<lparr>bp_fm := fm\<rparr>) p = pool_view bp p" if "p \<noteq> 0" "p \<noteq> ?q" for p
      using a(4) [of p] sz that by (simp add: pool_view_def split: option.splits)
    with e st lv nc q a(5) sz show ?thesis by (auto simp: pool_live_def)
  next
    case (Cons x ys)
    note a = alloc_page_reuse [OF fmi xs(1) [unfolded Cons], folded fm_def]
    have x: "0 < x" "x < fm_page_count ?fm" "x \<notin> set ys"
      using xs(1) Cons by (auto simp: free_list_def disk_def split: if_splits)
    have e: "on_fm alloc_page bp = (Inr x, bp\<lparr>bp_fm := fm\<rparr>)"
      using a(1) by (cases "alloc_page ?fm") (simp add: szoom_def fm_def)
    have nc: "\<not> cached bp x" using xs Cons by simp
    have "pool_inv (bp\<lparr>bp_fm := fm\<rparr>)"
    proof (rule pool_inv_fm [OF inv(1)])
      fix p assume "cached bp p"
      then have "p \<noteq> 0" using c0 by metis
      then show "disk fm p = disk ?fm p" using a(4) [of p] by simp
    qed (use a in auto)
    then have st: "store_ok n (bp\<lparr>bp_fm := fm\<rparr>)"
      using hf a(3,5) sz xs(2) Cons by (auto simp: store_ok_def cached_def)
    have lv: "pool_live (bp\<lparr>bp_fm := fm\<rparr>) = (pool_live bp)(x := True)"
      using is_free_eq [OF a(3)] is_free_eq [OF xs(1)] Cons a(5) x
      by (auto simp: pool_live_def fun_eq_iff)
    have "pool_view (bp\<lparr>bp_fm := fm\<rparr>) p = pool_view bp p" if "p \<noteq> 0" for p
      using a(4) [OF that] by (simp add: pool_view_def split: option.splits)
    moreover have "\<not> pool_live bp x" using is_free_eq [OF xs(1)] Cons by (simp add: pool_live_def)
    ultimately show ?thesis using e st lv nc x a(5) by auto
  qed
qed

lemma write_live:
  assumes ok: "store_ok n bp" and l: "pool_live bp q" and c: "\<not> cached bp q" and d: "parses d"
  shows "\<exists>fm. on_fm (write_page q d) bp = (Inr (), bp\<lparr>bp_fm := fm\<rparr>) \<and> store_ok n (bp\<lparr>bp_fm := fm\<rparr>) \<and>
    pool_live (bp\<lparr>bp_fm := fm\<rparr>) = pool_live bp \<and>
    pool_view (bp\<lparr>bp_fm := fm\<rparr>) = (pool_view bp)(q := Some d) \<and> fm_page_count fm = fm_page_count (bp_fm bp)
    \<and> disk fm q = Some d"
proof -
  let ?fm = "bp_fm bp"
  have inv: "pool_inv bp" "has_frame bp" using ok by (auto simp: store_ok_def)
  note fmi = pool_invD(1) [OF inv(1)]
  obtain xs where xs: "free_list ?fm xs" "\<forall>x \<in> set xs. \<not> cached bp x"
    using ok by (auto simp: store_ok_def)
  have q: "q < fm_page_count ?fm" "q \<notin> set xs" "length d = 4096"
    using l is_free_eq [OF xs(1)] d by (auto simp: pool_live_def parses_def)
  define fm where "fm = snd (write_page q d ?fm)"
  note w = write_page_facts [OF fmi q(1,3), folded fm_def]
  note fl = same_fields [OF w(4)]
  have e: "on_fm (write_page q d) bp = (Inr (), bp\<lparr>bp_fm := fm\<rparr>)"
    using w(1) by (cases "write_page q d ?fm") (simp add: szoom_def fm_def)
  have "pool_inv (bp\<lparr>bp_fm := fm\<rparr>)"
    using w fl c by (intro pool_inv_fm [OF inv(1)]) (auto simp: w(3))
  moreover have x: "free_list fm xs"
    using xs(1) fl q(2) w(3) by (auto simp: free_list_def intro: free_chain_cong)
  moreover have "has_frame (bp\<lparr>bp_fm := fm\<rparr>)" using inv(2) by (simp add: has_frame_def)
  ultimately have st: "store_ok n (bp\<lparr>bp_fm := fm\<rparr>)"
    using ok xs(2) fl by (auto simp: store_ok_def cached_def)
  have lv: "pool_live (bp\<lparr>bp_fm := fm\<rparr>) = pool_live bp"
    using is_free_eq [OF x] is_free_eq [OF xs(1)] fl by (simp add: pool_live_def fun_eq_iff)
  have "pool_view (bp\<lparr>bp_fm := fm\<rparr>) = (pool_view bp)(q := Some d)"
    using c w(3) by (auto simp: pool_view_def fun_eq_iff cached_def split: option.splits)
  with e st lv fl w(3) show ?thesis by auto
qed

interpretation main: page_store
  "\<lambda>n (s :: session). store_ok n (ss_pool s)" "\<lambda>s. pool_live (ss_pool s)" "\<lambda>s. pool_view (ss_pool s)"
  "\<lambda>s. cached (ss_pool s)" "\<lambda>s q. \<not> cached (ss_pool s) q \<and> pool_live (ss_pool s) q" main_ops
proof
  fix n and s :: session assume "store_ok (Suc n) (ss_pool s)"
  then show "store_ok n (ss_pool s)" by (auto simp: store_ok_def)
next
  fix n p and s :: session assume "store_ok n (ss_pool s)" "pool_live (ss_pool s) p"
  then show "0 < p \<and> p < po_count main_ops s" by (simp add: pool_live_def main_ops_def)
next
  fix n p d and s :: session
  assume a: "store_ok n (ss_pool s)" "pool_live (ss_pool s) p" "pool_view (ss_pool s) p = Some d" "parses d"
  from get_page_live [OF this] obtain bp' where b: "get_page p None (ss_pool s) = (Inr d, bp')"
    "store_ok n bp'" "pool_live bp' = pool_live (ss_pool s)" "same_pages {p} (ss_pool s) bp'" "cached bp' p"
    by blast
  then show "\<exists>s'. po_get main_ops p None s = (Inr d, s') \<and> store_ok n (ss_pool s') \<and>
      pool_live (ss_pool s') = pool_live (ss_pool s) \<and>
      (\<forall>q. pool_live (ss_pool s) q \<longrightarrow> pool_view (ss_pool s') q = pool_view (ss_pool s) q) \<and>
      cached (ss_pool s') p \<and>
      (\<forall>q. \<not> cached (ss_pool s) q \<and> pool_live (ss_pool s) q \<longrightarrow> q \<noteq> p \<longrightarrow>
         \<not> cached (ss_pool s') q \<and> pool_live (ss_pool s') q)"
    by (intro exI [of _ "s\<lparr>ss_pool := bp'\<rparr>"]) (auto simp: main_ops_def szoom_def same_pages_def)
next
  fix n p d and s :: session
  assume a: "store_ok (Suc n) (ss_pool s)" "pool_live (ss_pool s) p" "cached (ss_pool s) p" "parses d"
  then have "pool_inv (ss_pool s)" by (simp add: store_ok_def)
  note f = set_page_data_facts [OF this a(3,4)] and g = set_page_live [OF a(1,3,4)]
  have "store_ok n (set_page_data p d (ss_pool s))" using g(1) by (auto simp: store_ok_def)
  with f g show "\<exists>s'. po_set main_ops p d s = (Inr (), s') \<and> store_ok n (ss_pool s') \<and>
      pool_live (ss_pool s') = pool_live (ss_pool s) \<and>
      (\<forall>q. pool_live (ss_pool s) q \<longrightarrow>
         pool_view (ss_pool s') q = (if q = p then Some d else pool_view (ss_pool s) q)) \<and>
      (\<forall>q. \<not> cached (ss_pool s) q \<and> pool_live (ss_pool s) q \<longrightarrow> q \<noteq> p \<longrightarrow>
         \<not> cached (ss_pool s') q \<and> pool_live (ss_pool s') q)"
    by (simp add: main_ops_def szoom_def)
next
  fix n and s :: session
  assume a: "store_ok (Suc n) (ss_pool s)"
  from alloc_live [OF a] obtain q fm where b: "on_fm alloc_page (ss_pool s) = (Inr q, (ss_pool s)\<lparr>bp_fm := fm\<rparr>)"
    "\<not> pool_live (ss_pool s) q" "0 < q" "q < fm_page_count fm" "\<not> cached (ss_pool s) q"
    "store_ok n ((ss_pool s)\<lparr>bp_fm := fm\<rparr>)"
    "pool_live ((ss_pool s)\<lparr>bp_fm := fm\<rparr>) = (pool_live (ss_pool s))(q := True)"
    "\<forall>p. p \<noteq> 0 \<longrightarrow> p \<noteq> q \<longrightarrow> pool_view ((ss_pool s)\<lparr>bp_fm := fm\<rparr>) p = pool_view (ss_pool s) p"
    by blast
  have "\<forall>r. pool_live (ss_pool s) r \<longrightarrow> r \<noteq> 0 \<and> r \<noteq> q" using b(2) by (auto simp: pool_live_def)
  moreover have "q < 2 ^ 32" using b(4,6) by (simp add: store_ok_def)
  moreover have "\<not> cached ((ss_pool s)\<lparr>bp_fm := fm\<rparr>) q" using b(5) by (simp add: cached_def)
  ultimately show "\<exists>q s'. po_alloc main_ops s = (Inr q, s') \<and> \<not> pool_live (ss_pool s) q \<and> q < 2 ^ 32 \<and>
      store_ok n (ss_pool s') \<and> pool_live (ss_pool s') = (pool_live (ss_pool s))(q := True) \<and>
      (\<forall>r. pool_live (ss_pool s) r \<longrightarrow> pool_view (ss_pool s') r = pool_view (ss_pool s) r) \<and>
      (\<not> cached (ss_pool s') q \<and> pool_live (ss_pool s') q)"
    using b by (intro exI [of _ q] exI [of _ "s\<lparr>ss_pool := (ss_pool s)\<lparr>bp_fm := fm\<rparr>\<rparr>"])
      (simp add: main_ops_def szoom_def [of ss_pool])
next
  fix n q d and s :: session
  assume a: "store_ok n (ss_pool s)" "pool_live (ss_pool s) q"
    "\<not> cached (ss_pool s) q \<and> pool_live (ss_pool s) q" "parses d"
  from write_live [OF a(1,2) conjunct1 [OF a(3)] a(4)] obtain fm where
    "on_fm (write_page q d) (ss_pool s) = (Inr (), (ss_pool s)\<lparr>bp_fm := fm\<rparr>)"
    "store_ok n ((ss_pool s)\<lparr>bp_fm := fm\<rparr>)" "pool_live ((ss_pool s)\<lparr>bp_fm := fm\<rparr>) = pool_live (ss_pool s)"
    "pool_view ((ss_pool s)\<lparr>bp_fm := fm\<rparr>) = (pool_view (ss_pool s))(q := Some d)"
    by blast
  then show "\<exists>s'. po_write main_ops q d s = (Inr (), s') \<and> store_ok n (ss_pool s') \<and>
      pool_live (ss_pool s') = pool_live (ss_pool s) \<and>
      (\<forall>r. pool_live (ss_pool s) r \<longrightarrow>
         pool_view (ss_pool s') r = (if r = q then Some d else pool_view (ss_pool s) r))"
    by (intro exI [of _ "s\<lparr>ss_pool := (ss_pool s)\<lparr>bp_fm := fm\<rparr>\<rparr>"])
      (simp add: main_ops_def szoom_def [of ss_pool])
qed

end
