(* ===== verification/Shadow_Paging.thy ===== *)
theory Shadow_Paging
  imports Page_Store
begin

text \<open>
  \<open>tinydb/transaction/shadow_paging.py\<close>: copy on write. The first write to a page copies it to a
  newly allocated shadow page; reads and writes of the transaction go to the shadow. The pool
  object is \<open>shadow_ops\<close>, over the same \<open>session\<close> state as \<open>main_ops\<close>; \<open>shadow_view\<close> is what the
  transaction sees and \<open>pool_view\<close> what everybody else sees.
\<close>

section \<open>Operations\<close>

definition shadow_of :: "session \<Rightarrow> nat \<Rightarrow> nat option" where
  "shadow_of s p = dict_get (shadow_pages (ss_txn s)) p"

definition shadow_get :: "nat \<Rightarrow> Snapshot option \<Rightarrow> (session, bytes) st" where
  "shadow_get p snapshot s = (case shadow_of s p of
     Some q \<Rightarrow> on_pool (get_page q None) s
   | None \<Rightarrow> on_pool (get_page p snapshot) s)"

definition add_shadow :: "nat \<Rightarrow> nat \<Rightarrow> session \<Rightarrow> session" where
  "add_shadow p q s = s\<lparr>ss_txn := (ss_txn s)\<lparr>shadow_pages := dict_set p q (shadow_pages (ss_txn s))\<rparr>\<rparr>"

definition ensure_shadow :: "nat \<Rightarrow> (session, nat) st" where
  "ensure_shadow p s = (case shadow_of s p of
     Some q \<Rightarrow> (Inr q, s)
   | None \<Rightarrow>
       sbind (on_pool (on_fm alloc_page)) (\<lambda>q.
       sbind (on_pool (get_page p None)) (\<lambda>orig_data.
       sbind (on_pool (on_fm (write_page q orig_data))) (\<lambda>_.
       sbind (on_pool (smod (cache_put q
          \<lparr>p_page_id = q, p_page_type = None, p_data = orig_data, p_dirty = False\<rparr>))) (\<lambda>_.
       sbind (smod (add_shadow p q)) (\<lambda>_. sret q))))) s)"

definition shadow_set :: "nat \<Rightarrow> bytes \<Rightarrow> (session, unit) st" where
  "shadow_set p d =
     sbind (ensure_shadow p) (\<lambda>q. on_pool (smod (\<lambda>bp. mark_dirty q (set_page_data q d bp))))"

definition shadow_mark_dirty :: "nat \<Rightarrow> (session, unit) st" where
  "shadow_mark_dirty p s =
     on_pool (smod (mark_dirty (case shadow_of s p of Some q \<Rightarrow> q | None \<Rightarrow> p))) s"

definition shadow_flush :: "(session, unit) st" where
  "shadow_flush = on_pool flush"

definition shadow_rollback :: "(session, unit) st" where
  "shadow_rollback s =
     sbind (smap (\<lambda>(orig, q). on_pool (on_fm (free_page q))) (shadow_pages (ss_txn s)))
       (\<lambda>_. smod (\<lambda>s. s\<lparr>ss_txn := (ss_txn s)\<lparr>shadow_pages := [], txn_state := Aborted\<rparr>\<rparr>)) s"

definition shadow_commit :: "(session, unit) st" where
  "shadow_commit =
     sbind shadow_flush (\<lambda>_.
     sbind (\<lambda>s. on_pool (on_fm (smod (\<lambda>fm. fm\<lparr>fm_root_page_id := new_root (ss_txn s)\<rparr>))) s) (\<lambda>_.
     sbind (on_pool (on_fm write_header)) (\<lambda>_.
       smod (\<lambda>s. s\<lparr>ss_txn := (ss_txn s)\<lparr>shadow_pages := [], txn_state := Committed\<rparr>\<rparr>))))"

definition shadow_ops :: "session pool_ops" where
  "shadow_ops = \<lparr>
     po_get = shadow_get,
     po_set = shadow_set,
     po_alloc = on_pool (on_fm alloc_page),
     po_write = (\<lambda>p d. on_pool (on_fm (write_page p d))),
     po_pin = (\<lambda>p lock. on_pool (pin p lock)),
     po_unpin = (\<lambda>p txn. on_pool (smod (unpin p txn))),
     po_acquire = (\<lambda>txn p mode. on_locks (acquire txn p mode)),
     po_count = (\<lambda>s. fm_page_count (bp_fm (ss_pool s)))\<rparr>"

section \<open>View and invariant\<close>

definition resolve :: "session \<Rightarrow> nat \<Rightarrow> nat" where
  "resolve s p = (case shadow_of s p of Some q \<Rightarrow> q | None \<Rightarrow> p)"

definition shadow_view :: "session \<Rightarrow> nat \<Rightarrow> bytes option" where
  "shadow_view s p = pool_view (ss_pool s) (resolve s p)"

definition is_shadow :: "session \<Rightarrow> nat \<Rightarrow> bool" where
  "is_shadow s q \<longleftrightarrow> (\<exists>p. shadow_of s p = Some q)"

text \<open>
  The shadow map is injective; originals and shadows are pages handed out by the allocator, and a
  shadow always holds a page that parses.
\<close>

definition shadow_ok :: "nat \<Rightarrow> session \<Rightarrow> bool" where
  "shadow_ok n s \<longleftrightarrow> store_ok n (ss_pool s) \<and> distinct (dict_keys (shadow_pages (ss_txn s))) \<and>
     (\<forall>p q. shadow_of s p = Some q \<longrightarrow> pool_live (ss_pool s) p \<and> pool_live (ss_pool s) q \<and>
        shadow_of s q = None \<and> (\<forall>p'. shadow_of s p' = Some q \<longrightarrow> p' = p))"

definition shadow_live :: "session \<Rightarrow> nat \<Rightarrow> bool" where
  "shadow_live s p \<longleftrightarrow> pool_live (ss_pool s) p \<and> \<not> is_shadow s p"

definition shadow_fresh :: "session \<Rightarrow> nat \<Rightarrow> bool" where
  "shadow_fresh s q \<longleftrightarrow> \<not> cached (ss_pool s) q \<and> shadow_live s q \<and> shadow_of s q = None"

lemma shadow_of_pool [simp]: "shadow_of (s\<lparr>ss_pool := bp\<rparr>) = shadow_of s"
  by (simp add: shadow_of_def fun_eq_iff)

lemma resolve_pool [simp]: "resolve (s\<lparr>ss_pool := bp\<rparr>) = resolve s"
  by (simp add: resolve_def fun_eq_iff)

lemma is_shadow_pool [simp]: "is_shadow (s\<lparr>ss_pool := bp\<rparr>) = is_shadow s"
  by (simp add: is_shadow_def fun_eq_iff)

lemma shadow_of_add [simp]: "shadow_of (add_shadow p q s) r = (if r = p then Some q else shadow_of s r)"
  by (simp add: shadow_of_def add_shadow_def)

lemma ss_pool_add [simp]: "ss_pool (add_shadow p q s) = ss_pool s"
  by (simp add: add_shadow_def)

lemma shadow_ok_pool:
  assumes "shadow_ok m s" and "store_ok n bp" and "\<And>p. pool_live (ss_pool s) p \<Longrightarrow> pool_live bp p"
  shows "shadow_ok n (s\<lparr>ss_pool := bp\<rparr>)"
  using assms by (auto simp: shadow_ok_def)

lemma resolve_live:
  assumes "shadow_ok n s" and "shadow_live s p"
  shows "pool_live (ss_pool s) (resolve s p)"
  using assms by (auto simp: resolve_def shadow_ok_def shadow_live_def split: option.splits)

lemma resolve_inj:
  assumes "shadow_ok n s" and "shadow_live s p" and "shadow_live s q" and "resolve s p = resolve s q"
  shows "p = q"
  using assms by (force simp: resolve_def shadow_ok_def shadow_live_def is_shadow_def split: option.splits)

lemma set_then_mark: "mark_dirty q (set_page_data q d bp) = set_page_data q d bp"
  by (simp add: mark_dirty_def set_page_data_def cache_update_def split: option.splits)

lemma shadow_get_facts:
  assumes ok: "shadow_ok n s" and l: "shadow_live s p" and v: "shadow_view s p = Some d" and d: "parses d"
  shows "\<exists>bp. shadow_get p None s = (Inr d, s\<lparr>ss_pool := bp\<rparr>) \<and> shadow_ok n (s\<lparr>ss_pool := bp\<rparr>) \<and>
    pool_live bp = pool_live (ss_pool s) \<and> same_pages {resolve s p} (ss_pool s) bp \<and> cached bp (resolve s p)"
proof -
  have st: "store_ok n (ss_pool s)" using ok by (simp add: shadow_ok_def)
  have v': "pool_view (ss_pool s) (resolve s p) = Some d" using v by (simp add: shadow_view_def)
  from get_page_live [OF st resolve_live [OF ok l] v' d] obtain bp where
    b: "get_page (resolve s p) None (ss_pool s) = (Inr d, bp)" "store_ok n bp"
      "pool_live bp = pool_live (ss_pool s)" "same_pages {resolve s p} (ss_pool s) bp" "cached bp (resolve s p)"
    by blast
  have "shadow_get p None s = (Inr d, s\<lparr>ss_pool := bp\<rparr>)"
    using b(1) by (auto simp: shadow_get_def resolve_def szoom_def split: option.splits)
  with b shadow_ok_pool [OF ok b(2)] show ?thesis by auto
qed

text \<open>A first write: the new shadow page is a copy, cached and clean, of the original.\<close>

lemma ensure_shadow_new:
  assumes ok: "shadow_ok (Suc n) s" and l: "shadow_live s p" and nos: "shadow_of s p = None"
    and v: "shadow_view s p = Some d" and d: "parses d"
  shows "\<exists>q s'. ensure_shadow p s = (Inr q, s') \<and> \<not> pool_live (ss_pool s) q \<and> shadow_ok n s' \<and>
    shadow_of s' = (shadow_of s)(p := Some q) \<and> cached (ss_pool s') q \<and>
    pool_live (ss_pool s') = (pool_live (ss_pool s))(q := True) \<and>
    pool_view (ss_pool s') q = Some d \<and>
    (\<forall>r. r \<noteq> 0 \<longrightarrow> r \<noteq> q \<longrightarrow> pool_view (ss_pool s') r = pool_view (ss_pool s) r) \<and>
    (\<forall>r. cached (ss_pool s') r \<longrightarrow> cached (ss_pool s) r \<or> r = p \<or> r = q) \<and>
    disk (bp_fm (ss_pool s')) q = Some d"
proof -
  let ?bp = "ss_pool s"
  have st: "store_ok (Suc n) ?bp" and dist: "distinct (dict_keys (shadow_pages (ss_txn s)))"
    using ok by (simp_all add: shadow_ok_def)
  have lp: "pool_live ?bp p" using l by (simp add: shadow_live_def)
  obtain q fm where a: "on_fm alloc_page ?bp = (Inr q, ?bp\<lparr>bp_fm := fm\<rparr>)" "\<not> pool_live ?bp q" "0 < q"
      "\<not> cached ?bp q" "store_ok n (?bp\<lparr>bp_fm := fm\<rparr>)"
      "pool_live (?bp\<lparr>bp_fm := fm\<rparr>) = (pool_live ?bp)(q := True)"
      "\<forall>p. p \<noteq> 0 \<longrightarrow> p \<noteq> q \<longrightarrow> pool_view (?bp\<lparr>bp_fm := fm\<rparr>) p = pool_view ?bp p"
    using alloc_live [OF st] by blast
  define b1 where "b1 = ?bp\<lparr>bp_fm := fm\<rparr>"
  note a = a [folded b1_def]
  have c1: "cached b1 r = cached ?bp r" for r by (simp add: b1_def cached_def)
  have pq: "p \<noteq> q" "p \<noteq> 0" using a(2) lp by (auto simp: pool_live_def)
  have v1: "pool_view b1 p = Some d"
    using a(7) pq v nos by (simp add: shadow_view_def resolve_def)
  have lp1: "pool_live b1 p" using a(6) lp by simp
  obtain b2 where b2: "get_page p None b1 = (Inr d, b2)" "store_ok n b2" "pool_live b2 = pool_live b1"
      "same_pages {p} b1 b2"
    using get_page_live [OF a(5) lp1 v1 d] by blast
  have nc: "\<not> cached b2 q" using b2(4) a(4) c1 pq by (auto simp: same_pages_def)
  have lq: "pool_live b2 q" using b2(3) a(6) by simp
  obtain fm3 where w: "on_fm (write_page q d) b2 = (Inr (), b2\<lparr>bp_fm := fm3\<rparr>)"
      "store_ok n (b2\<lparr>bp_fm := fm3\<rparr>)" "pool_live (b2\<lparr>bp_fm := fm3\<rparr>) = pool_live b2"
      "pool_view (b2\<lparr>bp_fm := fm3\<rparr>) = (pool_view b2)(q := Some d)"
      "fm_page_count fm3 = fm_page_count (bp_fm b2)" "disk fm3 q = Some d"
    using write_live [OF b2(2) lq nc d] by blast
  define b3 where "b3 = b2\<lparr>bp_fm := fm3\<rparr>"
  note w = w [folded b3_def]
  have c3: "cached b3 r = cached b2 r" for r by (simp add: b3_def cached_def)
  let ?pg = "\<lparr>p_page_id = q, p_page_type = None, p_data = d, p_dirty = False\<rparr>"
  define b4 where "b4 = cache_put q ?pg b3"
  have inv3: "pool_inv b3" using w(2) by (simp add: store_ok_def)
  have "page_ok (bp_fm b3) q ?pg"
    using a(3) d w(6) lq w(5) by (auto simp: page_ok_def b3_def pool_live_def)
  then have s4: "same_pages {q} b3 b4"
    unfolding b4_def using nc c3 by (intro cache_put_same [OF inv3]) auto
  have lq3: "pool_live b3 q" using w(3) lq by simp
  note st4 = store_ok_same_pages [OF w(2) s4]
  have ok4: "store_ok n b4" and live4: "pool_live b4 = (pool_live ?bp)(q := True)"
    using st4 lq3 w(3) b2(3) a(6) by auto
  define s' where "s' = add_shadow p q (s\<lparr>ss_pool := b4\<rparr>)"
  have e: "ensure_shadow p s = (Inr q, s')"
    using a(1) b2(1) w(1) nos
    by (simp add: ensure_shadow_def sbind_def szoom_def [of ss_pool] s'_def b4_def)
  have view4: "pool_view b4 = (pool_view b2)(q := Some d)"
    using same_pagesD(2) [OF s4] w(4) by simp
  have cq: "cached b4 q" by (simp add: b4_def cache_put_def)
  have "\<not> is_shadow s p" using l by (simp add: shadow_live_def)
  moreover have "shadow_of s q = None"
    using ok a(2) by (cases "shadow_of s q") (auto simp: shadow_ok_def)
  ultimately have "shadow_ok n s'"
    using ok ok4 live4 lp a(2) dist pq nos
    by (auto simp: shadow_ok_def s'_def add_shadow_def shadow_of_def is_shadow_def split: if_splits)
  moreover have "cached b4 r \<Longrightarrow> cached ?bp r \<or> r = p \<or> r = q" for r
    using s4 b2(4) c3 c1 by (auto simp: same_pages_def)
  moreover have "pool_view b4 r = pool_view ?bp r" if "r \<noteq> 0" "r \<noteq> q" for r
    using view4 same_pagesD(2) [OF b2(4)] a(7) that by simp
  moreover have "disk (bp_fm b4) q = Some d" using w(6) by (simp add: b4_def cache_put_def b3_def)
  ultimately show ?thesis
    using e a(2) cq live4 view4 by (auto simp: s'_def fun_eq_iff)
qed

text \<open>A write through the shadow pool: the transaction sees it, and no original page changes.\<close>

lemma shadow_set_facts:
  assumes ok: "shadow_ok (Suc n) s" and l: "shadow_live s p" and rd: "cached (ss_pool s) (resolve s p)"
    and d: "parses d"
  shows "\<exists>s'. shadow_set p d s = (Inr (), s') \<and> shadow_ok n s' \<and> shadow_live s' = shadow_live s \<and>
    (\<forall>q. shadow_live s q \<longrightarrow> shadow_view s' q = (if q = p then Some d else shadow_view s q)) \<and>
    (\<forall>q. shadow_fresh s q \<longrightarrow> q \<noteq> p \<longrightarrow> shadow_fresh s' q) \<and>
    (\<forall>q. shadow_live s q \<longrightarrow> pool_view (ss_pool s') q = pool_view (ss_pool s) q)"
proof -
  have st: "store_ok (Suc n) (ss_pool s)" using ok by (simp add: shadow_ok_def)
  then have inv: "pool_inv (ss_pool s)" by (simp add: store_ok_def)
  show ?thesis
  proof (cases "shadow_of s p")
    case (Some q)
    then have r: "resolve s p = q" by (simp add: resolve_def)
    note c = rd [unfolded r]
    note f = set_page_data_facts [OF inv c d] and g = set_page_live [OF st c d]
    let ?b = "set_page_data q d (ss_pool s)"
    have e: "shadow_set p d s = (Inr (), s\<lparr>ss_pool := ?b\<rparr>)"
      using Some by (simp add: shadow_set_def ensure_shadow_def sbind_def szoom_def set_then_mark)
    have "store_ok n ?b" using g(1) by (auto simp: store_ok_def)
    then have "shadow_ok n (s\<lparr>ss_pool := ?b\<rparr>)" using g(2) by (intro shadow_ok_pool [OF ok]) auto
    moreover have "shadow_live (s\<lparr>ss_pool := ?b\<rparr>) = shadow_live s"
      using g(2) by (simp add: shadow_live_def fun_eq_iff)
    moreover have "shadow_view (s\<lparr>ss_pool := ?b\<rparr>) q' = (if q' = p then Some d else shadow_view s q')"
      if "shadow_live s q'" for q'
    proof -
      have "q' = p \<longleftrightarrow> resolve s q' = q" using resolve_inj [OF ok that l] r by auto
      then show ?thesis using f(2) by (simp add: shadow_view_def)
    qed
    moreover have "shadow_fresh (s\<lparr>ss_pool := ?b\<rparr>) q' = shadow_fresh s q'" for q'
      using f(3) g(2) by (simp add: shadow_fresh_def shadow_live_def)
    moreover have "pool_view ?b q' = pool_view (ss_pool s) q'" if "shadow_live s q'" for q'
      using f(2) Some that by (auto simp: shadow_live_def is_shadow_def)
    ultimately show ?thesis using e by auto
  next
    case None
    then have r: "resolve s p = p" by (simp add: resolve_def)
    obtain pg where pg: "dict_get (bp_cache (ss_pool s)) p = Some pg" using rd r by (auto simp: cached_def)
    then have "shadow_view s p = Some (p_data pg)" "parses (p_data pg)"
      using pool_invD(3) [OF inv] r by (auto simp: shadow_view_def pool_view_def page_ok_def)
    from ensure_shadow_new [OF ok l None this] obtain q s1 where
      s1: "ensure_shadow p s = (Inr q, s1)" "\<not> pool_live (ss_pool s) q" "shadow_ok n s1"
        "shadow_of s1 = (shadow_of s)(p := Some q)" "cached (ss_pool s1) q"
        "pool_live (ss_pool s1) = (pool_live (ss_pool s))(q := True)"
        "\<forall>r. r \<noteq> 0 \<longrightarrow> r \<noteq> q \<longrightarrow> pool_view (ss_pool s1) r = pool_view (ss_pool s) r"
        "\<forall>r. cached (ss_pool s1) r \<longrightarrow> cached (ss_pool s) r \<or> r = p \<or> r = q"
      by blast
    have st1: "store_ok n (ss_pool s1)" using s1(3) by (simp add: shadow_ok_def)
    then have inv1: "pool_inv (ss_pool s1)" by (simp add: store_ok_def)
    note f = set_page_data_facts [OF inv1 s1(5) d] and g = set_page_live [OF st1 s1(5) d]
    let ?b = "set_page_data q d (ss_pool s1)"
    have e: "shadow_set p d s = (Inr (), s1\<lparr>ss_pool := ?b\<rparr>)"
      using s1(1) by (simp add: shadow_set_def sbind_def szoom_def set_then_mark)
    have k: "shadow_ok n (s1\<lparr>ss_pool := ?b\<rparr>)"
      using g by (intro shadow_ok_pool [OF s1(3)]) auto
    have is1: "is_shadow s1 r \<longleftrightarrow> is_shadow s r \<or> r = q" for r
      using s1(4) by (simp add: is_shadow_def) (metis None option.distinct(1))
    have lv: "shadow_live (s1\<lparr>ss_pool := ?b\<rparr>) = shadow_live s"
      using g(2) s1(2,6) is1 by (auto simp: shadow_live_def fun_eq_iff)
    have nq: "x \<noteq> q" "x \<noteq> 0" if "pool_live (ss_pool s) x" for x
      using that s1(2) by (auto simp: pool_live_def)
    have vw: "shadow_view (s1\<lparr>ss_pool := ?b\<rparr>) x = (if x = p then Some d else shadow_view s x)"
      if x: "shadow_live s x" for x
    proof (cases "x = p")
      case True
      then show ?thesis using f(2) s1(4) by (simp add: shadow_view_def resolve_def)
    next
      case False
      then have "resolve s1 x = resolve s x" using s1(4) by (simp add: resolve_def)
      then show ?thesis using False f(2) s1(7) nq [OF resolve_live [OF ok x]]
        by (simp add: shadow_view_def)
    qed
    have fr: "shadow_fresh (s1\<lparr>ss_pool := ?b\<rparr>) x" if "shadow_fresh s x" "x \<noteq> p" for x
      using that lv f(3) s1(4,8) nq [of x] by (auto simp: shadow_fresh_def shadow_live_def fun_eq_iff)
    have "pool_view ?b x = pool_view (ss_pool s) x" if "shadow_live s x" for x
      using f(2) s1(7) nq [of x] that by (auto simp: shadow_live_def)
    with e k lv vw fr show ?thesis by auto
  qed
qed

section \<open>The shadow pool is a page store\<close>

lemma shadow_view_pool:
  "pool_view bp = pool_view (ss_pool s) \<Longrightarrow> shadow_view (s\<lparr>ss_pool := bp\<rparr>) = shadow_view s"
  by (simp add: shadow_view_def fun_eq_iff)

lemma shadow_live_pool:
  "pool_live bp = pool_live (ss_pool s) \<Longrightarrow> shadow_live (s\<lparr>ss_pool := bp\<rparr>) = shadow_live s"
  by (simp add: shadow_live_def fun_eq_iff)

lemma store_ok_mono: "store_ok (Suc n) bp \<Longrightarrow> store_ok n bp"
  by (auto simp: store_ok_def)

lemma fresh_not_resolved:
  "shadow_fresh s q \<Longrightarrow> q \<noteq> p \<Longrightarrow> q \<noteq> resolve s p"
  by (auto simp: shadow_fresh_def resolve_def shadow_live_def is_shadow_def split: option.splits)

text \<open>
  The pages of \<open>D\<close> are frozen: they are live originals, and the plain pool shows for each of them
  the contents given by \<open>D\<close>. Every operation of the shadow pool keeps this, whatever \<open>D\<close>.
\<close>

definition shadow_inv :: "(nat \<Rightarrow> bytes option) \<Rightarrow> nat \<Rightarrow> session \<Rightarrow> bool" where
  "shadow_inv D n s \<longleftrightarrow> shadow_ok n s \<and>
     (\<forall>p. D p \<noteq> None \<longrightarrow> shadow_live s p \<and> pool_view (ss_pool s) p = D p)"

interpretation shadow: page_store "shadow_inv D" shadow_live shadow_view
  "\<lambda>s p. cached (ss_pool s) (resolve s p)" "\<lambda>s q. shadow_fresh s q \<and> D q = None" shadow_ops
  for D
proof
  fix n s assume "shadow_inv D (Suc n) s"
  then show "shadow_inv D n s" using store_ok_mono by (simp add: shadow_inv_def shadow_ok_def)
next
  fix n s p assume "shadow_inv D n s" "shadow_live s p"
  then show "0 < p \<and> p < po_count shadow_ops s" by (simp add: shadow_live_def pool_live_def shadow_ops_def)
next
  fix n s p d
  assume i: "shadow_inv D n s" and a: "shadow_live s p" "shadow_view s p = Some d" "parses d"
  have ok: "shadow_ok n s" using i by (simp add: shadow_inv_def)
  from shadow_get_facts [OF ok a] obtain bp where b: "shadow_get p None s = (Inr d, s\<lparr>ss_pool := bp\<rparr>)"
    "shadow_ok n (s\<lparr>ss_pool := bp\<rparr>)" "pool_live bp = pool_live (ss_pool s)"
    "same_pages {resolve s p} (ss_pool s) bp" "cached bp (resolve s p)" by blast
  have fr: "shadow_fresh (s\<lparr>ss_pool := bp\<rparr>) q" if "shadow_fresh s q" "q \<noteq> p" for q
    using that fresh_not_resolved [OF that] b(4) shadow_live_pool [OF b(3)]
    by (auto simp: shadow_fresh_def same_pages_def)
  have "shadow_inv D n (s\<lparr>ss_pool := bp\<rparr>)"
    using i b(2) shadow_live_pool [OF b(3)] same_pagesD(2) [OF b(4)] by (simp add: shadow_inv_def)
  then show "\<exists>s'. po_get shadow_ops p None s = (Inr d, s') \<and> shadow_inv D n s' \<and> shadow_live s' = shadow_live s \<and>
      (\<forall>q. shadow_live s q \<longrightarrow> shadow_view s' q = shadow_view s q) \<and> cached (ss_pool s') (resolve s' p) \<and>
      (\<forall>q. shadow_fresh s q \<and> D q = None \<longrightarrow> q \<noteq> p \<longrightarrow> shadow_fresh s' q \<and> D q = None)"
    using b fr shadow_live_pool [OF b(3)] shadow_view_pool [OF same_pagesD(2) [OF b(4)]]
    by (intro exI [of _ "s\<lparr>ss_pool := bp\<rparr>"]) (simp add: shadow_ops_def)
next
  fix n s p d
  assume i: "shadow_inv D (Suc n) s" and a: "shadow_live s p" "cached (ss_pool s) (resolve s p)" "parses d"
  have ok: "shadow_ok (Suc n) s" using i by (simp add: shadow_inv_def)
  from shadow_set_facts [OF ok a] obtain s' where s': "shadow_set p d s = (Inr (), s')" "shadow_ok n s'"
      "shadow_live s' = shadow_live s"
      "\<forall>q. shadow_live s q \<longrightarrow> shadow_view s' q = (if q = p then Some d else shadow_view s q)"
      "\<forall>q. shadow_fresh s q \<longrightarrow> q \<noteq> p \<longrightarrow> shadow_fresh s' q"
      "\<forall>q. shadow_live s q \<longrightarrow> pool_view (ss_pool s') q = pool_view (ss_pool s) q" by blast
  have "shadow_inv D n s'" using i s'(2,3,6) by (simp add: shadow_inv_def)
  moreover have "po_set shadow_ops = shadow_set" by (simp add: shadow_ops_def)
  ultimately show "\<exists>s'. po_set shadow_ops p d s = (Inr (), s') \<and> shadow_inv D n s' \<and>
      shadow_live s' = shadow_live s \<and>
      (\<forall>q. shadow_live s q \<longrightarrow> shadow_view s' q = (if q = p then Some d else shadow_view s q)) \<and>
      (\<forall>q. shadow_fresh s q \<and> D q = None \<longrightarrow> q \<noteq> p \<longrightarrow> shadow_fresh s' q \<and> D q = None)"
    using s' by metis
next
  fix n s
  assume i: "shadow_inv D (Suc n) s"
  then have ok: "shadow_ok (Suc n) s" by (simp add: shadow_inv_def)
  then have "store_ok (Suc n) (ss_pool s)" by (simp add: shadow_ok_def)
  from alloc_live [OF this] obtain q fm where a: "on_fm alloc_page (ss_pool s) = (Inr q, (ss_pool s)\<lparr>bp_fm := fm\<rparr>)"
    "\<not> pool_live (ss_pool s) q" "0 < q" "q < fm_page_count fm" "\<not> cached (ss_pool s) q"
    "store_ok n ((ss_pool s)\<lparr>bp_fm := fm\<rparr>)"
    "pool_live ((ss_pool s)\<lparr>bp_fm := fm\<rparr>) = (pool_live (ss_pool s))(q := True)"
    "\<forall>p. p \<noteq> 0 \<longrightarrow> p \<noteq> q \<longrightarrow> pool_view ((ss_pool s)\<lparr>bp_fm := fm\<rparr>) p = pool_view (ss_pool s) p"
    by blast
  define bp where "bp = (ss_pool s)\<lparr>bp_fm := fm\<rparr>"
  note a = a [folded bp_def]
  have nq: "\<not> is_shadow s q" "shadow_of s q = None"
    using ok a(2) by (auto simp: shadow_ok_def is_shadow_def) (metis not_None_eq)
  have lv: "shadow_live (s\<lparr>ss_pool := bp\<rparr>) = (shadow_live s)(q := True)"
    using a(7) nq by (auto simp: shadow_live_def fun_eq_iff)
  have pv: "pool_view bp r = pool_view (ss_pool s) r" if "pool_live (ss_pool s) r" for r
    using a(2,8) that by (auto simp: pool_live_def)
  have vw: "shadow_view (s\<lparr>ss_pool := bp\<rparr>) r = shadow_view s r" if "shadow_live s r" for r
    using pv [OF resolve_live [OF ok that]] by (simp add: shadow_view_def)
  have c: "\<not> cached bp q" using a(5) by (simp add: bp_def cached_def)
  have "q < 2 ^ 32" using a(4,6) by (simp add: store_ok_def bp_def)
  moreover have "shadow_ok n (s\<lparr>ss_pool := bp\<rparr>)" using a(7) by (intro shadow_ok_pool [OF ok a(6)]) simp
  then have "shadow_inv D n (s\<lparr>ss_pool := bp\<rparr>)"
    using i lv pv by (auto simp: shadow_inv_def shadow_live_def)
  moreover have nl: "\<not> shadow_live s q" using a(2) by (simp add: shadow_live_def)
  moreover have "shadow_fresh (s\<lparr>ss_pool := bp\<rparr>) q \<and> D q = None"
    using lv c nq nl i by (auto simp: shadow_fresh_def shadow_inv_def)
  ultimately show "\<exists>q s'. po_alloc shadow_ops s = (Inr q, s') \<and> \<not> shadow_live s q \<and> q < 2 ^ 32 \<and>
      shadow_inv D n s' \<and> shadow_live s' = (shadow_live s)(q := True) \<and>
      (\<forall>r. shadow_live s r \<longrightarrow> shadow_view s' r = shadow_view s r) \<and> (shadow_fresh s' q \<and> D q = None)"
    using a(1) lv vw
    by (intro exI [of _ q] exI [of _ "s\<lparr>ss_pool := bp\<rparr>"]) (simp add: shadow_ops_def szoom_def [of ss_pool])
next
  fix n s q d
  assume i: "shadow_inv D n s" and l: "shadow_live s q" and fr: "shadow_fresh s q \<and> D q = None" and d: "parses d"
  have ok: "shadow_ok n s" using i by (simp add: shadow_inv_def)
  have st: "store_ok n (ss_pool s)" using ok by (simp add: shadow_ok_def)
  have lq: "pool_live (ss_pool s) q" and c: "\<not> cached (ss_pool s) q" and nq: "shadow_of s q = None"
    using l fr by (auto simp: shadow_live_def shadow_fresh_def)
  from write_live [OF st lq c d] obtain fm where
    w: "on_fm (write_page q d) (ss_pool s) = (Inr (), (ss_pool s)\<lparr>bp_fm := fm\<rparr>)"
    "store_ok n ((ss_pool s)\<lparr>bp_fm := fm\<rparr>)" "pool_live ((ss_pool s)\<lparr>bp_fm := fm\<rparr>) = pool_live (ss_pool s)"
    "pool_view ((ss_pool s)\<lparr>bp_fm := fm\<rparr>) = (pool_view (ss_pool s))(q := Some d)" by blast
  define bp where "bp = (ss_pool s)\<lparr>bp_fm := fm\<rparr>"
  note w = w [folded bp_def]
  have "resolve s r = q \<longleftrightarrow> r = q" if "shadow_live s r" for r
    using resolve_inj [OF ok that l] nq by (auto simp: resolve_def)
  then have "shadow_view (s\<lparr>ss_pool := bp\<rparr>) r = (if r = q then Some d else shadow_view s r)"
    if "shadow_live s r" for r
    using w(4) that by (simp add: shadow_view_def)
  moreover have "shadow_ok n (s\<lparr>ss_pool := bp\<rparr>)" using w(3) by (intro shadow_ok_pool [OF ok w(2)]) simp
  then have "shadow_inv D n (s\<lparr>ss_pool := bp\<rparr>)"
    using i fr w(4) shadow_live_pool [OF w(3)] by (auto simp: shadow_inv_def)
  ultimately show "\<exists>s'. po_write shadow_ops q d s = (Inr (), s') \<and> shadow_inv D n s' \<and>
      shadow_live s' = shadow_live s \<and>
      (\<forall>r. shadow_live s r \<longrightarrow> shadow_view s' r = (if r = q then Some d else shadow_view s r))"
    using w(1) shadow_live_pool [OF w(3)]
    by (intro exI [of _ "s\<lparr>ss_pool := bp\<rparr>"]) (simp add: shadow_ops_def szoom_def [of ss_pool])
qed

text \<open>The originals as they are now.\<close>

definition originals :: "session \<Rightarrow> nat \<Rightarrow> bytes option" where
  "originals s p = (if shadow_live s p then pool_view (ss_pool s) p else None)"

lemma shadow_inv_originals: "shadow_ok n s \<Longrightarrow> shadow_inv (originals s) n s"
  by (auto simp: shadow_inv_def originals_def)

lemma originals_kept:
  "shadow_inv (originals s) n s' \<Longrightarrow> shadow_live s q \<Longrightarrow> pool_view (ss_pool s) q = Some d \<Longrightarrow>
   shadow_live s' q \<and> pool_view (ss_pool s') q = Some d"
  by (auto simp: shadow_inv_def originals_def)

lemma shadow_live_view:
  "shadow_ok n s \<Longrightarrow> pool_live (ss_pool s) p \<Longrightarrow> \<exists>d. pool_view (ss_pool s) p = Some d"
  by (auto simp: pool_view_def pool_live_def disk_def split: option.splits)

section \<open>Claims\<close>

text \<open>
  C19. A transaction works on a private memory: any sequence of reads and writes through the shadow
  pool answers as a memory that starts with the pages the transaction sees, and whatever it
  writes, every original page is for the other readers of the pool what it was before.
\<close>

theorem shadow_pool_isolates:
  assumes "shadow_ok (length xs) s" and "\<forall>p. shadow_live s p \<longrightarrow> (\<exists>d. shadow_view s p = Some d \<and> parses d)"
    and "\<forall>x \<in> set xs. \<forall>q. touches x q \<longrightarrow> shadow_live s q"
    and "\<forall>x \<in> set xs. \<forall>d. writes x d \<longrightarrow> parses d"
  shows "\<exists>s'. store_run shadow_ops xs s = (fst (run_mem xs (shadow_view s)), s') \<and>
    (\<forall>q. shadow_live s q \<longrightarrow> shadow_view s' q = snd (run_mem xs (shadow_view s)) q) \<and>
    (\<forall>q. shadow_live s q \<longrightarrow> pool_view (ss_pool s') q = pool_view (ss_pool s) q)"
proof -
  have g: "shadow.good s" using assms(2) by (simp add: shadow.good_def)
  have "shadow_inv (originals s) (length xs + 0) s" using shadow_inv_originals [OF assms(1)] by simp
  from shadow.store_run_refines [OF this g assms(3,4), of "shadow_view s"]
  obtain s' where s': "store_run shadow_ops xs s = (fst (run_mem xs (shadow_view s)), s')"
    "\<forall>q. shadow_live s q \<longrightarrow> snd (run_mem xs (shadow_view s)) q = shadow_view s' q"
    "shadow_inv (originals s) 0 s'" by auto
  have "pool_view (ss_pool s') q = pool_view (ss_pool s) q" if q: "shadow_live s q" for q
  proof -
    obtain d where "pool_view (ss_pool s) q = Some d"
      using shadow_live_view [OF assms(1)] q by (auto simp: shadow_live_def)
    with originals_kept [OF s'(3) q] show ?thesis by auto
  qed
  with s'(1,2) show ?thesis by auto
qed

text \<open>A session on a database of \<open>n\<close> data pages, with a transaction that has written nothing.\<close>

definition new_session :: "nat \<Rightarrow> session" where
  "new_session n = \<lparr>ss_pool = new_pool (data_fm n) 8,
     ss_txn = \<lparr>txn_id = 1, txn_state = Active, shadow_pages = [], snapshot_root = 0, new_root = 0\<rparr>,
     ss_locks = new_lock_manager (Some [])\<rparr>"

lemma new_session_facts:
  assumes "n + 1 + m < 2 ^ 32"
  shows "shadow_ok m (new_session n)" and "store_ok m (ss_pool (new_session n))"
    and "shadow_live (new_session n) p \<longleftrightarrow> 0 < p \<and> p \<le> n"
    and "pool_live (ss_pool (new_session n)) p \<longleftrightarrow> 0 < p \<and> p \<le> n"
    and "0 < p \<Longrightarrow> p \<le> n \<Longrightarrow> pool_view (ss_pool (new_session n)) p = Some (empty_page_data p DATA)"
    and "0 < p \<Longrightarrow> p \<le> n \<Longrightarrow> shadow_view (new_session n) p = Some (empty_page_data p DATA)"
proof -
  have n: "n + 1 < 2 ^ 32" using assms by simp
  note d = data_fm_facts [OF n] and i = new_pool_inv [OF data_fm_facts(1) [OF n], of 8]
  show st: "store_ok m (ss_pool (new_session n))"
  proof -
    have "bp_fm (new_pool (data_fm n) 8) = data_fm n" by (simp add: new_pool_def)
    then show ?thesis unfolding store_ok_def using i d(2,4) assms
      by (auto simp: new_session_def intro!: exI [of _ "[]"])
  qed
  have sh: "shadow_of (new_session n) = Map.empty" by (simp add: shadow_of_def new_session_def fun_eq_iff)
  then show "shadow_ok m (new_session n)" using st by (simp add: shadow_ok_def) (simp add: new_session_def)
  have "\<not> is_free (data_fm n) p" for p using is_free_eq [OF d(2)] by simp
  then show l: "pool_live (ss_pool (new_session n)) p \<longleftrightarrow> 0 < p \<and> p \<le> n"
    using d(4) by (auto simp: pool_live_def new_session_def new_pool_def)
  then show "shadow_live (new_session n) p \<longleftrightarrow> 0 < p \<and> p \<le> n"
    using sh by (simp add: shadow_live_def is_shadow_def)
  show v: "pool_view (ss_pool (new_session n)) p = Some (empty_page_data p DATA)" if "0 < p" "p \<le> n"
    using i(3) d(3) [OF that(1)] that by (simp add: new_session_def)
  show "shadow_view (new_session n) p = Some (empty_page_data p DATA)" if "0 < p" "p \<le> n"
    using v [OF that] sh by (simp add: shadow_view_def resolve_def)
qed

theorem shadow_pool_isolates_witness:
  "\<exists>s'. store_run shadow_ops [Write 1 (empty_page_data 9 INDEX), Read 1, Read 2] (new_session 2)
       = ([Inr None, Inr (Some (empty_page_data 9 INDEX)), Inr (Some (empty_page_data 2 DATA))], s') \<and>
     pool_view (ss_pool s') 1 = Some (empty_page_data 1 DATA)"
proof -
  let ?xs = "[Write 1 (empty_page_data 9 INDEX), Read 1, Read 2]"
  have "(2 :: nat) + 1 + 3 < 2 ^ 32" by simp
  note n = new_session_facts [OF this]
  have pr: "page_result (Some (empty_page_data p t)) = Inr (empty_page_data p t)" if "p < 2 ^ 32" for p t
    using that by (simp add: page_result_def parse_empty_page)
  have "shadow_ok (length ?xs) (new_session 2)" using n(1) by (simp add: numeral_eq_Suc)
  moreover have "\<forall>p. shadow_live (new_session 2) p \<longrightarrow>
      (\<exists>d. shadow_view (new_session 2) p = Some d \<and> parses d)"
    using n(3,6) parses_empty by auto
  moreover have "\<forall>x \<in> set ?xs. \<forall>q. touches x q \<longrightarrow> shadow_live (new_session 2) q" using n(3) by auto
  moreover have "\<forall>x \<in> set ?xs. \<forall>d. writes x d \<longrightarrow> parses d" using parses_empty by auto
  ultimately obtain s' where s': "store_run shadow_ops ?xs (new_session 2)
        = (fst (run_mem ?xs (shadow_view (new_session 2))), s')"
      "\<forall>q. shadow_live (new_session 2) q \<longrightarrow>
         pool_view (ss_pool s') q = pool_view (ss_pool (new_session 2)) q"
    using shadow_pool_isolates [of ?xs "new_session 2"] by blast
  have "fst (run_mem ?xs (shadow_view (new_session 2)))
      = [Inr None, Inr (Some (empty_page_data 9 INDEX)), Inr (Some (empty_page_data 2 DATA))]"
    using n(6) [of 1] n(6) [of 2] pr by (simp add: Let_def)
  then show ?thesis using s' n(3) [of 1] n(5) [of 1] by auto
qed

text \<open>
  Committing through the shadow pool itself loses the transaction's writes: \<open>commit\<close> forgets the
  shadow map without copying or switching anything (the new root is the old one), so afterwards
  every page reads as it did before the transaction. (The database commits through the transaction
  manager, which copies the shadows back.)
\<close>

theorem shadow_commit_discards:
  assumes "shadow_ok 0 s" and "new_root (ss_txn s) = fm_root_page_id (bp_fm (ss_pool s))"
  shows "\<exists>s'. shadow_commit s = (Inr (), s') \<and> txn_state (ss_txn s') = Committed \<and>
    (\<forall>p. 0 < p \<longrightarrow> shadow_view s' p = pool_view (ss_pool s) p)"
proof -
  have inv: "pool_inv (ss_pool s)" using assms(1) by (simp add: shadow_ok_def store_ok_def)
  obtain bp where f: "flush (ss_pool s) = (Inr (), bp)" "same_pages {} (ss_pool s) bp"
    using flush_facts [OF inv] by blast
  have fe: "bp_fm bp = (bp_fm (ss_pool s))\<lparr>fm_file := fm_file (bp_fm bp)\<rparr>"
    using f(2) by (simp add: same_pages_def)
  have root: "(bp_fm bp)\<lparr>fm_root_page_id := new_root (ss_txn s)\<rparr> = bp_fm bp"
    using assms(2) same_fields(4) [OF fe] by simp
  obtain r fm where w: "write_header (bp_fm bp) = (r, fm)" by (cases "write_header (bp_fm bp)")
  note h = write_header_facts [OF pool_invD(1) [OF same_pagesD(1) [OF f(2)]] w]
  let ?s = "s\<lparr>ss_pool := bp\<lparr>bp_fm := fm\<rparr>, ss_txn := (ss_txn s)\<lparr>shadow_pages := [], txn_state := Committed\<rparr>\<rparr>"
  have "shadow_commit s = (Inr (), ?s)"
    using f(1) root w h(1)
    by (simp add: shadow_commit_def shadow_flush_def sbind_def szoom_def)
  moreover have "pool_view (bp\<lparr>bp_fm := fm\<rparr>) p = pool_view (ss_pool s) p" if "0 < p" for p
  proof -
    have "pool_view (bp\<lparr>bp_fm := fm\<rparr>) p = pool_view bp p"
      using h(3) [of p] that by (simp add: pool_view_def split: option.splits)
    then show ?thesis using same_pagesD(2) [OF f(2)] by simp
  qed
  ultimately show ?thesis by (auto simp: shadow_view_def resolve_def shadow_of_def)
qed

theorem shadow_commit_discards_witness:
  "\<exists>s'. shadow_commit (new_session 2) = (Inr (), s') \<and> shadow_view s' 2 = Some (empty_page_data 2 DATA)"
proof -
  have "new_root (ss_txn (new_session 2)) = fm_root_page_id (bp_fm (ss_pool (new_session 2)))"
    by (simp add: new_session_def new_pool_def data_fm_def fresh_fm_def)
  from shadow_commit_discards [OF new_session_facts(1) [of 2 0] this] new_session_facts(5) [of 2 0 2]
  show ?thesis by auto
qed

end
