(* ===== verification/Table.thy ===== *)
theory Table
  imports Row_Format Shadow_Paging
begin

text \<open>
  \<open>tinydb/table.py\<close>: rows in a chain of data pages, linked by the next pointers of their headers.
  Every operation takes the methods of a pool (\<open>pool_ops\<close>), so it runs on the plain pool and on
  the shadow pool of a transaction. \<open>ctx\<close> is the optional execution context.

  A loop along a chain carries fuel: \<open>page_count + 1\<close> pages are more than a chain without a cycle
  can have, so running out of it (\<open>NonTermination\<close>) means that the loop of the source never ends.
  The generator \<open>scan\<close> is a fold: the body of the consuming \<open>for\<close> loop runs between the rows.
\<close>

section \<open>Operations\<close>

record Table =
  table_name :: string
  tbl_columns :: "ColumnDef list"
  tbl_root :: nat
  tbl_primary_key :: string

record exec_context =
  cx_txn_id :: nat
  cx_snapshot :: Snapshot

definition page_from_data :: "nat \<Rightarrow> bytes \<Rightarrow> Page res" where
  "page_from_data page_id data =
     rbind (parse_page_header data) (\<lambda>h. Inr
       \<lparr>p_page_id = page_id, p_page_type = Some (h_page_type h), p_data = data, p_dirty = False\<rparr>)"

definition get_free_space_raw :: "bytes \<Rightarrow> nat res" where
  "get_free_space_raw data = rbind (parse_page_header data) (\<lambda>h. Inr (h_free_space h))"

definition acquire_lock :: "'s pool_ops \<Rightarrow> exec_context option \<Rightarrow> nat \<Rightarrow> LockMode \<Rightarrow> ('s, unit) st" where
  "acquire_lock ops ctx page_id mode = (case ctx of
     None \<Rightarrow> sret ()
   | Some cx \<Rightarrow> sbind (po_acquire ops (cx_txn_id cx) page_id mode) (\<lambda>acquired.
       if acquired then sret () else sraise TransactionError))"

text \<open>The first loop of \<open>insert\<close>: the page with room, if any, and the last page visited.\<close>

fun find_space :: "'s pool_ops \<Rightarrow> nat \<Rightarrow> nat \<Rightarrow> nat \<Rightarrow> nat option \<Rightarrow> ('s, nat option \<times> nat option) st" where
  "find_space ops fuel needed 0 last_page = sret (None, last_page)"
| "find_space ops 0 needed (Suc p) last_page = sraise NonTermination"
| "find_space ops (Suc fuel) needed (Suc p) last_page =
     sbind (po_get ops (Suc p) None) (\<lambda>data.
     sbind (slift (parse_page_header data)) (\<lambda>header.
       if h_page_type header \<noteq> DATA then sret (None, last_page)
       else sbind (slift (get_free_space_raw data)) (\<lambda>free.
         if free \<ge> needed then sret (Some (Suc p), Some (Suc p))
         else find_space ops fuel needed (h_next_page_id header) (Some (Suc p)))))"

text \<open>No room anywhere: a new page is allocated, linked behind the last one and written.\<close>

definition link_page :: "'s pool_ops \<Rightarrow> nat \<Rightarrow> nat \<Rightarrow> ('s, unit) st" where
  "link_page ops last_page new_page =
     sbind (po_get ops last_page None) (\<lambda>prev.
     sbind (slift (parse_page_header prev)) (\<lambda>h.
     sbind (slift (pack_page_header (h\<lparr>h_next_page_id := new_page\<rparr>))) (\<lambda>header.
       po_set ops last_page (slice_set prev 0 (int (length header)) header))))"

definition append_page :: "'s pool_ops \<Rightarrow> nat option \<Rightarrow> ('s, nat) st" where
  "append_page ops last_page =
     sbind (po_alloc ops) (\<lambda>new_page.
     sbind (case last_page of None \<Rightarrow> sret () | Some l \<Rightarrow> link_page ops l new_page) (\<lambda>_.
     sbind (slift (create_empty_page new_page DATA)) (\<lambda>page.
     sbind (po_write ops new_page (p_data page)) (\<lambda>_. sret new_page))))"

definition insert_into :: "'s pool_ops \<Rightarrow> nat \<Rightarrow> bytes \<Rightarrow> ('s, RowId) st" where
  "insert_into ops page_id serialized =
     sbind (po_get ops page_id None) (\<lambda>data.
     sbind (slift (page_from_data page_id data)) (\<lambda>page.
     sbind (slift (insert_row_into_page page serialized)) (\<lambda>(slot_idx, page').
     sbind (po_set ops page_id (p_data page')) (\<lambda>_.
       sret \<lparr>rid_page_id = page_id, rid_slot_index = slot_idx\<rparr>))))"

definition table_insert :: "'s pool_ops \<Rightarrow> Table \<Rightarrow> pval list \<Rightarrow> exec_context option \<Rightarrow> ('s, RowId) st" where
  "table_insert ops tbl row ctx =
     sbind (slift (convert_row row (tbl_columns tbl))) (\<lambda>converted.
     sbind (slift (serialize_row converted (tbl_columns tbl))) (\<lambda>serialized.
     sbind (acquire_lock ops ctx (tbl_root tbl) EXCLUSIVE) (\<lambda>_.
     sbind (\<lambda>s. find_space ops (po_count ops s + 1) (length serialized + 4) (tbl_root tbl) None s)
       (\<lambda>(data_page, last_page).
     sbind (case data_page of Some p \<Rightarrow> sret p | None \<Rightarrow> append_page ops last_page) (\<lambda>page_id.
       insert_into ops page_id serialized)))))"

text \<open>The rows of one page, from the copy taken when the generator reached it.\<close>

type_synonym ('s, 'a) row_body = "RowId \<Rightarrow> pval list \<Rightarrow> 'a \<Rightarrow> ('s, 'a) st"

fun scan_slots :: "Page \<Rightarrow> ColumnDef list \<Rightarrow> ('s, 'a) row_body \<Rightarrow> nat list \<Rightarrow> 'a \<Rightarrow> ('s, 'a) st" where
  "scan_slots page cols body [] acc = sret acc"
| "scan_slots page cols body (i # is) acc =
     sbind (slift (get_row_from_page page i)) (\<lambda>row_data. case row_data of
       None \<Rightarrow> scan_slots page cols body is acc
     | Some d \<Rightarrow>
         sbind (slift (deserialize_row d cols)) (\<lambda>values.
         sbind (body \<lparr>rid_page_id = p_page_id page, rid_slot_index = i\<rparr> values acc) (\<lambda>acc'.
           scan_slots page cols body is acc')))"

fun scan_pages :: "'s pool_ops \<Rightarrow> ColumnDef list \<Rightarrow> Snapshot option \<Rightarrow> ('s, 'a) row_body \<Rightarrow>
    nat \<Rightarrow> nat \<Rightarrow> 'a \<Rightarrow> ('s, 'a) st" where
  "scan_pages ops cols snap body fuel 0 acc = sret acc"
| "scan_pages ops cols snap body 0 (Suc p) acc = sraise NonTermination"
| "scan_pages ops cols snap body (Suc fuel) (Suc p) acc =
     sbind (po_get ops (Suc p) snap) (\<lambda>data.
     sbind (slift (parse_page_header data)) (\<lambda>header.
       if h_page_type header \<noteq> DATA then sret acc
       else
         sbind (slift (page_from_data (Suc p) data)) (\<lambda>page.
         sbind (scan_slots page cols body [0..<h_slot_count header] acc) (\<lambda>acc'.
           scan_pages ops cols snap body fuel (h_next_page_id header) acc'))))"

text \<open>\<open>finally\<close>: the unpin runs on every way out, and its own exception would win.\<close>

definition sfinally :: "('s, 'a) st \<Rightarrow> ('s, unit) st \<Rightarrow> ('s, 'a) st" where
  "sfinally m f s = (case m s of (r, t) \<Rightarrow> (case f t of (Inl e, u) \<Rightarrow> (Inl e, u) | (Inr _, u) \<Rightarrow> (r, u)))"

definition table_scan :: "'s pool_ops \<Rightarrow> Table \<Rightarrow> exec_context option \<Rightarrow> ('s, 'a) row_body \<Rightarrow>
    nat \<Rightarrow> 'a \<Rightarrow> ('s, 'a) st" where
  "table_scan ops tbl ctx body fuel acc = (case ctx of
     None \<Rightarrow> scan_pages ops (tbl_columns tbl) None body fuel (tbl_root tbl) acc
   | Some cx \<Rightarrow>
       sbind (po_pin ops (tbl_root tbl) (Some (cx_txn_id cx, SHARED))) (\<lambda>_.
         sfinally
           (scan_pages ops (tbl_columns tbl) (Some (cx_snapshot cx)) body fuel (tbl_root tbl) acc)
           (po_unpin ops (tbl_root tbl) (Some (cx_txn_id cx)))))"

text \<open>A scan that collects its rows, as in \<open>list(table.scan(pool))\<close>.\<close>

definition collect_row :: "('s, (RowId \<times> pval list) list) row_body" where
  "collect_row rid values acc = sret (acc @ [(rid, values)])"

definition scan_all :: "'s pool_ops \<Rightarrow> Table \<Rightarrow> exec_context option \<Rightarrow> ('s, (RowId \<times> pval list) list) st" where
  "scan_all ops tbl ctx s = table_scan ops tbl ctx collect_row (po_count ops s + 1) [] s"

definition table_get :: "'s pool_ops \<Rightarrow> Table \<Rightarrow> RowId \<Rightarrow> ('s, pval list option) st" where
  "table_get ops tbl rid =
     sbind (po_get ops (rid_page_id rid) None) (\<lambda>data.
     sbind (slift (page_from_data (rid_page_id rid) data)) (\<lambda>page.
     sbind (slift (get_row_from_page page (rid_slot_index rid))) (\<lambda>row_data. case row_data of
       None \<Rightarrow> sret None
     | Some d \<Rightarrow> sbind (slift (deserialize_row d (tbl_columns tbl))) (\<lambda>values. sret (Some values)))))"

definition table_delete :: "'s pool_ops \<Rightarrow> Table \<Rightarrow> RowId \<Rightarrow> exec_context option \<Rightarrow> ('s, unit) st" where
  "table_delete ops tbl rid ctx =
     sbind (acquire_lock ops ctx (rid_page_id rid) EXCLUSIVE) (\<lambda>_.
     sbind (po_get ops (rid_page_id rid) None) (\<lambda>data.
     sbind (slift (page_from_data (rid_page_id rid) data)) (\<lambda>page.
     sbind (slift (delete_row_from_page page (rid_slot_index rid))) (\<lambda>page'.
       po_set ops (rid_page_id rid) (p_data page')))))"

text \<open>
  The page edit of \<open>update\<close> when the new row fits: the row is written below the rows and the slot
  is pointed to it. The old bytes are counted as free although nothing is moved over them.
\<close>

definition update_in_place :: "bytes \<Rightarrow> nat \<Rightarrow> bytes \<Rightarrow> bytes res" where
  "update_in_place data slot_pos serialized =
     rbind (parse_page_header data) (\<lambda>h.
     rbind (unpack_u 2 data slot_pos) (\<lambda>_.
     rbind (unpack_u 2 data (slot_pos + 2)) (\<lambda>old_length.
       let n = int (length serialized);
           write_offset = int (h_free_offset h) - n;
           data1 = slice_set data write_offset (write_offset + n) serialized in
       rbind (pack_u 2 write_offset) (\<lambda>a. rbind (pack_u 2 n) (\<lambda>b.
       rbind (pack_into data1 slot_pos (a @ b)) (\<lambda>data2.
       rbind (pack_page_header (h\<lparr>h_free_space := h_free_space h + old_length - length serialized,
           h_free_offset := nat write_offset\<rparr>)) (\<lambda>new_header.
         Inr (slice_set data2 0 32 new_header))))))))"

definition table_update ::
  "'s pool_ops \<Rightarrow> Table \<Rightarrow> RowId \<Rightarrow> pval list \<Rightarrow> exec_context option \<Rightarrow> ('s, RowId) st" where
  "table_update ops tbl rid new_row ctx =
     sbind (acquire_lock ops ctx (rid_page_id rid) EXCLUSIVE) (\<lambda>_.
     sbind (slift (convert_row new_row (tbl_columns tbl))) (\<lambda>converted.
     sbind (slift (serialize_row converted (tbl_columns tbl))) (\<lambda>serialized.
     sbind (po_get ops (rid_page_id rid) None) (\<lambda>data.
     sbind (slift (parse_page_header data)) (\<lambda>h.
     let slot_pos = 32 + rid_slot_index rid * 4 in
     sbind (slift (unpack_u 2 data slot_pos)) (\<lambda>_.
     sbind (slift (unpack_u 2 data (slot_pos + 2))) (\<lambda>old_length.
       if length serialized \<le> h_free_space h + old_length then
         sbind (slift (update_in_place data slot_pos serialized)) (\<lambda>data'.
         sbind (po_set ops (rid_page_id rid) data') (\<lambda>_. sret rid))
       else
         sbind (slift (pack_into data slot_pos (le_bytes 2 0 @ le_bytes 2 0))) (\<lambda>data'.
         sbind (po_set ops (rid_page_id rid) data') (\<lambda>_.
           table_insert ops tbl new_row ctx)))))))))"

section \<open>Contents of a table\<close>

text \<open>
  \<open>chain L V p ps r\<close>: following the next pointers from \<open>p\<close> visits the pages \<open>ps\<close> and arrives at
  \<open>r\<close>; all of them are live, well-formed data pages. \<open>contents V ps\<close> lists the rows by position.
\<close>

definition data_page :: "bytes \<Rightarrow> bool" where
  "data_page d \<longleftrightarrow> wf_page d \<and> (\<exists>h. parse_page_header d = Inr h \<and> h_page_type h = DATA)"

definition open_data :: "bytes \<Rightarrow> bool" where
  "open_data d \<longleftrightarrow> open_page d \<and> (\<exists>h. parse_page_header d = Inr h \<and> h_page_type h = DATA)"

fun chain_of :: "(bytes \<Rightarrow> bool) \<Rightarrow> (nat \<Rightarrow> bool) \<Rightarrow> (nat \<Rightarrow> bytes option) \<Rightarrow> nat \<Rightarrow> nat list \<Rightarrow> nat \<Rightarrow> bool" where
  "chain_of P L V p [] r = (p = r)"
| "chain_of P L V p (x # xs) r = (p = x \<and> 0 < x \<and> L x \<and>
     (\<exists>d. V x = Some d \<and> P d \<and> chain_of P L V (page_next d) xs r))"

abbreviation chain :: "(nat \<Rightarrow> bool) \<Rightarrow> (nat \<Rightarrow> bytes option) \<Rightarrow> nat \<Rightarrow> nat list \<Rightarrow> nat \<Rightarrow> bool" where
  "chain \<equiv> chain_of data_page"

definition live_slots :: "nat \<Rightarrow> bytes option list \<Rightarrow> (RowId \<times> bytes) list" where
  "live_slots p rs = List.map_filter
     (\<lambda>i. map_option (\<lambda>r. (\<lparr>rid_page_id = p, rid_slot_index = i\<rparr>, r)) (rs ! i)) [0..<length rs]"

definition rows_at :: "(nat \<Rightarrow> bytes option) \<Rightarrow> nat \<Rightarrow> bytes option list" where
  "rows_at V p = (case V p of None \<Rightarrow> [] | Some d \<Rightarrow> page_rows d)"

definition contents :: "(nat \<Rightarrow> bytes option) \<Rightarrow> nat list \<Rightarrow> (RowId \<times> bytes) list" where
  "contents V ps = concat (map (\<lambda>p. live_slots p (rows_at V p)) ps)"

definition decode_rows :: "ColumnDef list \<Rightarrow> (RowId \<times> bytes) list \<Rightarrow> (RowId \<times> pval list) list res" where
  "decode_rows cols = rmap (\<lambda>(rid, d). rbind (deserialize_row d cols) (\<lambda>vs. Inr (rid, vs)))"

lemma decode_rows_append:
  "decode_rows cols (xs @ ys) = Inr out \<longleftrightarrow>
     (\<exists>us vs. decode_rows cols xs = Inr us \<and> decode_rows cols ys = Inr vs \<and> out = us @ vs)"
  by (auto simp: decode_rows_def rmap_append)

definition table_ok :: "(nat \<Rightarrow> bool) \<Rightarrow> (nat \<Rightarrow> bytes option) \<Rightarrow> Table \<Rightarrow> nat list \<Rightarrow> bool" where
  "table_ok L V tbl ps \<longleftrightarrow> chain L V (tbl_root tbl) ps 0 \<and> distinct ps \<and> ps \<noteq> []"

text \<open>A table that can be read, though its pages may promise more free space than they have.\<close>

definition readable :: "(nat \<Rightarrow> bool) \<Rightarrow> (nat \<Rightarrow> bytes option) \<Rightarrow> Table \<Rightarrow> nat list \<Rightarrow> bool" where
  "readable L V tbl ps \<longleftrightarrow> chain_of open_data L V (tbl_root tbl) ps 0 \<and> distinct ps \<and> ps \<noteq> []"

lemma data_page_open [intro]: "data_page d \<Longrightarrow> open_data d"
  by (auto simp: data_page_def open_data_def)

lemma map_filter_append_last:
  "List.map_filter f (xs @ [x]) = List.map_filter f xs @ (case f x of None \<Rightarrow> [] | Some y \<Rightarrow> [y])"
  by (induction xs) (auto simp: map_filter_simps split: option.splits)

lemma map_filter_cong2: "(\<And>x. x \<in> set xs \<Longrightarrow> f x = g x) \<Longrightarrow> List.map_filter f xs = List.map_filter g xs"
  by (induction xs) (auto simp: map_filter_simps split: option.splits)

lemma live_slots_append:
  "live_slots p (rs @ [Some r]) = live_slots p rs @ [(\<lparr>rid_page_id = p, rid_slot_index = length rs\<rparr>, r)]"
proof -
  let ?f = "\<lambda>rs i. map_option (\<lambda>r. (\<lparr>rid_page_id = p, rid_slot_index = i\<rparr>, r)) (rs ! i)"
  have "List.map_filter (?f (rs @ [Some r])) [0..<length rs] = List.map_filter (?f rs) [0..<length rs]"
    by (rule map_filter_cong2) (simp add: nth_append)
  then show ?thesis by (simp add: live_slots_def map_filter_append_last nth_append)
qed

lemma live_slots_page: "(rid, d) \<in> set (live_slots p rs) \<Longrightarrow> rid_page_id rid = p"
  by (auto simp: live_slots_def List.map_filter_def)

lemma live_slots_delete:
  "live_slots p (rs[i := None]) =
     filter (\<lambda>(rid, _). rid \<noteq> \<lparr>rid_page_id = p, rid_slot_index = i\<rparr>) (live_slots p rs)"
proof -
  have upd: "rs[i := None] ! j = (if j = i then None else rs ! j)" if "j < length rs" for j
    using that by (cases "i < length rs") (auto simp: nth_list_update)
  have "List.map_filter (\<lambda>j. map_option (\<lambda>r. (\<lparr>rid_page_id = p, rid_slot_index = j\<rparr>, r)) (rs[i := None] ! j)) xs =
     filter (\<lambda>(rid, _). rid \<noteq> \<lparr>rid_page_id = p, rid_slot_index = i\<rparr>)
       (List.map_filter (\<lambda>j. map_option (\<lambda>r. (\<lparr>rid_page_id = p, rid_slot_index = j\<rparr>, r)) (rs ! j)) xs)"
    if "\<forall>j \<in> set xs. j < length rs" for xs
    using that by (induction xs) (auto simp: map_filter_simps upd split: option.splits)
  then show ?thesis by (simp add: live_slots_def)
qed

lemma rows_at_cong: "V' p = V p \<Longrightarrow> rows_at V' p = rows_at V p"
  by (simp add: rows_at_def)

lemma contents_cong: "(\<And>p. p \<in> set ps \<Longrightarrow> rows_at V' p = rows_at V p) \<Longrightarrow> contents V' ps = contents V ps"
  unfolding contents_def by (intro arg_cong [where f = concat] map_cong) simp_all

lemma contents_append [simp]: "contents V (xs @ ys) = contents V xs @ contents V ys"
  by (simp add: contents_def)

lemma contents_simps [simp]: "contents V [] = []" "contents V (p # ps) = live_slots p (rows_at V p) @ contents V ps"
  by (simp_all add: contents_def)

lemma contents_page: "(rid, d) \<in> set (contents V ps) \<Longrightarrow> rid_page_id rid \<in> set ps"
  by (auto simp: contents_def dest: live_slots_page)

lemma contents_split:
  assumes "p \<in> set ps" and "distinct ps" and "\<And>q. q \<in> set ps \<Longrightarrow> q \<noteq> p \<Longrightarrow> rows_at V' q = rows_at V q"
  obtains xs ys where "contents V ps = xs @ live_slots p (rows_at V p) @ ys"
    "contents V' ps = xs @ live_slots p (rows_at V' p) @ ys"
    "\<forall>e \<in> set xs \<union> set ys. rid_page_id (fst e) \<noteq> p"
proof -
  obtain as bs where ps: "ps = as @ p # bs" using assms(1) by (meson split_list)
  then have n: "p \<notin> set as" "p \<notin> set bs" using assms(2) by auto
  have "contents V' as = contents V as" "contents V' bs = contents V bs"
    using assms(3) n ps by (auto intro!: contents_cong)
  moreover have "\<forall>e \<in> set (contents V as) \<union> set (contents V bs). rid_page_id (fst e) \<noteq> p"
    using n contents_page [of _ _ V as] contents_page [of _ _ V bs] by fastforce
  ultimately show thesis using ps by (intro that [of "contents V as" "contents V bs"]) simp_all
qed

lemma chain_append:
  "chain_of P L V p (xs @ ys) r \<longleftrightarrow> (\<exists>m. chain_of P L V p xs m \<and> chain_of P L V m ys r)"
  by (induction xs arbitrary: p) auto

lemma chain_pages:
  "chain_of P L V p ps r \<Longrightarrow> x \<in> set ps \<Longrightarrow> 0 < x \<and> L x \<and> (\<exists>d. V x = Some d \<and> P d)"
  by (induction ps arbitrary: p) auto

lemma chain_mono:
  "chain_of P L V p ps r \<Longrightarrow>
   (\<And>x d. x \<in> set ps \<Longrightarrow> L x \<Longrightarrow> V x = Some d \<Longrightarrow> P d \<Longrightarrow>
      L' x \<and> (\<exists>d'. V' x = Some d' \<and> Q d' \<and> page_next d' = page_next d)) \<Longrightarrow>
   chain_of Q L' V' p ps r"
proof (induction ps arbitrary: p)
  case (Cons x ps)
  then obtain d where d: "p = x" "0 < x" "L x" "V x = Some d" "P d" "chain_of P L V (page_next d) ps r"
    by auto
  obtain d' where d': "L' x" "V' x = Some d'" "Q d'" "page_next d' = page_next d"
    using Cons.prems(2) [OF _ d(3-5)] by auto
  have "chain_of Q L' V' (page_next d) ps r" by (rule Cons.IH [OF d(6)]) (use Cons.prems(2) in auto)
  with d d' show ?case by simp
qed simp

lemma table_ok_readable [intro]: "table_ok L V tbl ps \<Longrightarrow> readable L V tbl ps"
  unfolding table_ok_def readable_def by (auto intro: chain_mono)

lemma page_next_parse: "parse_page_header d = Inr h \<Longrightarrow> page_next d = h_next_page_id h"
  by (auto simp: page_next_def parse_page_header_def split: if_splits)

lemma data_pageE:
  assumes "data_page d"
  obtains h where "wf_page d" "parse_page_header d = Inr h" "h_page_type h = DATA" "length d = 4096"
    "header_fits h" "page_next d = h_next_page_id h" "parses d"
  using assms parse_page_header_fits page_next_parse
  by (auto simp: data_page_def parses_def wf_page_def)

lemma open_dataE:
  assumes "open_data d"
  obtains h where "open_page d" "parse_page_header d = Inr h" "h_page_type h = DATA" "length d = 4096"
    "header_fits h" "page_next d = h_next_page_id h" "parses d"
  using assms parse_page_header_fits page_next_parse
  by (auto simp: open_data_def parses_def open_page_def)

section \<open>Page edits\<close>

definition relinked :: "bytes \<Rightarrow> page_header \<Rightarrow> nat \<Rightarrow> bytes" where
  "relinked d h q = overwrite d 0 (header_bytes (h\<lparr>h_next_page_id := q\<rparr>))"

lemma relinked_facts:
  assumes wf: "wf_page d" and h: "parse_page_header d = Inr h" and q: "q < 2 ^ 32"
  shows "parse_page_header (relinked d h q) = Inr (h\<lparr>h_next_page_id := q\<rparr>)"
    and "wf_page (relinked d h q)" and "page_rows (relinked d h q) = page_rows d"
proof -
  from wf h have len: "length d = 4096" and fo: "h_free_offset h \<le> 4096"
    and sl: "32 + 4 * h_slot_count h + h_free_space h \<le> h_free_offset h" and fits: "header_fits h"
    and ok: "\<And>k. k < h_slot_count h \<Longrightarrow> slot_len d k = 0 \<or>
       (h_free_offset h \<le> slot_off d k \<and> slot_off d k + slot_len d k \<le> 4096)"
    by (auto elim!: wf_pageE)
  let ?h = "h\<lparr>h_next_page_id := q\<rparr>" and ?e = "relinked d h q"
  have fits': "header_fits ?h" using fits q by (simp add: header_fits_def)
  show p: "parse_page_header ?e = Inr ?h"
    unfolding relinked_def using len fits' by (simp add: parse_overwrite_header)
  have same: "slot_off ?e k = slot_off d k" "slot_len ?e k = slot_len d k" if "k < h_slot_count h" for k
    unfolding relinked_def using that len fo sl by (simp_all add: slot_overwrite_other)
  have body: "take n (drop a ?e) = take n (drop a d)" if "h_free_offset h \<le> a" "a + n \<le> 4096" for a n
    unfolding relinked_def using that len fo sl by (simp add: take_drop_overwrite_other)
  have "slot_row ?e k = slot_row d k" if "k < h_slot_count h" for k
    using same [OF that] ok [OF that] body by (auto simp: slot_row_def)
  then show "page_rows ?e = page_rows d" by (simp add: page_rows_eq [OF h] page_rows_eq [OF p])
  have "length ?e = 4096" using len by (simp add: relinked_def)
  then show "wf_page ?e" unfolding wf_page_def using p fo sl same ok by auto
qed

lemma page_from_data_ok:
  "parse_page_header d = Inr h \<Longrightarrow> page_from_data p d =
   Inr \<lparr>p_page_id = p, p_page_type = Some (h_page_type h), p_data = d, p_dirty = False\<rparr>"
  by (simp add: page_from_data_def)

lemma data_page_inserted:
  assumes "data_page d" and h: "parse_page_header d = Inr h" and sp: "length row + 4 \<le> h_free_space h"
  shows "data_page (inserted_data d h row)" and "page_next (inserted_data d h row) = page_next d"
proof -
  have wf: "wf_page d" and t: "h_page_type h = DATA" using assms by (auto simp: data_page_def)
  note f = inserted_data_facts(2) [OF wf h sp] and w = inserted_data_wf [OF wf h sp]
  show "data_page (inserted_data d h row)" using w f t by (simp add: data_page_def)
  show "page_next (inserted_data d h row) = page_next d"
    using page_next_parse [OF f] page_next_parse [OF h] by simp
qed

lemma data_page_empty:
  assumes "q < 2 ^ 32"
  shows "data_page (empty_page_data q DATA)" and "page_next (empty_page_data q DATA) = 0"
    and "page_rows (empty_page_data q DATA) = []"
  using wf_empty_page [OF assms] parse_empty_page [OF assms] page_next_parse [OF parse_empty_page [OF assms]]
    page_rows_empty_page [OF assms]
  by (auto simp: data_page_def)

lemma live_slots_index: "(rid, d) \<in> set (live_slots p rs) \<Longrightarrow> rid_slot_index rid < length rs"
  by (auto simp: live_slots_def List.map_filter_def)

lemma live_slots_mem:
  "(\<lparr>rid_page_id = p, rid_slot_index = i\<rparr>, d) \<in> set (live_slots p rs) \<longleftrightarrow> i < length rs \<and> rs ! i = Some d"
  by (force simp: live_slots_def List.map_filter_def)

lemma rowid_eta [simp]: "\<lparr>rid_page_id = rid_page_id rid, rid_slot_index = rid_slot_index rid\<rparr> = rid"
  by (cases rid) simp

lemma decode_rows_keys: "decode_rows cols xs = Inr out \<Longrightarrow> map fst out = map fst xs"
  by (induction xs arbitrary: out) (auto simp: decode_rows_def)

section \<open>Scanning\<close>

text \<open>
  The loop rule of a scan whose body changes the table it scans. A page is read once, when the scan comes to it,
  and its rows are taken from that copy. \<open>P qs todo acc s\<close> holds when the pages \<open>qs\<close> are still to be read and the rows
  \<open>todo\<close> of this page and of those are still to be visited; \<open>Q\<close> is what holds in the end.
\<close>

fun run_rows :: "('s, 'a) row_body \<Rightarrow> (RowId \<times> pval list) list \<Rightarrow> 'a \<Rightarrow> ('s, 'a) st" where
  "run_rows body [] acc = sret acc"
| "run_rows body ((rid, vs) # rest) acc = sbind (body rid vs acc) (\<lambda>acc'. run_rows body rest acc')"

lemma run_rows_fold: "run_rows (\<lambda>rid vs acc. slift (g (rid, vs) acc)) xs acc s = (rfold g xs acc, s)"
  by (induction xs arbitrary: acc) (auto simp: sbind_def split: sum.split)

lemma scan_slots_run:
  assumes wf: "open_page (p_data page)" and rs: "rs = page_rows (p_data page)"
    and "\<forall>i \<in> set is. i < length rs"
    and dec: "decode_rows cols (List.map_filter
      (\<lambda>i. map_option (\<lambda>r. (\<lparr>rid_page_id = p_page_id page, rid_slot_index = i\<rparr>, r)) (rs ! i)) is) = Inr out"
  shows "scan_slots page cols body is acc s = run_rows body out acc s"
  using assms(3) dec
proof (induction "is" arbitrary: acc out s)
  case Nil
  then show ?case by (simp add: decode_rows_def map_filter_simps)
next
  case (Cons i "is")
  have r: "get_row_from_page page i = Inr (rs ! i)" using get_row_eq [OF wf, of i] Cons.prems(1) rs by simp
  show ?case
  proof (cases "rs ! i")
    case None
    with Cons.prems have "decode_rows cols (List.map_filter
      (\<lambda>i. map_option (\<lambda>r. (\<lparr>rid_page_id = p_page_id page, rid_slot_index = i\<rparr>, r)) (rs ! i)) is) = Inr out"
      by (simp add: map_filter_simps)
    with Cons.IH [OF _ this] Cons.prems(1) r None show ?thesis by (simp add: sbind_def)
  next
    case (Some d)
    with Cons.prems(2) obtain vs out' where o: "deserialize_row d cols = Inr vs"
      "out = (\<lparr>rid_page_id = p_page_id page, rid_slot_index = i\<rparr>, vs) # out'"
      "decode_rows cols (List.map_filter
      (\<lambda>i. map_option (\<lambda>r. (\<lparr>rid_page_id = p_page_id page, rid_slot_index = i\<rparr>, r)) (rs ! i)) is) = Inr out'"
      by (auto simp: decode_rows_def map_filter_simps)
    with Cons.IH [OF _ o(3)] Cons.prems(1) r Some show ?thesis
      by (auto simp: sbind_def split: prod.split sum.split)
  qed
qed

lemma run_rows_invariant:
  assumes body: "\<And>rid vs todo acc s. R rid \<Longrightarrow> P ((rid, vs) # todo) acc s \<Longrightarrow>
      (case body rid vs acc s of (Inl e, s') \<Rightarrow> Q (Inl e) s' | (Inr acc', s') \<Rightarrow> P todo acc' s')"
  shows "\<forall>u \<in> set us. R (fst u) \<Longrightarrow> P (us @ vs) acc s \<Longrightarrow>
    (case run_rows body us acc s of (Inl e, s') \<Rightarrow> Q (Inl e) s' | (Inr acc', s') \<Rightarrow> P vs acc' s')"
proof (induction us arbitrary: acc s)
  case (Cons u us)
  obtain rid ws where u: "u = (rid, ws)" by (cases u)
  obtain r s1 where b: "body rid ws acc s = (r, s1)" by (cases "body rid ws acc s")
  from body [of rid ws "us @ vs" acc s] Cons.prems u b
  have "case r of Inl e \<Rightarrow> Q (Inl e) s1 | Inr acc' \<Rightarrow> P (us @ vs) acc' s1" by (auto split: sum.splits)
  then show ?case using Cons.IH [of "projr r" s1] Cons.prems(1) u b by (cases r) (simp_all add: sbind_def)
qed simp

lemma scan_loop:
  assumes get: "\<And>x qs todo acc s d. P (x # qs) todo acc s \<Longrightarrow> V x = Some d \<Longrightarrow> open_data d \<Longrightarrow>
      \<exists>s'. po_get ops x None s = (Inr d, s') \<and> P qs todo acc s'"
    and body: "\<And>qs rid vs todo acc s. rid_page_id rid \<notin> set qs \<Longrightarrow> P qs ((rid, vs) # todo) acc s \<Longrightarrow>
      (case body rid vs acc s of (Inl e, s') \<Rightarrow> Q (Inl e) s' | (Inr acc', s') \<Rightarrow> P qs todo acc' s')"
    and fin: "\<And>acc s. P [] [] acc s \<Longrightarrow> Q (Inr acc) s"
  shows "chain_of open_data L V p qs 0 \<Longrightarrow> distinct qs \<Longrightarrow> length qs < fuel \<Longrightarrow> decode_rows cols (contents V qs) = Inr todo \<Longrightarrow>
    P qs todo acc s \<Longrightarrow> \<exists>r s'. scan_pages ops cols None body fuel p acc s = (r, s') \<and> Q r s'"
proof (induction qs arbitrary: p acc fuel todo s)
  case Nil
  then show ?case using fin by (simp add: decode_rows_def)
next
  case (Cons x qs)
  then obtain d f k where d: "p = x" "x = Suc k" "V x = Some d" "open_data d"
      "chain_of open_data L V (page_next d) qs 0" and f: "fuel = Suc f" "length qs < f"
    by (cases fuel; cases x) auto
  obtain s1 where s1: "po_get ops x None s = (Inr d, s1)" "P qs todo acc s1"
    using get [OF Cons.prems(5) d(3,4)] by blast
  obtain h where h: "parse_page_header d = Inr h" "h_page_type h = DATA" "page_next d = h_next_page_id h"
      and wf: "open_page d"
    using d(4) by (rule open_dataE)
  obtain us vs where out: "todo = us @ vs" "decode_rows cols (live_slots x (rows_at V x)) = Inr us"
      "decode_rows cols (contents V qs) = Inr vs"
    using Cons.prems(4) by (auto simp: decode_rows_append)
  let ?pg = "\<lparr>p_page_id = x, p_page_type = Some (h_page_type h), p_data = d, p_dirty = False\<rparr>"
  have len: "length (page_rows d) = h_slot_count h" by (simp add: page_rows_eq [OF h(1)])
  have sl: "scan_slots ?pg cols body [0..<h_slot_count h] acc s1 = run_rows body us acc s1"
    by (rule scan_slots_run [where rs = "page_rows d"])
      (use wf out(2) d(3) len in \<open>simp_all add: rows_at_def live_slots_def\<close>)
  have step: "scan_pages ops cols None body fuel p acc s =
      sbind (run_rows body us acc) (scan_pages ops cols None body f (h_next_page_id h)) s1"
    using s1(1) d(1,2) f(1) h sl page_from_data_ok [OF h(1), of x] by (simp add: sbind_def)
  obtain r s2 where r: "run_rows body us acc s1 = (r, s2)" by (cases "run_rows body us acc s1")
  have "P qs (us @ vs) acc s1" using s1(2) out(1) by simp
  moreover have "rid_page_id (fst u) \<notin> set qs" if "u \<in> set us" for u
  proof -
    have "fst u \<in> set (map fst us)" using that by simp
    then have "fst u \<in> set (map fst (live_slots x (rows_at V x)))" by (simp only: decode_rows_keys [OF out(2)])
    then obtain b where "(fst u, b) \<in> set (live_slots x (rows_at V x))" by auto
    then have "rid_page_id (fst u) = x" by (rule live_slots_page)
    then show ?thesis using Cons.prems(2) by simp
  qed
  ultimately have "case run_rows body us acc s1 of (Inl e, s') \<Rightarrow> Q (Inl e) s' | (Inr acc', s') \<Rightarrow> P qs vs acc' s'"
    by (intro run_rows_invariant [where R = "\<lambda>rid. rid_page_id rid \<notin> set qs" and P = "P qs" and body = body and Q = Q, OF body])
      blast+
  with r
  have j: "case r of Inl e \<Rightarrow> Q (Inl e) s2 | Inr acc' \<Rightarrow> P qs vs acc' s2" by (auto split: sum.splits)
  show ?case
  proof (cases r)
    case (Inl e)
    then show ?thesis using step r j by (simp add: sbind_def)
  next
    case (Inr acc')
    have "chain_of open_data L V (h_next_page_id h) qs 0" using d(5) h(3) by simp
    from Cons.IH [OF this _ f(2) out(3), of acc' s2] Cons.prems(2) Inr j show ?thesis using step r by (simp add: sbind_def)
  qed
qed

section \<open>The operations on any page store\<close>

context page_store
begin

definition unchanged :: "'s \<Rightarrow> 's \<Rightarrow> bool" where
  "unchanged s s' \<longleftrightarrow> live s' = live s \<and> (\<forall>q. live s q \<longrightarrow> view s' q = view s q)"

lemma unchanged_refl [simp]: "unchanged s s"
  by (simp add: unchanged_def)

lemma unchanged_trans: "unchanged s t \<Longrightarrow> unchanged t u \<Longrightarrow> unchanged s u"
  by (simp add: unchanged_def)

lemma unchanged_chain:
  "unchanged s s' \<Longrightarrow> chain_of P (live s) (view s) p ps r \<Longrightarrow> chain_of P (live s') (view s') p ps r"
  by (erule chain_mono) (auto simp: unchanged_def)

lemma unchanged_table:
  "unchanged s s' \<Longrightarrow> table_ok (live s) (view s) tbl ps \<Longrightarrow> table_ok (live s') (view s') tbl ps"
  by (auto simp: table_ok_def intro: unchanged_chain)

lemma unchanged_readable:
  "unchanged s s' \<Longrightarrow> readable (live s) (view s) tbl ps \<Longrightarrow> readable (live s') (view s') tbl ps"
  by (auto simp: readable_def intro: unchanged_chain)

lemma unchanged_rows:
  assumes "unchanged s s'" and "chain_of P (live s) (view s) p ps r"
  shows "contents (view s') ps = contents (view s) ps"
proof (rule contents_cong)
  fix q assume "q \<in> set ps"
  then have "live s q" using chain_pages [OF assms(2)] by blast
  with assms(1) show "rows_at (view s') q = rows_at (view s) q"
    by (intro rows_at_cong) (simp add: unchanged_def)
qed

lemma unchanged_contents:
  "unchanged s s' \<Longrightarrow> table_ok (live s) (view s) tbl ps \<Longrightarrow> contents (view s') ps = contents (view s) ps"
  by (auto simp: table_ok_def intro: unchanged_rows)

lemma get_open:
  assumes "inv n s" and "live s p" and "view s p = Some d" and "open_data d"
  shows "\<exists>s'. po_get ops p None s = (Inr d, s') \<and> inv n s' \<and> unchanged s s' \<and> ready s' p \<and>
    (\<forall>q. fresh s q \<longrightarrow> q \<noteq> p \<longrightarrow> fresh s' q)"
proof -
  have "parses d" using assms(4) by (rule open_dataE)
  from get_law [OF assms(1-3) this] show ?thesis by (auto simp: unchanged_def)
qed

lemma get_ok:
  assumes "inv n s" and "live s p" and "view s p = Some d" and "data_page d"
  shows "\<exists>s'. po_get ops p None s = (Inr d, s') \<and> inv n s' \<and> unchanged s s' \<and> ready s' p \<and>
    (\<forall>q. fresh s q \<longrightarrow> q \<noteq> p \<longrightarrow> fresh s' q)"
proof -
  have "parses d" using assms(4) by (rule data_pageE)
  from get_law [OF assms(1-3) this] show ?thesis by (auto simp: unchanged_def)
qed

lemma find_space_ok:
  "chain (live s) (view s) p ps 0 \<Longrightarrow> inv n s \<Longrightarrow> length ps < fuel \<Longrightarrow>
   \<exists>r s'. find_space ops fuel needed p l s = (Inr r, s') \<and> inv n s' \<and> unchanged s s' \<and>
     (case fst r of
        Some q \<Rightarrow> q \<in> set ps \<and> (\<exists>d h. view s q = Some d \<and> parse_page_header d = Inr h \<and> needed \<le> h_free_space h)
      | None \<Rightarrow> snd r = (if ps = [] then l else Some (last ps)))"
proof (induction ps arbitrary: s p l fuel)
  case Nil
  then show ?case by simp
next
  case (Cons x ps)
  then obtain d f k where d: "p = x" "x = Suc k" "live s x" "view s x = Some d" "data_page d"
      "chain (live s) (view s) (page_next d) ps 0" and f: "fuel = Suc f" "length ps < f"
    by (cases fuel; cases x) auto
  obtain s1 where s1: "po_get ops x None s = (Inr d, s1)" "inv n s1" "unchanged s s1"
    using get_ok [OF Cons.prems(2) d(3-5)] by blast
  obtain h where h: "parse_page_header d = Inr h" "h_page_type h = DATA" "page_next d = h_next_page_id h"
    using d(5) by (rule data_pageE)
  show ?case
  proof (cases "needed \<le> h_free_space h")
    case True
    then have "find_space ops fuel needed p l s = (Inr (Some x, Some x), s1)"
      using s1(1) d(1,2) f(1) h by (simp add: sbind_def get_free_space_raw_def)
    then show ?thesis using s1 d(4) h True by auto
  next
    case False
    have "chain (live s1) (view s1) (h_next_page_id h) ps 0"
      using unchanged_chain [OF s1(3) d(6)] h(3) by simp
    from Cons.IH [OF this s1(2) f(2), of "Some x"] obtain r s2 where
      r: "find_space ops f needed (h_next_page_id h) (Some x) s1 = (Inr r, s2)" "inv n s2" "unchanged s1 s2"
        "case fst r of
        Some q \<Rightarrow> q \<in> set ps \<and> (\<exists>d h. view s1 q = Some d \<and> parse_page_header d = Inr h \<and> needed \<le> h_free_space h)
      | None \<Rightarrow> snd r = (if ps = [] then Some x else Some (last ps))" by blast
    have e: "find_space ops fuel needed p l s = (Inr r, s2)"
      using s1(1) d(1,2) f(1) h False r(1) by (simp add: sbind_def get_free_space_raw_def)
    have "view s1 q = view s q" if "q \<in> set ps" for q
      using chain_pages [OF d(6) that] s1(3) by (simp add: unchanged_def)
    then show ?thesis
      using e r(2,4) unchanged_trans [OF s1(3) r(3)] by (auto split: option.splits)
  qed
qed

lemma insert_into_ok:
  assumes inv: "inv (Suc n) s" and q: "live s q" "view s q = Some d" and dp: "data_page d"
    and h: "parse_page_header d = Inr h" and sp: "length row + 4 \<le> h_free_space h"
  shows "\<exists>s'. insert_into ops q row s = (Inr \<lparr>rid_page_id = q, rid_slot_index = h_slot_count h\<rparr>, s') \<and>
    inv n s' \<and> live s' = live s \<and>
    (\<forall>r. live s r \<longrightarrow> view s' r = (if r = q then Some (inserted_data d h row) else view s r))"
proof -
  obtain s1 where s1: "po_get ops q None s = (Inr d, s1)" "inv (Suc n) s1" "unchanged s s1" "ready s1 q"
    using get_ok [OF inv q dp] by blast
  let ?pg = "\<lparr>p_page_id = q, p_page_type = Some (h_page_type h), p_data = d, p_dirty = False\<rparr>"
  have wf: "wf_page (p_data ?pg)" using dp by (simp add: data_page_def)
  have i: "insert_row_into_page ?pg row = Inr (h_slot_count h, ?pg\<lparr>p_data := inserted_data d h row, p_dirty := True\<rparr>)"
    using insert_row_ok [OF wf _ sp] h by simp
  have "parses (inserted_data d h row)"
    using data_page_inserted(1) [OF dp h sp] by (rule data_pageE)
  moreover have "live s1 q" using s1(3) q by (simp add: unchanged_def)
  ultimately obtain s2 where "po_set ops q (inserted_data d h row) s1 = (Inr (), s2)" "inv n s2"
    "live s2 = live s1"
    "\<forall>r. live s1 r \<longrightarrow> view s2 r = (if r = q then Some (inserted_data d h row) else view s1 r)"
    using set_law [OF s1(2) _ s1(4)] by blast
  with s1 h i show ?thesis
    by (simp add: insert_into_def sbind_def page_from_data_def unchanged_def)
qed

lemma append_page_ok:
  assumes inv: "inv (Suc (Suc n)) s" and l: "live s l" "view s l = Some d" and dp: "data_page d"
    and h: "parse_page_header d = Inr h"
  shows "\<exists>q s'. append_page ops (Some l) s = (Inr q, s') \<and> \<not> live s q \<and> 0 < q \<and> q < 2 ^ 32 \<and> inv n s' \<and>
    live s' = (live s)(q := True) \<and> view s' q = Some (empty_page_data q DATA) \<and>
    (\<forall>r. live s r \<longrightarrow> view s' r = (if r = l then Some (relinked d h q) else view s r))"
proof -
  obtain q s1 where a: "po_alloc ops s = (Inr q, s1)" "\<not> live s q" "q < 2 ^ 32" "inv (Suc n) s1"
      "live s1 = (live s)(q := True)" "\<forall>r. live s r \<longrightarrow> view s1 r = view s r" "fresh s1 q"
    using alloc_law [OF inv] by blast
  have lq: "l \<noteq> q" using a(2) l by auto
  have q0: "0 < q" using live_page [OF a(4), of q] a(5) by simp
  have l1: "live s1 l" "view s1 l = Some d" using a(5,6) l by auto
  obtain s2 where g: "po_get ops l None s1 = (Inr d, s2)" "inv (Suc n) s2" "unchanged s1 s2" "ready s2 l"
      "\<forall>r. fresh s1 r \<longrightarrow> r \<noteq> l \<longrightarrow> fresh s2 r"
    using get_ok [OF a(4) l1 dp] by blast
  have wf: "wf_page d" and hf: "header_fits h" and len: "length d = 4096"
    using dp h by (auto elim: data_pageE)
  note rl = relinked_facts [OF wf h a(3)]
  have fits: "header_fits (h\<lparr>h_next_page_id := q\<rparr>)" using hf a(3) by (simp add: header_fits_def)
  have sl: "slice_set d 0 32 (header_bytes (h\<lparr>h_next_page_id := q\<rparr>)) = relinked d h q"
    using slice_set_header [of d "h\<lparr>h_next_page_id := q\<rparr>"] len by (simp add: relinked_def page_consts)
  have "parses (relinked d h q)" using rl(1,2) by (auto simp: parses_def wf_page_def)
  moreover have "live s2 l" using g(3) l1 by (simp add: unchanged_def)
  ultimately obtain s3 where s3: "po_set ops l (relinked d h q) s2 = (Inr (), s3)" "inv n s3" "live s3 = live s2"
      "\<forall>r. live s2 r \<longrightarrow> view s3 r = (if r = l then Some (relinked d h q) else view s2 r)"
      "\<forall>r. fresh s2 r \<longrightarrow> r \<noteq> l \<longrightarrow> fresh s3 r"
    using set_law [OF g(2) _ g(4)] by blast
  have lk: "link_page ops l q s1 = (Inr (), s3)"
    using g(1) h pack_page_header_ok [OF fits] sl s3(1) by (simp add: link_page_def sbind_def)
  have l3: "live s3 = (live s)(q := True)" using s3(3) g(3) a(5) by (simp add: unchanged_def)
  have "fresh s3 q" using a(7) g(5) s3(5) lq by blast
  moreover have "parses (empty_page_data q DATA)" using a(3) by (rule parses_empty)
  ultimately obtain s4 where s4: "po_write ops q (empty_page_data q DATA) s3 = (Inr (), s4)" "inv n s4"
      "live s4 = live s3"
      "\<forall>r. live s3 r \<longrightarrow> view s4 r = (if r = q then Some (empty_page_data q DATA) else view s3 r)"
    using write_law [OF s3(2), of q] l3 by auto
  have "append_page ops (Some l) s = (Inr q, s4)"
    using a(1) lk create_empty_page_ok [OF a(3), of DATA] s4(1) by (simp add: append_page_def sbind_def)
  moreover have "view s4 r = (if r = l then Some (relinked d h q) else view s r)" if r: "live s r" for r
  proof -
    have "r \<noteq> q" using r a(2) by auto
    then show ?thesis using r s4(4) l3 s3(4) g(3) a(5,6) by (auto simp: unchanged_def)
  qed
  ultimately show ?thesis using a(2,3) q0 s4 l3 by auto
qed

text \<open>A new page at the end of a chain.\<close>

lemma chain_extended:
  assumes ch: "chain L V p (ps @ [l]) 0" and "l \<notin> set ps" and dl: "V l = Some d" "parse_page_header d = Inr h"
    and q: "0 < q" "q < 2 ^ 32" "q \<notin> set (ps @ [l])"
    and L': "\<And>r. L r \<Longrightarrow> L' r" "L' q" and V'q: "V' q = Some (empty_page_data q DATA)"
    and V': "\<And>r. L r \<Longrightarrow> V' r = (if r = l then Some (relinked d h q) else V r)"
  shows "chain L' V' p (ps @ [l, q]) 0"
proof -
  from ch obtain m where m: "chain L V p ps m" "chain L V m [l] 0" by (auto simp: chain_append)
  have "chain L' V' p ps m"
  proof (rule chain_mono [OF m(1)])
    fix x e assume "x \<in> set ps" "L x" "V x = Some e" "data_page e"
    then show "L' x \<and> (\<exists>d'. V' x = Some d' \<and> data_page d' \<and> page_next d' = page_next e)"
      using L' V' assms(2) by auto
  qed
  moreover have dp: "data_page d" using m(2) dl by auto
  then have "wf_page d" "h_page_type h = DATA" using dl(2) by (auto simp: data_page_def)
  note rl = relinked_facts [OF this(1) dl(2) q(2)]
  have "data_page (relinked d h q)" "page_next (relinked d h q) = q"
    using rl \<open>h_page_type h = DATA\<close> page_next_parse [OF rl(1)] by (auto simp: data_page_def)
  with m(2) L' V' V'q q(1) data_page_empty [OF q(2)] have "chain L' V' m [l, q] 0" by auto
  ultimately show ?thesis by (auto simp: chain_append)
qed

text \<open>What changes when a row enters the page \<open>q\<close> of the chain.\<close>

lemma table_inserted:
  assumes ok: "table_ok L V tbl ps" and q: "q \<in> set ps" and d: "V q = Some d" "parse_page_header d = Inr h"
    and sp: "length row + 4 \<le> h_free_space h" and ne: "row \<noteq> []"
    and V': "\<And>r. L r \<Longrightarrow> V' r = (if r = q then Some (inserted_data d h row) else V r)"
  shows "table_ok L V' tbl ps"
    and "\<exists>xs ys. contents V ps = xs @ ys \<and>
      contents V' ps = xs @ (\<lparr>rid_page_id = q, rid_slot_index = h_slot_count h\<rparr>, row) # ys \<and>
      \<lparr>rid_page_id = q, rid_slot_index = h_slot_count h\<rparr> \<notin> fst ` set (xs @ ys)"
proof -
  have ch: "chain L V (tbl_root tbl) ps 0" and dist: "distinct ps" and nn: "ps \<noteq> []"
    using ok by (auto simp: table_ok_def)
  have dp: "data_page d" using chain_pages [OF ch q] d(1) by auto
  note di = data_page_inserted [OF dp d(2) sp]
  have "chain L V' (tbl_root tbl) ps 0" by (rule chain_mono [OF ch]) (use di V' d in auto)
  then show "table_ok L V' tbl ps" using dist nn by (simp add: table_ok_def)
  have lv: "L r" if "r \<in> set ps" for r using chain_pages [OF ch that] by simp
  have wf: "wf_page d" using dp by (simp add: data_page_def)
  obtain xs ys where c: "contents V ps = xs @ live_slots q (rows_at V q) @ ys"
    "contents V' ps = xs @ live_slots q (rows_at V' q) @ ys"
    and o: "\<forall>e \<in> set xs \<union> set ys. rid_page_id (fst e) \<noteq> q"
    by (rule contents_split [OF q dist, of V' V]) (use V' lv in \<open>auto simp: rows_at_def\<close>)
  have r: "rows_at V' q = rows_at V q @ [Some row]" "length (rows_at V q) = h_slot_count h"
    using V' [OF lv [OF q]] d page_rows_inserted [OF wf d(2) sp ne] page_rows_eq [OF d(2)]
    by (simp_all add: rows_at_def)
  have f: "fst e \<noteq> \<lparr>rid_page_id = q, rid_slot_index = h_slot_count h\<rparr>"
    if "e \<in> set (xs @ live_slots q (rows_at V q)) \<union> set ys" for e
  proof -
    have "rid_page_id (fst e) \<noteq> q \<or> rid_slot_index (fst e) < h_slot_count h"
      using o live_slots_index [of "fst e" "snd e" q "rows_at V q"] that r(2) by auto
    then show ?thesis by auto
  qed
  have "\<lparr>rid_page_id = q, rid_slot_index = h_slot_count h\<rparr> \<notin>
      fst ` (set (xs @ live_slots q (rows_at V q)) \<union> set ys)"
    by (metis f imageE)
  then have nf: "\<lparr>rid_page_id = q, rid_slot_index = h_slot_count h\<rparr> \<notin>
      fst ` set ((xs @ live_slots q (rows_at V q)) @ ys)" by (simp add: Un_assoc)
  show "\<exists>xs ys. contents V ps = xs @ ys \<and>
      contents V' ps = xs @ (\<lparr>rid_page_id = q, rid_slot_index = h_slot_count h\<rparr>, row) # ys \<and>
      \<lparr>rid_page_id = q, rid_slot_index = h_slot_count h\<rparr> \<notin> fst ` set (xs @ ys)"
    by (rule exI [of _ "xs @ live_slots q (rows_at V q)"], rule exI [of _ ys])
      (use c r nf live_slots_append [of q "rows_at V q" row] in \<open>simp add: image_Un\<close>)
qed

lemma acquire_none [simp]: "acquire_lock ops None p m = sret ()"
  by (simp add: acquire_lock_def)

lemma chain_length:
  assumes "inv n s" and "chain_of P (live s) (view s) p ps 0" and "distinct ps"
  shows "length ps < po_count ops s + 1"
proof -
  have "set ps \<subseteq> {0..<po_count ops s}"
    using chain_pages [OF assms(2)] live_page [OF assms(1)] by fastforce
  then have "card (set ps) \<le> card {0..<po_count ops s}" by (intro card_mono) simp_all
  then show ?thesis using assms(3) by (simp add: distinct_card)
qed

text \<open>
  Insertion: the row is appended to a page of the chain that has room, or to a new page at the end
  of the chain. All other rows, and all pages outside the table, stay as they are.
\<close>

lemma table_insert_ok:
  assumes inv: "inv (Suc (Suc (Suc n))) s" and ok: "table_ok (live s) (view s) tbl ps"
    and conv: "convert_row row (tbl_columns tbl) = Inr vs"
    and ser: "serialize_row vs (tbl_columns tbl) = Inr d" and ne: "d \<noteq> []" and fit: "length d + 4 \<le> 4064"
  shows "\<exists>rid s' ps'. table_insert ops tbl row None s = (Inr rid, s') \<and> inv n s' \<and>
    table_ok (live s') (view s') tbl ps' \<and>
    (\<exists>xs ys. contents (view s) ps = xs @ ys \<and> contents (view s') ps' = xs @ (rid, d) # ys \<and>
       rid \<notin> fst ` set (xs @ ys)) \<and>
    (\<forall>p. live s p \<longrightarrow> p \<notin> set ps \<longrightarrow> live s' p \<and> p \<notin> set ps' \<and> view s' p = view s p)"
proof -
  have ch: "chain (live s) (view s) (tbl_root tbl) ps 0" and dist: "distinct ps" and nn: "ps \<noteq> []"
    using ok by (auto simp: table_ok_def)
  obtain rl s1 where f0: "find_space ops (po_count ops s + 1) (length d + 4) (tbl_root tbl) None s = (Inr rl, s1)"
      "inv (Suc (Suc (Suc n))) s1" "unchanged s s1"
      "case fst rl of Some q \<Rightarrow> q \<in> set ps \<and> (\<exists>e h. view s q = Some e \<and> parse_page_header e = Inr h \<and> length d + 4 \<le> h_free_space h)
      | None \<Rightarrow> snd rl = (if ps = [] then None else Some (last ps))"
    using find_space_ok [OF ch inv chain_length [OF inv ch dist], of "length d + 4" None] by blast
  obtain r l where rl: "rl = (r, l)" by (cases rl)
  have f: "find_space ops (po_count ops s + 1) (length d + 4) (tbl_root tbl) None s = (Inr (r, l), s1)"
      "inv (Suc (Suc (Suc n))) s1" "unchanged s s1"
      "case r of Some q \<Rightarrow> q \<in> set ps \<and> (\<exists>e h. view s q = Some e \<and> parse_page_header e = Inr h \<and> length d + 4 \<le> h_free_space h)
      | None \<Rightarrow> l = Some (last ps)"
    using f0 nn rl by (auto split: option.splits)
  have ok1: "table_ok (live s1) (view s1) tbl ps" using unchanged_table [OF f(3) ok] .
  have c1: "contents (view s1) ps = contents (view s) ps" using unchanged_contents [OF f(3) ok] .
  have l1: "live s1 = live s" "\<And>p. live s p \<Longrightarrow> view s1 p = view s p" using f(3) by (auto simp: unchanged_def)
  have step: "table_insert ops tbl row None s =
      sbind (case r of Some p \<Rightarrow> sret p | None \<Rightarrow> append_page ops l) (\<lambda>p. insert_into ops p d) s1"
    using conv ser f(1) by (simp add: table_insert_def sbind_def)
  have pages: "live s q \<and> (\<exists>e. view s q = Some e \<and> data_page e)" if "q \<in> set ps" for q
    using chain_pages [OF ch that] by blast
  show ?thesis
  proof (cases r)
    case (Some q)
    then obtain e h where q: "q \<in> set ps" "view s q = Some e" "parse_page_header e = Inr h"
        "length d + 4 \<le> h_free_space h" using f(4) by auto
    obtain e' where "live s q" "view s q = Some e'" "data_page e'" using pages [OF q(1)] by blast
    then have lq: "live s1 q" "view s1 q = Some e" "data_page e" using q(2) l1 by simp_all
    obtain s2 where s2: "insert_into ops q d s1 = (Inr \<lparr>rid_page_id = q, rid_slot_index = h_slot_count h\<rparr>, s2)"
        "inv (Suc (Suc n)) s2" "live s2 = live s1"
        "\<forall>r. live s1 r \<longrightarrow> view s2 r = (if r = q then Some (inserted_data e h d) else view s1 r)"
      using insert_into_ok [OF f(2) lq q(3,4)] by blast
    note ti = table_inserted [OF ok1 q(1) lq(2) q(3,4) ne, of "view s2"]
    have "inv n s2" by (rule inv_mono [OF inv_mono [OF s2(2)]])
    moreover have "table_ok (live s2) (view s2) tbl ps" using ti(1) s2(3,4) by simp
    moreover have "live s2 p \<and> p \<notin> set ps \<and> view s2 p = view s p" if "live s p" "p \<notin> set ps" for p
      using that s2(3,4) l1 q(1) by auto
    moreover have "table_insert ops tbl row None s =
        (Inr \<lparr>rid_page_id = q, rid_slot_index = h_slot_count h\<rparr>, s2)"
      using step Some s2(1) by simp
    moreover have "\<And>r. live s1 r \<Longrightarrow>
        view s2 r = (if r = q then Some (inserted_data e h d) else view s1 r)"
      using s2(4) by simp
    note ti(2) [OF this, unfolded c1]
    ultimately show ?thesis using s2(4) by blast
  next
    case None
    then have l: "l = Some (last ps)" using f(4) by simp
    let ?l = "last ps"
    have lm: "?l \<in> set ps" using nn by simp
    obtain e where e: "view s ?l = Some e" "data_page e" "live s ?l" using pages [OF lm] by auto
    obtain h where h: "parse_page_header e = Inr h" using e(2) by (rule data_pageE)
    have e1: "live s1 ?l" "view s1 ?l = Some e" using e l1 by auto
    obtain q s2 where q: "append_page ops (Some ?l) s1 = (Inr q, s2)" "\<not> live s1 q" "0 < q" "q < 2 ^ 32"
        "inv (Suc n) s2" "live s2 = (live s1)(q := True)" "view s2 q = Some (empty_page_data q DATA)"
        "\<forall>r. live s1 r \<longrightarrow> view s2 r = (if r = ?l then Some (relinked e h q) else view s1 r)"
      using append_page_ok [OF f(2) e1 e(2) h] by blast
    have ps: "ps = butlast ps @ [?l]" using nn by simp
    have nl: "?l \<notin> set (butlast ps)" using dist ps by (metis distinct_append distinct.simps(2) disjoint_iff list.set_intros(1))
    have nq: "q \<notin> set ps" using q(2) pages l1(1) by auto
    have ch1: "chain (live s1) (view s1) (tbl_root tbl) (butlast ps @ [?l]) 0"
      using ok1 ps by (simp add: table_ok_def)
    have nq': "q \<notin> set (butlast ps @ [?l])" using nq ps by simp
    have "chain (live s2) (view s2) (tbl_root tbl) (butlast ps @ [?l, q]) 0"
      by (rule chain_extended [where L = "live s1" and V = "view s1", OF ch1 nl e1(2) h q(3,4) nq'])
        (use q in simp_all)
    then have "chain (live s2) (view s2) (tbl_root tbl) (ps @ [q]) 0"
      using ps by (metis append.assoc append_Cons append_Nil)
    then have ok2: "table_ok (live s2) (view s2) tbl (ps @ [q])"
      using dist nq by (simp add: table_ok_def)
    have wf: "wf_page e" using e(2) by (simp add: data_page_def)
    have "rows_at (view s2) p = rows_at (view s1) p" if "p \<in> set ps" for p
      using q(8) l1(1) pages [OF that] e1(2) relinked_facts(3) [OF wf h q(4)] by (auto simp: rows_at_def)
    then have c2: "contents (view s2) (ps @ [q]) = contents (view s) ps"
      using contents_cong [of ps "view s2" "view s1"] c1 q(7) data_page_empty(3) [OF q(4)]
      by (simp add: rows_at_def live_slots_def map_filter_simps)
    let ?h = "\<lparr>h_page_id = q, h_page_type = DATA, h_slot_count = 0, h_free_space = 4064,
       h_free_offset = 4096, h_next_page_id = 0, h_flags = 0\<rparr>"
    have hq: "parse_page_header (empty_page_data q DATA) = Inr ?h" by (rule parse_empty_page [OF q(4)])
    have sp: "length d + 4 \<le> h_free_space ?h" using fit by simp
    obtain s3 where s3: "insert_into ops q d s2 = (Inr \<lparr>rid_page_id = q, rid_slot_index = h_slot_count ?h\<rparr>, s3)"
        "inv n s3" "live s3 = live s2"
        "\<forall>r. live s2 r \<longrightarrow> view s3 r = (if r = q then Some (inserted_data (empty_page_data q DATA) ?h d) else view s2 r)"
      using insert_into_ok [OF q(5) _ q(7) data_page_empty(1) [OF q(4)] hq sp] q(6) by auto
    note ti = table_inserted [OF ok2 _ q(7) hq sp ne, of "view s3"]
    have "table_ok (live s3) (view s3) tbl (ps @ [q])" using ti(1) s3(3,4) by simp
    moreover have "live s3 p \<and> p \<notin> set (ps @ [q]) \<and> view s3 p = view s p" if "live s p" "p \<notin> set ps" for p
    proof -
      have "p \<noteq> q" "p \<noteq> ?l" "live s1 p" using that q(2) l1(1) lm by auto
      then show ?thesis using that q(6,8) s3(3,4) l1 by auto
    qed
    moreover have "table_insert ops tbl row None s =
        (Inr \<lparr>rid_page_id = q, rid_slot_index = h_slot_count ?h\<rparr>, s3)"
      using step None l q(1) s3(1) by (simp add: sbind_def)
    moreover have "q \<in> set (ps @ [q])" "\<And>r. live s2 r \<Longrightarrow> view s3 r =
        (if r = q then Some (inserted_data (empty_page_data q DATA) ?h d) else view s2 r)"
      using s3(4) by simp_all
    note ti(2) [OF this, unfolded c2]
    ultimately show ?thesis using s3(2) by blast
  qed
qed

text \<open>
  Scanning with a body that changes only its accumulator: the loop folds the decoded rows in order, stops at
  the first exception of the body, and changes no page.
\<close>

lemma scan_pages_fold:
  assumes ch: "chain_of open_data (live s) (view s) p ps 0" and "inv n s" and "distinct ps" and "length ps < fuel"
    and "decode_rows cols (contents (view s) ps) = Inr out"
  shows "\<exists>s'. scan_pages ops cols None (\<lambda>rid vs acc. slift (g (rid, vs) acc)) fuel p acc s = (rfold g out acc, s') \<and>
     inv n s' \<and> unchanged s s'"
proof -
  let ?P = "\<lambda>qs todo acc' t. inv n t \<and> unchanged s t \<and> set qs \<subseteq> set ps \<and> rfold g todo acc' = rfold g out acc"
  let ?Q = "\<lambda>r t. inv n t \<and> unchanged s t \<and> r = rfold g out acc"
  have get: "\<exists>t'. po_get ops x None t = (Inr d, t') \<and> ?P qs todo acc' t'"
    if P: "?P (x # qs) todo acc' t" and x: "view s x = Some d" "open_data d" for x qs todo acc' t d
  proof -
    have "live s x" using chain_pages [OF ch, of x] P by auto
    then have "live t x" "view t x = Some d" using P x by (auto simp: unchanged_def)
    from get_open [OF conjunct1 [OF P] this x(2)] show ?thesis using P unchanged_trans by fastforce
  qed
  have body: "case slift (g (rid, vs) acc') t of (Inl e, t') \<Rightarrow> ?Q (Inl e) t' | (Inr acc'', t') \<Rightarrow> ?P qs todo acc'' t'"
    if "?P qs ((rid, vs) # todo) acc' t" for qs rid vs todo acc' t
  proof (cases "g (rid, vs) acc'")
    case (Inl e)
    then have "rfold g out acc = Inl e" using that by auto
    then show ?thesis using that Inl by simp
  qed (use that in auto)
  have "?P ps out acc s" using assms(2) by simp
  from scan_loop [where P = ?P and V = "view s" and ops = ops and body = "\<lambda>rid vs acc. slift (g (rid, vs) acc)" and Q = ?Q,
    OF get body _ ch assms(3-5) this]
  show ?thesis by fastforce
qed

lemma table_scan_fold:
  assumes "inv n s" and ok: "readable (live s) (view s) tbl ps"
    and dec: "decode_rows (tbl_columns tbl) (contents (view s) ps) = Inr out"
  shows "\<exists>s'. table_scan ops tbl None (\<lambda>rid vs acc. slift (g (rid, vs) acc)) (po_count ops s + 1) acc s =
    (rfold g out acc, s') \<and> inv n s' \<and> unchanged s s'"
proof -
  have ch: "chain_of open_data (live s) (view s) (tbl_root tbl) ps 0" and dist: "distinct ps"
    using ok by (auto simp: readable_def)
  from scan_pages_fold [OF ch assms(1) dist chain_length [OF assms(1) ch dist] dec] show ?thesis
    by (simp add: table_scan_def)
qed

lemma scan_all_readable:
  assumes "inv n s" and "readable (live s) (view s) tbl ps"
    and "decode_rows (tbl_columns tbl) (contents (view s) ps) = Inr out"
  shows "\<exists>s'. scan_all ops tbl None s = (Inr out, s') \<and> inv n s' \<and> unchanged s s'"
proof -
  have eq: "(collect_row :: ('s, (RowId \<times> pval list) list) row_body) = (\<lambda>rid vs acc. slift (Inr (acc @ [(rid, vs)])))"
    by (simp add: collect_row_def fun_eq_iff slift_def sret_def)
  show ?thesis
    using table_scan_fold [OF assms, of "\<lambda>x acc. Inr (acc @ [x])" "[]"]
    unfolding scan_all_def eq rfold_collect by simp
qed

lemma scan_all_ok:
  assumes "inv n s" and "table_ok (live s) (view s) tbl ps"
    and "decode_rows (tbl_columns tbl) (contents (view s) ps) = Inr out"
  shows "\<exists>s'. scan_all ops tbl None s = (Inr out, s') \<and> inv n s' \<and> unchanged s s'"
  using scan_all_readable [OF assms(1) table_ok_readable [OF assms(2)] assms(3)] .

lemma table_get_ok:
  assumes "inv n s" and ok: "table_ok (live s) (view s) tbl ps" and p: "rid_page_id rid \<in> set ps"
  shows "\<exists>s'. table_get ops tbl rid s =
      (case map_of (contents (view s) ps) rid of
         None \<Rightarrow> Inr None
       | Some d \<Rightarrow> rbind (deserialize_row d (tbl_columns tbl)) (\<lambda>vs. Inr (Some vs)), s') \<and>
    inv n s' \<and> unchanged s s'"
proof -
  let ?p = "rid_page_id rid" and ?i = "rid_slot_index rid"
  have ch: "chain (live s) (view s) (tbl_root tbl) ps 0" and dist: "distinct ps"
    using ok by (auto simp: table_ok_def)
  from chain_pages [OF ch p] obtain d where d: "live s ?p" "view s ?p = Some d" "data_page d" by blast
  obtain h where h: "parse_page_header d = Inr h" and wf: "wf_page d" using d(3) by (rule data_pageE)
  obtain s1 where s1: "po_get ops ?p None s = (Inr d, s1)" "inv n s1" "unchanged s s1"
    using get_ok [OF assms(1) d] by blast
  let ?rs = "page_rows d"
  obtain xs ys where c: "contents (view s) ps = xs @ live_slots ?p (rows_at (view s) ?p) @ ys"
    and o: "\<forall>e \<in> set xs \<union> set ys. rid_page_id (fst e) \<noteq> ?p"
    by (rule contents_split [OF p dist, of "view s" "view s"]) auto
  have none: "map_of xs rid = None" "map_of ys rid = None" using o by (auto simp: map_of_eq_None_iff)
  have inj: "inj_on fst (set (live_slots ?p ?rs))"
    by (auto simp: inj_on_def live_slots_def List.map_filter_def)
  have dl: "distinct (map fst (live_slots ?p ?rs))"
    unfolding live_slots_def List.map_filter_def
    by (auto simp: distinct_map inj_on_def comp_def)
  have m: "map_of (live_slots ?p ?rs) rid = (if ?i < length ?rs then ?rs ! ?i else None)"
  proof (cases "?i < length ?rs \<and> ?rs ! ?i \<noteq> None")
    case True
    then obtain r where "?rs ! ?i = Some r" by blast
    then have "(rid, r) \<in> set (live_slots ?p ?rs)"
      using live_slots_mem [of ?p ?i r ?rs] True by simp
    then show ?thesis using True dl \<open>?rs ! ?i = Some r\<close> by simp
  next
    case False
    then have "rid \<notin> fst ` set (live_slots ?p ?rs)" using live_slots_mem [of ?p ?i _ ?rs] by auto
    then show ?thesis using False by (auto simp: map_of_eq_None_iff [symmetric])
  qed
  have "map_of (contents (view s) ps) rid = (if ?i < length ?rs then ?rs ! ?i else None)"
    using c none m d(2) by (simp add: rows_at_def map_add_def split: option.splits)
  moreover have "get_row_from_page \<lparr>p_page_id = ?p, p_page_type = Some (h_page_type h), p_data = d, p_dirty = False\<rparr> ?i
      = Inr (if ?i < length ?rs then ?rs ! ?i else None)"
    using get_row_eq [OF wf_page_open] wf by simp
  ultimately show ?thesis using s1 page_from_data_ok [OF h, of ?p]
    by (auto simp: table_get_def sbind_def split: option.splits sum.splits)
qed

text \<open>Deletion removes exactly the row with the given id.\<close>

lemma table_delete_ok:
  assumes inv: "inv (Suc n) s" and ok: "table_ok (live s) (view s) tbl ps" and p: "rid_page_id rid \<in> set ps"
    and i: "rid_slot_index rid < length (rows_at (view s) (rid_page_id rid))"
  shows "\<exists>s'. table_delete ops tbl rid None s = (Inr (), s') \<and> inv n s' \<and> table_ok (live s') (view s') tbl ps \<and>
    contents (view s') ps = filter (\<lambda>(r, _). r \<noteq> rid) (contents (view s) ps) \<and>
    live s' = live s \<and> (\<forall>q. live s q \<longrightarrow> q \<noteq> rid_page_id rid \<longrightarrow> view s' q = view s q)"
proof -
  let ?p = "rid_page_id rid" and ?i = "rid_slot_index rid"
  have ch: "chain (live s) (view s) (tbl_root tbl) ps 0" and dist: "distinct ps" and nn: "ps \<noteq> []"
    using ok by (auto simp: table_ok_def)
  from chain_pages [OF ch p] obtain d where d: "live s ?p" "view s ?p = Some d" "data_page d" by blast
  obtain h where h: "parse_page_header d = Inr h" "h_page_type h = DATA" and wf: "wf_page d"
    using d(3) by (rule data_pageE)
  have ih: "?i < h_slot_count h" using i d(2) page_rows_eq [OF h(1)] by (simp add: rows_at_def)
  obtain s1 where s1: "po_get ops ?p None s = (Inr d, s1)" "inv (Suc n) s1" "unchanged s s1" "ready s1 ?p"
    using get_ok [OF inv d] by blast
  note f = deleted_data_facts [OF wf h(1) ih]
  let ?e = "deleted_data d h ?i"
  have dp: "data_page ?e" "page_next ?e = page_next d"
    using f(1,2) h page_next_parse by (auto simp: data_page_def)
  then have "parses ?e" by (blast elim: data_pageE)
  moreover have "live s1 ?p" using s1(3) d(1) by (simp add: unchanged_def)
  ultimately obtain s2 where s2: "po_set ops ?p ?e s1 = (Inr (), s2)" "inv n s2" "live s2 = live s1"
      "\<forall>r. live s1 r \<longrightarrow> view s2 r = (if r = ?p then Some ?e else view s1 r)"
    using set_law [OF s1(2) _ s1(4)] by blast
  let ?pg = "\<lparr>p_page_id = ?p, p_page_type = Some (h_page_type h), p_data = d, p_dirty = False\<rparr>"
  have del: "delete_row_from_page ?pg ?i = Inr (?pg\<lparr>p_data := ?e, p_dirty := True\<rparr>)"
    using delete_row_ok [of ?pg h ?i] wf h(1) ih by simp
  have e: "table_delete ops tbl rid None s = (Inr (), s2)"
    using s1(1) s2(1) del page_from_data_ok [OF h(1), of ?p] by (simp add: table_delete_def sbind_def)
  have l2: "live s2 = live s" using s2(3) s1(3) by (simp add: unchanged_def)
  have v2: "view s2 q = (if q = ?p then Some ?e else view s q)" if "live s q" for q
    using s2(4) s1(3) that by (simp add: unchanged_def)
  have "chain (live s2) (view s2) (tbl_root tbl) ps 0"
    by (rule chain_mono [OF ch]) (use l2 v2 dp d in auto)
  moreover have lv: "live s q" if "q \<in> set ps" for q using chain_pages [OF ch that] by simp
  obtain xs ys where c: "contents (view s) ps = xs @ live_slots ?p (rows_at (view s) ?p) @ ys"
    "contents (view s2) ps = xs @ live_slots ?p (rows_at (view s2) ?p) @ ys"
    and o: "\<forall>e \<in> set xs \<union> set ys. rid_page_id (fst e) \<noteq> ?p"
    by (rule contents_split [OF p dist, of "view s2" "view s"]) (use v2 lv in \<open>auto simp: rows_at_def\<close>)
  have k: "filter (\<lambda>(r, _). r \<noteq> rid) zs = zs" if "\<forall>e \<in> set zs. rid_page_id (fst e) \<noteq> ?p" for zs :: "(RowId \<times> bytes) list"
    using that by (intro filter_True) auto
  have "live_slots ?p (rows_at (view s2) ?p) = filter (\<lambda>(r, _). r \<noteq> rid) (live_slots ?p (rows_at (view s) ?p))"
    using live_slots_delete [of ?p "page_rows d" ?i] f(3) v2 [OF d(1)] d(2) by (simp add: rows_at_def)
  then have "contents (view s2) ps = filter (\<lambda>(r, _). r \<noteq> rid) (contents (view s) ps)"
    using c o k [of xs] k [of ys] by simp
  ultimately show ?thesis using e s2(2) l2 v2 dist nn by (auto simp: table_ok_def)
qed

text \<open>The same at the level of values: what a scan returns before and after.\<close>

lemma insert_scan:
  assumes inv: "inv (Suc (Suc (Suc n))) s" and ok: "table_ok (live s) (view s) tbl ps"
    and conv: "convert_row row (tbl_columns tbl) = Inr vs"
    and ser: "serialize_row vs (tbl_columns tbl) = Inr d" "deserialize_row d (tbl_columns tbl) = Inr vs"
    and ne: "d \<noteq> []" and fit: "length d + 4 \<le> 4064"
    and old: "decode_rows (tbl_columns tbl) (contents (view s) ps) = Inr old"
  shows "\<exists>rid s' ps' xs ys. table_insert ops tbl row None s = (Inr rid, s') \<and> inv n s' \<and>
    table_ok (live s') (view s') tbl ps' \<and> old = xs @ ys \<and> rid \<notin> fst ` set old \<and>
    decode_rows (tbl_columns tbl) (contents (view s') ps') = Inr (xs @ (rid, vs) # ys) \<and>
    (\<forall>p. live s p \<longrightarrow> p \<notin> set ps \<longrightarrow> live s' p \<and> p \<notin> set ps' \<and> view s' p = view s p)"
proof -
  obtain rid s' ps' xs ys where i: "table_insert ops tbl row None s = (Inr rid, s')" "inv n s'"
    "table_ok (live s') (view s') tbl ps'" "contents (view s) ps = xs @ ys"
    "contents (view s') ps' = xs @ (rid, d) # ys" "rid \<notin> fst ` set (xs @ ys)"
    "\<forall>p. live s p \<longrightarrow> p \<notin> set ps \<longrightarrow> live s' p \<and> p \<notin> set ps' \<and> view s' p = view s p"
    using table_insert_ok [OF inv ok conv ser(1) ne fit] by blast
  obtain us vs' where o: "decode_rows (tbl_columns tbl) xs = Inr us" "decode_rows (tbl_columns tbl) ys = Inr vs'"
      "old = us @ vs'"
    using old i(4) by (auto simp: decode_rows_append)
  have "decode_rows (tbl_columns tbl) ((rid, d) # ys) = Inr ((rid, vs) # vs')"
    using o(2) ser(2) by (simp add: decode_rows_def)
  then have "decode_rows (tbl_columns tbl) (contents (view s') ps') = Inr (us @ (rid, vs) # vs')"
    using i(5) o(1) by (simp add: decode_rows_append)
  moreover have "fst ` set old = fst ` set (xs @ ys)"
    using decode_rows_keys [OF old] i(4) by (metis list.set_map)
  ultimately show ?thesis using i(1-3,6,7) o(3) by metis
qed

lemma decode_rows_filter:
  "decode_rows cols xs = Inr out \<Longrightarrow> decode_rows cols (filter (\<lambda>(r, _). r \<noteq> rid) xs) =
     Inr (filter (\<lambda>(r, _). r \<noteq> rid) out)"
  by (induction xs arbitrary: out) (auto simp: decode_rows_def)

lemma map_of_decode:
  "decode_rows cols xs = Inr out \<Longrightarrow>
   (case map_of xs rid of None \<Rightarrow> Inr None | Some d \<Rightarrow> rbind (deserialize_row d cols) (\<lambda>vs. Inr (Some vs)))
     = Inr (map_of out rid)"
  by (induction xs arbitrary: out) (auto simp: decode_rows_def)

end

lemma storable_row_serialized:
  assumes "storable_row vs cs" and "length cs < 65536"
  shows "\<exists>d. serialize_row vs cs = Inr d \<and> deserialize_row d cs = Inr vs \<and> d \<noteq> []"
proof -
  obtain d where d: "serialize_row vs cs = Inr d" "deserialize_row d cs = Inr vs" "bitmap_size (length cs) + 2 \<le> length d"
    using serialize_deserialize [OF assms] by blast
  then have "d \<noteq> []" by auto
  with d show ?thesis by blast
qed

section \<open>Claims\<close>

text \<open>
  Inserting a row works: on the plain pool, a storable row that fits a page is inserted
  without an error, a later scan of the table returns the rows of an earlier scan with the new row
  at one place under a new row id, and reading that row id returns the row.
\<close>

theorem insert_then_scan:
  assumes "store_ok (Suc (Suc (Suc n))) (ss_pool s)"
    and "table_ok (pool_live (ss_pool s)) (pool_view (ss_pool s)) tbl ps"
    and "convert_row row (tbl_columns tbl) = Inr vs" and "storable_row vs (tbl_columns tbl)"
    and "length (tbl_columns tbl) < 65536"
    and "\<forall>d. serialize_row vs (tbl_columns tbl) = Inr d \<longrightarrow> length d + 4 \<le> 4064"
    and "decode_rows (tbl_columns tbl) (contents (pool_view (ss_pool s)) ps) = Inr old"
  shows "fst (scan_all main_ops tbl None s) = Inr old \<and>
    (\<exists>rid s' xs ys. table_insert main_ops tbl row None s = (Inr rid, s') \<and> old = xs @ ys \<and>
       rid \<notin> fst ` set old \<and> fst (scan_all main_ops tbl None s') = Inr (xs @ (rid, vs) # ys) \<and>
       fst (table_get main_ops tbl rid s') = Inr (Some vs))"
proof -
  obtain d where d: "serialize_row vs (tbl_columns tbl) = Inr d" "deserialize_row d (tbl_columns tbl) = Inr vs"
      "d \<noteq> []"
    using storable_row_serialized [OF assms(4,5)] by blast
  then have fit: "length d + 4 \<le> 4064" using assms(6) by simp
  obtain rid s' ps' xs ys where i: "table_insert main_ops tbl row None s = (Inr rid, s')"
    "store_ok n (ss_pool s')" "table_ok (pool_live (ss_pool s')) (pool_view (ss_pool s')) tbl ps'"
    "old = xs @ ys" "rid \<notin> fst ` set old"
    "decode_rows (tbl_columns tbl) (contents (pool_view (ss_pool s')) ps') = Inr (xs @ (rid, vs) # ys)"
    using main.insert_scan [OF assms(1-3) d fit assms(7)] by blast
  have "fst (scan_all main_ops tbl None s) = Inr old"
    using main.scan_all_ok [OF assms(1,2,7)] by auto
  moreover have "fst (scan_all main_ops tbl None s') = Inr (xs @ (rid, vs) # ys)"
    using main.scan_all_ok [OF i(2,3,6)] by auto
  moreover have "fst (table_get main_ops tbl rid s') = Inr (Some vs)"
  proof -
    have "map_of xs rid = None" using i(4,5) by (auto simp: map_of_eq_None_iff)
    then have m: "map_of (xs @ (rid, vs) # ys) rid = Some vs" by (simp add: map_add_def)
    have "rid \<in> fst ` set (contents (pool_view (ss_pool s')) ps')"
      using decode_rows_keys [OF i(6)] by (metis in_set_conv_decomp list.set_map map_append fst_conv list.map(2))
    then have p: "rid_page_id rid \<in> set ps'" using contents_page by fastforce
    from main.table_get_ok [OF i(2,3) p] main.map_of_decode [OF i(6), of rid] m show ?thesis by auto
  qed
  ultimately show ?thesis using i(1,4,5) by blast
qed

text \<open>A table with one INTEGER column whose chain is page 1, for the witnesses.\<close>

definition int_col :: ColumnDef where
  "int_col = \<lparr>col_name = ''n'', data_type = INTEGER, nullable = True, primary_key = False, is_unique = False\<rparr>"

definition demo_table :: Table where
  "demo_table = \<lparr>table_name = ''t'', tbl_columns = [int_col], tbl_root = 1, tbl_primary_key = ''''\<rparr>"

lemma demo_table_ok:
  assumes "n + 1 + m < 2 ^ 32" and "0 < n"
  shows "table_ok (pool_live (ss_pool (new_session n))) (pool_view (ss_pool (new_session n))) demo_table [1]"
    and "table_ok (shadow_live (new_session n)) (shadow_view (new_session n)) demo_table [1]"
    and "contents (pool_view (ss_pool (new_session n))) [1] = []"
    and "contents (shadow_view (new_session n)) [1] = []"
proof -
  note f = new_session_facts [OF assms(1)]
  have e: "data_page (empty_page_data 1 DATA)" "page_next (empty_page_data 1 DATA) = 0"
    "page_rows (empty_page_data 1 DATA) = []"
    using data_page_empty [of 1] by simp_all
  show "table_ok (pool_live (ss_pool (new_session n))) (pool_view (ss_pool (new_session n))) demo_table [1]"
    and "table_ok (shadow_live (new_session n)) (shadow_view (new_session n)) demo_table [1]"
    using f(3-6) assms(2) e by (simp_all add: table_ok_def demo_table_def)
  show "contents (pool_view (ss_pool (new_session n))) [1] = []"
    and "contents (shadow_view (new_session n)) [1] = []"
    using f(5) [of 1] f(6) [of 1] assms(2) e
    by (simp_all add: rows_at_def live_slots_def map_filter_simps)
qed

lemma demo_row:
  assumes "in_i64 i"
  shows "convert_row [PInt i] (tbl_columns demo_table) = Inr [PInt i]"
    and "storable_row [PInt i] (tbl_columns demo_table)"
    and "serialize_row [PInt i] (tbl_columns demo_table) = Inr d \<Longrightarrow> length d + 4 \<le> 4064"
proof -
  show "convert_row [PInt i] (tbl_columns demo_table) = Inr [PInt i]"
    by (simp add: convert_row_def demo_table_def int_col_def convert_value_def validate_value_def)
  show "storable_row [PInt i] (tbl_columns demo_table)"
    using assms by (simp add: storable_row_def demo_table_def int_col_def)
  assume s: "serialize_row [PInt i] (tbl_columns demo_table) = Inr d"
  have "\<exists>b. pack_i64 i = Inr b \<and> length b = 8"
    using assms by (auto simp: pack_i64_Inr_iff)
  then show "length d + 4 \<le> 4064" using s
    by (auto simp: serialize_row_def demo_table_def int_col_def serialize_value_def
        pack_u_Inr_iff encode_null_flags_def bitmap_size_def)
qed

theorem insert_then_scan_witness:
  "\<exists>rid s'. table_insert main_ops demo_table [PInt 7] None (new_session 2) = (Inr rid, s') \<and>
     fst (scan_all main_ops demo_table None s') = Inr [(rid, [PInt 7])] \<and>
     fst (table_get main_ops demo_table rid s') = Inr (Some [PInt 7])"
proof -
  have "(2 :: nat) + 1 + 3 < 2 ^ 32" "0 < (2 :: nat)" by simp_all
  note t = demo_table_ok [OF this] and s = new_session_facts(2) [OF this(1)]
  have i: "in_i64 7" by (simp add: in_i64_def)
  have "decode_rows (tbl_columns demo_table) (contents (pool_view (ss_pool (new_session 2))) [1]) = Inr []"
    using t(3) by (simp add: decode_rows_def)
  moreover have "store_ok (Suc (Suc (Suc 0))) (ss_pool (new_session 2))" using s by (simp add: numeral_3_eq_3)
  moreover have "length (tbl_columns demo_table) < 65536" by (simp add: demo_table_def)
  ultimately show ?thesis
    using insert_then_scan [OF _ t(1) demo_row(1,2) [OF i], of 0 "[]"] demo_row(3) [OF i] by auto
qed

text \<open>
  A transaction's inserts are its own: inserting a row through the shadow pool succeeds, the
  transaction then scans the table with the new row in it, and every reader of the plain pool still
  scans the rows it had before.
\<close>

theorem transaction_insert_isolated:
  assumes "shadow_ok (Suc (Suc (Suc n))) s"
    and "table_ok (shadow_live s) (shadow_view s) tbl ps"
    and "table_ok (shadow_live s) (pool_view (ss_pool s)) tbl qs"
    and "convert_row row (tbl_columns tbl) = Inr vs" and "storable_row vs (tbl_columns tbl)"
    and "length (tbl_columns tbl) < 65536"
    and "\<forall>d. serialize_row vs (tbl_columns tbl) = Inr d \<longrightarrow> length d + 4 \<le> 4064"
    and "decode_rows (tbl_columns tbl) (contents (shadow_view s) ps) = Inr mine"
    and "decode_rows (tbl_columns tbl) (contents (pool_view (ss_pool s)) qs) = Inr theirs"
  shows "\<exists>rid s' xs ys. table_insert shadow_ops tbl row None s = (Inr rid, s') \<and> mine = xs @ ys \<and>
    fst (scan_all shadow_ops tbl None s') = Inr (xs @ (rid, vs) # ys) \<and>
    fst (scan_all main_ops tbl None s') = Inr theirs"
proof -
  obtain d where d: "serialize_row vs (tbl_columns tbl) = Inr d" "deserialize_row d (tbl_columns tbl) = Inr vs"
      "d \<noteq> []"
    using storable_row_serialized [OF assms(5,6)] by blast
  then have fit: "length d + 4 \<le> 4064" using assms(7) by simp
  obtain rid s' ps' xs ys where i: "table_insert shadow_ops tbl row None s = (Inr rid, s')"
    "shadow_inv (originals s) n s'" "table_ok (shadow_live s') (shadow_view s') tbl ps'"
    "mine = xs @ ys"
    "decode_rows (tbl_columns tbl) (contents (shadow_view s') ps') = Inr (xs @ (rid, vs) # ys)"
    using shadow.insert_scan [OF shadow_inv_originals [OF assms(1)] assms(2,4) d fit assms(8)] by blast
  have mine: "fst (scan_all shadow_ops tbl None s') = Inr (xs @ (rid, vs) # ys)"
    using shadow.scan_all_ok [OF i(2,3,5)] by auto
  have ok': "store_ok n (ss_pool s')" using i(2) by (simp add: shadow_inv_def shadow_ok_def)
  have ch: "chain (shadow_live s) (pool_view (ss_pool s)) (tbl_root tbl) qs 0"
    using assms(3) by (simp add: table_ok_def)
  have keep: "pool_live (ss_pool s') q \<and> pool_view (ss_pool s') q = pool_view (ss_pool s) q" if "q \<in> set qs" for q
    using chain_pages [OF ch that] originals_kept [OF i(2)] by (auto simp: shadow_live_def)
  have "chain (pool_live (ss_pool s')) (pool_view (ss_pool s')) (tbl_root tbl) qs 0"
    by (rule chain_mono [OF ch]) (use keep in auto)
  then have t: "table_ok (pool_live (ss_pool s')) (pool_view (ss_pool s')) tbl qs"
    using assms(3) by (simp add: table_ok_def)
  have "contents (pool_view (ss_pool s')) qs = contents (pool_view (ss_pool s)) qs"
    using keep by (intro contents_cong rows_at_cong) simp
  with assms(9) have "decode_rows (tbl_columns tbl) (contents (pool_view (ss_pool s')) qs) = Inr theirs" by simp
  then have "fst (scan_all main_ops tbl None s') = Inr theirs"
    using main.scan_all_ok [OF ok' t] by auto
  with i(1,4) mine show ?thesis by blast
qed

theorem transaction_insert_isolated_witness:
  "\<exists>rid s'. table_insert shadow_ops demo_table [PInt 7] None (new_session 2) = (Inr rid, s') \<and>
     fst (scan_all shadow_ops demo_table None s') = Inr [(rid, [PInt 7])] \<and>
     fst (scan_all main_ops demo_table None s') = Inr []"
proof -
  have n: "(2 :: nat) + 1 + 3 < 2 ^ 32" "0 < (2 :: nat)" by simp_all
  note t = demo_table_ok [OF n] and s = new_session_facts [OF n(1)]
  have i: "in_i64 7" by (simp add: in_i64_def)
  have sl: "shadow_live (new_session 2) = pool_live (ss_pool (new_session 2))"
    using s(3,4) by (simp add: fun_eq_iff)
  have "decode_rows (tbl_columns demo_table) (contents (pool_view (ss_pool (new_session 2))) [1]) = Inr []"
    "decode_rows (tbl_columns demo_table) (contents (shadow_view (new_session 2)) [1]) = Inr []"
    using t(3,4) by (simp_all add: decode_rows_def)
  moreover have "shadow_ok (Suc (Suc (Suc 0))) (new_session 2)" using s(1) by (simp add: numeral_3_eq_3)
  moreover have "length (tbl_columns demo_table) < 65536" by (simp add: demo_table_def)
  ultimately show ?thesis
    using transaction_insert_isolated [OF _ t(2) t(1) [folded sl] demo_row(1,2) [OF i], of 0 "[]" "[]"]
      demo_row(3) [OF i] by auto
qed

text \<open>
  Deleting a row works: after the deletion a scan returns the earlier rows without the deleted
  one, and reading the deleted row id returns nothing.
\<close>

theorem delete_then_scan:
  assumes "store_ok (Suc n) (ss_pool s)"
    and "table_ok (pool_live (ss_pool s)) (pool_view (ss_pool s)) tbl ps"
    and "decode_rows (tbl_columns tbl) (contents (pool_view (ss_pool s)) ps) = Inr old"
    and "rid \<in> fst ` set old"
  shows "fst (scan_all main_ops tbl None s) = Inr old \<and>
    (\<exists>s'. table_delete main_ops tbl rid None s = (Inr (), s') \<and>
      fst (scan_all main_ops tbl None s') = Inr (filter (\<lambda>(r, _). r \<noteq> rid) old) \<and>
      fst (table_get main_ops tbl rid s') = Inr None)"
proof -
  have mem: "rid \<in> fst ` set (contents (pool_view (ss_pool s)) ps)"
    using assms(4) decode_rows_keys [OF assms(3)] by (metis list.set_map)
  then obtain d where d: "(rid, d) \<in> set (contents (pool_view (ss_pool s)) ps)" by auto
  then have p: "rid_page_id rid \<in> set ps" by (rule contents_page)
  have i: "rid_slot_index rid < length (rows_at (pool_view (ss_pool s)) (rid_page_id rid))"
    using d live_slots_page live_slots_index by (fastforce simp: contents_def)
  obtain s' where s': "table_delete main_ops tbl rid None s = (Inr (), s')" "store_ok n (ss_pool s')"
    "table_ok (pool_live (ss_pool s')) (pool_view (ss_pool s')) tbl ps"
    "contents (pool_view (ss_pool s')) ps = filter (\<lambda>(r, _). r \<noteq> rid) (contents (pool_view (ss_pool s)) ps)"
    using main.table_delete_ok [OF assms(1,2) p i] by blast
  have dec: "decode_rows (tbl_columns tbl) (contents (pool_view (ss_pool s')) ps)
      = Inr (filter (\<lambda>(r, _). r \<noteq> rid) old)"
    using main.decode_rows_filter [OF assms(3)] s'(4) by simp
  have "map_of (filter (\<lambda>(r, _). r \<noteq> rid) old) rid = None" by (auto simp: map_of_eq_None_iff)
  then have "fst (table_get main_ops tbl rid s') = Inr None"
    using main.table_get_ok [OF s'(2,3) p] main.map_of_decode [OF dec, of rid] by auto
  then show ?thesis
    using main.scan_all_ok [OF assms(1-3)] main.scan_all_ok [OF s'(2,3) dec] s'(1) by auto
qed

lemma demo_inserted:
  "\<exists>rid s' ps'. table_insert main_ops demo_table [PInt 7] None (new_session 2) = (Inr rid, s') \<and>
     store_ok 1 (ss_pool s') \<and> table_ok (pool_live (ss_pool s')) (pool_view (ss_pool s')) demo_table ps' \<and>
     decode_rows (tbl_columns demo_table) (contents (pool_view (ss_pool s')) ps') = Inr [(rid, [PInt 7])]"
proof -
  have n: "(2 :: nat) + 1 + 4 < 2 ^ 32" "0 < (2 :: nat)" by simp_all
  note t = demo_table_ok [OF n] and s = new_session_facts(2) [OF n(1)]
  have i: "in_i64 7" by (simp add: in_i64_def)
  have st: "store_ok (Suc (Suc (Suc 1))) (ss_pool (new_session 2))" using s by (simp add: numeral_eq_Suc)
  have "length (tbl_columns demo_table) < 65536" by (simp add: demo_table_def)
  then obtain d where d: "serialize_row [PInt 7] (tbl_columns demo_table) = Inr d"
      "deserialize_row d (tbl_columns demo_table) = Inr [PInt 7]" "d \<noteq> []"
    using storable_row_serialized [OF demo_row(2) [OF i]] by blast
  have "decode_rows (tbl_columns demo_table) (contents (pool_view (ss_pool (new_session 2))) [1]) = Inr []"
    using t(3) by (simp add: decode_rows_def)
  from main.insert_scan [OF st t(1) demo_row(1) [OF i] d demo_row(3) [OF i d(1)] this]
  show ?thesis by auto
qed

theorem delete_then_scan_witness:
  "\<exists>rid s s'. fst (scan_all main_ops demo_table None s) = Inr [(rid, [PInt 7])] \<and>
     table_delete main_ops demo_table rid None s = (Inr (), s') \<and>
     fst (scan_all main_ops demo_table None s') = Inr []"
proof -
  obtain rid and s :: session and ps where s: "store_ok (Suc 0) (ss_pool s)"
    "table_ok (pool_live (ss_pool s)) (pool_view (ss_pool s)) demo_table ps"
    "decode_rows (tbl_columns demo_table) (contents (pool_view (ss_pool s)) ps) = Inr [(rid, [PInt 7])]"
    using demo_inserted unfolding One_nat_def by blast
  from delete_then_scan [OF s, of rid] show ?thesis by auto
qed

text \<open>The page that an in-place update leaves behind.\<close>

end
