(* ===== verification/Txn_Manager.thy ===== *)
theory Txn_Manager
  imports Shadow_Paging
begin

text \<open>
  \<open>tinydb/transaction/txn_manager.py\<close> and \<open>tinydb/concurrency/isolation.py\<close>: the life cycle of
  transactions. The manager works on the pool and file of the database, so its methods run on the
  \<open>engine\<close> state; its deadlock detector is the one its lock manager holds. Start times are left
  out, and an isolation level is recorded but, as in the source, nothing depends on it.
\<close>

section \<open>Isolation levels\<close>

datatype IsolationLevel = READ_UNCOMMITTED | READ_COMMITTED | REPEATABLE_READ | SERIALIZABLE

definition default_isolation :: IsolationLevel where
  "default_isolation = REPEATABLE_READ"

section \<open>State\<close>

record TransactionEntry =
  te_txn :: Transaction
  te_isolation :: IsolationLevel
  te_snapshot :: Snapshot

record engine =
  en_pool :: buffer_pool
  en_active :: "(nat, TransactionEntry) dict"
  en_counter :: nat
  en_locks :: lock_manager
  en_mvcc :: mvcc

definition new_engine :: "buffer_pool \<Rightarrow> engine" where
  "new_engine bp = \<lparr>en_pool = bp, en_active = [], en_counter = 0,
     en_locks = new_lock_manager (Some []), en_mvcc = []\<rparr>"

abbreviation on_engine_pool :: "(buffer_pool, 'a) st \<Rightarrow> (engine, 'a) st" where
  "on_engine_pool \<equiv> szoom en_pool (\<lambda>bp e. e\<lparr>en_pool := bp\<rparr>)"

section \<open>Operations\<close>

definition txn_begin :: "IsolationLevel option \<Rightarrow> engine \<Rightarrow> nat \<times> engine" where
  "txn_begin isolation e =
     (let level = (case isolation of None \<Rightarrow> default_isolation | Some i \<Rightarrow> i);
          txn = en_counter e + 1;
          root = fm_root_page_id (bp_fm (en_pool e));
          entry = \<lparr>te_txn = \<lparr>txn_id = txn, txn_state = Active, shadow_pages = [],
                     snapshot_root = root, new_root = root\<rparr>,
                   te_isolation = level,
                   te_snapshot = \<lparr>active_txns = set (dict_keys (en_active e)) \<union> {txn}\<rparr>\<rparr>
      in (txn, e\<lparr>en_counter := txn, en_active := dict_set txn entry (en_active e)\<rparr>))"

definition resolve_txn :: "nat option \<Rightarrow> engine \<Rightarrow> TransactionEntry res" where
  "resolve_txn txn e = (case txn of
     Some t \<Rightarrow> (case dict_get (en_active e) t of None \<Rightarrow> Inl TransactionError | Some entry \<Rightarrow> Inr entry)
   | None \<Rightarrow> (case en_active e of [(t, entry)] \<Rightarrow> Inr entry | _ \<Rightarrow> Inl TransactionError))"

text \<open>Releasing the locks of a transaction and its edges in the wait-for graph.\<close>

definition drop_locks :: "nat \<Rightarrow> engine \<Rightarrow> engine" where
  "drop_locks t e = (let lm = release_all t (en_locks e)
     in e\<lparr>en_locks := lm\<lparr>lm_detector := map_option (clear_txn t) (lm_detector lm)\<rparr>\<rparr>)"

text \<open>The copy of one shadow page over its original, directly in the file.\<close>

definition copy_back :: "nat \<times> nat \<Rightarrow> (file_manager, unit) st" where
  "copy_back = (\<lambda>(orig, shadow). sbind (read_page shadow) (\<lambda>data. write_page orig data))"

definition txn_commit :: "nat option \<Rightarrow> (engine, unit) st" where
  "txn_commit txn_opt e =
     sbind (slift (resolve_txn txn_opt e)) (\<lambda>entry.
     let txn = te_txn entry; t = txn_id txn in
     sbind (on_engine_pool flush) (\<lambda>_.
     sbind (on_engine_pool (on_fm (smap copy_back (shadow_pages txn)))) (\<lambda>_.
     sbind (on_engine_pool (on_fm (smod (\<lambda>fm. fm\<lparr>fm_root_page_id := new_root txn\<rparr>)))) (\<lambda>_.
     sbind (on_engine_pool (on_fm write_header)) (\<lambda>_.
     sbind (on_engine_pool (smod (\<lambda>bp. bp\<lparr>bp_cache := []\<rparr>))) (\<lambda>_.
     sbind (smod (drop_locks t)) (\<lambda>_.
     sbind (smod (\<lambda>e. e\<lparr>en_mvcc := fst (gc (set (dict_keys (en_active e)) - {t}) (en_mvcc e))\<rparr>)) (\<lambda>_.
       smod (\<lambda>e. e\<lparr>en_active := dict_del t (en_active e)\<rparr>))))))))) e"

definition txn_rollback :: "nat option \<Rightarrow> (engine, unit) st" where
  "txn_rollback txn_opt e =
     sbind (slift (resolve_txn txn_opt e)) (\<lambda>entry.
     let txn = te_txn entry; t = txn_id txn in
     sbind (on_engine_pool (on_fm (smap (\<lambda>(orig, shadow). free_page shadow) (shadow_pages txn)))) (\<lambda>_.
     sbind (smod (drop_locks t)) (\<lambda>_.
       smod (\<lambda>e. e\<lparr>en_active := dict_del t (en_active e)\<rparr>)))) e"

definition get_snapshot :: "nat \<Rightarrow> engine \<Rightarrow> Snapshot res" where
  "get_snapshot t e = (case dict_get (en_active e) t of
     None \<Rightarrow> Inl TransactionError | Some entry \<Rightarrow> Inr (te_snapshot entry))"

definition has_active_txn :: "engine \<Rightarrow> bool" where
  "has_active_txn e \<longleftrightarrow> en_active e \<noteq> []"

text \<open>\<open>TransactionManager.ensure_shadow\<close>, for the first transaction in the order of the dict.\<close>

definition txn_ensure_shadow :: "nat \<Rightarrow> (engine, nat) st" where
  "txn_ensure_shadow p e = (case en_active e of
     [] \<Rightarrow> (Inr p, e)
   | (t, entry) # _ \<Rightarrow> (case dict_get (shadow_pages (te_txn entry)) p of
       Some q \<Rightarrow> (Inr q, e)
     | None \<Rightarrow>
         sbind (on_engine_pool (on_fm alloc_page)) (\<lambda>q.
         sbind (on_engine_pool (get_page p None)) (\<lambda>orig_data.
         sbind (on_engine_pool (on_fm (write_page q orig_data))) (\<lambda>_.
         sbind (smod (\<lambda>e. e\<lparr>en_mvcc := create_version p orig_data t (en_mvcc e)\<rparr>)) (\<lambda>_.
         sbind (smod (\<lambda>e. e\<lparr>en_active := dict_set t (entry\<lparr>te_txn := (te_txn entry)\<lparr>shadow_pages :=
             dict_set p q (shadow_pages (te_txn entry))\<rparr>\<rparr>) (en_active e)\<rparr>)) (\<lambda>_. sret q))))) e))"

definition get_active_context :: "engine \<Rightarrow> (nat \<times> IsolationLevel \<times> Snapshot) option" where
  "get_active_context e = (case en_active e of
     [(t, entry)] \<Rightarrow> Some (txn_id (te_txn entry), te_isolation entry, te_snapshot entry)
   | _ \<Rightarrow> None)"

definition release_read_locks :: "nat \<Rightarrow> engine \<Rightarrow> engine" where
  "release_read_locks t e = e\<lparr>en_locks := release_all t (en_locks e)\<rparr>"

text \<open>
  A statement of the database runs on a session: the plain pool when no transaction is active,
  else the shadow pool of the active transaction with the smallest id; its changes to the pool and
  to the transaction are seen by everybody afterwards.
\<close>

definition session_of :: "engine \<Rightarrow> TransactionEntry \<Rightarrow> session" where
  "session_of e entry = \<lparr>ss_pool = en_pool e, ss_txn = te_txn entry, ss_locks = en_locks e\<rparr>"

section \<open>Invariant of the transaction table\<close>

definition txns_ok :: "engine \<Rightarrow> bool" where
  "txns_ok e \<longleftrightarrow> distinct (dict_keys (en_active e)) \<and>
     (\<forall>t entry. dict_get (en_active e) t = Some entry \<longrightarrow>
        txn_id (te_txn entry) = t \<and> t \<le> en_counter e \<and>
        t \<in> active_txns (te_snapshot entry) \<and> (\<forall>u \<in> active_txns (te_snapshot entry). u \<le> t))"

lemma txns_ok_begin:
  assumes "txns_ok e"
  shows "txns_ok (snd (txn_begin lvl e))"
proof -
  have "k \<le> en_counter e" if "k \<in> set (dict_keys (en_active e))" for k
  proof -
    have "dict_get (en_active e) k \<noteq> None" using that by (simp add: dict_get_None_iff)
    then show ?thesis using assms by (auto simp: txns_ok_def)
  qed
  then have k: "\<forall>k \<in> set (dict_keys (en_active e)). k \<le> Suc (en_counter e)" by (meson le_SucI)
  have "t \<le> Suc (en_counter e)" if "dict_get (en_active e) t = Some entry" for t entry
    using assms that by (auto simp: txns_ok_def intro: le_SucI)
  then show ?thesis using assms k
    by (auto simp: txn_begin_def Let_def txns_ok_def simp del: set_map)
qed

lemma resolve_txn_active:
  assumes "txns_ok e" and "resolve_txn txn e = Inr entry"
  shows "dict_get (en_active e) (txn_id (te_txn entry)) = Some entry"
proof (cases txn)
  case None
  then obtain t where "en_active e = [(t, entry)]"
    using assms(2) by (auto simp: resolve_txn_def split: list.splits)
  then show ?thesis using assms(1) by (simp add: txns_ok_def)
next
  case (Some t)
  then have "dict_get (en_active e) t = Some entry"
    using assms(2) by (auto simp: resolve_txn_def split: option.splits)
  then show ?thesis using assms(1) by (simp add: txns_ok_def)
qed

lemma active_drop_locks [simp]:
  "en_active (drop_locks t e) = en_active e" "en_pool (drop_locks t e) = en_pool e"
  "en_counter (drop_locks t e) = en_counter e" "en_mvcc (drop_locks t e) = en_mvcc e"
  by (simp_all add: drop_locks_def Let_def)

lemma txns_ok_del:
  "txns_ok e \<Longrightarrow> en_active e' = dict_del t (en_active e) \<Longrightarrow> en_counter e' = en_counter e \<Longrightarrow> txns_ok e'"
  by (auto simp: txns_ok_def)

section \<open>Reachable states\<close>

inductive engine_reachable :: "buffer_pool \<Rightarrow> engine \<Rightarrow> bool" for bp where
  start: "engine_reachable bp (new_engine bp)"
| begin_txn: "engine_reachable bp e \<Longrightarrow> engine_reachable bp (snd (txn_begin lvl e))"
| commit_txn: "engine_reachable bp e \<Longrightarrow> engine_reachable bp (snd (txn_commit t e))"
| rollback_txn: "engine_reachable bp e \<Longrightarrow> engine_reachable bp (snd (txn_rollback t e))"
| shadow_page: "engine_reachable bp e \<Longrightarrow> engine_reachable bp (snd (txn_ensure_shadow p e))"
| other_pool: "engine_reachable bp e \<Longrightarrow> engine_reachable bp (e\<lparr>en_pool := bp'\<rparr>)"
| drop_read_locks: "engine_reachable bp e \<Longrightarrow> engine_reachable bp (release_read_locks t e)"

lemma txns_ok_fields:
  "en_active e' = en_active e \<Longrightarrow> en_counter e' = en_counter e \<Longrightarrow> txns_ok e' = txns_ok e"
  by (simp add: txns_ok_def)

lemma preserves_zoom_engine [preserve]: "preserves txns_ok (on_engine_pool m)"
  by (rule preservesI) (auto simp: szoom_def split: prod.splits intro: txns_ok_fields [THEN iffD2])

lemma preserves_drop_locks [preserve]: "preserves txns_ok (smod (drop_locks t))"
  by (rule preserves_smod) (simp add: txns_ok_def)

lemma preserves_del_txn [preserve]: "preserves txns_ok (smod (\<lambda>e. e\<lparr>en_active := dict_del t (en_active e)\<rparr>))"
  by (rule preserves_smod) (rule txns_ok_del, assumption, simp_all)

lemma preserves_mvcc [preserve]: "preserves txns_ok (smod (\<lambda>e. e\<lparr>en_mvcc := f e\<rparr>))"
  by (rule preserves_smod) (simp add: txns_ok_def)

lemma lift_bind_txns_ok: "txns_ok e \<Longrightarrow> (\<And>x. preserves txns_ok (f x)) \<Longrightarrow> txns_ok (snd (sbind (slift r) f e))"
  by (cases r) (simp_all add: preserves_def)

lemma bind_leads:
  assumes "preserves I m" and "\<And>s. I s \<Longrightarrow> J s" and "\<And>x s. I s \<Longrightarrow> J (snd (f x s))" and "I s"
  shows "J (snd (sbind m f s))"
proof -
  obtain r t where "m s = (r, t)" by (cases "m s")
  moreover from this have "I t" using assms(1,4) by (auto dest: preservesD)
  ultimately show ?thesis using assms(2,3) by (cases r) (auto simp: sbind_def)
qed

lemma txn_commit_txns_ok: "txns_ok e \<Longrightarrow> txns_ok (snd (txn_commit t e))"
  unfolding txn_commit_def Let_def by (rule lift_bind_txns_ok, assumption) (intro preserve)

lemma txn_rollback_txns_ok: "txns_ok e \<Longrightarrow> txns_ok (snd (txn_rollback t e))"
  unfolding txn_rollback_def Let_def by (rule lift_bind_txns_ok, assumption) (intro preserve)

lemma txn_ensure_shadow_txns_ok: "txns_ok e \<Longrightarrow> txns_ok (snd (txn_ensure_shadow p e))"
proof -
  assume ok: "txns_ok e"
  show ?thesis
  proof (cases "en_active e")
    case Nil
    with ok show ?thesis by (simp add: txn_ensure_shadow_def)
  next
    case (Cons x rest)
    obtain t entry where x: "x = (t, entry)" by (cases x)
    show ?thesis
    proof (cases "dict_get (shadow_pages (te_txn entry)) p")
      case None
      define I where "I e' \<longleftrightarrow> txns_ok e' \<and> dict_get (en_active e') t = Some entry" for e'
      have zoom: "preserves I (on_engine_pool m)" for m :: "(buffer_pool, 'b) st"
        by (rule preservesI) (simp add: szoom_def I_def txns_ok_def split: prod.splits)
      have mvcc: "preserves I (smod (\<lambda>e. e\<lparr>en_mvcc := f e\<rparr>))" for f
        by (rule preserves_smod) (simp add: I_def txns_ok_def)
      define entry' where "entry' q = entry\<lparr>te_txn := (te_txn entry)\<lparr>shadow_pages :=
             dict_set p q (shadow_pages (te_txn entry))\<rparr>\<rparr>" for q
      have upd: "txns_ok (e'\<lparr>en_active := dict_set t (entry' q) (en_active e')\<rparr>)" if "I e'" for e' q
      proof -
        have o: "txn_id (te_txn en) = k \<and> k \<le> en_counter e' \<and> k \<in> active_txns (te_snapshot en) \<and>
            (\<forall>u \<in> active_txns (te_snapshot en). u \<le> k)" if "dict_get (en_active e') k = Some en" for k en
          using \<open>I e'\<close> that by (simp add: I_def txns_ok_def)
        have "distinct (dict_keys (dict_set t (entry' q) (en_active e')))"
          using \<open>I e'\<close> by (simp add: I_def txns_ok_def)
        then show ?thesis using o o [of t entry] \<open>I e'\<close> by (simp add: txns_ok_def I_def entry'_def)
      qed
      have Iok: "txns_ok e'" if "I e'" for e' using that by (simp add: I_def)
      have "I e" using ok Cons x by (simp add: I_def)
      then have "txns_ok (snd (sbind (on_engine_pool (on_fm alloc_page)) (\<lambda>q.
         sbind (on_engine_pool (get_page p None)) (\<lambda>orig_data.
         sbind (on_engine_pool (on_fm (write_page q orig_data))) (\<lambda>_.
         sbind (smod (\<lambda>e. e\<lparr>en_mvcc := create_version p orig_data t (en_mvcc e)\<rparr>)) (\<lambda>_.
         sbind (smod (\<lambda>e. e\<lparr>en_active := dict_set t (entry' q) (en_active e)\<rparr>)) (\<lambda>_. sret q))))) e))"
        by (intro bind_leads [where J = txns_ok, OF zoom] bind_leads [where J = txns_ok, OF mvcc]; simp add: upd Iok)
      then show ?thesis using Cons x None by (simp add: txn_ensure_shadow_def entry'_def)
    qed (use ok Cons x in \<open>simp add: txn_ensure_shadow_def\<close>)
  qed
qed

lemma engine_reachable_txns_ok: "engine_reachable bp e \<Longrightarrow> txns_ok e"
proof (induction rule: engine_reachable.induct)
  case start
  then show ?case by (simp add: txns_ok_def new_engine_def)
next
  case (drop_read_locks e t)
  then show ?case by (simp add: txns_ok_def release_read_locks_def)
next
  case (other_pool e bp')
  then show ?case by (simp add: txns_ok_def)
qed (simp_all add: txns_ok_begin txn_commit_txns_ok txn_rollback_txns_ok txn_ensure_shadow_txns_ok)

section \<open>Commit\<close>

text \<open>What the file holds after the shadows are copied back.\<close>

lemma copy_back_all:
  assumes "fm_inv fm" and "distinct (map fst sh)" and "set (map fst sh) \<inter> set (map snd sh) = {}"
    and "\<forall>(p, q) \<in> set sh. p < fm_page_count fm \<and> q < fm_page_count fm"
  shows "\<exists>fm'. smap copy_back sh fm = (Inr (replicate (length sh) ()), fm') \<and> fm_inv fm' \<and>
    fm' = fm\<lparr>fm_file := fm_file fm'\<rparr> \<and>
    (\<forall>r. disk fm' r = (case dict_get sh r of Some q \<Rightarrow> disk fm q | None \<Rightarrow> disk fm r))"
  using assms
proof (induction sh arbitrary: fm)
  case (Cons pq sh)
  obtain p q where pq: "pq = (p, q)" by (cases pq)
  have b: "p < fm_page_count fm" "q < fm_page_count fm" using Cons.prems(4) pq by auto
  then obtain d where d: "disk fm q = Some d" by (simp add: disk_def)
  have ld: "length d = 4096" using disk_length [OF Cons.prems(1) d] .
  define fm1 where "fm1 = snd (write_page p d fm)"
  note w = write_page_facts [OF Cons.prems(1) b(1) ld, folded fm1_def]
  have w1: "write_page p d fm = (Inr (), fm1)" using w(1) by (simp add: fm1_def prod_eq_iff)
  have r1: "copy_back pq fm = (Inr (), fm1)"
    using read_page_eq [OF Cons.prems(1), of q] d w1 by (simp add: copy_back_def pq sbind_def)
  note fl = same_fields [OF w(4)]
  have pre: "distinct (map fst sh)" "set (map fst sh) \<inter> set (map snd sh) = {}"
    "\<forall>(p, q) \<in> set sh. p < fm_page_count fm1 \<and> q < fm_page_count fm1"
    using Cons.prems(2,3,4) pq fl by auto
  obtain fm' where i: "smap copy_back sh fm1 = (Inr (replicate (length sh) ()), fm')" "fm_inv fm'"
    "fm' = fm1\<lparr>fm_file := fm_file fm'\<rparr>"
    "\<forall>r. disk fm' r = (case dict_get sh r of Some q \<Rightarrow> disk fm1 q | None \<Rightarrow> disk fm1 r)"
    using Cons.IH [OF w(2) pre] by blast
  have e: "fm' = fm\<lparr>fm_file := fm_file fm'\<rparr>"
    using i(3) w(4) by (metis file_manager.surjective file_manager.update_convs(1))
  have np: "dict_get sh p = None" using Cons.prems(2) pq by (simp add: map_of_eq_None_iff)
  have nq: "q' \<noteq> p" if "dict_get sh r = Some q'" for r q'
    using Cons.prems(3) pq dict_get_SomeD [OF that] by force
  have "disk fm' r = (case dict_get (pq # sh) r of Some q \<Rightarrow> disk fm q | None \<Rightarrow> disk fm r)" for r
    using i(4) w(3) np nq d pq by (auto split: option.splits)
  then show ?case using i(1,2) r1 e by (intro exI [of _ fm']) (simp add: sbind_def)
qed (force intro: exI [of _ "_ :: file_manager"])

lemma commit_ok:
  assumes tx: "txns_ok e" and r: "resolve_txn txn e = Inr entry" and sh: "shadow_ok n (session_of e entry)"
    and nr: "new_root (te_txn entry) < 2 ^ 32"
  shows "\<exists>e'. txn_commit txn e = (Inr (), e') \<and> pool_inv (en_pool e') \<and> bp_cache (en_pool e') = [] \<and>
    (\<forall>p. 0 < p \<longrightarrow> pool_view (en_pool e') p = shadow_view (session_of e entry) p) \<and>
    store_ok n (en_pool e') \<and> pool_live (en_pool e') = pool_live (en_pool e) \<and>
    en_active e' = dict_del (txn_id (te_txn entry)) (en_active e) \<and> en_counter e' = en_counter e \<and>
    en_locks e' = en_locks (drop_locks (txn_id (te_txn entry)) e)"
proof -
  let ?s = "session_of e entry" and ?bp = "en_pool e" and ?sh = "shadow_pages (te_txn entry)"
  let ?t = "txn_id (te_txn entry)"
  have inv: "pool_inv ?bp" and dist: "distinct (dict_keys ?sh)"
    and lv: "\<And>p q. dict_get ?sh p = Some q \<Longrightarrow> pool_live ?bp p \<and> pool_live ?bp q"
    using sh by (auto simp: shadow_ok_def store_ok_def session_of_def shadow_of_def)
  obtain b1 where b1: "flush ?bp = (Inr (), b1)" "same_pages {} ?bp b1" "\<forall>k. disk (bp_fm b1) k = pool_view ?bp k"
    using flush_facts [OF inv] by blast
  note s1 = same_pagesD [OF b1(2)]
  have mem: "dict_get ?sh p = Some q" if "(p, q) \<in> set ?sh" for p q
    using that dist by (simp add: dict_get_Some_iff)
  have "set (map fst ?sh) \<inter> set (map snd ?sh) = {}"
  proof -
    have False if "(p, q) \<in> set ?sh" "(q, r) \<in> set ?sh" for p q r
      using sh mem [OF that(1)] mem [OF that(2)] by (auto simp: shadow_ok_def shadow_of_def session_of_def)
    then show ?thesis by fastforce
  qed
  moreover have "\<forall>(p, q) \<in> set ?sh. p < fm_page_count (bp_fm b1) \<and> q < fm_page_count (bp_fm b1)"
    using mem lv s1(7) by (auto simp: pool_live_def)
  ultimately obtain fm2 where c: "smap copy_back ?sh (bp_fm b1) = (Inr (replicate (length ?sh) ()), fm2)" "fm_inv fm2"
    "fm2 = (bp_fm b1)\<lparr>fm_file := fm_file fm2\<rparr>"
    "\<forall>r. disk fm2 r = (case dict_get ?sh r of Some q \<Rightarrow> disk (bp_fm b1) q | None \<Rightarrow> disk (bp_fm b1) r)"
    using copy_back_all [OF pool_invD(1) [OF s1(1)] dist] by blast
  let ?fm3 = "fm2\<lparr>fm_root_page_id := new_root (te_txn entry)\<rparr>"
  have fi3: "fm_inv ?fm3" using c(2) nr by (simp add: fm_inv_def)
  obtain r4 fm4 where w: "write_header ?fm3 = (r4, fm4)" by (cases "write_header ?fm3")
  note h = write_header_facts [OF fi3 w]
  let ?b = "b1\<lparr>bp_fm := fm4, bp_cache := []\<rparr>"
  define e1 where "e1 = drop_locks ?t (e\<lparr>en_pool := ?b\<rparr>)"
  define e2 where "e2 = e1\<lparr>en_mvcc := fst (gc (set (dict_keys (en_active e1)) - {?t}) (en_mvcc e1))\<rparr>"
  define e' where "e' = e2\<lparr>en_active := dict_del ?t (en_active e2)\<rparr>"
  have run: "txn_commit txn e = (Inr (), e')"
    using r b1(1) c(1) w h(1)
    by (simp add: txn_commit_def Let_def sbind_def szoom_def e1_def e2_def e'_def)
  have "pool_inv ?b" using h(2) by (simp add: pool_inv_def)
  moreover have "pool_view ?b p = shadow_view ?s p" if "0 < p" for p
  proof -
    have "pool_view ?b p = disk fm4 p" by simp
    also have "\<dots> = disk fm2 p" using h(3) [of p] that by simp
    also have "\<dots> = shadow_view ?s p"
      using c(4) b1(3) by (simp add: shadow_view_def resolve_def shadow_of_def session_of_def split: option.splits)
    finally show ?thesis .
  qed
  moreover have "store_ok n ?b" "pool_live ?b = pool_live ?bp"
  proof -
    obtain xs where xs: "free_list (bp_fm ?bp) xs" "\<forall>x \<in> set xs. \<not> cached ?bp x"
      using sh by (auto simp: shadow_ok_def store_ok_def session_of_def)
    have x1: "free_list (bp_fm b1) xs" using free_list_same_pages [OF b1(2) xs] by simp
    have keep: "disk fm4 x = disk (bp_fm b1) x" if "x \<in> set xs" for x
    proof -
      have "is_free (bp_fm ?bp) x" using that is_free_eq [OF xs(1)] by simp
      then have "dict_get ?sh x = None" using lv by (cases "dict_get ?sh x") (auto simp: pool_live_def)
      moreover have "x \<noteq> 0" using that free_chain_nonzero x1 by (metis free_list_def)
      ultimately show ?thesis using h(3) [of x] c(4) by simp
    qed
    have fl: "fm_free_list_head fm4 = fm_free_list_head (bp_fm b1)" "fm_page_count fm4 = fm_page_count (bp_fm ?bp)"
      using same_fields [OF h(4)] same_fields [OF c(3)] s1(7,8) by simp_all
    have x4: "free_list fm4 xs" using x1 keep fl by (auto simp: free_list_def intro: free_chain_cong)
    have frame: "has_frame ?b"
      using s1 sh by (simp add: has_frame_def shadow_ok_def store_ok_def session_of_def)
    show "store_ok n ?b" using h(2) x4 fl sh frame
      by (auto simp: store_ok_def pool_inv_def cached_def shadow_ok_def session_of_def)
    show "pool_live ?b = pool_live ?bp"
      using is_free_eq [OF x4] is_free_eq [OF xs(1)] fl by (simp add: pool_live_def fun_eq_iff)
  qed
  moreover have "en_pool e' = ?b" "en_active e' = dict_del ?t (en_active e)" "en_counter e' = en_counter e"
      "en_locks e' = en_locks (drop_locks ?t e)"
    by (simp_all add: e'_def e2_def e1_def) (simp add: drop_locks_def Let_def)
  ultimately show ?thesis using run by simp
qed


section \<open>Rollback\<close>

lemma alloc_page_pop:
  assumes inv: "fm_inv fm" and hd: "fm_free_list_head fm = x" "x \<noteq> 0" and d: "disk fm x = Some d"
    and h: "parse_page_header d = Inr h"
  shows "\<exists>fm'. alloc_page fm = (Inr x, fm') \<and> fm_inv fm' \<and> fm_free_list_head fm' = h_next_page_id h \<and>
    (\<forall>p. p \<noteq> 0 \<longrightarrow> disk fm' p = disk fm p)"
proof -
  let ?g = "fm\<lparr>fm_free_list_head := h_next_page_id h\<rparr>"
  have g: "fm_inv ?g" using inv parse_page_header_fits [OF h] by (simp add: fm_inv_def header_fits_def)
  obtain r fm' where w: "write_header ?g = (r, fm')" by (cases "write_header ?g")
  note f = write_header_facts [OF g w]
  have "alloc_page fm = (Inr x, fm')"
    using hd d h w f(1) read_page_eq [OF inv, of x] by (simp add: alloc_page_def Let_def sbind_def)
  moreover have "disk fm' p = disk fm p" if "p \<noteq> 0" for p using f(3) [OF that] by (simp add: disk_def)
  moreover have "fm_free_list_head fm' = h_next_page_id h" by (subst f(4)) simp
  ultimately show ?thesis using f(2) by blast
qed

text \<open>Freeing a dirty cached page leaves the pool consistent: its old contents are still to be written.\<close>

lemma pool_inv_free_dirty:
  assumes inv: "pool_inv bp" and fl: "free_list (bp_fm bp) xs" and fr: "freeable (bp_fm bp) q" "q \<notin> set xs"
    and dirty: "dict_get (bp_cache bp) q = Some pg" "p_dirty pg"
  shows "\<exists>fm. free_page q (bp_fm bp) = (Inr (), fm) \<and> pool_inv (bp\<lparr>bp_fm := fm\<rparr>) \<and> fm_free_list_head fm = q \<and>
    (\<forall>p. p \<noteq> 0 \<longrightarrow> p \<noteq> q \<longrightarrow> disk fm p = disk (bp_fm bp) p)"
proof -
  obtain d h where q: "q \<noteq> 0" and d: "disk (bp_fm bp) q = Some d" and h: "d ! 4 = 0 \<or> parse_page_header d = Inr h"
    using fr(1) unfolding freeable_def by blast
  note f = free_page_facts [OF pool_invD(1) [OF inv] fl q fr(2) d h]
  define fm where "fm = snd (free_page q (bp_fm bp))"
  note f = f [folded fm_def]
  have "fm_free_list_head fm = q" using f(3) by (simp add: free_list_def)
  moreover have "page_ok fm k p" if "dict_get (bp_cache bp) k = Some p" for k p
    using pool_invD(3) [OF inv that] f(4) [of k] f(5) dirty that by (cases "k = q") (auto simp: page_ok_def)
  then have "pool_inv (bp\<lparr>bp_fm := fm\<rparr>)" using f(2) inv by (simp add: pool_inv_def)
  ultimately show ?thesis using f(1,4) by (auto simp: fm_def prod_eq_iff)
qed

section \<open>Claims\<close>

text \<open>
  C9. Commit publishes the transaction: afterwards every reader of the plain pool sees each page as
  the transaction saw it, the pages are safely in the file with an empty cache, no page was lost or
  freed, the transaction is gone from the table and holds no lock.
\<close>

theorem commit_publishes:
  assumes "txns_ok e" and "resolve_txn txn e = Inr entry" and "shadow_ok n (session_of e entry)"
    and "new_root (te_txn entry) < 2 ^ 32" and "lm_reachable det (en_locks e)"
  shows "\<exists>e'. txn_commit txn e = (Inr (), e') \<and> txns_ok e' \<and> store_ok n (en_pool e') \<and>
    (\<forall>p. 0 < p \<longrightarrow> pool_view (en_pool e') p = shadow_view (session_of e entry) p) \<and>
    (\<forall>p. 0 < p \<longrightarrow> disk (bp_fm (en_pool e')) p = pool_view (en_pool e') p) \<and>
    pool_live (en_pool e') = pool_live (en_pool e) \<and>
    dict_get (en_active e') (txn_id (te_txn entry)) = None \<and>
    (\<forall>p. txn_id (te_txn entry) \<notin> get_lock_holders p (en_locks e'))"
proof -
  let ?t = "txn_id (te_txn entry)"
  obtain e' where c: "txn_commit txn e = (Inr (), e')" "bp_cache (en_pool e') = []"
    "\<forall>p. 0 < p \<longrightarrow> pool_view (en_pool e') p = shadow_view (session_of e entry) p"
    "store_ok n (en_pool e')" "pool_live (en_pool e') = pool_live (en_pool e)"
    "en_active e' = dict_del ?t (en_active e)" "en_counter e' = en_counter e"
    "en_locks e' = en_locks (drop_locks ?t e)"
    using commit_ok [OF assms(1-4)] by blast
  have "txns_ok e'" using txns_ok_del [OF assms(1) c(6,7)] .
  moreover have "disk (bp_fm (en_pool e')) p = pool_view (en_pool e') p" for p
    using c(2) by (simp add: pool_view_def)
  moreover have "?t \<notin> get_lock_holders p (en_locks e')" for p
    using c(8) holders_of_release_all [OF lm_reachable_inv [OF assms(5)], of ?t p]
    by (simp add: drop_locks_def Let_def get_lock_holders_def holders_of_def delete_notin_dom)
  ultimately show ?thesis using c by auto
qed

text \<open>An engine on the database of \<open>n\<close> data pages, with one transaction begun.\<close>

definition demo_engine :: "nat \<Rightarrow> engine" where
  "demo_engine n = snd (txn_begin None (new_engine (new_pool (data_fm n) 8)))"

definition demo_entry :: TransactionEntry where
  "demo_entry = \<lparr>te_txn = \<lparr>txn_id = 1, txn_state = Active, shadow_pages = [], snapshot_root = 0, new_root = 0\<rparr>,
     te_isolation = REPEATABLE_READ, te_snapshot = \<lparr>active_txns = {1}\<rparr>\<rparr>"

lemma demo_engine_facts:
  shows "txns_ok (demo_engine n)" and "resolve_txn None (demo_engine n) = Inr demo_entry"
    and "en_pool (demo_engine n) = new_pool (data_fm n) 8" and "en_active (demo_engine n) = [(1, demo_entry)]"
    and "session_of (demo_engine n) demo_entry = new_session n"
    and "en_locks (demo_engine n) = new_lock_manager (Some [])"
proof -
  have "txns_ok (new_engine bp)" for bp by (simp add: txns_ok_def new_engine_def)
  then show "txns_ok (demo_engine n)" by (simp add: demo_engine_def txns_ok_begin)
  show e: "en_pool (demo_engine n) = new_pool (data_fm n) 8" "en_active (demo_engine n) = [(1, demo_entry)]"
    "en_locks (demo_engine n) = new_lock_manager (Some [])"
    by (simp_all add: demo_engine_def txn_begin_def new_engine_def Let_def demo_entry_def default_isolation_def
        new_pool_def data_fm_def fresh_fm_def)
  then show "resolve_txn None (demo_engine n) = Inr demo_entry" by (simp add: resolve_txn_def)
  show "session_of (demo_engine n) demo_entry = new_session n"
    using e by (simp add: session_of_def new_session_def demo_entry_def)
qed

theorem commit_publishes_witness:
  "\<exists>e'. txn_commit None (demo_engine 2) = (Inr (), e') \<and>
     pool_view (en_pool e') 2 = Some (empty_page_data 2 DATA)"
proof -
  have n: "(2 :: nat) + 1 + 0 < 2 ^ 32" by simp
  note s = new_session_facts [OF n] and d = demo_engine_facts [of 2]
  have "lm_reachable (Some []) (en_locks (demo_engine 2))" using d(6) by (simp add: lm_reachable_new)
  moreover have "shadow_ok 0 (session_of (demo_engine 2) demo_entry)" using s(1) d(5) by simp
  moreover have "new_root (te_txn demo_entry) < 2 ^ 32" by (simp add: demo_entry_def)
  ultimately obtain e' where "txn_commit None (demo_engine 2) = (Inr (), e')"
    "\<forall>p. 0 < p \<longrightarrow> pool_view (en_pool e') p = shadow_view (session_of (demo_engine 2) demo_entry) p"
    using commit_publishes [OF d(1,2)] by blast
  then show ?thesis using d(5) s(6) [of 2] by auto
qed

text \<open>
  Rolling back leaves a time bomb: the shadow page is put on the free list while its dirty copy
  stays in the cache, so the next flush writes the copy over the link of the free list. The second
  page allocated after that is the page the copy names as the next page of the table, which is in use.
\<close>

theorem rollback_hands_out_live_page:
  assumes "resolve_txn txn e = Inr entry" and "pool_inv (en_pool e)"
    and "free_list (bp_fm (en_pool e)) xs" and "shadow_pages (te_txn entry) = [(p, q)]" and "q \<notin> set xs"
    and "freeable (bp_fm (en_pool e)) q" and "dict_get (bp_cache (en_pool e)) q = Some pg" and "p_dirty pg"
    and "parse_page_header (p_data pg) = Inr h" and "h_next_page_id h = r" and "r \<noteq> 0"
    and "pool_view (en_pool e) r = Some d" and "parses d"
  shows "\<exists>e' b1 b2 b3. txn_rollback txn e = (Inr (), e') \<and> flush (en_pool e') = (Inr (), b1) \<and>
    on_fm alloc_page b1 = (Inr q, b2) \<and> on_fm alloc_page b2 = (Inr r, b3)"
proof -
  let ?bp = "en_pool e" and ?t = "txn_id (te_txn entry)"
  obtain fm where f: "free_page q (bp_fm ?bp) = (Inr (), fm)" "pool_inv (?bp\<lparr>bp_fm := fm\<rparr>)" "fm_free_list_head fm = q"
    "\<forall>p. p \<noteq> 0 \<longrightarrow> p \<noteq> q \<longrightarrow> disk fm p = disk (bp_fm ?bp) p"
    using pool_inv_free_dirty [OF assms(2,3,6,5,7,8)] by blast
  let ?b = "?bp\<lparr>bp_fm := fm\<rparr>"
  define e1 where "e1 = drop_locks ?t (e\<lparr>en_pool := ?b\<rparr>)"
  define e' where "e' = e1\<lparr>en_active := dict_del ?t (en_active e1)\<rparr>"
  have run: "txn_rollback txn e = (Inr (), e')"
    using assms(1,4) f(1) by (simp add: txn_rollback_def Let_def sbind_def szoom_def e1_def e'_def)
  have pe: "en_pool e' = ?b" by (simp add: e'_def e1_def)
  obtain b1 where b1: "flush ?b = (Inr (), b1)" "same_pages {} ?b b1" "\<forall>k. disk (bp_fm b1) k = pool_view ?b k"
    using flush_facts [OF f(2)] by blast
  have q: "q \<noteq> 0" using assms(6) by (simp add: freeable_def)
  have dq: "disk (bp_fm b1) q = Some (p_data pg)" using b1(3) assms(7) by (simp add: pool_view_def)
  have hd: "fm_free_list_head (bp_fm b1) = q" using same_pagesD(8) [OF b1(2)] f(3) by simp
  obtain fm2 where a: "alloc_page (bp_fm b1) = (Inr q, fm2)" "fm_inv fm2" "fm_free_list_head fm2 = r"
    "\<forall>p. p \<noteq> 0 \<longrightarrow> disk fm2 p = disk (bp_fm b1) p"
    using alloc_page_pop [OF pool_invD(1) [OF same_pagesD(1) [OF b1(2)]] hd q dq assms(9)] assms(10) by blast
  have "disk fm2 r = pool_view ?b r" using a(4) assms(11) b1(3) by simp
  also have "\<dots> = (if r = q then Some (p_data pg) else Some d)"
    using f(4) assms(7,11,12) by (auto simp: pool_view_def split: option.splits)
  finally obtain d' h' where "disk fm2 r = Some d'" "parse_page_header d' = Inr h'"
    using assms(9,13) by (auto simp: parses_def split: if_splits)
  from alloc_page_pop [OF a(2,3) assms(11) this] obtain fm3 where "alloc_page fm2 = (Inr r, fm3)" by blast
  then show ?thesis using run pe b1(1) a(1)
    by (intro exI [of _ e'] exI [of _ b1] exI [of _ "b1\<lparr>bp_fm := fm2\<rparr>"] exI [of _ "b1\<lparr>bp_fm := fm3\<rparr>"])
      (simp add: szoom_def)
qed

text \<open>
  The state of that claim: pages 1 and 2 are a table's chain, the transaction has changed page 1
  through its shadow page 3.
\<close>

definition linked_data :: bytes where
  "linked_data = header_bytes \<lparr>h_page_id = 1, h_page_type = DATA, h_slot_count = 0, h_free_space = 4064,
     h_free_offset = 4096, h_next_page_id = 2, h_flags = 0\<rparr> @ replicate 4064 0"

lemma linked_data_parses: "parse_page_header linked_data = Inr \<lparr>h_page_id = 1, h_page_type = DATA,
    h_slot_count = 0, h_free_space = 4064, h_free_offset = 4096, h_next_page_id = 2, h_flags = 0\<rparr>"
  "length linked_data = 4096"
  unfolding linked_data_def by (rule parse_page_header_header_bytes) (simp_all add: header_fits_def)

definition shadowed_engine :: engine where
  "shadowed_engine = (demo_engine 3)
     \<lparr>en_pool := (new_pool (data_fm 3) 8)\<lparr>bp_cache :=
        [(3, \<lparr>p_page_id = 3, p_page_type = None, p_data = linked_data, p_dirty = True\<rparr>)]\<rparr>,
      en_active := [(1, demo_entry\<lparr>te_txn := (te_txn demo_entry)\<lparr>shadow_pages := [(1, 3)]\<rparr>\<rparr>)]\<rparr>"

theorem rollback_hands_out_live_page_witness:
  "\<exists>e' b1 b2 b3. txn_rollback None shadowed_engine = (Inr (), e') \<and> flush (en_pool e') = (Inr (), b1) \<and>
     on_fm alloc_page b1 = (Inr 3, b2) \<and> on_fm alloc_page b2 = (Inr 2, b3)"
proof -
  have n: "(3 :: nat) + 1 < 2 ^ 32" by simp
  note d = data_fm_facts [OF n]
  let ?entry = "demo_entry\<lparr>te_txn := (te_txn demo_entry)\<lparr>shadow_pages := [(1, 3)]\<rparr>\<rparr>"
  have pool: "en_pool shadowed_engine = (new_pool (data_fm 3) 8)\<lparr>bp_cache :=
        [(3, \<lparr>p_page_id = 3, p_page_type = None, p_data = linked_data, p_dirty = True\<rparr>)]\<rparr>"
    "bp_fm (en_pool shadowed_engine) = data_fm 3"
    by (simp_all add: shadowed_engine_def new_pool_def)
  have "resolve_txn None shadowed_engine = Inr ?entry" by (simp add: resolve_txn_def shadowed_engine_def)
  moreover have "pool_inv (en_pool shadowed_engine)"
    using d(1,4) linked_data_parses unfolding pool_inv_def pool(2) by (simp add: pool(1) page_ok_def parses_def)
  moreover have "free_list (bp_fm (en_pool shadowed_engine)) []" using d(2) pool(2) by simp
  moreover have "freeable (bp_fm (en_pool shadowed_engine)) 3"
    using d(3) [of 3] parse_empty_page [of 3 DATA] by (simp add: pool(2) freeable_def)
  moreover have "pool_view (en_pool shadowed_engine) 2 = Some (empty_page_data 2 DATA)"
    using d(3) [of 2] by (simp add: pool_view_def pool(1) new_pool_def)
  ultimately show ?thesis
    using rollback_hands_out_live_page [of None shadowed_engine ?entry "[]" 1 3
      "\<lparr>p_page_id = 3, p_page_type = None, p_data = linked_data, p_dirty = True\<rparr>" _ 2 "empty_page_data 2 DATA"]
      linked_data_parses(1) parses_empty [of 2 DATA] by (simp add: pool(1))
qed


text \<open>
  The table of transactions stays consistent in every state the manager can reach, also through
  operations that raise half way: ids are unique and never above the counter, every entry is filed
  under its own id, and the snapshot of a transaction holds its own id and otherwise only older ones.
\<close>

theorem txn_table_consistent:
  assumes "engine_reachable bp e"
  shows "distinct (dict_keys (en_active e)) \<and>
    (\<forall>t entry. dict_get (en_active e) t = Some entry \<longrightarrow> txn_id (te_txn entry) = t \<and> t \<le> en_counter e \<and>
       get_snapshot t e = Inr (te_snapshot entry) \<and> t \<in> active_txns (te_snapshot entry) \<and>
       (\<forall>u \<in> active_txns (te_snapshot entry). u \<le> t))"
  using engine_reachable_txns_ok [OF assms] by (simp add: txns_ok_def get_snapshot_def)

theorem txn_table_consistent_witness:
  "get_snapshot 1 (demo_engine 2) = Inr \<lparr>active_txns = {1}\<rparr>"
proof -
  have "engine_reachable (new_pool (data_fm 2) 8) (demo_engine 2)"
    unfolding demo_engine_def by (intro engine_reachable.intros)
  from txn_table_consistent [OF this] show ?thesis
    using demo_engine_facts(4) [of 2] by (auto simp: demo_entry_def)
qed

end
