(* ===== verification/Txn_Table.thy ===== *)
theory Txn_Table
  imports Table Txn_Manager
begin

text \<open>
  Tables under transactions: what an insertion through the shadow pool leaves behind once the
  transaction manager has committed. The keys of the transaction (its id and its root page) are
  shown to survive the table code, whatever it does with the pages.
\<close>

section \<open>What the table code keeps\<close>

lemma find_space_preserves:
  assumes "\<And>p sn. preserves I (po_get ops p sn)"
  shows "preserves I (find_space ops fuel needed p lp)"
  using assms
  by (induction ops fuel needed p lp rule: find_space.induct)
    (auto simp del: st_simps intro!: preserve)

lemma append_page_preserves:
  assumes "\<And>p sn. preserves I (po_get ops p sn)" and "\<And>p d. preserves I (po_set ops p d)"
    and "preserves I (po_alloc ops)" and "\<And>p d. preserves I (po_write ops p d)"
  shows "preserves I (append_page ops lp)"
  unfolding append_page_def link_page_def
  by (intro preserve assms) (auto intro!: preserve assms split: option.splits)

lemma table_insert_preserves:
  assumes "\<And>p sn. preserves I (po_get ops p sn)" and "\<And>p d. preserves I (po_set ops p d)"
    and "preserves I (po_alloc ops)" and "\<And>p d. preserves I (po_write ops p d)"
  shows "preserves I (table_insert ops tbl row None)"
proof -
  have "preserves I (\<lambda>s. find_space ops (f s) needed p lp s)" for f needed p lp
    using find_space_preserves [OF assms(1)] by (simp add: preserves_def)
  then show ?thesis
    unfolding table_insert_def insert_into_def acquire_lock_def
    by (auto simp del: st_simps intro!: preserve assms append_page_preserves split: option.splits prod.splits)
qed

lemma on_pool_preserves:
  "(\<And>s bp. I (s\<lparr>ss_pool := bp\<rparr>) = I s) \<Longrightarrow> preserves I (on_pool m)"
  by (simp add: preserves_def szoom_def split: prod.splits)

definition same_txn :: "Transaction \<Rightarrow> session \<Rightarrow> bool" where
  "same_txn txn s \<longleftrightarrow> txn_id (ss_txn s) = txn_id txn \<and> new_root (ss_txn s) = new_root txn"

lemma same_txn_add [simp]: "same_txn txn (add_shadow p q s) = same_txn txn s"
  by (simp add: same_txn_def add_shadow_def)

lemma on_pool_same_txn [preserve]: "preserves (same_txn txn) (on_pool m)"
  by (rule on_pool_preserves) (simp add: same_txn_def)

lemma ensure_shadow_same_txn [preserve]: "preserves (same_txn txn) (ensure_shadow p)"
proof (rule preservesI)
  fix s assume s: "same_txn txn s"
  have "preserves (same_txn txn)
       (sbind (on_pool (on_fm alloc_page)) (\<lambda>q.
       sbind (on_pool (get_page p None)) (\<lambda>orig_data.
       sbind (on_pool (on_fm (write_page q orig_data))) (\<lambda>_.
       sbind (on_pool (smod (cache_put q
          \<lparr>p_page_id = q, p_page_type = None, p_data = orig_data, p_dirty = False\<rparr>))) (\<lambda>_.
       sbind (smod (add_shadow p q)) (\<lambda>_. sret q))))))"
    by (intro preserve) simp
  with s show "same_txn txn (snd (ensure_shadow p s))"
    by (simp add: ensure_shadow_def preserves_def split: option.splits)
qed

lemma shadow_insert_same_txn: "preserves (same_txn txn) (table_insert shadow_ops tbl row None)"
proof (rule table_insert_preserves)
  fix p and sn :: "Snapshot option"
  have "preserves (same_txn txn) (on_pool (get_page q sn'))" for q sn' by (rule preserve)
  then show "preserves (same_txn txn) (po_get shadow_ops p sn)"
    by (simp add: shadow_ops_def shadow_get_def preserves_def split: option.splits)
qed (auto simp: shadow_ops_def shadow_set_def intro!: preserve)

lemma txns_ok_set:
  assumes "txns_ok e" and "dict_get (en_active e) (txn_id (te_txn entry)) = Some entry"
    and "txn_id txn = txn_id (te_txn entry)"
  shows "txns_ok (e\<lparr>en_pool := bp,
    en_active := dict_set (txn_id (te_txn entry)) (entry\<lparr>te_txn := txn\<rparr>) (en_active e)\<rparr>)"
proof -
  let ?t = "txn_id (te_txn entry)"
  have e: "txn_id (te_txn entry') = t \<and> t \<le> en_counter e \<and> t \<in> active_txns (te_snapshot entry') \<and>
      (\<forall>u \<in> active_txns (te_snapshot entry'). u \<le> t)" if "dict_get (en_active e) t = Some entry'" for t entry'
    using assms(1) that by (simp add: txns_ok_def)
  have "distinct (dict_keys (dict_set ?t (entry\<lparr>te_txn := txn\<rparr>) (en_active e)))"
    using assms(1) by (simp add: txns_ok_def)
  then show ?thesis using e e [OF assms(2)] assms(3) by (simp add: txns_ok_def)
qed

section \<open>Claims\<close>

text \<open>
  C10. A committed insertion is visible to everybody: a transaction inserts a row through its shadow
  pages, the manager commits it, and a scan over the plain pool then finds the old rows of the
  table with the new row among them.
\<close>

theorem committed_insert_visible:
  assumes "txns_ok e" and "dict_get (en_active e) (txn_id (te_txn entry)) = Some entry"
    and "shadow_ok (Suc (Suc (Suc 0))) (session_of e entry)" and "new_root (te_txn entry) < 2 ^ 32"
    and "table_ok (shadow_live (session_of e entry)) (shadow_view (session_of e entry)) tbl ps"
    and "convert_row row (tbl_columns tbl) = Inr vs" and "storable_row vs (tbl_columns tbl)"
    and "length (tbl_columns tbl) < 65536"
    and "\<forall>d. serialize_row vs (tbl_columns tbl) = Inr d \<longrightarrow> length d + 4 \<le> 4064"
    and "decode_rows (tbl_columns tbl) (contents (shadow_view (session_of e entry)) ps) = Inr old"
  shows "\<exists>rid s1 e2 xs ys.
    table_insert shadow_ops tbl row None (session_of e entry) = (Inr rid, s1) \<and>
    txn_commit (Some (txn_id (te_txn entry)))
      (e\<lparr>en_pool := ss_pool s1,
         en_active := dict_set (txn_id (te_txn entry)) (entry\<lparr>te_txn := ss_txn s1\<rparr>) (en_active e)\<rparr>)
      = (Inr (), e2) \<and>
    old = xs @ ys \<and> fst (scan_all main_ops tbl None (s1\<lparr>ss_pool := en_pool e2\<rparr>)) = Inr (xs @ (rid, vs) # ys)"
proof -
  let ?s = "session_of e entry" and ?t = "txn_id (te_txn entry)"
  obtain d where d: "serialize_row vs (tbl_columns tbl) = Inr d" "deserialize_row d (tbl_columns tbl) = Inr vs"
      "d \<noteq> []"
    using storable_row_serialized [OF assms(7,8)] by blast
  then have fit: "length d + 4 \<le> 4064" using assms(9) by simp
  obtain rid s1 ps' xs ys where i: "table_insert shadow_ops tbl row None ?s = (Inr rid, s1)"
    "shadow_inv (originals ?s) 0 s1" "table_ok (shadow_live s1) (shadow_view s1) tbl ps'" "old = xs @ ys"
    "decode_rows (tbl_columns tbl) (contents (shadow_view s1) ps') = Inr (xs @ (rid, vs) # ys)"
    using shadow.insert_scan [OF shadow_inv_originals [OF assms(3)] assms(5,6) d fit assms(10)] by blast
  have "same_txn (te_txn entry) ?s" by (simp add: same_txn_def session_of_def)
  then have keep: "txn_id (ss_txn s1) = ?t" "new_root (ss_txn s1) = new_root (te_txn entry)"
    using preservesD [OF shadow_insert_same_txn _ i(1)] by (auto simp: same_txn_def)
  let ?entry = "entry\<lparr>te_txn := ss_txn s1\<rparr>"
  let ?e = "e\<lparr>en_pool := ss_pool s1, en_active := dict_set ?t ?entry (en_active e)\<rparr>"
  have ok: "txns_ok ?e" using txns_ok_set [OF assms(1,2)] keep(1) by simp
  have res: "resolve_txn (Some ?t) ?e = Inr ?entry" by (simp add: resolve_txn_def)
  have "shadow_ok 0 s1" using i(2) by (simp add: shadow_inv_def)
  then have sh: "shadow_ok 0 (session_of ?e ?entry)"
    by (simp add: session_of_def shadow_ok_def shadow_of_def)
  obtain e2 where c: "txn_commit (Some ?t) ?e = (Inr (), e2)"
    "\<forall>p. 0 < p \<longrightarrow> pool_view (en_pool e2) p = shadow_view (session_of ?e ?entry) p"
    "store_ok 0 (en_pool e2)" "pool_live (en_pool e2) = pool_live (ss_pool s1)"
  proof -
    have "new_root (te_txn ?entry) < 2 ^ 32" "en_pool ?e = ss_pool s1"
      using keep assms(4) by simp_all
    from commit_ok [OF ok res sh this(1), unfolded this(2)] that show ?thesis by blast
  qed
  have v: "pool_view (en_pool e2) p = shadow_view s1 p" if "0 < p" for p
    using c(2) that by (simp add: session_of_def shadow_view_def resolve_def shadow_of_def)
  have ch: "chain (shadow_live s1) (shadow_view s1) (tbl_root tbl) ps' 0"
    using i(3) by (simp add: table_ok_def)
  have lv: "pool_live (en_pool e2) q \<and> pool_view (en_pool e2) q = shadow_view s1 q" if "q \<in> set ps'" for q
    using chain_pages [OF ch that] c(4) v [of q] by (auto simp: shadow_live_def pool_live_def)
  have "chain (pool_live (en_pool e2)) (pool_view (en_pool e2)) (tbl_root tbl) ps' 0"
    by (rule chain_mono [OF ch]) (use lv in auto)
  then have t: "table_ok (pool_live (en_pool e2)) (pool_view (en_pool e2)) tbl ps'"
    using i(3) by (simp add: table_ok_def)
  have "contents (pool_view (en_pool e2)) ps' = contents (shadow_view s1) ps'"
    using lv by (intro contents_cong rows_at_cong) simp
  with i(5) have "decode_rows (tbl_columns tbl) (contents (pool_view (en_pool e2)) ps') = Inr (xs @ (rid, vs) # ys)"
    by simp
  then have "fst (scan_all main_ops tbl None (s1\<lparr>ss_pool := en_pool e2\<rparr>)) = Inr (xs @ (rid, vs) # ys)"
    using main.scan_all_ok [of 0 "s1\<lparr>ss_pool := en_pool e2\<rparr>" tbl ps' "xs @ (rid, vs) # ys"] c(3) t by auto
  with i(1,4) c(1) show ?thesis by blast
qed

theorem committed_insert_visible_witness:
  "\<exists>rid s1 e2. table_insert shadow_ops demo_table [PInt 7] None (new_session 2) = (Inr rid, s1) \<and>
    txn_commit (Some 1) ((demo_engine 2)\<lparr>en_pool := ss_pool s1,
      en_active := [(1, demo_entry\<lparr>te_txn := ss_txn s1\<rparr>)]\<rparr>) = (Inr (), e2) \<and>
    fst (scan_all main_ops demo_table None (s1\<lparr>ss_pool := en_pool e2\<rparr>)) = Inr [(rid, [PInt 7])]"
proof -
  have n: "(2 :: nat) + 1 + 3 < 2 ^ 32" "0 < (2 :: nat)" by simp_all
  note t = demo_table_ok [OF n] and s = new_session_facts [OF n(1)] and e = demo_engine_facts [of 2]
  have i: "in_i64 7" by (simp add: in_i64_def)
  have id: "txn_id (te_txn demo_entry) = 1" "new_root (te_txn demo_entry) = 0" by (simp_all add: demo_entry_def)
  have "shadow_ok (Suc (Suc (Suc 0))) (session_of (demo_engine 2) demo_entry)"
    using s(1) e(5) by (simp add: numeral_3_eq_3)
  moreover have "decode_rows (tbl_columns demo_table)
      (contents (shadow_view (session_of (demo_engine 2) demo_entry)) [1]) = Inr []"
    using t(4) e(5) by (simp add: decode_rows_def)
  moreover have "dict_get (en_active (demo_engine 2)) (txn_id (te_txn demo_entry)) = Some demo_entry"
    using e(4) id by simp
  moreover have "table_ok (shadow_live (session_of (demo_engine 2) demo_entry))
      (shadow_view (session_of (demo_engine 2) demo_entry)) demo_table [1]" using t(2) e(5) by simp
  moreover have "length (tbl_columns demo_table) < 65536" "new_root (te_txn demo_entry) < 2 ^ 32"
    by (simp_all add: demo_table_def id)
  ultimately obtain rid s1 e2 xs ys where
    "table_insert shadow_ops demo_table [PInt 7] None (new_session 2) = (Inr rid, s1)"
    "txn_commit (Some 1) ((demo_engine 2)\<lparr>en_pool := ss_pool s1,
       en_active := dict_set 1 (demo_entry\<lparr>te_txn := ss_txn s1\<rparr>) (en_active (demo_engine 2))\<rparr>) = (Inr (), e2)"
    "[] = xs @ ys"
    "fst (scan_all main_ops demo_table None (s1\<lparr>ss_pool := en_pool e2\<rparr>)) = Inr (xs @ (rid, [PInt 7]) # ys)"
    using committed_insert_visible [OF e(1), of demo_entry demo_table "[1]" "[PInt 7]" "[PInt 7]" "[]"]
      demo_row [OF i] id e(5) by auto
  then show ?thesis using e(4) by (intro exI [of _ rid] exI [of _ s1] exI [of _ e2]) auto
qed

end
