(* ===== verification/Txn_Life.thy ===== *)
theory Txn_Life
  imports Txn_Manager
begin

text \<open>
  The life of transactions: any sequence of calls of the transaction manager against a specification that knows only the
  ids, isolation levels and snapshots of the active transactions.
\<close>

section \<open>Calls\<close>

text \<open>\<open>Other_Pool\<close> is whatever statements do to the pool between two calls.\<close>

datatype txn_call = Begin "IsolationLevel option" | Commit "nat option" | Rollback "nat option" | Shadow nat
  | Read_Locks nat | Other_Pool buffer_pool

text \<open>The answer of a call: the id that \<open>begin\<close> returns, \<open>None\<close> for a call that returns nothing, or the exception.\<close>

type_synonym txn_answer = "err + nat option"

fun call :: "txn_call \<Rightarrow> engine \<Rightarrow> txn_answer \<times> engine" where
  "call (Begin lvl) e = (case txn_begin lvl e of (t, e') \<Rightarrow> (Inr (Some t), e'))"
| "call (Commit txn) e = sbind (txn_commit txn) (\<lambda>_. sret None) e"
| "call (Rollback txn) e = sbind (txn_rollback txn) (\<lambda>_. sret None) e"
| "call (Shadow p) e = sbind (txn_ensure_shadow p) (\<lambda>_. sret None) e"
| "call (Read_Locks t) e = (Inr None, release_read_locks t e)"
| "call (Other_Pool bp) e = (Inr None, e\<lparr>en_pool := bp\<rparr>)"

fun calls :: "txn_call list \<Rightarrow> engine \<Rightarrow> txn_answer list \<times> engine" where
  "calls [] e = ([], e)"
| "calls (c # cs) e = (case call c e of (r, e1) \<Rightarrow> case calls cs e1 of (rs, e2) \<Rightarrow> (r # rs, e2))"

section \<open>The specification\<close>

text \<open>How many transactions have begun, and the active ones in the order in which they did.\<close>

type_synonym life = "nat \<times> (nat \<times> IsolationLevel \<times> nat set) list"

definition target :: "nat option \<Rightarrow> life \<Rightarrow> nat option" where
  "target txn l = (case txn of
     Some t \<Rightarrow> if t \<in> fst ` set (snd l) then Some t else None
   | None \<Rightarrow> if length (snd l) = 1 then Some (fst (hd (snd l))) else None)"

text \<open>
  A call that ends a transaction: refused with \<open>TransactionError\<close> without a target, and only then; another failure, half
  way, leaves the transaction active.
\<close>

definition life_end :: "nat option \<Rightarrow> txn_answer \<Rightarrow> life \<Rightarrow> life option" where
  "life_end txn r l = (case target txn l of
     None \<Rightarrow> if r = Inl TransactionError then Some l else None
   | Some t \<Rightarrow> (case r of Inl e \<Rightarrow> if e = TransactionError then None else Some l | Inr _ \<Rightarrow> Some (fst l, filter (\<lambda>x. fst x \<noteq> t) (snd l))))"

text \<open>What is left after a call and its answer; \<open>None\<close> for an answer that is not allowed.\<close>

fun life_step :: "txn_call \<Rightarrow> txn_answer \<Rightarrow> life \<Rightarrow> life option" where
  "life_step (Begin lvl) r l =
     (if r = Inr (Some (fst l + 1))
      then Some (fst l + 1, snd l @ [(fst l + 1, case lvl of None \<Rightarrow> REPEATABLE_READ | Some i \<Rightarrow> i,
                                        insert (fst l + 1) (fst ` set (snd l)))])
      else None)"
| "life_step (Commit txn) r l = life_end txn r l"
| "life_step (Rollback txn) r l = life_end txn r l"
| "life_step _ r l = Some l"

fun life_run :: "txn_call list \<Rightarrow> txn_answer list \<Rightarrow> life \<Rightarrow> life option" where
  "life_run (c # cs) (r # rs) l = Option.bind (life_step c r l) (life_run cs rs)"
| "life_run [] [] l = Some l"
| "life_run _ _ l = None"

definition life_of :: "engine \<Rightarrow> life" where
  "life_of e = (en_counter e, map (\<lambda>(t, en). (t, te_isolation en, active_txns (te_snapshot en))) (en_active e))"

section \<open>Simulation\<close>

definition lives :: "life \<Rightarrow> engine \<Rightarrow> bool" where
  "lives l e \<longleftrightarrow> life_of e = l \<and> txns_ok e"

lemma lives_fields:
  "en_active e' = en_active e \<Longrightarrow> en_counter e' = en_counter e \<Longrightarrow> lives l e' = lives l e"
  by (simp add: lives_def life_of_def txns_ok_def)

lemma lives_preserved [preserve]:
  "preserves (lives l) (on_engine_pool m)" "preserves (lives l) (smod (drop_locks t))"
  "preserves (lives l) (smod (\<lambda>e. e\<lparr>en_mvcc := f e\<rparr>))"
proof -
  show "preserves (lives l) (on_engine_pool m)"
    by (rule preservesI) (simp add: szoom_def lives_def life_of_def txns_ok_def split: prod.split)
  show "preserves (lives l) (smod (drop_locks t))" "preserves (lives l) (smod (\<lambda>e. e\<lparr>en_mvcc := f e\<rparr>))"
    by (rule preserves_smod, simp add: lives_def life_of_def txns_ok_def)+
qed

section \<open>The storage does not raise \<open>TransactionError\<close>\<close>

definition storage :: "('s, 'a) st \<Rightarrow> bool" where
  "storage m \<longleftrightarrow> (\<forall>s. fst (m s) \<noteq> Inl TransactionError)"

lemma storageD: "storage m \<Longrightarrow> m s = (Inl e, s') \<Longrightarrow> e \<noteq> TransactionError"
  unfolding storage_def by (metis fst_conv)

lemma storage_basic [intro, simp]: "storage (sret x)" "storage (smod f)"
  by (simp_all add: storage_def)

lemma storage_sbind [intro]: "storage m \<Longrightarrow> (\<And>x. storage (f x)) \<Longrightarrow> storage (sbind m f)"
  unfolding storage_def sbind_def by (auto split: prod.splits sum.splits) (metis fst_conv)+

lemma storage_szoom [intro]: "storage m \<Longrightarrow> storage (szoom g p m)"
  unfolding storage_def szoom_def by (simp add: split_beta)

lemma storage_smap [intro]: "(\<And>x. storage (f x)) \<Longrightarrow> storage (smap f xs)"
  by (induction xs) auto

lemma storage_write_header: "storage write_header"
  by (auto simp: storage_def write_header_def Let_def rbind_Inl_iff pack_u_def pack_into_def split: sum.splits if_splits)

lemma storage_write_page: "storage (write_page p data)"
  using storage_write_header
  by (auto simp: storage_def write_page_def grow_to_def sbind_def Let_def split: prod.splits sum.splits) (metis fst_conv)+

lemma storage_read_page: "storage (read_page p)"
  by (simp add: storage_def read_page_def)

lemma storage_free_page: "storage (free_page p)"
proof -
  have parse: "parse_page_header raw \<noteq> Inl TransactionError" for raw
    by (simp add: parse_page_header_def page_type_of_def)
  have pack: "pack_page_header h \<noteq> Inl TransactionError" for h
    by (auto simp: pack_page_header_def rbind_Inl_iff pack_u_def split: if_splits)
  have "storage (if raw ! 4 = 0 then sret DATA else slift (rbind (parse_page_header raw) (\<lambda>h. Inr (h_page_type h))))" for raw
    using parse by (simp add: storage_def slift_def rbind_Inl_iff split: sum.split)
  moreover have "storage (slift (pack_page_header h))" for h
    using pack by (simp add: storage_def slift_def)
  ultimately have "storage (sbind (read_page p) (\<lambda>raw.
      sbind (if raw ! 4 = 0 then sret DATA else slift (rbind (parse_page_header raw) (\<lambda>h. Inr (h_page_type h)))) (\<lambda>t.
      sbind (slift (pack_page_header (h t raw))) (\<lambda>new. sbind (write_page p (w raw new)) (\<lambda>_. sbind (smod f) (\<lambda>_. write_header))))))" for h w f
    by (intro storage_sbind storage_read_page storage_write_page storage_write_header storage_basic)
  then show ?thesis unfolding storage_def free_page_def
    by simp
qed

lemma storage_flush: "storage flush"
proof -
  have "storage (sbind (smap (\<lambda>(p, d). on_fm (write_page p d)) xs) (\<lambda>_. smod f))" for xs f
    by (intro storage_sbind storage_smap) (auto intro: storage_write_page)
  then show ?thesis by (simp add: storage_def flush_def Let_def)
qed

section \<open>Calls that end a transaction\<close>

text \<open>A method whose exceptions are those of the storage and keep \<open>I\<close>, and whose results come with \<open>J\<close>.\<close>

definition ends_in :: "('s \<Rightarrow> bool) \<Rightarrow> ('s \<Rightarrow> bool) \<Rightarrow> (err + 'a) \<times> 's \<Rightarrow> bool" where
  "ends_in I J x \<longleftrightarrow> (case fst x of Inl e \<Rightarrow> e \<noteq> TransactionError \<and> I (snd x) | Inr _ \<Rightarrow> J (snd x))"

lemma ends_in_bind:
  assumes "preserves I m" and "storage m" and "I s" and "\<And>x s. I s \<Longrightarrow> ends_in I J (f x s)"
  shows "ends_in I J (sbind m f s)"
proof -
  obtain r s' where m: "m s = (r, s')" by (cases "m s")
  then have "I s'" using assms(1,3) by (rule preservesD [rotated 2])
  then show ?thesis using assms(4) m storageD [OF assms(2)] by (cases r) (simp_all add: sbind_def, simp add: ends_in_def)
qed

lemma lives_del:
  "lives l e \<Longrightarrow> lives (fst l, filter (\<lambda>x. fst x \<noteq> t) (snd l)) (e\<lparr>en_active := dict_del t (en_active e)\<rparr>)"
proof -
  assume l: "lives l e"
  then have "txns_ok (e\<lparr>en_active := dict_del t (en_active e)\<rparr>)" by (auto simp: lives_def intro: txns_ok_del)
  with l show ?thesis
    by (auto simp: lives_def life_of_def AList.delete_eq filter_map comp_def case_prod_unfold eq_commute [of t])
qed

lemma resolve_target:
  assumes "lives l e"
  shows "case target txn l of None \<Rightarrow> resolve_txn txn e = Inl TransactionError
    | Some t \<Rightarrow> \<exists>entry. resolve_txn txn e = Inr entry \<and> txn_id (te_txn entry) = t"
proof -
  have l: "snd l = map (\<lambda>(t, en). (t, te_isolation en, active_txns (te_snapshot en))) (en_active e)"
    using assms by (auto simp: lives_def life_of_def)
  then have keys: "fst ` set (snd l) = set (dict_keys (en_active e))" by (force simp: image_image)
  have id: "txn_id (te_txn en) = t" if "dict_get (en_active e) t = Some en" for t en
    using assms that by (simp add: lives_def txns_ok_def)
  show ?thesis
  proof (cases txn)
    case None
    show ?thesis
    proof (cases "en_active e")
      case (Cons x xs)
      obtain t en where "x = (t, en)" by (cases x)
      then show ?thesis using None l Cons id [of t en] by (cases xs) (auto simp: target_def resolve_txn_def)
    qed (use None l in \<open>simp add: target_def resolve_txn_def\<close>)
  next
    case (Some t)
    then show ?thesis using keys id [of t] dict_get_None_iff [of "en_active e" t]
      by (cases "dict_get (en_active e) t") (auto simp: target_def resolve_txn_def)
  qed
qed

lemma ended:
  assumes "lives l e" and "\<And>en. resolve_txn txn e = Inr en \<Longrightarrow>
      ends_in (lives l) (lives (fst l, filter (\<lambda>x. fst x \<noteq> txn_id (te_txn en)) (snd l))) (m e)"
    and "\<And>x. resolve_txn txn e = Inl x \<Longrightarrow> m e = (Inl x, e)"
  shows "case sbind m (\<lambda>_. sret None) e of (r, e') \<Rightarrow> \<exists>l'. life_end txn r l = Some l' \<and> lives l' e'"
proof (cases "target txn l")
  case None
  then have "resolve_txn txn e = Inl TransactionError" using resolve_target [OF assms(1), of txn] by simp
  with assms(1,3) None show ?thesis by (cases l) (simp add: sbind_def life_end_def)
next
  case (Some t)
  then obtain en where en: "resolve_txn txn e = Inr en" "txn_id (te_txn en) = t"
    using resolve_target [OF assms(1), of txn] by auto
  obtain r e' where m: "m e = (r, e')" by (cases "m e")
  from assms(2) [OF en(1)] en(2) Some show ?thesis
    by (cases r; cases l) (simp_all add: m sbind_def life_end_def ends_in_def)
qed

lemma slift_Inr: "sbind (slift (Inr x)) f s = f x s"
  by (simp add: sbind_def)

lemma storage_copy: "storage (copy_back x)" "storage ((\<lambda>(orig, shadow). free_page shadow) x)"
  using storage_read_page storage_write_page storage_free_page by (auto simp: copy_back_def split: prod.split)

lemma commit_ends:
  assumes "lives l e" and "resolve_txn txn e = Inr en"
  shows "ends_in (lives l) (lives (fst l, filter (\<lambda>x. fst x \<noteq> txn_id (te_txn en)) (snd l))) (txn_commit txn e)"
  unfolding txn_commit_def Let_def assms(2) slift_Inr
  by (intro ends_in_bind [where I = "lives l"] preserve assms(1) storage_szoom storage_smap storage_flush storage_write_header
      storage_basic storage_copy; simp add: ends_in_def lives_del)

lemma rollback_ends:
  assumes "lives l e" and "resolve_txn txn e = Inr en"
  shows "ends_in (lives l) (lives (fst l, filter (\<lambda>x. fst x \<noteq> txn_id (te_txn en)) (snd l))) (txn_rollback txn e)"
  unfolding txn_rollback_def Let_def assms(2) slift_Inr
  by (intro ends_in_bind [where I = "lives l"] preserve assms(1) storage_szoom storage_smap storage_flush storage_write_header
      storage_basic storage_copy; simp add: ends_in_def lives_del)

lemma map_dict_set_same:
  "dict_get d k = Some v \<Longrightarrow> g k v' = g k v \<Longrightarrow> map (\<lambda>(k, v). g k v) (dict_set k v' d) = map (\<lambda>(k, v). g k v) d"
  by (induction d) auto

lemma shadow_lives:
  assumes "lives l e"
  shows "lives l (snd (txn_ensure_shadow p e))"
proof (cases "en_active e")
  case (Cons x rest)
  obtain t entry where x: "x = (t, entry)" by (cases x)
  show ?thesis
  proof (cases "dict_get (shadow_pages (te_txn entry)) p")
    case None
    define I where "I e' \<longleftrightarrow> en_active e' = en_active e \<and> en_counter e' = en_counter e" for e' :: engine
    have keep: "preserves I (on_engine_pool m)" "preserves I (smod (\<lambda>e. e\<lparr>en_mvcc := f e\<rparr>))"
      for m :: "(buffer_pool, 'b) st" and f
      by (rule preservesI, simp add: szoom_def I_def split: prod.split) (rule preserves_smod, simp add: I_def)
    define J where "J e' \<longleftrightarrow> life_of e' = life_of e" for e' :: engine
    have up: "J e'" if "I e'" for e' using that by (simp add: I_def J_def life_of_def)
    have get: "dict_get (en_active e) t = Some entry" using Cons x by simp
    have "J (e'\<lparr>en_active := dict_set t (entry\<lparr>te_txn := txn'\<rparr>) (en_active e')\<rparr>)" if "I e'" for e' txn'
      using that map_dict_set_same [OF get, where g = "\<lambda>t en. (t, te_isolation en, active_txns (te_snapshot en))" and
          v' = "entry\<lparr>te_txn := txn'\<rparr>"]
      by (simp add: I_def J_def life_of_def)
    note upd = this
    have "I e" by (simp add: I_def)
    then have "J (snd (txn_ensure_shadow p e))"
      unfolding txn_ensure_shadow_def Cons x list.case prod.case None option.case
      by (intro bind_leads [where J = J and I = I, OF keep(1)] bind_leads [where J = J and I = I, OF keep(2)]; simp add: upd up)
    then show ?thesis using assms txn_ensure_shadow_txns_ok by (simp add: lives_def J_def)
  qed (use assms Cons x in \<open>simp add: txn_ensure_shadow_def\<close>)
qed (use assms in \<open>simp add: txn_ensure_shadow_def\<close>)

lemma begin_lives:
  assumes "lives l e"
  shows "case call (Begin lvl) e of (r, e') \<Rightarrow> \<exists>l'. life_step (Begin lvl) r l = Some l' \<and> lives l' e'"
proof -
  have ok: "txns_ok e" and l: "l = life_of e" using assms by (simp_all add: lives_def)
  have "Suc (en_counter e) \<notin> set (dict_keys (en_active e))"
  proof
    assume "Suc (en_counter e) \<in> set (dict_keys (en_active e))"
    then obtain en where "dict_get (en_active e) (Suc (en_counter e)) = Some en"
      using dict_get_None_iff [of "en_active e" "Suc (en_counter e)"] by auto
    with ok have "Suc (en_counter e) \<le> en_counter e" unfolding txns_ok_def by blast
    then show False by simp
  qed
  then have "life_of (snd (txn_begin lvl e)) =
      (fst l + 1, snd l @ [(fst l + 1, case lvl of None \<Rightarrow> REPEATABLE_READ | Some i \<Rightarrow> i, insert (fst l + 1) (fst ` set (snd l)))])"
    by (simp add: l txn_begin_def life_of_def Let_def dict_set_new default_isolation_def image_image case_prod_unfold
        split: option.split)
  moreover have "fst (txn_begin lvl e) = fst l + 1" by (simp add: l txn_begin_def life_of_def Let_def)
  ultimately show ?thesis using txns_ok_begin [OF ok, of lvl]
    by (cases "txn_begin lvl e") (simp add: lives_def)
qed

lemma call_lives:
  assumes "lives l e"
  shows "case call c e of (r, e') \<Rightarrow> \<exists>l'. life_step c r l = Some l' \<and> lives l' e'"
proof (cases c)
  case (Commit txn)
  show ?thesis unfolding Commit call.simps life_step.simps
    by (rule ended [where m = "txn_commit txn", OF assms], erule commit_ends [OF assms]) (simp add: txn_commit_def sbind_def)
next
  case (Rollback txn)
  show ?thesis unfolding Rollback call.simps life_step.simps
    by (rule ended [where m = "txn_rollback txn", OF assms], erule rollback_ends [OF assms]) (simp add: txn_rollback_def sbind_def)
next
  case (Shadow p)
  obtain r e' where "txn_ensure_shadow p e = (r, e')" by (cases "txn_ensure_shadow p e")
  with Shadow shadow_lives [OF assms, of p] show ?thesis by (cases r; cases l) (simp_all add: sbind_def)
next
  case (Begin lvl)
  then show ?thesis using begin_lives [OF assms, of lvl] by simp
next
  case (Read_Locks t)
  then show ?thesis using assms by (cases l) (simp add: lives_fields [of "e\<lparr>en_locks := release_all t (en_locks e)\<rparr>" e] release_read_locks_def)
next
  case (Other_Pool bp)
  then show ?thesis using assms by (cases l) (simp add: lives_fields [of "e\<lparr>en_pool := bp\<rparr>" e])
qed

lemma calls_live:
  "lives l e \<Longrightarrow> case calls cs e of (rs, e') \<Rightarrow> \<exists>l'. life_run cs rs l = Some l' \<and> lives l' e'"
proof (induction cs arbitrary: l e)
  case Nil
  then show ?case by (cases l) simp
next
  case (Cons c cs)
  obtain r e1 where c: "call c e = (r, e1)" by (cases "call c e")
  with call_lives [OF Cons.prems, of c] obtain l1 where l1: "life_step c r l = Some l1" "lives l1 e1" by auto
  from Cons.IH [OF l1(2)] show ?case using c l1(1) by (auto split: prod.splits)
qed

section \<open>Properties\<close>

text \<open>
  C20. Transactions are numbered 1, 2, 3, \<dots> for as long as the database is open, and the table of the manager holds
  exactly those that have begun and not ended: after any sequence of calls, also of calls that raise half way, it lists
  them in the order in which they began, each with the isolation level it asked for and a snapshot of the ids that were
  active then, its own among them. COMMIT and ROLLBACK are refused with \<open>TransactionError\<close> exactly when they name no
  active transaction (without an id, when there is not exactly one), and if they raise later the transaction stays active.
\<close>

theorem transactions_are_accounted_for:
  "case calls cs (new_engine bp) of (rs, e) \<Rightarrow> life_run cs rs (0, []) = Some (life_of e)"
proof -
  have "lives (0, []) (new_engine bp)" by (simp add: lives_def life_of_def new_engine_def txns_ok_def)
  from calls_live [OF this, of cs] show ?thesis by (auto simp: lives_def)
qed

end
