(* ===== verification/Mvcc_Heap.thy ===== *)
theory Mvcc_Heap
  imports Mvcc
begin

text \<open>
  \<open>tinydb/concurrency/mvcc_manager.py\<close> with its objects: the versions live on a heap and are linked by their field
  \<open>next\<close>, and the manager keeps the address of the newest version of each page. The loops follow the links and \<open>gc\<close>
  changes them in place; \<open>None\<close> as the result of a loop is a walk that does not end. The theory shows that the links
  never form a cycle and never meet, so that the manager behaves as the lists of versions of the theory \<open>Mvcc\<close>, which
  the transaction manager is modelled with.
\<close>

section \<open>Objects\<close>

record version_object =
  vo_version :: PageVersion
  vo_next :: "nat option"

text \<open>The objects in the order of their creation; an address is a position.\<close>

record version_store =
  vs_versions :: "(nat, nat) dict"
  vs_objects :: "version_object list"

definition new_version_store :: version_store where
  "new_version_store = \<lparr>vs_versions = [], vs_objects = []\<rparr>"

abbreviation version_at :: "version_store \<Rightarrow> nat \<Rightarrow> PageVersion" where
  "version_at h a \<equiv> vo_version (vs_objects h ! a)"

abbreviation next_of :: "version_store \<Rightarrow> nat \<Rightarrow> nat option" where
  "next_of h a \<equiv> vo_next (vs_objects h ! a)"

definition set_next :: "nat \<Rightarrow> nat option \<Rightarrow> version_store \<Rightarrow> version_store" where
  "set_next a b h = h\<lparr>vs_objects := (vs_objects h)[a := (vs_objects h ! a)\<lparr>vo_next := b\<rparr>]\<rparr>"

definition set_deleted :: "nat \<Rightarrow> nat \<Rightarrow> version_store \<Rightarrow> version_store" where
  "set_deleted a t h = h\<lparr>vs_objects := (vs_objects h)[a := (vs_objects h ! a)\<lparr>vo_version :=
     (version_at h a)\<lparr>pv_deleted_txn := Some t\<rparr>\<rparr>]\<rparr>"

section \<open>Operations\<close>

definition store_create :: "nat \<Rightarrow> bytes \<Rightarrow> nat \<Rightarrow> version_store \<Rightarrow> version_store" where
  "store_create page data txn h =
     h\<lparr>vs_objects := vs_objects h @ [\<lparr>vo_version = \<lparr>pv_data = data, pv_created_txn = txn, pv_deleted_txn = None\<rparr>,
          vo_next = dict_get (vs_versions h) page\<rparr>],
       vs_versions := dict_set page (length (vs_objects h)) (vs_versions h)\<rparr>"

partial_function (option) visible_loop :: "version_store \<Rightarrow> Snapshot \<Rightarrow> nat option \<Rightarrow> bytes option option" where
  "visible_loop h s current =
     (if current = None then Some None
      else let a = the current in
        if is_visible (version_at h a) s then Some (Some (pv_data (version_at h a)))
        else visible_loop h s (next_of h a))"

definition store_visible :: "nat \<Rightarrow> Snapshot \<Rightarrow> version_store \<Rightarrow> bytes option option" where
  "store_visible page s h = visible_loop h s (dict_get (vs_versions h) page)"

partial_function (option) mark_loop :: "nat \<Rightarrow> nat \<Rightarrow> version_store \<Rightarrow> nat option \<Rightarrow> (bool \<times> version_store) option" where
  "mark_loop version_txn txn h current =
     (if current = None then Some (False, h)
      else let a = the current in
        if pv_created_txn (version_at h a) = version_txn then Some (True, set_deleted a txn h)
        else mark_loop version_txn txn h (next_of h a))"

definition store_mark_deleted :: "nat \<Rightarrow> nat \<Rightarrow> nat \<Rightarrow> version_store \<Rightarrow> (bool \<times> version_store) option" where
  "store_mark_deleted page version_txn txn h = mark_loop version_txn txn h (dict_get (vs_versions h) page)"

text \<open>Unlinking the object at \<open>a\<close>: from the dict if it is the first of its page, else from \<open>prev\<close>.\<close>

definition unlink_version :: "nat \<Rightarrow> nat option \<Rightarrow> nat \<Rightarrow> version_store \<Rightarrow> version_store" where
  "unlink_version page prev a h = (case prev of
     None \<Rightarrow> h\<lparr>vs_versions := (case next_of h a of
         None \<Rightarrow> dict_del page (vs_versions h) | Some b \<Rightarrow> dict_set page b (vs_versions h))\<rparr>
   | Some p \<Rightarrow> set_next p (next_of h a) h)"

partial_function (option) gc_loop ::
  "nat set \<Rightarrow> nat \<Rightarrow> nat option \<Rightarrow> nat option \<Rightarrow> version_store \<Rightarrow> nat \<Rightarrow> (version_store \<times> nat) option" where
  "gc_loop active page prev current h freed =
     (if current = None then Some (h, freed)
      else let a = the current in
        if can_gc active (version_at h a)
        then let h' = unlink_version page prev a h in
          gc_loop active page prev (if prev = None then next_of h' a else next_of h' (the prev)) h' (freed + 1)
        else gc_loop active page (Some a) (next_of h a) h freed)"

fun gc_pages :: "nat set \<Rightarrow> nat list \<Rightarrow> version_store \<Rightarrow> nat \<Rightarrow> (version_store \<times> nat) option" where
  "gc_pages active [] h freed = Some (h, freed)"
| "gc_pages active (page # pages) h freed =
     (case gc_loop active page None (dict_get (vs_versions h) page) h freed of
        None \<Rightarrow> None
      | Some (h', freed') \<Rightarrow> gc_pages active pages h' freed')"

definition store_gc :: "nat set \<Rightarrow> version_store \<Rightarrow> (version_store \<times> nat) option" where
  "store_gc active h = gc_pages active (dict_keys (vs_versions h)) h 0"

section \<open>Chains\<close>

text \<open>\<open>links nxt x as y\<close>: the pointers from \<open>x\<close> visit the addresses \<open>as\<close> and arrive at \<open>y\<close>.\<close>

fun links :: "(nat \<Rightarrow> nat option) \<Rightarrow> nat option \<Rightarrow> nat list \<Rightarrow> nat option \<Rightarrow> bool" where
  "links nxt x [] y \<longleftrightarrow> x = y"
| "links nxt x (a # as) y \<longleftrightarrow> x = Some a \<and> links nxt (nxt a) as y"

lemma links_append: "links nxt x (as @ bs) z \<longleftrightarrow> (\<exists>y. links nxt x as y \<and> links nxt y bs z)"
  by (induction as arbitrary: x) auto

lemma links_cong: "(\<And>a. a \<in> set as \<Longrightarrow> nxt' a = nxt a) \<Longrightarrow> links nxt' x as y = links nxt x as y"
  by (induction as arbitrary: x) auto

text \<open>Every page has a chain of its own, \<open>A page\<close>, which ends.\<close>

definition chains_ok :: "version_store \<Rightarrow> (nat \<Rightarrow> nat list) \<Rightarrow> bool" where
  "chains_ok h A \<longleftrightarrow> distinct (dict_keys (vs_versions h)) \<and>
     (\<forall>p. links (next_of h) (dict_get (vs_versions h) p) (A p) None \<and> distinct (A p) \<and>
       (\<forall>a \<in> set (A p). a < length (vs_objects h))) \<and>
     (\<forall>p q. p \<noteq> q \<longrightarrow> set (A p) \<inter> set (A q) = {})"

definition stands_for_chains :: "version_store \<Rightarrow> (nat \<Rightarrow> PageVersion list) \<Rightarrow> bool" where
  "stands_for_chains h m \<longleftrightarrow> (\<exists>A. chains_ok h A \<and> (\<forall>p. m p = map (version_at h) (A p)))"

lemma chains_okD:
  assumes "chains_ok h A"
  shows "links (next_of h) (dict_get (vs_versions h) p) (A p) None" and "distinct (A p)"
    and "a \<in> set (A p) \<Longrightarrow> a < length (vs_objects h)" and "distinct (dict_keys (vs_versions h))"
    and "p \<noteq> q \<Longrightarrow> a \<in> set (A p) \<Longrightarrow> a \<notin> set (A q)"
  using assms unfolding chains_ok_def by blast+

lemma next_of_set_next:
  "b < length (vs_objects h) \<Longrightarrow> next_of (set_next b x h) a = (if a = b then x else next_of h a)"
  by (simp add: set_next_def nth_list_update)

lemma version_at_set_next [simp]: "version_at (set_next b x h) a = version_at h a"
  by (cases "b < length (vs_objects h)") (auto simp: set_next_def nth_list_update list_update_beyond)

lemma set_next_fields [simp]:
  "vs_versions (set_next b x h) = vs_versions h" "length (vs_objects (set_next b x h)) = length (vs_objects h)"
  by (simp_all add: set_next_def)

lemma version_at_unlink [simp]: "version_at (unlink_version page prev a h) b = version_at h b"
  by (simp add: unlink_version_def split: option.split)

text \<open>
  The loop of \<open>gc\<close> on one page: the chain is the kept addresses \<open>ks\<close> behind the loop, the last of which is \<open>prev\<close>, and
  the addresses \<open>rs\<close> before it.
\<close>

lemma gc_loop_ok:
  assumes "links (next_of h) (dict_get (vs_versions h) page) (ks @ rs) None" and "distinct (ks @ rs)"
    and "\<forall>a \<in> set (ks @ rs). a < length (vs_objects h)" and "distinct (dict_keys (vs_versions h))"
    and "prev = (if ks = [] then None else Some (last ks))" and "links (next_of h) current rs None"
  shows "\<exists>h'. gc_loop active page prev current h n =
       Some (h', n + length (filter (\<lambda>a. can_gc active (version_at h a)) rs)) \<and>
     links (next_of h') (dict_get (vs_versions h') page) (ks @ filter (\<lambda>a. \<not> can_gc active (version_at h a)) rs) None \<and>
     version_at h' = version_at h \<and> length (vs_objects h') = length (vs_objects h) \<and>
     (\<forall>a. a \<notin> set (ks @ rs) \<longrightarrow> next_of h' a = next_of h a) \<and>
     (\<forall>q. q \<noteq> page \<longrightarrow> dict_get (vs_versions h') q = dict_get (vs_versions h) q) \<and> distinct (dict_keys (vs_versions h'))"
  using assms
proof (induction rs arbitrary: ks prev current h n)
  case Nil
  then show ?case by (subst gc_loop.simps) simp
next
  case (Cons r rs)
  have cur: "current = Some r" "links (next_of h) (next_of h r) rs None" using Cons.prems(6) by simp_all
  show ?case
  proof (cases "can_gc active (version_at h r)")
    case False
    have "\<exists>h'. gc_loop active page (Some r) (next_of h r) h n =
        Some (h', n + length (filter (\<lambda>a. can_gc active (version_at h a)) rs)) \<and>
      links (next_of h') (dict_get (vs_versions h') page) ((ks @ [r]) @ filter (\<lambda>a. \<not> can_gc active (version_at h a)) rs) None \<and>
      version_at h' = version_at h \<and> length (vs_objects h') = length (vs_objects h) \<and>
      (\<forall>a. a \<notin> set ((ks @ [r]) @ rs) \<longrightarrow> next_of h' a = next_of h a) \<and>
      (\<forall>q. q \<noteq> page \<longrightarrow> dict_get (vs_versions h') q = dict_get (vs_versions h) q) \<and> distinct (dict_keys (vs_versions h'))"
      by (rule Cons.IH) (use Cons.prems cur in simp_all)
    moreover have "gc_loop active page prev current h n = gc_loop active page (Some r) (next_of h r) h n"
      using False cur(1) by (subst gc_loop.simps) simp
    ultimately show ?thesis using False by simp
  next
    case True
    let ?h = "unlink_version page prev r h"
    have keys: "dict_get (vs_versions ?h) q = dict_get (vs_versions h) q" if "q \<noteq> page" for q
      using that by (simp add: unlink_version_def split: option.split)
    have dist: "distinct (dict_keys (vs_versions ?h))" "length (vs_objects ?h) = length (vs_objects h)"
      using Cons.prems(4) by (simp_all add: unlink_version_def split: option.split)
    have nxt: "next_of ?h a = next_of h a" if "a \<notin> set ks" for a
    proof (cases "ks = []")
      case False
      then have "last ks < length (vs_objects h)" "a \<noteq> last ks" using Cons.prems(3) that by auto
      with False Cons.prems(5) show ?thesis by (simp add: unlink_version_def next_of_set_next)
    qed (use Cons.prems(5) in \<open>simp add: unlink_version_def\<close>)
    have rest: "links (next_of ?h) (next_of h r) rs None"
    proof -
      have "links (next_of ?h) (next_of h r) rs None = links (next_of h) (next_of h r) rs None"
        by (rule links_cong) (use Cons.prems(2) nxt in auto)
      then show ?thesis using cur(2) by simp
    qed
    have step: "(if prev = None then next_of ?h r else next_of ?h (the prev)) = next_of h r"
    proof (cases "ks = []")
      case False
      then have "last ks < length (vs_objects h)" using Cons.prems(3) by simp
      with False Cons.prems(5) show ?thesis by (simp add: unlink_version_def next_of_set_next)
    qed (use Cons.prems(5) in \<open>simp add: unlink_version_def\<close>)
    have whole: "links (next_of ?h) (dict_get (vs_versions ?h) page) (ks @ rs) None"
    proof (cases ks rule: rev_cases)
      case Nil
      then show ?thesis using rest Cons.prems(5) by (cases "next_of h r") (simp_all add: unlink_version_def)
    next
      case (snoc ks' b)
      then have b: "prev = Some b" "b < length (vs_objects h)" "b \<notin> set ks'"
        using Cons.prems(2,3,5) by auto
      have "links (next_of h) (dict_get (vs_versions h) page) ks' (Some b)"
        using Cons.prems(1) snoc by (auto simp: links_append)
      moreover have "links (next_of ?h) x ks' y = links (next_of h) x ks' y" for x y
        by (rule links_cong) (use b in \<open>auto simp: unlink_version_def next_of_set_next\<close>)
      ultimately show ?thesis using rest b snoc
        by (simp add: links_append) (simp add: unlink_version_def next_of_set_next)
    qed
    have "\<exists>h'. gc_loop active page prev (next_of h r) ?h (n + 1) =
        Some (h', (n + 1) + length (filter (\<lambda>a. can_gc active (version_at ?h a)) rs)) \<and>
      links (next_of h') (dict_get (vs_versions h') page) (ks @ filter (\<lambda>a. \<not> can_gc active (version_at ?h a)) rs) None \<and>
      version_at h' = version_at ?h \<and> length (vs_objects h') = length (vs_objects ?h) \<and>
      (\<forall>a. a \<notin> set (ks @ rs) \<longrightarrow> next_of h' a = next_of ?h a) \<and>
      (\<forall>q. q \<noteq> page \<longrightarrow> dict_get (vs_versions h') q = dict_get (vs_versions ?h) q) \<and> distinct (dict_keys (vs_versions h'))"
      by (rule Cons.IH) (use Cons.prems rest whole dist in simp_all)
    then obtain h' where h': "gc_loop active page prev (next_of h r) ?h (n + 1) =
        Some (h', (n + 1) + length (filter (\<lambda>a. can_gc active (version_at h a)) rs))"
      "links (next_of h') (dict_get (vs_versions h') page) (ks @ filter (\<lambda>a. \<not> can_gc active (version_at h a)) rs) None"
      "version_at h' = version_at h" "length (vs_objects h') = length (vs_objects h)"
      "\<forall>a. a \<notin> set (ks @ rs) \<longrightarrow> next_of h' a = next_of ?h a"
      "\<forall>q. q \<noteq> page \<longrightarrow> dict_get (vs_versions h') q = dict_get (vs_versions h) q" "distinct (dict_keys (vs_versions h'))"
      using keys dist(2) by (auto simp: fun_eq_iff)
    moreover have "gc_loop active page prev current h n = gc_loop active page prev (next_of h r) ?h (n + 1)"
      using True cur(1) step by (subst gc_loop.simps) simp
    ultimately show ?thesis using True nxt by (intro exI [of _ h']) simp
  qed
qed

lemma gc_loop_chains:
  assumes "chains_ok h A"
  shows "\<exists>h'. gc_loop active page None (dict_get (vs_versions h) page) h n =
      Some (h', n + length (filter (\<lambda>a. can_gc active (version_at h a)) (A page))) \<and>
    chains_ok h' (A(page := filter (\<lambda>a. \<not> can_gc active (version_at h a)) (A page))) \<and> version_at h' = version_at h"
proof -
  note c = chains_okD [OF assms]
  have "\<exists>h'. gc_loop active page None (dict_get (vs_versions h) page) h n =
      Some (h', n + length (filter (\<lambda>a. can_gc active (version_at h a)) (A page))) \<and>
    links (next_of h') (dict_get (vs_versions h') page) ([] @ filter (\<lambda>a. \<not> can_gc active (version_at h a)) (A page)) None \<and>
    version_at h' = version_at h \<and> length (vs_objects h') = length (vs_objects h) \<and>
    (\<forall>a. a \<notin> set ([] @ A page) \<longrightarrow> next_of h' a = next_of h a) \<and>
    (\<forall>q. q \<noteq> page \<longrightarrow> dict_get (vs_versions h') q = dict_get (vs_versions h) q) \<and> distinct (dict_keys (vs_versions h'))"
    by (rule gc_loop_ok) (use c in auto)
  then obtain h' where h': "gc_loop active page None (dict_get (vs_versions h) page) h n =
      Some (h', n + length (filter (\<lambda>a. can_gc active (version_at h a)) (A page)))"
    "links (next_of h') (dict_get (vs_versions h') page) (filter (\<lambda>a. \<not> can_gc active (version_at h a)) (A page)) None"
    "version_at h' = version_at h" "length (vs_objects h') = length (vs_objects h)"
    "\<forall>a. a \<notin> set (A page) \<longrightarrow> next_of h' a = next_of h a"
    "\<forall>q. q \<noteq> page \<longrightarrow> dict_get (vs_versions h') q = dict_get (vs_versions h) q" "distinct (dict_keys (vs_versions h'))"
    by auto
  have "links (next_of h') (dict_get (vs_versions h') q) (A q) None" if "q \<noteq> page" for q
  proof -
    have "links (next_of h') x (A q) None = links (next_of h) x (A q) None" for x
      by (rule links_cong) (use h'(5) c(5) [OF that] in auto)
    then show ?thesis using c(1) h'(6) that by simp
  qed
  then have "chains_ok h' (A(page := filter (\<lambda>a. \<not> can_gc active (version_at h a)) (A page)))"
    using h'(2,4,7) c(2,3,5) unfolding chains_ok_def by auto
  with h'(1,3) show ?thesis by blast
qed

lemma gc_pages_chains:
  assumes "chains_ok h A" and "distinct ps"
  shows "\<exists>h'. gc_pages active ps h n =
      Some (h', n + (\<Sum>p\<leftarrow>ps. length (filter (\<lambda>a. can_gc active (version_at h a)) (A p)))) \<and>
    chains_ok h' (\<lambda>p. if p \<in> set ps then filter (\<lambda>a. \<not> can_gc active (version_at h a)) (A p) else A p) \<and>
    version_at h' = version_at h"
  using assms
proof (induction ps arbitrary: h A n)
  case (Cons p ps)
  let ?keep = "filter (\<lambda>a. \<not> can_gc active (version_at h a))" and ?drop = "filter (\<lambda>a. can_gc active (version_at h a))"
  from gc_loop_chains [OF Cons.prems(1), of active p n] obtain h1 where
    h1: "gc_loop active p None (dict_get (vs_versions h) p) h n = Some (h1, n + length (?drop (A p)))"
      "chains_ok h1 (A(p := ?keep (A p)))" "version_at h1 = version_at h" by blast
  have d: "distinct ps" "p \<notin> set ps" using Cons.prems(2) by auto
  have e: "(\<Sum>q\<leftarrow>ps. length (?drop ((A(p := ?keep (A p))) q))) = (\<Sum>q\<leftarrow>ps. length (?drop (A q)))"
    using d(2) by (intro arg_cong [where f = sum_list] map_cong) auto
  have f: "(\<lambda>q. if q \<in> set ps then ?keep ((A(p := ?keep (A p))) q) else (A(p := ?keep (A p))) q) =
      (\<lambda>q. if q \<in> set (p # ps) then ?keep (A q) else A q)"
    using d(2) by auto
  have v: "version_at h1 a = version_at h a" for a by (rule fun_cong [OF h1(3)])
  from Cons.IH [OF h1(2) d(1), of "n + length (?drop (A p))", unfolded v e f] obtain h' where
    "gc_pages active ps h1 (n + length (?drop (A p))) = Some (h', n + length (?drop (A p)) + (\<Sum>q\<leftarrow>ps. length (?drop (A q))))"
    "chains_ok h' (\<lambda>q. if q \<in> set (p # ps) then ?keep (A q) else A q)" "version_at h' = version_at h" by blast
  then show ?case using h1(1) by (intro exI [of _ h']) simp
qed simp

lemma chains_ok_keys: "chains_ok h A \<Longrightarrow> p \<in> set (dict_keys (vs_versions h)) \<longleftrightarrow> A p \<noteq> []"
  using chains_okD(1) [of h A p] dict_get_None_iff [of "vs_versions h" p] by (cases "A p") auto

section \<open>What the manager promises\<close>

text \<open>
  The manager as a function from pages to lists of versions, newest first. A collection keeps the versions that were
  created by a transaction as old as some active one, or younger.
\<close>

type_synonym chains = "nat \<Rightarrow> PageVersion list"

datatype version_op = Create nat bytes nat | Read nat Snapshot | MarkDeleted nat nat nat | Collect "nat list"

datatype version_answer = Done | Found "bytes option" | Marked bool | Freed nat

definition needed :: "nat list \<Rightarrow> PageVersion \<Rightarrow> bool" where
  "needed active v \<longleftrightarrow> (\<exists>t \<in> set active. t \<le> pv_created_txn v)"

definition in_snapshot :: "Snapshot \<Rightarrow> PageVersion \<Rightarrow> bool" where
  "in_snapshot s v \<longleftrightarrow> pv_created_txn v \<in> active_txns s \<and> (\<forall>d. pv_deleted_txn v = Some d \<longrightarrow> d \<notin> active_txns s)"

fun chain_step :: "version_op \<Rightarrow> chains \<Rightarrow> version_answer \<times> chains" where
  "chain_step (Create page data t) m =
     (Done, m(page := \<lparr>pv_data = data, pv_created_txn = t, pv_deleted_txn = None\<rparr> # m page))"
| "chain_step (Read page s) m = (Found (map_option pv_data (find (in_snapshot s) (m page))), m)"
| "chain_step (MarkDeleted page vt t) m =
     (case dropWhile (\<lambda>v. pv_created_txn v \<noteq> vt) (m page) of
        [] \<Rightarrow> (Marked False, m)
      | v # vs \<Rightarrow> (Marked True,
          m(page := takeWhile (\<lambda>v. pv_created_txn v \<noteq> vt) (m page) @ v\<lparr>pv_deleted_txn := Some t\<rparr> # vs)))"
| "chain_step (Collect active) m =
     (Freed (\<Sum>page | m page \<noteq> []. length (filter (\<lambda>v. \<not> needed active v) (m page))),
      \<lambda>page. filter (needed active) (m page))"

fun chain_run :: "version_op list \<Rightarrow> chains \<Rightarrow> version_answer list \<times> chains" where
  "chain_run [] m = ([], m)"
| "chain_run (x # xs) m =
     (case chain_step x m of (a, m1) \<Rightarrow> (case chain_run xs m1 of (as, m2) \<Rightarrow> (a # as, m2)))"

fun store_step :: "version_op \<Rightarrow> version_store \<Rightarrow> (version_answer \<times> version_store) option" where
  "store_step (Create page data t) h = Some (Done, store_create page data t h)"
| "store_step (Read page s) h = map_option (\<lambda>r. (Found r, h)) (store_visible page s h)"
| "store_step (MarkDeleted page vt t) h = map_option (\<lambda>(b, h'). (Marked b, h')) (store_mark_deleted page vt t h)"
| "store_step (Collect active) h = map_option (\<lambda>(h', n). (Freed n, h')) (store_gc (set active) h)"

fun store_run :: "version_op list \<Rightarrow> version_store \<Rightarrow> (version_answer list \<times> version_store) option" where
  "store_run [] h = Some ([], h)"
| "store_run (x # xs) h = (case store_step x h of
     None \<Rightarrow> None
   | Some (a, h1) \<Rightarrow> map_option (\<lambda>(as, h2). (a # as, h2)) (store_run xs h1))"

lemma can_gc_needed: "can_gc (set active) v \<longleftrightarrow> \<not> needed active v"
  by (cases "set active = {}") (auto simp: can_gc_def no_active_txn_can_see_def needed_def not_le)

lemma is_visible_in_snapshot: "is_visible v s \<longleftrightarrow> in_snapshot s v"
  by (auto simp: is_visible_def in_snapshot_def split: option.split)

text \<open>The lists of the transaction manager do the same steps, so they stand for its linked versions.\<close>

lemma first_visible_find: "first_visible c s = map_option pv_data (find (in_snapshot s) c)"
  by (induction c) (simp_all add: is_visible_in_snapshot)

lemma mark_first_split:
  "mark_first vt t c = (case dropWhile (\<lambda>v. pv_created_txn v \<noteq> vt) c of
     [] \<Rightarrow> None
   | v # vs \<Rightarrow> Some (takeWhile (\<lambda>v. pv_created_txn v \<noteq> vt) c @ v\<lparr>pv_deleted_txn := Some t\<rparr> # vs))"
  by (induction c) (auto simp del: dropWhile_eq_Nil_conv split: list.split)

lemma manager_steps:
  assumes "mvcc_inv m"
  shows "chain_step (Create page data t) (chain_of m) = (Done, chain_of (create_version page data t m))"
    and "chain_step (Read page s) (chain_of m) = (Found (get_visible_version page s m), chain_of m)"
    and "chain_step (MarkDeleted page vt t) (chain_of m) =
      (Marked (fst (mark_deleted page vt t m)), chain_of (snd (mark_deleted page vt t m)))"
    and "chain_step (Collect active) (chain_of m) =
      (Freed (snd (gc (set active) m)), chain_of (fst (gc (set active) m)))"
proof -
  show "chain_step (Create page data t) (chain_of m) = (Done, chain_of (create_version page data t m))"
    by (auto simp: create_version_def chain_of_def split: option.split)
  show "chain_step (Read page s) (chain_of m) = (Found (get_visible_version page s m), chain_of m)"
    by (simp add: get_visible_chain first_visible_find)
  show "chain_step (MarkDeleted page vt t) (chain_of m) =
      (Marked (fst (mark_deleted page vt t m)), chain_of (snd (mark_deleted page vt t m)))"
    by (auto simp: mark_deleted_def mark_first_split chain_of_def fun_eq_iff simp del: dropWhile_eq_Nil_conv
        split: option.split list.split)
  have keys: "{page. chain_of m page \<noteq> []} = set (dict_keys m)"
    using assms chain_not_key [of _ m] dict_get_None_iff [of m]
    by (fastforce simp: mvcc_inv_def chain_of_def split: option.splits)
  have "distinct (dict_keys m)" using assms by (simp add: mvcc_inv_def)
  note sum = sum_list_distinct_conv_sum_set [OF this, symmetric]
  have c: "can_gc (set active) = (\<lambda>v. \<not> needed active v)" by (simp add: can_gc_needed fun_eq_iff)
  show "chain_step (Collect active) (chain_of m) =
      (Freed (snd (gc (set active) m)), chain_of (fst (gc (set active) m)))"
    unfolding gc_spec(2) [OF assms] chain_step.simps keys sum by (simp add: gc_spec(1) [OF assms] c fun_eq_iff)
qed

lemma visible_loop_ok:
  "links (next_of h) current as None \<Longrightarrow>
   visible_loop h s current = Some (map_option pv_data (find (in_snapshot s) (map (version_at h) as)))"
proof (induction as arbitrary: current)
  case (Cons a as)
  then show ?case by (subst visible_loop.simps) (auto simp: is_visible_in_snapshot)
qed (simp add: visible_loop.simps)

lemma mark_loop_ok:
  "links (next_of h) current as None \<Longrightarrow>
   mark_loop vt t h current = Some (case dropWhile (\<lambda>a. pv_created_txn (version_at h a) \<noteq> vt) as of
      [] \<Rightarrow> (False, h) | a # _ \<Rightarrow> (True, set_deleted a t h))"
proof (induction as arbitrary: current)
  case (Cons a as)
  then show ?case by (subst mark_loop.simps) auto
qed (simp add: mark_loop.simps)

lemma set_deleted_fields:
  "vs_versions (set_deleted a t h) = vs_versions h" "length (vs_objects (set_deleted a t h)) = length (vs_objects h)"
  "a < length (vs_objects h) \<Longrightarrow> next_of (set_deleted a t h) b = next_of h b"
  "a < length (vs_objects h) \<Longrightarrow>
     version_at (set_deleted a t h) b = (if b = a then (version_at h a)\<lparr>pv_deleted_txn := Some t\<rparr> else version_at h b)"
  by (simp_all add: set_deleted_def nth_list_update)

lemma chains_ok_frame:
  "chains_ok h A \<Longrightarrow> vs_versions h' = vs_versions h \<Longrightarrow> length (vs_objects h') = length (vs_objects h) \<Longrightarrow>
   next_of h' = next_of h \<Longrightarrow> chains_ok h' A"
  by (simp add: chains_ok_def)

lemma store_step_create:
  assumes "stands_for_chains h m"
  shows "stands_for_chains (store_create page data t h) (snd (chain_step (Create page data t) m))"
proof -
  obtain A where A: "chains_ok h A" "\<forall>p. m p = map (version_at h) (A p)" using assms by (auto simp: stands_for_chains_def)
  note c = chains_okD [OF A(1)]
  let ?h = "store_create page data t h" and ?n = "length (vs_objects h)"
  have old: "version_at ?h a = version_at h a" "next_of ?h a = next_of h a" if "a < ?n" for a
    using that by (simp_all add: store_create_def nth_append)
  have new: "version_at ?h ?n = \<lparr>pv_data = data, pv_created_txn = t, pv_deleted_txn = None\<rparr>"
    "next_of ?h ?n = dict_get (vs_versions h) page" by (simp_all add: store_create_def)
  have l: "links (next_of ?h) x (A p) None = links (next_of h) x (A p) None" for x p
    by (rule links_cong) (use old c(3) in auto)
  have fresh: "?n \<notin> set (A p)" for p using c(3) [of ?n p] by auto
  have less: "a \<in> set (A p) \<Longrightarrow> a < Suc ?n" for a p using c(3) [of a p] by simp
  have "chains_ok ?h (A(page := ?n # A page))"
    unfolding chains_ok_def
  proof (intro conjI allI impI)
    show "distinct (dict_keys (vs_versions ?h))" using c(4) by (simp add: store_create_def)
  next
    fix p
    show "links (next_of ?h) (dict_get (vs_versions ?h) p) ((A(page := ?n # A page)) p) None"
      using c(1) l new(2) by (cases "p = page") (simp_all, simp_all add: store_create_def)
    show "distinct ((A(page := ?n # A page)) p)" using c(2) fresh by simp
    show "\<forall>a \<in> set ((A(page := ?n # A page)) p). a < length (vs_objects ?h)" using less by (auto simp: store_create_def)
  next
    fix p q :: nat
    assume "p \<noteq> q"
    then show "set ((A(page := ?n # A page)) p) \<inter> set ((A(page := ?n # A page)) q) = {}" using c(5) fresh by auto
  qed
  moreover have "(m(page := \<lparr>pv_data = data, pv_created_txn = t, pv_deleted_txn = None\<rparr> # m page)) p =
      map (version_at ?h) ((A(page := ?n # A page)) p)" for p
    using A(2) old(1) c(3) new(1) by auto
  ultimately show ?thesis by (auto simp: stands_for_chains_def)
qed

lemma store_step_mark:
  assumes "stands_for_chains h m"
  shows "\<exists>h'. store_step (MarkDeleted page vt t) h = Some (fst (chain_step (MarkDeleted page vt t) m), h') \<and>
    stands_for_chains h' (snd (chain_step (MarkDeleted page vt t) m))"
proof -
  obtain A where A: "chains_ok h A" "\<forall>p. m p = map (version_at h) (A p)" using assms by (auto simp: stands_for_chains_def)
  note c = chains_okD [OF A(1)]
  let ?P = "\<lambda>a. pv_created_txn (version_at h a) \<noteq> vt"
  have dw: "dropWhile (\<lambda>v. pv_created_txn v \<noteq> vt) (m page) = map (version_at h) (dropWhile ?P (A page))"
    and tw: "takeWhile (\<lambda>v. pv_created_txn v \<noteq> vt) (m page) = map (version_at h) (takeWhile ?P (A page))"
    using A(2) by (simp_all add: dropWhile_map takeWhile_map comp_def)
  have run: "store_step (MarkDeleted page vt t) h = Some (case dropWhile ?P (A page) of
      [] \<Rightarrow> (Marked False, h) | a # _ \<Rightarrow> (Marked True, set_deleted a t h))"
    using mark_loop_ok [where vt = vt and t = t, OF c(1) [of page]] by (cases "dropWhile ?P (A page)") (simp_all add: store_mark_deleted_def del: dropWhile_eq_Nil_conv)
  show ?thesis
  proof (cases "dropWhile ?P (A page)")
    case Nil
    have "chain_step (MarkDeleted page vt t) m = (Marked False, m)" unfolding chain_step.simps dw Nil by simp
    with run [unfolded Nil] assms show ?thesis by (simp del: store_step.simps chain_step.simps)
  next
    case (Cons a as)
    have split: "A page = takeWhile ?P (A page) @ a # as" using takeWhile_dropWhile_id [of ?P "A page"] Cons by simp
    then have a: "a \<in> set (A page)" "a \<notin> set (takeWhile ?P (A page))" "a \<notin> set as"
      using c(2) [of page] by (metis in_set_conv_decomp, metis disjoint_iff distinct_append list.set_intros(1),
        metis distinct.simps(2) distinct_append)
    note f = set_deleted_fields(3,4) [OF c(3) [OF a(1)], of t]
    let ?h = "set_deleted a t h"
    have "chains_ok ?h A" by (rule chains_ok_frame [OF A(1)]) (simp_all add: set_deleted_fields(1,2) f fun_eq_iff)
    moreover have "(m(page := map (version_at h) (takeWhile ?P (A page)) @ (version_at h a)\<lparr>pv_deleted_txn := Some t\<rparr> #
        map (version_at h) as)) p = map (version_at ?h) (A p)" for p
    proof (cases "p = page")
      case True
      have "map (version_at ?h) (A page) = map (version_at ?h) (takeWhile ?P (A page) @ a # as)"
        by (rule arg_cong [OF split])
      with True a(2,3) f(2) show ?thesis by simp
    qed (use A(2) c(5) [of page p a] a(1) f(2) in auto)
    ultimately have "stands_for_chains ?h (m(page := map (version_at h) (takeWhile ?P (A page)) @
        (version_at h a)\<lparr>pv_deleted_txn := Some t\<rparr> # map (version_at h) as))"
      unfolding stands_for_chains_def by blast
    moreover have "chain_step (MarkDeleted page vt t) m = (Marked True, m(page := map (version_at h) (takeWhile ?P (A page)) @
        (version_at h a)\<lparr>pv_deleted_txn := Some t\<rparr> # map (version_at h) as))"
      unfolding chain_step.simps dw tw Cons by simp
    ultimately show ?thesis using run [unfolded Cons] by (simp del: store_step.simps chain_step.simps)
  qed
qed

lemma store_step_collect:
  assumes "stands_for_chains h m"
  shows "\<exists>h'. store_step (Collect active) h = Some (fst (chain_step (Collect active) m), h') \<and>
    stands_for_chains h' (snd (chain_step (Collect active) m))"
proof -
  obtain A where A: "chains_ok h A" "\<forall>p. m p = map (version_at h) (A p)" using assms by (auto simp: stands_for_chains_def)
  let ?ks = "dict_keys (vs_versions h)" and ?keep = "filter (\<lambda>a. needed active (version_at h a))"
  have d: "distinct ?ks" using chains_okD(4) [OF A(1)] .
  have keys: "set ?ks = {p. m p \<noteq> []}" using chains_ok_keys [OF A(1)] A(2) by auto
  from gc_pages_chains [OF A(1) d, of "set active" 0] obtain h' where
    h': "store_gc (set active) h = Some (h', \<Sum>p\<leftarrow>?ks. length (filter (\<lambda>a. \<not> needed active (version_at h a)) (A p)))"
      "chains_ok h' (\<lambda>p. if p \<in> set ?ks then ?keep (A p) else A p)" "version_at h' = version_at h"
    unfolding store_gc_def can_gc_needed not_not add_0 by blast
  have "(\<Sum>p\<leftarrow>?ks. length (filter (\<lambda>a. \<not> needed active (version_at h a)) (A p))) =
      (\<Sum>p | m p \<noteq> []. length (filter (\<lambda>v. \<not> needed active v) (m p)))"
    unfolding sum_list_distinct_conv_sum_set [OF d] keys A(2) [rule_format] by (simp add: filter_map comp_def)
  moreover have "filter (needed active) (m p) = map (version_at h') (if p \<in> set ?ks then ?keep (A p) else A p)" for p
    using A(2) keys h'(3) by (auto simp: filter_map comp_def)
  ultimately have "stands_for_chains h' (snd (chain_step (Collect active) m))"
    "store_step (Collect active) h = Some (fst (chain_step (Collect active) m), h')"
    using h'(1,2) unfolding stands_for_chains_def chain_step.simps snd_conv by (blast, simp)
  then show ?thesis by blast
qed

lemma store_step_ok:
  assumes "stands_for_chains h m"
  shows "\<exists>h'. store_step x h = Some (fst (chain_step x m), h') \<and> stands_for_chains h' (snd (chain_step x m))"
proof (cases x)
  case (Read page s)
  obtain A where A: "chains_ok h A" "\<forall>p. m p = map (version_at h) (A p)" using assms by (auto simp: stands_for_chains_def)
  with Read assms show ?thesis using visible_loop_ok [where s = s, OF chains_okD(1) [OF A(1), of page]]
    by (simp add: store_visible_def)
qed (use assms store_step_create store_step_mark store_step_collect in simp_all)

lemma store_run_ok:
  "stands_for_chains h m \<Longrightarrow>
   \<exists>h'. store_run xs h = Some (fst (chain_run xs m), h') \<and> stands_for_chains h' (snd (chain_run xs m))"
proof (induction xs arbitrary: h m)
  case (Cons x xs)
  from store_step_ok [OF Cons.prems, of x] obtain h1 where
    h1: "store_step x h = Some (fst (chain_step x m), h1)" "stands_for_chains h1 (snd (chain_step x m))" by blast
  from Cons.IH [OF h1(2)] show ?case using h1(1) by (auto split: prod.split)
qed simp

section \<open>Properties\<close>

text \<open>
  C24. The version store refines lists of versions: every sequence of creations, snapshot reads, deletion marks and
  collections on a new manager runs to its end, with the answers of a function from pages to lists. A read finds the
  newest version whose creator is in the snapshot and whose deleter is not. A collection removes, and counts, exactly the
  versions that are older than every active transaction; it does not ask whether a snapshot still sees them, which the
  docstring promises.
\<close>

theorem version_store_refines_lists:
  "\<exists>h. store_run xs new_version_store = Some (fst (chain_run xs (\<lambda>_. [])), h) \<and>
     stands_for_chains h (snd (chain_run xs (\<lambda>_. [])))"
proof -
  have "stands_for_chains new_version_store (\<lambda>_. [])"
    by (auto simp: stands_for_chains_def chains_ok_def new_version_store_def intro!: exI [of _ "\<lambda>_. []"])
  then show ?thesis by (rule store_run_ok)
qed

end
