(* ===== verification/Expressions.thy ===== *)
theory Expressions
  imports Py_Types
begin

text \<open>
  \<open>tinydb/sql/expressions.py\<close> and the nodes of \<open>tinydb/sql/ast.py\<close>: expressions and their
  evaluation on a row, which is a dict from column names to values. The Python operators come first:
  a bool counts as an integer in arithmetic, an integer that meets a float becomes a float (or
  raises when it is too large), and \<open>str\<close> supports \<open>+\<close> and repetition.
\<close>

section \<open>Python operators\<close>

type_synonym row = "(string, pval) dict"

fun py_int :: "pval \<Rightarrow> int option" where
  "py_int (PBool b) = Some (if b then 1 else 0)"
| "py_int (PInt i) = Some i"
| "py_int _ = None"

definition py_arith :: "(int \<Rightarrow> int \<Rightarrow> pval res) \<Rightarrow> (double \<Rightarrow> double \<Rightarrow> pval res) \<Rightarrow> pval \<Rightarrow> pval \<Rightarrow> pval res" where
  "py_arith fi ff a b =
     (case (py_int a, py_int b) of
        (Some i, Some j) \<Rightarrow> fi i j
      | _ \<Rightarrow> if py_num a = None \<or> py_num b = None then Inl TypeError
             else rbind (py_float a) (\<lambda>x. rbind (py_float b) (\<lambda>y. ff x y)))"

fun py_add :: "pval \<Rightarrow> pval \<Rightarrow> pval res" where
  "py_add (PStr s) (PStr t) = Inr (PStr (s @ t))"
| "py_add a b = py_arith (\<lambda>i j. Inr (PInt (i + j))) (\<lambda>x y. Inr (PFloat (f_add x y))) a b"

definition py_sub :: "pval \<Rightarrow> pval \<Rightarrow> pval res" where
  "py_sub a b = py_arith (\<lambda>i j. Inr (PInt (i - j))) (\<lambda>x y. Inr (PFloat (f_sub x y))) a b"

definition py_repeat :: "string \<Rightarrow> int \<Rightarrow> pval res" where
  "py_repeat s i = Inr (PStr (concat (replicate (nat i) s)))"

definition py_mul :: "pval \<Rightarrow> pval \<Rightarrow> pval res" where
  "py_mul a b =
     (case (a, b) of
        (PStr s, _) \<Rightarrow> (case py_int b of Some i \<Rightarrow> py_repeat s i | None \<Rightarrow> Inl TypeError)
      | (_, PStr s) \<Rightarrow> (case py_int a of Some i \<Rightarrow> py_repeat s i | None \<Rightarrow> Inl TypeError)
      | _ \<Rightarrow> py_arith (\<lambda>i j. Inr (PInt (i * j))) (\<lambda>x y. Inr (PFloat (f_mul x y))) a b)"

definition py_truediv :: "pval \<Rightarrow> pval \<Rightarrow> pval res" where
  "py_truediv a b =
     py_arith (\<lambda>i j. rbind (int_true_div i j) (\<lambda>w. Inr (PFloat w)))
              (\<lambda>x y. rbind (f_div x y) (\<lambda>w. Inr (PFloat w))) a b"

fun py_neg :: "pval \<Rightarrow> pval res" where
  "py_neg (PBool b) = Inr (PInt (if b then -1 else 0))"
| "py_neg (PInt i) = Inr (PInt (- i))"
| "py_neg (PFloat w) = Inr (PFloat (f_minus w))"
| "py_neg _ = Inl TypeError"

text \<open>Order of strings, by code point.\<close>

fun str_lt :: "string \<Rightarrow> string \<Rightarrow> bool" where
  "str_lt [] t = (t \<noteq> [])"
| "str_lt (x # xs) [] = False"
| "str_lt (x # xs) (y # ys) = ((of_char x :: nat) < of_char y \<or> x = y \<and> str_lt xs ys)"

definition str_le :: "string \<Rightarrow> string \<Rightarrow> bool" where
  "str_le s t \<longleftrightarrow> str_lt s t \<or> s = t"

lemma str_lt_irrefl [simp]: "\<not> str_lt s s"
  by (induction s) auto

lemma str_lt_trans: "str_lt s t \<Longrightarrow> str_lt t u \<Longrightarrow> str_lt s u"
proof (induction s t arbitrary: u rule: str_lt.induct)
  case (1 t)
  then show ?case by (cases t; cases u) auto
next
  case (3 x xs y ys)
  then show ?case by (cases u) auto
qed simp

lemma str_lt_total: "str_lt s t \<or> s = t \<or> str_lt t s"
proof (induction s t rule: str_lt.induct)
  case (1 t)
  then show ?case by (cases t) auto
next
  case (3 x xs y ys)
  then show ?case
    by (metis linorder_neqE_nat of_char_eq_iff str_lt.simps(3))
qed simp

section \<open>Comparison\<close>

definition to_bool :: "pval \<Rightarrow> bool" where
  "to_bool v = (if v = PNone then False else py_truth v)"

definition compare_eq :: "pval \<Rightarrow> pval \<Rightarrow> bool" where
  "compare_eq l r = (if l = PNone \<or> r = PNone then False else py_eq l r)"

text \<open>The four order comparisons share their tests: numbers with numbers, strings with strings.\<close>

definition compare_ord :: "(xnum \<Rightarrow> xnum \<Rightarrow> bool) \<Rightarrow> (string \<Rightarrow> string \<Rightarrow> bool) \<Rightarrow> pval \<Rightarrow> pval \<Rightarrow> bool res" where
  "compare_ord num str l r =
     (if l = PNone \<or> r = PNone then Inr False
      else case (py_num l, py_num r) of
        (Some x, Some y) \<Rightarrow> Inr (num x y)
      | _ \<Rightarrow> (case (l, r) of (PStr s, PStr t) \<Rightarrow> Inr (str s t) | _ \<Rightarrow> Inl ExecutionError))"

definition compare_lt :: "pval \<Rightarrow> pval \<Rightarrow> bool res" where
  "compare_lt = compare_ord xnum_lt str_lt"

definition compare_gt :: "pval \<Rightarrow> pval \<Rightarrow> bool res" where
  "compare_gt = compare_ord (\<lambda>x y. xnum_lt y x) (\<lambda>s t. str_lt t s)"

definition compare_le :: "pval \<Rightarrow> pval \<Rightarrow> bool res" where
  "compare_le = compare_ord xnum_le str_le"

definition compare_ge :: "pval \<Rightarrow> pval \<Rightarrow> bool res" where
  "compare_ge = compare_ord (\<lambda>x y. xnum_le y x) (\<lambda>s t. str_le t s)"

section \<open>Expressions\<close>

datatype expr =
    Literal (lit_value: pval)
  | ColumnRef (ref_name: string) (ref_table: "string option")
  | StarExpr
  | BinaryOp (bin_op: string) (bin_left: expr) (bin_right: expr)
  | UnaryOp string expr
  | AggregateExpr (agg_func: string) (agg_arg: expr) bool
  | IsNullExpr expr bool

definition row_get :: "row \<Rightarrow> string \<Rightarrow> pval" where
  "row_get row k = (case dict_get row k of Some v \<Rightarrow> v | None \<Rightarrow> PNone)"

definition column_value :: "string \<Rightarrow> string option \<Rightarrow> row \<Rightarrow> pval" where
  "column_value name tbl row = (case tbl of
     Some t \<Rightarrow> (let prefixed = t @ ''_'' @ name in
        if t \<noteq> [] \<and> dict_get row prefixed \<noteq> None then row_get row prefixed else row_get row name)
   | None \<Rightarrow> row_get row name)"

definition rbool :: "bool res \<Rightarrow> pval res" where
  "rbool r = rbind r (\<lambda>b. Inr (PBool b))"

definition apply_binary :: "string \<Rightarrow> pval \<Rightarrow> pval \<Rightarrow> pval res" where
  "apply_binary op l r =
     (if op = ''AND'' then Inr (PBool (to_bool l \<and> to_bool r))
      else if op = ''OR'' then Inr (PBool (to_bool l \<or> to_bool r))
      else if op = ''='' then Inr (PBool (compare_eq l r))
      else if op = ''!='' \<or> op = ''<>'' then Inr (PBool (\<not> compare_eq l r))
      else if op = ''<'' then rbool (compare_lt l r)
      else if op = ''>'' then rbool (compare_gt l r)
      else if op = ''<='' then rbool (compare_le l r)
      else if op = ''>='' then rbool (compare_ge l r)
      else if op = ''+'' then py_add l r
      else if op = ''-'' then py_sub l r
      else if op = ''*'' then py_mul l r
      else if op = ''/'' then (if py_eq r (PInt 0) then Inl ExecutionError else py_truediv l r)
      else Inl ExecutionError)"

definition apply_unary :: "string \<Rightarrow> pval \<Rightarrow> pval res" where
  "apply_unary op v =
     (if op = ''NOT'' then Inr (PBool (\<not> to_bool v))
      else if op = ''-'' then py_neg v
      else Inl ExecutionError)"

fun evaluate :: "expr \<Rightarrow> row \<Rightarrow> pval res" where
  "evaluate (Literal v) row = Inr v"
| "evaluate (ColumnRef name tbl) row = Inr (column_value name tbl row)"
| "evaluate StarExpr row = Inr (PStr ''*'')"
| "evaluate (BinaryOp op left right) row =
     rbind (evaluate left row) (\<lambda>l. rbind (evaluate right row) (\<lambda>r. apply_binary op l r))"
| "evaluate (UnaryOp op operand) row = rbind (evaluate operand row) (apply_unary op)"
| "evaluate (AggregateExpr f arg d) row = Inl NotImplementedError"
| "evaluate (IsNullExpr operand negated) row =
     rbind (evaluate operand row) (\<lambda>v.
       Inr (PBool (if negated then \<not> (v = PNone) else v = PNone)))"

section \<open>Conditions that cannot fail\<close>

text \<open>
  A type system for the conditions of WHERE and ON. \<open>vtype\<close> is the type of the values a simple
  operand may have, NULL apart; comparing numbers with text is ill-typed, arithmetic is left out
  (it raises on NULL). \<open>G\<close> gives the types of the columns.
\<close>

datatype vtype = VNum | VText

fun has_vtype :: "vtype \<Rightarrow> pval \<Rightarrow> bool" where
  "has_vtype VNum v = (v = PNone \<or> py_num v \<noteq> None)"
| "has_vtype VText v = (v = PNone \<or> (\<exists>s. v = PStr s))"

fun operand_type :: "(string \<rightharpoonup> vtype) \<Rightarrow> expr \<Rightarrow> vtype option" where
  "operand_type G (Literal v) =
     (if py_num v \<noteq> None then Some VNum else case v of PStr _ \<Rightarrow> Some VText | _ \<Rightarrow> None)"
| "operand_type G (ColumnRef name None) = G name"
| "operand_type G _ = None"

definition logical_ops :: "string set" where
  "logical_ops = {''AND'', ''OR''}"

definition comparison_ops :: "string set" where
  "comparison_ops = {''='', ''!='', ''<>'', ''<'', ''>'', ''<='', ''>=''}"

fun condition :: "(string \<rightharpoonup> vtype) \<Rightarrow> expr \<Rightarrow> bool" where
  "condition G (BinaryOp op l r) =
     (if op \<in> logical_ops then condition G l \<and> condition G r
      else op \<in> comparison_ops \<and>
        operand_type G l \<noteq> None \<and> operand_type G l = operand_type G r)"
| "condition G (UnaryOp op e) = (op = ''NOT'' \<and> condition G e)"
| "condition G (IsNullExpr e neg) = (operand_type G e \<noteq> None \<or> condition G e)"
| "condition G _ = False"

definition typed_row :: "(string \<rightharpoonup> vtype) \<Rightarrow> row \<Rightarrow> bool" where
  "typed_row G row \<longleftrightarrow> (\<forall>k t. G k = Some t \<longrightarrow> has_vtype t (row_get row k))"

lemma operand_value:
  assumes "operand_type G e = Some t" and "typed_row G row"
  shows "\<exists>v. evaluate e row = Inr v \<and> has_vtype t v"
  using assms
  by (cases "(G, e)" rule: operand_type.cases)
    (auto simp: typed_row_def column_value_def split: if_splits pval.splits)

lemma compare_ord_typed:
  assumes "has_vtype t l" and "has_vtype t r"
  shows "\<exists>b. compare_ord num str l r = Inr b"
  using assms by (cases t) (auto simp: compare_ord_def)

lemma apply_logical: "op \<in> logical_ops \<Longrightarrow> \<exists>b. apply_binary op l r = Inr (PBool b)"
  unfolding logical_ops_def by (elim insertE emptyE; simp add: apply_binary_def)

lemma apply_comparison:
  assumes "op \<in> comparison_ops" and "has_vtype t l" and "has_vtype t r"
  shows "\<exists>b. apply_binary op l r = Inr (PBool b)"
proof -
  have o: "\<exists>b. rbool (compare_ord num str l r) = Inr (PBool b)" for num str
    using compare_ord_typed [OF assms(2,3), of num str] by (auto simp: rbool_def)
  show ?thesis
    using assms(1) unfolding comparison_ops_def
    by (elim insertE emptyE; hypsubst; simp add: apply_binary_def compare_lt_def compare_gt_def compare_le_def
        compare_ge_def o)
qed

section \<open>Claims\<close>

text \<open>
  C30. A well-typed condition never raises: on every row whose columns have the declared types (any of
  them may be NULL) its evaluation succeeds and gives a bool, so a filter or a join cannot fail half way.
\<close>

theorem condition_total:
  assumes "condition G e" and "typed_row G row"
  shows "\<exists>b. evaluate e row = Inr (PBool b)"
  using assms
proof (induction G e rule: condition.induct)
  case (1 G op l r)
  show ?case
  proof (cases "op \<in> logical_ops")
    case True
    then have "condition G l" "condition G r" using "1.prems"(1) by simp_all
    then obtain a b where "evaluate l row = Inr (PBool a)" "evaluate r row = Inr (PBool b)"
      using "1.IH" True "1.prems"(2) by blast
    with True show ?thesis by (simp add: apply_logical)
  next
    case False
    then have op: "op \<in> comparison_ops" and "operand_type G l \<noteq> None" "operand_type G l = operand_type G r"
      using "1.prems"(1) unfolding condition.simps if_not_P [OF False] by blast+
    then obtain t where t: "operand_type G l = Some t" "operand_type G r = Some t" by fastforce
    obtain u v where "evaluate l row = Inr u" "evaluate r row = Inr v" "has_vtype t u" "has_vtype t v"
      using operand_value [OF t(1) "1.prems"(2)] operand_value [OF t(2) "1.prems"(2)] by blast
    with apply_comparison [OF op this(3,4)] show ?thesis by simp
  qed
next
  case (3 G e neg)
  then show ?case by (auto dest: operand_value)
qed (auto simp: apply_unary_def)

theorem condition_total_witness:
  "evaluate (BinaryOp ''AND'' (BinaryOp ''<'' (ColumnRef ''a'' None) (Literal (PInt 3)))
       (UnaryOp ''NOT'' (IsNullExpr (ColumnRef ''b'' None) False)))
     [(''a'', PNone), (''b'', PStr ''x'')] = Inr (PBool False)"
proof -
  let ?e = "BinaryOp ''AND'' (BinaryOp ''<'' (ColumnRef ''a'' None) (Literal (PInt 3)))
       (UnaryOp ''NOT'' (IsNullExpr (ColumnRef ''b'' None) False))"
  let ?row = "[(''a'', PNone), (''b'', PStr ''x'')]"
  have "condition [''a'' \<mapsto> VNum, ''b'' \<mapsto> VText] ?e" by (simp add: logical_ops_def comparison_ops_def)
  moreover have "typed_row [''a'' \<mapsto> VNum, ''b'' \<mapsto> VText] ?row"
    by (simp add: typed_row_def row_get_def)
  ultimately obtain b where "evaluate ?e ?row = Inr (PBool b)" using condition_total by blast
  then show ?thesis
    by (simp add: column_value_def row_get_def apply_binary_def compare_lt_def compare_ord_def rbool_def
        apply_unary_def to_bool_def)
qed

end
