(* ===== verification/Generators.thy ===== *)
theory Generators
  imports Table Expressions
begin

text \<open>
  Python generators. An operator of the executor is iterated lazily: it runs up to its next
  \<open>yield\<close>, hands out a row, and goes on from there, in the state of the storage at that time, when
  the consumer asks again. A generator is a function from the state to its next \<open>event\<close>; every
  generator of the source comes to an end, so events form a well-founded type and the operators are
  primitive recursive on them.
\<close>

section \<open>Events\<close>

datatype ('s, 'r) event =
    Raise err 's
  | Stop 's
  | Yield 'r 's "'s \<Rightarrow> ('s, 'r) event"

type_synonym ('s, 'r) gen = "'s \<Rightarrow> ('s, 'r) event"

text \<open>\<open>list(it)\<close>, and a \<open>for\<close> loop over \<open>it\<close> with a body that may change the state.\<close>

primrec drain :: "('s, 'r) event \<Rightarrow> (err + 'r list) \<times> 's" where
  "drain (Raise e s) = (Inl e, s)"
| "drain (Stop s) = (Inr [], s)"
| "drain (Yield r s g) = (case drain (g s) of (Inl e, t) \<Rightarrow> (Inl e, t) | (Inr rs, t) \<Rightarrow> (Inr (r # rs), t))"

definition to_list :: "('s, 'r) gen \<Rightarrow> ('s, 'r list) st" where
  "to_list g s = drain (g s)"

primrec for_each :: "('r \<Rightarrow> 'a \<Rightarrow> ('s, 'a) st) \<Rightarrow> ('s, 'r) event \<Rightarrow> 'a \<Rightarrow> (err + 'a) \<times> 's" where
  "for_each body (Raise e s) acc = (Inl e, s)"
| "for_each body (Stop s) acc = (Inr acc, s)"
| "for_each body (Yield r s g) acc =
     (case body r acc s of (Inl e, t) \<Rightarrow> (Inl e, t) | (Inr acc', t) \<Rightarrow> for_each body (g t) acc')"

fun of_list :: "'r list \<Rightarrow> ('s, 'r) gen" where
  "of_list [] s = Stop s"
| "of_list (r # rs) s = Yield r s (of_list rs)"

text \<open>\<open>for r in it: if keep(r): yield f(r)\<close>, where both may raise.\<close>

primrec gfilter :: "('r \<Rightarrow> bool res) \<Rightarrow> ('s, 'r) event \<Rightarrow> ('s, 'r) event" where
  "gfilter keep (Raise e s) = Raise e s"
| "gfilter keep (Stop s) = Stop s"
| "gfilter keep (Yield r s g) = (case keep r of
     Inl e \<Rightarrow> Raise e s
   | Inr True \<Rightarrow> Yield r s (\<lambda>t. gfilter keep (g t))
   | Inr False \<Rightarrow> gfilter keep (g s))"

primrec gmap :: "('r \<Rightarrow> 'q res) \<Rightarrow> ('s, 'r) event \<Rightarrow> ('s, 'q) event" where
  "gmap f (Raise e s) = Raise e s"
| "gmap f (Stop s) = Stop s"
| "gmap f (Yield r s g) = (case f r of
     Inl e \<Rightarrow> Raise e s
   | Inr q \<Rightarrow> Yield q s (\<lambda>t. gmap f (g t)))"

text \<open>
  Skip \<open>k\<close> rows, then hand out at most \<open>n\<close>: the row that finds the count used up has already been
  taken from the source.
\<close>

primrec glimit :: "('s, 'r) event \<Rightarrow> nat \<Rightarrow> nat option \<Rightarrow> ('s, 'r) event" where
  "glimit (Raise e s) k n = Raise e s"
| "glimit (Stop s) k n = Stop s"
| "glimit (Yield r s g) k n = (case k of
     Suc k' \<Rightarrow> glimit (g s) k' n
   | 0 \<Rightarrow> (case n of
       None \<Rightarrow> Yield r s (\<lambda>t. glimit (g t) 0 None)
     | Some 0 \<Rightarrow> Stop s
     | Some (Suc m) \<Rightarrow> Yield r s (\<lambda>t. glimit (g t) 0 (Some m))))"

section \<open>Draining\<close>

text \<open>\<open>yields g s rs t\<close>: in state \<open>s\<close> the generator hands out exactly \<open>rs\<close> and ends in \<open>t\<close>.\<close>

definition yields :: "('s, 'r) gen \<Rightarrow> 's \<Rightarrow> 'r list \<Rightarrow> 's \<Rightarrow> bool" where
  "yields g s rs t \<longleftrightarrow> to_list g s = (Inr rs, t)"

lemma drain_YieldE:
  assumes "drain (Yield r s g) = (Inr rs, t)"
  obtains rs' where "rs = r # rs'" "drain (g s) = (Inr rs', t)"
  using assms by (auto split: prod.splits sum.splits)

lemma drain_of_list [simp]: "drain (of_list rs s) = (Inr rs, s)"
  by (induction rs) auto

lemma drain_gfilter:
  assumes "drain ev = (Inr rs, t)" and "\<And>r. r \<in> set rs \<Longrightarrow> keep r = Inr (P r)"
  shows "drain (gfilter keep ev) = (Inr (filter P rs), t)"
  using assms
proof (induction ev arbitrary: rs)
  case (Yield r s g)
  from Yield.prems(1) obtain rs' where rs: "rs = r # rs'" "drain (g s) = (Inr rs', t)" by (rule drain_YieldE)
  have "drain (gfilter keep (g s)) = (Inr (filter P rs'), t)"
    using Yield.IH [of "g s"] rs Yield.prems(2) by auto
  with rs Yield.prems(2) [of r] show ?case by auto
qed auto

lemma drain_gmap:
  assumes "drain ev = (Inr rs, t)" and "rmap f rs = Inr qs"
  shows "drain (gmap f ev) = (Inr qs, t)"
  using assms
proof (induction ev arbitrary: rs qs)
  case (Yield r s g)
  from Yield.prems(1) obtain rs' where rs: "rs = r # rs'" "drain (g s) = (Inr rs', t)" by (rule drain_YieldE)
  from Yield.prems(2) rs(1) obtain q qs' where q: "f r = Inr q" "rmap f rs' = Inr qs'" "qs = q # qs'" by auto
  have "drain (gmap f (g s)) = (Inr qs', t)" using Yield.IH [of "g s"] rs(2) q(2) by auto
  with q show ?case by simp
qed auto

text \<open>The state a limited generator stops in is that of the prefix it has read.\<close>

lemma drain_glimit:
  assumes "drain ev = (Inr rs, t)"
  shows "\<exists>u. drain (glimit ev k n) =
    (Inr (case n of None \<Rightarrow> drop k rs | Some m \<Rightarrow> take m (drop k rs)), u)"
  using assms
proof (induction ev arbitrary: rs k n)
  case (Yield r s g)
  from Yield.prems obtain rs' where rs: "rs = r # rs'" "drain (g s) = (Inr rs', t)" by (rule drain_YieldE)
  note ih = Yield.IH [of "g s", OF rangeI rs(2)]
  show ?case
  proof (cases k)
    case (Suc k')
    then show ?thesis using ih [of k' n] unfolding rs(1) Suc by (cases n) simp_all
  next
    case 0
    show ?thesis
    proof (cases n)
      case None
      obtain u where "drain (glimit (g s) 0 None) = (Inr rs', u)" using ih [of 0 None] by auto
      then show ?thesis using 0 None unfolding rs(1) by simp
    next
      case (Some m)
      show ?thesis
      proof (cases m)
        case (Suc m')
        obtain u where "drain (glimit (g s) 0 (Some m')) = (Inr (take m' rs'), u)"
          using ih [of 0 "Some m'"] by auto
        then show ?thesis using 0 Some Suc unfolding rs(1) by simp
      qed (use 0 Some in simp)
    qed
  qed
qed (auto split: option.splits)

lemma for_each_collect:
  "for_each (\<lambda>r acc. sret (acc @ [r])) ev acc =
     (case drain ev of (Inl e, t) \<Rightarrow> (Inl e, t) | (Inr rs, t) \<Rightarrow> (Inr (acc @ rs), t))"
  by (induction ev arbitrary: acc) (auto split: prod.splits sum.splits)

section \<open>The scan of a table as a generator\<close>

fun slot_rows :: "Page \<Rightarrow> ColumnDef list \<Rightarrow> nat list \<Rightarrow> ('s, RowId \<times> pval list) gen \<Rightarrow>
    ('s, RowId \<times> pval list) gen" where
  "slot_rows page cols [] k s = k s"
| "slot_rows page cols (i # is) k s =
     (case get_row_from_page page i of
        Inl e \<Rightarrow> Raise e s
      | Inr None \<Rightarrow> slot_rows page cols is k s
      | Inr (Some d) \<Rightarrow> (case deserialize_row d cols of
          Inl e \<Rightarrow> Raise e s
        | Inr values \<Rightarrow>
            Yield (\<lparr>rid_page_id = p_page_id page, rid_slot_index = i\<rparr>, values) s (slot_rows page cols is k)))"

fun chain_rows :: "'s pool_ops \<Rightarrow> ColumnDef list \<Rightarrow> nat \<Rightarrow> nat \<Rightarrow> ('s, RowId \<times> pval list) gen" where
  "chain_rows ops cols fuel 0 s = Stop s"
| "chain_rows ops cols 0 (Suc p) s = Raise NonTermination s"
| "chain_rows ops cols (Suc fuel) (Suc p) s =
     (case po_get ops (Suc p) None s of
        (Inl e, t) \<Rightarrow> Raise e t
      | (Inr data, t) \<Rightarrow> (case parse_page_header data of
          Inl e \<Rightarrow> Raise e t
        | Inr header \<Rightarrow>
            if h_page_type header \<noteq> DATA then Stop t
            else (case page_from_data (Suc p) data of
              Inl e \<Rightarrow> Raise e t
            | Inr page \<Rightarrow> slot_rows page cols [0..<h_slot_count header]
                (chain_rows ops cols fuel (h_next_page_id header)) t)))"

definition table_rows :: "'s pool_ops \<Rightarrow> Table \<Rightarrow> ('s, RowId \<times> pval list) gen" where
  "table_rows ops tbl s = chain_rows ops (tbl_columns tbl) (po_count ops s + 1) (tbl_root tbl) s"

lemma slot_rows_for_each:
  "for_each body (slot_rows page cols is k s) acc =
     sbind (scan_slots page cols (\<lambda>rid vs acc. body (rid, vs) acc) is acc) (\<lambda>acc' t. for_each body (k t) acc') s"
proof (induction "is" arbitrary: s acc)
  case (Cons i "is")
  show ?case
    by (auto simp: Cons.IH sbind_def split: sum.splits option.splits prod.splits)
qed (simp add: sbind_def)

lemma page_rows_for_each:
  "for_each body (chain_rows ops cols fuel p s) acc =
     scan_pages ops cols None (\<lambda>rid vs acc. body (rid, vs) acc) fuel p acc s"
proof (induction fuel arbitrary: p acc s)
  case 0
  show ?case by (cases p) simp_all
next
  case (Suc fuel)
  show ?case
  proof (cases p)
    case (Suc q)
    then show ?thesis
      by (auto simp: sbind_def slot_rows_for_each Suc.IH split: sum.splits prod.splits)
  qed simp
qed

text \<open>A loop over the generator is the loop of \<open>table_scan\<close>; collecting it is \<open>scan_all\<close>.\<close>

lemma table_rows_for_each:
  "for_each body (table_rows ops tbl s) acc =
     table_scan ops tbl None (\<lambda>rid vs acc. body (rid, vs) acc) (po_count ops s + 1) acc s"
  by (simp add: table_rows_def table_scan_def page_rows_for_each)

lemma to_list_table_rows: "to_list (table_rows ops tbl) s = scan_all ops tbl None s"
proof -
  have "scan_all ops tbl None s = for_each (\<lambda>r acc. sret (acc @ [r])) (table_rows ops tbl s) []"
    unfolding scan_all_def table_rows_for_each by (simp add: collect_row_def [abs_def])
  then show ?thesis
    unfolding for_each_collect to_list_def by (auto split: prod.splits sum.splits)
qed

end
