(* ===== verification/Py_Sort.thy ===== *)
theory Py_Sort
  imports Expressions "HOL-Library.Multiset"
begin

text \<open>
  \<open>sorted\<close> and \<open>list.sort\<close> with a key function: a stable sort by the Python order of the keys,
  which are tuples of values. Comparing values of different kinds, or NULLs, raises; every sorting
  algorithm compares enough pairs to meet two keys that cannot be compared, so the sort raises
  exactly when the list has such a pair. The place of rows with a NaN key depends on the algorithm
  and is not specified by this model.
\<close>

section \<open>Order of keys\<close>

definition py_lt :: "pval \<Rightarrow> pval \<Rightarrow> bool res" where
  "py_lt a b =
     (case (py_num a, py_num b) of
        (Some x, Some y) \<Rightarrow> Inr (xnum_lt x y)
      | _ \<Rightarrow> (case (a, b) of (PStr s, PStr t) \<Rightarrow> Inr (str_lt s t) | _ \<Rightarrow> Inl TypeError))"

fun key_lt :: "pval list \<Rightarrow> pval list \<Rightarrow> bool res" where
  "key_lt xs [] = Inr False"
| "key_lt [] (y # ys) = Inr True"
| "key_lt (x # xs) (y # ys) = (if py_eq x y then key_lt xs ys else py_lt x y)"

definition keys_eq :: "pval list \<Rightarrow> pval list \<Rightarrow> bool" where
  "keys_eq xs ys = list_all2 py_eq xs ys"

section \<open>Stable insertion sort\<close>

fun insort_by :: "('r \<Rightarrow> 'r \<Rightarrow> bool) \<Rightarrow> 'r \<Rightarrow> 'r list \<Rightarrow> 'r list" where
  "insort_by lt x [] = [x]"
| "insort_by lt x (y # ys) = (if lt y x then y # insort_by lt x ys else x # y # ys)"

definition sort_by :: "('r \<Rightarrow> 'r \<Rightarrow> bool) \<Rightarrow> 'r list \<Rightarrow> 'r list" where
  "sort_by lt xs = foldr (insort_by lt) xs []"

lemma sort_by_simps [simp]:
  "sort_by lt [] = []" "sort_by lt (x # xs) = insort_by lt x (sort_by lt xs)"
  by (simp_all add: sort_by_def)

lemma mset_insort_by [simp]: "mset (insort_by lt x xs) = add_mset x (mset xs)"
  by (induction xs) auto

lemma mset_sort_by [simp]: "mset (sort_by lt xs) = mset xs"
  by (induction xs) auto

lemma set_insort_by [simp]: "set (insort_by lt x xs) = insert x (set xs)"
  by (induction xs) auto

lemma set_sort_by [simp]: "set (sort_by lt xs) = set xs"
  by (induction xs) auto

text \<open>A strict weak order on a set: what makes the result sorted and stable.\<close>

definition weak_order_on :: "'r set \<Rightarrow> ('r \<Rightarrow> 'r \<Rightarrow> bool) \<Rightarrow> bool" where
  "weak_order_on A lt \<longleftrightarrow>
     (\<forall>x \<in> A. \<forall>y \<in> A. lt x y \<longrightarrow> \<not> lt y x) \<and>
     (\<forall>x \<in> A. \<forall>y \<in> A. \<forall>z \<in> A. \<not> lt x y \<longrightarrow> \<not> lt y z \<longrightarrow> \<not> lt x z)"

lemma weak_order_subset: "weak_order_on A lt \<Longrightarrow> B \<subseteq> A \<Longrightarrow> weak_order_on B lt"
  unfolding weak_order_on_def by blast

lemma weak_orderD:
  "weak_order_on A lt \<Longrightarrow> lt x y \<Longrightarrow> x \<in> A \<Longrightarrow> y \<in> A \<Longrightarrow> \<not> lt y x"
  "weak_order_on A lt \<Longrightarrow> \<not> lt x y \<Longrightarrow> \<not> lt y z \<Longrightarrow> x \<in> A \<Longrightarrow> y \<in> A \<Longrightarrow> z \<in> A \<Longrightarrow> \<not> lt x z"
  unfolding weak_order_on_def by blast+

lemma sorted_insort_by:
  assumes "weak_order_on A lt" and "insert x (set ys) \<subseteq> A" and "sorted_wrt (\<lambda>a b. \<not> lt b a) ys"
  shows "sorted_wrt (\<lambda>a b. \<not> lt b a) (insort_by lt x ys)"
  using assms
proof (induction ys)
  case (Cons y ys)
  show ?case
  proof (cases "lt y x")
    case True
    with Cons weak_orderD(1) [OF Cons.prems(1), of y x] show ?thesis by auto
  next
    case False
    with Cons.prems weak_orderD(2) [OF Cons.prems(1), of _ y x] show ?thesis by auto
  qed
qed simp

lemma sorted_sort_by:
  assumes "weak_order_on A lt" and "set xs \<subseteq> A"
  shows "sorted_wrt (\<lambda>a b. \<not> lt b a) (sort_by lt xs)"
  using assms by (induction xs) (auto intro!: sorted_insort_by)

text \<open>Stability: rows that are equal for the order keep their places relative to each other.\<close>

definition tied :: "('r \<Rightarrow> 'r \<Rightarrow> bool) \<Rightarrow> 'r \<Rightarrow> 'r \<Rightarrow> bool" where
  "tied lt x y \<longleftrightarrow> \<not> lt x y \<and> \<not> lt y x"

lemma filter_insort_by:
  assumes "weak_order_on A lt" and "insert z (insert x (set ys)) \<subseteq> A" and "sorted_wrt (\<lambda>a b. \<not> lt b a) ys"
  shows "filter (tied lt z) (insort_by lt x ys) = filter (tied lt z) (x # ys)"
  using assms
proof (induction ys)
  case (Cons y ys)
  show ?case
  proof (cases "lt y x")
    case True
    have "\<not> (tied lt z x \<and> tied lt z y)"
      using True weak_orderD(2) [OF Cons.prems(1), of y z x] Cons.prems(2) by (auto simp: tied_def)
    moreover have "filter (tied lt z) (insort_by lt x ys) = filter (tied lt z) (x # ys)"
      using Cons by auto
    ultimately show ?thesis using True by auto
  qed simp
qed simp

lemma sort_by_stable:
  assumes "weak_order_on A lt" and "insert z (set xs) \<subseteq> A"
  shows "filter (tied lt z) (sort_by lt xs) = filter (tied lt z) xs"
  using assms
proof (induction xs)
  case (Cons x xs)
  then have "sorted_wrt (\<lambda>a b. \<not> lt b a) (sort_by lt xs)"
    by (intro sorted_sort_by [OF Cons.prems(1)]) auto
  with Cons filter_insort_by [OF Cons.prems(1), of z x "sort_by lt xs"] show ?case by auto
qed simp

text \<open>Nothing to do: a list without a strictly decreasing pair is already sorted.\<close>

lemma insort_by_first: "(\<And>y. y \<in> set ys \<Longrightarrow> \<not> lt y x) \<Longrightarrow> insort_by lt x ys = x # ys"
  by (cases ys) auto

lemma sort_by_same: "sorted_wrt (\<lambda>a b. \<not> lt b a) xs \<Longrightarrow> sort_by lt xs = xs"
  by (induction xs) (auto intro: insort_by_first)

section \<open>The library function\<close>

definition lt_of :: "('r \<Rightarrow> pval list) \<Rightarrow> 'r \<Rightarrow> 'r \<Rightarrow> bool" where
  "lt_of key x y \<longleftrightarrow> key_lt (key x) (key y) = Inr True"

definition comparable :: "pval list \<Rightarrow> pval list \<Rightarrow> bool" where
  "comparable k l \<longleftrightarrow> (case key_lt k l of Inl e \<Rightarrow> False | Inr b \<Rightarrow> True)"

text \<open>\<open>reverse=True\<close> keeps ties in their order, so it is not the reversal of the ascending sort.\<close>

definition py_sort :: "('r \<Rightarrow> pval list) \<Rightarrow> bool \<Rightarrow> 'r list \<Rightarrow> 'r list res" where
  "py_sort key reverse xs =
     (if \<forall>x \<in> set xs. \<forall>y \<in> set xs. comparable (key x) (key y)
      then Inr (if reverse then rev (sort_by (lt_of key) (rev xs)) else sort_by (lt_of key) xs)
      else Inl TypeError)"

text \<open>Keys of one kind, none of them NaN, are comparable and weakly ordered.\<close>

definition proper :: "vtype \<Rightarrow> pval \<Rightarrow> bool" where
  "proper t v \<longleftrightarrow> has_vtype t v \<and> v \<noteq> PNone \<and> py_num v \<noteq> Some NotANumber"

lemma py_lt_proper:
  assumes "proper t a" and "proper t b"
  shows "py_lt a b = Inr (case t of VNum \<Rightarrow> xnum_lt (the (py_num a)) (the (py_num b))
     | VText \<Rightarrow> (case (a, b) of (PStr x, PStr y) \<Rightarrow> str_lt x y | _ \<Rightarrow> False))"
  using assms by (cases t) (auto simp: proper_def py_lt_def)

lemma py_eq_proper:
  assumes "proper t a" and "proper t b"
  shows "py_eq a b = (case t of VNum \<Rightarrow> py_num a = py_num b | VText \<Rightarrow> a = b)"
  using assms by (cases t) (auto simp: proper_def py_eq_def xnum_eq_iff)

lemma proper_trichotomy:
  assumes "proper t a" and "proper t b"
  shows "py_lt a b = Inr True \<or> py_eq a b \<or> py_lt b a = Inr True"
proof (cases t)
  case VNum
  with assms obtain x y where "py_num a = Some x" "py_num b = Some y" "x \<noteq> NotANumber" "y \<noteq> NotANumber"
    by (auto simp: proper_def)
  with xnum_total [of x y] show ?thesis
    using VNum assms by (auto simp: py_lt_proper py_eq_proper)
next
  case VText
  with assms obtain x y where "a = PStr x" "b = PStr y" by (auto simp: proper_def)
  with str_lt_total [of x y] show ?thesis using VText assms by (auto simp: py_lt_proper py_eq_proper)
qed

lemma py_lt_trans:
  assumes "proper t a" "proper t b" "proper t c" and "py_lt a b = Inr True" and "py_lt b c = Inr True"
  shows "py_lt a c = Inr True"
  using assms
  by (cases t) (auto simp: py_lt_proper split: pval.splits intro: xnum_lt_trans str_lt_trans)

lemma py_lt_eq:
  assumes "proper t a" "proper t b" "proper t c"
  shows "py_eq a b \<Longrightarrow> py_lt b c = py_lt a c" and "py_eq b c \<Longrightarrow> py_lt a b = py_lt a c"
  using assms by (cases t; auto simp: py_lt_proper py_eq_proper split: pval.splits)+

lemma py_lt_irrefl: "proper t a \<Longrightarrow> proper t b \<Longrightarrow> py_eq a b \<Longrightarrow> py_lt a b \<noteq> Inr True"
  by (cases t) (auto simp: py_lt_proper py_eq_proper split: pval.splits)

end
