(* ===== verification/Operators.thy ===== *)
theory Operators
  imports Generators Py_Sort
begin

text \<open>
  The query operators of \<open>tinydb/sql/executor.py\<close> (scan, joins, filter, projection, aggregation, sort,
  limit). An operator object is a value of \<open>operator\<close>; iterating it is \<open>op_rows\<close>, a generator of rows.
  A row is a dict; two values are the same hash key when they are \<open>==\<close> (the identity of NaN objects is
  not modelled, so NaN keys are always different).
\<close>

section \<open>Joined rows\<close>

record join_spec =
  join_type :: string
  on_condition :: "expr option"
  left_name :: string
  left_alias :: "string option"
  right_name :: string
  right_alias :: "string option"
  right_cols :: "string list"
  join_keys :: "string list"

definition alias_or :: "string option \<Rightarrow> string \<Rightarrow> string" where
  "alias_or a name = (case a of Some x \<Rightarrow> if x = [] then name else x | None \<Rightarrow> name)"

definition left_prefix :: "join_spec \<Rightarrow> string" where
  "left_prefix j = alias_or (left_alias j) (left_name j)"

definition right_prefix :: "join_spec \<Rightarrow> string" where
  "right_prefix j = alias_or (right_alias j) (right_name j)"

definition visible :: "row \<Rightarrow> row" where
  "visible row = filter (\<lambda>(k, v). k \<noteq> ''_rowid'') row"

definition put_all :: "(string \<Rightarrow> string) \<Rightarrow> row \<Rightarrow> row \<Rightarrow> row" where
  "put_all name cols result = fold (\<lambda>(k, v). dict_set (name k) v) cols result"

definition prefixed :: "string \<Rightarrow> string \<Rightarrow> string" where
  "prefixed p k = p @ ''_'' @ k"

text \<open>The common part of \<open>_combine_rows\<close> and \<open>_combine_with_nulls\<close>.\<close>

definition merge_cols :: "join_spec \<Rightarrow> row \<Rightarrow> row \<Rightarrow> row" where
  "merge_cols j l r =
     (let conflict = (\<lambda>k. k \<in> set (dict_keys l) \<inter> set (dict_keys r));
          result = put_all (\<lambda>k. if conflict k then prefixed (left_prefix j) k else k) l []
      in put_all (\<lambda>k. if conflict k then prefixed (right_prefix j) k else k) r result)"

definition combine_rows :: "join_spec \<Rightarrow> row \<Rightarrow> row \<Rightarrow> row" where
  "combine_rows j l r = merge_cols j (visible l) (visible r)"

definition combine_with_nulls :: "join_spec \<Rightarrow> row option \<Rightarrow> row option \<Rightarrow> row" where
  "combine_with_nulls j l r =
     merge_cols j
       (case l of None \<Rightarrow> [] | Some lr \<Rightarrow> visible lr)
       (case r of None \<Rightarrow> fold (\<lambda>k. dict_set k PNone) (right_cols j) [] | Some rr \<Rightarrow> visible rr)"

section \<open>Join conditions\<close>

fun is_natural :: "expr option \<Rightarrow> bool" where
  "is_natural (Some (BinaryOp op (ColumnRef a s) (ColumnRef b t))) = (op = ''='' \<and> a = b)"
| "is_natural _ = False"

definition natural_keys_match :: "string list \<Rightarrow> row \<Rightarrow> row \<Rightarrow> bool" where
  "natural_keys_match keys l r =
     list_all (\<lambda>k. row_get l k \<noteq> PNone \<and> row_get r k \<noteq> PNone \<and> py_eq (row_get l k) (row_get r k)) keys"

text \<open>The row on which ON is evaluated: plain names (the left ones win) and prefixed names.\<close>

definition raw_combined :: "join_spec \<Rightarrow> row \<Rightarrow> row \<Rightarrow> row" where
  "raw_combined j l r =
     put_all (prefixed (right_prefix j)) (visible r)
       (put_all (prefixed (left_prefix j)) (visible l)
         (put_all (\<lambda>k. k) (visible l) (put_all (\<lambda>k. k) (visible r) [])))"

definition rows_match :: "join_spec \<Rightarrow> row \<Rightarrow> row \<Rightarrow> bool res" where
  "rows_match j l r =
     (if is_natural (on_condition j) then Inr (natural_keys_match (join_keys j) l r)
      else case on_condition j of
        None \<Rightarrow> Inr True
      | Some cond \<Rightarrow> rbind (evaluate cond (raw_combined j l r)) (\<lambda>v. Inr (to_bool v)))"

definition keeps_left :: "join_spec \<Rightarrow> bool" where
  "keeps_left j \<longleftrightarrow> join_type j \<in> {''LEFT'', ''FULL''}"

definition keeps_right :: "join_spec \<Rightarrow> bool" where
  "keeps_right j \<longleftrightarrow> join_type j \<in> {''RIGHT'', ''FULL''}"

definition unmatched_right :: "join_spec \<Rightarrow> row list \<Rightarrow> nat set \<Rightarrow> row list" where
  "unmatched_right j rows matched =
     (if keeps_right j
      then map (\<lambda>(i, r). combine_with_nulls j None (Some r)) (filter (\<lambda>(i, r). i \<notin> matched) (enumerate 0 rows))
      else [])"

section \<open>Nested loop join\<close>

type_synonym 's rows = "('s, row) gen"

text \<open>
  The inner loop carries the position in the right input, the flag \<open>matched\<close> and the set
  \<open>matched_right\<close>; \<open>k\<close> is what follows the loop.
\<close>

primrec nl_inner :: "join_spec \<Rightarrow> row \<Rightarrow> ('s, row) event \<Rightarrow> nat \<Rightarrow> bool \<Rightarrow> nat set \<Rightarrow>
    (bool \<Rightarrow> nat set \<Rightarrow> 's rows) \<Rightarrow> ('s, row) event" where
  "nl_inner j l (Raise e s) i matched ms k = Raise e s"
| "nl_inner j l (Stop s) i matched ms k = k matched ms s"
| "nl_inner j l (Yield r s g) i matched ms k = (case rows_match j l r of
     Inl e \<Rightarrow> Raise e s
   | Inr False \<Rightarrow> nl_inner j l (g s) (Suc i) matched ms k
   | Inr True \<Rightarrow> Yield (combine_rows j l r) s (\<lambda>t. nl_inner j l (g t) (Suc i) True (insert i ms) k))"

primrec nl_outer :: "join_spec \<Rightarrow> 's rows \<Rightarrow> (nat set \<Rightarrow> 's rows) \<Rightarrow> ('s, row) event \<Rightarrow> nat set \<Rightarrow>
    ('s, row) event" where
  "nl_outer j right after (Raise e s) ms = Raise e s"
| "nl_outer j right after (Stop s) ms = after ms s"
| "nl_outer j right after (Yield l s g) ms =
     nl_inner j l (right s) 0 False ms (\<lambda>matched ms' t.
       if \<not> matched \<and> keeps_left j
       then Yield (combine_with_nulls j (Some l) None) t (\<lambda>u. nl_outer j right after (g u) ms')
       else nl_outer j right after (g t) ms')"

definition nested_loop_join :: "join_spec \<Rightarrow> 's rows \<Rightarrow> 's rows \<Rightarrow> 's rows" where
  "nested_loop_join j left right s =
     (if keeps_right j then
        (case to_list right s of
           (Inl e, t) \<Rightarrow> Raise e t
         | (Inr rows, t) \<Rightarrow>
             nl_outer j (of_list rows) (\<lambda>ms. of_list (unmatched_right j rows ms)) (left t) {})
      else nl_outer j right (\<lambda>ms. Stop) (left s) {})"

section \<open>Hash join\<close>

fun extract_right_key :: "expr option \<Rightarrow> string list \<Rightarrow> string option" where
  "extract_right_key (Some (BinaryOp op l (ColumnRef name tbl))) keys =
     (if op = ''='' then Some name else case keys of [] \<Rightarrow> None | k # _ \<Rightarrow> Some k)"
| "extract_right_key _ keys = (case keys of [] \<Rightarrow> None | k # _ \<Rightarrow> Some k)"

definition left_key :: "join_spec \<Rightarrow> row \<Rightarrow> pval list" where
  "left_key j row = map (row_get row) (join_keys j)"

definition right_key :: "join_spec \<Rightarrow> row \<Rightarrow> pval list" where
  "right_key j row = (case extract_right_key (on_condition j) (join_keys j) of
     Some k \<Rightarrow> if k = [] then [] else [row_get row k] | None \<Rightarrow> [])"

type_synonym 'a key_table = "(pval list \<times> 'a) list"

fun table_get_key :: "pval list \<Rightarrow> 'a key_table \<Rightarrow> 'a option" where
  "table_get_key k [] = None"
| "table_get_key k ((k', x) # xs) = (if keys_eq k' k then Some x else table_get_key k xs)"

fun table_put_key :: "pval list \<Rightarrow> 'a \<Rightarrow> 'a key_table \<Rightarrow> 'a key_table" where
  "table_put_key k x [] = [(k, x)]"
| "table_put_key k x ((k', y) # ys) =
     (if keys_eq k' k then (k', x) # ys else (k', y) # table_put_key k x ys)"

definition add_bucket :: "join_spec \<Rightarrow> nat \<times> row \<Rightarrow> (nat \<times> row) list key_table \<Rightarrow> (nat \<times> row) list key_table" where
  "add_bucket j ir t = (let k = right_key j (snd ir) in
     case table_get_key k t of None \<Rightarrow> table_put_key k [ir] t | Some xs \<Rightarrow> table_put_key k (xs @ [ir]) t)"

definition build_table :: "join_spec \<Rightarrow> row list \<Rightarrow> (nat \<times> row) list key_table" where
  "build_table j rows = fold (add_bucket j) (enumerate 0 rows) []"

text \<open>The rows a probe yields, and then the rest.\<close>

fun then_gen :: "'r list \<Rightarrow> ('s, 'r) gen \<Rightarrow> ('s, 'r) gen" where
  "then_gen [] k s = k s"
| "then_gen (r # rs) k s = Yield r s (then_gen rs k)"

primrec hash_probe :: "join_spec \<Rightarrow> (nat \<times> row) list key_table \<Rightarrow> (nat set \<Rightarrow> 's rows) \<Rightarrow>
    ('s, row) event \<Rightarrow> nat set \<Rightarrow> ('s, row) event" where
  "hash_probe j t after (Raise e s) ms = Raise e s"
| "hash_probe j t after (Stop s) ms = after ms s"
| "hash_probe j t after (Yield l s g) ms = (case table_get_key (left_key j l) t of
     Some bucket \<Rightarrow> then_gen (map (\<lambda>(i, r). combine_rows j l r) bucket)
       (\<lambda>u. hash_probe j t after (g u) (ms \<union> fst ` set bucket)) s
   | None \<Rightarrow> if keeps_left j
       then Yield (combine_with_nulls j (Some l) None) s (\<lambda>u. hash_probe j t after (g u) ms)
       else hash_probe j t after (g s) ms)"

definition hash_join :: "join_spec \<Rightarrow> 's rows \<Rightarrow> 's rows \<Rightarrow> 's rows" where
  "hash_join j left right s = (case to_list right s of
     (Inl e, t) \<Rightarrow> Raise e t
   | (Inr rows, t) \<Rightarrow>
       hash_probe j (build_table j rows) (\<lambda>ms. of_list (unmatched_right j rows ms)) (left t) {})"

section \<open>Sort-merge join\<close>

text \<open>
  The merge works on two sorted lists; indices of the right list identify its rows. Its comparisons
  of keys may raise, which ends the generator after the rows yielded so far.
\<close>

definition run_of :: "('r \<Rightarrow> pval list) \<Rightarrow> pval list \<Rightarrow> 'r list \<Rightarrow> 'r list" where
  "run_of key k rows = takeWhile (\<lambda>r. keys_eq (key r) k) rows"

fun merge_rows :: "join_spec \<Rightarrow> nat \<Rightarrow> row list \<Rightarrow> (nat \<times> row) list \<Rightarrow> nat set \<Rightarrow>
    (row list \<times> nat set) res \<times> row list" where
  "merge_rows j 0 ls rs ms = (Inl NonTermination, [])"
| "merge_rows j (Suc n) [] rs ms = (Inr ([], ms), [])"
| "merge_rows j (Suc n) (l # ls) [] ms = (Inr (l # ls, ms), [])"
| "merge_rows j (Suc n) (l # ls) (r # rs) ms =
     (let lk = left_key j l; rk = right_key j (snd r) in
      if keys_eq lk rk then
        (let rrun = run_of (\<lambda>x. right_key j (snd x)) rk (r # rs);
             lrun = run_of (left_key j) lk (l # ls);
             out = concat (map (\<lambda>a. map (\<lambda>b. combine_rows j a (snd b)) rrun) lrun);
             (res, more) = merge_rows j n (drop (length lrun) (l # ls)) (drop (length rrun) (r # rs))
               (ms \<union> fst ` set rrun)
         in (res, out @ more))
      else case key_lt lk rk of
        Inl e \<Rightarrow> (Inl e, [])
      | Inr True \<Rightarrow>
          (let (res, more) = merge_rows j n ls (r # rs) ms
           in (res, (if keeps_left j then [combine_with_nulls j (Some l) None] else []) @ more))
      | Inr False \<Rightarrow> merge_rows j n (l # ls) rs ms)"

definition merge_sorted :: "join_spec \<Rightarrow> row list \<Rightarrow> row list \<Rightarrow> 's rows" where
  "merge_sorted j ls rs s =
     (case merge_rows j (length ls + length rs + 1) ls (enumerate 0 rs) {} of
        (Inl e, out) \<Rightarrow> then_gen out (Raise e) s
      | (Inr (rest, ms), out) \<Rightarrow>
          of_list (out @ (if keeps_left j then map (\<lambda>l. combine_with_nulls j (Some l) None) rest else [])
            @ unmatched_right j rs ms) s)"

definition sort_merge_join :: "join_spec \<Rightarrow> 's rows \<Rightarrow> 's rows \<Rightarrow> 's rows" where
  "sort_merge_join j left right s =
     (case sbind (to_list left) (\<lambda>ls. sbind (slift (py_sort (left_key j) False ls)) (\<lambda>lsorted.
           sbind (to_list right) (\<lambda>rs. sbind (slift (py_sort (right_key j) False rs)) (\<lambda>rsorted.
             sret (lsorted, rsorted))))) s of
        (Inl e, t) \<Rightarrow> Raise e t
      | (Inr (lsorted, rsorted), t) \<Rightarrow> merge_sorted j lsorted rsorted t)"

section \<open>Filter and projection\<close>

definition keep_row :: "expr \<Rightarrow> row \<Rightarrow> bool res" where
  "keep_row cond row = rbind (evaluate cond row) (\<lambda>v. Inr (to_bool v))"

fun project_row :: "(string \<times> expr) list \<Rightarrow> row \<Rightarrow> row \<Rightarrow> row res" where
  "project_row [] row result = Inr result"
| "project_row ((a, e) # cols) row result =
     (if a = ''*'' \<and> e = StarExpr then project_row cols row (put_all (\<lambda>k. k) (visible row) result)
      else rbind (evaluate e row) (\<lambda>v. project_row cols row (dict_set a v result)))"

section \<open>Aggregation\<close>

datatype agg_state = NoState | Acc pval | SumCount pval int

definition or_zero :: "pval \<Rightarrow> pval" where
  "or_zero v = (if py_truth v then v else PInt 0)"

definition accumulate :: "string \<Rightarrow> agg_state \<Rightarrow> pval \<Rightarrow> agg_state res" where
  "accumulate func state val =
     (if func = ''COUNT'' then
        (case state of
           NoState \<Rightarrow> Inr (Acc (PInt 1))
         | Acc v \<Rightarrow> rbind (py_add (or_zero v) (PInt 1)) (\<lambda>w. Inr (Acc w))
         | SumCount _ _ \<Rightarrow> Inl TypeError)
      else if func = ''SUM'' then
        (if val = PNone then Inr state
         else case state of
           NoState \<Rightarrow> rbind (py_add (PInt 0) val) (\<lambda>w. Inr (Acc w))
         | Acc v \<Rightarrow> rbind (py_add (or_zero v) val) (\<lambda>w. Inr (Acc w))
         | SumCount _ _ \<Rightarrow> Inl TypeError)
      else if func = ''AVG'' then
        (case state of
           NoState \<Rightarrow> if val = PNone then Inr (SumCount (PInt 0) 0)
             else rbind (py_add (PInt 0) val) (\<lambda>w. Inr (SumCount w 1))
         | SumCount v n \<Rightarrow> if val = PNone then Inr state
             else rbind (py_add v val) (\<lambda>w. Inr (SumCount w (n + 1)))
         | Acc _ \<Rightarrow> Inl TypeError)
      else Inl ValueError)"

definition finalize :: "string \<Rightarrow> agg_state \<Rightarrow> pval res" where
  "finalize func state = (case state of
     NoState \<Rightarrow> Inr PNone
   | Acc v \<Rightarrow> if func = ''AVG'' then Inl TypeError else Inr v
   | SumCount v n \<Rightarrow> if func = ''AVG'' then (if n = 0 then Inr PNone else py_truediv v (PInt n))
       else Inl TypeError)"

type_synonym aggregation = "string \<times> string \<times> expr"

definition step_agg :: "row \<Rightarrow> aggregation \<Rightarrow> agg_state \<Rightarrow> agg_state res" where
  "step_agg row agg state = (case agg of (a, func, arg) \<Rightarrow>
     if func = ''VALUE'' then Inr (Acc (row_get row a))
     else rbind (evaluate arg row) (accumulate func state))"

type_synonym groups = "agg_state list key_table"

definition group_row :: "expr list \<Rightarrow> aggregation list \<Rightarrow> row \<Rightarrow> groups \<Rightarrow> groups res" where
  "group_row gkeys aggs row gs =
     rbind (rmap (\<lambda>k. evaluate k row) gkeys) (\<lambda>key.
     let states = (case table_get_key key gs of Some st \<Rightarrow> st | None \<Rightarrow> replicate (length aggs) NoState) in
     rbind (rmap (\<lambda>(agg, st). step_agg row agg st) (zip aggs states)) (\<lambda>states'.
       Inr (table_put_key key states' gs)))"

definition key_cols :: "expr list \<Rightarrow> pval list \<Rightarrow> row" where
  "key_cols gkeys key =
     fold (\<lambda>(e, v) result. case e of ColumnRef name t \<Rightarrow> dict_set name v result | _ \<Rightarrow> result) (zip gkeys key) []"

fun finish_aggs :: "(aggregation \<times> agg_state) list \<Rightarrow> row \<Rightarrow> row res" where
  "finish_aggs [] result = Inr result"
| "finish_aggs (((a, func, e), st) # rest) result =
     rbind (if func = ''VALUE'' then Inr (case st of Acc v \<Rightarrow> v | _ \<Rightarrow> PNone) else finalize func st)
       (\<lambda>v. finish_aggs rest (dict_set a v result))"

definition finish_group :: "expr list \<Rightarrow> aggregation list \<Rightarrow> pval list \<times> agg_state list \<Rightarrow> row res" where
  "finish_group gkeys aggs g = finish_aggs (zip aggs (snd g)) (key_cols gkeys (fst g))"

definition aggregate_rows :: "expr list \<Rightarrow> aggregation list \<Rightarrow> 's rows \<Rightarrow> 's rows" where
  "aggregate_rows gkeys aggs source s =
     (case for_each (\<lambda>row gs. slift (group_row gkeys aggs row gs)) (source s) [] of
        (Inl e, t) \<Rightarrow> Raise e t
      | (Inr gs, t) \<Rightarrow> gmap (finish_group gkeys aggs) (of_list gs t))"

section \<open>Sort\<close>

definition null_first_key :: "pval \<Rightarrow> pval list" where
  "null_first_key v = [PInt (if v = PNone then 0 else 1), if v \<noteq> PNone then v else PInt 0]"

text \<open>All keys are computed before the sort starts.\<close>

definition sort_pass :: "expr \<Rightarrow> bool \<Rightarrow> row list \<Rightarrow> row list res" where
  "sort_pass e desc rows =
     rbind (rmap (evaluate e) rows) (\<lambda>vs.
     rbind (py_sort (\<lambda>(r, v). null_first_key v) desc (zip rows vs)) (\<lambda>out. Inr (map fst out)))"

fun sort_passes :: "(expr \<times> string) list \<Rightarrow> row list \<Rightarrow> row list res" where
  "sort_passes [] rows = Inr rows"
| "sort_passes ((e, dir) # keys) rows = rbind (sort_passes keys rows) (sort_pass e (dir = ''DESC''))"

definition sort_rows :: "(expr \<times> string) list \<Rightarrow> 's rows \<Rightarrow> 's rows" where
  "sort_rows keys source s = (case to_list source s of
     (Inl e, t) \<Rightarrow> Raise e t
   | (Inr rows, t) \<Rightarrow> (case sort_passes keys rows of Inl e \<Rightarrow> Raise e t | Inr out \<Rightarrow> of_list out t))"

section \<open>Operator trees\<close>

datatype operator =
    ScanOperator Table
  | NestedLoopJoinOperator operator operator join_spec
  | HashJoinOperator operator operator join_spec
  | SortMergeJoinOperator operator operator join_spec
  | FilterOperator operator expr
  | ProjectOperator operator "(string \<times> expr) list"
  | AggregateOperator operator "expr list" "aggregation list"
  | SortOperator operator "(expr \<times> string) list"
  | LimitOperator operator "nat option" nat

definition row_dict :: "string list \<Rightarrow> pval list \<Rightarrow> row" where
  "row_dict names values = fold (\<lambda>(k, v). dict_set k v) (zip names values) []"

definition scan_row :: "Table \<Rightarrow> RowId \<times> pval list \<Rightarrow> row" where
  "scan_row tbl rv = fold (\<lambda>(k, v). dict_set k v) (row_dict (map col_name (tbl_columns tbl)) (snd rv))
     [(''_rowid'', PRowId (rid_page_id (fst rv)) (rid_slot_index (fst rv)))]"

fun op_rows :: "'s pool_ops \<Rightarrow> operator \<Rightarrow> 's rows" where
  "op_rows ops (ScanOperator tbl) s = gmap (\<lambda>rv. Inr (scan_row tbl rv)) (table_rows ops tbl s)"
| "op_rows ops (NestedLoopJoinOperator l r j) s = nested_loop_join j (op_rows ops l) (op_rows ops r) s"
| "op_rows ops (HashJoinOperator l r j) s = hash_join j (op_rows ops l) (op_rows ops r) s"
| "op_rows ops (SortMergeJoinOperator l r j) s = sort_merge_join j (op_rows ops l) (op_rows ops r) s"
| "op_rows ops (FilterOperator src cond) s = gfilter (keep_row cond) (op_rows ops src s)"
| "op_rows ops (ProjectOperator src cols) s = gmap (\<lambda>row. project_row cols row []) (op_rows ops src s)"
| "op_rows ops (AggregateOperator src gkeys aggs) s = aggregate_rows gkeys aggs (op_rows ops src) s"
| "op_rows ops (SortOperator src keys) s = sort_rows keys (op_rows ops src) s"
| "op_rows ops (LimitOperator src n offset) s = glimit (op_rows ops src s) offset n"

end
