(* ===== verification/Query_Algebra.thy ===== *)
theory Query_Algebra
  imports Operators
begin

text \<open>
  What the operators compute: a reference semantics of operator trees on lists of rows, and the proof
  that the lazy operators hand out exactly the rows of the reference, however the storage changes
  between two rows as long as the tables keep their contents.
\<close>

section \<open>Generators with known rows\<close>

text \<open>
  \<open>streams I ev rs\<close>: the event and all that follows hand out \<open>rs\<close>, never raise and keep \<open>I\<close>, also when
  the state changes within \<open>I\<close> while the generator is suspended.
\<close>

primrec streams :: "('s \<Rightarrow> bool) \<Rightarrow> ('s, 'r) event \<Rightarrow> 'r list \<Rightarrow> bool" where
  "streams I (Raise e s) rs = False"
| "streams I (Stop s) rs = (I s \<and> rs = [])"
| "streams I (Yield r s g) rs = (I s \<and> rs \<noteq> [] \<and> hd rs = r \<and> (\<forall>t. I t \<longrightarrow> streams I (g t) (tl rs)))"

definition source :: "('s \<Rightarrow> bool) \<Rightarrow> ('s, 'r) gen \<Rightarrow> 'r list \<Rightarrow> bool" where
  "source I g rs \<longleftrightarrow> (\<forall>s. I s \<longrightarrow> streams I (g s) rs)"

lemma sourceD: "source I g rs \<Longrightarrow> I s \<Longrightarrow> streams I (g s) rs"
  by (simp add: source_def)

lemma streams_YieldE:
  assumes "streams I (Yield r s g) rs"
  obtains rs' where "I s" "rs = r # rs'" "source I g rs'"
  using assms by (cases rs) (auto simp: source_def)

lemma streams_state: "streams I ev rs \<Longrightarrow> (case ev of Raise e s \<Rightarrow> False | Stop s \<Rightarrow> I s | Yield r s g \<Rightarrow> I s)"
  by (cases ev) auto

lemma streams_drain: "streams I ev rs \<Longrightarrow> \<exists>t. drain ev = (Inr rs, t) \<and> I t"
proof (induction ev arbitrary: rs)
  case (Yield r s g)
  obtain rs' where "I s" "rs = r # rs'" "source I g rs'" using Yield.prems by (rule streams_YieldE)
  moreover from this have "streams I (g s) rs'" by (simp add: source_def)
  ultimately show ?case using Yield.IH [of "g s" rs'] by auto
qed auto

lemma source_to_list: "source I g rs \<Longrightarrow> I s \<Longrightarrow> \<exists>t. to_list g s = (Inr rs, t) \<and> I t"
  by (simp add: source_def to_list_def streams_drain)

lemma streams_of_list [simp]: "I s \<Longrightarrow> streams I (of_list rs s) rs"
  by (induction rs arbitrary: s) auto

lemma streams_gfilter:
  assumes "streams I ev rs" and "\<And>r. r \<in> set rs \<Longrightarrow> keep r = Inr (P r)"
  shows "streams I (gfilter keep ev) (filter P rs)"
  using assms
proof (induction ev arbitrary: rs)
  case (Yield r s g)
  obtain rs' where rs: "I s" "rs = r # rs'" "source I g rs'" using Yield.prems(1) by (rule streams_YieldE)
  have ih: "streams I (gfilter keep (g t)) (filter P rs')" if "I t" for t
    using Yield.IH [of "g t" rs'] rs Yield.prems(2) that by (auto simp: source_def)
  show ?case using Yield.prems(2) [of r] rs ih by (cases "P r") (auto simp: source_def)
qed auto

lemma streams_gmap:
  assumes "streams I ev rs" and "rmap f rs = Inr qs"
  shows "streams I (gmap f ev) qs"
  using assms
proof (induction ev arbitrary: rs qs)
  case (Yield r s g)
  obtain rs' where rs: "I s" "rs = r # rs'" "source I g rs'" using Yield.prems(1) by (rule streams_YieldE)
  with Yield.prems(2) obtain q qs' where q: "f r = Inr q" "rmap f rs' = Inr qs'" "qs = q # qs'" by auto
  have ih: "streams I (gmap f (g t)) qs'" if "I t" for t
    using Yield.IH [of "g t" rs' qs'] rs q that by (auto simp: source_def)
  show ?case using rs q ih by simp
qed auto

lemma streams_glimit:
  assumes "streams I ev rs"
  shows "streams I (glimit ev k n) (case n of None \<Rightarrow> drop k rs | Some m \<Rightarrow> take m (drop k rs))"
  using assms
proof (induction ev arbitrary: rs k n)
  case (Yield r s g)
  obtain rs' where rs: "I s" "rs = r # rs'" "source I g rs'" using Yield.prems(1) by (rule streams_YieldE)
  have ih: "streams I (glimit (g t) k n) (case n of None \<Rightarrow> drop k rs' | Some m \<Rightarrow> take m (drop k rs'))"
    if "I t" for t k n
    using Yield.IH [of "g t" rs'] rs that by (auto simp: source_def)
  show ?case
  proof (cases k)
    case (Suc k')
    show ?thesis using ih [OF rs(1), of k' n] unfolding Suc rs(2) by (cases n) simp_all
  next
    case 0
    note ih0 = ih [of _ 0]
    show ?thesis
    proof (cases n)
      case None
      show ?thesis using ih0 [of _ None] rs(1) unfolding 0 None rs(2) by simp
    next
      case (Some m)
      show ?thesis
      proof (cases m)
        case (Suc m')
        show ?thesis using ih0 [of _ "Some m'"] rs(1) unfolding 0 Some Suc rs(2) by simp
      qed (use rs 0 Some in simp)
    qed
  qed
qed (auto split: option.splits)

lemma streams_then_gen:
  assumes "source I k qs"
  shows "I s \<Longrightarrow> streams I (then_gen rs k s) (rs @ qs)"
  using assms by (induction rs arbitrary: s) (auto simp: source_def)

text \<open>A loop whose body does not touch the state is a fold.\<close>

lemma streams_for_each:
  assumes "streams I ev rs" and "rfold f rs acc = Inr out"
  shows "\<exists>t. for_each (\<lambda>r acc. slift (f r acc)) ev acc = (Inr out, t) \<and> I t"
  using assms
proof (induction ev arbitrary: rs acc)
  case (Yield r s g)
  obtain rs' where rs: "I s" "rs = r # rs'" "source I g rs'" using Yield.prems(1) by (rule streams_YieldE)
  with Yield.prems(2) obtain acc' where a: "f r acc = Inr acc'" "rfold f rs' acc' = Inr out" by auto
  have "streams I (g s) rs'" using rs by (simp add: source_def)
  from Yield.IH [OF rangeI this a(2)] show ?case using a(1) by simp
qed auto

section \<open>Joins\<close>

text \<open>
  The reference join for a matching relation \<open>M\<close>: for every left row its partners in order, or a row
  padded with NULLs; then, padded, the right rows that no left row matches.
\<close>

definition join_block :: "join_spec \<Rightarrow> (row \<Rightarrow> row \<Rightarrow> bool) \<Rightarrow> row list \<Rightarrow> row \<Rightarrow> row list" where
  "join_block j M rs l =
     (let ms = filter (M l) rs in
      if ms = [] \<and> keeps_left j then [combine_with_nulls j (Some l) None] else map (combine_rows j l) ms)"

definition join_rows :: "join_spec \<Rightarrow> (row \<Rightarrow> row \<Rightarrow> bool) \<Rightarrow> row list \<Rightarrow> row list \<Rightarrow> row list" where
  "join_rows j M ls rs =
     concat (map (join_block j M rs) ls) @
     (if keeps_right j
      then map (\<lambda>r. combine_with_nulls j None (Some r)) (filter (\<lambda>r. \<forall>l \<in> set ls. \<not> M l r) rs) else [])"

lemma join_rows_cong:
  assumes "\<And>l r. l \<in> set ls \<Longrightarrow> r \<in> set rs \<Longrightarrow> M l r = M' l r"
  shows "join_rows j M ls rs = join_rows j M' ls rs"
proof -
  have "join_block j M rs l = join_block j M' rs l" if "l \<in> set ls" for l
    using assms that by (auto simp: join_block_def Let_def cong: filter_cong)
  then have "map (join_block j M rs) ls = map (join_block j M' rs) ls" by simp
  moreover have "filter (\<lambda>r. \<forall>l \<in> set ls. \<not> M l r) rs = filter (\<lambda>r. \<forall>l \<in> set ls. \<not> M' l r) rs"
    using assms by (auto intro: filter_cong)
  ultimately show ?thesis unfolding join_rows_def by metis
qed

definition positions :: "('r \<Rightarrow> bool) \<Rightarrow> 'r list \<Rightarrow> nat set" where
  "positions P rs = {i. i < length rs \<and> P (rs ! i)}"

lemma positions_simps [simp]:
  "positions P [] = {}"
  "positions P (r # rs) = (if P r then {0} else {}) \<union> Suc ` positions P rs"
  by (auto simp: positions_def less_Suc_eq_0_disj image_iff)

lemma positions_False [simp]: "positions (\<lambda>r. False) rs = {}"
  by (simp add: positions_def)

lemma unmatched_positions:
  "unmatched_right j rs (positions P rs) =
     (if keeps_right j then map (\<lambda>r. combine_with_nulls j None (Some r)) (filter (\<lambda>r. \<not> P r) rs) else [])"
proof -
  have "map (\<lambda>(i, r). f r) (filter (\<lambda>(i, r). i \<notin> (+) n ` positions P rs) (enumerate n rs))
      = map f (filter (\<lambda>r. \<not> P r) rs)" for n and f :: "row \<Rightarrow> row"
  proof (induction rs arbitrary: n)
    case (Cons r rs)
    have eq: "(i \<in> (+) n ` positions P (r # rs)) = (i \<in> (+) (Suc n) ` positions P rs)" if "Suc n \<le> i" for i
      using that by (auto simp: image_iff)
    have "filter (\<lambda>(i, r'). i \<notin> (+) n ` positions P (r # rs)) (enumerate (Suc n) rs)
        = filter (\<lambda>(i, r'). i \<notin> (+) (Suc n) ` positions P rs) (enumerate (Suc n) rs)"
      by (rule filter_cong) (clarsimp simp: in_set_enumerate_eq eq simp del: positions_simps)+
    moreover have "n \<notin> (+) n ` positions P (r # rs) \<longleftrightarrow> \<not> P r" by auto
    ultimately show ?case using Cons [of "Suc n"] by (simp del: positions_simps)
  qed simp
  from this [of _ 0] show ?thesis by (simp add: unmatched_right_def)
qed

lemma streams_nl_inner:
  assumes "streams I ev rs" and "\<And>r. r \<in> set rs \<Longrightarrow> rows_match j l r = Inr (M r)"
    and "source I (k (matched \<or> (\<exists>r \<in> set rs. M r)) (ms \<union> (+) i ` positions M rs)) qs"
  shows "streams I (nl_inner j l ev i matched ms k) (map (combine_rows j l) (filter M rs) @ qs)"
  using assms
proof (induction ev arbitrary: rs i matched ms)
  case (Yield r s g)
  obtain rs' where rs: "I s" "rs = r # rs'" "source I g rs'" using Yield.prems(1) by (rule streams_YieldE)
  have sh: "(+) i ` Suc ` positions M rs' = (+) (Suc i) ` positions M rs'" by (auto simp: image_iff)
  have ih: "streams I (nl_inner j l (g t) (Suc i) m' ms' k) (map (combine_rows j l) (filter M rs') @ qs)"
    if "I t" "source I (k (m' \<or> (\<exists>r \<in> set rs'. M r)) (ms' \<union> (+) (Suc i) ` positions M rs')) qs" for t m' ms'
    using Yield.IH [of "g t" rs' m' ms' "Suc i"] rs Yield.prems(2) that by (auto simp: source_def)
  show ?case
  proof (cases "M r")
    case True
    have "source I (k (True \<or> (\<exists>r \<in> set rs'. M r)) (insert i ms \<union> (+) (Suc i) ` positions M rs')) qs"
      using Yield.prems(3) True rs(2) by (simp add: image_Un sh)
    then show ?thesis using ih Yield.prems(2) [of r] True rs by simp
  next
    case False
    have "source I (k (matched \<or> (\<exists>r \<in> set rs'. M r)) (ms \<union> (+) (Suc i) ` positions M rs')) qs"
      using Yield.prems(3) False rs(2) by (simp add: sh)
    then show ?thesis using ih [OF rs(1)] Yield.prems(2) [of r] False rs by simp
  qed
qed (auto simp: source_def)

lemma streams_nl_outer:
  assumes "streams I ev ls" and "source I right rs"
    and "\<And>l r. l \<in> set ls \<Longrightarrow> r \<in> set rs \<Longrightarrow> rows_match j l r = Inr (M l r)"
    and "source I (after (ms \<union> positions (\<lambda>r. \<exists>l \<in> set ls. M l r) rs)) qs"
  shows "streams I (nl_outer j right after ev ms) (concat (map (join_block j M rs) ls) @ qs)"
  using assms
proof (induction ev arbitrary: ls ms)
  case (Yield l s g)
  obtain ls' where ls: "I s" "ls = l # ls'" "source I g ls'" using Yield.prems(1) by (rule streams_YieldE)
  let ?ms = "ms \<union> positions (M l) rs"
  have p: "positions (\<lambda>r. \<exists>x \<in> set ls. M x r) rs = positions (M l) rs \<union> positions (\<lambda>r. \<exists>x \<in> set ls'. M x r) rs"
    using ls(2) by (auto simp: positions_def)
  have rest: "streams I (nl_outer j right after (g t) ?ms) (concat (map (join_block j M rs) ls') @ qs)" if "I t" for t
    using Yield.IH [of "g t" ls' ?ms] ls Yield.prems p that by (auto simp: source_def Un_assoc)
  let ?tail = "(if filter (M l) rs = [] \<and> keeps_left j then [combine_with_nulls j (Some l) None] else []) @
      concat (map (join_block j M rs) ls') @ qs"
  let ?k = "\<lambda>matched ms' t.
       if \<not> matched \<and> keeps_left j
       then Yield (combine_with_nulls j (Some l) None) t (\<lambda>u. nl_outer j right after (g u) ms')
       else nl_outer j right after (g t) ms'"
  have k: "source I (?k (False \<or> (\<exists>r \<in> set rs. M l r)) (ms \<union> (+) 0 ` positions (M l) rs)) ?tail"
    using rest by (auto simp: source_def filter_empty_conv)
  have m: "rows_match j l r = Inr (M l r)" if "r \<in> set rs" for r using Yield.prems(3) that ls(2) by simp
  have "streams I (right s) rs" using Yield.prems(2) ls(1) by (simp add: source_def)
  from this m k
  have "streams I (nl_inner j l (right s) 0 False ms ?k) (map (combine_rows j l) (filter (M l) rs) @ ?tail)"
    by (rule streams_nl_inner)
  moreover have "map (combine_rows j l) (filter (M l) rs) @ ?tail = concat (map (join_block j M rs) ls) @ qs"
    using ls(2) by (auto simp: join_block_def [of j M rs l] Let_def)
  ultimately show ?case by simp
qed (auto simp: source_def)

lemma source_nested_loop_join:
  assumes "source I left ls" and "source I right rs"
    and m: "\<And>l r. l \<in> set ls \<Longrightarrow> r \<in> set rs \<Longrightarrow> rows_match j l r = Inr (M l r)"
  shows "source I (nested_loop_join j left right) (join_rows j M ls rs)"
  unfolding source_def
proof (intro allI impI)
  fix s assume s: "I s"
  let ?P = "\<lambda>r. \<exists>l \<in> set ls. M l r"
  show "streams I (nested_loop_join j left right s) (join_rows j M ls rs)"
  proof (cases "keeps_right j")
    case True
    obtain t where t: "to_list right s = (Inr rs, t)" "I t" using source_to_list [OF assms(2) s] by blast
    have "source I (of_list (unmatched_right j rs ({} \<union> positions ?P rs))) (unmatched_right j rs (positions ?P rs))"
      by (simp add: source_def)
    with streams_nl_outer [OF sourceD [OF assms(1) t(2)] _ m, of "of_list rs" rs
        "\<lambda>ms. of_list (unmatched_right j rs ms)" "{}"]
    have "streams I (nl_outer j (of_list rs) (\<lambda>ms. of_list (unmatched_right j rs ms)) (left t) {})
        (concat (map (join_block j M rs) ls) @ unmatched_right j rs (positions ?P rs))"
      by (simp add: source_def)
    then show ?thesis using True t by (simp add: nested_loop_join_def join_rows_def unmatched_positions)
  next
    case False
    have "source I Stop ([] :: row list)" by (simp add: source_def)
    then show ?thesis
      using False streams_nl_outer [OF sourceD [OF assms(1) s] assms(2) m, of "\<lambda>ms. Stop" "{}" "[]"]
      by (simp add: nested_loop_join_def join_rows_def)
  qed
qed

section \<open>Hash tables keyed by tuples\<close>

lemma keys_eq_sym: "keys_eq a b = keys_eq b a"
  by (auto simp: keys_eq_def list_all2_conv_all_nth py_eq_sym)

lemma keys_eq_trans: "keys_eq a b \<Longrightarrow> keys_eq b c \<Longrightarrow> keys_eq a c"
  unfolding keys_eq_def by (rule list_all2_trans [of py_eq py_eq py_eq]) (auto intro: py_eq_trans)

lemma keys_eq_left: "keys_eq a b \<Longrightarrow> keys_eq a c = keys_eq b c"
  by (meson keys_eq_sym keys_eq_trans)

lemma keys_eq_right: "keys_eq a b \<Longrightarrow> keys_eq c a = keys_eq c b"
  by (meson keys_eq_sym keys_eq_trans)

lemma table_get_cong: "keys_eq a b \<Longrightarrow> table_get_key a t = table_get_key b t"
  by (induction a t rule: table_get_key.induct) (auto simp: keys_eq_right)

lemma table_get_put:
  "table_get_key k (table_put_key k1 x t) = (if keys_eq k1 k then Some x else table_get_key k t)"
proof (induction k1 x t rule: table_put_key.induct)
  case (2 k1 x k' y ys)
  then show ?case using keys_eq_left [of k' k1 k] keys_eq_right [of k1 k k'] by auto
qed simp

text \<open>A table of buckets holds, under each key, the entries with that key in order of arrival.\<close>

definition bucket :: "('x \<Rightarrow> pval list) \<Rightarrow> 'x list \<Rightarrow> pval list \<Rightarrow> 'x list option" where
  "bucket key xs k = (let b = filter (\<lambda>x. keys_eq (key x) k) xs in if b = [] then None else Some b)"

lemma build_table_get: "table_get_key k (build_table j rows) = bucket (\<lambda>ir. right_key j (snd ir)) (enumerate 0 rows) k"
proof -
  have "table_get_key k (fold (add_bucket j) xs []) = bucket (\<lambda>ir. right_key j (snd ir)) xs k" for xs k
  proof (induction xs arbitrary: k rule: rev_induct)
    case (snoc x xs)
    let ?k = "right_key j (snd x)"
    have "table_get_key ?k (fold (add_bucket j) xs []) = bucket (\<lambda>ir. right_key j (snd ir)) xs ?k" by (rule snoc)
    then have "table_get_key k (add_bucket j x (fold (add_bucket j) xs [])) =
        (if keys_eq ?k k then Some (filter (\<lambda>y. keys_eq (right_key j (snd y)) ?k) xs @ [x])
         else table_get_key k (fold (add_bucket j) xs []))"
      by (auto simp: add_bucket_def Let_def table_get_put bucket_def)
    moreover have "filter (\<lambda>y. keys_eq (right_key j (snd y)) ?k) xs = filter (\<lambda>y. keys_eq (right_key j (snd y)) k) xs"
      if "keys_eq ?k k" using keys_eq_right [OF that] by simp
    ultimately show ?case by (auto simp: snoc bucket_def Let_def)
  qed (simp add: bucket_def)
  then show ?thesis by (simp add: build_table_def)
qed

definition hash_match :: "join_spec \<Rightarrow> row \<Rightarrow> row \<Rightarrow> bool" where
  "hash_match j l r \<longleftrightarrow> keys_eq (right_key j r) (left_key j l)"

lemma filter_enumerate:
  "map snd (filter (\<lambda>ir. P (snd ir)) (enumerate n rs)) = filter P rs"
  "fst ` set (filter (\<lambda>ir. P (snd ir)) (enumerate n rs)) = (+) n ` positions P rs"
  by (induction rs arbitrary: n) (auto simp: image_iff)

lemma streams_hash_probe:
  assumes "streams I ev ls" and "source I (after (ms \<union> positions (\<lambda>r. \<exists>l \<in> set ls. hash_match j l r) rs)) qs"
  shows "streams I (hash_probe j (build_table j rs) after ev ms)
    (concat (map (join_block j (hash_match j) rs) ls) @ qs)"
  using assms
proof (induction ev arbitrary: ls ms)
  case (Yield l s g)
  obtain ls' where ls: "I s" "ls = l # ls'" "source I g ls'" using Yield.prems(1) by (rule streams_YieldE)
  let ?M = "hash_match j" and ?t = "build_table j rs"
  let ?b = "filter (\<lambda>ir. ?M l (snd ir)) (enumerate 0 rs)"
  note fe = filter_enumerate [of "?M l" 0 rs]
  have p: "positions (\<lambda>r. \<exists>x \<in> set ls. ?M x r) rs = positions (?M l) rs \<union> positions (\<lambda>r. \<exists>x \<in> set ls'. ?M x r) rs"
    using ls(2) by (auto simp: positions_def)
  have rest: "source I (\<lambda>t. hash_probe j ?t after (g t) (ms \<union> positions (?M l) rs))
      (concat (map (join_block j ?M rs) ls') @ qs)"
    unfolding source_def
    using Yield.IH [of "g _" ls' "ms \<union> positions (?M l) rs"] ls Yield.prems p by (auto simp: source_def Un_assoc)
  have get: "table_get_key (left_key j l) ?t = (if ?b = [] then None else Some ?b)"
    by (simp add: build_table_get bucket_def hash_match_def Let_def)
  show ?case
  proof (cases "?b = []")
    case True
    then have e: "filter (?M l) rs = []" "positions (?M l) rs = {}" using fe by auto
    show ?thesis using get True e rest ls by (auto simp: join_block_def [of j ?M rs l] source_def)
  next
    case False
    then have e: "filter (?M l) rs \<noteq> []" using fe(1) by (metis map_is_Nil_conv)
    have "map (\<lambda>(i, r). combine_rows j l r) ?b = map (combine_rows j l) (filter (?M l) rs)"
      unfolding fe(1) [symmetric] by (simp add: case_prod_beta' comp_def)
    then show ?thesis
      using get False e streams_then_gen [OF rest ls(1)] ls(2) fe(2) by (simp add: join_block_def [of j ?M rs l] Let_def)
  qed
qed (auto simp: source_def)

lemma source_hash_join:
  assumes "source I left ls" and "source I right rs"
  shows "source I (hash_join j left right) (join_rows j (hash_match j) ls rs)"
  unfolding source_def
proof (intro allI impI)
  fix s assume s: "I s"
  let ?P = "\<lambda>r. \<exists>l \<in> set ls. hash_match j l r"
  obtain t where t: "to_list right s = (Inr rs, t)" "I t" using source_to_list [OF assms(2) s] by blast
  have "source I (of_list (unmatched_right j rs ({} \<union> positions ?P rs))) (unmatched_right j rs (positions ?P rs))"
    by (simp add: source_def)
  with streams_hash_probe [OF sourceD [OF assms(1) t(2)],
      of "\<lambda>ms. of_list (unmatched_right j rs ms)" "{}" j rs "unmatched_right j rs (positions ?P rs)"]
  show "streams I (hash_join j left right s) (join_rows j (hash_match j) ls rs)"
    using t by (cases "keeps_right j") (simp_all add: hash_join_def join_rows_def unmatched_positions)
qed

section \<open>Reference semantics of operator trees\<close>

text \<open>
  \<open>T tbl\<close> are the rows of a table. The reference is partial: it has no value where evaluating some
  row raises, and for the sort-merge join, which the planner never chooses.
\<close>

definition rjoin_check :: "join_spec \<Rightarrow> row list \<Rightarrow> row list \<Rightarrow> bool list list res" where
  "rjoin_check j ls rs = rmap (\<lambda>l. rmap (rows_match j l) rs) ls"

definition on_match :: "join_spec \<Rightarrow> row \<Rightarrow> row \<Rightarrow> bool" where
  "on_match j l r \<longleftrightarrow> rows_match j l r = Inr True"

fun op_sem :: "(Table \<Rightarrow> (RowId \<times> pval list) list) \<Rightarrow> operator \<Rightarrow> row list res" where
  "op_sem T (ScanOperator tbl) = Inr (map (scan_row tbl) (T tbl))"
| "op_sem T (NestedLoopJoinOperator l r j) =
     rbind (op_sem T l) (\<lambda>ls. rbind (op_sem T r) (\<lambda>rs.
     rbind (rjoin_check j ls rs) (\<lambda>_. Inr (join_rows j (on_match j) ls rs))))"
| "op_sem T (HashJoinOperator l r j) =
     rbind (op_sem T l) (\<lambda>ls. rbind (op_sem T r) (\<lambda>rs. Inr (join_rows j (hash_match j) ls rs)))"
| "op_sem T (SortMergeJoinOperator l r j) = Inl NotImplementedError"
| "op_sem T (FilterOperator src cond) = rbind (op_sem T src) (rfilter (keep_row cond))"
| "op_sem T (ProjectOperator src cols) = rbind (op_sem T src) (rmap (\<lambda>row. project_row cols row []))"
| "op_sem T (AggregateOperator src gkeys aggs) =
     rbind (op_sem T src) (\<lambda>rs. rbind (rfold (group_row gkeys aggs) rs []) (rmap (finish_group gkeys aggs)))"
| "op_sem T (SortOperator src keys) = rbind (op_sem T src) (sort_passes keys)"
| "op_sem T (LimitOperator src n offset) =
     rbind (op_sem T src) (\<lambda>rs. Inr (case n of None \<Rightarrow> drop offset rs | Some m \<Rightarrow> take m (drop offset rs)))"

fun op_tables :: "operator \<Rightarrow> Table set" where
  "op_tables (ScanOperator tbl) = {tbl}"
| "op_tables (NestedLoopJoinOperator l r j) = op_tables l \<union> op_tables r"
| "op_tables (HashJoinOperator l r j) = op_tables l \<union> op_tables r"
| "op_tables (SortMergeJoinOperator l r j) = op_tables l \<union> op_tables r"
| "op_tables (FilterOperator src cond) = op_tables src"
| "op_tables (ProjectOperator src cols) = op_tables src"
| "op_tables (AggregateOperator src gkeys aggs) = op_tables src"
| "op_tables (SortOperator src keys) = op_tables src"
| "op_tables (LimitOperator src n offset) = op_tables src"

lemma rjoin_check_match:
  assumes "rjoin_check j ls rs = Inr u" and "l \<in> set ls" and "r \<in> set rs"
  shows "rows_match j l r = Inr (on_match j l r)"
proof -
  have "\<exists>b. rmap (rows_match j l) rs = Inr b"
    using assms(1,2) unfolding rjoin_check_def rmap_Inr_iff
    by (auto simp: list_all2_conv_all_nth in_set_conv_nth)
  then have "\<exists>b. rows_match j l r = Inr b"
    using assms(3) by (auto simp: rmap_Inr_iff list_all2_conv_all_nth in_set_conv_nth)
  then show ?thesis by (auto simp: on_match_def)
qed

lemma source_gmap: "source I g rs \<Longrightarrow> rmap f rs = Inr qs \<Longrightarrow> source I (\<lambda>s. gmap f (g s)) qs"
  unfolding source_def by (blast intro: streams_gmap)

text \<open>Every operator tree hands out the rows of its reference, if every table does.\<close>

lemma op_rows_source:
  assumes "\<And>tbl. tbl \<in> op_tables op \<Longrightarrow> source I (table_rows ops tbl) (T tbl)" and "op_sem T op = Inr rs"
  shows "source I (op_rows ops op) rs"
  using assms
proof (induction op arbitrary: rs)
  case (ScanOperator tbl)
  have "rmap (\<lambda>rv. Inr (scan_row tbl rv)) (T tbl) = Inr (map (scan_row tbl) (T tbl))" by (simp add: rmap_total)
  from source_gmap [OF _ this, of I "table_rows ops tbl"] ScanOperator show ?case by simp
next
  case (NestedLoopJoinOperator l r j)
  from NestedLoopJoinOperator.prems(2) obtain ls rs' u where e: "op_sem T l = Inr ls" "op_sem T r = Inr rs'"
    "rjoin_check j ls rs' = Inr u" "rs = join_rows j (on_match j) ls rs'" by auto
  have "source I (op_rows ops l) ls" "source I (op_rows ops r) rs'"
    using NestedLoopJoinOperator e(1,2) by simp_all
  from source_nested_loop_join [OF this rjoin_check_match [OF e(3)]] e(4) show ?case by (simp add: source_def)
next
  case (HashJoinOperator l r j)
  from HashJoinOperator.prems(2) obtain ls rs' where e: "op_sem T l = Inr ls" "op_sem T r = Inr rs'"
    "rs = join_rows j (hash_match j) ls rs'" by auto
  have "source I (op_rows ops l) ls" "source I (op_rows ops r) rs'"
    using HashJoinOperator e(1,2) by simp_all
  from source_hash_join [OF this] e(3) show ?case by (simp add: source_def)
next
  case (FilterOperator src cond)
  from FilterOperator.prems(2) obtain rs' where e: "op_sem T src = Inr rs'" "rfilter (keep_row cond) rs' = Inr rs"
    by auto
  obtain P where P: "rs = filter P rs'" "\<And>r. r \<in> set rs' \<Longrightarrow> keep_row cond r = Inr (P r)"
    using rfilter_eq [OF e(2)] by metis
  have "source I (op_rows ops src) rs'" using FilterOperator e(1) by simp
  then show ?case using P by (simp add: source_def streams_gfilter)
next
  case (ProjectOperator src cols)
  then show ?case by (auto simp: source_def intro: streams_gmap)
next
  case (AggregateOperator src gkeys aggs)
  from AggregateOperator.prems(2) obtain rs' gs where e: "op_sem T src = Inr rs'"
    "rfold (group_row gkeys aggs) rs' [] = Inr gs" "rmap (finish_group gkeys aggs) gs = Inr rs" by auto
  have src: "source I (op_rows ops src) rs'" using AggregateOperator e(1) by simp
  show ?case unfolding source_def
  proof (intro allI impI)
    fix s assume "I s"
    from streams_for_each [OF sourceD [OF src this] e(2)] obtain t where
      t: "for_each (\<lambda>r acc. slift (group_row gkeys aggs r acc)) (op_rows ops src s) [] = (Inr gs, t)" "I t" by blast
    then show "streams I (op_rows ops (AggregateOperator src gkeys aggs) s) rs"
      using streams_gmap [OF streams_of_list [of I t gs, OF t(2)] e(3)] by (simp add: aggregate_rows_def)
  qed
next
  case (SortOperator src keys)
  from SortOperator.prems(2) obtain rs' where e: "op_sem T src = Inr rs'" "sort_passes keys rs' = Inr rs" by auto
  have src: "source I (op_rows ops src) rs'" using SortOperator e(1) by simp
  show ?case unfolding source_def
  proof (intro allI impI)
    fix s assume "I s"
    from source_to_list [OF src this] obtain t where "to_list (op_rows ops src) s = (Inr rs', t)" "I t" by blast
    then show "streams I (op_rows ops (SortOperator src keys) s) rs" using e(2) by (simp add: sort_rows_def)
  qed
next
  case (LimitOperator src n offset)
  then show ?case by (auto simp: source_def intro: streams_glimit)
qed simp

end
