(* ===== verification/Query_Store.thy ===== *)
theory Query_Store
  imports Query_Algebra
begin

text \<open>
  Queries on stored tables: the generator of a scan hands out the decoded contents of the table, in
  any state of a page store in which the pages are unchanged, so a whole operator tree computes its
  reference semantics on the contents of the tables, for the plain pool and the shadow pool alike.
\<close>

section \<open>Scans as sources\<close>

lemma streams_slot_rows:
  assumes wf: "open_page (p_data page)" and rs: "rs = page_rows (p_data page)"
    and "\<forall>i \<in> set is. i < length rs"
    and dec: "decode_rows cols (List.map_filter
      (\<lambda>i. map_option (\<lambda>r. (\<lparr>rid_page_id = p_page_id page, rid_slot_index = i\<rparr>, r)) (rs ! i)) is) = Inr out"
    and k: "source J k qs" and s: "J s"
  shows "streams J (slot_rows page cols is k s) (out @ qs)"
  using assms(3) dec s
proof (induction "is" arbitrary: out s)
  case Nil
  then show ?case using k by (simp add: decode_rows_def map_filter_simps source_def)
next
  case (Cons i "is")
  have g: "get_row_from_page page i = Inr (rs ! i)" using get_row_eq [OF wf, of i] Cons.prems(1) rs by simp
  show ?case
  proof (cases "rs ! i")
    case None
    with Cons.prems(2) have "decode_rows cols (List.map_filter
      (\<lambda>i. map_option (\<lambda>r. (\<lparr>rid_page_id = p_page_id page, rid_slot_index = i\<rparr>, r)) (rs ! i)) is) = Inr out"
      by (simp add: map_filter_simps)
    with Cons.IH [OF _ this Cons.prems(3)] Cons.prems(1) g None show ?thesis by simp
  next
    case (Some d)
    with Cons.prems(2) obtain vs out' where o: "deserialize_row d cols = Inr vs"
      "out = (\<lparr>rid_page_id = p_page_id page, rid_slot_index = i\<rparr>, vs) # out'"
      "decode_rows cols (List.map_filter
      (\<lambda>i. map_option (\<lambda>r. (\<lparr>rid_page_id = p_page_id page, rid_slot_index = i\<rparr>, r)) (rs ! i)) is) = Inr out'"
      by (auto simp: decode_rows_def map_filter_simps)
    with Cons.IH [OF _ o(3)] Cons.prems(1,3) g Some show ?thesis by simp
  qed
qed

context page_store
begin

definition steady :: "nat \<Rightarrow> 's \<Rightarrow> 's \<Rightarrow> bool" where
  "steady n s0 s \<longleftrightarrow> inv n s \<and> unchanged s0 s"

lemma source_chain_rows:
  "chain_of open_data (live s0) (view s0) p ps 0 \<Longrightarrow> length ps < fuel \<Longrightarrow>
   decode_rows cols (contents (view s0) ps) = Inr out \<Longrightarrow> source (steady n s0) (chain_rows ops cols fuel p) out"
proof (induction ps arbitrary: p fuel out)
  case Nil
  then show ?case by (simp add: decode_rows_def source_def)
next
  case (Cons x ps)
  then obtain d f k where d: "p = x" "x = Suc k" "live s0 x" "view s0 x = Some d" "open_data d"
      "chain_of open_data (live s0) (view s0) (page_next d) ps 0" and f: "fuel = Suc f" "length ps < f"
    by (cases fuel; cases x) auto
  obtain h where h: "parse_page_header d = Inr h" "h_page_type h = DATA" "page_next d = h_next_page_id h"
      and wf: "open_page d"
    using d(5) by (rule open_dataE)
  obtain us vs where out: "out = us @ vs" "decode_rows cols (live_slots x (rows_at (view s0) x)) = Inr us"
      "decode_rows cols (contents (view s0) ps) = Inr vs"
    using Cons.prems(3) by (auto simp: decode_rows_append)
  let ?pg = "\<lparr>p_page_id = x, p_page_type = Some (h_page_type h), p_data = d, p_dirty = False\<rparr>"
  have len: "length (page_rows d) = h_slot_count h" by (simp add: page_rows_eq [OF h(1)])
  have rest: "source (steady n s0) (chain_rows ops cols f (h_next_page_id h)) vs"
    using Cons.IH [of "h_next_page_id h" f vs] d(6) f(2) out(3) h(3) by simp
  show ?case unfolding source_def
  proof (intro allI impI)
    fix s assume s: "steady n s0 s"
    then have "live s x" "view s x = Some d" using d(3,4) by (auto simp: steady_def unchanged_def)
    then obtain s1 where s1: "po_get ops x None s = (Inr d, s1)" "inv n s1" "unchanged s s1"
      using get_open [of n s x d] s d(5) by (auto simp: steady_def)
    have st: "steady n s0 s1" using s s1(2,3) by (auto simp: steady_def intro: unchanged_trans)
    have "streams (steady n s0) (slot_rows ?pg cols [0..<h_slot_count h]
        (chain_rows ops cols f (h_next_page_id h)) s1) (us @ vs)"
      by (rule streams_slot_rows [where rs = "page_rows d"])
        (use wf out(2) d(4) len rest st in \<open>simp_all add: rows_at_def live_slots_def\<close>)
    then show "streams (steady n s0) (chain_rows ops cols fuel p s) out"
      using d(1,2) f(1) s1(1) h(1,2) out(1) page_from_data_ok [OF h(1), of x] by simp
  qed
qed

lemma source_table_rows:
  assumes "readable (live s0) (view s0) tbl ps"
    and "decode_rows (tbl_columns tbl) (contents (view s0) ps) = Inr out"
  shows "source (steady n s0) (table_rows ops tbl) out"
  unfolding source_def
proof (intro allI impI)
  fix s assume s: "steady n s0 s"
  then have "readable (live s) (view s) tbl ps" using unchanged_readable assms(1) by (auto simp: steady_def)
  then have ch: "chain_of open_data (live s) (view s) (tbl_root tbl) ps 0" and dist: "distinct ps"
    by (auto simp: readable_def)
  have "length ps < po_count ops s + 1" using chain_length [OF _ ch dist] s by (auto simp: steady_def)
  moreover have "chain_of open_data (live s0) (view s0) (tbl_root tbl) ps 0" using assms(1) by (simp add: readable_def)
  ultimately show "streams (steady n s0) (table_rows ops tbl s) out"
    using source_chain_rows [OF _ _ assms(2)] s by (simp add: table_rows_def source_def)
qed

text \<open>A query computes its reference on the contents of its tables, and changes no page.\<close>

lemma query_ok:
  assumes "inv n s" and "\<And>tbl. tbl \<in> op_tables q \<Longrightarrow> readable (live s) (view s) tbl (ps tbl)"
    and "\<And>tbl. tbl \<in> op_tables q \<Longrightarrow> decode_rows (tbl_columns tbl) (contents (view s) (ps tbl)) = Inr (T tbl)"
    and "op_sem T q = Inr out"
  shows "\<exists>s'. to_list (op_rows ops q) s = (Inr out, s') \<and> inv n s' \<and> unchanged s s'"
proof -
  have "source (steady n s) (op_rows ops q) out"
    using source_table_rows assms(2,3) by (intro op_rows_source [OF _ assms(4)]) blast
  moreover have "steady n s s" using assms(1) by (simp add: steady_def)
  ultimately show ?thesis using source_to_list by (fastforce simp: steady_def)
qed

end

section \<open>Claims\<close>

text \<open>
  C2. Executing a query computes relational algebra: for any tree of scans, joins, filters, projections,
  aggregations, sorts and limits over tables whose page chains can be read (well-formed ones, and those
  that were updated in place), draining the lazy operators over the buffer
  pool gives exactly the rows of the list semantics on the tables' contents, whenever no row of
  the reference raises, and the query changes no page.
\<close>

theorem query_refines_algebra:
  assumes "store_ok n (ss_pool s)"
    and "\<forall>tbl \<in> op_tables q. readable (pool_live (ss_pool s)) (pool_view (ss_pool s)) tbl (ps tbl) \<and>
      decode_rows (tbl_columns tbl) (contents (pool_view (ss_pool s)) (ps tbl)) = Inr (T tbl)"
    and "op_sem T q = Inr out"
  shows "\<exists>s'. to_list (op_rows main_ops q) s = (Inr out, s') \<and> store_ok n (ss_pool s') \<and>
    (\<forall>p. pool_live (ss_pool s) p \<longrightarrow> pool_live (ss_pool s') p \<and>
      pool_view (ss_pool s') p = pool_view (ss_pool s) p)"
  using main.query_ok [OF assms(1), of q ps T out] assms(2,3) by (auto simp: main.unchanged_def)

theorem query_refines_algebra_witness:
  "\<exists>rid s s'. table_insert main_ops demo_table [PInt 7] None (new_session 2) = (Inr rid, s) \<and>
    to_list (op_rows main_ops (LimitOperator (ProjectOperator (FilterOperator (ScanOperator demo_table)
      (BinaryOp ''<'' (ColumnRef ''n'' None) (Literal (PInt 9)))) [(''n'', ColumnRef ''n'' None)]) (Some 1) 0)) s
    = (Inr [[(''n'', PInt 7)]], s')"
proof -
  let ?q = "LimitOperator (ProjectOperator (FilterOperator (ScanOperator demo_table)
      (BinaryOp ''<'' (ColumnRef ''n'' None) (Literal (PInt 9)))) [(''n'', ColumnRef ''n'' None)]) (Some 1) 0"
  obtain rid s ps where s: "table_insert main_ops demo_table [PInt 7] None (new_session 2) = (Inr rid, s)"
    "store_ok 1 (ss_pool s)" "table_ok (pool_live (ss_pool s)) (pool_view (ss_pool s)) demo_table ps"
    "decode_rows (tbl_columns demo_table) (contents (pool_view (ss_pool s)) ps) = Inr [(rid, [PInt 7])]"
    using demo_inserted by blast
  have row: "scan_row demo_table (rid, [PInt 7]) =
      [(''_rowid'', PRowId (rid_page_id rid) (rid_slot_index rid)), (''n'', PInt 7)]"
    by (simp add: scan_row_def row_dict_def demo_table_def int_col_def)
  have keep: "keep_row (BinaryOp ''<'' (ColumnRef ''n'' None) (Literal (PInt 9)))
      (scan_row demo_table (rid, [PInt 7])) = Inr True"
    by (simp add: keep_row_def row column_value_def row_get_def apply_binary_def compare_lt_def compare_ord_def
        rbool_def to_bool_def)
  have "op_sem (\<lambda>_. [(rid, [PInt 7])]) ?q = Inr [[(''n'', PInt 7)]]"
    by (simp add: rfilter_def keep) (simp add: row column_value_def row_get_def)
  moreover have "\<forall>tbl \<in> op_tables ?q. readable (pool_live (ss_pool s)) (pool_view (ss_pool s)) tbl ps \<and>
      decode_rows (tbl_columns tbl) (contents (pool_view (ss_pool s)) ps) = Inr [(rid, [PInt 7])]"
    using table_ok_readable [OF s(3)] s(4) by simp
  ultimately show ?thesis
    using query_refines_algebra [OF s(2), of ?q "\<lambda>_. ps" "\<lambda>_. [(rid, [PInt 7])]" "[[(''n'', PInt 7)]]"] s(1)
    by blast
qed

end
