(* ===== verification/Query_Facts.thy ===== *)
theory Query_Facts
  imports Query_Algebra "HOL-Library.Sublist"
begin

text \<open>
  The reference semantics of the single operators: when the two join algorithms agree, what a join with USING
  does, sorting and its treatment of NULLs and of columns the rows do not have, and counting groups.
\<close>

section \<open>Rows as dicts\<close>

lemma put_all_get:
  "dict_get (put_all f cols res) k =
     (case dict_get (rev (map (\<lambda>(a, v). (f a, v)) cols)) k of Some v \<Rightarrow> Some v | None \<Rightarrow> dict_get res k)"
proof (induction cols arbitrary: res)
  case (Cons c cols)
  obtain a v where c: "c = (a, v)" by (cases c)
  have "put_all f ((a, v) # cols) res = put_all f cols (dict_set (f a) v res)" by (simp add: put_all_def)
  then show ?case using c by (simp add: Cons map_add_def split: option.splits)
qed (simp add: put_all_def)

lemma visible_get: "dict_get (visible row) k = (if k = ''_rowid'' then None else dict_get row k)"
  by (induction row) (auto simp: visible_def)

lemma distinct_visible: "distinct (dict_keys row) \<Longrightarrow> distinct (dict_keys (visible row))"
  unfolding visible_def by (induction row) auto

lemma map_of_rev_distinct:
  assumes "distinct (map fst xs)"
  shows "map_of (rev xs) k = map_of xs k"
proof (cases "map_of xs k")
  case None
  then have "k \<notin> fst ` set xs" by (simp add: map_of_eq_None_iff)
  then show ?thesis unfolding None by (simp add: map_of_eq_None_iff)
next
  case (Some v)
  then have "(k, v) \<in> set xs" by (rule map_of_SomeD)
  then have "(k, v) \<in> set (rev xs)" by simp
  moreover have "distinct (map fst (rev xs))" using assms by (simp flip: rev_map)
  ultimately show ?thesis unfolding Some using dict_get_Some_iff [of "rev xs" k v] by blast
qed

text \<open>Plain names in the row on which ON is evaluated: the left column wins.\<close>

lemma raw_combined_get:
  assumes "distinct (dict_keys l)" and "distinct (dict_keys r)" and "k \<noteq> ''_rowid''"
    and "\<And>a. k \<noteq> prefixed (left_prefix j) a" and "\<And>a. k \<noteq> prefixed (right_prefix j) a"
  shows "dict_get (raw_combined j l r) k =
    (case dict_get l k of Some v \<Rightarrow> Some v | None \<Rightarrow> dict_get r k)"
proof -
  have p: "dict_get (rev (map (\<lambda>(a, v). (prefixed p a, v)) cols)) k = None"
    if q: "\<And>a. k \<noteq> prefixed p a" for p and cols :: row
  proof -
    have "\<forall>a. k \<noteq> prefixed p a" using q by blast
    then have "k \<notin> fst ` set (map (\<lambda>(a, v). (prefixed p a, v)) cols)" by auto
    then show ?thesis by (simp add: map_of_eq_None_iff)
  qed
  have i: "dict_get (rev (map (\<lambda>(a, v). (a, v)) (visible row))) k = dict_get row k"
    if "distinct (dict_keys row)" for row :: row
    using map_of_rev_distinct [OF distinct_visible [OF that], of k] assms(3)
    by (simp add: visible_get case_prod_unfold)
  show ?thesis
    unfolding raw_combined_def put_all_get i [OF assms(1)] i [OF assms(2)] p [OF assms(4)] p [OF assms(5)]
    by (auto split: option.splits)
qed

section \<open>Equi-joins\<close>

text \<open>The ON condition \<open>a = b\<close> with \<open>a\<close> a column of the left and \<open>b\<close> one of the right side.\<close>

definition equi_join :: "join_spec \<Rightarrow> string \<Rightarrow> string \<Rightarrow> bool" where
  "equi_join j a b \<longleftrightarrow>
     on_condition j = Some (BinaryOp ''='' (ColumnRef a None) (ColumnRef b None)) \<and> join_keys j = [a] \<and>
     a \<noteq> b \<and> b \<noteq> [] \<and> a \<noteq> ''_rowid'' \<and> b \<noteq> ''_rowid'' \<and>
     (\<forall>p \<in> {left_prefix j, right_prefix j}. \<forall>c. a \<noteq> prefixed p c \<and> b \<noteq> prefixed p c)"

definition joinable :: "string \<Rightarrow> string \<Rightarrow> row \<Rightarrow> row \<Rightarrow> bool" where
  "joinable a b l r \<longleftrightarrow> distinct (dict_keys l) \<and> distinct (dict_keys r) \<and>
     dict_get l a \<noteq> None \<and> dict_get l b = None \<and> dict_get r b \<noteq> None"

lemma equi_join_match:
  assumes j: "equi_join j a b" and d: "joinable a b l r"
  shows "rows_match j l r = Inr (compare_eq (row_get l a) (row_get r b))"
    and "hash_match j l r = py_eq (row_get r b) (row_get l a)"
proof -
  obtain va vb where v: "dict_get l a = Some va" "dict_get r b = Some vb" using d by (auto simp: joinable_def)
  have "dict_get (raw_combined j l r) a = Some va"
    using raw_combined_get [of l r a j] j d v by (simp add: equi_join_def joinable_def)
  moreover have "dict_get (raw_combined j l r) b = Some vb"
    using raw_combined_get [of l r b j] j d v by (simp add: equi_join_def joinable_def)
  ultimately show "rows_match j l r = Inr (compare_eq (row_get l a) (row_get r b))"
    using j v by (simp add: rows_match_def equi_join_def column_value_def row_get_def apply_binary_def to_bool_def)
  show "hash_match j l r = py_eq (row_get r b) (row_get l a)"
    using j by (simp add: hash_match_def left_key_def right_key_def equi_join_def keys_eq_def)
qed

section \<open>Sorting by one column\<close>

text \<open>The order of ORDER BY: NULLs before all other values.\<close>

definition null_lt :: "pval \<Rightarrow> pval \<Rightarrow> bool" where
  "null_lt v w \<longleftrightarrow> (v = PNone \<and> w \<noteq> PNone) \<or> (v \<noteq> PNone \<and> w \<noteq> PNone \<and> py_lt v w = Inr True)"

definition sortable :: "vtype \<Rightarrow> pval \<Rightarrow> bool" where
  "sortable t v \<longleftrightarrow> v = PNone \<or> proper t v"

lemma proper_not_none: "proper t v \<Longrightarrow> v \<noteq> PNone"
  by (simp add: proper_def)

lemma py_eq_flag [simp]: "py_eq (PInt i) (PInt j) = (i = j)"
  by (simp add: py_eq_def)

lemma null_first_lt:
  assumes "sortable t v" and "sortable t w"
  shows "comparable (null_first_key v) (null_first_key w)"
    and "key_lt (null_first_key v) (null_first_key w) = Inr True \<longleftrightarrow> null_lt v w"
proof -
  have n: "py_lt (PInt i) (PInt j) = Inr (i < j)" for i j by (simp add: py_lt_def)
  show "comparable (null_first_key v) (null_first_key w)"
    using assms py_lt_proper [of t v w]
    by (auto simp: comparable_def null_first_key_def sortable_def n proper_not_none)
  show "key_lt (null_first_key v) (null_first_key w) = Inr True \<longleftrightarrow> null_lt v w"
    using assms py_lt_irrefl [of t v w]
    by (auto simp: null_first_key_def sortable_def n proper_not_none null_lt_def)
qed

lemma null_lt_asym: "sortable t u \<Longrightarrow> sortable t v \<Longrightarrow> null_lt u v \<Longrightarrow> \<not> null_lt v u"
  using py_lt_trans [of t u v u] py_lt_irrefl [of t u u] py_eq_proper [of t u u]
  by (cases t) (auto simp: null_lt_def sortable_def)

lemma null_lt_ntrans:
  assumes "sortable t u" "sortable t v" "sortable t w" and a: "\<not> null_lt u v" "\<not> null_lt v w"
  shows "\<not> null_lt u w"
proof
  assume b: "null_lt u w"
  then have w: "w \<noteq> PNone" by (auto simp: null_lt_def)
  then have v: "v \<noteq> PNone" using a(2) by (auto simp: null_lt_def)
  then have u: "u \<noteq> PNone" using a(1) by (auto simp: null_lt_def)
  have p: "proper t u" "proper t v" "proper t w" using assms u v w by (auto simp: sortable_def)
  have n: "py_lt u v \<noteq> Inr True" "py_lt v w \<noteq> Inr True" "py_lt u w = Inr True"
    using a b u v w by (auto simp: null_lt_def)
  then have "py_eq u v \<or> py_lt v u = Inr True" using proper_trichotomy [OF p(1,2)] by blast
  then have "py_lt v w = Inr True"
    using py_lt_eq(1) [OF p] py_lt_trans [OF p(2,1,3)] n(3) by auto
  with n(2) show False by simp
qed

text \<open>Rows paired with their values: what the sort works on.\<close>

lemma sorted_pairs:
  fixes ps :: "('a \<times> pval) list"
  assumes s: "\<forall>(r, v) \<in> set ps. sortable t v"
  shows "\<exists>out. py_sort (\<lambda>(r, v). null_first_key v) desc ps = Inr out \<and> mset out = mset ps \<and>
    sorted_wrt (\<lambda>a b. if desc then \<not> null_lt (snd a) (snd b) else \<not> null_lt (snd b) (snd a)) out \<and>
    (\<forall>w. sortable t w \<longrightarrow> filter (\<lambda>(r, v). \<not> null_lt v w \<and> \<not> null_lt w v) out
       = filter (\<lambda>(r, v). \<not> null_lt v w \<and> \<not> null_lt w v) ps)"
proof -
  let ?key = "\<lambda>(r :: 'a, v). null_first_key v" and ?A = "{(r :: 'a, v). sortable t v}"
  have lt: "lt_of ?key x y \<longleftrightarrow> null_lt (snd x) (snd y)" if "x \<in> ?A" "y \<in> ?A" for x y :: "'a \<times> pval"
    using that null_first_lt(2) [of t "snd x" "snd y"] by (auto simp: lt_of_def)
  have wo: "weak_order_on ?A (lt_of ?key)"
    unfolding weak_order_on_def
  proof (intro conjI ballI impI)
    fix x y :: "'a \<times> pval" assume "x \<in> ?A" "y \<in> ?A" "lt_of ?key x y"
    then show "\<not> lt_of ?key y x" using lt null_lt_asym [of t "snd x" "snd y"] by auto
  next
    fix x y z :: "'a \<times> pval"
    assume "x \<in> ?A" "y \<in> ?A" "z \<in> ?A" "\<not> lt_of ?key x y" "\<not> lt_of ?key y z"
    then show "\<not> lt_of ?key x z" using lt null_lt_ntrans [of t "snd x" "snd y" "snd z"] by auto
  qed
  have A: "set ps \<subseteq> ?A" using s by auto
  have c: "\<forall>x \<in> set ps. \<forall>y \<in> set ps. comparable (?key x) (?key y)"
    using s null_first_lt(1) by fastforce
  let ?out = "if desc then rev (sort_by (lt_of ?key) (rev ps)) else sort_by (lt_of ?key) ps"
  have e: "py_sort ?key desc ps = Inr ?out" using c by (simp add: py_sort_def)
  have m: "mset ?out = mset ps" by simp
  then have So: "set ?out \<subseteq> ?A" using A by (metis set_mset_mset)
  have sorted1: "sorted_wrt (\<lambda>a b. \<not> lt_of ?key b a) (sort_by (lt_of ?key) xs)" if "set xs \<subseteq> ?A" for xs
    using sorted_sort_by [OF wo that] .
  have so: "sorted_wrt (\<lambda>a b. if desc then \<not> lt_of ?key a b else \<not> lt_of ?key b a) ?out"
    using sorted1 [of ps] sorted1 [of "rev ps"] A by (simp add: sorted_wrt_rev)
  have so': "sorted_wrt (\<lambda>a b. if desc then \<not> null_lt (snd a) (snd b) else \<not> null_lt (snd b) (snd a)) ?out"
    using So by (intro sorted_wrt_mono_rel [OF _ so]) (auto simp: lt subset_iff split: if_splits)
  have st: "filter (\<lambda>(r, v). \<not> null_lt v w \<and> \<not> null_lt w v) ?out
       = filter (\<lambda>(r, v). \<not> null_lt v w \<and> \<not> null_lt w v) ps" if w: "sortable t w" for w
  proof (cases ps)
    case (Cons p ps')
    define z where "z = (fst p, w)"
    have zA: "z \<in> ?A" using w by (simp add: z_def)
    have f: "filter (\<lambda>(r, v). \<not> null_lt v w \<and> \<not> null_lt w v) xs = filter (tied (lt_of ?key) z) xs"
      if "set xs \<subseteq> ?A" for xs
      using that zA by (intro filter_cong) (auto simp: tied_def lt z_def subset_iff)
    have "filter (tied (lt_of ?key) z) (sort_by (lt_of ?key) xs) = filter (tied (lt_of ?key) z) xs"
      if "set xs \<subseteq> ?A" for xs
      using sort_by_stable [OF wo, of z xs] that zA by simp
    from this [of ps] this [of "rev ps"] A
    have "filter (tied (lt_of ?key) z) ?out = filter (tied (lt_of ?key) z) ps"
      by (simp add: rev_filter [symmetric])
    then show ?thesis using f [OF So] f [OF A] by simp
  qed simp
  show ?thesis using e m so' st by blast
qed

lemma sort_pass_sorts:
  assumes "\<forall>r \<in> set rs. evaluate e r = Inr (f r) \<and> sortable t (f r)"
  shows "\<exists>out. sort_pass e desc rs = Inr out \<and> mset out = mset rs \<and>
    sorted_wrt (\<lambda>a b. if desc then \<not> null_lt (f a) (f b) else \<not> null_lt (f b) (f a)) out \<and>
    (\<forall>w. sortable t w \<longrightarrow> filter (\<lambda>r. \<not> null_lt (f r) w \<and> \<not> null_lt w (f r)) out
       = filter (\<lambda>r. \<not> null_lt (f r) w \<and> \<not> null_lt w (f r)) rs)"
proof -
  let ?ps = "map (\<lambda>r. (r, f r)) rs"
  have "rmap (evaluate e) rs = Inr (map f rs)" using assms by (intro rmap_total) auto
  moreover have "zip rs (map f rs) = ?ps" by (induction rs) auto
  moreover obtain out where o: "py_sort (\<lambda>(r, v). null_first_key v) desc ?ps = Inr out" "mset out = mset ?ps"
    "sorted_wrt (\<lambda>a b. if desc then \<not> null_lt (snd a) (snd b) else \<not> null_lt (snd b) (snd a)) out"
    "\<forall>w. sortable t w \<longrightarrow> filter (\<lambda>(r, v). \<not> null_lt v w \<and> \<not> null_lt w v) out
       = filter (\<lambda>(r, v). \<not> null_lt v w \<and> \<not> null_lt w v) ?ps"
    using sorted_pairs [of ?ps t desc] assms by auto
  moreover define xs where "xs = map fst out"
  have "set out = set ?ps" using o(2) by (metis set_mset_mset)
  then have "map (\<lambda>x. (fst x, f (fst x))) out = out" by (intro map_idI) auto
  then have out: "out = map (\<lambda>r. (r, f r)) xs" by (simp add: comp_def xs_def)
  have m: "mset xs = image_mset fst (mset ?ps)" unfolding xs_def mset_map o(2) ..
  have "mset xs = mset rs" unfolding m mset_map [symmetric] by (simp add: comp_def)
  moreover have "sorted_wrt (\<lambda>a b. if desc then \<not> null_lt (f a) (f b) else \<not> null_lt (f b) (f a)) xs"
    using o(3) unfolding out sorted_wrt_map snd_conv .
  moreover have "filter (\<lambda>r. \<not> null_lt (f r) w \<and> \<not> null_lt w (f r)) xs
       = filter (\<lambda>r. \<not> null_lt (f r) w \<and> \<not> null_lt w (f r)) rs" if "sortable t w" for w
  proof -
    let ?P = "\<lambda>r. \<not> null_lt (f r) w \<and> \<not> null_lt w (f r)"
    have h: "filter (\<lambda>(r, v). \<not> null_lt v w \<and> \<not> null_lt w v) (map (\<lambda>r. (r, f r)) ys) = map (\<lambda>r. (r, f r)) (filter ?P ys)"
      for ys by (induction ys) auto
    have "map (\<lambda>r. (r, f r)) (filter ?P xs) = map (\<lambda>r. (r, f r)) (filter ?P rs)"
      using o(4) [rule_format, OF that] unfolding out h .
    then have "map fst (map (\<lambda>r. (r, f r)) (filter ?P xs)) = map fst (map (\<lambda>r. (r, f r)) (filter ?P rs))"
      by (rule arg_cong)
    then show ?thesis by (simp add: comp_def)
  qed
  ultimately show ?thesis unfolding sort_pass_def by (simp flip: xs_def)
qed

section \<open>Sorting by several columns\<close>

definition key_value :: "expr \<Rightarrow> row \<Rightarrow> pval" where
  "key_value e r = (case evaluate e r of Inr v \<Rightarrow> v | Inl _ \<Rightarrow> PNone)"

text \<open>The order of one key, and the order of all of them: the first key on which the rows differ decides.\<close>

definition key_before :: "expr \<Rightarrow> string \<Rightarrow> row \<Rightarrow> row \<Rightarrow> bool" where
  "key_before e dir a b \<longleftrightarrow>
     (if dir = ''DESC'' then null_lt (key_value e b) (key_value e a) else null_lt (key_value e a) (key_value e b))"

fun row_before :: "(expr \<times> string) list \<Rightarrow> row \<Rightarrow> row \<Rightarrow> bool" where
  "row_before [] a b \<longleftrightarrow> False"
| "row_before ((e, dir) # keys) a b \<longleftrightarrow> key_before e dir a b \<or> \<not> key_before e dir b a \<and> row_before keys a b"

text \<open>Every key has a value on every row, all of one type or NULL, and none of them NaN.\<close>

definition sortable_by :: "(expr \<times> string) list \<Rightarrow> row list \<Rightarrow> bool" where
  "sortable_by keys rs \<longleftrightarrow> (\<forall>(e, dir) \<in> set keys. \<exists>t. \<forall>r \<in> set rs. \<exists>v. evaluate e r = Inr v \<and> sortable t v)"

lemma sorted_wrt_refine:
  assumes "sorted_wrt (\<lambda>a b. \<not> lt b a) xs" and "\<forall>x \<in> set xs. \<not> lt x x"
    and "\<forall>z \<in> set xs. sorted_wrt R (filter (tied lt z) xs)"
  shows "sorted_wrt (\<lambda>a b. lt a b \<and> \<not> lt b a \<or> tied lt a b \<and> R a b) xs"
  using assms
proof (induction xs)
  case (Cons x xs)
  have "sorted_wrt R (filter (tied lt z) xs)" if "z \<in> set xs" for z
    using Cons.prems(3) that by (cases "tied lt z x") auto
  with Cons have "sorted_wrt (\<lambda>a b. lt a b \<and> \<not> lt b a \<or> tied lt a b \<and> R a b) xs" by simp
  moreover have "R x y" if "y \<in> set xs" "tied lt x y" for y
    using bspec [OF Cons.prems(3), of x] Cons.prems(2) that by (simp add: tied_def)
  moreover have "\<not> lt y x" if "y \<in> set xs" for y using Cons.prems(1) that by simp
  ultimately show ?case by (auto simp: tied_def)
qed simp

lemma tied_row_before:
  "tied (row_before ((e, dir) # keys)) z r \<longleftrightarrow> tied (row_before keys) z r \<and> tied (key_before e dir) z r"
  by (auto simp: tied_def)

lemma key_pass:
  assumes "\<forall>r \<in> set rs. \<exists>v. evaluate e r = Inr v \<and> sortable t v"
  shows "\<exists>out. sort_pass e (dir = ''DESC'') rs = Inr out \<and> mset out = mset rs \<and>
    sorted_wrt (\<lambda>a b. \<not> key_before e dir b a) out \<and> (\<forall>r \<in> set rs. \<not> key_before e dir r r) \<and>
    (\<forall>z \<in> set rs. filter (tied (key_before e dir) z) out = filter (tied (key_before e dir) z) rs)"
proof -
  have v: "\<forall>r \<in> set rs. evaluate e r = Inr (key_value e r) \<and> sortable t (key_value e r)"
    using assms by (fastforce simp: key_value_def)
  from sort_pass_sorts [OF this, of "dir = ''DESC''"] obtain out where o: "sort_pass e (dir = ''DESC'') rs = Inr out" "mset out = mset rs"
    "sorted_wrt (\<lambda>a b. if dir = ''DESC'' then \<not> null_lt (key_value e a) (key_value e b) else \<not> null_lt (key_value e b) (key_value e a)) out"
    and st: "\<And>w. sortable t w \<Longrightarrow> filter (\<lambda>r. \<not> null_lt (key_value e r) w \<and> \<not> null_lt w (key_value e r)) out
       = filter (\<lambda>r. \<not> null_lt (key_value e r) w \<and> \<not> null_lt w (key_value e r)) rs" by blast
  have "(\<lambda>a b. \<not> key_before e dir b a) =
      (\<lambda>a b. if dir = ''DESC'' then \<not> null_lt (key_value e a) (key_value e b) else \<not> null_lt (key_value e b) (key_value e a))"
    by (auto simp: key_before_def fun_eq_iff)
  then have "sorted_wrt (\<lambda>a b. \<not> key_before e dir b a) out" using o(3) by simp
  moreover have "\<not> key_before e dir r r" if "r \<in> set rs" for r
    using null_lt_asym [of t "key_value e r" "key_value e r"] v that by (auto simp: key_before_def)
  moreover have "filter (tied (key_before e dir) z) out = filter (tied (key_before e dir) z) rs" if "z \<in> set rs" for z
  proof -
    have "tied (key_before e dir) z = (\<lambda>r. \<not> null_lt (key_value e r) (key_value e z) \<and> \<not> null_lt (key_value e z) (key_value e r))"
      by (auto simp: tied_def key_before_def fun_eq_iff)
    then show ?thesis using st [of "key_value e z"] v that by simp
  qed
  ultimately show ?thesis using o(1,2) by blast
qed

lemma sort_passes_sort:
  "sortable_by keys rs \<Longrightarrow> \<exists>out. sort_passes keys rs = Inr out \<and> mset out = mset rs \<and>
     sorted_wrt (\<lambda>a b. \<not> row_before keys b a) out \<and>
     (\<forall>z \<in> set rs. filter (tied (row_before keys) z) out = filter (tied (row_before keys) z) rs)"
proof (induction keys)
  case Nil
  have "sorted_wrt (\<lambda>a b. True) rs" by (induction rs) auto
  then show ?case by (simp add: tied_def)
next
  case (Cons k keys)
  obtain e dir where k: "k = (e, dir)" by (cases k)
  let ?lt = "key_before e dir"
  have "sortable_by keys rs" using Cons.prems by (simp add: sortable_by_def)
  with Cons.IH obtain out1 where o1: "sort_passes keys rs = Inr out1" "mset out1 = mset rs"
    "sorted_wrt (\<lambda>a b. \<not> row_before keys b a) out1"
    "\<forall>z \<in> set rs. filter (tied (row_before keys) z) out1 = filter (tied (row_before keys) z) rs" by blast
  have set1: "set out1 = set rs" using o1(2) by (metis set_mset_mset)
  obtain t where "\<forall>r \<in> set out1. \<exists>v. evaluate e r = Inr v \<and> sortable t v"
    using Cons.prems k set1 by (auto simp: sortable_by_def)
  from key_pass [OF this, of dir] obtain out where o: "sort_pass e (dir = ''DESC'') out1 = Inr out" "mset out = mset out1"
    "sorted_wrt (\<lambda>a b. \<not> ?lt b a) out" "\<forall>r \<in> set out1. \<not> ?lt r r"
    "\<forall>z \<in> set out1. filter (tied ?lt z) out = filter (tied ?lt z) out1" by blast
  have set: "set out = set rs" using o(2) set1 by (metis set_mset_mset)
  have "sorted_wrt (\<lambda>a b. ?lt a b \<and> \<not> ?lt b a \<or> tied ?lt a b \<and> \<not> row_before keys b a) out"
    by (rule sorted_wrt_refine [OF o(3)]) (use o(4,5) o1(3) set set1 in \<open>simp_all add: sorted_wrt_filter\<close>)
  then have "sorted_wrt (\<lambda>a b. \<not> row_before (k # keys) b a) out"
    by (rule sorted_wrt_mono_rel [rotated]) (auto simp: k tied_def)
  moreover have "filter (tied (row_before (k # keys)) z) out = filter (tied (row_before (k # keys)) z) rs" if "z \<in> set rs" for z
  proof -
    have both: "filter (tied (row_before (k # keys)) z) xs = filter (tied (row_before keys) z) (filter (tied ?lt z) xs)"
      "filter (tied (row_before (k # keys)) z) xs = filter (tied ?lt z) (filter (tied (row_before keys) z) xs)" for xs
      unfolding k filter_filter by (auto simp: tied_row_before intro: filter_cong)
    show ?thesis using o(5) o1(4) that set1 both(1) [of out] both [of out1] both(2) [of rs] by simp
  qed
  moreover have "sort_passes (k # keys) rs = Inr out" using o1(1) o(1) by (simp add: k)
  moreover have "mset out = mset rs" using o(2) o1(2) by simp
  ultimately show ?case by blast
qed

section \<open>Counting groups\<close>

text \<open>How often a key occurs, and the first key of every class of equal keys, in the order in which they occur.\<close>

definition occurrences :: "pval list \<Rightarrow> pval list list \<Rightarrow> int" where
  "occurrences k ks = int (length (filter (\<lambda>k'. keys_eq k' k) ks))"

definition first_keys :: "pval list list \<Rightarrow> pval list list" where
  "first_keys ks = fold (\<lambda>k reps. if \<exists>r \<in> set reps. keys_eq r k then reps else reps @ [k]) ks []"

lemma first_keys_simps [simp]:
  "first_keys [] = []"
  "first_keys (ks @ [k]) = (if \<exists>r \<in> set (first_keys ks). keys_eq r k then first_keys ks else first_keys ks @ [k])"
  by (simp_all add: first_keys_def)

lemma first_keys_distinct: "sorted_wrt (\<lambda>a b. \<not> keys_eq a b) (first_keys ks)"
  by (induction ks rule: rev_induct) (auto simp: sorted_wrt_append)

lemma first_keys_cover: "\<forall>k \<in> set ks. keys_eq k k \<Longrightarrow> k \<in> set ks \<Longrightarrow> \<exists>r \<in> set (first_keys ks). keys_eq r k"
  by (induction ks rule: rev_induct) auto

lemma first_keys_subseq: "subseq (first_keys ks) ks"
  by (induction ks rule: rev_induct) (auto intro: list_emb_append_mono subseq_rev_drop_many)

definition counted :: "pval list list \<Rightarrow> groups" where
  "counted ks = map (\<lambda>k. (k, [Acc (PInt (occurrences k ks))])) (first_keys ks)"

lemma table_get_map:
  "table_get_key key (map (\<lambda>k. (k, g k)) ks) = map_option g (find (\<lambda>k. keys_eq k key) ks)"
  by (induction ks) auto

lemma table_put_map:
  "sorted_wrt (\<lambda>a b. \<not> keys_eq a b) ks \<Longrightarrow>
   table_put_key key x (map (\<lambda>k. (k, g k)) ks) =
     (if \<exists>k \<in> set ks. keys_eq k key then map (\<lambda>k. (k, if keys_eq k key then x else g k)) ks
      else map (\<lambda>k. (k, g k)) ks @ [(key, x)])"
proof (induction ks)
  case (Cons k ks)
  show ?case
  proof (cases "keys_eq k key")
    case True
    have "\<not> keys_eq k' key" if "k' \<in> set ks" for k'
      using Cons.prems that True keys_eq_left [OF True, of k'] keys_eq_sym [of k' key] by auto
    then show ?thesis using True by simp
  qed (use Cons in auto)
qed simp

lemma count_step:
  assumes refl: "\<forall>k \<in> set (ks @ [key]). keys_eq k k" and k: "rmap (\<lambda>e. evaluate e row) gkeys = Inr key"
  shows "group_row gkeys [(a, ''COUNT'', StarExpr)] row (counted ks) = Inr (counted (ks @ [key]))"
proof -
  let ?n = "occurrences key ks" and ?R = "first_keys ks"
  have z: "py_add (or_zero (PInt i)) (PInt 1) = Inr (PInt (i + 1))" for i
    by (simp add: or_zero_def py_arith_def)
  have same: "occurrences k ks = ?n" if "keys_eq k key" for k
    using keys_eq_right [OF that] by (simp add: occurrences_def)
  have none: "?n = 0" if "\<not> (\<exists>r \<in> set ?R. keys_eq r key)"
  proof -
    have "\<not> keys_eq k key" if "k \<in> set ks" for k
      using first_keys_cover [of ks k] refl that \<open>\<not> (\<exists>r \<in> set ?R. keys_eq r key)\<close> keys_eq_trans by auto
    then show ?thesis by (simp add: occurrences_def)
  qed
  have get: "table_get_key key (counted ks) = (if \<exists>r \<in> set ?R. keys_eq r key then Some [Acc (PInt ?n)] else None)"
  proof (cases "find (\<lambda>k. keys_eq k key) ?R")
    case None
    then show ?thesis by (auto simp: counted_def table_get_map find_None_iff)
  next
    case (Some r)
    then have "r \<in> set ?R" "keys_eq r key" by (auto simp: find_Some_iff)
    then show ?thesis using Some same by (auto simp: counted_def table_get_map)
  qed
  have "group_row gkeys [(a, ''COUNT'', StarExpr)] row (counted ks)
      = Inr (table_put_key key [Acc (PInt (?n + 1))] (counted ks))"
    using k get none by (auto simp: group_row_def step_agg_def accumulate_def z simp del: py_add.simps)
  also have "table_put_key key [Acc (PInt (?n + 1))] (counted ks) = counted (ks @ [key])"
  proof -
    have o: "occurrences k (ks @ [key]) = occurrences k ks + (if keys_eq k key then 1 else 0)" for k
      using keys_eq_sym [of key k] by (simp add: occurrences_def)
    have old: "map (\<lambda>k. (k, if keys_eq k key then [Acc (PInt (?n + 1))] else [Acc (PInt (occurrences k ks))])) ?R
        = map (\<lambda>k. (k, [Acc (PInt (occurrences k (ks @ [key])))])) ?R"
      using same by (simp add: o)
    show ?thesis
    proof (cases "\<exists>r \<in> set ?R. keys_eq r key")
      case True
      then show ?thesis by (simp only: counted_def table_put_map [OF first_keys_distinct] first_keys_simps old if_True)
    next
      case False
      have "map (\<lambda>k. (k, [Acc (PInt (occurrences k ks))])) ?R = map (\<lambda>k. (k, [Acc (PInt (occurrences k (ks @ [key])))])) ?R"
        using False by (simp add: o)
      then show ?thesis
        using False refl by (simp add: counted_def table_put_map [OF first_keys_distinct] o)
    qed
  qed
  finally show ?thesis .
qed

lemma count_groups:
  assumes "rmap (\<lambda>row. rmap (\<lambda>e. evaluate e row) gkeys) rs = Inr ks" and "\<forall>k \<in> set ks. keys_eq k k"
  shows "rfold (group_row gkeys [(a, ''COUNT'', StarExpr)]) rs [] = Inr (counted ks)"
proof -
  have "rfold (group_row gkeys [(a, ''COUNT'', StarExpr)]) rs (counted ks0) = Inr (counted (ks0 @ ks))"
    if "\<forall>k \<in> set (ks0 @ ks). keys_eq k k" for ks0
    using assms(1) that
  proof (induction rs arbitrary: ks0 ks)
    case (Cons r rs)
    then obtain key ks' where k: "rmap (\<lambda>e. evaluate e r) gkeys = Inr key" "ks = key # ks'"
      "rmap (\<lambda>row. rmap (\<lambda>e. evaluate e row) gkeys) rs = Inr ks'" by auto
    have "group_row gkeys [(a, ''COUNT'', StarExpr)] r (counted ks0) = Inr (counted (ks0 @ [key]))"
      using count_step [OF _ k(1)] Cons.prems(2) k(2) by simp
    moreover have "rfold (group_row gkeys [(a, ''COUNT'', StarExpr)]) rs (counted (ks0 @ [key])) = Inr (counted ((ks0 @ [key]) @ ks'))"
      by (rule Cons.IH [OF k(3)]) (use Cons.prems(2) k(2) in simp)
    ultimately show ?case using k(2) by simp
  qed simp
  from this [of "[]"] assms(2) show ?thesis by (simp add: counted_def)
qed

lemma finish_counts:
  "rmap (finish_group gkeys [(a, ''COUNT'', StarExpr)]) (counted ks) =
    Inr (map (\<lambda>k. dict_set a (PInt (occurrences k ks)) (key_cols gkeys k)) (first_keys ks))"
proof -
  have "rmap (finish_group gkeys [(a, ''COUNT'', StarExpr)]) (counted ks) =
      Inr (map (\<lambda>(k, st). dict_set a (case st of [Acc v] \<Rightarrow> v | _ \<Rightarrow> PNone) (key_cols gkeys k)) (counted ks))"
    by (intro rmap_total) (auto simp: counted_def finish_group_def finalize_def)
  then show ?thesis by (simp add: counted_def comp_def)
qed

section \<open>Joins of both kinds\<close>

lemma join_algorithms_agree:
  assumes "equi_join j a b" and "op_sem T l = Inr ls" and "op_sem T r = Inr rs"
    and "\<forall>x \<in> set ls. \<forall>y \<in> set rs. joinable a b x y" and "\<forall>x \<in> set ls. row_get x a \<noteq> PNone"
  shows "\<exists>out. op_sem T (HashJoinOperator l r j) = Inr out \<and> op_sem T (NestedLoopJoinOperator l r j) = Inr out"
proof -
  have m: "rows_match j x y = Inr (compare_eq (row_get x a) (row_get y b)) \<and>
      hash_match j x y = on_match j x y" if "x \<in> set ls" "y \<in> set rs" for x y
    using equi_join_match [OF assms(1)] assms(4,5) that
    by (auto simp: on_match_def compare_eq_def py_eq_sym)
  have row: "rmap (rows_match j x) rs = Inr (map (\<lambda>y. compare_eq (row_get x a) (row_get y b)) rs)"
    if "x \<in> set ls" for x
    using m that by (intro rmap_total) blast
  have "rjoin_check j ls rs = Inr (map (\<lambda>x. map (\<lambda>y. compare_eq (row_get x a) (row_get y b)) rs) ls)"
    unfolding rjoin_check_def by (rule rmap_total) (rule row)
  moreover have "join_rows j (hash_match j) ls rs = join_rows j (on_match j) ls rs"
    using m by (intro join_rows_cong) blast
  ultimately show ?thesis using assms(2,3) by simp
qed

definition demo_spec :: "string \<Rightarrow> expr option \<Rightarrow> string list \<Rightarrow> join_spec" where
  "demo_spec ty cond keys = \<lparr>join_type = ty, on_condition = cond, left_name = ''s'', left_alias = None,
     right_name = ''t'', right_alias = None, right_cols = [''b''], join_keys = keys\<rparr>"

definition tbl_of :: "string \<Rightarrow> string \<Rightarrow> nat \<Rightarrow> Table" where
  "tbl_of name col rt = \<lparr>table_name = name, tbl_columns = [\<lparr>col_name = col, data_type = INTEGER,
     nullable = True, primary_key = False, is_unique = False\<rparr>], tbl_root = rt, tbl_primary_key = []\<rparr>"

definition demo_rows :: "pval list \<Rightarrow> pval list \<Rightarrow> Table \<Rightarrow> (RowId \<times> pval list) list" where
  "demo_rows us vs tbl = map (\<lambda>v. (\<lparr>rid_page_id = tbl_root tbl, rid_slot_index = 0\<rparr>, [v]))
     (if tbl_root tbl = 1 then us else vs)"

definition ab_condition :: expr where
  "ab_condition = BinaryOp ''='' (ColumnRef ''a'' None) (ColumnRef ''b'' None)"

lemma demo_scan:
  "op_sem (demo_rows us vs) (ScanOperator (tbl_of n c p)) =
     Inr (map (\<lambda>v. dict_set c v [(''_rowid'', PRowId p 0)]) (if p = 1 then us else vs))"
  by (simp add: demo_rows_def tbl_of_def scan_row_def row_dict_def comp_def)

lemma demo_equi: "equi_join (demo_spec ty (Some ab_condition) [''a'']) ''a'' ''b''"
  by (simp add: equi_join_def demo_spec_def ab_condition_def left_prefix_def right_prefix_def alias_or_def prefixed_def)

text \<open>
  NULLs join in a hash join: when both key columns are NULL, the hash join pairs the rows although
  the condition \<open>a = b\<close> is not true of them and the nested loop join drops them. Which of the two
  runs depends on the sizes of the tables.
\<close>

theorem hash_join_pairs_nulls:
  assumes "equi_join j a b" and "joinable a b x y" and "row_get x a = PNone" and "row_get y b = PNone"
    and "join_type j = ''INNER''"
  shows "join_rows j (hash_match j) [x] [y] = [combine_rows j x y] \<and> join_rows j (on_match j) [x] [y] = []"
  using equi_join_match [OF assms(1,2)] assms(3-5)
  by (simp add: join_rows_def join_block_def on_match_def compare_eq_def keeps_left_def keeps_right_def Let_def)

theorem hash_join_pairs_nulls_witness:
  "join_rows (demo_spec ''INNER'' (Some ab_condition) [''a''])
     (hash_match (demo_spec ''INNER'' (Some ab_condition) [''a''])) [[(''a'', PNone)]] [[(''b'', PNone)]]
   = [[(''a'', PNone), (''b'', PNone)]]"
  using hash_join_pairs_nulls [OF demo_equi [of "''INNER''"], of "[(''a'', PNone)]" "[(''b'', PNone)]"]
  by (simp add: joinable_def row_get_def demo_spec_def combine_rows_def merge_cols_def put_all_def visible_def Let_def)

text \<open>
  A join with USING is a cross product as long as the tables are small: the parser gives it no ON
  condition, and the nested loop join, unlike the hash join, does not look at the join keys without one.
\<close>

theorem using_join_is_cross_product:
  assumes "on_condition j = None" and "join_type j = ''INNER''" and "op_sem T l = Inr ls" and "op_sem T r = Inr rs"
  shows "op_sem T (NestedLoopJoinOperator l r j) = Inr (concat (map (\<lambda>x. map (combine_rows j x) rs) ls))"
proof -
  have m: "rows_match j x y = Inr True" for x y using assms(1) by (simp add: rows_match_def)
  have "rjoin_check j ls rs = Inr (map (\<lambda>x. map (\<lambda>y. True) rs) ls)"
    unfolding rjoin_check_def by (intro rmap_total) (simp add: m rmap_total)
  moreover have "on_match j = (\<lambda>x y. True)" using m by (intro ext) (simp add: on_match_def)
  moreover have "join_block j (\<lambda>x y. True) rs = (\<lambda>x. map (combine_rows j x) rs)"
    using assms(2) by (intro ext) (simp add: join_block_def keeps_left_def)
  ultimately show ?thesis using assms by (simp add: join_rows_def keeps_right_def)
qed

theorem using_join_is_cross_product_witness:
  "op_sem (demo_rows [PInt 1] [PInt 2])
     (NestedLoopJoinOperator (ScanOperator (tbl_of ''s'' ''a'' 1)) (ScanOperator (tbl_of ''t'' ''a'' 2))
        (demo_spec ''INNER'' None [''a'']))
   = Inr [[(''s_a'', PInt 1), (''t_a'', PInt 2)]]"
proof -
  have l: "op_sem (demo_rows [PInt 1] [PInt 2]) (ScanOperator (tbl_of ''s'' ''a'' 1)) =
      Inr [[(''_rowid'', PRowId 1 0), (''a'', PInt 1)]]"
    and r: "op_sem (demo_rows [PInt 1] [PInt 2]) (ScanOperator (tbl_of ''t'' ''a'' 2)) =
      Inr [[(''_rowid'', PRowId 2 0), (''a'', PInt 2)]]"
    unfolding demo_scan by simp_all
  have c: "combine_rows (demo_spec ''INNER'' None [''a'']) [(''_rowid'', PRowId 1 0), (''a'', PInt 1)]
      [(''_rowid'', PRowId 2 0), (''a'', PInt 2)] = [(''s_a'', PInt 1), (''t_a'', PInt 2)]"
    by (simp add: demo_spec_def combine_rows_def merge_cols_def put_all_def visible_def Let_def left_prefix_def
        right_prefix_def alias_or_def prefixed_def)
  have "on_condition (demo_spec ''INNER'' None [''a'']) = None" "join_type (demo_spec ''INNER'' None [''a'']) = ''INNER''"
    by (simp_all add: demo_spec_def)
  from using_join_is_cross_product [OF this l r] show ?thesis by (simp only: c list.map concat.simps append.simps)
qed

text \<open>
  ORDER BY on a column that is not selected does nothing: the sort runs on the projected rows, where
  the column is missing, reads NULL for it everywhere and leaves the rows as they were.
\<close>

theorem order_by_unselected_column:
  assumes "op_sem T src = Inr rs" and "\<forall>r \<in> set rs. dict_get r c = None"
  shows "op_sem T (SortOperator src [(ColumnRef c None, dir)]) = Inr rs"
proof -
  let ?ps = "map (\<lambda>r. (r, PNone)) rs" and ?key = "\<lambda>(r :: row, v). null_first_key v"
  have "rmap (evaluate (ColumnRef c None)) rs = Inr (map (\<lambda>r. PNone) rs)"
    using assms(2) by (intro rmap_total) (simp add: column_value_def row_get_def)
  moreover have "zip rs (map (\<lambda>r. PNone) rs) = ?ps" by (induction rs) auto
  moreover have "py_sort ?key desc ?ps = Inr ?ps" for desc
  proof -
    have c: "\<forall>x \<in> set ?ps. \<forall>y \<in> set ?ps. comparable (?key x) (?key y)"
      by (auto simp: comparable_def null_first_key_def)
    have n: "\<not> lt_of ?key x y" if "snd x = PNone" "snd y = PNone" for x y
      using that by (simp add: lt_of_def null_first_key_def case_prod_unfold)
    have "sorted_wrt (\<lambda>a b. \<not> lt_of ?key b a) xs" if "\<forall>x \<in> set xs. snd x = PNone" for xs
      using that n by (induction xs) (simp_all del: split_paired_All)
    then have "sort_by (lt_of ?key) xs = xs" if "\<forall>x \<in> set xs. snd x = PNone" for xs
      using that by (intro sort_by_same)
    from this [of ?ps] this [of "rev ?ps"]
    have "sort_by (lt_of ?key) ?ps = ?ps" "sort_by (lt_of ?key) (rev ?ps) = rev ?ps" by simp_all
    then show ?thesis using c unfolding py_sort_def by (simp only: if_P rev_rev_ident if_cancel)
  qed
  ultimately show ?thesis using assms(1) by (simp add: sort_pass_def comp_def)
qed

theorem order_by_unselected_column_witness:
  "op_sem (demo_rows [PInt 2, PInt 1] [])
      (SortOperator (ProjectOperator (ScanOperator (tbl_of ''s'' ''a'' 1)) [(''one'', Literal (PInt 1))])
        [(ColumnRef ''a'' None, ''ASC'')])
   = Inr [[(''one'', PInt 1)], [(''one'', PInt 1)]]"
proof -
  have "op_sem (demo_rows [PInt 2, PInt 1] [])
      (ProjectOperator (ScanOperator (tbl_of ''s'' ''a'' 1)) [(''one'', Literal (PInt 1))])
      = Inr [[(''one'', PInt 1)], [(''one'', PInt 1)]]"
    unfolding op_sem.simps(6) demo_scan by simp
  from order_by_unselected_column [OF this, of "''a''" "''ASC''"] show ?thesis by (simp del: op_sem.simps)
qed


end
