(* ===== verification/Btree.thy ===== *)
theory Btree
  imports Row_Format Page_Store
begin

text \<open>
  \<open>tinydb/index/btree.py\<close>: an index maps encoded keys to row ids. Its nodes are pages of the pool; a
  node is parsed from a page, changed and written back as a whole. The index itself is the number of
  its root page and the type of its keys; the operations work on the root and on a store with the
  methods of a pool (\<open>pool_ops\<close>).

  Descending the tree and following the leaves carry fuel, \<open>page_count + 1\<close>: more than a path without
  a cycle can have, so running out of it (\<open>NonTermination\<close>) means that the source would not return.
\<close>

section \<open>Keys\<close>

text \<open>The comparison of \<open>bytes\<close>.\<close>

fun bytes_lt :: "bytes \<Rightarrow> bytes \<Rightarrow> bool" where
  "bytes_lt xs [] = False"
| "bytes_lt [] (y # ys) = True"
| "bytes_lt (x # xs) (y # ys) = (unat x < unat y \<or> x = y \<and> bytes_lt xs ys)"

definition bytes_le :: "bytes \<Rightarrow> bytes \<Rightarrow> bool" where
  "bytes_le xs ys = (bytes_lt xs ys \<or> xs = ys)"

text \<open>\<open>value < 0\<close> on a number.\<close>

definition num_negative :: "pval \<Rightarrow> bool" where
  "num_negative v = (case py_num v of Some x \<Rightarrow> xnum_lt x (Fin 0) | None \<Rightarrow> False)"

definition flip_bytes :: "bool \<Rightarrow> bytes \<Rightarrow> bytes" where
  "flip_bytes neg raw = (if neg then map (\<lambda>b. NOT b) raw else map (\<lambda>b. b XOR 0x80) raw)"

definition encode_key :: "pval \<Rightarrow> DataType \<Rightarrow> bytes res" where
  "encode_key v t = (case t of
     INTEGER \<Rightarrow> (case v of
         PInt i \<Rightarrow> rbind (pack_i64 i) (\<lambda>raw. Inr (flip_bytes (num_negative v) (rev raw)))
       | PBool b \<Rightarrow> rbind (pack_i64 (if b then 1 else 0)) (\<lambda>raw. Inr (flip_bytes False (rev raw)))
       | _ \<Rightarrow> Inl StructError)
   | BOOLEAN \<Rightarrow> Inr [if py_truth v then 1 else 0]
   | FLOAT \<Rightarrow> (if is_instance_int v \<or> is_instance_float v
       then rbind (py_float v) (\<lambda>w. Inr (flip_bytes (num_negative v) (be_bytes 8 (unat w)))) else Inl StructError)
   | TEXT \<Rightarrow> (case v of
         PStr w \<Rightarrow> (let encoded = utf8_encode w in
           if length encoded < 2 ^ 32 then Inr (be_bytes 4 (length encoded) @ encoded) else Inl StructError)
       | _ \<Rightarrow> Inl AttributeError))"

definition decode_key :: "bytes \<Rightarrow> DataType \<Rightarrow> pval res" where
  "decode_key data t =
     (let restored = flip_bytes (unat (hd data) < 128) data in
      case t of
        INTEGER \<Rightarrow> (if data = [] then Inl IndexError else if length data \<noteq> 8 then Inl StructError
           else Inr (PInt (u_to_i64 (be_nat restored))))
      | BOOLEAN \<Rightarrow> (if length data \<noteq> 1 then Inl StructError else Inr (PBool (hd data \<noteq> 0)))
      | FLOAT \<Rightarrow> (if data = [] then Inl IndexError else if length data \<noteq> 8 then Inl StructError
           else Inr (PFloat (word_of_nat (be_nat restored))))
      | TEXT \<Rightarrow> (if length data < 4 then Inl StructError
           else rbind (utf8_decode (take (be_nat (take 4 data)) (drop 4 data))) (\<lambda>w. Inr (PStr w))))"

fun key_size :: "DataType \<Rightarrow> nat" where
  "key_size INTEGER = 8"
| "key_size BOOLEAN = 1"
| "key_size FLOAT = 8"
| "key_size TEXT = 32"

section \<open>Nodes\<close>

definition NODE_HEADER_SIZE :: nat where "NODE_HEADER_SIZE = 4"
definition NODE_DATA_OFFSET :: nat where "NODE_DATA_OFFSET = PAGE_HEADER_SIZE + NODE_HEADER_SIZE"

definition compute_max_keys :: "nat \<Rightarrow> bool \<Rightarrow> nat" where
  "compute_max_keys ksz is_leaf =
     (MAX_FREE_SPACE - NODE_HEADER_SIZE - 4) div (if is_leaf then ksz + 8 else ksz + 4)"

text \<open>
  The dict that \<open>_read_node\<close> returns: a leaf has entries and the page of the next leaf, an inner node
  keys and children. Its \<open>key_count\<close> is the number of entries.
\<close>

datatype node =
    Leaf "(bytes \<times> RowId) list" nat
  | Inner "bytes list" "nat list"

fun key_count :: "node \<Rightarrow> nat" where
  "key_count (Leaf entries nxt) = length entries"
| "key_count (Inner keys children) = length keys"

fun is_leaf :: "node \<Rightarrow> bool" where
  "is_leaf (Leaf entries nxt) = True"
| "is_leaf (Inner keys children) = False"

definition read_key :: "bytes \<Rightarrow> nat \<Rightarrow> (bytes \<times> nat) res" where
  "read_key data off =
     rbind (unpack_u 2 data off) (\<lambda>klen.
       Inr (slice_get data (int (off + 2)) (int (off + 2 + klen)), off + 2 + klen))"

fun read_entries :: "bytes \<Rightarrow> nat \<Rightarrow> nat \<Rightarrow> ((bytes \<times> RowId) list \<times> nat) res" where
  "read_entries data off 0 = Inr ([], off)"
| "read_entries data off (Suc n) =
     rbind (read_key data off) (\<lambda>(k, off1).
     rbind (unpack_u 4 data off1) (\<lambda>pid.
     rbind (unpack_u 4 data (off1 + 4)) (\<lambda>slot.
     rbind (read_entries data (off1 + 8) n) (\<lambda>(es, off2).
       Inr ((k, \<lparr>rid_page_id = pid, rid_slot_index = slot\<rparr>) # es, off2)))))"

fun read_keys :: "bytes \<Rightarrow> nat \<Rightarrow> nat \<Rightarrow> (bytes list \<times> nat) res" where
  "read_keys data off 0 = Inr ([], off)"
| "read_keys data off (Suc n) =
     rbind (read_key data off) (\<lambda>(k, off1).
     rbind (read_keys data off1 n) (\<lambda>(ks, off2). Inr (k # ks, off2)))"

fun read_children :: "bytes \<Rightarrow> nat \<Rightarrow> nat \<Rightarrow> nat list res" where
  "read_children data off 0 = Inr []"
| "read_children data off (Suc n) =
     rbind (unpack_u 4 data off) (\<lambda>c. rbind (read_children data (off + 4) n) (\<lambda>cs. Inr (c # cs)))"

definition parse_node :: "bytes \<Rightarrow> node res" where
  "parse_node data =
     (if length data \<le> PAGE_HEADER_SIZE then Inl IndexError
      else
        let flags = unat (data ! PAGE_HEADER_SIZE) in
        rbind (unpack_u 2 data (PAGE_HEADER_SIZE + 1)) (\<lambda>n.
          if odd flags then
            rbind (read_entries data NODE_DATA_OFFSET n) (\<lambda>(es, off).
            rbind (unpack_u 4 data off) (\<lambda>nxt. Inr (Leaf es nxt)))
          else
            rbind (read_keys data NODE_DATA_OFFSET n) (\<lambda>(ks, off).
            rbind (read_children data off (n + 1)) (\<lambda>cs. Inr (Inner ks cs)))))"

text \<open>
  Writing: \<open>struct.pack_into\<close> raises when the page is full, while the assignment of the key to a slice
  lengthens the bytearray.
\<close>

definition put_key :: "bytes \<Rightarrow> bytes \<Rightarrow> nat \<Rightarrow> (bytes \<times> nat) res" where
  "put_key k data off =
     rbind (pack_u 2 (int (length k))) (\<lambda>b.
     rbind (pack_into data off b) (\<lambda>data1.
       Inr (slice_set data1 (int (off + 2)) (int (off + 2 + length k)) k, off + 2 + length k)))"

fun put_entries :: "(bytes \<times> RowId) list \<Rightarrow> bytes \<Rightarrow> nat \<Rightarrow> (bytes \<times> nat) res" where
  "put_entries [] data off = Inr (data, off)"
| "put_entries ((k, rid) # es) data off =
     rbind (put_key k data off) (\<lambda>(data1, off1).
     rbind (pack_u 4 (int (rid_page_id rid))) (\<lambda>b1.
     rbind (pack_u 4 (int (rid_slot_index rid))) (\<lambda>b2.
     rbind (pack_into data1 off1 (b1 @ b2)) (\<lambda>data2.
       put_entries es data2 (off1 + 8)))))"

fun put_keys :: "bytes list \<Rightarrow> bytes \<Rightarrow> nat \<Rightarrow> (bytes \<times> nat) res" where
  "put_keys [] data off = Inr (data, off)"
| "put_keys (k # ks) data off = rbind (put_key k data off) (\<lambda>(data1, off1). put_keys ks data1 off1)"

fun put_children :: "nat list \<Rightarrow> bytes \<Rightarrow> nat \<Rightarrow> bytes res" where
  "put_children [] data off = Inr data"
| "put_children (c # cs) data off =
     rbind (pack_u 4 (int c)) (\<lambda>b. rbind (pack_into data off b) (\<lambda>data1. put_children cs data1 (off + 4)))"

definition node_bytes :: "nat \<Rightarrow> node \<Rightarrow> bytes res" where
  "node_bytes page_id nd =
     rbind (pack_page_header \<lparr>h_page_id = page_id, h_page_type = INDEX, h_slot_count = 0, h_free_space = 0,
        h_free_offset = PAGE_SIZE, h_next_page_id = 0, h_flags = 0\<rparr>) (\<lambda>header.
     let data = slice_set (replicate PAGE_SIZE 0) 0 (int PAGE_HEADER_SIZE) header;
         data1 = data[PAGE_HEADER_SIZE := (if is_leaf nd then 1 else 0)] in
     rbind (pack_u 2 (int (key_count nd))) (\<lambda>cnt.
     rbind (pack_into data1 (PAGE_HEADER_SIZE + 1) cnt) (\<lambda>data2.
     let data3 = data2[PAGE_HEADER_SIZE + 3 := 0] in
     case nd of
       Leaf es nxt \<Rightarrow>
         rbind (put_entries es data3 NODE_DATA_OFFSET) (\<lambda>(d, off).
         rbind (pack_u 4 (int nxt)) (\<lambda>b. pack_into d off b))
     | Inner ks cs \<Rightarrow>
         rbind (put_keys ks data3 NODE_DATA_OFFSET) (\<lambda>(d, off). put_children cs d off))))"

definition read_node :: "'s pool_ops \<Rightarrow> nat \<Rightarrow> ('s, node) st" where
  "read_node ops page_id = sbind (po_get ops page_id None) (\<lambda>data. slift (parse_node data))"

definition persist_node :: "'s pool_ops \<Rightarrow> nat \<Rightarrow> node \<Rightarrow> ('s, unit) st" where
  "persist_node ops page_id nd =
     sbind (slift (node_bytes page_id nd)) (\<lambda>data.
     sbind (po_set ops page_id data) (\<lambda>_. po_write ops page_id data))"

section \<open>The tree\<close>

record btree =
  bt_key_type :: DataType
  bt_root :: nat

text \<open>The index with the store its pages are in.\<close>

record 's index =
  ix_store :: 's
  ix_root :: nat

abbreviation on_store :: "('s, 'a) st \<Rightarrow> ('s index, 'a) st" where
  "on_store \<equiv> szoom ix_store (\<lambda>s i. i\<lparr>ix_store := s\<rparr>)"

definition max_keys :: "DataType \<Rightarrow> node \<Rightarrow> nat" where
  "max_keys t nd = compute_max_keys (key_size t) (is_leaf nd)"

text \<open>The loop that looks for the first key greater than the one sought.\<close>

fun child_index :: "bytes \<Rightarrow> bytes list \<Rightarrow> nat" where
  "child_index key [] = 0"
| "child_index key (k # ks) = (if bytes_lt key k then 0 else Suc (child_index key ks))"

definition insert_entry :: "bytes \<Rightarrow> RowId \<Rightarrow> (bytes \<times> RowId) list \<Rightarrow> (bytes \<times> RowId) list" where
  "insert_entry key rid es =
     (let i = child_index key (map fst es) in take i es @ (key, rid) # drop i es)"

definition nth_child :: "nat list \<Rightarrow> nat \<Rightarrow> nat res" where
  "nth_child cs i = (if i < length cs then Inr (cs ! i) else Inl IndexError)"

definition new_index :: "'s pool_ops \<Rightarrow> ('s, nat) st" where
  "new_index ops = sbind (po_alloc ops) (\<lambda>p. sbind (persist_node ops p (Leaf [] 0)) (\<lambda>_. sret p))"

text \<open>The halves of a full node and the key between them; the left half of a leaf loses its link.\<close>

fun split_node :: "node \<Rightarrow> (node \<times> bytes \<times> node) res" where
  "split_node (Leaf es nxt) =
     (let mid = length es div 2 in
      case drop mid es of
        [] \<Rightarrow> Inl IndexError
      | (k, rid) # es2 \<Rightarrow> Inr (Leaf (take mid es) 0, k, Leaf (drop mid es) nxt))"
| "split_node (Inner ks cs) =
     (let mid = length ks div 2 in
      if mid < length ks
      then Inr (Inner (take mid ks) (take (mid + 1) cs), ks ! mid, Inner (drop (mid + 1) ks) (drop (mid + 1) cs))
      else Inl IndexError)"

definition split_child :: "'s pool_ops \<Rightarrow> nat \<Rightarrow> nat \<Rightarrow> ('s, unit) st" where
  "split_child ops parent_page i =
     sbind (read_node ops parent_page) (\<lambda>parent. case parent of
       Leaf es nxt \<Rightarrow> sraise KeyError
     | Inner ks cs \<Rightarrow>
         sbind (slift (nth_child cs i)) (\<lambda>child_page.
         sbind (read_node ops child_page) (\<lambda>child.
         sbind (po_alloc ops) (\<lambda>right_page.
         sbind (slift (split_node child)) (\<lambda>(left, mid_key, right).
         sbind (persist_node ops child_page left) (\<lambda>_.
         sbind (persist_node ops right_page right) (\<lambda>_.
           persist_node ops parent_page
             (Inner (take i ks @ mid_key # drop i ks) (take (i + 1) cs @ right_page # drop (i + 1) cs)))))))))"

fun insert_nonfull :: "'s pool_ops \<Rightarrow> DataType \<Rightarrow> nat \<Rightarrow> nat \<Rightarrow> bytes \<Rightarrow> RowId \<Rightarrow> ('s, unit) st" where
  "insert_nonfull ops t 0 page_id key rid = sraise NonTermination"
| "insert_nonfull ops t (Suc fuel) page_id key rid =
     sbind (read_node ops page_id) (\<lambda>nd. case nd of
       Leaf es nxt \<Rightarrow> persist_node ops page_id (Leaf (insert_entry key rid es) nxt)
     | Inner ks cs \<Rightarrow>
         (let i = child_index key ks in
          sbind (slift (nth_child cs i)) (\<lambda>child_page.
          sbind (read_node ops child_page) (\<lambda>child.
            if key_count child \<ge> max_keys t child then
              sbind (split_child ops page_id i) (\<lambda>_.
              sbind (read_node ops page_id) (\<lambda>nd'. case nd' of
                Leaf es nxt \<Rightarrow> sraise KeyError
              | Inner ks' cs' \<Rightarrow>
                  sbind (slift (nth_child cs' (if i < length ks' \<and> bytes_lt (ks' ! i) key then i + 1 else i))) (\<lambda>c.
                    insert_nonfull ops t fuel c key rid)))
            else insert_nonfull ops t fuel child_page key rid))))"

text \<open>
  A full root, measured by the capacity of leaves, is split under a new root. Both pages are allocated
  before the halves are taken.
\<close>

definition btree_insert :: "'s pool_ops \<Rightarrow> DataType \<Rightarrow> pval \<Rightarrow> RowId \<Rightarrow> ('s index, unit) st" where
  "btree_insert ops t key rid =
     sbind (slift (encode_key key t)) (\<lambda>k.
     sbind (sget ix_root) (\<lambda>r.
     sbind (on_store (read_node ops r)) (\<lambda>nd.
     sbind (if key_count nd \<ge> compute_max_keys (key_size t) True then
         sbind (on_store (po_alloc ops)) (\<lambda>new_root.
         sbind (on_store (po_alloc ops)) (\<lambda>right_page.
         sbind (slift (split_node nd)) (\<lambda>(left, mid_key, right).
         sbind (on_store (persist_node ops r left)) (\<lambda>_.
         sbind (on_store (persist_node ops right_page right)) (\<lambda>_.
         sbind (on_store (persist_node ops new_root (Inner [mid_key] [r, right_page]))) (\<lambda>_.
           smod (\<lambda>i. i\<lparr>ix_root := new_root\<rparr>)))))))
       else sret ()) (\<lambda>_.
     sbind (sget ix_root) (\<lambda>r'.
       on_store (\<lambda>s. insert_nonfull ops t (po_count ops s + 1) r' k rid s))))))"

fun search_node :: "'s pool_ops \<Rightarrow> nat \<Rightarrow> nat \<Rightarrow> bytes \<Rightarrow> ('s, RowId list) st" where
  "search_node ops 0 page_id key = sraise NonTermination"
| "search_node ops (Suc fuel) page_id key =
     sbind (read_node ops page_id) (\<lambda>nd. case nd of
       Leaf es nxt \<Rightarrow> sret (map snd (filter (\<lambda>(k, rid). k = key) es))
     | Inner ks cs \<Rightarrow>
         (let i = child_index key ks in
          if i < length cs then search_node ops fuel (cs ! i) key else sret []))"

definition btree_search :: "'s pool_ops \<Rightarrow> DataType \<Rightarrow> pval \<Rightarrow> ('s index, RowId list) st" where
  "btree_search ops t key =
     sbind (slift (encode_key key t)) (\<lambda>k.
     sbind (sget ix_root) (\<lambda>r. on_store (\<lambda>s. search_node ops (po_count ops s + 1) r k s)))"

fun delete_from_node :: "'s pool_ops \<Rightarrow> nat \<Rightarrow> nat \<Rightarrow> bytes \<Rightarrow> RowId \<Rightarrow> ('s, unit) st" where
  "delete_from_node ops 0 page_id key rid = sraise NonTermination"
| "delete_from_node ops (Suc fuel) page_id key rid =
     sbind (read_node ops page_id) (\<lambda>nd. case nd of
       Leaf es nxt \<Rightarrow> persist_node ops page_id (Leaf (filter (\<lambda>e. e \<noteq> (key, rid)) es) nxt)
     | Inner ks cs \<Rightarrow>
         (let i = child_index key ks in
          if i < length cs then delete_from_node ops fuel (cs ! i) key rid else sret ()))"

definition btree_delete :: "'s pool_ops \<Rightarrow> DataType \<Rightarrow> pval \<Rightarrow> RowId \<Rightarrow> ('s index, unit) st" where
  "btree_delete ops t key rid =
     sbind (slift (encode_key key t)) (\<lambda>k.
     sbind (sget ix_root) (\<lambda>r. on_store (\<lambda>s. delete_from_node ops (po_count ops s + 1) r k rid s)))"

section \<open>Range scans\<close>

fun find_leftmost_leaf :: "'s pool_ops \<Rightarrow> nat \<Rightarrow> nat \<Rightarrow> ('s, nat) st" where
  "find_leftmost_leaf ops 0 page_id = sraise NonTermination"
| "find_leftmost_leaf ops (Suc fuel) page_id =
     sbind (read_node ops page_id) (\<lambda>nd. case nd of
       Inner ks (c # cs) \<Rightarrow> find_leftmost_leaf ops fuel c
     | _ \<Rightarrow> sret page_id)"

fun find_leaf :: "'s pool_ops \<Rightarrow> nat \<Rightarrow> nat \<Rightarrow> bytes \<Rightarrow> ('s, nat) st" where
  "find_leaf ops 0 page_id key = sraise NonTermination"
| "find_leaf ops (Suc fuel) page_id key =
     sbind (read_node ops page_id) (\<lambda>nd. case nd of
       Leaf es nxt \<Rightarrow> sret page_id
     | Inner ks cs \<Rightarrow>
         (let i = child_index key ks in
          if i < length cs then find_leaf ops fuel (cs ! i) key else sret page_id))"

text \<open>The entries of one leaf: the rows within the bounds, and whether the upper bound was passed.\<close>

fun range_entries :: "bytes option \<Rightarrow> bytes option \<Rightarrow> bool \<Rightarrow> bool \<Rightarrow> (bytes \<times> RowId) list \<Rightarrow> RowId list \<times> bool" where
  "range_entries lo hi lo_incl hi_incl [] = ([], False)"
| "range_entries lo hi lo_incl hi_incl ((k, rid) # es) =
     (if (case lo of None \<Rightarrow> False | Some b \<Rightarrow> bytes_lt k b \<or> \<not> lo_incl \<and> k = b)
      then range_entries lo hi lo_incl hi_incl es
      else if (case hi of None \<Rightarrow> False | Some b \<Rightarrow> bytes_lt b k \<or> \<not> hi_incl \<and> k = b) then ([], True)
      else let (rids, past) = range_entries lo hi lo_incl hi_incl es in (rid # rids, past))"

text \<open>An inner page in the chain of leaves has keys without rows: the source would put \<open>None\<close> into its result and stop.\<close>

fun scan_leaves :: "'s pool_ops \<Rightarrow> nat \<Rightarrow> bytes option \<Rightarrow> bytes option \<Rightarrow> bool \<Rightarrow> bool \<Rightarrow> nat \<Rightarrow> ('s, RowId list) st" where
  "scan_leaves ops fuel lo hi lo_incl hi_incl 0 = sret []"
| "scan_leaves ops 0 lo hi lo_incl hi_incl (Suc p) = sraise NonTermination"
| "scan_leaves ops (Suc fuel) lo hi lo_incl hi_incl (Suc p) =
     sbind (read_node ops (Suc p)) (\<lambda>nd. case nd of
       Inner ks cs \<Rightarrow> sraise TypeError
     | Leaf es nxt \<Rightarrow>
         (let (rids, past) = range_entries lo hi lo_incl hi_incl es in
          if past then sret rids
          else sbind (scan_leaves ops fuel lo hi lo_incl hi_incl nxt) (\<lambda>rids2. sret (rids @ rids2))))"

definition encode_bound :: "DataType \<Rightarrow> pval \<Rightarrow> bytes option res" where
  "encode_bound t v = (if v = PNone then Inr None else rbind (encode_key v t) (\<lambda>k. Inr (Some k)))"

definition range_scan :: "'s pool_ops \<Rightarrow> DataType \<Rightarrow> pval \<Rightarrow> pval \<Rightarrow> bool \<Rightarrow> bool \<Rightarrow> ('s index, RowId list) st" where
  "range_scan ops t lo hi lo_incl hi_incl =
     sbind (slift (encode_bound t lo)) (\<lambda>lo_bytes.
     sbind (slift (encode_bound t hi)) (\<lambda>hi_bytes.
     sbind (sget ix_root) (\<lambda>r. on_store (\<lambda>s.
       (sbind (case lo_bytes of None \<Rightarrow> find_leftmost_leaf ops (po_count ops s + 1) r
               | Some k \<Rightarrow> find_leaf ops (po_count ops s + 1) r k) (\<lambda>leaf.
          scan_leaves ops (po_count ops s + 1) lo_bytes hi_bytes lo_incl hi_incl leaf)) s))))"

end
