(* ===== verification/Py_Repr.thy ===== *)
theory Py_Repr
  imports Expressions
begin

text \<open>
  \<open>str\<close> of an expression. The nodes are dataclasses, so the planner, which names a computed column
  by \<open>str(col)\<close>, gets the generated \<open>__repr__\<close>: class name and fields in order. Floats print as the
  shortest decimal that reads back as the same double.
\<close>

section \<open>Numbers\<close>

definition digit_char :: "nat \<Rightarrow> char" where
  "digit_char d = char_of (48 + d)"

fun nat_str :: "nat \<Rightarrow> string" where
  "nat_str n = (if n < 10 then [digit_char n] else nat_str (n div 10) @ [digit_char (n mod 10)])"

declare nat_str.simps [simp del]

definition int_str :: "int \<Rightarrow> string" where
  "int_str i = (if i < 0 then ''-'' @ nat_str (nat (- i)) else nat_str (nat i))"

definition pow10 :: "int \<Rightarrow> rat" where
  "pow10 e = (if 0 \<le> e then 10 ^ nat e else 1 / 10 ^ nat (- e))"

text \<open>\<open>10 ^ k \<le> r < 10 ^ (k + 1)\<close>, for the range of doubles.\<close>

definition dec_exp :: "rat \<Rightarrow> int" where
  "dec_exp r = (case find (\<lambda>k. pow10 k \<le> r \<and> r < pow10 (k + 1)) [-330..310] of Some k \<Rightarrow> k | None \<Rightarrow> 0)"

text \<open>With \<open>p\<close> digits: the nearer of the two neighbours first.\<close>

definition digits_for :: "double \<Rightarrow> rat \<Rightarrow> nat \<Rightarrow> (nat \<times> int) option" where
  "digits_for w r p =
     (let e = dec_exp r - int p + 1; q = r / pow10 e; lo = nat \<lfloor>q\<rfloor>; d = q - of_nat lo;
          cands = (if d < 1 / 2 \<or> d = 1 / 2 \<and> even lo then [lo, lo + 1] else [lo + 1, lo])
      in map_option (\<lambda>n. (n, e)) (find (\<lambda>n. f_of_rat False (of_nat n * pow10 e) = w) cands))"

fun first_some :: "('a \<Rightarrow> 'b option) \<Rightarrow> 'a list \<Rightarrow> 'b option" where
  "first_some f [] = None"
| "first_some f (x # xs) = (case f x of None \<Rightarrow> first_some f xs | Some y \<Rightarrow> Some y)"

text \<open>The digits and the position of the decimal point, counted from before the first digit.\<close>

definition shortest_digits :: "double \<Rightarrow> rat \<Rightarrow> string \<times> int" where
  "shortest_digits w r =
     (case first_some (digits_for w r) [1..<18] of
        Some (n, e) \<Rightarrow> (let s = nat_str n
          in (rev (dropWhile (\<lambda>c. c = CHR ''0'') (rev s)), int (length s) + e))
      | None \<Rightarrow> ([], 0))"

definition format_float :: "string \<times> int \<Rightarrow> string" where
  "format_float dp = (case dp of (ds, pt) \<Rightarrow>
     if -4 < pt \<and> pt \<le> 16 then
       (if pt \<le> 0 then ''0.'' @ replicate (nat (- pt)) CHR ''0'' @ ds
        else if int (length ds) \<le> pt then ds @ replicate (nat pt - length ds) CHR ''0'' @ ''.0''
        else take (nat pt) ds @ ''.'' @ drop (nat pt) ds)
     else
       (let e = pt - 1; m = nat_str (nat \<bar>e\<bar>) in
        take 1 ds @ (if length ds = 1 then '''' else ''.'' @ drop 1 ds) @ ''e'' @
        (if e < 0 then ''-'' else ''+'') @ (if length m = 1 then ''0'' @ m else m)))"

definition float_repr :: "double \<Rightarrow> string" where
  "float_repr w =
     (if f_is_nan w then ''nan''
      else (if f_neg w then ''-'' else '''') @
        (if f_is_inf w then ''inf''
         else if f_is_zero w then ''0.0''
         else let u = (if f_neg w then f_minus w else w) in format_float (shortest_digits u (f_rat u))))"

section \<open>Strings and values\<close>

definition hex_char :: "nat \<Rightarrow> char" where
  "hex_char d = (if d < 10 then digit_char d else char_of (87 + d))"

definition repr_char :: "char \<Rightarrow> char \<Rightarrow> string" where
  "repr_char quote c =
     (let n = of_char c :: nat in
      if c = quote \<or> n = 92 then [CHR 0x5C, c]
      else if n = 10 then [CHR 0x5C, CHR ''n'']
      else if n = 13 then [CHR 0x5C, CHR ''r'']
      else if n = 9 then [CHR 0x5C, CHR ''t'']
      else if n < 32 \<or> 127 \<le> n \<and> n \<le> 160 \<or> n = 173
      then [CHR 0x5C, CHR ''x'', hex_char (n div 16), hex_char (n mod 16)]
      else [c])"

definition str_repr :: "string \<Rightarrow> string" where
  "str_repr s =
     (let quote = (if CHR 0x27 \<in> set s \<and> CHR 0x22 \<notin> set s then CHR 0x22 else CHR 0x27)
      in [quote] @ concat (map (repr_char quote) s) @ [quote])"

fun bool_repr :: "bool \<Rightarrow> string" where
  "bool_repr True = ''True''"
| "bool_repr False = ''False''"

fun value_repr :: "pval \<Rightarrow> string" where
  "value_repr PNone = ''None''"
| "value_repr (PBool b) = bool_repr b"
| "value_repr (PInt i) = int_str i"
| "value_repr (PFloat w) = float_repr w"
| "value_repr (PStr s) = str_repr s"
| "value_repr (PRowId p i) = ''RowId(page_id='' @ nat_str p @ '', slot_index='' @ nat_str i @ '')''"

fun expr_repr :: "expr \<Rightarrow> string" where
  "expr_repr (Literal v) = ''Literal(value='' @ value_repr v @ '')''"
| "expr_repr (ColumnRef name tbl) = ''ColumnRef(name='' @ str_repr name @ '', table='' @
     (case tbl of None \<Rightarrow> ''None'' | Some t \<Rightarrow> str_repr t) @ '')''"
| "expr_repr StarExpr = ''StarExpr()''"
| "expr_repr (BinaryOp op l r) = ''BinaryOp(op='' @ str_repr op @ '', left='' @ expr_repr l @
     '', right='' @ expr_repr r @ '')''"
| "expr_repr (UnaryOp op e) = ''UnaryOp(op='' @ str_repr op @ '', operand='' @ expr_repr e @ '')''"
| "expr_repr (AggregateExpr f arg d) = ''AggregateExpr(func='' @ str_repr f @ '', arg='' @ expr_repr arg @
     '', distinct='' @ bool_repr d @ '')''"
| "expr_repr (IsNullExpr e neg) = ''IsNullExpr(operand='' @ expr_repr e @ '', negated='' @ bool_repr neg @ '')''"

section \<open>Reading numbers back\<close>

text \<open>\<open>int(text)\<close> for a text of decimal digits.\<close>

definition digit_value :: "char \<Rightarrow> nat" where
  "digit_value c = of_char c - 48"

definition nat_of_str :: "string \<Rightarrow> nat" where
  "nat_of_str s = foldl (\<lambda>n c. 10 * n + digit_value c) 0 s"

lemma digit_value_char [simp]: "d < 10 \<Longrightarrow> digit_value (digit_char d) = d"
  by (simp add: digit_value_def digit_char_def)

lemma nat_of_str_snoc [simp]: "nat_of_str (s @ [c]) = 10 * nat_of_str s + digit_value c"
  by (simp add: nat_of_str_def)

lemma nat_str_roundtrip [simp]: "nat_of_str (nat_str n) = n"
proof (induction n rule: nat_str.induct)
  case (1 n)
  show ?case
  proof (cases "n < 10")
    case True
    then show ?thesis by (subst nat_str.simps) (simp add: nat_of_str_def)
  next
    case False
    with 1 show ?thesis by (subst nat_str.simps) simp
  qed
qed

lemma nat_str_digits: "c \<in> set (nat_str n) \<Longrightarrow> 48 \<le> (of_char c :: nat) \<and> (of_char c :: nat) \<le> 57"
proof (induction n rule: nat_str.induct)
  case (1 n)
  have "of_char (digit_char d) = 48 + d" if "d < 10" for d :: nat using that by (simp add: digit_char_def)
  with 1 show ?case by (subst (asm) nat_str.simps) (auto split: if_splits)
qed

lemma nat_str_nonempty [simp]: "nat_str n \<noteq> []"
  by (subst nat_str.simps) simp

end
