(* ===== verification/Lexer.thy ===== *)
theory Lexer
  imports Py_Repr
begin

text \<open>
  \<open>tinydb/sql/lexer.py\<close>. The lexer is a cursor over the text: the input that is left, the offset,
  and line and column for the error messages. The scanning loops of the source, which collect
  characters while a condition holds, are \<open>takeWhile\<close> here. Characters are the code points up
  to 255, with Python's classification of them: the superscript digits count as digits although
  \<open>int\<close> does not read them.
\<close>

section \<open>Tokens\<close>

datatype TokenType =
    T_SELECT | T_FROM | T_WHERE | T_INSERT | T_INTO | T_VALUES | T_UPDATE | T_SET | T_DELETE | T_CREATE
  | T_TABLE | T_DROP | T_ORDER | T_BY | T_LIMIT | T_OFFSET | T_AND | T_OR | T_NOT | T_NULL | T_PRIMARY
  | T_KEY | T_UNIQUE | T_INTEGER | T_FLOAT | T_TEXT | T_BOOLEAN | T_ASC | T_DESC | T_GROUP | T_AS
  | T_JOIN | T_INNER | T_LEFT | T_RIGHT | T_FULL | T_OUTER | T_CROSS | T_NATURAL | T_ON | T_USING | T_DOT
  | T_INT_LIT | T_FLOAT_LIT | T_STR_LIT | T_BOOL_LIT | T_IDENT
  | T_OP | T_COMMA | T_LPAREN | T_RPAREN | T_SEMICOLON | T_STAR | T_EOF

definition sql_keywords :: "(string \<times> TokenType) list" where
  "sql_keywords =
    [(''SELECT'', T_SELECT), (''FROM'', T_FROM), (''WHERE'', T_WHERE), (''INSERT'', T_INSERT), (''INTO'', T_INTO),
     (''VALUES'', T_VALUES), (''UPDATE'', T_UPDATE), (''SET'', T_SET), (''DELETE'', T_DELETE), (''CREATE'', T_CREATE),
     (''TABLE'', T_TABLE), (''DROP'', T_DROP), (''ORDER'', T_ORDER), (''BY'', T_BY), (''LIMIT'', T_LIMIT),
     (''OFFSET'', T_OFFSET), (''AND'', T_AND), (''OR'', T_OR), (''NOT'', T_NOT), (''NULL'', T_NULL),
     (''PRIMARY'', T_PRIMARY), (''KEY'', T_KEY), (''UNIQUE'', T_UNIQUE), (''INTEGER'', T_INTEGER), (''FLOAT'', T_FLOAT),
     (''TEXT'', T_TEXT), (''BOOLEAN'', T_BOOLEAN), (''ASC'', T_ASC), (''DESC'', T_DESC), (''GROUP'', T_GROUP),
     (''AS'', T_AS), (''JOIN'', T_JOIN), (''INNER'', T_INNER), (''LEFT'', T_LEFT), (''RIGHT'', T_RIGHT),
     (''FULL'', T_FULL), (''OUTER'', T_OUTER), (''CROSS'', T_CROSS), (''NATURAL'', T_NATURAL), (''ON'', T_ON),
     (''USING'', T_USING), (''TRUE'', T_BOOL_LIT), (''FALSE'', T_BOOL_LIT)]"

record Token =
  tok_type :: TokenType
  tok_value :: pval
  tok_line :: nat
  tok_column :: nat
  tok_offset :: nat
  tok_text :: string

section \<open>Character classes\<close>

definition is_decimal :: "char \<Rightarrow> bool" where
  "is_decimal c = (let n = of_char c :: nat in 48 \<le> n \<and> n \<le> 57)"

definition is_digit :: "char \<Rightarrow> bool" where
  "is_digit c = (let n = of_char c :: nat in is_decimal c \<or> n = 178 \<or> n = 179 \<or> n = 185)"

definition is_alpha :: "char \<Rightarrow> bool" where
  "is_alpha c =
     (let n = of_char c :: nat
      in 65 \<le> n \<and> n \<le> 90 \<or> 97 \<le> n \<and> n \<le> 122 \<or> n = 170 \<or> n = 181 \<or> n = 186 \<or>
         192 \<le> n \<and> n \<le> 214 \<or> 216 \<le> n \<and> n \<le> 246 \<or> 248 \<le> n)"

definition is_alnum :: "char \<Rightarrow> bool" where
  "is_alnum c = (let n = of_char c :: nat in is_alpha c \<or> is_digit c \<or> 188 \<le> n \<and> n \<le> 190)"

text \<open>
  \<open>upper\<close>. The two letters whose capitals lie beyond 255 stay as they are, which makes no
  difference to a comparison with an ASCII word.
\<close>

definition upper_char :: "char \<Rightarrow> string" where
  "upper_char c =
     (let n = of_char c :: nat
      in if 97 \<le> n \<and> n \<le> 122 \<or> 224 \<le> n \<and> n \<le> 254 \<and> n \<noteq> 247 then [char_of (n - 32)]
         else if n = 223 then ''SS'' else [c])"

definition upper :: "string \<Rightarrow> string" where
  "upper s = concat (map upper_char s)"

definition is_space :: "char \<Rightarrow> bool" where
  "is_space c = (c \<in> {CHR '' '', CHR 0x09, CHR 0x0D, CHR 0x0A})"

section \<open>The cursor\<close>

record lexer =
  lx_rest :: string
  lx_pos :: nat
  lx_line :: nat
  lx_col :: nat

definition step_char :: "lexer \<Rightarrow> char \<Rightarrow> lexer" where
  "step_char s c =
     s\<lparr>lx_rest := tl (lx_rest s), lx_pos := lx_pos s + 1,
       lx_line := (if c = CHR 0x0A then lx_line s + 1 else lx_line s),
       lx_col := (if c = CHR 0x0A then 1 else lx_col s + 1)\<rparr>"

definition advance_over :: "string \<Rightarrow> lexer \<Rightarrow> lexer" where
  "advance_over w s = foldl step_char s w"

definition skip_whitespace :: "lexer \<Rightarrow> lexer" where
  "skip_whitespace s = advance_over (takeWhile is_space (lx_rest s)) s"

text \<open>
  Tokens of fixed spelling carry the offset of their first character; strings, numbers and words the
  offset behind their last one, because the source reads \<open>_pos\<close> after the scan.
\<close>

definition fixed_token :: "TokenType \<Rightarrow> string \<Rightarrow> lexer \<Rightarrow> Token \<times> lexer" where
  "fixed_token ty w s =
     (\<lparr>tok_type = ty, tok_value = PStr w, tok_line = lx_line s, tok_column = lx_col s,
       tok_offset = lx_pos s, tok_text = w\<rparr>, advance_over w s)"

definition scanned_token :: "TokenType \<Rightarrow> pval \<Rightarrow> string \<Rightarrow> lexer \<Rightarrow> Token \<times> lexer" where
  "scanned_token ty v w s =
     (let t = advance_over w s
      in (\<lparr>tok_type = ty, tok_value = v, tok_line = lx_line s, tok_column = lx_col s,
           tok_offset = lx_pos t, tok_text = w\<rparr>, t))"

definition make_token :: "TokenType \<Rightarrow> char \<Rightarrow> lexer \<Rightarrow> Token \<times> lexer" where
  "make_token ty c s = fixed_token ty [c] s"

definition make_op :: "string \<Rightarrow> lexer \<Rightarrow> Token \<times> lexer" where
  "make_op w s = fixed_token T_OP w s"

section \<open>Scanners\<close>

definition scan_not_equal :: "lexer \<Rightarrow> (Token \<times> lexer) res" where
  "scan_not_equal s =
     (if take 1 (drop 1 (lx_rest s)) = ''='' then Inr (make_op ''!='' s)
      else Inl (LexerError (lx_line s) (lx_col s)))"

definition scan_lt :: "lexer \<Rightarrow> Token \<times> lexer" where
  "scan_lt s =
     (if take 1 (drop 1 (lx_rest s)) = ''='' then make_op ''<='' s
      else if take 1 (drop 1 (lx_rest s)) = ''>'' then make_op ''<>'' s
      else make_op ''<'' s)"

definition scan_gt :: "lexer \<Rightarrow> Token \<times> lexer" where
  "scan_gt s = (if take 1 (drop 1 (lx_rest s)) = ''='' then make_op ''>='' s else make_op ''>'' s)"

definition scan_string :: "lexer \<Rightarrow> (Token \<times> lexer) res" where
  "scan_string s =
     (let chars = takeWhile (\<lambda>c. c \<noteq> CHR 0x27) (drop 1 (lx_rest s))
      in if length chars + 1 \<ge> length (lx_rest s) then Inl (LexerError (lx_line s) (lx_col s))
         else Inr (scanned_token T_STR_LIT (PStr chars) (CHR 0x27 # chars @ [CHR 0x27]) s))"

text \<open>\<open>int(text)\<close> and \<open>float(text)\<close> on digits; the interpreter refuses integers of more than 4300 digits.\<close>

definition int_of_text :: "string \<Rightarrow> int res" where
  "int_of_text ds =
     (if list_all is_decimal ds \<and> length ds \<le> 4300 then Inr (int (nat_of_str ds)) else Inl ValueError)"

definition float_of_text :: "string \<Rightarrow> string \<Rightarrow> double res" where
  "float_of_text ds fs =
     (if list_all is_decimal (ds @ fs) then Inr (f_of_decimal (nat_of_str (ds @ fs)) (length fs))
      else Inl ValueError)"

definition scan_number :: "lexer \<Rightarrow> (Token \<times> lexer) res" where
  "scan_number s =
     (let ds = takeWhile is_digit (lx_rest s); more = drop (length ds) (lx_rest s)
      in if take 1 more = ''.'' then
           (let fs = takeWhile is_digit (drop 1 more)
            in rbind (float_of_text ds fs) (\<lambda>v. Inr (scanned_token T_FLOAT_LIT (PFloat v) (ds @ ''.'' @ fs) s)))
         else rbind (int_of_text ds) (\<lambda>v. Inr (scanned_token T_INT_LIT (PInt v) ds s)))"

definition word_char :: "char \<Rightarrow> bool" where
  "word_char c = (is_alnum c \<or> c = CHR ''_'')"

definition scan_identifier :: "lexer \<Rightarrow> Token \<times> lexer" where
  "scan_identifier s =
     (let w = takeWhile word_char (lx_rest s); u = upper w
      in case map_of sql_keywords u of
           Some ty \<Rightarrow> scanned_token ty (if ty = T_BOOL_LIT then PBool (u = ''TRUE'') else PStr u) w s
         | None \<Rightarrow> scanned_token T_IDENT (PStr w) w s)"

definition scan_token :: "char \<Rightarrow> lexer \<Rightarrow> (Token \<times> lexer) res" where
  "scan_token c s =
     (if c = CHR '','' then Inr (make_token T_COMMA c s)
      else if c = CHR ''('' then Inr (make_token T_LPAREN c s)
      else if c = CHR '')'' then Inr (make_token T_RPAREN c s)
      else if c = CHR '';'' then Inr (make_token T_SEMICOLON c s)
      else if c = CHR ''*'' then Inr (make_token T_STAR c s)
      else if c \<in> set ''+-/'' then Inr (make_op [c] s)
      else if c = CHR ''!'' then scan_not_equal s
      else if c = CHR ''='' then Inr (make_op ''='' s)
      else if c = CHR ''<'' then Inr (scan_lt s)
      else if c = CHR ''>'' then Inr (scan_gt s)
      else if c = CHR ''.'' then Inr (make_token T_DOT c s)
      else if c = CHR 0x27 then scan_string s
      else if is_digit c then scan_number s
      else if is_alpha c \<or> c = CHR ''_'' then Inr (scan_identifier s)
      else Inl (LexerError (lx_line s) (lx_col s)))"


section \<open>What a scanner emits\<close>

text \<open>
  A scanned token stands at the cursor, carries its position, is not empty, and leaves the cursor
  behind its text.
\<close>

definition starts_with :: "(char \<Rightarrow> bool) \<Rightarrow> string \<Rightarrow> bool" where
  "starts_with P w = (case w of [] \<Rightarrow> False | c # cs \<Rightarrow> P c)"

definition punctuation :: "(TokenType \<times> string) set" where
  "punctuation = {(T_COMMA, '',''), (T_LPAREN, ''(''), (T_RPAREN, '')''), (T_SEMICOLON, '';''), (T_STAR, ''*''), (T_DOT, ''.'')}
     \<union> Pair T_OP ` {''+'', ''-'', ''/'', ''='', ''!='', ''<'', ''>'', ''<='', ''<>'', ''>=''}"

text \<open>
  Value and text of a token agree, and words and numbers are as long as the input allows: \<open>after\<close> is
  what follows the token.
\<close>

definition well_read :: "Token \<Rightarrow> string \<Rightarrow> bool" where
  "well_read t after \<longleftrightarrow> (case tok_type t of
     T_INT_LIT \<Rightarrow> list_all is_decimal (tok_text t) \<and> tok_value t = PInt (int (nat_of_str (tok_text t))) \<and>
       \<not> starts_with is_digit after \<and> \<not> starts_with (\<lambda>c. c = CHR ''.'') after
   | T_FLOAT_LIT \<Rightarrow> (\<exists>ds fs. tok_text t = ds @ ''.'' @ fs \<and> list_all is_decimal (ds @ fs) \<and>
       tok_value t = PFloat (f_of_decimal (nat_of_str (ds @ fs)) (length fs))) \<and> \<not> starts_with is_digit after
   | T_STR_LIT \<Rightarrow> (\<exists>cs. tok_text t = CHR 0x27 # cs @ [CHR 0x27] \<and> CHR 0x27 \<notin> set cs \<and> tok_value t = PStr cs)
   | T_IDENT \<Rightarrow> list_all word_char (tok_text t) \<and> tok_value t = PStr (tok_text t) \<and>
       map_of sql_keywords (upper (tok_text t)) = None \<and> \<not> starts_with word_char after
   | T_BOOL_LIT \<Rightarrow> map_of sql_keywords (upper (tok_text t)) = Some T_BOOL_LIT \<and>
       tok_value t = PBool (upper (tok_text t) = ''TRUE'') \<and> \<not> starts_with word_char after
   | T_EOF \<Rightarrow> tok_text t = [] \<and> tok_value t = PNone \<and> after = []
   | ty \<Rightarrow> tok_value t = PStr (upper (tok_text t)) \<and>
       (map_of sql_keywords (upper (tok_text t)) = Some ty \<and> \<not> starts_with word_char after \<or>
        (ty, tok_text t) \<in> punctuation))"

definition emits :: "lexer \<Rightarrow> Token \<times> lexer \<Rightarrow> bool" where
  "emits s tu = (case tu of (t, u) \<Rightarrow>
     tok_text t \<noteq> [] \<and> lx_rest s = tok_text t @ lx_rest u \<and> u = advance_over (tok_text t) s \<and>
     tok_line t = lx_line s \<and> tok_column t = lx_col s \<and> tok_type t \<noteq> T_EOF \<and> well_read t (lx_rest u))"

lemma lx_rest_advance [simp]: "lx_rest (advance_over w s) = drop (length w) (lx_rest s)"
  by (induction w arbitrary: s) (auto simp: advance_over_def step_char_def drop_Suc)

lemma advance_over_append: "advance_over (v @ w) s = advance_over w (advance_over v s)"
  by (simp add: advance_over_def)

lemma emits_fixed:
  assumes "(ty, w) \<in> punctuation" and "take (length w) (lx_rest s) = w"
  shows "emits s (fixed_token ty w s)"
proof -
  have "w \<noteq> []" "ty \<noteq> T_EOF" "well_read (fst (fixed_token ty w s)) after" for after
    using assms(1) by (auto simp: punctuation_def well_read_def fixed_token_def upper_def upper_char_def)
  then show ?thesis
    using assms(2) append_take_drop_id [of "length w" "lx_rest s"] by (simp add: emits_def fixed_token_def)
qed

lemma emits_scanned:
  assumes "w \<noteq> []" and "ty \<noteq> T_EOF" and "take (length w) (lx_rest s) = w"
    and "well_read (fst (scanned_token ty v w s)) (drop (length w) (lx_rest s))"
  shows "emits s (scanned_token ty v w s)"
  using assms append_take_drop_id [of "length w" "lx_rest s"] by (simp add: emits_def scanned_token_def Let_def)

lemma fst_scanned_token:
  "tok_type (fst (scanned_token ty v w s)) = ty" "tok_value (fst (scanned_token ty v w s)) = v"
  "tok_text (fst (scanned_token ty v w s)) = w"
  by (simp_all add: scanned_token_def Let_def)

lemma not_starts_takeWhile [simp]: "\<not> starts_with P (drop (length (takeWhile P xs)) xs)"
  by (induction xs) (auto simp: starts_with_def)

lemma not_starts_more [simp]: "\<not> starts_with P (drop (length (takeWhile P xs) + n) (ys @ xs))" if "length ys = n"
  using not_starts_takeWhile [of P xs] that by (simp add: add.commute)

lemma take_takeWhile [simp]: "take (length (takeWhile P xs)) xs = takeWhile P xs"
  using takeWhile_eq_take [of P xs] by simp

definition keyword_types :: "TokenType set" where
  "keyword_types = set (map snd sql_keywords)"

lemma keyword_type: "map_of sql_keywords u = Some ty \<Longrightarrow> ty \<in> keyword_types"
  by (force simp: keyword_types_def dest: map_of_SomeD)

lemma no_keyword_type [simp]:
  "T_INT_LIT \<notin> keyword_types" "T_FLOAT_LIT \<notin> keyword_types" "T_STR_LIT \<notin> keyword_types"
  "T_IDENT \<notin> keyword_types" "T_EOF \<notin> keyword_types"
  by (simp_all add: keyword_types_def sql_keywords_def)

lemma keyword_not_eof: "map_of sql_keywords u = Some ty \<Longrightarrow> ty \<noteq> T_EOF"
  using keyword_type by fastforce

lemma keyword_kinds:
  "map_of sql_keywords u \<noteq> Some T_INT_LIT" "map_of sql_keywords u \<noteq> Some T_FLOAT_LIT"
  "map_of sql_keywords u \<noteq> Some T_STR_LIT" "map_of sql_keywords u \<noteq> Some T_IDENT"
  using keyword_type by fastforce+

lemma take_two:
  assumes "xs = c # cs" and "take (Suc 0) cs = [d]"
  shows "take 2 xs = [c, d]"
  using assms by (cases cs) (auto simp: numeral_2_eq_2)

lemma scan_lt_emits: "lx_rest s = CHR ''<'' # cs \<Longrightarrow> emits s (scan_lt s)"
  by (auto simp: scan_lt_def make_op_def take_two punctuation_def intro!: emits_fixed)

lemma scan_gt_emits: "lx_rest s = CHR ''>'' # cs \<Longrightarrow> emits s (scan_gt s)"
  by (auto simp: scan_gt_def make_op_def take_two punctuation_def intro!: emits_fixed)

lemma scan_not_equal_emits: "lx_rest s = CHR ''!'' # cs \<Longrightarrow> scan_not_equal s = Inr tu \<Longrightarrow> emits s tu"
  by (auto simp: scan_not_equal_def make_op_def take_two punctuation_def split: if_splits intro!: emits_fixed)

lemma scan_string_emits:
  assumes "lx_rest s = CHR 0x27 # cs" and "scan_string s = Inr tu"
  shows "emits s tu"
proof -
  let ?w = "takeWhile (\<lambda>c. c \<noteq> CHR 0x27) cs"
  have l: "length ?w < length cs" and tu: "tu = scanned_token T_STR_LIT (PStr ?w) (CHR 0x27 # ?w @ [CHR 0x27]) s"
    using assms by (auto simp: scan_string_def Let_def split: if_splits)
  have "cs ! length ?w = CHR 0x27" using nth_length_takeWhile [OF l] by simp
  then have "take (Suc (length ?w)) cs = ?w @ [CHR 0x27]" using l by (simp add: take_Suc_conv_app_nth)
  moreover have "CHR 0x27 \<notin> set ?w" by (auto dest: set_takeWhileD)
  ultimately show ?thesis unfolding tu using assms(1)
    by (intro emits_scanned) (simp_all add: well_read_def fst_scanned_token)
qed

lemma scan_number_emits:
  assumes "lx_rest s = c # cs" and "is_digit c" and "scan_number s = Inr tu"
  shows "emits s tu"
proof -
  let ?ds = "takeWhile is_digit (lx_rest s)" and ?more = "drop (length (takeWhile is_digit (lx_rest s))) (lx_rest s)"
  have ds: "?ds \<noteq> []" and r: "lx_rest s = ?ds @ ?more"
    using assms by (simp, metis append_take_drop_id take_takeWhile)
  show ?thesis
  proof (cases "take 1 ?more = ''.''")
    case True
    let ?fs = "takeWhile is_digit (drop 1 ?more)"
    have m: "?more = CHR ''.'' # drop 1 ?more" using True by (cases ?more) auto
    have "take (length (?ds @ ''.'' @ ?fs)) (?ds @ ?more) = ?ds @ ''.'' @ ?fs"
      unfolding take_append by (subst m) simp
    then have w: "take (length (?ds @ ''.'' @ ?fs)) (lx_rest s) = ?ds @ ''.'' @ ?fs" using r by simp
    moreover have "drop (length (?ds @ ''.'' @ ?fs)) (lx_rest s) = drop (length ?fs) (drop 1 ?more)"
      by (simp add: add.commute)
    then have "\<not> starts_with is_digit (drop (length (?ds @ ''.'' @ ?fs)) (lx_rest s))"
      by (simp only: not_starts_takeWhile not_False_eq_True)
    moreover have "list_all is_decimal (?ds @ ?fs)" and tu: "tu = scanned_token T_FLOAT_LIT
        (PFloat (f_of_decimal (nat_of_str (?ds @ ?fs)) (length ?fs))) (?ds @ ''.'' @ ?fs) s"
      using assms(3) True unfolding scan_number_def Let_def float_of_text_def by (simp_all split: if_split_asm)
    ultimately have "well_read (fst tu) (drop (length (?ds @ ''.'' @ ?fs)) (lx_rest s))"
      unfolding well_read_def tu fst_scanned_token TokenType.case by blast
    then show ?thesis unfolding tu using w by (intro emits_scanned) simp_all
  next
    case False
    then have "\<not> starts_with (\<lambda>c. c = CHR ''.'') ?more" by (cases ?more) (auto simp: starts_with_def)
    then show ?thesis using assms(3) False ds
      by (auto simp: scan_number_def Let_def int_of_text_def well_read_def fst_scanned_token
          split: if_splits intro!: emits_scanned)
  qed
qed

lemma well_read_keyword:
  assumes "map_of sql_keywords (upper w) = Some ty" and "\<not> starts_with word_char after"
  shows "well_read (fst (scanned_token ty (if ty = T_BOOL_LIT then PBool (upper w = ''TRUE'') else PStr (upper w)) w s)) after"
proof -
  have "ty \<in> keyword_types" using assms(1) by (rule keyword_type)
  then have "ty \<notin> {T_INT_LIT, T_FLOAT_LIT, T_STR_LIT, T_IDENT, T_EOF}" by auto
  then show ?thesis using assms
    unfolding well_read_def fst_scanned_token by (simp split: TokenType.split)
qed

lemma scan_identifier_emits:
  assumes "lx_rest s = c # cs" and "is_alpha c \<or> c = CHR ''_''"
  shows "emits s (scan_identifier s)"
proof -
  have "word_char c" using assms(2) by (auto simp: word_char_def is_alnum_def Let_def)
  then have w: "takeWhile word_char (lx_rest s) \<noteq> []" using assms(1) by simp
  have l: "list_all word_char (takeWhile word_char (lx_rest s))"
    by (auto simp: list_all_iff dest: set_takeWhileD)
  show ?thesis
  proof (cases "map_of sql_keywords (upper (takeWhile word_char (lx_rest s)))")
    case None
    then have "scan_identifier s = scanned_token T_IDENT (PStr (takeWhile word_char (lx_rest s))) (takeWhile word_char (lx_rest s)) s"
      by (simp add: scan_identifier_def Let_def)
    then show ?thesis using w l None by (simp add: emits_scanned well_read_def fst_scanned_token)
  next
    case (Some ty)
    then have "scan_identifier s = scanned_token ty (if ty = T_BOOL_LIT
        then PBool (upper (takeWhile word_char (lx_rest s)) = ''TRUE'')
        else PStr (upper (takeWhile word_char (lx_rest s)))) (takeWhile word_char (lx_rest s)) s"
      by (simp add: scan_identifier_def Let_def)
    then show ?thesis using w keyword_not_eof [OF Some] well_read_keyword [OF Some] by (simp add: emits_scanned)
  qed
qed

definition all_emit :: "lexer \<Rightarrow> (Token \<times> lexer) res \<Rightarrow> bool" where
  "all_emit s r \<longleftrightarrow> (\<forall>tu. r = Inr tu \<longrightarrow> emits s tu)"

lemma all_emit_if: "(b \<Longrightarrow> all_emit s x) \<Longrightarrow> (\<not> b \<Longrightarrow> all_emit s y) \<Longrightarrow> all_emit s (if b then x else y)"
  by simp

lemma all_emit_Inr: "emits s tu \<Longrightarrow> all_emit s (Inr tu)"
  by (simp add: all_emit_def)

lemma all_emit_Inl: "all_emit s (Inl e)"
  by (simp add: all_emit_def)

lemma scan_token_emits:
  assumes "lx_rest s = c # cs" and "scan_token c s = Inr tu"
  shows "emits s tu"
proof -
  have one: "all_emit s (Inr (fixed_token ty [c] s))" if "(ty, [c]) \<in> punctuation" for ty
    using that assms(1) by (intro all_emit_Inr emits_fixed) simp_all
  have "all_emit s (scan_token c s)"
    unfolding scan_token_def make_token_def make_op_def
  proof (intro all_emit_if)
    assume "c = CHR ''!''" then show "all_emit s (scan_not_equal s)"
      using scan_not_equal_emits assms(1) by (simp add: all_emit_def)
  next
    assume "c = CHR ''=''" then show "all_emit s (Inr (fixed_token T_OP ''='' s))"
      using one [of T_OP] by (simp add: punctuation_def)
  next
    assume "c = CHR ''<''" then show "all_emit s (Inr (scan_lt s))"
      using scan_lt_emits assms(1) by (simp add: all_emit_def)
  next
    assume "c = CHR ''>''" then show "all_emit s (Inr (scan_gt s))"
      using scan_gt_emits assms(1) by (simp add: all_emit_def)
  next
    assume "c = CHR 0x27" then show "all_emit s (scan_string s)"
      using scan_string_emits assms(1) by (simp add: all_emit_def)
  next
    assume "is_digit c" then show "all_emit s (scan_number s)"
      using scan_number_emits assms(1) by (simp add: all_emit_def)
  next
    assume "is_alpha c \<or> c = CHR ''_''" then show "all_emit s (Inr (scan_identifier s))"
      using scan_identifier_emits assms(1) by (simp add: all_emit_def)
  qed (use one [of T_COMMA] one [of T_LPAREN] one [of T_RPAREN] one [of T_SEMICOLON] one [of T_STAR] one [of T_DOT]
      one [of T_OP] in \<open>auto simp: all_emit_Inl punctuation_def\<close>)
  then show ?thesis using assms(2) by (simp add: all_emit_def)
qed

lemma emits_text: "emits s (t, u) \<Longrightarrow> lx_rest s = tok_text t @ lx_rest u" "emits s (t, u) \<Longrightarrow> tok_text t \<noteq> []"
  unfolding emits_def by blast+

lemma emits_shorter:
  assumes "emits s (t, u)"
  shows "length (lx_rest u) < length (lx_rest s)"
  using emits_text(2) [OF assms] arg_cong [OF emits_text(1) [OF assms], of length] by simp

section \<open>The loop of \<open>tokenize\<close>\<close>

definition eof_token :: "lexer \<Rightarrow> Token" where
  "eof_token s = \<lparr>tok_type = T_EOF, tok_value = PNone, tok_line = lx_line s, tok_column = lx_col s,
     tok_offset = lx_pos s, tok_text = ''''\<rparr>"

function lex_loop :: "lexer \<Rightarrow> Token list res" where
  "lex_loop s =
     (let s1 = skip_whitespace s
      in case lx_rest s1 of
           [] \<Rightarrow> Inr [eof_token s1]
         | c # cs \<Rightarrow> rbind (scan_token c s1) (\<lambda>(t, s2). rbind (lex_loop s2) (\<lambda>ts. Inr (t # ts))))"
  by pat_completeness auto
termination
proof (relation "measure (\<lambda>s. length (lx_rest s))")
  fix s s1 c cs tu t s2
  assume "s1 = skip_whitespace s" "lx_rest s1 = c # cs" "scan_token c s1 = Inr tu" "(t, s2) = tu"
  then have "emits s1 (t, s2)" by (metis scan_token_emits)
  moreover have "length (lx_rest s1) \<le> length (lx_rest s)"
    using \<open>s1 = skip_whitespace s\<close> by (simp add: skip_whitespace_def)
  ultimately show "(s2, s) \<in> measure (\<lambda>s. length (lx_rest s))" using emits_shorter by fastforce
qed simp

declare lex_loop.simps [simp del]

definition tokenize :: "string \<Rightarrow> Token list res" where
  "tokenize sql = lex_loop \<lparr>lx_rest = sql, lx_pos = 0, lx_line = 1, lx_col = 1\<rparr>"

section \<open>The tokens cover the text\<close>

text \<open>Line and column behind a text, counted from the start of the input.\<close>

definition line_col :: "string \<Rightarrow> nat \<times> nat" where
  "line_col w = foldl (\<lambda>(l, k) c. if c = CHR 0x0A then (l + 1, 1) else (l, k + 1)) (1, 1) w"

text \<open>
  \<open>laid_out before ts rest\<close>: behind \<open>before\<close> the text \<open>rest\<close> is made of the tokens \<open>ts\<close> in order,
  with nothing but white space in front of each, the last one the end mark; every token is well read
  and carries the place where its text starts.
\<close>

fun laid_out :: "string \<Rightarrow> Token list \<Rightarrow> string \<Rightarrow> bool" where
  "laid_out before [] rest = False"
| "laid_out before (t # ts) rest =
     (\<exists>w after. rest = w @ tok_text t @ after \<and> list_all is_space w \<and>
        (tok_line t, tok_column t) = line_col (before @ w) \<and> well_read t after \<and>
        (if tok_type t = T_EOF then ts = [] else laid_out (before @ w @ tok_text t) ts after))"

lemma line_col_snoc: "line_col (w @ [c]) = (case line_col w of (l, k) \<Rightarrow> if c = CHR 0x0A then (l + 1, 1) else (l, k + 1))"
  by (simp add: line_col_def case_prod_unfold)

lemma line_col_advance:
  "(lx_line s, lx_col s) = line_col v \<Longrightarrow>
   (lx_line (advance_over w s), lx_col (advance_over w s)) = line_col (v @ w)"
proof (induction w arbitrary: v s)
  case (Cons c w)
  have "(lx_line (step_char s c), lx_col (step_char s c)) = line_col (v @ [c])"
    using Cons.prems by (simp add: line_col_snoc step_char_def flip: Cons.prems)
  from Cons.IH [OF this] show ?case by (simp add: advance_over_def)
qed (simp add: advance_over_def)

lemma lex_loop_laid_out:
  "lex_loop s = Inr ts \<Longrightarrow> (lx_line s, lx_col s) = line_col before \<Longrightarrow> laid_out before ts (lx_rest s)"
proof (induction s arbitrary: before ts rule: lex_loop.induct)
  case (1 s)
  let ?w = "takeWhile is_space (lx_rest s)" and ?s = "skip_whitespace s"
  have sp: "list_all is_space ?w" by (auto simp: list_all_iff dest: set_takeWhileD)
  have r: "lx_rest s = ?w @ lx_rest ?s" by (simp add: skip_whitespace_def, metis append_take_drop_id take_takeWhile)
  have pos: "(lx_line ?s, lx_col ?s) = line_col (before @ ?w)"
    using line_col_advance [OF "1.prems"(2)] by (simp add: skip_whitespace_def)
  show ?case
  proof (cases "lx_rest ?s")
    case Nil
    then have "ts = [eof_token ?s]" using "1.prems"(1) by (subst (asm) lex_loop.simps) (simp add: Let_def)
    then show ?thesis using r sp pos Nil by (simp add: eof_token_def well_read_def)
  next
    case (Cons c cs)
    then obtain t u ts' where t: "scan_token c ?s = Inr (t, u)" "lex_loop u = Inr ts'" "ts = t # ts'"
      using "1.prems"(1) by (subst (asm) lex_loop.simps) (auto simp: Let_def)
    have e: "emits ?s (t, u)" using scan_token_emits [OF Cons t(1)] .
    then have u: "u = advance_over (tok_text t) ?s" "tok_line t = lx_line ?s" "tok_column t = lx_col ?s"
        "tok_type t \<noteq> T_EOF" "well_read t (lx_rest u)" unfolding emits_def by blast+
    have "(lx_line u, lx_col u) = line_col ((before @ ?w) @ tok_text t)"
      unfolding u(1) using line_col_advance [OF pos] .
    then have "laid_out (before @ ?w @ tok_text t) ts' (lx_rest u)"
      using "1.IH" [OF refl Cons t(1) refl t(2)] by simp
    moreover have "lx_rest s = ?w @ tok_text t @ lx_rest u" using r emits_text(1) [OF e] by simp
    ultimately show ?thesis using sp pos u(2-5) unfolding t(3) laid_out.simps by auto
  qed
qed

text \<open>
  C29. Lexing loses nothing: the tokens of a text, with white space between them, spell the text; each
  has the value its text denotes, the line and column where it starts, and takes as many characters as
  it can; the only end mark is the last token.
\<close>

theorem tokens_spell_text:
  assumes "tokenize sql = Inr ts"
  shows "laid_out '''' ts sql"
  using lex_loop_laid_out [OF assms [unfolded tokenize_def], of "''''"] by (simp add: line_col_def)

definition demo_sql :: string where
  "demo_sql = ''SELECT a1'' @ [CHR 0x0A] @ '' <>2''"

lemmas lexer_eval = tokenize_def lex_loop.simps skip_whitespace_def advance_over_def step_char_def scan_token_def
  make_token_def make_op_def fixed_token_def scanned_token_def scan_not_equal_def scan_lt_def scan_gt_def scan_string_def
  scan_number_def scan_identifier_def eof_token_def int_of_text_def float_of_text_def word_char_def is_alnum_def
  is_alpha_def is_digit_def is_decimal_def is_space_def upper_def upper_char_def

theorem tokens_spell_text_witness:
  "case tokenize demo_sql of Inl e \<Rightarrow> False | Inr ts \<Rightarrow> laid_out '''' ts demo_sql \<and>
     map (\<lambda>t. (tok_type t, tok_line t, tok_column t)) ts =
       [(T_SELECT, 1, 1), (T_IDENT, 1, 8), (T_OP, 2, 2), (T_INT_LIT, 2, 4), (T_EOF, 2, 5)]"
proof -
  obtain ts where ts: "tokenize demo_sql = Inr ts" and m: "map (\<lambda>t. (tok_type t, tok_line t, tok_column t)) ts =
       [(T_SELECT, 1, 1), (T_IDENT, 1, 8), (T_OP, 2, 2), (T_INT_LIT, 2, 4), (T_EOF, 2, 5)]"
    by (simp add: demo_sql_def lexer_eval sql_keywords_def Let_def)
  show ?thesis using tokens_spell_text [OF ts] ts m by simp
qed

end
