(* ===== verification/Json.thy ===== *)
theory Json
  imports Lexer
begin

text \<open>
  What the program uses of Python's \<open>json\<close>, \<open>dumps\<close> with the default separators and ASCII output and
  \<open>loads\<close>, and the numerals that \<open>int\<close>, \<open>float\<close> and JSON read. An escape of a code point beyond 255 has no
  character here and is refused. The catalog writes no numbers, so the round trip leaves them out.
\<close>

section \<open>Numerals\<close>

definition take_sign :: "string \<Rightarrow> bool \<times> string" where
  "take_sign s = (case s of
     c # t \<Rightarrow> if c = CHR ''-'' then (True, t) else if c = CHR ''+'' then (False, t) else (False, s)
   | [] \<Rightarrow> (False, []))"

definition signed_int :: "bool \<Rightarrow> int \<Rightarrow> int" where
  "signed_int neg i = (if neg then - i else i)"

text \<open>The double nearest to the digits \<open>ds\<close> times a power of ten.\<close>

definition decimal_value :: "bool \<Rightarrow> string \<Rightarrow> int \<Rightarrow> double" where
  "decimal_value neg ds e = f_of_rat neg (of_int (signed_int neg (int (nat_of_str ds))) * pow10 e)"

definition fraction_part :: "string \<Rightarrow> string \<times> string" where
  "fraction_part s = (case s of
     c # t \<Rightarrow> if c = CHR ''.'' then (takeWhile is_decimal t, dropWhile is_decimal t) else ([], s)
   | [] \<Rightarrow> ([], []))"

definition exponent_part :: "string \<Rightarrow> (int \<times> string) option" where
  "exponent_part s = (case s of
     c # t \<Rightarrow>
       (let (neg, u) = take_sign t; ds = takeWhile is_decimal u in
        if (c = CHR ''e'' \<or> c = CHR ''E'') \<and> ds \<noteq> [] then Some (signed_int neg (int (nat_of_str ds)), dropWhile is_decimal u)
        else None)
   | [] \<Rightarrow> None)"

text \<open>An underscore may stand between two digits; \<open>p\<close> is the character before.\<close>

fun drop_underscores :: "char \<Rightarrow> string \<Rightarrow> string option" where
  "drop_underscores p [] = (if p = CHR ''_'' then None else Some [])"
| "drop_underscores p (c # s) =
     (if c = CHR ''_'' then (if is_decimal p then drop_underscores c s else None)
      else if p = CHR ''_'' \<and> \<not> is_decimal c then None
      else map_option (Cons c) (drop_underscores c s))"

text \<open>\<open>int(s)\<close> and \<open>float(s)\<close> of a text without white space around it; \<open>None\<close> is \<open>ValueError\<close>.\<close>

definition int_literal :: "string \<Rightarrow> int option" where
  "int_literal s =
     Option.bind (drop_underscores (CHR 0x00) s) (\<lambda>t.
       let (neg, ds) = take_sign t in
       if ds \<noteq> [] \<and> list_all is_decimal ds \<and> length ds \<le> 4300 then Some (signed_int neg (int (nat_of_str ds)))
       else None)"

definition float_literal :: "string \<Rightarrow> double option" where
  "float_literal s =
     Option.bind (drop_underscores (CHR 0x00) s) (\<lambda>t.
       let (neg, u) = take_sign t in
       if upper u = ''INF'' \<or> upper u = ''INFINITY'' then Some (f_inf neg)
       else if upper u = ''NAN'' then Some f_nan
       else
         let ds = takeWhile is_decimal u; (fs, r) = fraction_part (dropWhile is_decimal u) in
         if ds @ fs = [] then None
         else if r = [] then Some (decimal_value neg (ds @ fs) (- int (length fs)))
         else case exponent_part r of
             Some (e, []) \<Rightarrow> Some (decimal_value neg (ds @ fs) (e - int (length fs)))
           | _ \<Rightarrow> None)"

section \<open>Writing\<close>

datatype json = JNull | JBool bool | JStr string | JArr "json list" | JObj "(string \<times> json) list" | JNum pval

text \<open>A number is an \<open>int\<close> or a \<open>float\<close>.\<close>

fun number_text :: "pval \<Rightarrow> string" where
  "number_text (PFloat w) =
     (if f_is_nan w then ''NaN'' else if f_is_inf w then (if f_neg w then ''-Infinity'' else ''Infinity'') else float_repr w)"
| "number_text v = value_repr v"

definition backslash :: char where "backslash = CHR 0x5C"
definition dquote :: char where "dquote = CHR 0x22"

text \<open>The one-letter escapes: the letter and the code point.\<close>

definition short_escapes :: "(nat \<times> char) list" where
  "short_escapes = [(34, dquote), (92, backslash), (10, CHR ''n''), (13, CHR ''r''), (9, CHR ''t''), (8, CHR ''b''), (12, CHR ''f'')]"

definition escape_char :: "char \<Rightarrow> string" where
  "escape_char c =
     (let n = of_char c :: nat in
      case map_of short_escapes n of
        Some e \<Rightarrow> [backslash, e]
      | None \<Rightarrow> if 32 \<le> n \<and> n \<le> 126 then [c]
               else [backslash, CHR ''u'', CHR ''0'', CHR ''0'', hex_char (n div 16), hex_char (n mod 16)])"

definition dump_str :: "string \<Rightarrow> string" where
  "dump_str w = dquote # concat (map escape_char w) @ [dquote]"

fun join_with :: "string \<Rightarrow> string list \<Rightarrow> string" where
  "join_with sep [] = ''''"
| "join_with sep [w] = w"
| "join_with sep (w # v # ws) = w @ sep @ join_with sep (v # ws)"

fun dumps :: "json \<Rightarrow> string" where
  "dumps JNull = ''null''"
| "dumps (JBool b) = (if b then ''true'' else ''false'')"
| "dumps (JStr w) = dump_str w"
| "dumps (JArr js) = ''['' @ join_with '', '' (map dumps js) @ '']''"
| "dumps (JObj kvs) = ''{'' @ join_with '', '' (map (\<lambda>(k, v). dump_str k @ '': '' @ dumps v) kvs) @ ''}''"
| "dumps (JNum v) = number_text v"

section \<open>Reading\<close>

definition json_space :: "char \<Rightarrow> bool" where
  "json_space c = (c \<in> {CHR '' '', CHR 0x09, CHR 0x0A, CHR 0x0D})"

definition skip_space :: "string \<Rightarrow> string" where
  "skip_space = dropWhile json_space"

definition hex_value :: "char \<Rightarrow> nat option" where
  "hex_value c =
     (let n = of_char c :: nat in
      if 48 \<le> n \<and> n \<le> 57 then Some (n - 48)
      else if 97 \<le> n \<and> n \<le> 102 then Some (n - 87)
      else if 65 \<le> n \<and> n \<le> 70 then Some (n - 55) else None)"

definition unicode_escape :: "string \<Rightarrow> char res" where
  "unicode_escape ds =
     (case map hex_value ds of
        [Some a, Some b, Some c, Some d] \<Rightarrow>
          (if a = 0 \<and> b = 0 then Inr (char_of (16 * c + d)) else Inl ValueError)
      | _ \<Rightarrow> Inl ValueError)"

definition letter_escapes :: "(char \<times> nat) list" where
  "letter_escapes = (CHR ''/'', 47) # map (\<lambda>(n, c). (c, n)) short_escapes"

text \<open>The rest of a string, behind its opening quote.\<close>

fun scan_json_str :: "string \<Rightarrow> (string \<times> string) res" where
  "scan_json_str [] = Inl ValueError"
| "scan_json_str (c # cs) =
     (if c = dquote then Inr ('''', cs)
      else if c = backslash then
        (case cs of
           [] \<Rightarrow> Inl ValueError
         | e # es \<Rightarrow>
             if e = CHR ''u'' then
               rbind (unicode_escape (take 4 es)) (\<lambda>d.
               rbind (scan_json_str (drop 4 es)) (\<lambda>(w, rest). Inr (d # w, rest)))
             else case map_of letter_escapes e of
                 None \<Rightarrow> Inl ValueError
               | Some n \<Rightarrow> rbind (scan_json_str es) (\<lambda>(w, rest). Inr (char_of n # w, rest)))
      else if (of_char c :: nat) < 32 then Inl ValueError
      else rbind (scan_json_str cs) (\<lambda>(w, rest). Inr (c # w, rest)))"

text \<open>\<open>-?(0|[1-9]\d*)(\.\d+)?([eE][-+]?\d+)?\<close>; without fraction and exponent it is an \<open>int\<close>.\<close>

definition scan_json_number :: "string \<Rightarrow> (pval \<times> string) res" where
  "scan_json_number s =
     (let (neg, t) = (if take 1 s = ''-'' then (True, drop 1 s) else (False, s));
          ds = (if take 1 t = ''0'' then ''0'' else takeWhile is_decimal t);
          r1 = drop (length ds) t;
          (fs, r2) = (if fst (fraction_part r1) = [] then ([], r1) else fraction_part r1)
      in if ds = [] then Inl ValueError
         else case exponent_part r2 of
             Some (e, r3) \<Rightarrow> Inr (PFloat (decimal_value neg (ds @ fs) (e - int (length fs))), r3)
           | None \<Rightarrow>
               if fs = [] then rbind (int_of_text ds) (\<lambda>i. Inr (PInt (signed_int neg i), r2))
               else Inr (PFloat (decimal_value neg (ds @ fs) (- int (length fs))), r2))"

text \<open>
  Values, the items of an array behind its bracket, the members of an object behind its brace. The
  fuel bounds the calls: one for a value, one for the items in front of it.
\<close>

definition expect_char :: "char \<Rightarrow> string \<Rightarrow> string res" where
  "expect_char c s = (case skip_space s of [] \<Rightarrow> Inl ValueError | d # ds \<Rightarrow> if d = c then Inr ds else Inl ValueError)"

fun json_value :: "nat \<Rightarrow> string \<Rightarrow> (json \<times> string) res"
and json_items :: "nat \<Rightarrow> string \<Rightarrow> (json list \<times> string) res"
and json_members :: "nat \<Rightarrow> string \<Rightarrow> ((string \<times> json) list \<times> string) res" where
  "json_value 0 s = Inl NonTermination"
| "json_value (Suc n) s =
     (case s of
        [] \<Rightarrow> Inl ValueError
      | c # cs \<Rightarrow>
          if c = dquote then rbind (scan_json_str cs) (\<lambda>(w, rest). Inr (JStr w, rest))
          else if c = CHR ''['' then
            (case skip_space cs of
               d # ds \<Rightarrow> if d = CHR '']'' then Inr (JArr [], ds)
                        else rbind (json_items n (d # ds)) (\<lambda>(js, rest). Inr (JArr js, rest))
             | [] \<Rightarrow> Inl ValueError)
          else if c = CHR ''{'' then
            (case skip_space cs of
               d # ds \<Rightarrow> if d = CHR ''}'' then Inr (JObj [], ds)
                        else rbind (json_members n (d # ds)) (\<lambda>(kvs, rest). Inr (JObj kvs, rest))
             | [] \<Rightarrow> Inl ValueError)
          else if take 4 s = ''null'' then Inr (JNull, drop 4 s)
          else if take 4 s = ''true'' then Inr (JBool True, drop 4 s)
          else if take 5 s = ''false'' then Inr (JBool False, drop 5 s)
          else if take 3 s = ''NaN'' then Inr (JNum (PFloat f_nan), drop 3 s)
          else if take 8 s = ''Infinity'' then Inr (JNum (PFloat (f_inf False)), drop 8 s)
          else if take 9 s = ''-Infinity'' then Inr (JNum (PFloat (f_inf True)), drop 9 s)
          else rbind (scan_json_number s) (\<lambda>(v, rest). Inr (JNum v, rest)))"
| "json_items 0 s = Inl NonTermination"
| "json_items (Suc n) s =
     rbind (json_value n s) (\<lambda>(j, rest).
       case skip_space rest of
         [] \<Rightarrow> Inl ValueError
       | d # ds \<Rightarrow>
           if d = CHR '']'' then Inr ([j], ds)
           else if d = CHR '','' then rbind (json_items n (skip_space ds)) (\<lambda>(js, rest). Inr (j # js, rest))
           else Inl ValueError)"
| "json_members 0 s = Inl NonTermination"
| "json_members (Suc n) s =
     (case s of
        [] \<Rightarrow> Inl ValueError
      | c # cs \<Rightarrow>
          if c \<noteq> dquote then Inl ValueError
          else rbind (scan_json_str cs) (\<lambda>(k, r1).
            rbind (expect_char CHR '':'' r1) (\<lambda>r2.
            rbind (json_value n (skip_space r2)) (\<lambda>(v, r3).
              case skip_space r3 of
                [] \<Rightarrow> Inl ValueError
              | d # ds \<Rightarrow>
                  if d = CHR ''}'' then Inr ([(k, v)], ds)
                  else if d = CHR '','' then rbind (json_members n (skip_space ds)) (\<lambda>(kvs, rest). Inr ((k, v) # kvs, rest))
                  else Inl ValueError))))"

definition loads :: "string \<Rightarrow> json res" where
  "loads s =
     rbind (json_value (2 * length s + 2) (skip_space s)) (\<lambda>(j, rest).
       if skip_space rest = [] then Inr j else Inl ValueError)"

section \<open>Reading back what was written\<close>

lemma hex_value_char: "d < 16 \<Longrightarrow> hex_value (hex_char d) = Some d"
  by (auto simp: hex_value_def hex_char_def digit_char_def Let_def)

lemma take4: "take 4 (a # b # c # d # s) = [a, b, c, d]" "drop 4 (a # b # c # d # s) = s"
  by (simp_all add: eval_nat_numeral)

lemma scan_escaped:
  "scan_json_str (escape_char c @ s) = rbind (scan_json_str s) (\<lambda>(w, rest). Inr (c # w, rest))"
proof -
  let ?n = "of_char c :: nat"
  have orig: "char_of ?n = c" by simp
  consider "?n \<in> {34, 92, 10, 13, 9, 8, 12}" | "?n \<notin> {34, 92, 10, 13, 9, 8, 12}" "32 \<le> ?n \<and> ?n \<le> 126"
    | "?n \<notin> {34, 92, 10, 13, 9, 8, 12}" "\<not> (32 \<le> ?n \<and> ?n \<le> 126)" by blast
  then show ?thesis
  proof cases
    case 1
    then have "\<exists>e. map_of short_escapes ?n = Some e \<and> map_of letter_escapes e = Some ?n \<and> e \<noteq> CHR ''u''"
      by (auto simp: short_escapes_def letter_escapes_def backslash_def dquote_def)
    then obtain e where "map_of short_escapes ?n = Some e" "map_of letter_escapes e = Some ?n" "e \<noteq> CHR ''u''" by blast
    then show ?thesis using orig by (simp add: escape_char_def backslash_def dquote_def)
  next
    case 2
    then have "escape_char c = [c]" by (simp add: escape_char_def short_escapes_def)
    moreover have "c \<noteq> dquote" "c \<noteq> backslash" using 2 by (auto simp: dquote_def backslash_def)
    ultimately show ?thesis using 2 by simp
  next
    case 3
    have "map_of short_escapes ?n = None" using 3(1) by (simp add: short_escapes_def)
    then have e: "escape_char c =
        [backslash, CHR ''u'', CHR ''0'', CHR ''0'', hex_char (?n div 16), hex_char (?n mod 16)]"
      using 3(2) unfolding escape_char_def Let_def by simp
    have z: "hex_value (CHR ''0'') = Some 0" by (simp add: hex_value_def)
    have "?n div 16 < 16" by (rule less_mult_imp_div_less) simp
    then have "unicode_escape [CHR ''0'', CHR ''0'', hex_char (?n div 16), hex_char (?n mod 16)] = Inr c"
      by (simp add: unicode_escape_def hex_value_char z)
    then show ?thesis by (simp add: e take4 backslash_def dquote_def)
  qed
qed

lemma scan_dumped: "scan_json_str (concat (map escape_char w) @ dquote # rest) = Inr (w, rest)"
  by (induction w) (simp_all add: scan_escaped)

lemma length_escape: "1 \<le> length (escape_char c)"
  by (simp add: escape_char_def Let_def split: option.split)

fun numberless :: "json \<Rightarrow> bool" where
  "numberless (JNum v) = False"
| "numberless (JArr js) = list_all numberless js"
| "numberless (JObj kvs) = list_all (\<lambda>(k, v). numberless v) kvs"
| "numberless j = True"

text \<open>No written value starts with white space or with a closing bracket.\<close>

lemma dumps_hd: "numberless j \<Longrightarrow> \<exists>c cs. dumps j = c # cs \<and> \<not> json_space c \<and> c \<noteq> CHR '']'' \<and> c \<noteq> CHR ''}''"
  by (cases j) (auto simp: dump_str_def json_space_def dquote_def)

lemma skip_space_dumps [simp]: "numberless j \<Longrightarrow> skip_space (dumps j @ s) = dumps j @ s"
  using dumps_hd [of j] by (auto simp: skip_space_def)

lemma skip_space_char: "\<not> json_space c \<Longrightarrow> skip_space (c # s) = c # s"
  by (simp add: skip_space_def)

lemma skip_space_eval [simp]:
  "skip_space (CHR '','' # s) = CHR '','' # s" "skip_space (CHR '']'' # s) = CHR '']'' # s"
  "skip_space (CHR ''}'' # s) = CHR ''}'' # s" "skip_space (CHR '':'' # s) = CHR '':'' # s"
  "skip_space (dquote # s) = dquote # s" "skip_space (CHR '' '' # s) = skip_space s"
  by (simp_all add: skip_space_def json_space_def dquote_def)

definition reads_back :: "json \<Rightarrow> bool" where
  "reads_back j \<longleftrightarrow> (\<forall>n rest. length (dumps j) \<le> n \<longrightarrow> json_value n (dumps j @ rest) = Inr (j, rest))"

lemma items_back:
  assumes "\<forall>j \<in> set js. numberless j \<and> reads_back j" and "js \<noteq> []"
  shows "length (join_with '', '' (map dumps js)) < n \<Longrightarrow>
    json_items n (join_with '', '' (map dumps js) @ CHR '']'' # rest) = Inr (js, rest)"
  using assms
proof (induction js arbitrary: n)
  case (Cons j js)
  then obtain m where n: "n = Suc m" by (cases n) auto
  show ?case
  proof (cases js)
    case Nil
    then show ?thesis using Cons.prems n by (simp add: reads_back_def)
  next
    case (Cons k ks)
    let ?s = "join_with '', '' (map dumps js)"
    have j: "join_with '', '' (map dumps (j # js)) = dumps j @ '', '' @ ?s" using Cons by simp
    have "json_value m (dumps j @ '', '' @ ?s @ CHR '']'' # rest) = Inr (j, '', '' @ ?s @ CHR '']'' # rest)"
      using Cons.prems n j by (simp add: reads_back_def)
    moreover have "json_items m (?s @ CHR '']'' # rest) = Inr (js, rest)"
      using Cons.IH [of m] Cons.prems n j Cons by simp
    moreover have "skip_space (?s @ CHR '']'' # rest) = ?s @ CHR '']'' # rest"
      using Cons Cons.prems by (cases ks) simp_all
    ultimately show ?thesis unfolding j n by simp
  qed
qed simp

abbreviation dump_member :: "string \<times> json \<Rightarrow> string" where
  "dump_member \<equiv> \<lambda>(k, v). dump_str k @ '': '' @ dumps v"

lemma members_back:
  assumes "\<forall>kv \<in> set kvs. numberless (snd kv) \<and> reads_back (snd kv)" and "kvs \<noteq> []"
  shows "length (join_with '', '' (map dump_member kvs)) < n \<Longrightarrow>
    json_members n (join_with '', '' (map dump_member kvs) @ CHR ''}'' # rest) = Inr (kvs, rest)"
  using assms
proof (induction kvs arbitrary: n)
  case (Cons kv kvs)
  then obtain m where n: "n = Suc m" by (cases n) auto
  obtain k v where kv: "kv = (k, v)" by (cases kv)
  have v: "json_value m (dumps v @ s) = Inr (v, s)" if "length (dumps v) \<le> m" for s
    using Cons.prems kv that by (simp add: reads_back_def)
  have nv [simp]: "numberless v" using Cons.prems(2) kv by simp
  show ?case
  proof (cases kvs)
    case Nil
    then show ?thesis using Cons.prems n kv v
      by (simp add: dump_str_def scan_dumped expect_char_def)
  next
    case (Cons kv' kvs')
    let ?s = "join_with '', '' (map dump_member kvs)"
    have j: "join_with '', '' (map dump_member ((k, v) # kvs)) = dump_str k @ '': '' @ dumps v @ '', '' @ ?s"
      using Cons by simp
    have "json_value m (dumps v @ '', '' @ ?s @ CHR ''}'' # rest) = Inr (v, '', '' @ ?s @ CHR ''}'' # rest)"
      using Cons.prems n j kv by (intro v) simp
    moreover have "json_members m (?s @ CHR ''}'' # rest) = Inr (kvs, rest)"
      using Cons.IH [of m] Cons.prems n j kv Cons by simp
    moreover have "skip_space (?s @ CHR ''}'' # rest) = ?s @ CHR ''}'' # rest"
      using Cons by (cases kvs'; cases kv') (simp_all add: dump_str_def)
    ultimately show ?thesis unfolding n kv j by (simp add: dump_str_def scan_dumped expect_char_def)
  qed
qed simp

lemma dumps_reads_back: "numberless j \<Longrightarrow> reads_back j"
proof (induction j)
  case (JNum v)
  then show ?case by simp
next
  case JNull
  show ?case by (auto simp: reads_back_def dquote_def elim!: less_eq_Suc_le [THEN iffD2, elim_format] intro: exI dest!: Suc_le_D)
next
  case (JBool b)
  show ?case by (auto simp: reads_back_def dquote_def dest!: Suc_le_D)
next
  case (JStr w)
  show ?case by (auto simp: reads_back_def dump_str_def scan_dumped dest!: Suc_le_D)
next
  case (JArr js)
  show ?case unfolding reads_back_def
  proof (intro allI impI)
    fix n rest assume n: "length (dumps (JArr js)) \<le> n"
    then obtain m where m: "n = Suc m" "js \<noteq> [] \<Longrightarrow> length (join_with '', '' (map dumps js)) < m" by (cases n) auto
    show "json_value n (dumps (JArr js) @ rest) = Inr (JArr js, rest)"
    proof (cases js)
      case Nil
      then show ?thesis by (simp add: m(1) dquote_def)
    next
      case (Cons j js')
      let ?s = "join_with '', '' (map dumps js) @ CHR '']'' # rest"
      have "json_items m ?s = Inr (js, rest)" using items_back [of js m rest] JArr m(2) Cons by (auto simp: list_all_iff)
      moreover have "skip_space ?s = ?s" using Cons JArr.prems by (cases js') simp_all
      moreover obtain c cs where "?s = c # cs" "c \<noteq> CHR '']''" using dumps_hd [of j] Cons JArr.prems by (cases js') auto
      ultimately show ?thesis by (simp add: m(1) dquote_def)
    qed
  qed
next
  case (JObj kvs)
  show ?case unfolding reads_back_def
  proof (intro allI impI)
    fix n rest assume n: "length (dumps (JObj kvs)) \<le> n"
    then obtain m where m: "n = Suc m" "kvs \<noteq> [] \<Longrightarrow> length (join_with '', '' (map dump_member kvs)) < m" by (cases n) auto
    have r: "\<forall>kv \<in> set kvs. numberless (snd kv) \<and> reads_back (snd kv)" using JObj by (auto simp: list_all_iff intro: snds.intros)
    show "json_value n (dumps (JObj kvs) @ rest) = Inr (JObj kvs, rest)"
    proof (cases kvs)
      case Nil
      then show ?thesis by (simp add: m(1) dquote_def)
    next
      case (Cons kv kvs')
      let ?s = "join_with '', '' (map dump_member kvs) @ CHR ''}'' # rest"
      have "json_members m ?s = Inr (kvs, rest)" using members_back [OF r, of m rest] m(2) Cons by blast
      moreover have "skip_space ?s = ?s" using Cons by (cases kvs'; cases kv) (simp_all add: dump_str_def)
      moreover obtain cs where "?s = dquote # cs" using Cons by (cases kvs'; cases kv) (auto simp: dump_str_def)
      ultimately show ?thesis by (simp add: m(1) dquote_def)
    qed
  qed
qed

lemma loads_dumps [simp]: "numberless j \<Longrightarrow> loads (dumps j) = Inr j"
  using dumps_reads_back [of j, unfolded reads_back_def, rule_format, of "2 * length (dumps j) + 2" "[]"]
    skip_space_dumps [of j "[]"] by (simp add: loads_def skip_space_def)

end
