(* ===== verification/Catalog.thy ===== *)
theory Catalog
  imports Json Table
begin

text \<open>
  \<open>tinydb/catalog.py\<close>: the tables of the database, kept in memory and in the catalog page. The catalog
  reads and writes the file directly, past the cache; both hang on the pool it was built with. The
  catalog page is a slotted page whose rows hold name, columns (as JSON), root page and primary key of
  a table.
\<close>

section \<open>State\<close>

record TableMeta =
  meta_name :: string
  meta_columns :: "ColumnDef list"
  meta_root :: nat
  meta_primary_key :: string

record catalog =
  cat_pool :: buffer_pool
  cat_tables :: "(string, TableMeta) dict"
  cat_page_id :: nat

definition new_catalog :: "buffer_pool \<Rightarrow> catalog" where
  "new_catalog bp = \<lparr>cat_pool = bp, cat_tables = [], cat_page_id = 0\<rparr>"

abbreviation on_cat_pool :: "(buffer_pool, 'a) st \<Rightarrow> (catalog, 'a) st" where
  "on_cat_pool \<equiv> szoom cat_pool (\<lambda>bp c. c\<lparr>cat_pool := bp\<rparr>)"

abbreviation on_cat_fm :: "(file_manager, 'a) st \<Rightarrow> (catalog, 'a) st" where
  "on_cat_fm m \<equiv> on_cat_pool (on_fm m)"

definition text_column :: "string \<Rightarrow> ColumnDef" where
  "text_column a = \<lparr>col_name = a, data_type = TEXT, nullable = False, primary_key = False, is_unique = False\<rparr>"

definition catalog_columns :: "ColumnDef list" where
  "catalog_columns =
     [text_column ''table_name'', text_column ''columns'',
      (text_column ''root_page'')\<lparr>data_type := INTEGER\<rparr>, text_column ''primary_key'']"

section \<open>Columns as JSON\<close>

fun type_name :: "DataType \<Rightarrow> string" where
  "type_name INTEGER = ''INTEGER''"
| "type_name FLOAT = ''FLOAT''"
| "type_name TEXT = ''TEXT''"
| "type_name BOOLEAN = ''BOOLEAN''"

definition data_type_of :: "string \<Rightarrow> DataType res" where
  "data_type_of w =
     (if w = ''INTEGER'' then Inr INTEGER else if w = ''FLOAT'' then Inr FLOAT
      else if w = ''TEXT'' then Inr TEXT else if w = ''BOOLEAN'' then Inr BOOLEAN else Inl ValueError)"

definition column_to_dict :: "ColumnDef \<Rightarrow> json" where
  "column_to_dict c = JObj
     [(''name'', JStr (col_name c)), (''data_type'', JStr (type_name (data_type c))),
      (''nullable'', JBool (nullable c)), (''primary_key'', JBool (primary_key c)), (''unique'', JBool (is_unique c))]"

definition columns_json :: "ColumnDef list \<Rightarrow> string" where
  "columns_json cols = dumps (JArr (map column_to_dict cols))"

text \<open>
  \<open>item[k]\<close> and \<open>item.get(k, default)\<close> on a parsed object, where a later member of the same name wins.
  Python keeps whatever value it finds; here a name that is no string and a flag that is no
  boolean, which \<open>to_dict\<close> never writes, are refused.
\<close>

definition member_str :: "(string \<times> json) list \<Rightarrow> string \<Rightarrow> string res" where
  "member_str kvs k = (case map_of (rev kvs) k of
     None \<Rightarrow> Inl KeyError | Some (JStr w) \<Rightarrow> Inr w | Some _ \<Rightarrow> Inl TypeError)"

definition member_flag :: "(string \<times> json) list \<Rightarrow> string \<Rightarrow> bool \<Rightarrow> bool res" where
  "member_flag kvs k dflt = (case map_of (rev kvs) k of
     None \<Rightarrow> Inr dflt | Some (JBool b) \<Rightarrow> Inr b | Some _ \<Rightarrow> Inl TypeError)"

fun column_of_json :: "json \<Rightarrow> ColumnDef res" where
  "column_of_json (JObj kvs) =
     rbind (member_str kvs ''name'') (\<lambda>a.
     rbind (member_str kvs ''data_type'') (\<lambda>t.
     rbind (data_type_of t) (\<lambda>ty.
     rbind (member_flag kvs ''nullable'' True) (\<lambda>n.
     rbind (member_flag kvs ''primary_key'' False) (\<lambda>p.
     rbind (member_flag kvs ''unique'' False) (\<lambda>u.
       Inr \<lparr>col_name = a, data_type = ty, nullable = n, primary_key = p, is_unique = u\<rparr>))))))"
| "column_of_json j = Inl TypeError"

text \<open>Iterating over a string or an object gives strings, which have no item \<open>name\<close> either.\<close>

definition parse_columns_json :: "string \<Rightarrow> ColumnDef list res" where
  "parse_columns_json w =
     rbind (loads w) (\<lambda>j. case j of
       JArr js \<Rightarrow> rmap column_of_json js
     | JObj [] \<Rightarrow> Inr []
     | JStr '''' \<Rightarrow> Inr []
     | _ \<Rightarrow> Inl TypeError)"

section \<open>The rows of the catalog page\<close>

definition meta_row :: "TableMeta \<Rightarrow> bytes res" where
  "meta_row m =
     serialize_row [PStr (meta_name m), PStr (columns_json (meta_columns m)), PInt (int (meta_root m)),
       PStr (meta_primary_key m)] catalog_columns"

text \<open>A row with a NULL or a negative page, which \<open>meta_row\<close> never writes, is refused.\<close>

definition meta_of_row :: "bytes \<Rightarrow> TableMeta res" where
  "meta_of_row d =
     rbind (deserialize_row d catalog_columns) (\<lambda>values. case values of
       [PStr a, PStr cj, PInt r, PStr pk] \<Rightarrow>
         rbind (parse_columns_json cj) (\<lambda>cols.
           if r < 0 then Inl ValueError
           else Inr \<lparr>meta_name = a, meta_columns = cols, meta_root = nat r, meta_primary_key = pk\<rparr>)
     | _ \<Rightarrow> Inl TypeError)"

definition write_table_meta :: "TableMeta \<Rightarrow> (catalog, unit) st" where
  "write_table_meta m =
     sbind (slift (meta_row m)) (\<lambda>serialized.
     sbind (sget cat_page_id) (\<lambda>page_id.
     sbind (on_cat_fm (read_page page_id)) (\<lambda>raw.
     sbind (slift (insert_row_into_page
         \<lparr>p_page_id = page_id, p_page_type = Some CATALOG, p_data = raw, p_dirty = True\<rparr> serialized)) (\<lambda>(slot, page).
       on_cat_fm (write_page page_id (p_data page))))))"

fun put_metas :: "TableMeta list \<Rightarrow> Page \<Rightarrow> Page res" where
  "put_metas [] page = Inr page"
| "put_metas (m # ms) page =
     rbind (meta_row m) (\<lambda>serialized.
     rbind (insert_row_into_page page serialized) (\<lambda>(slot, page'). put_metas ms page'))"

definition save_to_disk :: "(catalog, unit) st" where
  "save_to_disk =
     sbind (sget cat_page_id) (\<lambda>page_id.
     sbind (slift (create_empty_page page_id CATALOG)) (\<lambda>page.
     sbind (sget (\<lambda>c. map snd (cat_tables c))) (\<lambda>metas.
     sbind (slift (put_metas metas page)) (\<lambda>page'.
       on_cat_fm (write_page page_id (p_data page'))))))"

definition catalog_save :: "(catalog, unit) st" where
  "catalog_save = sbind save_to_disk (\<lambda>_. on_cat_pool flush)"

section \<open>Loading\<close>

definition init_catalog :: "(catalog, unit) st" where
  "init_catalog =
     sbind (on_cat_fm alloc_page) (\<lambda>page_id.
     sbind (smod (\<lambda>c. c\<lparr>cat_page_id := page_id\<rparr>)) (\<lambda>_.
     sbind (on_cat_fm (smod (\<lambda>fm. fm\<lparr>fm_catalog_root := page_id\<rparr>))) (\<lambda>_.
     sbind (on_cat_fm write_header) (\<lambda>_.
     sbind (slift (create_empty_page page_id CATALOG)) (\<lambda>page.
       on_cat_fm (write_page page_id (p_data page)))))))"

fun add_metas :: "bytes list \<Rightarrow> (catalog, unit) st" where
  "add_metas [] = sret ()"
| "add_metas (d # ds) =
     sbind (slift (meta_of_row d)) (\<lambda>m.
     sbind (smod (\<lambda>c. c\<lparr>cat_tables := dict_set (meta_name m) m (cat_tables c)\<rparr>)) (\<lambda>_. add_metas ds))"

text \<open>The pages of the catalog, with fuel as for the chain of a table.\<close>

fun load_pages :: "nat \<Rightarrow> nat \<Rightarrow> (catalog, unit) st" where
  "load_pages fuel 0 = sret ()"
| "load_pages 0 (Suc p) = sraise NonTermination"
| "load_pages (Suc fuel) (Suc p) =
     sbind (on_cat_fm (read_page (Suc p))) (\<lambda>raw.
     sbind (slift (parse_page_header raw)) (\<lambda>header.
     sbind (slift (get_all_rows_from_page
         \<lparr>p_page_id = Suc p, p_page_type = Some CATALOG, p_data = raw, p_dirty = False\<rparr>)) (\<lambda>rows.
     sbind (add_metas rows) (\<lambda>_.
       load_pages fuel (h_next_page_id header)))))"

definition load_from_disk :: "(catalog, unit) st" where
  "load_from_disk c = load_pages (fm_page_count (bp_fm (cat_pool c)) + 1) (cat_page_id c) c"

definition catalog_load :: "(catalog, unit) st" where
  "catalog_load =
     sbind (sget (\<lambda>c. fm_catalog_root (bp_fm (cat_pool c)))) (\<lambda>page_id.
     sbind (smod (\<lambda>c. c\<lparr>cat_page_id := page_id\<rparr>)) (\<lambda>_.
       if page_id = 0 then init_catalog else load_from_disk))"

section \<open>Tables\<close>

text \<open>
  A new table is recorded in memory first; when its catalog row cannot be written, its page is freed,
  its entry removed, and the exception goes on.
\<close>

definition undo_create :: "string \<Rightarrow> nat \<Rightarrow> err \<Rightarrow> (catalog, unit) st" where
  "undo_create name page e =
     sbind (on_cat_fm (free_page page)) (\<lambda>_.
     sbind (smod (\<lambda>c. c\<lparr>cat_tables := dict_del name (cat_tables c)\<rparr>)) (\<lambda>_. sraise e))"

definition create_table :: "string \<Rightarrow> ColumnDef list \<Rightarrow> string \<Rightarrow> (catalog, unit) st" where
  "create_table name columns pk =
     sbind (sget (\<lambda>c. dict_get (cat_tables c) name)) (\<lambda>old.
       if old \<noteq> None then sraise TableExistsError
       else
         sbind (on_cat_fm alloc_page) (\<lambda>page.
         sbind (slift (create_empty_page page DATA)) (\<lambda>empty.
         sbind (on_cat_fm (write_page page (p_data empty))) (\<lambda>_.
         let meta = \<lparr>meta_name = name, meta_columns = columns, meta_root = page, meta_primary_key = pk\<rparr> in
         sbind (smod (\<lambda>c. c\<lparr>cat_tables := dict_set name meta (cat_tables c)\<rparr>)) (\<lambda>_ c.
           case write_table_meta meta c of
             (Inl e, c') \<Rightarrow> undo_create name page e c'
           | (Inr u, c') \<Rightarrow> (Inr (), c'))))))"

definition drop_table :: "string \<Rightarrow> (catalog, unit) st" where
  "drop_table name =
     sbind (sget (\<lambda>c. dict_get (cat_tables c) name)) (\<lambda>old. case old of
       None \<Rightarrow> sraise TableNotFoundError
     | Some meta \<Rightarrow>
         sbind (on_cat_fm (free_page (meta_root meta))) (\<lambda>_.
           smod (\<lambda>c. c\<lparr>cat_tables := dict_del name (cat_tables c)\<rparr>)))"

definition table_of_meta :: "TableMeta \<Rightarrow> Table" where
  "table_of_meta m = \<lparr>table_name = meta_name m, tbl_columns = meta_columns m, tbl_root = meta_root m,
     tbl_primary_key = meta_primary_key m\<rparr>"

definition get_table :: "(string, TableMeta) dict \<Rightarrow> string \<Rightarrow> Table res" where
  "get_table tables name = (case dict_get tables name of
     None \<Rightarrow> Inl TableNotFoundError | Some m \<Rightarrow> Inr (table_of_meta m))"

definition list_tables :: "(string, TableMeta) dict \<Rightarrow> string list" where
  "list_tables tables = dict_keys tables"

text \<open>The whole table is read to count its rows.\<close>

definition count_row :: "('s, nat) row_body" where
  "count_row rid values n = sret (n + 1)"

definition estimate_rows :: "(string, TableMeta) dict \<Rightarrow> string \<Rightarrow> (session, nat) st" where
  "estimate_rows tables name = (case dict_get tables name of
     None \<Rightarrow> sret 0
   | Some m \<Rightarrow> (\<lambda>s. table_scan main_ops (table_of_meta m) None count_row (po_count main_ops s + 1) 0 s))"

section \<open>What is saved is loaded\<close>

lemma data_type_of_name [simp]: "data_type_of (type_name t) = Inr t"
  by (cases t) (simp_all add: data_type_of_def)

lemma column_of_to_dict: "column_of_json (column_to_dict c) = Inr c"
  by (cases c) (simp add: column_to_dict_def member_str_def member_flag_def)

lemma numberless_columns: "numberless (JArr (map column_to_dict cols))"
  by (simp add: list_all_iff column_to_dict_def)

lemma parse_columns_back [simp]: "parse_columns_json (columns_json cols) = Inr cols"
proof -
  have "rmap column_of_json (map column_to_dict cols) = Inr cols"
    by (induction cols) (simp_all add: column_of_to_dict)
  then show ?thesis by (simp add: parse_columns_json_def columns_json_def numberless_columns del: dumps.simps numberless.simps)
qed

lemma serialize_text: "serialize_value TEXT (PStr w) = Inr b \<Longrightarrow> length (utf8_encode w) < 2 ^ 32"
  by (auto simp: serialize_value_def Let_def pack_u_Inr_iff)

lemma serialize_integer: "serialize_value INTEGER (PInt i) = Inr b \<Longrightarrow> in_i64 i"
  by (auto simp: serialize_value_def pack_i64_def split: if_splits)

lemma meta_row_back:
  assumes "meta_row m = Inr d"
  shows "meta_of_row d = Inr m" and "d \<noteq> []"
proof -
  let ?vs = "[PStr (meta_name m), PStr (columns_json (meta_columns m)), PInt (int (meta_root m)), PStr (meta_primary_key m)]"
  have "storable_row ?vs catalog_columns"
    using assms serialize_text serialize_integer
    by (auto simp: meta_row_def serialize_row_def catalog_columns_def text_column_def storable_row_def Let_def)
  moreover have "length catalog_columns < 65536" by (simp add: catalog_columns_def)
  ultimately obtain b where b: "serialize_row ?vs catalog_columns = Inr b" "deserialize_row b catalog_columns = Inr ?vs"
    "bitmap_size (length catalog_columns) + 2 \<le> length b" by (rule serialize_deserialize)
  then have "b = d" using assms by (simp add: meta_row_def)
  with b show "meta_of_row d = Inr m" and "d \<noteq> []" by (auto simp: meta_of_row_def)
qed

lemma put_metas_rows:
  assumes "put_metas ms page = Inr page'" and "wf_page (p_data page)"
  shows "\<exists>ds. list_all2 (\<lambda>m d. meta_row m = Inr d) ms ds \<and> wf_page (p_data page') \<and>
    page_rows (p_data page') = page_rows (p_data page) @ map Some ds \<and> page_next (p_data page') = page_next (p_data page)"
  using assms
proof (induction ms arbitrary: page)
  case (Cons m ms)
  then obtain d i p1 where d: "meta_row m = Inr d" "insert_row_into_page page d = Inr (i, p1)" "put_metas ms p1 = Inr page'"
    by (auto split: prod.splits)
  obtain h where h: "parse_page_header (p_data page) = Inr h" using Cons.prems(2) wf_pageE by blast
  have sp: "length d + 4 \<le> h_free_space h" using insert_row_full [OF h, of d] d(2) by (cases "h_free_space h < length d + 4") auto
  have p1: "wf_page (p_data p1)" "page_rows (p_data p1) = page_rows (p_data page) @ [Some d]"
    using insert_row_Inr [OF Cons.prems(2) meta_row_back(2) [OF d(1)] d(2)] by simp_all
  have "p_data p1 = inserted_data (p_data page) h d" using insert_row_ok [OF Cons.prems(2) h sp] d(2) by auto
  then have n: "page_next (p_data p1) = page_next (p_data page)"
    using page_next_parse [OF inserted_data_facts(2) [OF Cons.prems(2) h sp]] page_next_parse [OF h] by simp
  from Cons.IH [OF d(3) p1(1)] obtain ds where "list_all2 (\<lambda>m d. meta_row m = Inr d) ms ds" "wf_page (p_data page')"
    "page_rows (p_data page') = page_rows (p_data p1) @ map Some ds" "page_next (p_data page') = page_next (p_data p1)" by blast
  then show ?case using d(1) p1(2) n by (intro exI [of _ "d # ds"]) simp
qed (intro exI [of _ "[]"], simp)

text \<open>Every table is entered under its own name, once.\<close>

definition tables_ok :: "(string, TableMeta) dict \<Rightarrow> bool" where
  "tables_ok tables \<longleftrightarrow> distinct (dict_keys tables) \<and> (\<forall>(k, m) \<in> set tables. k = meta_name m)"

lemma add_metas_tables:
  assumes "list_all2 (\<lambda>m d. meta_row m = Inr d) (map snd ts) ds" and "tables_ok (cat_tables c @ ts)"
  shows "add_metas ds c = (Inr (), c\<lparr>cat_tables := cat_tables c @ ts\<rparr>)"
  using assms
proof (induction ts arbitrary: ds c)
  case (Cons km ts)
  obtain k m where km: "km = (k, m)" by (cases km)
  with Cons.prems(1) obtain d ds' where d: "ds = d # ds'" "meta_row m = Inr d" "list_all2 (\<lambda>m d. meta_row m = Inr d) (map snd ts) ds'"
    by (auto simp: list_all2_Cons1)
  have k: "k = meta_name m" "k \<notin> set (dict_keys (cat_tables c))" using Cons.prems(2) km by (auto simp: tables_ok_def)
  let ?c = "c\<lparr>cat_tables := dict_set (meta_name m) m (cat_tables c)\<rparr>"
  have t: "cat_tables ?c = cat_tables c @ [(k, m)]" using k dict_set_new [of k "cat_tables c" m] by simp
  have "add_metas ds' ?c = (Inr (), ?c\<lparr>cat_tables := cat_tables ?c @ ts\<rparr>)"
    using Cons.prems(2) km t by (intro Cons.IH [OF d(3)]) simp
  then show ?case using d meta_row_back(1) [OF d(2)] t km by (simp add: sbind_def)
qed simp

lemma create_catalog_page:
  assumes "create_empty_page p CATALOG = Inr page" and "p < 2 ^ 32"
  shows "wf_page (p_data page)" and "page_rows (p_data page) = []" and "page_next (p_data page) = 0"
proof -
  have d: "p_data page = empty_page_data p CATALOG" using create_empty_page_ok [OF assms(2), of CATALOG] assms(1) by auto
  show "wf_page (p_data page)" "page_rows (p_data page) = []" "page_next (p_data page) = 0"
    unfolding d using wf_empty_page [OF assms(2)] page_rows_empty_page [OF assms(2)]
      page_next_parse [OF parse_empty_page [OF assms(2)]] by simp_all
qed

text \<open>The page that a save leaves, and what a load makes of it.\<close>

definition holds_tables :: "bytes \<Rightarrow> (string, TableMeta) dict \<Rightarrow> bool" where
  "holds_tables d tables \<longleftrightarrow> wf_page d \<and> page_next d = 0 \<and>
     (\<exists>ds. page_rows d = map Some ds \<and> list_all2 (\<lambda>m d. meta_row m = Inr d) (map snd tables) ds)"

lemma load_holds:
  assumes fm: "fm_inv (bp_fm (cat_pool c))" and d: "disk (bp_fm (cat_pool c)) p = Some d" "holds_tables d tables"
    and t: "tables_ok tables" and c: "cat_tables c = []" "cat_page_id c = p" and p: "0 < p"
  shows "load_from_disk c = (Inr (), c\<lparr>cat_tables := tables\<rparr>)"
proof -
  obtain q where q: "p = Suc q" using p by (cases p) auto
  obtain ds where ds: "page_rows d = map Some ds" "list_all2 (\<lambda>m d. meta_row m = Inr d) (map snd tables) ds"
    using d(2) by (auto simp: holds_tables_def)
  have "wf_page d" using d(2) by (simp add: holds_tables_def)
  then obtain h where h: "parse_page_header d = Inr h" by (rule wf_pageE)
  have nx: "h_next_page_id h = 0" using page_next_parse [OF h] d(2) by (simp add: holds_tables_def)
  have r: "read_page p (bp_fm (cat_pool c)) = (Inr d, bp_fm (cat_pool c))" using read_page_eq [OF fm] d(1) by simp
  then have read: "on_cat_fm (read_page p) c = (Inr d, c)" by (simp add: szoom_def)
  have "get_all_rows_from_page \<lparr>p_page_id = p, p_page_type = Some CATALOG, p_data = d, p_dirty = False\<rparr> = Inr ds"
    using get_all_rows_eq [of "\<lparr>p_page_id = p, p_page_type = Some CATALOG, p_data = d, p_dirty = False\<rparr>"] d(2) ds(1)
    by (simp add: holds_tables_def List.map_filter_def comp_def)
  moreover have "add_metas ds c = (Inr (), c\<lparr>cat_tables := tables\<rparr>)"
    using add_metas_tables [OF ds(2), of c] t c(1) by simp
  ultimately show ?thesis
    unfolding load_from_disk_def c(2) q using read h nx q by (simp add: sbind_def)
qed

lemma save_to_disk_facts:
  assumes fm: "fm_inv (bp_fm (cat_pool c))" and p: "cat_page_id c < fm_page_count (bp_fm (cat_pool c))"
    and s: "save_to_disk c = (Inr (), c')"
  shows "\<exists>fm d. c' = c\<lparr>cat_pool := (cat_pool c)\<lparr>bp_fm := fm\<rparr>\<rparr> \<and> fm_inv fm \<and>
    fm = (bp_fm (cat_pool c))\<lparr>fm_file := fm_file fm\<rparr> \<and> holds_tables d (cat_tables c) \<and>
    (\<forall>q. disk fm q = (if q = cat_page_id c then Some d else disk (bp_fm (cat_pool c)) q))"
proof -
  have lt: "cat_page_id c < 2 ^ 32" using p fm by (simp add: fm_inv_def)
  obtain page page' where pg: "create_empty_page (cat_page_id c) CATALOG = Inr page"
    "put_metas (map snd (cat_tables c)) page = Inr page'"
    "on_cat_fm (write_page (cat_page_id c) (p_data page')) c = (Inr (), c')"
    using s by (auto simp: save_to_disk_def sbind_Inr_iff)
  note e = create_catalog_page [OF pg(1) lt]
  obtain ds where ds: "list_all2 (\<lambda>m d. meta_row m = Inr d) (map snd (cat_tables c)) ds" "wf_page (p_data page')"
    "page_rows (p_data page') = map Some ds" "page_next (p_data page') = 0"
    using put_metas_rows [OF pg(2) e(1)] e(2,3) by auto
  have len: "length (p_data page') = 4096" using ds(2) wf_pageE by blast
  note w = write_page_facts [OF fm p len]
  define fm' where "fm' = snd (write_page (cat_page_id c) (p_data page') (bp_fm (cat_pool c)))"
  have "write_page (cat_page_id c) (p_data page') (bp_fm (cat_pool c)) = (Inr (), fm')"
    using w(1) by (simp add: fm'_def prod_eq_iff)
  then have "c' = c\<lparr>cat_pool := (cat_pool c)\<lparr>bp_fm := fm'\<rparr>\<rparr>" using pg(3) by (simp add: szoom_def)
  moreover have "holds_tables (p_data page') (cat_tables c)" using ds by (auto simp: holds_tables_def)
  ultimately show ?thesis using w(2-4) unfolding fm'_def by blast
qed

lemma save_facts:
  assumes inv: "pool_inv (cat_pool c)" and p: "cat_page_id c < fm_page_count (bp_fm (cat_pool c))"
    and u: "\<not> cached (cat_pool c) (cat_page_id c)" and s: "catalog_save c = (Inr (), c')"
  shows "\<exists>d. holds_tables d (cat_tables c) \<and> disk (bp_fm (cat_pool c')) (cat_page_id c) = Some d \<and>
    pool_inv (cat_pool c') \<and> fm_page_count (bp_fm (cat_pool c')) = fm_page_count (bp_fm (cat_pool c)) \<and>
    fm_catalog_root (bp_fm (cat_pool c')) = fm_catalog_root (bp_fm (cat_pool c))"
proof -
  obtain c1 where c1: "save_to_disk c = (Inr (), c1)" "on_cat_pool flush c1 = (Inr (), c')"
    using s by (auto simp: catalog_save_def sbind_Inr_iff)
  obtain fm d where fm: "c1 = c\<lparr>cat_pool := (cat_pool c)\<lparr>bp_fm := fm\<rparr>\<rparr>" "fm_inv fm"
    "fm = (bp_fm (cat_pool c))\<lparr>fm_file := fm_file fm\<rparr>" "holds_tables d (cat_tables c)"
    "\<forall>q. disk fm q = (if q = cat_page_id c then Some d else disk (bp_fm (cat_pool c)) q)"
    using save_to_disk_facts [OF pool_invD(1) [OF inv] p c1(1)] by blast
  have pc: "fm_page_count fm = fm_page_count (bp_fm (cat_pool c))"
    "fm_catalog_root fm = fm_catalog_root (bp_fm (cat_pool c))" by (subst fm(3), simp)+
  have "page_ok fm k pg" if k: "dict_get (bp_cache (cat_pool c)) k = Some pg" for k pg
  proof -
    have "k \<noteq> cat_page_id c" using u k by (auto simp: cached_def)
    then show ?thesis using pool_invD(3) [OF inv k] fm(5) pc by (simp add: page_ok_def)
  qed
  then have inv1: "pool_inv (cat_pool c1)" using inv fm(1,2) unfolding pool_inv_def by simp
  obtain bp where bp: "flush (cat_pool c1) = (Inr (), bp)" "same_pages {} (cat_pool c1) bp"
    "\<forall>k. disk (bp_fm bp) k = pool_view (cat_pool c1) k" using flush_facts [OF inv1] by blast
  have c': "cat_pool c' = bp" using c1(2) bp(1) by (auto simp: szoom_def)
  have "disk (bp_fm bp) (cat_page_id c) = Some d"
    using bp(3) fm(1,5) u by (simp add: pool_view_def cached_def)
  moreover have "pool_inv bp" and s: "bp_fm bp = (bp_fm (cat_pool c1))\<lparr>fm_file := fm_file (bp_fm bp)\<rparr>"
    using bp(2) by (simp_all add: same_pages_def)
  moreover have "fm_page_count (bp_fm bp) = fm_page_count fm" "fm_catalog_root (bp_fm bp) = fm_catalog_root fm"
    by (subst s, simp add: fm(1))+
  ultimately show ?thesis using fm(4) pc unfolding c' by auto
qed

text \<open>
  C26. A database keeps its tables: when the catalog has been saved and the file closed, opening the
  file and loading its catalog gives the same tables, with the same columns, root pages and keys,
  provided that the catalog page is not also in the page cache.
\<close>

theorem catalog_survives_reopen:
  assumes "pool_inv (cat_pool c)" and "tables_ok (cat_tables c)"
    and "fm_catalog_root (bp_fm (cat_pool c)) = cat_page_id c" and "0 < cat_page_id c"
    and "cat_page_id c < fm_page_count (bp_fm (cat_pool c))" and "\<not> cached (cat_pool c) (cat_page_id c)"
    and "catalog_save c = (Inr (), c')"
  shows "\<exists>fm fm'. fm_close (bp_fm (cat_pool c')) = (Inr (), fm) \<and> fm_open (Some (fm_file fm)) = (Inr (), fm') \<and>
    (\<exists>c''. catalog_load (new_catalog (new_pool fm' n)) = (Inr (), c'') \<and> cat_tables c'' = cat_tables c \<and>
       cat_page_id c'' = cat_page_id c)"
proof -
  obtain d where d: "holds_tables d (cat_tables c)" "disk (bp_fm (cat_pool c')) (cat_page_id c) = Some d"
    "pool_inv (cat_pool c')" "fm_catalog_root (bp_fm (cat_pool c')) = fm_catalog_root (bp_fm (cat_pool c))"
    using save_facts [OF assms(1,5,6,7)] by blast
  obtain fm where fm: "fm_close (bp_fm (cat_pool c')) = (Inr (), fm)" "fm_open (Some (fm_file fm)) = (Inr (), fm)"
    "fm_catalog_root fm = fm_catalog_root (bp_fm (cat_pool c'))" "fm_inv fm"
    "\<forall>p. p \<noteq> 0 \<longrightarrow> fst (read_page p fm) = fst (read_page p (bp_fm (cat_pool c')))"
    using close_open [OF pool_invD(1) [OF d(3)]] by blast
  have "fst (read_page (cat_page_id c) fm) = Inr d"
    using fm(5) assms(4) read_page_eq [OF pool_invD(1) [OF d(3)]] d(2) by simp
  then have disk: "disk fm (cat_page_id c) = Some d" using read_page_eq [OF fm(4)] by (simp split: option.splits)
  let ?c = "(new_catalog (new_pool fm n))\<lparr>cat_page_id := cat_page_id c\<rparr>"
  have "load_from_disk ?c = (Inr (), ?c\<lparr>cat_tables := cat_tables c\<rparr>)"
    using load_holds [of ?c "cat_page_id c" d "cat_tables c"] fm(4) disk d(1) assms(2,4)
    by (simp add: new_catalog_def new_pool_def)
  then have "catalog_load (new_catalog (new_pool fm n)) = (Inr (), ?c\<lparr>cat_tables := cat_tables c\<rparr>)"
    using assms(3,4) d(4) fm(3) by (simp add: catalog_load_def sbind_def new_catalog_def new_pool_def)
  then show ?thesis using fm(1,2) by fastforce
qed

definition demo_meta :: TableMeta where
  "demo_meta = \<lparr>meta_name = ''t'', meta_columns = [text_column ''a'', (text_column ''b'')\<lparr>data_type := INTEGER\<rparr>],
     meta_root = 2, meta_primary_key = ''''\<rparr>"

definition demo_catalog :: catalog where
  "demo_catalog = \<lparr>cat_pool = new_pool ((fresh_fm 2)\<lparr>fm_catalog_root := 1\<rparr>) 10, cat_tables = [(''t'', demo_meta)], cat_page_id = 1\<rparr>"

lemma demo_meta_row: "case meta_row demo_meta of Inl e \<Rightarrow> False | Inr d \<Rightarrow> length d \<le> 4060"
  by code_simp

lemma demo_catalog_save: "\<exists>c'. catalog_save demo_catalog = (Inr (), c')"
proof -
  obtain d where d: "meta_row demo_meta = Inr d" "length d \<le> 4060" using demo_meta_row by (auto split: sum.splits)
  have c: "create_empty_page 1 CATALOG = Inr \<lparr>p_page_id = 1, p_page_type = Some CATALOG,
      p_data = empty_page_data 1 CATALOG, p_dirty = False\<rparr>" (is "_ = Inr ?pg")
    using create_empty_page_ok [of 1 CATALOG] by simp
  have wf: "wf_page (p_data ?pg)" using wf_empty_page [of 1 CATALOG] by simp
  have h: "parse_page_header (p_data ?pg) = Inr \<lparr>h_page_id = 1, h_page_type = CATALOG, h_slot_count = 0,
     h_free_space = 4064, h_free_offset = 4096, h_next_page_id = 0, h_flags = 0\<rparr>"
    using parse_empty_page [of 1 CATALOG] by simp
  obtain i pg' where pg: "insert_row_into_page ?pg d = Inr (i, pg')" using insert_row_ok [OF wf h, of d] d(2) by auto
  have wf': "wf_page (p_data pg')" using insert_row_Inr [OF wf meta_row_back(2) [OF d(1)] pg] by simp
  let ?fm = "(fresh_fm 2)\<lparr>fm_catalog_root := 1\<rparr>"
  have fm: "fm_inv ?fm" using fresh_fm_facts(1) [of 2] by (simp add: fm_inv_def)
  have "length (p_data pg') = 4096" using wf' wf_pageE by blast
  then have "fst (write_page 1 (p_data pg') ?fm) = Inr ()"
    using write_page_facts(1) [OF fm, of 1 "p_data pg'"] by (simp add: fresh_fm_def)
  then obtain fm' where w: "write_page 1 (p_data pg') ?fm = (Inr (), fm')" by (cases "write_page 1 (p_data pg') ?fm") auto
  have "save_to_disk demo_catalog = (Inr (), demo_catalog\<lparr>cat_pool := new_pool fm' 10\<rparr>)"
    using c d(1) pg w by (simp add: save_to_disk_def demo_catalog_def sbind_def szoom_def new_pool_def)
  then show ?thesis
    by (simp add: catalog_save_def sbind_def szoom_def flush_def new_pool_def)
qed

theorem catalog_survives_reopen_witness:
  "\<exists>c' fm fm' c''. catalog_save demo_catalog = (Inr (), c') \<and> fm_close (bp_fm (cat_pool c')) = (Inr (), fm) \<and>
     fm_open (Some (fm_file fm)) = (Inr (), fm') \<and>
     catalog_load (new_catalog (new_pool fm' 5)) = (Inr (), c'') \<and> cat_tables c'' = [(''t'', demo_meta)]"
proof -
  obtain c' where s: "catalog_save demo_catalog = (Inr (), c')" using demo_catalog_save by blast
  let ?fm = "(fresh_fm 2)\<lparr>fm_catalog_root := 1\<rparr>"
  have "fm_inv ?fm" using fresh_fm_facts(1) [of 2] by (simp add: fm_inv_def)
  then have "pool_inv (cat_pool demo_catalog)" by (simp add: demo_catalog_def pool_inv_def new_pool_def)
  moreover have "tables_ok (cat_tables demo_catalog)" by (simp add: demo_catalog_def tables_ok_def demo_meta_def)
  ultimately show ?thesis
    using catalog_survives_reopen [of demo_catalog c' 5] s
    by (auto simp: demo_catalog_def new_pool_def fresh_fm_def cached_def)
qed

end
