(* ===== verification/Index_Manager.thy ===== *)
theory Index_Manager
  imports Btree Catalog
begin

text \<open>
  \<open>tinydb/index/index_manager.py\<close>: the indexes of the tables and the hooks that keep them in step with
  the rows. The manager holds three dicts; the tree of an index is an object of its own, whose root
  moves when it splits. Its pages come from the pool given to the manager at the start, so the hooks
  take the methods of that pool and run on the store together with the manager.
\<close>

section \<open>State\<close>

record IndexMeta =
  im_name :: string
  im_table :: string
  im_column :: string
  im_type :: DataType
  im_root :: nat

record index_manager =
  indexes :: "(string, IndexMeta) dict"
  table_indexes :: "(string, (string, string) dict) dict"
  btrees :: "(string, btree) dict"

definition new_index_manager :: index_manager where
  "new_index_manager = \<lparr>indexes = [], table_indexes = [], btrees = []\<rparr>"

record 's index_env =
  ie_store :: 's
  ie_mgr :: index_manager

abbreviation on_ie_store :: "('s, 'a) st \<Rightarrow> ('s index_env, 'a) st" where
  "on_ie_store \<equiv> szoom ie_store (\<lambda>s e. e\<lparr>ie_store := s\<rparr>)"

abbreviation on_ie_mgr :: "(index_manager, 'a) st \<Rightarrow> ('s index_env, 'a) st" where
  "on_ie_mgr \<equiv> szoom ie_mgr (\<lambda>m e. e\<lparr>ie_mgr := m\<rparr>)"

text \<open>A method of the tree of an index.\<close>

definition on_btree :: "string \<Rightarrow> (DataType \<Rightarrow> ('s index, 'a) st) \<Rightarrow> ('s index_env, 'a) st" where
  "on_btree name m e = (case dict_get (btrees (ie_mgr e)) name of
     None \<Rightarrow> (Inl KeyError, e)
   | Some b \<Rightarrow> (case m (bt_key_type b) \<lparr>ix_store = ie_store e, ix_root = bt_root b\<rparr> of
       (r, i) \<Rightarrow> (r, e\<lparr>ie_store := ix_store i,
          ie_mgr := (ie_mgr e)\<lparr>btrees := dict_set name (b\<lparr>bt_root := ix_root i\<rparr>) (btrees (ie_mgr e))\<rparr>\<rparr>)))"

section \<open>Creating and dropping\<close>

definition add_index :: "IndexMeta \<Rightarrow> btree \<Rightarrow> index_manager \<Rightarrow> index_manager" where
  "add_index meta b m =
     (let name = im_name meta; tbl = im_table meta;
          col_map = (case dict_get (table_indexes m) tbl of Some cm \<Rightarrow> cm | None \<Rightarrow> [])
      in m\<lparr>indexes := dict_set name meta (indexes m),
           btrees := dict_set name b (btrees m),
           table_indexes := dict_set tbl (dict_set (im_column meta) name col_map) (table_indexes m)\<rparr>)"

definition create_index ::
  "'s pool_ops \<Rightarrow> (string, TableMeta) dict \<Rightarrow> string \<Rightarrow> string \<Rightarrow> string \<Rightarrow> ('s index_env, IndexMeta) st" where
  "create_index ops tables tbl column name =
     sbind (sget (\<lambda>e. dict_get (indexes (ie_mgr e)) name)) (\<lambda>old.
       if old \<noteq> None then sraise ValueError
       else case dict_get tables tbl of
         None \<Rightarrow> sraise ValueError
       | Some meta \<Rightarrow> (case find (\<lambda>c. col_name c = column) (meta_columns meta) of
           None \<Rightarrow> sraise ValueError
         | Some c \<Rightarrow>
             sbind (on_ie_store (new_index ops)) (\<lambda>root_page.
             let im = \<lparr>im_name = name, im_table = tbl, im_column = column, im_type = data_type c, im_root = root_page\<rparr> in
             sbind (smod (\<lambda>e. e\<lparr>ie_mgr := add_index im \<lparr>bt_key_type = data_type c, bt_root = root_page\<rparr> (ie_mgr e)\<rparr>))
               (\<lambda>_. sret im))))"

text \<open>The pages of a dropped index are not freed.\<close>

definition drop_index :: "string \<Rightarrow> (index_manager, unit) st" where
  "drop_index name m = (case dict_get (indexes m) name of
     None \<Rightarrow> (Inl ValueError, m)
   | Some meta \<Rightarrow>
       (if dict_get (btrees m) name = None then (Inl KeyError, m\<lparr>indexes := dict_del name (indexes m)\<rparr>)
        else (Inr (), m\<lparr>indexes := dict_del name (indexes m), btrees := dict_del name (btrees m),
          table_indexes := (case dict_get (table_indexes m) (im_table meta) of
             None \<Rightarrow> table_indexes m
           | Some cm \<Rightarrow> dict_set (im_table meta) (dict_del (im_column meta) cm) (table_indexes m))\<rparr>)))"

definition get_index :: "index_manager \<Rightarrow> string \<Rightarrow> string \<Rightarrow> IndexMeta option" where
  "get_index m tbl column =
     (case Option.bind (dict_get (table_indexes m) tbl) (\<lambda>cm. dict_get cm column) of
        None \<Rightarrow> None
      | Some name \<Rightarrow> if name = [] then None else dict_get (indexes m) name)"

section \<open>Hooks\<close>

text \<open>The columns of a table, when it is known and has an index.\<close>

definition indexed_columns ::
  "(string, TableMeta) dict \<Rightarrow> string \<Rightarrow> index_manager \<Rightarrow> ((string, string) dict \<times> ColumnDef list) option" where
  "indexed_columns tables tbl m = (case dict_get (table_indexes m) tbl of
     None \<Rightarrow> None
   | Some cm \<Rightarrow> if cm = [] then None
       else map_option (\<lambda>meta. (cm, meta_columns meta)) (dict_get tables tbl))"

definition nth_value :: "pval list \<Rightarrow> nat \<Rightarrow> pval res" where
  "nth_value row i = (if i < length row then Inr (row ! i) else Inl IndexError)"

text \<open>\<open>for col_idx, col in enumerate(columns)\<close>.\<close>

fun for_columns :: "(nat \<Rightarrow> ColumnDef \<Rightarrow> ('s, unit) st) \<Rightarrow> nat \<Rightarrow> ColumnDef list \<Rightarrow> ('s, unit) st" where
  "for_columns body i [] = sret ()"
| "for_columns body i (c # cs) = sbind (body i c) (\<lambda>_. for_columns body (Suc i) cs)"

definition for_indexed ::
  "(string, TableMeta) dict \<Rightarrow> string \<Rightarrow> ((string, string) dict \<Rightarrow> nat \<Rightarrow> ColumnDef \<Rightarrow> ('s index_env, unit) st) \<Rightarrow>
   ('s index_env, unit) st" where
  "for_indexed tables tbl body e = (case indexed_columns tables tbl (ie_mgr e) of
     None \<Rightarrow> (Inr (), e)
   | Some (cm, cols) \<Rightarrow> for_columns (body cm) 0 cols e)"

definition when_indexed :: "(string, string) dict \<Rightarrow> ColumnDef \<Rightarrow> (string \<Rightarrow> ('s, unit) st) \<Rightarrow> ('s, unit) st" where
  "when_indexed cm c m = (case dict_get cm (col_name c) of
     None \<Rightarrow> sret ()
   | Some name \<Rightarrow> if name = [] then sret () else m name)"

definition after_insert ::
  "'s pool_ops \<Rightarrow> (string, TableMeta) dict \<Rightarrow> string \<Rightarrow> RowId \<Rightarrow> pval list \<Rightarrow> ('s index_env, unit) st" where
  "after_insert ops tables tbl rid row =
     for_indexed tables tbl (\<lambda>cm i c. when_indexed cm c (\<lambda>name.
       sbind (slift (nth_value row i)) (\<lambda>key.
         if key = PNone then sret () else on_btree name (\<lambda>t. btree_insert ops t key rid))))"

definition after_delete ::
  "'s pool_ops \<Rightarrow> (string, TableMeta) dict \<Rightarrow> string \<Rightarrow> RowId \<Rightarrow> pval list \<Rightarrow> ('s index_env, unit) st" where
  "after_delete ops tables tbl rid old_row =
     for_indexed tables tbl (\<lambda>cm i c. when_indexed cm c (\<lambda>name.
       sbind (slift (nth_value old_row i)) (\<lambda>key.
         if key = PNone then sret () else on_btree name (\<lambda>t. btree_delete ops t key rid))))"

definition after_update ::
  "'s pool_ops \<Rightarrow> (string, TableMeta) dict \<Rightarrow> string \<Rightarrow> RowId \<Rightarrow> pval list \<Rightarrow> pval list \<Rightarrow> ('s index_env, unit) st" where
  "after_update ops tables tbl rid old_row new_row =
     for_indexed tables tbl (\<lambda>cm i c.
       sbind (slift (nth_value old_row i)) (\<lambda>old.
       sbind (slift (nth_value new_row i)) (\<lambda>new.
         if py_eq old new then sret ()
         else when_indexed cm c (\<lambda>name.
           sbind (if old = PNone then sret () else on_btree name (\<lambda>t. btree_delete ops t old rid)) (\<lambda>_.
             if new = PNone then sret () else on_btree name (\<lambda>t. btree_insert ops t new rid))))))"

text \<open>\<open>getattr(where, "column", None)\<close>: no expression has that attribute.\<close>

fun column_attribute :: "expr \<Rightarrow> string option" where
  "column_attribute (Literal v) = None"
| "column_attribute (ColumnRef name t) = None"
| "column_attribute StarExpr = None"
| "column_attribute (BinaryOp op l r) = None"
| "column_attribute (UnaryOp op e) = None"
| "column_attribute (AggregateExpr f e d) = None"
| "column_attribute (IsNullExpr e n) = None"

definition find_matching_index :: "index_manager \<Rightarrow> string \<Rightarrow> expr option \<Rightarrow> IndexMeta option" where
  "find_matching_index m tbl cond = (case (dict_get (table_indexes m) tbl, cond) of
     (Some cm, Some e) \<Rightarrow> if cm = [] then None else (case column_attribute e of
         None \<Rightarrow> None
       | Some col \<Rightarrow> if col = [] then None else (case dict_get cm col of
           None \<Rightarrow> None
         | Some name \<Rightarrow> dict_get (indexes m) name))
   | _ \<Rightarrow> None)"

end
