(* ===== verification/Ast.thy ===== *)
theory Ast
  imports Expressions
begin

text \<open>
  \<open>tinydb/sql/ast.py\<close>: the statements the parser builds and the planner reads. The \<open>table\<close> of a
  SELECT is the name of its \<open>from_table\<close>, which the parser always supplies.
\<close>

record TableRef =
  tr_name :: string
  tr_alias :: "string option"

record JoinClause =
  jc_type :: string
  right_table :: TableRef
  jc_on :: "expr option"
  using_columns :: "string list option"

record SelectStatement =
  sel_columns :: "expr list"
  from_table :: TableRef
  joins :: "JoinClause list"
  sel_where :: "expr option"
  order_by :: "(expr \<times> string) list option"
  limit_count :: "int option"
  offset_count :: "int option"
  group_by :: "expr list option"

record InsertStatement =
  ins_table :: string
  ins_columns :: "string list option"
  ins_values :: "expr list list"

record UpdateStatement =
  upd_table :: string
  assignments :: "(string \<times> expr) list"
  upd_where :: "expr option"

record DeleteStatement =
  del_table :: string
  del_where :: "expr option"

record ColumnDefAST =
  ca_name :: string
  ca_type :: string
  ca_nullable :: bool
  ca_primary_key :: bool
  ca_unique :: bool
  ca_not_null :: bool

record CreateTableStatement =
  create_table_name :: string
  create_columns :: "ColumnDefAST list"

datatype statement =
    Select SelectStatement
  | Insert InsertStatement
  | Update UpdateStatement
  | Delete DeleteStatement
  | CreateTable CreateTableStatement
  | DropTable string

end
