(* ===== verification/Dml.thy ===== *)
theory Dml
  imports Index_Manager Operators Ast Lexer
begin

text \<open>
  INSERT, UPDATE, DELETE, CREATE TABLE and DROP TABLE of \<open>tinydb/sql/executor.py\<close>. The statements run on
  the store of the statement's pool together with the index manager: \<open>ops\<close> are the methods of that
  pool, \<open>iops\<close> those of the pool of the index manager (\<open>None\<close> for an operator without one). Both work
  on the same store.

  The loop of UPDATE scans the table while it rewrites rows, and a row that moves to a later page is
  met again; the loop may visit more pages than the table had. Its fuel is an argument.
\<close>

section \<open>The pool inside the larger state\<close>

definition lift_ops :: "'s pool_ops \<Rightarrow> 's index_env pool_ops" where
  "lift_ops ops = \<lparr>
     po_get = (\<lambda>p snap. on_ie_store (po_get ops p snap)),
     po_set = (\<lambda>p d. on_ie_store (po_set ops p d)),
     po_alloc = on_ie_store (po_alloc ops),
     po_write = (\<lambda>p d. on_ie_store (po_write ops p d)),
     po_pin = (\<lambda>p lock. on_ie_store (po_pin ops p lock)),
     po_unpin = (\<lambda>p txn. on_ie_store (po_unpin ops p txn)),
     po_acquire = (\<lambda>txn p mode. on_ie_store (po_acquire ops txn p mode)),
     po_count = (\<lambda>e. po_count ops (ie_store e))\<rparr>"

section \<open>Constraints\<close>

text \<open>The body of the scan that looks for a second row with the value.\<close>

definition check_row :: "nat \<Rightarrow> pval \<Rightarrow> RowId option \<Rightarrow> ('s, unit) row_body" where
  "check_row i v exclude rid row _ =
     (if Some rid = exclude then sret ()
      else sbind (slift (nth_value row i)) (\<lambda>w. if py_eq w v then sraise ConstraintError else sret ()))"

definition check_unique ::
  "'s pool_ops \<Rightarrow> 's pool_ops option \<Rightarrow> Table \<Rightarrow> string \<Rightarrow> nat \<Rightarrow> pval \<Rightarrow> RowId option \<Rightarrow> ('s index_env, unit) st" where
  "check_unique ops iops tbl tname i v exclude e =
     (case (if i < length (tbl_columns tbl) \<and> tname \<noteq> []
            then Option.bind iops (\<lambda>io. map_option (\<lambda>m. (io, m)) (get_index (ie_mgr e) tname (col_name (tbl_columns tbl ! i))))
            else None) of
        Some (io, meta) \<Rightarrow>
          sbind (on_btree (im_name meta) (\<lambda>t. btree_search io t v)) (\<lambda>rids.
            if rids \<noteq> [] then sraise ConstraintError else sret ()) e
      | None \<Rightarrow>
          table_scan (lift_ops ops) tbl None (check_row i v exclude) (po_count ops (ie_store e) + 1) () e)"

fun check_columns ::
  "'s pool_ops \<Rightarrow> 's pool_ops option \<Rightarrow> Table \<Rightarrow> string \<Rightarrow> RowId option \<Rightarrow> nat \<Rightarrow> (pval \<times> ColumnDef) list \<Rightarrow>
   ('s index_env, unit) st" where
  "check_columns ops iops tbl tname exclude i [] = sret ()"
| "check_columns ops iops tbl tname exclude i ((v, c) # vcs) =
     (if \<not> nullable c \<and> v = PNone then sraise ConstraintError
      else sbind (if primary_key c \<or> is_unique c then check_unique ops iops tbl tname i v exclude else sret ()) (\<lambda>_.
        check_columns ops iops tbl tname exclude (Suc i) vcs))"

definition check_constraints ::
  "'s pool_ops \<Rightarrow> 's pool_ops option \<Rightarrow> Table \<Rightarrow> pval list \<Rightarrow> string \<Rightarrow> ('s index_env, unit) st" where
  "check_constraints ops iops tbl row tname = check_columns ops iops tbl tname None 0 (zip row (tbl_columns tbl))"

definition check_constraints_update ::
  "'s pool_ops \<Rightarrow> 's pool_ops option \<Rightarrow> Table \<Rightarrow> RowId \<Rightarrow> pval list \<Rightarrow> string \<Rightarrow> ('s index_env, unit) st" where
  "check_constraints_update ops iops tbl rid new_row tname =
     check_columns ops iops tbl tname (Some rid) 0 (zip new_row (tbl_columns tbl))"

section \<open>INSERT\<close>

record QueryResult =
  qr_columns :: "string list"
  qr_rows :: "pval list list"
  row_count :: nat

definition affected :: "nat \<Rightarrow> QueryResult" where
  "affected n = \<lparr>qr_columns = [], qr_rows = [], row_count = n\<rparr>"

definition ordered_row :: "Table \<Rightarrow> string list option \<Rightarrow> pval list \<Rightarrow> pval list" where
  "ordered_row tbl names values = (case names of
     Some (n # ns) \<Rightarrow> (let d = row_dict (n # ns) values in map (\<lambda>c. row_get d (col_name c)) (tbl_columns tbl))
   | _ \<Rightarrow> values)"

definition insert_one ::
  "'s pool_ops \<Rightarrow> 's pool_ops option \<Rightarrow> (string, TableMeta) dict \<Rightarrow> Table \<Rightarrow> string \<Rightarrow> pval list \<Rightarrow> ('s index_env, unit) st" where
  "insert_one ops iops tables tbl tname row =
     sbind (check_constraints ops iops tbl row tname) (\<lambda>_.
     sbind (on_ie_store (table_insert ops tbl row None)) (\<lambda>rid.
       case iops of None \<Rightarrow> sret () | Some io \<Rightarrow> after_insert io tables tname rid row))"

fun insert_rows ::
  "'s pool_ops \<Rightarrow> 's pool_ops option \<Rightarrow> (string, TableMeta) dict \<Rightarrow> Table \<Rightarrow> InsertStatement \<Rightarrow> expr list list \<Rightarrow>
   ('s index_env, unit) st" where
  "insert_rows ops iops tables tbl stmt [] = sret ()"
| "insert_rows ops iops tables tbl stmt (es # rest) =
     sbind (slift (rmap (\<lambda>x. evaluate x []) es)) (\<lambda>values.
     sbind (insert_one ops iops tables tbl (ins_table stmt) (ordered_row tbl (ins_columns stmt) values)) (\<lambda>_.
       insert_rows ops iops tables tbl stmt rest))"

definition execute_insert ::
  "'s pool_ops \<Rightarrow> 's pool_ops option \<Rightarrow> (string, TableMeta) dict \<Rightarrow> InsertStatement \<Rightarrow> ('s index_env, QueryResult) st" where
  "execute_insert ops iops tables stmt =
     sbind (slift (get_table tables (ins_table stmt))) (\<lambda>tbl.
     sbind (insert_rows ops iops tables tbl stmt (ins_values stmt)) (\<lambda>_.
       sret (affected (length (ins_values stmt)))))"

section \<open>UPDATE\<close>

definition names_of :: "Table \<Rightarrow> string list" where
  "names_of tbl = map col_name (tbl_columns tbl)"

definition selects :: "expr option \<Rightarrow> row \<Rightarrow> bool res" where
  "selects cond row = (case cond of
     None \<Rightarrow> Inr True
   | Some e \<Rightarrow> rbind (evaluate e row) (\<lambda>v. Inr (to_bool v)))"

text \<open>\<open>names.index(name)\<close>: the first position.\<close>

definition index_of :: "string list \<Rightarrow> string \<Rightarrow> nat res" where
  "index_of names name =
     (let i = length (takeWhile (\<lambda>n. n \<noteq> name) names) in if i < length names then Inr i else Inl ValueError)"

fun assign :: "string list \<Rightarrow> row \<Rightarrow> (string \<times> expr) list \<Rightarrow> pval list \<Rightarrow> pval list res" where
  "assign names row [] new_row = Inr new_row"
| "assign names row ((name, e) # rest) new_row =
     rbind (index_of names name) (\<lambda>i.
     rbind (evaluate e row) (\<lambda>v. assign names row rest (new_row[i := v])))"

text \<open>The row id that \<open>update\<close> returns for a row that has moved is not used.\<close>

definition update_row ::
  "'s pool_ops \<Rightarrow> 's pool_ops option \<Rightarrow> (string, TableMeta) dict \<Rightarrow> Table \<Rightarrow> UpdateStatement \<Rightarrow> ('s index_env, nat) row_body" where
  "update_row ops iops tables tbl stmt rid values updated =
     (let row = row_dict (names_of tbl) values in
      sbind (slift (selects (upd_where stmt) row)) (\<lambda>sel.
        if \<not> sel then sret updated
        else
          sbind (slift (assign (names_of tbl) row (assignments stmt) values)) (\<lambda>new_row.
          sbind (check_constraints_update ops iops tbl rid new_row (upd_table stmt)) (\<lambda>_.
          sbind (case iops of None \<Rightarrow> sret () | Some io \<Rightarrow> after_update io tables (upd_table stmt) rid values new_row) (\<lambda>_.
          sbind (on_ie_store (table_update ops tbl rid new_row None)) (\<lambda>_.
            sret (updated + 1)))))))"

definition execute_update ::
  "'s pool_ops \<Rightarrow> 's pool_ops option \<Rightarrow> (string, TableMeta) dict \<Rightarrow> nat \<Rightarrow> UpdateStatement \<Rightarrow> ('s index_env, QueryResult) st" where
  "execute_update ops iops tables fuel stmt =
     sbind (slift (get_table tables (upd_table stmt))) (\<lambda>tbl.
     sbind (table_scan (lift_ops ops) tbl None (update_row ops iops tables tbl stmt) fuel 0) (\<lambda>updated.
       sret (affected updated)))"

section \<open>DELETE\<close>

definition collect_selected :: "Table \<Rightarrow> expr option \<Rightarrow> ('s, (RowId \<times> pval list) list) row_body" where
  "collect_selected tbl cond rid values acc =
     sbind (slift (selects cond (row_dict (names_of tbl) values))) (\<lambda>sel.
       sret (if sel then acc @ [(rid, values)] else acc))"

fun delete_rows ::
  "'s pool_ops \<Rightarrow> 's pool_ops option \<Rightarrow> (string, TableMeta) dict \<Rightarrow> Table \<Rightarrow> string \<Rightarrow> (RowId \<times> pval list) list \<Rightarrow>
   ('s index_env, unit) st" where
  "delete_rows ops iops tables tbl tname [] = sret ()"
| "delete_rows ops iops tables tbl tname ((rid, values) # rest) =
     sbind (case iops of None \<Rightarrow> sret () | Some io \<Rightarrow> after_delete io tables tname rid values) (\<lambda>_.
     sbind (on_ie_store (table_delete ops tbl rid None)) (\<lambda>_.
       delete_rows ops iops tables tbl tname rest))"

definition execute_delete ::
  "'s pool_ops \<Rightarrow> 's pool_ops option \<Rightarrow> (string, TableMeta) dict \<Rightarrow> DeleteStatement \<Rightarrow> ('s index_env, QueryResult) st" where
  "execute_delete ops iops tables stmt =
     sbind (slift (get_table tables (del_table stmt))) (\<lambda>tbl.
     sbind (\<lambda>e. on_ie_store (\<lambda>s. table_scan ops tbl None (collect_selected tbl (del_where stmt)) (po_count ops s + 1) [] s) e)
       (\<lambda>to_delete.
     sbind (delete_rows ops iops tables tbl (del_table stmt) to_delete) (\<lambda>_.
       sret (affected (length to_delete)))))"

section \<open>CREATE TABLE and DROP TABLE\<close>

definition column_of_ast :: "ColumnDefAST \<Rightarrow> ColumnDef res" where
  "column_of_ast c =
     rbind (data_type_of (upper (ca_type c))) (\<lambda>t.
       Inr \<lparr>col_name = ca_name c, data_type = t, nullable = ca_nullable c, primary_key = ca_primary_key c,
         is_unique = ca_unique c\<rparr>)"

definition last_primary_key :: "ColumnDef list \<Rightarrow> string" where
  "last_primary_key cols = fold (\<lambda>c pk. if primary_key c then col_name c else pk) cols []"

definition execute_create :: "CreateTableStatement \<Rightarrow> (catalog, QueryResult) st" where
  "execute_create stmt =
     sbind (slift (rmap column_of_ast (create_columns stmt))) (\<lambda>cols.
     sbind (create_table (create_table_name stmt) cols (last_primary_key cols)) (\<lambda>_. sret (affected 0)))"

definition execute_drop :: "string \<Rightarrow> (catalog, QueryResult) st" where
  "execute_drop name = sbind (drop_table name) (\<lambda>_. sret (affected 0))"

end
