(* ===== verification/Dml_Facts.thy ===== *)
theory Dml_Facts
  imports Dml
begin

text \<open>
  INSERT and DELETE against their meaning on the rows of a table: the checks of the constraints are a
  function of the stored rows (\<open>check_spec\<close>), an INSERT adds rows to a bag one by one until the first that is
  refused (\<open>insert_all\<close>), a DELETE filters the rows. The table has no index here; what the indexes do is in
  \<open>Index_Facts\<close>.
\<close>

section \<open>The store of a statement\<close>

text \<open>The pool inside the larger state is a page store again, and its methods leave the index manager alone.\<close>

locale statement_store = page_store inv live view ready fresh ops
  for inv :: "nat \<Rightarrow> 's \<Rightarrow> bool" and live :: "'s \<Rightarrow> nat \<Rightarrow> bool" and view :: "'s \<Rightarrow> nat \<Rightarrow> bytes option"
    and ready fresh :: "'s \<Rightarrow> nat \<Rightarrow> bool" and ops :: "'s pool_ops"

sublocale statement_store \<subseteq> env: page_store
  "\<lambda>n e. inv n (ie_store e) \<and> ie_mgr e = m" "\<lambda>e. live (ie_store e)" "\<lambda>e. view (ie_store e)"
  "\<lambda>e. ready (ie_store e)" "\<lambda>e. fresh (ie_store e)" "lift_ops ops" for m :: index_manager
proof
  fix n and e :: "'s index_env" and p
  assume a: "inv n (ie_store e) \<and> ie_mgr e = m" "live (ie_store e) p"
  then show "0 < p \<and> p < po_count (lift_ops ops) e" using live_page [of n "ie_store e" p] by (simp add: lift_ops_def)
next
  fix n and e :: "'s index_env" and p d
  assume a: "inv n (ie_store e) \<and> ie_mgr e = m" "live (ie_store e) p" "view (ie_store e) p = Some d" "parses d"
  then obtain s' where "po_get ops p None (ie_store e) = (Inr d, s')" "inv n s'" "live s' = live (ie_store e)"
    "\<forall>q. live (ie_store e) q \<longrightarrow> view s' q = view (ie_store e) q" "ready s' p"
    "\<forall>q. fresh (ie_store e) q \<longrightarrow> q \<noteq> p \<longrightarrow> fresh s' q" using get_law by blast
  then show "\<exists>e'. po_get (lift_ops ops) p None e = (Inr d, e') \<and> (inv n (ie_store e') \<and> ie_mgr e' = m) \<and>
      live (ie_store e') = live (ie_store e) \<and> (\<forall>q. live (ie_store e) q \<longrightarrow> view (ie_store e') q = view (ie_store e) q) \<and>
      ready (ie_store e') p \<and> (\<forall>q. fresh (ie_store e) q \<longrightarrow> q \<noteq> p \<longrightarrow> fresh (ie_store e') q)"
    using a(1) by (intro exI [of _ "e\<lparr>ie_store := s'\<rparr>"]) (simp add: lift_ops_def szoom_def)
next
  fix n and e :: "'s index_env" and p d
  assume a: "inv (Suc n) (ie_store e) \<and> ie_mgr e = m" "live (ie_store e) p" "ready (ie_store e) p" "parses d"
  then obtain s' where "po_set ops p d (ie_store e) = (Inr (), s')" "inv n s'" "live s' = live (ie_store e)"
    "\<forall>q. live (ie_store e) q \<longrightarrow> view s' q = (if q = p then Some d else view (ie_store e) q)"
    "\<forall>q. fresh (ie_store e) q \<longrightarrow> q \<noteq> p \<longrightarrow> fresh s' q" using set_law by blast
  then show "\<exists>e'. po_set (lift_ops ops) p d e = (Inr (), e') \<and> (inv n (ie_store e') \<and> ie_mgr e' = m) \<and>
      live (ie_store e') = live (ie_store e) \<and>
      (\<forall>q. live (ie_store e) q \<longrightarrow> view (ie_store e') q = (if q = p then Some d else view (ie_store e) q)) \<and>
      (\<forall>q. fresh (ie_store e) q \<longrightarrow> q \<noteq> p \<longrightarrow> fresh (ie_store e') q)"
    using a(1) by (intro exI [of _ "e\<lparr>ie_store := s'\<rparr>"]) (simp add: lift_ops_def szoom_def)
next
  fix n and e :: "'s index_env"
  assume a: "inv (Suc n) (ie_store e) \<and> ie_mgr e = m"
  then obtain q s' where "po_alloc ops (ie_store e) = (Inr q, s')" "\<not> live (ie_store e) q" "q < 2 ^ 32" "inv n s'"
    "live s' = (live (ie_store e))(q := True)" "\<forall>r. live (ie_store e) r \<longrightarrow> view s' r = view (ie_store e) r" "fresh s' q"
    using alloc_law by blast
  then show "\<exists>q e'. po_alloc (lift_ops ops) e = (Inr q, e') \<and> \<not> live (ie_store e) q \<and> q < 2 ^ 32 \<and>
      (inv n (ie_store e') \<and> ie_mgr e' = m) \<and> live (ie_store e') = (live (ie_store e))(q := True) \<and>
      (\<forall>r. live (ie_store e) r \<longrightarrow> view (ie_store e') r = view (ie_store e) r) \<and> fresh (ie_store e') q"
    using a by (intro exI [of _ q] exI [of _ "e\<lparr>ie_store := s'\<rparr>"]) (simp add: lift_ops_def szoom_def)
next
  fix n and e :: "'s index_env" and q d
  assume a: "inv n (ie_store e) \<and> ie_mgr e = m" "live (ie_store e) q" "fresh (ie_store e) q" "parses d"
  then obtain s' where "po_write ops q d (ie_store e) = (Inr (), s')" "inv n s'" "live s' = live (ie_store e)"
    "\<forall>r. live (ie_store e) r \<longrightarrow> view s' r = (if r = q then Some d else view (ie_store e) r)" using write_law by blast
  then show "\<exists>e'. po_write (lift_ops ops) q d e = (Inr (), e') \<and> (inv n (ie_store e') \<and> ie_mgr e' = m) \<and>
      live (ie_store e') = live (ie_store e) \<and>
      (\<forall>r. live (ie_store e) r \<longrightarrow> view (ie_store e') r = (if r = q then Some d else view (ie_store e) r))"
    using a(1) by (intro exI [of _ "e\<lparr>ie_store := s'\<rparr>"]) (simp add: lift_ops_def szoom_def)
qed (use inv_mono in blast)

section \<open>Constraints\<close>

type_synonym rows = "(RowId \<times> pval list) list"

text \<open>A row other than \<open>exclude\<close> has the value already.\<close>

definition clashes :: "nat \<Rightarrow> pval \<Rightarrow> RowId option \<Rightarrow> rows \<Rightarrow> bool" where
  "clashes i v exclude rows \<longleftrightarrow> (\<exists>(rid, vs) \<in> set rows. Some rid \<noteq> exclude \<and> py_eq (vs ! i) v)"

fun check_spec :: "nat \<Rightarrow> (pval \<times> ColumnDef) list \<Rightarrow> RowId option \<Rightarrow> rows \<Rightarrow> unit res" where
  "check_spec i [] exclude rows = Inr ()"
| "check_spec i ((v, c) # vcs) exclude rows =
     (if \<not> nullable c \<and> v = PNone \<or> (primary_key c \<or> is_unique c) \<and> clashes i v exclude rows then Inl ConstraintError
      else check_spec (Suc i) vcs exclude rows)"

lemma check_spec_error: "check_spec i vcs exclude rows = Inl e \<Longrightarrow> e = ConstraintError"
  by (induction i vcs exclude rows rule: check_spec.induct) (auto split: if_splits)

lemma check_spec_refuses:
  "i < length vcs \<Longrightarrow> (v, c) = vcs ! i \<Longrightarrow>
   \<not> nullable c \<and> v = PNone \<or> (primary_key c \<or> is_unique c) \<and> clashes (j + i) v exclude rows \<Longrightarrow>
   check_spec j vcs exclude rows = Inl ConstraintError"
proof (induction j vcs exclude rows arbitrary: i rule: check_spec.induct)
  case (2 j v' c' vcs exclude rows)
  then show ?case by (cases i) auto
qed simp

definition check_step :: "nat \<Rightarrow> pval \<Rightarrow> RowId option \<Rightarrow> RowId \<times> pval list \<Rightarrow> unit \<Rightarrow> unit res" where
  "check_step i v exclude = (\<lambda>(rid, vs) _. if Some rid = exclude then Inr ()
     else rbind (nth_value vs i) (\<lambda>w. if py_eq w v then Inl ConstraintError else Inr ()))"

lemma check_row_eq: "check_row i v exclude = (\<lambda>rid vs acc. slift (check_step i v exclude (rid, vs) acc))"
  by (auto simp: check_row_def check_step_def fun_eq_iff sbind_def nth_value_def)

lemma clashes_simps [simp]:
  "clashes i v exclude [] = False"
  "clashes i v exclude ((rid, vs) # rows) = (Some rid \<noteq> exclude \<and> py_eq (vs ! i) v \<or> clashes i v exclude rows)"
  by (simp_all add: clashes_def)

lemma check_step_eq:
  "i < length vs \<Longrightarrow> check_step i v exclude (rid, vs) u =
     (if Some rid \<noteq> exclude \<and> py_eq (vs ! i) v then Inl ConstraintError else Inr ())"
  by (simp add: check_step_def nth_value_def)

lemma check_fold:
  "\<forall>(rid, vs) \<in> set rows. i < length vs \<Longrightarrow>
   rfold (check_step i v exclude) rows () = (if clashes i v exclude rows then Inl ConstraintError else Inr ())"
  by (induction rows) (auto simp: check_step_eq simp del: split_paired_All)

text \<open>The table has no index.\<close>

definition unindexed :: "index_manager \<Rightarrow> string \<Rightarrow> bool" where
  "unindexed m tname \<longleftrightarrow> dict_get (table_indexes m) tname = None"

lemma unindexed_get: "unindexed m tname \<Longrightarrow> get_index m tname c = None"
  by (simp add: unindexed_def get_index_def)

lemma unindexed_hooks:
  assumes "unindexed (ie_mgr e) tname"
  shows "after_insert ops tables tname rid row e = (Inr (), e)" and "after_delete ops tables tname rid row e = (Inr (), e)"
    and "after_update ops tables tname rid row row' e = (Inr (), e)"
  using assms by (simp_all add: after_insert_def after_delete_def after_update_def for_indexed_def indexed_columns_def unindexed_def)

context statement_store
begin

text \<open>A statement that only looks: the pages and the index manager are as they were.\<close>

definition looked :: "nat \<Rightarrow> 's index_env \<Rightarrow> 's index_env \<Rightarrow> bool" where
  "looked n e e' \<longleftrightarrow> inv n (ie_store e') \<and> ie_mgr e' = ie_mgr e \<and> unchanged (ie_store e) (ie_store e')"

lemma looked_trans: "looked n e e1 \<Longrightarrow> looked n e1 e2 \<Longrightarrow> looked n e e2"
  by (auto simp: looked_def intro: unchanged_trans)

definition stored :: "Table \<Rightarrow> nat list \<Rightarrow> 's \<Rightarrow> rows \<Rightarrow> bool" where
  "stored tbl ps s rows \<longleftrightarrow> table_ok (live s) (view s) tbl ps \<and>
     decode_rows (tbl_columns tbl) (contents (view s) ps) = Inr rows"

lemma stored_unchanged: "unchanged s s' \<Longrightarrow> stored tbl ps s rows \<Longrightarrow> stored tbl ps s' rows"
  using unchanged_table unchanged_contents by (auto simp: stored_def)

text \<open>Reading needs less: the rows can be read page by page, also after they were updated in place.\<close>

definition seen :: "Table \<Rightarrow> nat list \<Rightarrow> 's \<Rightarrow> rows \<Rightarrow> bool" where
  "seen tbl ps s rows \<longleftrightarrow> readable (live s) (view s) tbl ps \<and>
     decode_rows (tbl_columns tbl) (contents (view s) ps) = Inr rows"

lemma stored_seen: "stored tbl ps s rows \<Longrightarrow> seen tbl ps s rows"
  by (auto simp: stored_def seen_def)

lemma seen_unchanged: "unchanged s s' \<Longrightarrow> seen tbl ps s rows \<Longrightarrow> seen tbl ps s' rows"
  using unchanged_readable unchanged_rows by (auto simp: seen_def readable_def)

lemma scan_seen: "inv n s \<Longrightarrow> seen tbl ps s rows \<Longrightarrow> fst (scan_all ops tbl None s) = Inr rows"
  using scan_all_readable by (fastforce simp: seen_def)

lemma scan_stored:
  assumes "inv n s" and "stored tbl ps s rows"
  shows "fst (scan_all ops tbl None s) = Inr rows"
  using scan_seen [OF assms(1) stored_seen [OF assms(2)]] .

lemma check_unique_ok:
  assumes "inv n (ie_store e)" and "seen tbl ps (ie_store e) rows" and "unindexed (ie_mgr e) tname"
    and "\<forall>(rid, vs) \<in> set rows. i < length vs"
  shows "\<exists>e'. check_unique ops iops tbl tname i v exclude e =
    (if clashes i v exclude rows then Inl ConstraintError else Inr (), e') \<and> looked n e e'"
proof -
  have "\<exists>e'. table_scan (lift_ops ops) tbl None (\<lambda>rid vs acc. slift (check_step i v exclude (rid, vs) acc))
      (po_count (lift_ops ops) e + 1) () e = (rfold (check_step i v exclude) rows (), e') \<and>
      (inv n (ie_store e') \<and> ie_mgr e' = ie_mgr e) \<and> env.unchanged e e'"
    using assms(1,2) by (intro env.table_scan_fold) (auto simp: seen_def)
  then have "\<exists>e'. table_scan (lift_ops ops) tbl None (check_row i v exclude) (po_count ops (ie_store e) + 1) () e =
      (rfold (check_step i v exclude) rows (), e') \<and> looked n e e'"
    unfolding check_row_eq looked_def unchanged_def env.unchanged_def by (simp add: lift_ops_def)
  then show ?thesis
    using check_fold [OF assms(4)] unindexed_get [OF assms(3)] by (auto simp: check_unique_def bind_eq_None_conv)
qed

lemma check_columns_ok:
  "inv n (ie_store e) \<Longrightarrow> seen tbl ps (ie_store e) rows \<Longrightarrow> unindexed (ie_mgr e) tname \<Longrightarrow>
   \<forall>(rid, vs) \<in> set rows. i + length vcs \<le> length vs \<Longrightarrow>
   \<exists>e'. check_columns ops iops tbl tname exclude i vcs e = (check_spec i vcs exclude rows, e') \<and> looked n e e'"
proof (induction vcs arbitrary: i e)
  case Nil
  then show ?case by (auto simp: looked_def)
next
  case (Cons vc vcs)
  obtain v c where vc: "vc = (v, c)" by (cases vc)
  have "\<forall>(rid, vs) \<in> set rows. i < length vs" using Cons.prems(4) by fastforce
  from check_unique_ok [OF Cons.prems(1-3) this] obtain e1 where
    u: "check_unique ops iops tbl tname i v exclude e = (if clashes i v exclude rows then Inl ConstraintError else Inr (), e1)"
    "looked n e e1" by blast
  let ?u = "primary_key c \<or> is_unique c"
  define e2 where "e2 = (if ?u then e1 else e)"
  have e2: "looked n e e2" using u(2) Cons.prems(1) by (simp add: e2_def looked_def)
  then have "inv n (ie_store e2)" "seen tbl ps (ie_store e2) rows" "unindexed (ie_mgr e2) tname"
    using Cons.prems(2,3) seen_unchanged by (auto simp: looked_def)
  from Cons.IH [OF this, of "Suc i"] Cons.prems(4) obtain e3 where
    e3: "check_columns ops iops tbl tname exclude (Suc i) vcs e2 = (check_spec (Suc i) vcs exclude rows, e3)" "looked n e2 e3"
    by auto
  show ?case
  proof (cases "\<not> nullable c \<and> v = PNone")
    case True
    then show ?thesis using vc Cons.prems(1) by (auto simp: looked_def)
  next
    case False
    then show ?thesis using vc u e3 looked_trans [OF e2 e3(2)] by (auto simp: sbind_def e2_def)
  qed
qed

end

section \<open>INSERT on a bag of rows\<close>

fun refused :: "nat \<Rightarrow> (pval \<times> ColumnDef) list \<Rightarrow> pval list list \<Rightarrow> bool" where
  "refused i [] vss = False"
| "refused i ((v, c) # vcs) vss =
     (\<not> nullable c \<and> v = PNone \<or> (primary_key c \<or> is_unique c) \<and> (\<exists>vs \<in> set vss. py_eq (vs ! i) v) \<or>
      refused (Suc i) vcs vss)"

lemma clashes_None: "clashes i v None rows \<longleftrightarrow> (\<exists>vs \<in> set (map snd rows). py_eq (vs ! i) v)"
  by (force simp: clashes_def)

lemma check_spec_None:
  "check_spec i vcs None rows = (if refused i vcs (map snd rows) then Inl ConstraintError else Inr ())"
  by (induction i vcs "None :: RowId option" rows rule: check_spec.induct) (simp_all add: clashes_None)

lemma refused_cong: "set vss = set vss' \<Longrightarrow> refused i vcs vss = refused i vcs vss'"
  by (induction i vcs vss rule: refused.induct) simp_all

text \<open>One row: refused by a constraint or by a type, or converted.\<close>

definition insert_spec :: "ColumnDef list \<Rightarrow> pval list \<Rightarrow> pval list list \<Rightarrow> pval list res" where
  "insert_spec cols row vss =
     (if refused 0 (zip row cols) vss then Inl ConstraintError
      else rbind (convert_row row cols) (\<lambda>vs. rbind (serialize_row vs cols) (\<lambda>_. Inr vs)))"

text \<open>All rows of a statement, until the first that is refused; those before it stay.\<close>

fun insert_all :: "Table \<Rightarrow> string list option \<Rightarrow> expr list list \<Rightarrow> pval list list \<Rightarrow> unit res \<times> pval list list" where
  "insert_all tbl names [] vss = (Inr (), vss)"
| "insert_all tbl names (es # rest) vss =
     (case rbind (rmap (\<lambda>x. evaluate x []) es) (\<lambda>values. insert_spec (tbl_columns tbl) (ordered_row tbl names values) vss) of
        Inl err \<Rightarrow> (Inl err, vss)
      | Inr vs \<Rightarrow> insert_all tbl names rest (vss @ [vs]))"

text \<open>A row that gets as far as being stored has a value for every column and fits a page.\<close>

definition row_fits :: "ColumnDef list \<Rightarrow> pval list \<Rightarrow> bool" where
  "row_fits cols row \<longleftrightarrow> (\<forall>vs d. convert_row row cols = Inr vs \<longrightarrow> serialize_row vs cols = Inr d \<longrightarrow>
     length vs = length cols \<and> length d + 4 \<le> 4064)"

definition rows_fit :: "Table \<Rightarrow> string list option \<Rightarrow> expr list list \<Rightarrow> bool" where
  "rows_fit tbl names ess \<longleftrightarrow> length (tbl_columns tbl) < 65536 \<and>
     (\<forall>es \<in> set ess. \<forall>values. rmap (\<lambda>x. evaluate x []) es = Inr values \<longrightarrow>
        row_fits (tbl_columns tbl) (ordered_row tbl names values))"

lemma table_insert_refused:
  "rbind (convert_row row (tbl_columns tbl)) (\<lambda>vs. rbind (serialize_row vs (tbl_columns tbl)) (\<lambda>_. Inr vs)) = Inl err \<Longrightarrow>
   table_insert ops tbl row None s = (Inl err, s)"
  by (auto simp: table_insert_def rbind_Inl_iff sbind_def)

context statement_store
begin

text \<open>The pages outside of the table, before on \<open>ps\<close> and then on \<open>ps'\<close>, are as they were.\<close>

definition kept :: "nat list \<Rightarrow> 's \<Rightarrow> nat list \<Rightarrow> 's \<Rightarrow> bool" where
  "kept ps s ps' s' \<longleftrightarrow> (\<forall>p. live s p \<longrightarrow> p \<notin> set ps \<longrightarrow> live s' p \<and> p \<notin> set ps' \<and> view s' p = view s p)"

lemma kept_trans: "kept ps s ps1 s1 \<Longrightarrow> kept ps1 s1 ps2 s2 \<Longrightarrow> kept ps s ps2 s2"
  by (simp add: kept_def)

lemma kept_unchanged: "unchanged s s1 \<Longrightarrow> kept ps s1 ps' s' \<Longrightarrow> kept ps s ps' s'"
  by (simp add: kept_def unchanged_def)

lemma unchanged_kept: "unchanged s s' \<Longrightarrow> kept ps s ps s'"
  by (simp add: kept_def unchanged_def)

definition full_rows :: "Table \<Rightarrow> rows \<Rightarrow> bool" where
  "full_rows tbl rows \<longleftrightarrow> (\<forall>(rid, vs) \<in> set rows. length vs = length (tbl_columns tbl))"

lemma insert_one_ok:
  assumes inv: "inv (3 + n) (ie_store e)" and st: "stored tbl ps (ie_store e) rows" and ix: "unindexed (ie_mgr e) tname"
    and full: "full_rows tbl rows" and fits: "row_fits (tbl_columns tbl) row" and few: "length (tbl_columns tbl) < 65536"
  shows "\<exists>e'. case insert_spec (tbl_columns tbl) row (map snd rows) of
      Inl err \<Rightarrow> insert_one ops iops tables tbl tname row e = (Inl err, e') \<and> looked (3 + n) e e'
    | Inr vs \<Rightarrow> \<exists>rid ps' xs ys. insert_one ops iops tables tbl tname row e = (Inr (), e') \<and> inv n (ie_store e') \<and>
        ie_mgr e' = ie_mgr e \<and> rows = xs @ ys \<and> stored tbl ps' (ie_store e') (xs @ (rid, vs) # ys) \<and>
        full_rows tbl (xs @ (rid, vs) # ys) \<and> kept ps (ie_store e) ps' (ie_store e')"
proof -
  let ?cols = "tbl_columns tbl" and ?spec = "insert_spec (tbl_columns tbl) row (map snd rows)"
  have "\<forall>(rid, vs) \<in> set rows. 0 + length (zip row ?cols) \<le> length vs" using full by (auto simp: full_rows_def)
  from check_columns_ok [OF inv stored_seen [OF st] ix this, of iops None] obtain e1 where
    c: "check_constraints ops iops tbl row tname e =
      (if refused 0 (zip row ?cols) (map snd rows) then Inl ConstraintError else Inr (), e1)" "looked (3 + n) e e1"
    by (auto simp: check_constraints_def check_spec_None)
  have l: "inv (3 + n) (ie_store e1)" "ie_mgr e1 = ie_mgr e" "unchanged (ie_store e) (ie_store e1)"
    using c(2) by (auto simp: looked_def)
  show ?thesis
  proof (cases "refused 0 (zip row ?cols) (map snd rows)")
    case True
    then show ?thesis using c by (auto simp: insert_spec_def insert_one_def sbind_def)
  next
    case False
    then have spec: "?spec = rbind (convert_row row ?cols) (\<lambda>vs. rbind (serialize_row vs ?cols) (\<lambda>_. Inr vs))"
      by (simp add: insert_spec_def)
    have one: "insert_one ops iops tables tbl tname row e =
        sbind (on_ie_store (table_insert ops tbl row None)) (\<lambda>rid.
          case iops of None \<Rightarrow> sret () | Some io \<Rightarrow> after_insert io tables tname rid row) e1"
      using False c(1) by (simp add: insert_one_def sbind_def)
    show ?thesis
    proof (cases ?spec)
      case (Inl err)
      have "table_insert ops tbl row None (ie_store e1) = (Inl err, ie_store e1)"
        by (rule table_insert_refused [OF trans [OF spec [symmetric] Inl]])
      then have "insert_one ops iops tables tbl tname row e = (Inl err, e1)"
        using one by (simp add: sbind_def szoom_def)
      then show ?thesis using Inl c(2) by auto
    next
      case (Inr vs)
      then obtain d where d: "convert_row row ?cols = Inr vs" "serialize_row vs ?cols = Inr d" using spec by auto
      then have sv: "storable_row vs ?cols" "length d + 4 \<le> 4064" using fits serialized_storable by (auto simp: row_fits_def)
      obtain d' where d': "serialize_row vs ?cols = Inr d'" "deserialize_row d' ?cols = Inr vs" "d' \<noteq> []"
        using storable_row_serialized [OF sv(1) few] by blast
      have fit: "length d' + 4 \<le> 4064" using d(2) d'(1) sv(2) by simp
      have st1: "table_ok (live (ie_store e1)) (view (ie_store e1)) tbl ps"
        "decode_rows ?cols (contents (view (ie_store e1)) ps) = Inr rows"
        using stored_unchanged [OF l(3) st] by (auto simp: stored_def)
      have "inv (Suc (Suc (Suc n))) (ie_store e1)" using l(1) by (simp add: numeral_3_eq_3)
      from insert_scan [OF this st1(1) d(1) d' fit st1(2)] obtain rid s2 ps' xs ys where
        i: "table_insert ops tbl row None (ie_store e1) = (Inr rid, s2)" "inv n s2" "table_ok (live s2) (view s2) tbl ps'"
          "rows = xs @ ys" "decode_rows ?cols (contents (view s2) ps') = Inr (xs @ (rid, vs) # ys)"
          "\<forall>p. live (ie_store e1) p \<longrightarrow> p \<notin> set ps \<longrightarrow> live s2 p \<and> p \<notin> set ps' \<and> view s2 p = view (ie_store e1) p"
        by (elim exE conjE)
      let ?e2 = "e1\<lparr>ie_store := s2\<rparr>"
      have "unindexed (ie_mgr ?e2) tname" using ix l(2) by simp
      note h = unindexed_hooks(1) [OF this]
      have "insert_one ops iops tables tbl tname row e = (Inr (), ?e2)"
        using one i(1) h by (simp add: sbind_def szoom_def split: option.splits)
      moreover have "length vs = length ?cols" using sv(1) by (simp add: storable_row_def list_all2_lengthD)
      then have "full_rows tbl (xs @ (rid, vs) # ys)" using full i(4) by (auto simp: full_rows_def)
      moreover have "kept ps (ie_store e1) ps' s2" using i(6) by (simp add: kept_def)
      then have "kept ps (ie_store e) ps' s2" using kept_unchanged l(3) by blast
      ultimately have "insert_one ops iops tables tbl tname row e = (Inr (), ?e2) \<and> inv n (ie_store ?e2) \<and>
        ie_mgr ?e2 = ie_mgr e \<and> rows = xs @ ys \<and> stored tbl ps' (ie_store ?e2) (xs @ (rid, vs) # ys) \<and>
        full_rows tbl (xs @ (rid, vs) # ys) \<and> kept ps (ie_store e) ps' (ie_store ?e2)"
        using i l(2) by (simp add: stored_def)
      then show ?thesis using Inr by (simp only: sum.case) blast
    qed
  qed
qed

lemma insert_rows_ok:
  "inv (3 * length ess + n) (ie_store e) \<Longrightarrow> stored tbl ps (ie_store e) rows \<Longrightarrow> unindexed (ie_mgr e) (ins_table stmt) \<Longrightarrow>
   full_rows tbl rows \<Longrightarrow> rows_fit tbl (ins_columns stmt) ess \<Longrightarrow> mset (map snd rows) = mset vss \<Longrightarrow>
   \<exists>e' ps' rows'. insert_rows ops iops tables tbl stmt ess e = (fst (insert_all tbl (ins_columns stmt) ess vss), e') \<and>
     inv n (ie_store e') \<and> ie_mgr e' = ie_mgr e \<and> stored tbl ps' (ie_store e') rows' \<and>
     mset (map snd rows') = mset (snd (insert_all tbl (ins_columns stmt) ess vss)) \<and> kept ps (ie_store e) ps' (ie_store e')"
proof (induction ess arbitrary: e ps rows vss)
  case Nil
  then show ?case by (intro exI [of _ e] exI [of _ ps] exI [of _ rows]) (simp add: kept_def)
next
  case (Cons es ess)
  let ?cols = "tbl_columns tbl" and ?names = "ins_columns stmt"
  have i0: "inv (3 + (3 * length ess + n)) (ie_store e)" using Cons.prems(1) by (simp add: algebra_simps)
  have low: "inv n s" if "inv (3 + (3 * length ess + n)) s" for s using inv_weaken [OF _ that] by simp
  show ?case
  proof (cases "rmap (\<lambda>x. evaluate x []) es")
    case (Inl err)
    then show ?thesis using Cons.prems(2,6) low [OF i0]
      by (intro exI [of _ e] exI [of _ ps] exI [of _ rows]) (simp add: kept_def)
  next
    case (Inr vals)
    let ?row = "ordered_row tbl ?names vals"
    have fits: "row_fits ?cols ?row" and few: "length ?cols < 65536" and fits2: "rows_fit tbl ?names ess"
      using Cons.prems(5) Inr by (auto simp: rows_fit_def)
    have "set (map snd rows) = set vss" using Cons.prems(6) mset_eq_setD by blast
    then have cong: "insert_spec ?cols ?row (map snd rows) = insert_spec ?cols ?row vss"
      using refused_cong unfolding insert_spec_def by metis
    have step: "insert_rows ops iops tables tbl stmt (es # ess) e =
        sbind (insert_one ops iops tables tbl (ins_table stmt) ?row) (\<lambda>_. insert_rows ops iops tables tbl stmt ess) e"
      using Inr by simp
    from insert_one_ok [OF i0 Cons.prems(2-4) fits few, of iops tables] obtain e1 where
      e1: "case insert_spec ?cols ?row vss of
        Inl err \<Rightarrow> insert_one ops iops tables tbl (ins_table stmt) ?row e = (Inl err, e1) \<and> looked (3 + (3 * length ess + n)) e e1
      | Inr vs \<Rightarrow> \<exists>rid ps' xs ys. insert_one ops iops tables tbl (ins_table stmt) ?row e = (Inr (), e1) \<and>
          inv (3 * length ess + n) (ie_store e1) \<and>
          ie_mgr e1 = ie_mgr e \<and> rows = xs @ ys \<and> stored tbl ps' (ie_store e1) (xs @ (rid, vs) # ys) \<and>
          full_rows tbl (xs @ (rid, vs) # ys) \<and> kept ps (ie_store e) ps' (ie_store e1)"
      unfolding cong by blast
    show ?thesis
    proof (cases "insert_spec ?cols ?row vss")
      case spec: (Inl err)
      with e1 have o: "insert_one ops iops tables tbl (ins_table stmt) ?row e = (Inl err, e1)"
        and l: "looked (3 + (3 * length ess + n)) e e1" by simp_all
      then have "inv n (ie_store e1)" "ie_mgr e1 = ie_mgr e" "unchanged (ie_store e) (ie_store e1)"
        using low by (auto simp: looked_def)
      moreover from this(3) have "stored tbl ps (ie_store e1) rows" "kept ps (ie_store e) ps (ie_store e1)"
        using stored_unchanged Cons.prems(2) unchanged_kept by blast+
      moreover have "insert_rows ops iops tables tbl stmt (es # ess) e = (Inl err, e1)" using step o by (simp add: sbind_def)
      ultimately show ?thesis using Inr spec Cons.prems(6)
        by (intro exI [of _ e1] exI [of _ ps] exI [of _ rows]) simp
    next
      case spec: (Inr vs)
      from e1 [unfolded spec sum.case] obtain rid ps1 xs ys where
        o: "insert_one ops iops tables tbl (ins_table stmt) ?row e = (Inr (), e1)" "inv (3 * length ess + n) (ie_store e1)"
          "ie_mgr e1 = ie_mgr e" "rows = xs @ ys" "stored tbl ps1 (ie_store e1) (xs @ (rid, vs) # ys)"
          "full_rows tbl (xs @ (rid, vs) # ys)" "kept ps (ie_store e) ps1 (ie_store e1)"
        by (elim exE conjE)
      have m: "mset (map snd (xs @ (rid, vs) # ys)) = mset (vss @ [vs])" using o(4) Cons.prems(6) [symmetric] by simp
      have ix: "unindexed (ie_mgr e1) (ins_table stmt)" using Cons.prems(3) o(3) by simp
      from Cons.IH [OF o(2,5) ix o(6) fits2 m] obtain e2 ps2 rows2 where
        r: "insert_rows ops iops tables tbl stmt ess e1 = (fst (insert_all tbl ?names ess (vss @ [vs])), e2)"
          "inv n (ie_store e2)" "ie_mgr e2 = ie_mgr e1" "stored tbl ps2 (ie_store e2) rows2"
          "mset (map snd rows2) = mset (snd (insert_all tbl ?names ess (vss @ [vs])))" "kept ps1 (ie_store e1) ps2 (ie_store e2)"
        by (elim exE conjE)
      have "insert_rows ops iops tables tbl stmt (es # ess) e = (fst (insert_all tbl ?names ess (vss @ [vs])), e2)"
        using step o(1) r(1) by (simp add: sbind_def)
      moreover have "insert_all tbl ?names (es # ess) vss = insert_all tbl ?names ess (vss @ [vs])"
        using Inr spec by simp
      moreover have "kept ps (ie_store e) ps2 (ie_store e2)" using kept_trans [OF o(7) r(6)] .
      ultimately show ?thesis using r(2-5) o(3) by (intro exI [of _ e2] exI [of _ ps2] exI [of _ rows2]) simp
    qed
  qed
qed

lemma execute_insert_ok:
  assumes "inv (3 * length (ins_values stmt) + n) (ie_store e)" and "get_table tables (ins_table stmt) = Inr tbl"
    and "stored tbl ps (ie_store e) rows" and "unindexed (ie_mgr e) (ins_table stmt)"
    and "full_rows tbl rows" and "rows_fit tbl (ins_columns stmt) (ins_values stmt)"
  shows "\<exists>e' ps' rows'. execute_insert ops iops tables stmt e =
      (rbind (fst (insert_all tbl (ins_columns stmt) (ins_values stmt) (map snd rows)))
         (\<lambda>_. Inr (affected (length (ins_values stmt)))), e') \<and>
    inv n (ie_store e') \<and> ie_mgr e' = ie_mgr e \<and> stored tbl ps' (ie_store e') rows' \<and>
    mset (map snd rows') = mset (snd (insert_all tbl (ins_columns stmt) (ins_values stmt) (map snd rows))) \<and>
    kept ps (ie_store e) ps' (ie_store e')"
proof -
  from insert_rows_ok [OF assms(1,3-6) refl, of iops tables] obtain e' ps' rows' where
    r: "insert_rows ops iops tables tbl stmt (ins_values stmt) e =
      (fst (insert_all tbl (ins_columns stmt) (ins_values stmt) (map snd rows)), e')" "inv n (ie_store e')"
      "ie_mgr e' = ie_mgr e" "stored tbl ps' (ie_store e') rows'"
      "mset (map snd rows') = mset (snd (insert_all tbl (ins_columns stmt) (ins_values stmt) (map snd rows)))"
      "kept ps (ie_store e) ps' (ie_store e')" by (elim exE conjE)
  have "execute_insert ops iops tables stmt e =
      (rbind (fst (insert_all tbl (ins_columns stmt) (ins_values stmt) (map snd rows)))
         (\<lambda>_. Inr (affected (length (ins_values stmt)))), e')"
    using assms(2) r(1) by (simp add: execute_insert_def sbind_def split: sum.splits)
  then show ?thesis using r(2-6) by (intro exI [of _ e'] exI [of _ ps'] exI [of _ rows']) simp
qed

end

section \<open>DELETE as a filter\<close>

definition selected :: "Table \<Rightarrow> expr option \<Rightarrow> rows \<Rightarrow> rows res" where
  "selected tbl cond rows = rfilter (\<lambda>x. selects cond (row_dict (names_of tbl) (snd x))) rows"

definition select_step :: "Table \<Rightarrow> expr option \<Rightarrow> RowId \<times> pval list \<Rightarrow> rows \<Rightarrow> rows res" where
  "select_step tbl cond x acc = rbind (selects cond (row_dict (names_of tbl) (snd x))) (\<lambda>sel. Inr (if sel then acc @ [x] else acc))"

lemma collect_selected_eq:
  "collect_selected tbl cond = (\<lambda>rid vs acc. slift (select_step tbl cond (rid, vs) acc))"
  by (auto simp: collect_selected_def select_step_def fun_eq_iff sbind_def rbind_def split: sum.splits)

lemma rfold_select:
  "rfold (select_step tbl cond) rows acc = rbind (selected tbl cond rows) (\<lambda>sel. Inr (acc @ sel))"
proof (induction rows arbitrary: acc)
  case (Cons x rows)
  then show ?case
    by (cases "selects cond (row_dict (names_of tbl) (snd x))"; cases "selected tbl cond rows")
      (auto simp: select_step_def selected_def)
qed (simp add: selected_def)

lemma distinct_contents: "distinct ps \<Longrightarrow> distinct (map fst (contents V ps))"
proof (induction ps)
  case (Cons p ps)
  have "inj_on (\<lambda>i. \<lparr>rid_page_id = p, rid_slot_index = i\<rparr>) A" for A by (auto simp: inj_on_def)
  then have "distinct (map fst (live_slots p rs))" for rs
    unfolding live_slots_def List.map_filter_def by (auto simp: distinct_map inj_on_def comp_def)
  moreover have "r \<notin> fst ` set (contents V ps)" if "r \<in> fst ` set (live_slots p rs)" for r rs
  proof -
    have "rid_page_id r = p" using that live_slots_page by force
    moreover have "rid_page_id r \<in> set ps" if "r \<in> fst ` set (contents V ps)" using that contents_page by force
    ultimately show ?thesis using Cons.prems by auto
  qed
  then have "fst ` set (live_slots p rs) \<inter> fst ` set (contents V ps) = {}" for rs by blast
  ultimately show ?case using Cons.IH Cons.prems by simp
qed simp

context statement_store
begin

lemma stored_row:
  assumes "stored tbl ps s rows" and "rid \<in> fst ` set rows"
  shows "rid_page_id rid \<in> set ps" and "rid_slot_index rid < length (rows_at (view s) (rid_page_id rid))"
proof -
  have "decode_rows (tbl_columns tbl) (contents (view s) ps) = Inr rows" using assms(1) by (simp add: stored_def)
  from arg_cong [OF decode_rows_keys [OF this], of set] have "fst ` set rows = fst ` set (contents (view s) ps)" by simp
  then obtain d where d: "(rid, d) \<in> set (contents (view s) ps)" using assms(2) by force
  then show p: "rid_page_id rid \<in> set ps" by (rule contents_page)
  obtain p where "p \<in> set ps" "(rid, d) \<in> set (live_slots p (rows_at (view s) p))"
    using d by (auto simp: contents_def)
  then show "rid_slot_index rid < length (rows_at (view s) (rid_page_id rid))"
    using live_slots_index live_slots_page by metis
qed

lemma distinct_stored: "stored tbl ps s rows \<Longrightarrow> distinct (map fst rows)"
  unfolding stored_def table_ok_def by (metis distinct_contents decode_rows_keys)

lemma delete_rows_ok:
  "inv (length dels + n) (ie_store e) \<Longrightarrow> stored tbl ps (ie_store e) rows \<Longrightarrow> unindexed (ie_mgr e) tname \<Longrightarrow>
   distinct (map fst dels) \<Longrightarrow> fst ` set dels \<subseteq> fst ` set rows \<Longrightarrow>
   \<exists>e'. delete_rows ops iops tables tbl tname dels e = (Inr (), e') \<and> inv n (ie_store e') \<and> ie_mgr e' = ie_mgr e \<and>
     stored tbl ps (ie_store e') (filter (\<lambda>x. fst x \<notin> fst ` set dels) rows) \<and> kept ps (ie_store e) ps (ie_store e')"
proof (induction dels arbitrary: e rows)
  case Nil
  then show ?case by (auto simp: kept_def)
next
  case (Cons x dels)
  obtain rid vs where x: "x = (rid, vs)" by (cases x)
  let ?rows = "filter (\<lambda>(r, _). r \<noteq> rid) rows"
  have i: "inv (Suc (length dels + n)) (ie_store e)" using Cons.prems(1) by simp
  have st: "table_ok (live (ie_store e)) (view (ie_store e)) tbl ps"
    "decode_rows (tbl_columns tbl) (contents (view (ie_store e)) ps) = Inr rows" using Cons.prems(2) by (auto simp: stored_def)
  have r: "rid \<in> fst ` set rows" using Cons.prems(5) x by simp
  from table_delete_ok [OF i st(1) stored_row [OF Cons.prems(2) r]] obtain s1 where
    d: "table_delete ops tbl rid None (ie_store e) = (Inr (), s1)" "inv (length dels + n) s1"
      "table_ok (live s1) (view s1) tbl ps" "contents (view s1) ps = filter (\<lambda>(r, _). r \<noteq> rid) (contents (view (ie_store e)) ps)"
      "live s1 = live (ie_store e)" "\<forall>q. live (ie_store e) q \<longrightarrow> q \<noteq> rid_page_id rid \<longrightarrow> view s1 q = view (ie_store e) q"
    by blast
  let ?e1 = "e\<lparr>ie_store := s1\<rparr>"
  have st1: "stored tbl ps (ie_store ?e1) ?rows" using d(3,4) decode_rows_filter [OF st(2)] by (simp add: stored_def)
  have "fst ` set dels \<subseteq> fst ` set ?rows" using Cons.prems(4,5) x by force
  from Cons.IH [OF _ st1 _ _ this] Cons.prems(3,4) d(2) obtain e2 where
    e2: "delete_rows ops iops tables tbl tname dels ?e1 = (Inr (), e2)" "inv n (ie_store e2)" "ie_mgr e2 = ie_mgr e"
      "stored tbl ps (ie_store e2) (filter (\<lambda>x. fst x \<notin> fst ` set dels) ?rows)" "kept ps s1 ps (ie_store e2)" by auto
  have "delete_rows ops iops tables tbl tname (x # dels) e = (Inr (), e2)"
    using x d(1) e2(1) unindexed_hooks(2) [OF Cons.prems(3)] by (cases iops) (simp_all add: sbind_def szoom_def)
  moreover have "filter (\<lambda>x. fst x \<notin> fst ` set dels) ?rows = filter (\<lambda>y. fst y \<notin> fst ` set (x # dels)) rows"
    using x by (auto simp: filter_filter intro!: filter_cong)
  moreover have "kept ps (ie_store e) ps s1"
    using d(5,6) stored_row(1) [OF Cons.prems(2) r] by (auto simp: kept_def)
  then have "kept ps (ie_store e) ps (ie_store e2)" using kept_trans e2(5) by blast
  ultimately show ?case using e2 by (intro exI [of _ e2]) simp
qed

lemma execute_delete_ok:
  assumes inv: "inv (length rows + n) (ie_store e)" and "get_table tables (del_table stmt) = Inr tbl"
    and st: "stored tbl ps (ie_store e) rows" and ix: "unindexed (ie_mgr e) (del_table stmt)"
  shows "\<exists>e'. inv n (ie_store e') \<and> ie_mgr e' = ie_mgr e \<and> kept ps (ie_store e) ps (ie_store e') \<and>
    (case selected tbl (del_where stmt) rows of
       Inl err \<Rightarrow> execute_delete ops iops tables stmt e = (Inl err, e') \<and> stored tbl ps (ie_store e') rows
     | Inr sel \<Rightarrow> execute_delete ops iops tables stmt e = (Inr (affected (length sel)), e') \<and>
         stored tbl ps (ie_store e') (filter (\<lambda>x. x \<notin> set sel) rows))"
proof -
  let ?sel = "selected tbl (del_where stmt) rows"
  have "table_ok (live (ie_store e)) (view (ie_store e)) tbl ps"
    "decode_rows (tbl_columns tbl) (contents (view (ie_store e)) ps) = Inr rows" using st by (auto simp: stored_def)
  from table_scan_fold [OF inv table_ok_readable [OF this(1)] this(2), of "select_step tbl (del_where stmt)" "[]"] obtain s1 where
    s1: "table_scan ops tbl None (collect_selected tbl (del_where stmt)) (po_count ops (ie_store e) + 1) [] (ie_store e) = (?sel, s1)"
      "inv (length rows + n) s1" "unchanged (ie_store e) s1"
    unfolding collect_selected_eq [symmetric] rfold_select by (auto split: sum.splits simp: rbind_def)
  let ?e1 = "e\<lparr>ie_store := s1\<rparr>"
  have st1: "stored tbl ps (ie_store ?e1) rows" and k1: "kept ps (ie_store e) ps s1"
    using stored_unchanged [OF s1(3) st] unchanged_kept [OF s1(3)] by simp_all
  have step: "execute_delete ops iops tables stmt e = sbind (slift ?sel) (\<lambda>to_delete.
      sbind (delete_rows ops iops tables tbl (del_table stmt) to_delete) (\<lambda>_. sret (affected (length to_delete)))) ?e1"
    using assms(2) s1(1) by (simp add: execute_delete_def sbind_def szoom_def)
  show ?thesis
  proof (cases ?sel)
    case (Inl err)
    then show ?thesis using step st1 k1 inv_weaken [OF _ s1(2)] by (intro exI [of _ ?e1]) simp
  next
    case (Inr sel)
    from rfilter_eq [OF Inr [unfolded selected_def]] obtain P where sel: "sel = filter P rows" by blast
    then have sub: "distinct (map fst sel)" "fst ` set sel \<subseteq> fst ` set rows" "length sel \<le> length rows"
      using distinct_stored [OF st] by (auto simp: distinct_map inj_on_def)
    have "inv (length sel + n) (ie_store ?e1)" using inv_weaken [OF _ s1(2)] sub(3) by simp
    from delete_rows_ok [OF this st1 _ sub(1,2), of "del_table stmt" iops tables] ix obtain e2 where
      e2: "delete_rows ops iops tables tbl (del_table stmt) sel ?e1 = (Inr (), e2)" "inv n (ie_store e2)" "ie_mgr e2 = ie_mgr e"
        "stored tbl ps (ie_store e2) (filter (\<lambda>x. fst x \<notin> fst ` set sel) rows)" "kept ps s1 ps (ie_store e2)" by auto
    have "inj_on fst (set rows)" using distinct_stored [OF st] by (simp add: distinct_map)
    then have "filter (\<lambda>x. fst x \<notin> fst ` set sel) rows = filter (\<lambda>x. x \<notin> set sel) rows"
      using sel by (intro filter_cong refl) (auto simp: inj_on_def)
    then show ?thesis using step e2 Inr kept_trans [OF k1 e2(5)] by (intro exI [of _ e2]) (simp add: sbind_def)
  qed
qed

end

end
