(* ===== verification/Dml_Invariants.thy ===== *)
theory Dml_Invariants
  imports Dml_Facts
begin

text \<open>
  What INSERT and DELETE statements promise about a table: an INSERT adds its rows or is refused without a
  trace, a DELETE removes the rows that its condition selects, and every sequence of such statements
  keeps the columns typed, the NOT NULL columns filled and the unique columns without duplicates.
\<close>

section \<open>Valid tables\<close>

text \<open>
  A FLOAT column is left out: the check compares the value before its conversion, and two different
  integers can become the same float.
\<close>

definition checked :: "ColumnDef \<Rightarrow> bool" where
  "checked c \<longleftrightarrow> (primary_key c \<or> is_unique c) \<and> data_type c \<noteq> FLOAT"

definition differ :: "nat \<Rightarrow> pval list \<Rightarrow> pval list \<Rightarrow> bool" where
  "differ i x y \<longleftrightarrow> \<not> py_eq (x ! i) (y ! i)"

definition table_valid :: "ColumnDef list \<Rightarrow> pval list list \<Rightarrow> bool" where
  "table_valid cols vss \<longleftrightarrow>
     (\<forall>vs \<in> set vss. length vs = length cols \<and> (\<forall>i < length cols. conforms (vs ! i) (cols ! i))) \<and>
     (\<forall>i < length cols. checked (cols ! i) \<longrightarrow> sorted_wrt (differ i) vss)"

lemma sorted_wrt_perm:
  assumes sym: "\<And>x y. R x y \<Longrightarrow> R y x"
  shows "mset xs = mset ys \<Longrightarrow> sorted_wrt R xs \<Longrightarrow> sorted_wrt R ys"
proof (induction xs arbitrary: ys)
  case (Cons x xs)
  from Cons.prems(1) have "x \<in> set ys" by (metis list.set_intros(1) mset_eq_setD)
  then obtain us vs where ys: "ys = us @ x # vs" by (meson split_list)
  then have m: "mset xs = mset (us @ vs)" using Cons.prems(1) by simp
  then have "sorted_wrt R (us @ vs)" using Cons by simp
  moreover have "\<forall>y \<in> set (us @ vs). R x y" using Cons.prems(2) mset_eq_setD [OF m] by simp
  ultimately show ?case using ys sym by (auto simp: sorted_wrt_append)
qed simp

lemma differ_sym: "differ i x y \<Longrightarrow> differ i y x"
  by (simp add: differ_def py_eq_sym)

lemma table_valid_mset:
  assumes "mset vss = mset vss'" and "table_valid cols vss"
  shows "table_valid cols vss'"
  using assms(2) sorted_wrt_perm [OF differ_sym assms(1)] mset_eq_setD [OF assms(1)] by (simp add: table_valid_def)

lemma refused_nth:
  "\<not> refused j vcs vss \<Longrightarrow> k < length vcs \<Longrightarrow> primary_key (snd (vcs ! k)) \<or> is_unique (snd (vcs ! k)) \<Longrightarrow>
   vs \<in> set vss \<Longrightarrow> \<not> py_eq (vs ! (j + k)) (fst (vcs ! k))"
proof (induction j vcs vss arbitrary: k rule: refused.induct)
  case (2 i v c vcs vss)
  then show ?case by (cases k) auto
qed simp

lemma convert_row_nth:
  assumes "convert_row row cols = Inr vs" and "i < length vs"
  shows "convert_value (row ! i) (cols ! i) = Inr (vs ! i)"
  using assms convert_row_conforms(1) [OF assms(1)]
  by (auto simp: convert_row_def rmap_Inr_iff list_all2_conv_all_nth case_prod_beta)

lemma convert_keeps: "convert_value v c = Inr w \<Longrightarrow> data_type c \<noteq> FLOAT \<Longrightarrow> w = v"
  by (auto simp: convert_value_def split: if_splits)

lemma insert_spec_valid:
  assumes v: "table_valid cols vss" and s: "insert_spec cols row vss = Inr vs" and len: "length vs = length cols"
  shows "table_valid cols (vss @ [vs])"
proof -
  have r: "\<not> refused 0 (zip row cols) vss" "convert_row row cols = Inr vs"
    using s by (auto simp: insert_spec_def split: if_splits)
  note conv = convert_row_conforms [OF r(2)]
  have "differ i y vs" if "i < length cols" "checked (cols ! i)" "y \<in> set vss" for i y
  proof -
    have i: "i < length vs" "i < length (zip row cols)" using that(1) len conv(1) by auto
    have "vs ! i = row ! i" using convert_keeps [OF convert_row_nth [OF r(2) i(1)]] that(2) by (simp add: checked_def)
    moreover have "\<not> py_eq (y ! i) (row ! i)" using refused_nth [OF r(1) i(2) _ that(3)] i(2) that(2) by (simp add: checked_def)
    ultimately show ?thesis by (simp add: differ_def)
  qed
  then show ?thesis using v conv(2) len by (auto simp: table_valid_def sorted_wrt_append)
qed

text \<open>Every row that is encoded has a value for every column.\<close>

lemma insert_all_valid:
  "table_valid (tbl_columns tbl) vss \<Longrightarrow> rows_fit tbl names ess \<Longrightarrow> table_valid (tbl_columns tbl) (snd (insert_all tbl names ess vss))"
proof (induction ess arbitrary: vss)
  case (Cons es ess)
  have fits: "rows_fit tbl names ess" using Cons.prems(2) by (simp add: rows_fit_def)
  show ?case
  proof (cases "rbind (rmap (\<lambda>x. evaluate x []) es) (\<lambda>vals. insert_spec (tbl_columns tbl) (ordered_row tbl names vals) vss)")
    case (Inr vs)
    then obtain vals where vals: "rmap (\<lambda>x. evaluate x []) es = Inr vals"
      "insert_spec (tbl_columns tbl) (ordered_row tbl names vals) vss = Inr vs" by auto
    then obtain d where d: "convert_row (ordered_row tbl names vals) (tbl_columns tbl) = Inr vs"
      "serialize_row vs (tbl_columns tbl) = Inr d" by (auto simp: insert_spec_def split: if_splits)
    have "row_fits (tbl_columns tbl) (ordered_row tbl names vals)"
      using Cons.prems(2) vals(1) by (simp add: rows_fit_def)
    then have "length vs = length (tbl_columns tbl)" using d by (auto simp: row_fits_def)
    then have "table_valid (tbl_columns tbl) (vss @ [vs])" using insert_spec_valid [OF Cons.prems(1) vals(2)] by simp
    then show ?thesis using Cons.IH [OF _ fits] vals by simp
  qed (use Cons.prems in simp)
qed simp

lemma table_valid_filter: "table_valid cols vss \<Longrightarrow> table_valid cols (filter P vss)"
  by (auto simp: table_valid_def sorted_wrt_filter)

lemma insert_all_length: "length (snd (insert_all tbl names ess vss)) \<le> length vss + length ess"
proof (induction ess arbitrary: vss)
  case (Cons es ess)
  show ?case using Cons.IH [of "vss @ [v]" for v] by (auto split: sum.split)
qed simp

section \<open>Statements in sequence\<close>

datatype change = Add InsertStatement | Remove DeleteStatement

fun apply_change ::
  "'s pool_ops \<Rightarrow> 's pool_ops option \<Rightarrow> (string, TableMeta) dict \<Rightarrow> change \<Rightarrow> ('s index_env, QueryResult) st" where
  "apply_change ops iops tables (Add stmt) = execute_insert ops iops tables stmt"
| "apply_change ops iops tables (Remove stmt) = execute_delete ops iops tables stmt"

text \<open>A refused statement is followed by the next one.\<close>

fun run_changes ::
  "'s pool_ops \<Rightarrow> 's pool_ops option \<Rightarrow> (string, TableMeta) dict \<Rightarrow> change list \<Rightarrow> 's index_env \<Rightarrow> 's index_env" where
  "run_changes ops iops tables [] e = e"
| "run_changes ops iops tables (c # cs) e = run_changes ops iops tables cs (snd (apply_change ops iops tables c e))"

fun change_table :: "change \<Rightarrow> string" where
  "change_table (Add stmt) = ins_table stmt"
| "change_table (Remove stmt) = del_table stmt"

fun added :: "change list \<Rightarrow> nat" where
  "added [] = 0"
| "added (Add stmt # cs) = length (ins_values stmt) + added cs"
| "added (Remove stmt # cs) = added cs"

fun change_fits :: "Table \<Rightarrow> change \<Rightarrow> bool" where
  "change_fits tbl (Add stmt) = rows_fit tbl (ins_columns stmt) (ins_values stmt)"
| "change_fits tbl (Remove stmt) = True"

lemma added_Cons: "added (c # cs) = (case c of Add stmt \<Rightarrow> length (ins_values stmt) | Remove stmt \<Rightarrow> 0) + added cs"
  by (cases c) auto

context statement_store
begin

lemma full_valid: "table_valid (tbl_columns tbl) (map snd rows) \<Longrightarrow> full_rows tbl rows"
  by (auto simp: full_rows_def table_valid_def)

lemma apply_change_ok:
  assumes inv: "inv (3 * (length rows + added [c]) + n) (ie_store e)" and t: "get_table tables (change_table c) = Inr tbl"
    and st: "stored tbl ps (ie_store e) rows" and ix: "unindexed (ie_mgr e) (change_table c)"
    and v: "table_valid (tbl_columns tbl) (map snd rows)" and fits: "change_fits tbl c"
  shows "\<exists>ps' rows'. inv n (ie_store (snd (apply_change ops iops tables c e))) \<and>
    ie_mgr (snd (apply_change ops iops tables c e)) = ie_mgr e \<and>
    stored tbl ps' (ie_store (snd (apply_change ops iops tables c e))) rows' \<and>
    table_valid (tbl_columns tbl) (map snd rows') \<and> length rows' \<le> length rows + added [c]"
proof (cases c)
  case (Add stmt)
  let ?spec = "snd (insert_all tbl (ins_columns stmt) (ins_values stmt) (map snd rows))"
  have i: "inv (3 * length (ins_values stmt) + n) (ie_store e)" using inv_weaken [OF _ inv] Add by simp
  have s: "get_table tables (ins_table stmt) = Inr tbl" "unindexed (ie_mgr e) (ins_table stmt)"
    "rows_fit tbl (ins_columns stmt) (ins_values stmt)" using t ix fits Add by simp_all
  from execute_insert_ok [OF i s(1) st s(2) full_valid [OF v] s(3), of iops] obtain e' ps' rows' where
    r: "snd (apply_change ops iops tables c e) = e'" "inv n (ie_store e')" "ie_mgr e' = ie_mgr e" "stored tbl ps' (ie_store e') rows'"
      "mset (map snd rows') = mset ?spec" unfolding Add by auto
  have "table_valid (tbl_columns tbl) (map snd rows')"
    using insert_all_valid [OF v s(3)] table_valid_mset r(5) by metis
  moreover have "length rows' = length ?spec" using arg_cong [OF r(5), of size] by simp
  then have "length rows' \<le> length rows + added [c]"
    using insert_all_length [of tbl "ins_columns stmt" "ins_values stmt" "map snd rows"] Add by simp
  ultimately show ?thesis using r by blast
next
  case (Remove stmt)
  have i: "inv (length rows + n) (ie_store e)" using inv_weaken [OF _ inv] by simp
  have s: "get_table tables (del_table stmt) = Inr tbl" "unindexed (ie_mgr e) (del_table stmt)" using t ix Remove by simp_all
  from execute_delete_ok [OF i s(1) st s(2), of iops] obtain e' where
    r: "inv n (ie_store e')" "ie_mgr e' = ie_mgr e" "case selected tbl (del_where stmt) rows of
       Inl err \<Rightarrow> execute_delete ops iops tables stmt e = (Inl err, e') \<and> stored tbl ps (ie_store e') rows
     | Inr sel \<Rightarrow> execute_delete ops iops tables stmt e = (Inr (affected (length sel)), e') \<and>
         stored tbl ps (ie_store e') (filter (\<lambda>x. x \<notin> set sel) rows)" by blast
  have "\<exists>P. snd (apply_change ops iops tables c e) = e' \<and> stored tbl ps (ie_store e') (filter P rows)"
    using r(3) Remove by (cases "selected tbl (del_where stmt) rows") (auto intro: exI [of _ "\<lambda>_. True"])
  then obtain P where P: "snd (apply_change ops iops tables c e) = e'" "stored tbl ps (ie_store e') (filter P rows)" by blast
  have "table_valid (tbl_columns tbl) (map snd (filter P rows))"
  proof -
    have "set (map snd (filter P rows)) \<subseteq> set (map snd rows)" by auto
    moreover have "sorted_wrt (differ i) (map snd (filter P rows))" if "sorted_wrt (differ i) (map snd rows)" for i
      using that by (simp add: sorted_wrt_map sorted_wrt_filter)
    ultimately show ?thesis using v unfolding table_valid_def by blast
  qed
  then show ?thesis using r(1,2) P Remove by (intro exI [of _ ps] exI [of _ "filter P rows"]) (simp add: le_trans [OF length_filter_le])
qed

lemma run_changes_ok:
  "inv (length cs * (3 * K) + n) (ie_store e) \<Longrightarrow> length rows + added cs \<le> K \<Longrightarrow>
   \<forall>c \<in> set cs. get_table tables (change_table c) = Inr tbl \<and> unindexed (ie_mgr e) (change_table c) \<and> change_fits tbl c \<Longrightarrow>
   stored tbl ps (ie_store e) rows \<Longrightarrow> table_valid (tbl_columns tbl) (map snd rows) \<Longrightarrow>
   \<exists>ps' rows'. inv n (ie_store (run_changes ops iops tables cs e)) \<and>
     stored tbl ps' (ie_store (run_changes ops iops tables cs e)) rows' \<and> table_valid (tbl_columns tbl) (map snd rows')"
proof (induction cs arbitrary: e ps rows)
  case (Cons c cs)
  have k: "length rows + added [c] \<le> K" using Cons.prems(2) by (cases c) simp_all
  then have "inv (3 * (length rows + added [c]) + (length cs * (3 * K) + n)) (ie_store e)"
    using inv_weaken [OF _ Cons.prems(1)] by simp
  from apply_change_ok [OF this _ Cons.prems(4) _ Cons.prems(5), of tables iops] Cons.prems(3) obtain ps1 rows1 where
    s: "inv (length cs * (3 * K) + n) (ie_store (snd (apply_change ops iops tables c e)))"
      "ie_mgr (snd (apply_change ops iops tables c e)) = ie_mgr e"
      "stored tbl ps1 (ie_store (snd (apply_change ops iops tables c e))) rows1"
      "table_valid (tbl_columns tbl) (map snd rows1)" "length rows1 \<le> length rows + added [c]" by auto
  have "length rows1 + added cs \<le> K" using s(5) Cons.prems(2) by (cases c) simp_all
  from Cons.IH [OF s(1) this _ s(3,4)] Cons.prems(3) s(2) show ?case by simp
qed auto

end

interpretation main_stmt: statement_store
  "\<lambda>n (s :: session). store_ok n (ss_pool s)" "\<lambda>s. pool_live (ss_pool s)" "\<lambda>s. pool_view (ss_pool s)"
  "\<lambda>s. cached (ss_pool s)" "\<lambda>s q. \<not> cached (ss_pool s) q \<and> pool_live (ss_pool s) q" main_ops
  by unfold_locales

interpretation shadow_stmt: statement_store "shadow_inv D" shadow_live shadow_view
  "\<lambda>s p. cached (ss_pool s) (resolve s p)" "\<lambda>s q. shadow_fresh s q \<and> D q = None" shadow_ops
  for D
  by unfold_locales

section \<open>A table with a key\<close>

definition key_col :: ColumnDef where
  "key_col = \<lparr>col_name = ''id'', data_type = INTEGER, nullable = False, primary_key = True, is_unique = False\<rparr>"

definition key_meta :: TableMeta where
  "key_meta = \<lparr>meta_name = ''t'', meta_columns = [key_col], meta_root = 1, meta_primary_key = ''id''\<rparr>"

definition key_table :: Table where
  "key_table = table_of_meta key_meta"

definition key_env :: "session index_env" where
  "key_env = \<lparr>ie_store = new_session 2, ie_mgr = new_index_manager\<rparr>"

definition key_insert :: "pval list \<Rightarrow> InsertStatement" where
  "key_insert vs = \<lparr>ins_table = ''t'', ins_columns = None, ins_values = map (\<lambda>v. [Literal v]) vs\<rparr>"

lemma key_table_facts:
  "get_table [(''t'', key_meta)] ''t'' = Inr key_table" "tbl_columns key_table = [key_col]" "tbl_root key_table = 1"
  "unindexed (ie_mgr key_env) tname"
  by (simp_all add: get_table_def key_table_def table_of_meta_def key_meta_def key_env_def unindexed_def new_index_manager_def)

lemma key_env_facts:
  assumes "2 + 1 + m < (2 ^ 32 :: nat)"
  shows "store_ok m (ss_pool (ie_store key_env))"
    and "table_ok (pool_live (ss_pool (ie_store key_env))) (pool_view (ss_pool (ie_store key_env))) key_table [1]"
    and "decode_rows [key_col] (contents (pool_view (ss_pool (ie_store key_env))) [1]) = Inr []"
proof -
  show "store_ok m (ss_pool (ie_store key_env))" using new_session_facts(2) [OF assms] by (simp add: key_env_def)
  have "tbl_root key_table = tbl_root demo_table" by (simp add: key_table_facts demo_table_def)
  with demo_table_ok(1,3) [OF assms] show
    "table_ok (pool_live (ss_pool (ie_store key_env))) (pool_view (ss_pool (ie_store key_env))) key_table [1]"
    "decode_rows [key_col] (contents (pool_view (ss_pool (ie_store key_env))) [1]) = Inr []"
    by (simp_all add: key_env_def table_ok_def decode_rows_def)
qed

lemma key_serialized:
  "rbind (serialize_row [PInt i] [key_col]) (\<lambda>d. Inr (length d)) = (if in_i64 i then Inr 11 else Inl StructError)"
  by (simp add: serialize_row_def key_col_def serialize_value_def pack_i64_def pack_u_def encode_null_flags_def bitmap_size_def)

lemma key_row_fits: "row_fits [key_col] [PInt i]"
proof -
  have "length vs = length [key_col] \<and> length d + 4 \<le> 4064"
    if "convert_row [PInt i] [key_col] = Inr vs" "serialize_row vs [key_col] = Inr d" for vs d
  proof -
    have vs: "vs = [PInt i]" using that(1) by (simp add: convert_row_def key_col_def convert_value_def validate_value_def)
    then have "in_i64 i" "length d = 11" using that(2) key_serialized [of i] by (simp_all split: if_splits)
    then show ?thesis using vs by simp
  qed
  then show ?thesis by (simp add: row_fits_def)
qed

lemma key_insert_fits: "rows_fit key_table None (ins_values (key_insert (map PInt is)))"
  by (auto simp: rows_fit_def key_table_facts key_insert_def ordered_row_def key_row_fits)

lemma key_insert_spec:
  assumes "in_i64 j"
  shows "insert_spec [key_col] [PInt j] vss =
    (if \<exists>vs \<in> set vss. py_eq (vs ! 0) (PInt j) then Inl ConstraintError else Inr [PInt j])"
proof -
  have "rbind (convert_row [PInt j] [key_col]) (\<lambda>vs. rbind (serialize_row vs [key_col]) (\<lambda>_. Inr vs)) = Inr [PInt j]"
    using key_serialized [of j] assms by (auto simp: convert_row_def key_col_def convert_value_def validate_value_def)
  then show ?thesis by (simp add: insert_spec_def) (simp add: key_col_def)
qed

section \<open>Properties\<close>

text \<open>
  C3. INSERT adds its rows one after the other: on a table without an index, the statement answers as
  the function \<open>insert_all\<close> on the rows that the table had, and a scan afterwards returns the rows of
  that function in some order. A row that violates a constraint, has a wrong type or cannot be computed
  stops the statement with that error, and the rows before it have been added. The rows of the table have
  a value in every column, and so has each row that is inserted, which takes at most 4060 bytes (\<open>rows_fit\<close>).
\<close>

theorem insert_adds_to_bag:
  assumes "store_ok (3 * length (ins_values stmt)) (ss_pool (ie_store e))"
    and "get_table tables (ins_table stmt) = Inr tbl" and "unindexed (ie_mgr e) (ins_table stmt)"
    and "table_ok (pool_live (ss_pool (ie_store e))) (pool_view (ss_pool (ie_store e))) tbl ps"
    and "decode_rows (tbl_columns tbl) (contents (pool_view (ss_pool (ie_store e))) ps) = Inr rows"
    and "\<forall>(rid, vs) \<in> set rows. length vs = length (tbl_columns tbl)"
    and "rows_fit tbl (ins_columns stmt) (ins_values stmt)"
  shows "\<exists>e' rows'. execute_insert main_ops iops tables stmt e =
      (rbind (fst (insert_all tbl (ins_columns stmt) (ins_values stmt) (map snd rows)))
         (\<lambda>_. Inr (affected (length (ins_values stmt)))), e') \<and>
    fst (scan_all main_ops tbl None (ie_store e')) = Inr rows' \<and>
    mset (map snd rows') = mset (snd (insert_all tbl (ins_columns stmt) (ins_values stmt) (map snd rows)))"
proof -
  have i: "store_ok (3 * length (ins_values stmt) + 0) (ss_pool (ie_store e))" using assms(1) by simp
  have st: "main_stmt.stored tbl ps (ie_store e) rows" using assms(4,5) by (simp add: main_stmt.stored_def)
  have "main_stmt.full_rows tbl rows" using assms(6) by (simp add: main_stmt.full_rows_def)
  from main_stmt.execute_insert_ok [OF i assms(2) st assms(3) this assms(7), of iops] obtain e' ps' rows' where
    r: "execute_insert main_ops iops tables stmt e =
      (rbind (fst (insert_all tbl (ins_columns stmt) (ins_values stmt) (map snd rows)))
         (\<lambda>_. Inr (affected (length (ins_values stmt)))), e')" "store_ok 0 (ss_pool (ie_store e'))"
      "main_stmt.stored tbl ps' (ie_store e') rows'"
      "mset (map snd rows') = mset (snd (insert_all tbl (ins_columns stmt) (ins_values stmt) (map snd rows)))" by blast
  have "fst (scan_all main_ops tbl None (ie_store e')) = Inr rows'"
    using main_stmt.scan_stored [OF r(2,3)] .
  then show ?thesis using r(1,4) by blast
qed

theorem insert_adds_to_bag_witness:
  "\<exists>e' rows'. execute_insert main_ops None [(''t'', key_meta)] (key_insert [PInt 1, PInt 2, PInt 1, PInt 3]) key_env =
      (Inl ConstraintError, e') \<and>
    fst (scan_all main_ops key_table None (ie_store e')) = Inr rows' \<and> mset (map snd rows') = {#[PInt 1], [PInt 2]#}"
proof -
  let ?i = "key_insert [PInt 1, PInt 2, PInt 1, PInt 3]"
  have "2 + 1 + 12 < (2 ^ 32 :: nat)" by simp
  note e = key_env_facts [OF this]
  have all: "insert_all key_table None (ins_values ?i) [] = (Inl ConstraintError, [[PInt 1], [PInt 2]])"
    by (simp add: key_insert_def ordered_row_def key_table_facts key_insert_spec in_i64_def)
  have "\<exists>e' rows'. execute_insert main_ops None [(''t'', key_meta)] ?i key_env =
      (rbind (fst (insert_all key_table (ins_columns ?i) (ins_values ?i) (map snd ([] :: rows))))
         (\<lambda>_. Inr (affected (length (ins_values ?i)))), e') \<and>
    fst (scan_all main_ops key_table None (ie_store e')) = Inr rows' \<and>
    mset (map snd rows') = mset (snd (insert_all key_table (ins_columns ?i) (ins_values ?i) (map snd ([] :: rows))))"
    by (rule insert_adds_to_bag [OF _ _ _ e(2)])
      (use e key_table_facts key_insert_fits [of "[1, 2, 1, 3]"] in \<open>simp_all add: key_insert_def\<close>)
  moreover have "ins_columns ?i = None" by (simp add: key_insert_def)
  ultimately show ?thesis by (simp add: all)
qed

text \<open>
  C7. A refused row leaves no trace: on a table without an index, whose rows have a value in every column, an
  INSERT of one row that puts NULL into a NOT NULL column, or a value into a unique column that a stored row has
  there, raises \<open>ConstraintError\<close>, and a scan returns the rows it returned before. (With an index created after
  those rows the duplicate is accepted, see \<open>create_index_hides_rows\<close>.)
\<close>

theorem constraint_violation_changes_nothing:
  assumes "store_ok 3 (ss_pool (ie_store e))" and "ins_values stmt = [es]" and "rmap (\<lambda>x. evaluate x []) es = Inr vals"
    and "get_table tables (ins_table stmt) = Inr tbl" and "unindexed (ie_mgr e) (ins_table stmt)"
    and "table_ok (pool_live (ss_pool (ie_store e))) (pool_view (ss_pool (ie_store e))) tbl ps"
    and "decode_rows (tbl_columns tbl) (contents (pool_view (ss_pool (ie_store e))) ps) = Inr rows"
    and "\<forall>(rid, vs) \<in> set rows. length vs = length (tbl_columns tbl)"
    and "(v, c) = zip (ordered_row tbl (ins_columns stmt) vals) (tbl_columns tbl) ! i"
    and "i < length (ordered_row tbl (ins_columns stmt) vals)" and "i < length (tbl_columns tbl)"
    and "\<not> nullable c \<and> v = PNone \<or> (primary_key c \<or> is_unique c) \<and> (\<exists>(rid, vs) \<in> set rows. py_eq (vs ! i) v)"
  shows "\<exists>e'. execute_insert main_ops iops tables stmt e = (Inl ConstraintError, e') \<and>
    fst (scan_all main_ops tbl None (ie_store e')) = Inr rows"
proof -
  let ?row = "ordered_row tbl (ins_columns stmt) vals" and ?cols = "tbl_columns tbl"
  have "(\<not> nullable c \<and> v = PNone \<or> (primary_key c \<or> is_unique c) \<and> clashes (0 + i) v None rows)"
    using assms(12) by (force simp: clashes_def)
  then have "check_spec 0 (zip ?row ?cols) None rows = Inl ConstraintError"
    using check_spec_refuses [of i "zip ?row ?cols" v c 0 None rows] assms(9-11) by simp
  moreover have st: "main_stmt.stored tbl ps (ie_store e) rows" using assms(6,7) by (simp add: main_stmt.stored_def)
  have "\<forall>(rid, vs) \<in> set rows. 0 + length (zip ?row ?cols) \<le> length vs" using assms(8) by auto
  from main_stmt.check_columns_ok [OF assms(1) main_stmt.stored_seen [OF st] assms(5) this, of iops None] obtain e' where
    "check_columns main_ops iops tbl (ins_table stmt) None 0 (zip ?row ?cols) e = (check_spec 0 (zip ?row ?cols) None rows, e')"
    "main_stmt.looked 3 e e'" by blast
  moreover from this(2) have l: "store_ok 3 (ss_pool (ie_store e'))" "main_stmt.stored tbl ps (ie_store e') rows"
    using main_stmt.stored_unchanged st by (auto simp: main_stmt.looked_def)
  ultimately have "execute_insert main_ops iops tables stmt e = (Inl ConstraintError, e')"
    using assms(2-4) by (simp add: execute_insert_def insert_one_def check_constraints_def sbind_def)
  moreover have "fst (scan_all main_ops tbl None (ie_store e')) = Inr rows"
    using main_stmt.scan_stored [OF l] .
  ultimately show ?thesis by blast
qed

theorem constraint_violation_changes_nothing_witness:
  "\<exists>e'. execute_insert main_ops None [(''t'', key_meta)] (key_insert [PNone]) key_env = (Inl ConstraintError, e') \<and>
     fst (scan_all main_ops key_table None (ie_store e')) = Inr []"
proof -
  have "2 + 1 + 3 < (2 ^ 32 :: nat)" by simp
  note e = key_env_facts [OF this]
  show ?thesis
    by (rule constraint_violation_changes_nothing [OF e(1) _ _ _ _ e(2), where es = "[Literal PNone]" and vals = "[PNone]"
          and v = PNone and c = key_col and i = 0])
      (use e(3) key_table_facts in \<open>simp_all add: key_insert_def ordered_row_def\<close>, simp add: key_col_def)
qed

text \<open>
  C5. DELETE is a filter: on a table without an index the statement reports the number of rows that its
  condition selects and a scan afterwards returns the others, in their order, with their row ids; when the
  condition raises on some row nothing is deleted.
\<close>

theorem delete_removes_selected:
  assumes "store_ok (length rows) (ss_pool (ie_store e))"
    and "get_table tables (del_table stmt) = Inr tbl" and "unindexed (ie_mgr e) (del_table stmt)"
    and "table_ok (pool_live (ss_pool (ie_store e))) (pool_view (ss_pool (ie_store e))) tbl ps"
    and "decode_rows (tbl_columns tbl) (contents (pool_view (ss_pool (ie_store e))) ps) = Inr rows"
  shows "case selected tbl (del_where stmt) rows of
      Inl err \<Rightarrow> \<exists>e'. execute_delete main_ops iops tables stmt e = (Inl err, e') \<and>
        fst (scan_all main_ops tbl None (ie_store e')) = Inr rows
    | Inr sel \<Rightarrow> \<exists>e'. execute_delete main_ops iops tables stmt e = (Inr (affected (length sel)), e') \<and>
        fst (scan_all main_ops tbl None (ie_store e')) = Inr (filter (\<lambda>x. x \<notin> set sel) rows)"
proof -
  have i: "store_ok (length rows + 0) (ss_pool (ie_store e))" using assms(1) by simp
  have st: "main_stmt.stored tbl ps (ie_store e) rows" using assms(4,5) by (simp add: main_stmt.stored_def)
  from main_stmt.execute_delete_ok [OF i assms(2) st assms(3), of iops] obtain e' where
    r: "store_ok 0 (ss_pool (ie_store e'))" "case selected tbl (del_where stmt) rows of
       Inl err \<Rightarrow> execute_delete main_ops iops tables stmt e = (Inl err, e') \<and> main_stmt.stored tbl ps (ie_store e') rows
     | Inr sel \<Rightarrow> execute_delete main_ops iops tables stmt e = (Inr (affected (length sel)), e') \<and>
         main_stmt.stored tbl ps (ie_store e') (filter (\<lambda>x. x \<notin> set sel) rows)" by blast
  have "fst (scan_all main_ops tbl None (ie_store e')) = Inr xs" if "main_stmt.stored tbl ps (ie_store e') xs" for xs
    using main_stmt.scan_stored [OF r(1) that] .
  then show ?thesis using r(2) by (cases "selected tbl (del_where stmt) rows") auto
qed

theorem delete_removes_selected_witness:
  "\<exists>rid s e'. table_insert main_ops demo_table [PInt 7] None (new_session 2) = (Inr rid, s) \<and>
    execute_delete main_ops None [(''t'', \<lparr>meta_name = ''t'', meta_columns = [int_col], meta_root = 1, meta_primary_key = []\<rparr>)]
      \<lparr>del_table = ''t'', del_where = Some (BinaryOp ''='' (ColumnRef ''n'' None) (Literal (PInt 7)))\<rparr>
      \<lparr>ie_store = s, ie_mgr = new_index_manager\<rparr> = (Inr (affected 1), e') \<and>
    fst (scan_all main_ops demo_table None (ie_store e')) = Inr []"
proof -
  obtain rid s ps where s: "table_insert main_ops demo_table [PInt 7] None (new_session 2) = (Inr rid, s)"
    "store_ok 1 (ss_pool s)" "table_ok (pool_live (ss_pool s)) (pool_view (ss_pool s)) demo_table ps"
    "decode_rows (tbl_columns demo_table) (contents (pool_view (ss_pool s)) ps) = Inr [(rid, [PInt 7])]"
    using demo_inserted by blast
  let ?tables = "[(''t'', \<lparr>meta_name = ''t'', meta_columns = [int_col], meta_root = 1, meta_primary_key = []\<rparr>)]"
  let ?e = "\<lparr>ie_store = s, ie_mgr = new_index_manager\<rparr>"
  let ?d = "\<lparr>del_table = ''t'', del_where = Some (BinaryOp ''='' (ColumnRef ''n'' None) (Literal (PInt 7)))\<rparr>"
  have t: "get_table ?tables (del_table ?d) = Inr demo_table"
    by (simp add: get_table_def table_of_meta_def demo_table_def)
  have u: "unindexed (ie_mgr ?e) (del_table ?d)" by (simp add: unindexed_def new_index_manager_def)
  have sel: "selected demo_table (del_where ?d) [(rid, [PInt 7])] = Inr [(rid, [PInt 7])]"
    by (simp add: selected_def selects_def row_dict_def names_of_def demo_table_def int_col_def column_value_def row_get_def
        apply_binary_def compare_eq_def rbool_def to_bool_def)
  from delete_removes_selected [OF _ t u, where ps = ps and rows = "[(rid, [PInt 7])]" and iops = None] s sel show ?thesis by simp
qed

text \<open>
  C6. Constraints hold for good: starting with a valid table without an index, after any sequence of INSERT and
  DELETE statements, successful or refused, every row has a value of its type in every column (NULL only where
  it is allowed), and no two rows have equal values in a primary key or unique column that is not of type FLOAT.
  The values to be inserted are arbitrary, but there is one for every column, and what they convert to takes at
  most 4060 bytes (\<open>change_fits\<close>): the code writes a row with too few values as it is.
\<close>

theorem statements_keep_table_valid:
  assumes "store_ok (length cs * (3 * K)) (ss_pool (ie_store e))" and "length rows + added cs \<le> K"
    and "\<forall>c \<in> set cs. get_table tables (change_table c) = Inr tbl \<and> unindexed (ie_mgr e) (change_table c) \<and> change_fits tbl c"
    and "table_ok (pool_live (ss_pool (ie_store e))) (pool_view (ss_pool (ie_store e))) tbl ps"
    and "decode_rows (tbl_columns tbl) (contents (pool_view (ss_pool (ie_store e))) ps) = Inr rows"
    and "table_valid (tbl_columns tbl) (map snd rows)"
  shows "\<exists>rows'. fst (scan_all main_ops tbl None (ie_store (run_changes main_ops iops tables cs e))) = Inr rows' \<and>
    table_valid (tbl_columns tbl) (map snd rows')"
proof -
  have i: "store_ok (length cs * (3 * K) + 0) (ss_pool (ie_store e))" using assms(1) by simp
  have st: "main_stmt.stored tbl ps (ie_store e) rows" using assms(4,5) by (simp add: main_stmt.stored_def)
  from main_stmt.run_changes_ok [OF i assms(2,3) st assms(6), of iops] obtain ps' rows' where
    r: "store_ok 0 (ss_pool (ie_store (run_changes main_ops iops tables cs e)))"
      "main_stmt.stored tbl ps' (ie_store (run_changes main_ops iops tables cs e)) rows'"
      "table_valid (tbl_columns tbl) (map snd rows')" by blast
  then show ?thesis using main_stmt.scan_stored [OF r(1)] by blast
qed

theorem statements_keep_table_valid_witness:
  "\<exists>rows'. fst (scan_all main_ops key_table None (ie_store (run_changes main_ops None [(''t'', key_meta)]
      [Add (key_insert [PInt 1, PInt 2]), Remove \<lparr>del_table = ''t'', del_where = None\<rparr>, Add (key_insert [PInt 2, PInt 2])]
      key_env))) = Inr rows' \<and> table_valid [key_col] (map snd rows')"
proof -
  let ?cs = "[Add (key_insert [PInt 1, PInt 2]), Remove \<lparr>del_table = ''t'', del_where = None\<rparr>, Add (key_insert [PInt 2, PInt 2])]"
  have "2 + 1 + 36 < (2 ^ 32 :: nat)" by simp
  note e = key_env_facts [OF this]
  have i: "store_ok (length ?cs * (3 * 4)) (ss_pool (ie_store key_env))" using e(1) by simp
  have a: "length ([] :: rows) + added ?cs \<le> 4" by (simp add: key_insert_def)
  have f: "\<forall>c \<in> set ?cs. get_table [(''t'', key_meta)] (change_table c) = Inr key_table \<and>
      unindexed (ie_mgr key_env) (change_table c) \<and> change_fits key_table c"
    using key_table_facts key_insert_fits [of "[1, 2]"] key_insert_fits [of "[2, 2]"] by (simp add: key_insert_def)
  have v: "table_valid (tbl_columns key_table) (map snd ([] :: rows))" by (simp add: table_valid_def)
  from statements_keep_table_valid [OF i a f e(2) _ v, of None] e(3) show ?thesis by (simp add: key_table_facts)
qed

end
