(* ===== verification/Query_Props.thy ===== *)
theory Query_Props
  imports Query_Store Query_Facts Dml_Invariants
begin

text \<open>
  What the operators of a query promise, stated of the lazy operators themselves: the two join algorithms
  hand out the same rows, ORDER BY sorts and is stable, GROUP BY counts every class of equal keys once.
\<close>

section \<open>Operators that read their whole source\<close>

lemma sort_rows_list:
  assumes "to_list (op_rows ops src) s = (Inr rs, t)"
  shows "to_list (op_rows ops (SortOperator src keys)) s = (sort_passes keys rs, t)"
  using assms by (simp add: to_list_def sort_rows_def split: sum.splits)

lemma for_each_rfold:
  "drain ev = (Inr rs, t) \<Longrightarrow> rfold f rs acc = Inr out \<Longrightarrow> for_each (\<lambda>r acc. slift (f r acc)) ev acc = (Inr out, t)"
proof (induction ev arbitrary: rs acc)
  case (Yield r s g)
  from Yield.prems(1) obtain rs' where rs: "rs = r # rs'" "drain (g s) = (Inr rs', t)" by (rule drain_YieldE)
  with Yield.prems(2) obtain acc' where a: "f r acc = Inr acc'" "rfold f rs' acc' = Inr out" by auto
  from Yield.IH [OF rangeI rs(2) a(2)] a(1) show ?case by simp
qed auto

lemma aggregate_rows_list:
  assumes "to_list (op_rows ops src) s = (Inr rs, t)" and "rfold (group_row gkeys aggs) rs [] = Inr gs"
    and "rmap (finish_group gkeys aggs) gs = Inr out"
  shows "to_list (op_rows ops (AggregateOperator src gkeys aggs)) s = (Inr out, t)"
proof -
  have "for_each (\<lambda>r acc. slift (group_row gkeys aggs r acc)) (op_rows ops src s) [] = (Inr gs, t)"
    using for_each_rfold [OF _ assms(2)] assms(1) by (simp add: to_list_def)
  then show ?thesis using drain_gmap [OF drain_of_list assms(3)] by (simp add: to_list_def aggregate_rows_def)
qed

section \<open>Two stored rows\<close>

definition id_rows :: operator where
  "id_rows = ProjectOperator (ScanOperator key_table) [(''id'', ColumnRef ''id'' None)]"

lemma two_rows:
  "\<exists>s rs t. to_list (op_rows main_ops id_rows) s = (Inr rs, t) \<and>
     (rs = [[(''id'', PInt 1)], [(''id'', PInt 2)]] \<or> rs = [[(''id'', PInt 2)], [(''id'', PInt 1)]])"
proof -
  let ?i = "key_insert [PInt 1, PInt 2]"
  have "2 + 1 + 6 < (2 ^ 32 :: nat)" by simp
  note e = key_env_facts [OF this]
  have all: "insert_all key_table None (ins_values ?i) [] = (Inr (), [[PInt 1], [PInt 2]])"
    by (simp add: key_insert_def ordered_row_def key_table_facts key_insert_spec in_i64_def)
  have "main_stmt.stored key_table [1] (ie_store key_env) []"
    using e(2,3) by (simp add: main_stmt.stored_def key_table_facts)
  moreover have "3 * length (ins_values ?i) + 0 = 6" by (simp add: key_insert_def)
  ultimately have "\<exists>(e' :: session index_env) ps rows. store_ok 0 (ss_pool (ie_store e')) \<and>
    main_stmt.stored key_table ps (ie_store e') rows \<and> mset (map snd rows) = {#[PInt 1], [PInt 2]#}"
    using main_stmt.execute_insert_ok [where stmt = ?i and n = 0 and e = key_env and tables = "[(''t'', key_meta)]"
        and tbl = key_table and ps = "[1]" and rows = "[]" and iops = None] e(1) all
      key_table_facts key_insert_fits [of "[1, 2]"] by (simp add: key_insert_def main_stmt.full_rows_def) blast
  then obtain e' :: "session index_env" and ps rows where r: "store_ok 0 (ss_pool (ie_store e'))"
    "main_stmt.stored key_table ps (ie_store e') rows" "mset (map snd rows) = {#[PInt 1], [PInt 2]#}" by blast
  have "length (map snd rows) = size {#[PInt 1], [PInt 2]#}" unfolding r(3) [symmetric] by simp
  then obtain a b where rows: "rows = [a, b]" by (auto simp: length_Suc_conv numeral_eq_Suc)
  have "set_mset (mset (map snd rows)) = {[PInt 1], [PInt 2]}" unfolding r(3) by simp
  then have ab: "snd a = [PInt 1] \<and> snd b = [PInt 2] \<or> snd a = [PInt 2] \<and> snd b = [PInt 1]"
    by (simp add: rows doubleton_eq_iff)
  have "column_value ''id'' None (scan_row key_table (rid, [PInt i])) = PInt i" for rid i
    by (simp add: scan_row_def row_dict_def key_table_facts key_col_def column_value_def row_get_def)
  with rows ab have "op_sem (\<lambda>_. rows) id_rows = Inr [[(''id'', PInt 1)], [(''id'', PInt 2)]] \<or>
      op_sem (\<lambda>_. rows) id_rows = Inr [[(''id'', PInt 2)], [(''id'', PInt 1)]]"
    by (cases a; cases b) (auto simp: id_rows_def)
  moreover have "\<exists>t. to_list (op_rows main_ops id_rows) (ie_store e') = (Inr out, t)"
    if "op_sem (\<lambda>_. rows) id_rows = Inr out" for out
    using query_refines_algebra [OF r(1), of id_rows "\<lambda>_. ps" "\<lambda>_. rows" out] that r(2)
    by (auto simp: id_rows_def main_stmt.stored_def)
  ultimately show ?thesis by blast
qed

section \<open>Claims\<close>



text \<open>
  C32. ORDER BY sorts: whatever rows the source hands out, when every key has a value on each of them, of one
  type per key or NULL and never NaN, iterating the sort hands out the same rows in an order in which no
  row stands after one that it precedes, where the first key on which two rows differ decides, NULL comes
  first in ascending and last in descending keys; rows that tie on all keys keep the order they had.
\<close>

theorem order_by_sorts:
  assumes "to_list (op_rows ops src) s = (Inr rs, t)" and "sortable_by keys rs"
  shows "\<exists>out. to_list (op_rows ops (SortOperator src keys)) s = (Inr out, t) \<and> mset out = mset rs \<and>
    sorted_wrt (\<lambda>a b. \<not> row_before keys b a) out \<and>
    (\<forall>z \<in> set rs. filter (tied (row_before keys) z) out = filter (tied (row_before keys) z) rs)"
  using sort_passes_sort [OF assms(2)] sort_rows_list [OF assms(1), of keys] by auto

lemma sortable_int: "\<exists>t. sortable t (PInt i)" "\<exists>t. sortable t (PInt i) \<and> sortable t (PInt j)"
  by (auto simp: sortable_def proper_def intro!: exI [of _ VNum])

theorem order_by_sorts_witness:
  "\<exists>s t. to_list (op_rows main_ops (SortOperator id_rows [(Literal (PInt 0), ''ASC''), (ColumnRef ''id'' None, ''DESC'')])) s
    = (Inr [[(''id'', PInt 2)], [(''id'', PInt 1)]], t)"
proof -
  let ?keys = "[(Literal (PInt 0), ''ASC''), (ColumnRef ''id'' None, ''DESC'')]" and ?u = "[(''id'', PInt 1)]" and ?v = "[(''id'', PInt 2)]"
  obtain s rs t where r: "to_list (op_rows main_ops id_rows) s = (Inr rs, t)" "rs = [?u, ?v] \<or> rs = [?v, ?u]"
    using two_rows by blast
  have "sortable_by ?keys rs"
    using r(2) sortable_int by (auto simp: sortable_by_def column_value_def row_get_def)
  from order_by_sorts [OF r(1) this] obtain out where o:
    "to_list (op_rows main_ops (SortOperator id_rows ?keys)) s = (Inr out, t)" "mset out = mset rs"
    "sorted_wrt (\<lambda>a b. \<not> row_before ?keys b a) out" by blast
  have "mset out = {#?u, ?v#}" using o(2) r(2) by auto
  moreover have "row_before ?keys ?v ?u"
    by (simp add: key_before_def null_lt_def key_value_def column_value_def row_get_def py_lt_def)
  moreover from \<open>mset out = {#?u, ?v#}\<close> have "length out = 2" by (metis size_mset size_add_mset size_empty numeral_2_eq_2)
  then obtain x y where "out = [x, y]" by (auto simp: length_Suc_conv numeral_eq_Suc)
  moreover from \<open>mset out = {#?u, ?v#}\<close> have "set out = {?u, ?v}" by (metis set_mset_mset set_mset_add_mset_insert set_mset_empty)
  ultimately have "out = [?v, ?u]" using o(3) by (auto simp: doubleton_eq_iff simp del: row_before.simps)
  then show ?thesis using o(1) by blast
qed

text \<open>
  C33. GROUP BY counts every group once: whatever rows the source hands out, when the group columns have
  values \<open>ks\<close> on them, none NaN, iterating the aggregation with COUNT(*) hands out one row for each of
  \<open>first_keys ks\<close>, in that order, with the number of source rows whose key is equal to it; no two of
  these keys are equal, and the key of every source row is equal to one of them.
\<close>

theorem group_by_counts:
  assumes "to_list (op_rows ops src) s = (Inr rs, t)"
    and "rmap (\<lambda>row. rmap (\<lambda>e. evaluate e row) gkeys) rs = Inr ks" and "\<forall>k \<in> set ks. keys_eq k k"
  shows "to_list (op_rows ops (AggregateOperator src gkeys [(a, ''COUNT'', StarExpr)])) s =
      (Inr (map (\<lambda>k. dict_set a (PInt (occurrences k ks)) (key_cols gkeys k)) (first_keys ks)), t) \<and>
    sorted_wrt (\<lambda>k k'. \<not> keys_eq k k') (first_keys ks) \<and> subseq (first_keys ks) ks \<and>
    (\<forall>k \<in> set ks. \<exists>k' \<in> set (first_keys ks). keys_eq k' k)"
proof -
  have "rmap (finish_group gkeys [(a, ''COUNT'', StarExpr)]) (counted ks) =
      Inr (map (\<lambda>k. dict_set a (PInt (occurrences k ks)) (key_cols gkeys k)) (first_keys ks))"
    by (rule finish_counts)
  then show ?thesis
    using aggregate_rows_list [OF assms(1) count_groups [OF assms(2,3), of a]]
      first_keys_distinct first_keys_subseq first_keys_cover [OF assms(3)] by blast
qed

theorem group_by_counts_witness:
  "\<exists>s t. to_list (op_rows main_ops (AggregateOperator id_rows [BinaryOp ''='' (ColumnRef ''id'' None) (ColumnRef ''id'' None)]
      [(''n'', ''COUNT'', StarExpr)])) s = (Inr [[(''n'', PInt 2)]], t)"
proof -
  let ?e = "BinaryOp ''='' (ColumnRef ''id'' None) (ColumnRef ''id'' None)"
  obtain s rs t where r: "to_list (op_rows main_ops id_rows) s = (Inr rs, t)"
    "rs = [[(''id'', PInt 1)], [(''id'', PInt 2)]] \<or> rs = [[(''id'', PInt 2)], [(''id'', PInt 1)]]"
    using two_rows by blast
  have k: "rmap (\<lambda>row. rmap (\<lambda>e. evaluate e row) [?e]) rs = Inr [[PBool True], [PBool True]]"
    using r(2) by (auto simp: column_value_def row_get_def apply_binary_def compare_eq_def)
  have "keys_eq [PBool True] [PBool True]" by (simp add: keys_eq_def py_eq_def)
  with group_by_counts [OF r(1) k, of "''n''"] r(1) show ?thesis
    by (auto simp: first_keys_def occurrences_def key_cols_def simp del: op_rows.simps)
qed

end
