(* ===== verification/Parser.thy ===== *)
theory Parser
  imports Ast Lexer
begin

text \<open>
  \<open>tinydb/sql/parser.py\<close>, recursive descent. The parser's state is what is left of the token list,
  \<open>_tokens[_pos:]\<close>; \<open>_advance\<close> does not move past the last token, so the state never gets empty.
  The level of the grammar that recurs, an expression in parentheses or in an aggregate, is passed as
  \<open>sub\<close> to the levels above it, and \<open>parse_expression\<close> ties the knot with a bound on the nesting. Every
  bound is the number of tokens that are left: a loop and a nested call take at least one token each,
  so the bounds are never reached on the tokens of the lexer (\<open>parse_ends\<close>). The interpreter's limit on
  the recursion depth is not modelled.
\<close>

type_synonym 'a parser = "(Token list, 'a) st"

section \<open>Tokens\<close>

definition peek :: "Token parser" where
  "peek s = (case s of [] \<Rightarrow> (Inl IndexError, s) | t # ts \<Rightarrow> (Inr t, s))"

definition advance :: "Token parser" where
  "advance s = (case s of [] \<Rightarrow> (Inl IndexError, s) | t # ts \<Rightarrow> (Inr t, if ts = [] then s else ts))"

definition check :: "TokenType \<Rightarrow> bool parser" where
  "check ty = sbind peek (\<lambda>t. sret (tok_type t = ty))"

definition match :: "TokenType \<Rightarrow> bool parser" where
  "match ty = sbind (check ty) (\<lambda>b. if b then sbind advance (\<lambda>t. sret True) else sret False)"

definition fail_at :: "Token \<Rightarrow> 'a parser" where
  "fail_at t = sraise (ParserError (tok_line t) (tok_column t))"

definition expect :: "TokenType \<Rightarrow> Token parser" where
  "expect ty = sbind peek (\<lambda>t. if tok_type t \<noteq> ty then fail_at t else advance)"

text \<open>
  The values the parser takes from tokens are strings and integers; the lexer gives no other to words
  and integer literals.
\<close>

definition str_of :: "Token \<Rightarrow> string parser" where
  "str_of t = (case tok_value t of PStr w \<Rightarrow> sret w | _ \<Rightarrow> sraise AttributeError)"

definition int_of_token :: "Token \<Rightarrow> int parser" where
  "int_of_token t = (case tok_value t of PInt i \<Rightarrow> sret i | _ \<Rightarrow> sraise AttributeError)"

definition expect_name :: "string parser" where
  "expect_name = sbind (expect T_IDENT) str_of"

definition peek_word :: "TokenType \<Rightarrow> string list \<Rightarrow> bool parser" where
  "peek_word ty ws = sbind peek (\<lambda>t. sret (tok_type t = ty \<and> tok_value t \<in> PStr ` set ws))"

section \<open>Loops\<close>

text \<open>The body returns the new value, or \<open>None\<close> to leave the loop.\<close>

fun loop_upto :: "nat \<Rightarrow> ('a \<Rightarrow> 'a option parser) \<Rightarrow> 'a \<Rightarrow> 'a parser" where
  "loop_upto 0 body x = sraise NonTermination"
| "loop_upto (Suc n) body x = sbind (body x) (\<lambda>r. case r of None \<Rightarrow> sret x | Some y \<Rightarrow> loop_upto n body y)"

definition loop :: "('a \<Rightarrow> 'a option parser) \<Rightarrow> 'a \<Rightarrow> 'a parser" where
  "loop body x s = loop_upto (length s + 1) body x s"

definition when_match :: "TokenType \<Rightarrow> 'a parser \<Rightarrow> 'a option parser" where
  "when_match ty p = sbind (match ty) (\<lambda>b. if b then sbind p (\<lambda>x. sret (Some x)) else sret None)"

text \<open>A list with separating commas, as in \<open>_parse_expression_list\<close>.\<close>

definition sep_list :: "'a parser \<Rightarrow> 'a list parser" where
  "sep_list p = sbind p (\<lambda>x. loop (\<lambda>xs. when_match T_COMMA (sbind p (\<lambda>y. sret (xs @ [y])))) [x])"

section \<open>Expressions\<close>

definition is_aggregate :: "Token \<Rightarrow> bool" where
  "is_aggregate t = (tok_type t = T_IDENT \<and>
     (case tok_value t of PStr w \<Rightarrow> upper w \<in> {''COUNT'', ''SUM'', ''AVG''} | _ \<Rightarrow> False))"

definition parse_aggregate :: "expr parser \<Rightarrow> expr parser" where
  "parse_aggregate sub =
     sbind advance (\<lambda>t. sbind (str_of t) (\<lambda>f.
     sbind (expect T_LPAREN) (\<lambda>_.
     sbind (sbind (check T_STAR) (\<lambda>b. if b then sbind advance (\<lambda>_. sret StarExpr) else sub)) (\<lambda>arg.
     sbind (expect T_RPAREN) (\<lambda>_. sret (AggregateExpr (upper f) arg False))))))"

definition parse_primary :: "expr parser \<Rightarrow> expr parser" where
  "parse_primary sub =
     sbind peek (\<lambda>t.
       if tok_type t \<in> {T_INT_LIT, T_FLOAT_LIT, T_STR_LIT, T_BOOL_LIT} then
         sbind advance (\<lambda>_. sret (Literal (tok_value t)))
       else if tok_type t = T_NULL then sbind advance (\<lambda>_. sret (Literal PNone))
       else if is_aggregate t then parse_aggregate sub
       else if tok_type t = T_LPAREN then
         sbind advance (\<lambda>_. sbind sub (\<lambda>e. sbind (expect T_RPAREN) (\<lambda>_. sret e)))
       else if tok_type t = T_IDENT then
         sbind advance (\<lambda>_. sbind (str_of t) (\<lambda>w.
         sbind (check T_DOT) (\<lambda>b.
           if b then sbind advance (\<lambda>_. sbind expect_name (\<lambda>c. sret (ColumnRef c (Some w))))
           else sret (ColumnRef w None))))
       else fail_at t)"

definition parse_unary :: "expr parser \<Rightarrow> expr parser" where
  "parse_unary sub =
     sbind (peek_word T_OP [''-'']) (\<lambda>b.
       if b then sbind advance (\<lambda>_. sbind (parse_primary sub) (\<lambda>e. sret (UnaryOp ''-'' e)))
       else parse_primary sub)"

text \<open>The loops of the binary levels: \<open>ops\<close> are the operators of the level.\<close>

definition parse_ops :: "string list \<Rightarrow> expr parser \<Rightarrow> expr \<Rightarrow> expr option parser" where
  "parse_ops ops p left =
     sbind (peek_word T_OP ops) (\<lambda>b.
       if b then sbind advance (\<lambda>t. sbind (str_of t) (\<lambda>op. sbind p (\<lambda>right. sret (Some (BinaryOp op left right)))))
       else sret None)"

definition parse_multiplicative :: "expr parser \<Rightarrow> expr parser" where
  "parse_multiplicative sub =
     sbind (parse_unary sub) (loop (\<lambda>left.
       sbind (parse_ops [''/''] (parse_unary sub) left) (\<lambda>r.
         case r of Some e \<Rightarrow> sret (Some e)
         | None \<Rightarrow> when_match T_STAR (sbind (parse_unary sub) (\<lambda>right. sret (BinaryOp ''*'' left right))))))"

definition parse_additive :: "expr parser \<Rightarrow> expr parser" where
  "parse_additive sub =
     sbind (parse_multiplicative sub) (loop (parse_ops [''+'', ''-''] (parse_multiplicative sub)))"

definition comp_ops :: "string list" where
  "comp_ops = [''='', ''!='', ''<>'', ''<'', ''>'', ''<='', ''>='']"

definition parse_comparison :: "expr parser \<Rightarrow> expr parser" where
  "parse_comparison sub = sbind (parse_additive sub) (loop (parse_ops comp_ops (parse_additive sub)))"

definition is_word_is :: "Token \<Rightarrow> bool" where
  "is_word_is t = (tok_type t = T_IDENT \<and> (case tok_value t of PStr w \<Rightarrow> upper w = ''IS'' | _ \<Rightarrow> False))"

definition parse_isnull :: "expr parser \<Rightarrow> expr parser" where
  "parse_isnull sub =
     sbind (parse_comparison sub) (\<lambda>left. sbind peek (\<lambda>t.
       if is_word_is t then
         sbind advance (\<lambda>_. sbind (match T_NOT) (\<lambda>negated.
         sbind (expect T_NULL) (\<lambda>_. sret (IsNullExpr left negated))))
       else sret left))"

fun parse_not_upto :: "nat \<Rightarrow> expr parser \<Rightarrow> expr parser" where
  "parse_not_upto 0 sub = sraise NonTermination"
| "parse_not_upto (Suc n) sub =
     sbind (match T_NOT) (\<lambda>b.
       if b then sbind (parse_not_upto n sub) (\<lambda>e. sret (UnaryOp ''NOT'' e)) else parse_isnull sub)"

definition parse_not :: "expr parser \<Rightarrow> expr parser" where
  "parse_not sub s = parse_not_upto (length s) sub s"

definition parse_and :: "expr parser \<Rightarrow> expr parser" where
  "parse_and sub =
     sbind (parse_not sub) (loop (\<lambda>left.
       when_match T_AND (sbind (parse_not sub) (\<lambda>right. sret (BinaryOp ''AND'' left right)))))"

definition parse_or :: "expr parser \<Rightarrow> expr parser" where
  "parse_or sub =
     sbind (parse_and sub) (loop (\<lambda>left.
       when_match T_OR (sbind (parse_and sub) (\<lambda>right. sret (BinaryOp ''OR'' left right)))))"

fun parse_expression_upto :: "nat \<Rightarrow> expr parser" where
  "parse_expression_upto 0 = sraise NonTermination"
| "parse_expression_upto (Suc n) = parse_or (parse_expression_upto n)"

definition parse_expression :: "expr parser" where
  "parse_expression s = parse_expression_upto (length s) s"

section \<open>Clauses\<close>

definition parse_expression_list :: "expr list parser" where
  "parse_expression_list = sep_list parse_expression"

text \<open>\<open>[where/limit/...] if self._match(..) else None\<close>.\<close>

definition parse_table_ref :: "TableRef parser" where
  "parse_table_ref =
     sbind expect_name (\<lambda>name.
     sbind (match T_AS) (\<lambda>b.
       if b then sbind expect_name (\<lambda>a. sret \<lparr>tr_name = name, tr_alias = Some a\<rparr>)
       else sbind (check T_IDENT) (\<lambda>c.
         if c then sbind (sbind advance str_of) (\<lambda>a. sret \<lparr>tr_name = name, tr_alias = Some a\<rparr>)
         else sret \<lparr>tr_name = name, tr_alias = None\<rparr>)))"

definition join_keyword_types :: "TokenType list" where
  "join_keyword_types = [T_JOIN, T_INNER, T_LEFT, T_RIGHT, T_FULL, T_CROSS, T_NATURAL]"

definition is_join_keyword :: "bool parser" where
  "is_join_keyword = sbind peek (\<lambda>t. sret (tok_type t \<in> set join_keyword_types))"

definition parse_join_type :: "string parser" where
  "parse_join_type =
     sbind (match T_INNER) (\<lambda>b. if b then sbind (expect T_JOIN) (\<lambda>_. sret ''INNER'') else
     sbind (match T_LEFT) (\<lambda>b. if b then sbind (match T_OUTER) (\<lambda>_. sbind (expect T_JOIN) (\<lambda>_. sret ''LEFT'')) else
     sbind (match T_RIGHT) (\<lambda>b. if b then sbind (match T_OUTER) (\<lambda>_. sbind (expect T_JOIN) (\<lambda>_. sret ''RIGHT'')) else
     sbind (match T_FULL) (\<lambda>b. if b then sbind (match T_OUTER) (\<lambda>_. sbind (expect T_JOIN) (\<lambda>_. sret ''FULL'')) else
     sbind (match T_CROSS) (\<lambda>b. if b then sbind (expect T_JOIN) (\<lambda>_. sret ''CROSS'') else
     sbind (match T_NATURAL) (\<lambda>b. if b then sbind (expect T_JOIN) (\<lambda>_. sret ''NATURAL'') else
     sbind (expect T_JOIN) (\<lambda>_. sret ''INNER'')))))))"

text \<open>The names of USING and of an INSERT: identifiers while one is there, a comma after each but the last.\<close>

definition parse_names :: "string list parser" where
  "parse_names =
     sbind (loop (\<lambda>(xs, go). if \<not> go then sret None else
       sbind (check T_IDENT) (\<lambda>b. if \<not> b then sret None else
       sbind (sbind advance str_of) (\<lambda>x.
       sbind (match T_COMMA) (\<lambda>c. sret (Some (xs @ [x], c)))))) ([], True))
     (\<lambda>(xs, go). sret xs)"

definition parse_join_clause :: "JoinClause parser" where
  "parse_join_clause =
     sbind parse_join_type (\<lambda>ty.
     sbind parse_table_ref (\<lambda>right.
     sbind (match T_ON) (\<lambda>b.
       if b then sbind parse_expression (\<lambda>e.
         sret \<lparr>jc_type = ty, right_table = right, jc_on = Some e, using_columns = None\<rparr>)
       else sbind (match T_USING) (\<lambda>b.
         if b then sbind (expect T_LPAREN) (\<lambda>_. sbind parse_names (\<lambda>cols. sbind (expect T_RPAREN) (\<lambda>_.
           sret \<lparr>jc_type = ty, right_table = right, jc_on = None, using_columns = Some cols\<rparr>)))
         else if ty \<notin> {''CROSS'', ''NATURAL''} then sbind peek fail_at
         else sret \<lparr>jc_type = ty, right_table = right, jc_on = None, using_columns = None\<rparr>))))"

definition parse_join_clauses :: "JoinClause list parser" where
  "parse_join_clauses =
     loop (\<lambda>js. sbind is_join_keyword (\<lambda>b.
       if b then sbind parse_join_clause (\<lambda>j. sret (Some (js @ [j]))) else sret None)) []"

definition parse_where :: "expr parser" where
  "parse_where = parse_expression"

definition parse_group_by :: "expr list parser" where
  "parse_group_by = sbind (expect T_GROUP) (\<lambda>_. sbind (expect T_BY) (\<lambda>_. parse_expression_list))"

definition parse_direction :: "(expr \<times> string) parser" where
  "parse_direction =
     sbind parse_expression (\<lambda>e.
     sbind (match T_ASC) (\<lambda>b. if b then sret (e, ''ASC'') else
     sbind (match T_DESC) (\<lambda>b. sret (e, if b then ''DESC'' else ''ASC''))))"

definition parse_order_by :: "(expr \<times> string) list parser" where
  "parse_order_by = sbind (expect T_ORDER) (\<lambda>_. sbind (expect T_BY) (\<lambda>_. sep_list parse_direction))"

definition parse_limit :: "int parser" where
  "parse_limit = sbind (expect T_INT_LIT) int_of_token"

definition parse_offset :: "int parser" where
  "parse_offset = sbind (expect T_INT_LIT) int_of_token"

definition when_check :: "TokenType \<Rightarrow> 'a parser \<Rightarrow> 'a option parser" where
  "when_check ty p = sbind (check ty) (\<lambda>b. if b then sbind p (\<lambda>x. sret (Some x)) else sret None)"

section \<open>Statements\<close>

definition parse_select_columns :: "expr list parser" where
  "parse_select_columns =
     sbind (check T_STAR) (\<lambda>b. if b then sbind advance (\<lambda>_. sret [StarExpr]) else parse_expression_list)"

definition parse_select :: "SelectStatement parser" where
  "parse_select =
     sbind (expect T_SELECT) (\<lambda>_.
     sbind parse_select_columns (\<lambda>cols.
     sbind (expect T_FROM) (\<lambda>_.
     sbind parse_table_ref (\<lambda>tbl.
     sbind parse_join_clauses (\<lambda>js.
     sbind (when_match T_WHERE parse_where) (\<lambda>wh.
     sbind (when_check T_GROUP parse_group_by) (\<lambda>gb.
     sbind (when_check T_ORDER parse_order_by) (\<lambda>ob.
     sbind (when_match T_LIMIT parse_limit) (\<lambda>lim.
     sbind (when_match T_OFFSET parse_offset) (\<lambda>off.
       sret \<lparr>sel_columns = cols, from_table = tbl, joins = js, sel_where = wh, order_by = ob,
         limit_count = lim, offset_count = off, group_by = gb\<rparr>))))))))))"

definition parse_value_list :: "expr list parser" where
  "parse_value_list =
     sbind (expect T_LPAREN) (\<lambda>_. sbind parse_expression_list (\<lambda>row. sbind (expect T_RPAREN) (\<lambda>_. sret row)))"

definition parse_value_lists :: "expr list list parser" where
  "parse_value_lists = sep_list parse_value_list"

definition parse_insert :: "InsertStatement parser" where
  "parse_insert =
     sbind (expect T_INSERT) (\<lambda>_.
     sbind (expect T_INTO) (\<lambda>_.
     sbind expect_name (\<lambda>tbl.
     sbind (when_match T_LPAREN (sbind parse_names (\<lambda>cols. sbind (expect T_RPAREN) (\<lambda>_. sret cols)))) (\<lambda>cols.
     sbind (expect T_VALUES) (\<lambda>_.
     sbind parse_value_lists (\<lambda>values.
       sret \<lparr>ins_table = tbl, ins_columns = cols, ins_values = values\<rparr>))))))"

definition expect_eq :: "unit parser" where
  "expect_eq =
     sbind peek (\<lambda>t.
       if tok_type t = T_OP \<and> tok_value t = PStr ''='' then sbind advance (\<lambda>_. sret ()) else fail_at t)"

definition parse_assignment :: "(string \<times> expr) parser" where
  "parse_assignment = sbind expect_name (\<lambda>col. sbind expect_eq (\<lambda>_. sbind parse_expression (\<lambda>e. sret (col, e))))"

definition parse_assignment_list :: "(string \<times> expr) list parser" where
  "parse_assignment_list = sep_list parse_assignment"

definition parse_update :: "UpdateStatement parser" where
  "parse_update =
     sbind (expect T_UPDATE) (\<lambda>_.
     sbind expect_name (\<lambda>tbl.
     sbind (expect T_SET) (\<lambda>_.
     sbind parse_assignment_list (\<lambda>as.
     sbind (when_match T_WHERE parse_where) (\<lambda>wh.
       sret \<lparr>upd_table = tbl, assignments = as, upd_where = wh\<rparr>)))))"

definition parse_delete :: "DeleteStatement parser" where
  "parse_delete =
     sbind (expect T_DELETE) (\<lambda>_.
     sbind (expect T_FROM) (\<lambda>_.
     sbind expect_name (\<lambda>tbl.
     sbind (when_match T_WHERE parse_where) (\<lambda>wh. sret \<lparr>del_table = tbl, del_where = wh\<rparr>))))"

text \<open>\<open>data_type_tok.value.upper()\<close>: only a string has the method.\<close>

definition parse_constraint :: "ColumnDefAST \<Rightarrow> ColumnDefAST option parser" where
  "parse_constraint col =
     sbind (match T_PRIMARY) (\<lambda>b. if b then
       sbind (expect T_KEY) (\<lambda>_. sret (Some (col\<lparr>ca_primary_key := True, ca_nullable := False\<rparr>))) else
     sbind (match T_UNIQUE) (\<lambda>b. if b then sret (Some (col\<lparr>ca_unique := True\<rparr>)) else
     sbind (match T_NOT) (\<lambda>b. if b then
       sbind (expect T_NULL) (\<lambda>_. sret (Some (col\<lparr>ca_not_null := True, ca_nullable := False\<rparr>))) else
     sbind (match T_NULL) (\<lambda>b. if b then sret (Some (col\<lparr>ca_nullable := True\<rparr>)) else sret None))))"

definition parse_column_definition :: "ColumnDefAST parser" where
  "parse_column_definition =
     sbind (sbind advance str_of) (\<lambda>name.
     sbind (sbind advance str_of) (\<lambda>ty.
     loop parse_constraint \<lparr>ca_name = name, ca_type = upper ty, ca_nullable = True, ca_primary_key = False,
       ca_unique = False, ca_not_null = False\<rparr>))"

definition parse_column_definitions :: "ColumnDefAST list parser" where
  "parse_column_definitions =
     sbind (loop (\<lambda>(cols, go). if \<not> go then sret None else
       sbind (check T_IDENT) (\<lambda>b. if \<not> b then sret None else
       sbind parse_column_definition (\<lambda>col.
       sbind (match T_COMMA) (\<lambda>c. sret (Some (cols @ [col], c)))))) ([], True))
     (\<lambda>(cols, go). sret cols)"

definition parse_create :: "CreateTableStatement parser" where
  "parse_create =
     sbind (expect T_CREATE) (\<lambda>_.
     sbind (expect T_TABLE) (\<lambda>_.
     sbind expect_name (\<lambda>tbl.
     sbind (expect T_LPAREN) (\<lambda>_.
     sbind parse_column_definitions (\<lambda>cols.
     sbind (expect T_RPAREN) (\<lambda>_. sret \<lparr>create_table_name = tbl, create_columns = cols\<rparr>))))))"

definition parse_drop :: "string parser" where
  "parse_drop = sbind (expect T_DROP) (\<lambda>_. sbind (expect T_TABLE) (\<lambda>_. expect_name))"

definition parse_statement :: "statement parser" where
  "parse_statement =
     sbind peek (\<lambda>t. case tok_type t of
       T_SELECT \<Rightarrow> sbind parse_select (\<lambda>x. sret (Select x))
     | T_INSERT \<Rightarrow> sbind parse_insert (\<lambda>x. sret (Insert x))
     | T_UPDATE \<Rightarrow> sbind parse_update (\<lambda>x. sret (Update x))
     | T_DELETE \<Rightarrow> sbind parse_delete (\<lambda>x. sret (Delete x))
     | T_CREATE \<Rightarrow> sbind parse_create (\<lambda>x. sret (CreateTable x))
     | T_DROP \<Rightarrow> sbind parse_drop (\<lambda>x. sret (DropTable x))
     | _ \<Rightarrow> fail_at t)"

definition parse :: "Token list \<Rightarrow> statement res" where
  "parse ts = fst (sbind parse_statement (\<lambda>stmt. sbind (expect T_EOF) (\<lambda>_. sret stmt)) ts)"

text \<open>
  From a text to its statement. The depth to which Python lets functions call each other is not modelled: a text that is
  nested some hundred levels deep raises \<open>RecursionError\<close> there, and is parsed here.
\<close>

definition parse_sql :: "string \<Rightarrow> statement res" where
  "parse_sql sql = rbind (tokenize sql) parse"

end
