(* ===== verification/Parser_Ends.thy ===== *)
theory Parser_Ends
  imports Parser
begin

text \<open>
  The parser always returns. \<open>takes n w p\<close>: on a token list of at most \<open>n\<close> tokens that ends with its
  only end mark, \<open>p\<close> raises a syntax error, or returns some \<open>x\<close> and leaves such a list with at least
  \<open>w x\<close> tokens fewer. One rule per combinator; \<open>takes_at\<close> is the same with the first token known.
\<close>

definition stream :: "Token list \<Rightarrow> bool" where
  "stream s \<longleftrightarrow> s \<noteq> [] \<and> tok_type (last s) = T_EOF \<and> (\<forall>t \<in> set (butlast s). tok_type t \<noteq> T_EOF)"

definition parse_error :: "err \<Rightarrow> bool" where
  "parse_error e \<longleftrightarrow> e = AttributeError \<or> (\<exists>l c. e = ParserError l c)"

definition outcome :: "('a \<Rightarrow> nat) \<Rightarrow> nat \<Rightarrow> (err + 'a) \<times> Token list \<Rightarrow> bool" where
  "outcome w m rs = (case rs of (Inl e, s) \<Rightarrow> parse_error e | (Inr x, s) \<Rightarrow> stream s \<and> length s + w x \<le> m)"

definition takes_at :: "nat \<Rightarrow> ('a \<Rightarrow> nat) \<Rightarrow> Token \<Rightarrow> 'a parser \<Rightarrow> bool" where
  "takes_at n w t p \<longleftrightarrow> (\<forall>s. stream s \<and> length s \<le> n \<and> hd s = t \<longrightarrow> outcome w (length s) (p s))"

definition takes :: "nat \<Rightarrow> ('a \<Rightarrow> nat) \<Rightarrow> 'a parser \<Rightarrow> bool" where
  "takes n w p \<longleftrightarrow> (\<forall>s. stream s \<and> length s \<le> n \<longrightarrow> outcome w (length s) (p s))"

named_theorems takes_rules "rules for the combinators of the parser"

lemma outcome_simps [simp]:
  "outcome w m (Inl e, s) = parse_error e"
  "outcome w m (Inr x, s) \<longleftrightarrow> stream s \<and> length s + w x \<le> m"
  by (simp_all add: outcome_def)

lemma outcome_mono: "outcome w m rs \<Longrightarrow> (\<And>x. w' x + m \<le> w x + m') \<Longrightarrow> outcome w' m' rs"
proof -
  assume o: "outcome w m rs" and le: "\<And>x. w' x + m \<le> w x + m'"
  obtain r s where rs: "rs = (r, s)" by (cases rs)
  show "outcome w' m' rs"
  proof (cases r)
    case (Inr x)
    with o le [of x] rs show ?thesis by simp
  qed (use o rs in simp)
qed

lemma takes_atI: "takes n w p \<Longrightarrow> takes_at n w t p"
  by (simp add: takes_def takes_at_def)

lemma takes_mono: "takes n' w' p \<Longrightarrow> n \<le> n' \<Longrightarrow> (\<And>x. w x \<le> w' x) \<Longrightarrow> takes n w p"
  unfolding takes_def by (blast intro: outcome_mono add_right_mono order_trans)

lemma takesD: "takes n w p \<Longrightarrow> stream s \<Longrightarrow> length s \<le> n \<Longrightarrow> outcome w (length s) (p s)"
  by (simp add: takes_def)

lemma takes_bind:
  assumes p: "takes n v p" and f: "\<And>x. takes (n - v x) (\<lambda>y. w y - v x) (f x)"
  shows "takes n w (sbind p f)"
  unfolding takes_def
proof (intro allI impI)
  fix s assume s: "stream s \<and> length s \<le> n"
  obtain r s' where r: "p s = (r, s')" by (cases "p s")
  have o: "outcome v (length s) (r, s')" using takesD [OF p] s r by fastforce
  show "outcome w (length s) (sbind p f s)"
  proof (cases r)
    case (Inl e)
    with o r show ?thesis by (simp add: sbind_def)
  next
    case (Inr x)
    with o have s': "stream s'" "length s' + v x \<le> length s" by simp_all
    then have "outcome (\<lambda>y. w y - v x) (length s') (f x s')" using s by (intro takesD [OF f]) auto
    then show ?thesis using s'(2) Inr r by (auto simp: sbind_def intro: outcome_mono)
  qed
qed

lemma takes_sret [takes_rules]: "w x = 0 \<Longrightarrow> takes n w (sret x)"
  by (simp add: takes_def)

lemma takes_fail [takes_rules]: "takes n w (fail_at t)" "takes n w (sraise AttributeError)"
  by (simp_all add: takes_def fail_at_def parse_error_def)

lemma takes_at_fail [takes_rules]: "takes_at n w t (fail_at u)"
  by (rule takes_atI) (rule takes_fail)

lemma takes_bind_fail [takes_rules]:
  "takes n w (sbind (fail_at t) f)" "takes_at n w u (sbind (fail_at t) f)"
  by (simp_all add: takes_def takes_at_def sbind_def fail_at_def parse_error_def)

lemma takes_at_sret [takes_rules]: "w x = 0 \<Longrightarrow> takes_at n w t (sret x)"
  by (rule takes_atI) (rule takes_sret)

lemma takes_at_if [takes_rules]:
  "(b \<Longrightarrow> takes_at n w t p) \<Longrightarrow> (\<not> b \<Longrightarrow> takes_at n w t q) \<Longrightarrow> takes_at n w t (if b then p else q)"
  by simp

lemma takes_if [takes_rules]:
  "(b \<Longrightarrow> takes n w p) \<Longrightarrow> (\<not> b \<Longrightarrow> takes n w q) \<Longrightarrow> takes n w (if b then p else q)"
  by simp

lemma stream_Cons: "stream (t # ts) \<Longrightarrow> tok_type t \<noteq> T_EOF \<Longrightarrow> stream ts"
  by (cases ts) (auto simp: stream_def)

lemma stream_not_Nil: "stream s \<Longrightarrow> s \<noteq> []"
  by (simp add: stream_def)

lemma peek_stream: "stream s \<Longrightarrow> peek s = (Inr (hd s), s)"
  by (cases s) (auto simp: peek_def stream_def)

lemma takes_at_assoc [takes_rules]: "takes_at n w t (sbind m (\<lambda>x. sbind (f x) g)) \<Longrightarrow> takes_at n w t (sbind (sbind m f) g)"
  by (simp add: sbind_assoc)

lemma takes_assoc [takes_rules]: "takes n w (sbind m (\<lambda>x. sbind (f x) g)) \<Longrightarrow> takes n w (sbind (sbind m f) g)"
  by (simp add: sbind_assoc)

lemma takes_bind_if [takes_rules]:
  "takes n w (if b then sbind p g else sbind q g) \<Longrightarrow> takes n w (sbind (if b then p else q) g)"
  "takes_at n w t (if b then sbind p g else sbind q g) \<Longrightarrow> takes_at n w t (sbind (if b then p else q) g)"
  by (simp_all split: if_splits)

lemma takes_bind_sret [takes_rules]:
  "takes n w (f x) \<Longrightarrow> takes n w (sbind (sret x) f)" "takes_at n w t (f x) \<Longrightarrow> takes_at n w t (sbind (sret x) f)"
  by (simp_all add: takes_def takes_at_def)

lemma takes_peek [takes_rules]: "(\<And>t. takes_at n w t (f t)) \<Longrightarrow> takes n w (sbind peek f)"
  by (auto simp: takes_def takes_at_def sbind_def peek_stream)

lemma takes_check [takes_rules]: "(\<And>t. takes_at n w t (f (tok_type t = ty))) \<Longrightarrow> takes n w (sbind (check ty) f)"
  by (auto simp: takes_def takes_at_def check_def sbind_def peek_stream)

lemma takes_word [takes_rules]:
  "(\<And>t. takes_at n w t (f (tok_type t = ty \<and> tok_value t \<in> PStr ` set ws))) \<Longrightarrow> takes n w (sbind (peek_word ty ws) f)"
  by (auto simp: takes_def takes_at_def peek_word_def sbind_def peek_stream)

lemma takes_at_check [takes_rules]:
  "takes_at n w t (f (tok_type t = ty)) \<Longrightarrow> takes_at n w t (sbind (check ty) f)"
  by (auto simp: takes_at_def check_def sbind_def peek_stream)

lemma takes_at_advance [takes_rules]:
  assumes "tok_type t \<noteq> T_EOF" and "takes (n - 1) (\<lambda>x. w x - 1) (f t)"
  shows "takes_at n w t (sbind advance f)"
  unfolding takes_at_def
proof (intro allI impI)
  fix s assume s: "stream s \<and> length s \<le> n \<and> hd s = t"
  then obtain ts where ts: "s = t # ts" by (cases s) (auto simp: stream_def)
  with s assms(1) have st: "stream ts" by (auto intro: stream_Cons)
  have e: "sbind advance f s = f t ts" using ts stream_not_Nil [OF st] by (simp add: sbind_def advance_def)
  have l: "length ts \<le> n - 1" using ts s by (cases n) auto
  show "outcome w (length s) (sbind advance f s)"
    unfolding e using takesD [OF assms(2) st l] ts by (auto intro: outcome_mono)
qed

lemma takes_expect [takes_rules]:
  assumes "ty \<noteq> T_EOF" and "\<And>t. takes (n - 1) (\<lambda>x. w x - 1) (f t)"
  shows "takes n w (sbind (expect ty) f)"
  unfolding expect_def using assms by (intro takes_rules) auto

lemma takes_match [takes_rules]:
  assumes "ty \<noteq> T_EOF" and "takes (n - 1) (\<lambda>x. w x - 1) (f True)" and "takes n w (f False)"
  shows "takes n w (sbind (match ty) f)"
  unfolding match_def using assms by (intro takes_rules takes_atI [OF assms(3)]) auto

lemma takes_str_of [takes_rules]: "(\<And>v. takes n w (f v)) \<Longrightarrow> takes n w (sbind (str_of t) f)"
  by (cases "tok_value t") (simp_all add: takes_def str_of_def sbind_def parse_error_def)

lemma takes_int_of [takes_rules]: "(\<And>x. w x = 0) \<Longrightarrow> takes n w (int_of_token t)"
  by (cases "tok_value t") (simp_all add: takes_def int_of_token_def parse_error_def)

lemma takes_name [takes_rules]: "(\<And>v. takes (n - 1) (\<lambda>x. w x - 1) (f v)) \<Longrightarrow> takes n w (sbind expect_name f)"
  unfolding expect_name_def by (intro takes_rules) auto

text \<open>A parser that takes a token, followed by another.\<close>

abbreviation takes_one :: "nat \<Rightarrow> 'a parser \<Rightarrow> bool" where
  "takes_one n p \<equiv> takes n (\<lambda>x. 1) p"

lemma takes_sub:
  assumes "takes_one n' p" and "n \<le> n'" and "\<And>x. takes (n - 1) (\<lambda>y. w y - 1) (f x)"
  shows "takes n w (sbind p f)"
  using takes_bind [OF takes_mono [OF assms(1,2) order_refl]] assms(3) .

lemma sbind_sret: "sbind m sret = m"
  by (rule ext) (simp add: sbind_def split: prod.splits sum.splits)

section \<open>Loops\<close>

text \<open>A loop body takes a token if it wants another round.\<close>

definition round_weight :: "'a option \<Rightarrow> nat" where
  "round_weight r = (case r of None \<Rightarrow> 0 | Some x \<Rightarrow> 1)"

lemma round_weight_simps [simp]: "round_weight None = 0" "round_weight (Some x) = 1" "round_weight r - 1 = 0"
  by (simp_all add: round_weight_def split: option.splits)

lemma loop_upto_takes:
  assumes "\<And>x. takes n round_weight (body x)"
  shows "stream s \<Longrightarrow> length s \<le> n \<Longrightarrow> length s < m \<Longrightarrow> outcome (\<lambda>x. 0) (length s) (loop_upto m body x s)"
proof (induction m arbitrary: x s)
  case (Suc m)
  obtain r s' where r: "body x s = (r, s')" by (cases "body x s")
  have b: "outcome round_weight (length s) (r, s')" using takesD [OF assms, of s x] Suc.prems r by simp
  show ?case
  proof (cases r)
    case (Inl e)
    then show ?thesis using r b by (simp add: sbind_def)
  next
    case (Inr z)
    show ?thesis
    proof (cases z)
      case None
      then show ?thesis using r b Inr by (simp add: sbind_def)
    next
      case (Some y)
      then have "stream s'" "length s' < length s" using b Inr by simp_all
      then have "outcome (\<lambda>x. 0) (length s') (loop_upto m body y s')" using Suc.prems by (intro Suc.IH) auto
      then have "outcome (\<lambda>x. 0) (length s) (loop_upto m body y s')"
        using \<open>length s' < length s\<close> by (auto intro: outcome_mono)
      then show ?thesis using r Inr Some by (simp add: sbind_def)
    qed
  qed
qed simp

lemma takes_loop:
  assumes "\<And>x. takes n round_weight (body x)"
  shows "takes n (\<lambda>x. 0) (loop body x)"
  using loop_upto_takes [of n body, OF assms] unfolding takes_def loop_def
  by (simp del: loop_upto.simps)

lemma takes_sub_loop:
  assumes "takes_one n p" and "\<And>x. takes n round_weight (body x)"
  shows "takes_one n (sbind p (loop body))"
  using assms takes_mono [OF takes_loop [OF assms(2)], of "n - 1" "\<lambda>x. 0"] by (intro takes_bind [OF assms(1)]) simp

lemma takes_when_match:
  assumes "ty \<noteq> T_EOF" and "takes (n - 1) (\<lambda>x. 0) p"
  shows "takes n round_weight (when_match ty p)"
  unfolding when_match_def
  using assms(1) by (intro takes_rules takes_bind [OF assms(2)]) simp_all

section \<open>Expressions\<close>

text \<open>Every level takes a token when the nested expressions do, which start behind a token of the level.\<close>

lemma takes_aggregate:
  assumes sub: "takes_one (n - 1) sub" and t: "tok_type t \<noteq> T_EOF"
  shows "takes_at n (\<lambda>x. 1) t (parse_aggregate sub)"
  unfolding parse_aggregate_def using t by (intro takes_rules takes_atI [OF takes_sub [OF sub]] takes_sub [OF sub]) auto

lemma takes_primary:
  assumes sub: "takes_one (n - 1) sub"
  shows "takes_one n (parse_primary sub)"
  unfolding parse_primary_def using takes_aggregate [OF sub]
  by (intro takes_rules takes_sub [OF sub]) (auto simp: is_aggregate_def)

lemma takes_unary:
  assumes sub: "takes_one (n - 1) sub"
  shows "takes_one n (parse_unary sub)"
  unfolding parse_unary_def
  by (intro takes_rules takes_sub [OF takes_primary [OF sub]] takes_atI [OF takes_primary [OF sub]]) auto

lemma takes_ops:
  assumes "takes_one n p"
  shows "takes n round_weight (parse_ops ops p left)"
  unfolding parse_ops_def by (intro takes_rules takes_sub [OF assms]) auto

lemma takes_multiplicative:
  assumes sub: "takes_one (n - 1) sub"
  shows "takes_one n (parse_multiplicative sub)"
proof -
  note u = takes_unary [OF sub]
  have m: "takes n round_weight (when_match T_STAR (sbind (parse_unary sub) (\<lambda>right. sret (BinaryOp ''*'' left right))))" for left
    by (intro takes_when_match takes_sub [OF u] takes_rules) simp_all
  show ?thesis unfolding parse_multiplicative_def
  proof (intro takes_sub_loop [OF u] takes_bind [OF takes_ops [OF u]])
    fix left r
    show "takes (n - round_weight r) (\<lambda>y. round_weight y - round_weight r)
       (case r of None \<Rightarrow> when_match T_STAR (sbind (parse_unary sub) (\<lambda>right. sret (BinaryOp ''*'' left right)))
        | Some e \<Rightarrow> sret (Some e))"
      using m by (cases r) (simp_all add: takes_sret)
  qed
qed

lemma takes_additive: "takes_one (n - 1) sub \<Longrightarrow> takes_one n (parse_additive sub)"
  unfolding parse_additive_def by (intro takes_sub_loop takes_ops takes_multiplicative)

lemma takes_comparison: "takes_one (n - 1) sub \<Longrightarrow> takes_one n (parse_comparison sub)"
  unfolding parse_comparison_def by (intro takes_sub_loop takes_ops takes_additive)

lemma takes_isnull:
  assumes sub: "takes_one (n - 1) sub"
  shows "takes_one n (parse_isnull sub)"
  unfolding parse_isnull_def
  by (intro takes_sub [OF takes_comparison [OF sub]] takes_rules) (auto simp: is_word_is_def)

lemma takes_not_upto: "takes_one (n - 1) sub \<Longrightarrow> takes_one n (parse_not_upto n sub)"
proof (induction n)
  case 0
  then show ?case by (auto simp: takes_def stream_def)
next
  case (Suc n)
  then have sub: "takes_one (n - 1) sub" by (auto elim: takes_mono)
  show ?case unfolding parse_not_upto.simps
    using takes_isnull [of "Suc n"] Suc.prems by (intro takes_rules takes_sub [OF Suc.IH [OF sub]]) auto
qed

lemma takes_not:
  assumes "takes_one (n - 1) sub"
  shows "takes_one n (parse_not sub)"
  unfolding takes_def
proof (intro allI impI)
  fix s assume s: "stream s \<and> length s \<le> n"
  then have "takes_one (length s - 1) sub" using assms by (auto elim: takes_mono)
  from takesD [OF takes_not_upto [OF this]] s show "outcome (\<lambda>x. 1) (length s) (parse_not sub s)"
    unfolding parse_not_def by blast
qed

lemma takes_chain:
  assumes "takes_one n p" and "ty \<noteq> T_EOF"
  shows "takes_one n (sbind p (loop (\<lambda>left. when_match ty (sbind p (\<lambda>right. sret (f left right))))))"
  using assms by (intro takes_sub_loop takes_when_match takes_sub [OF assms(1)] takes_rules) simp_all

lemma takes_or: "takes_one (n - 1) sub \<Longrightarrow> takes_one n (parse_or sub)"
  unfolding parse_or_def parse_and_def by (intro takes_chain takes_not) simp_all

lemma takes_expression_upto: "takes_one n (parse_expression_upto n)"
proof (induction n)
  case 0
  then show ?case by (auto simp: takes_def stream_def)
next
  case (Suc n)
  then show ?case using takes_or [of "Suc n"] by simp
qed

lemma takes_expression: "takes_one n parse_expression"
  using takesD [OF takes_expression_upto] by (simp add: takes_def parse_expression_def)

section \<open>Clauses and statements\<close>

lemma takes_sep_list:
  assumes "takes_one n p"
  shows "takes_one n (sep_list p)"
  unfolding sep_list_def
proof (intro takes_sub [OF assms order_refl])
  fix x
  have "takes n round_weight (when_match T_COMMA (sbind p (\<lambda>y. sret (xs @ [y]))))" for xs
    by (intro takes_when_match takes_sub [OF assms] takes_rules) simp_all
  from takes_loop [OF this] show "takes (n - 1) (\<lambda>y. 1 - 1)
     (loop (\<lambda>xs. when_match T_COMMA (sbind p (\<lambda>y. sret (xs @ [y])))) [x])"
    by (rule takes_mono) simp_all
qed

lemmas takes_expression_list = takes_sep_list [OF takes_expression, folded parse_expression_list_def]

lemma takes_zero: "takes_one n' p \<Longrightarrow> n \<le> n' \<Longrightarrow> (\<And>x. w x \<le> 1) \<Longrightarrow> takes n w p"
  by (rule takes_mono)

lemma takes_expect_name: "takes_one n expect_name"
  using takes_name [of n "\<lambda>x. 1" sret] by (simp add: takes_sret sbind_sret)

lemma takes_table_ref: "takes_one n parse_table_ref"
  unfolding parse_table_ref_def by (intro takes_rules) auto

lemma takes_join_type: "takes_one n parse_join_type"
  unfolding parse_join_type_def by (intro takes_rules) auto

text \<open>Loops over a state whose flag tells whether to go on.\<close>

lemma takes_names: "takes n (\<lambda>x. 0) parse_names"
proof -
  have "takes n round_weight ((\<lambda>(xs, go). if \<not> go then sret None else
       sbind (check T_IDENT) (\<lambda>b. if \<not> b then sret None else
       sbind (sbind advance str_of) (\<lambda>x.
       sbind (match T_COMMA) (\<lambda>c. sret (Some (xs @ [x], c)))))) st)" for st :: "string list \<times> bool"
    unfolding case_prod_unfold by (intro takes_rules) auto
  then show ?thesis
    unfolding parse_names_def by (rule takes_bind [OF takes_loop]) (simp add: takes_sret split: prod.split)
qed

lemma takes_join_clause: "takes_one n parse_join_clause"
  unfolding parse_join_clause_def
  by (intro takes_rules takes_sub [OF takes_join_type order_refl] takes_sub [OF takes_table_ref order_refl]
      takes_sub [OF takes_expression order_refl] takes_bind [OF takes_names]) auto

lemma takes_is_join [takes_rules]:
  "(\<And>t. takes_at n w t (f (tok_type t \<in> set join_keyword_types))) \<Longrightarrow> takes n w (sbind is_join_keyword f)"
  unfolding is_join_keyword_def by (intro takes_rules)

lemma takes_join_clauses: "takes n (\<lambda>x. 0) parse_join_clauses"
  unfolding parse_join_clauses_def
  by (intro takes_loop takes_rules takes_atI [OF takes_sub [OF takes_join_clause order_refl]]) simp_all

lemma takes_when_check:
  assumes "takes_one n p"
  shows "takes n (\<lambda>x. 0) (when_check ty p)"
  unfolding when_check_def by (intro takes_rules takes_atI [OF takes_sub [OF assms order_refl]]) simp_all

lemma takes_when: "ty \<noteq> T_EOF \<Longrightarrow> takes_one n p \<Longrightarrow> takes n (\<lambda>x. 0) (when_match ty p)"
  by (rule takes_mono [OF takes_when_match]) (auto elim: takes_mono)

lemma takes_group_by: "takes_one n parse_group_by"
  unfolding parse_group_by_def by (intro takes_rules takes_zero [OF takes_expression_list]) auto

lemma takes_direction: "takes_one n parse_direction"
  unfolding parse_direction_def by (intro takes_rules takes_sub [OF takes_expression order_refl]) auto

lemma takes_order_by: "takes_one n parse_order_by"
  unfolding parse_order_by_def by (intro takes_rules takes_zero [OF takes_sep_list [OF takes_direction]]) auto

lemma takes_limit: "takes_one n parse_limit" "takes_one n parse_offset"
  unfolding parse_limit_def parse_offset_def by (intro takes_rules; simp)+

lemma takes_select_columns: "takes_one n parse_select_columns"
  unfolding parse_select_columns_def
  by (intro takes_rules takes_atI [OF takes_expression_list]) auto

lemma takes_select: "takes_one n parse_select"
  unfolding parse_select_def parse_where_def
  by (intro takes_rules takes_sub [OF takes_select_columns order_refl] takes_sub [OF takes_table_ref order_refl]
      takes_bind [OF takes_join_clauses] takes_bind [OF takes_when [OF _ takes_expression]]
      takes_bind [OF takes_when_check [OF takes_group_by]] takes_bind [OF takes_when_check [OF takes_order_by]]
      takes_bind [OF takes_when [OF _ takes_limit(1)]] takes_bind [OF takes_when [OF _ takes_limit(2)]]) auto

lemma takes_value_lists: "takes_one n parse_value_lists"
  unfolding parse_value_lists_def parse_value_list_def
  by (intro takes_sep_list takes_rules takes_sub [OF takes_expression_list order_refl]) auto

lemma takes_insert: "takes_one n parse_insert"
proof -
  have "takes m (\<lambda>x. 0) (when_match T_LPAREN (sbind parse_names (\<lambda>cols. sbind (expect T_RPAREN) (\<lambda>_. sret cols))))" for m
  proof (rule takes_mono [OF takes_when_match])
    show "takes (m - 1) (\<lambda>x. 0) (sbind parse_names (\<lambda>cols. sbind (expect T_RPAREN) (\<lambda>_. sret cols)))"
      by (intro takes_bind [OF takes_names] takes_rules) simp_all
  qed simp_all
  then show ?thesis unfolding parse_insert_def
    by (intro takes_rules takes_bind [where v = "\<lambda>x. 0"] takes_sub [OF takes_value_lists order_refl]) auto
qed

lemma takes_assignment_list: "takes_one n parse_assignment_list"
proof -
  have eq: "takes m w (sbind expect_eq f)" if "takes (m - 1) (\<lambda>x. w x - 1) (f ())" for m w and f :: "unit \<Rightarrow> (string \<times> expr) parser"
    unfolding expect_eq_def using that by (intro takes_rules) auto
  show ?thesis unfolding parse_assignment_list_def parse_assignment_def
    by (intro takes_sep_list takes_rules eq takes_sub [OF takes_expression order_refl]) auto
qed

lemma takes_update: "takes_one n parse_update"
  unfolding parse_update_def parse_where_def
  by (intro takes_rules takes_sub [OF takes_assignment_list order_refl] takes_bind [OF takes_when [OF _ takes_expression]]) auto

lemma takes_delete: "takes_one n parse_delete"
  unfolding parse_delete_def parse_where_def
  by (intro takes_rules takes_bind [OF takes_when [OF _ takes_expression]]) auto

lemma takes_constraint: "takes n round_weight (parse_constraint col)"
  unfolding parse_constraint_def by (intro takes_rules) auto

text \<open>The type of a column is whatever token comes next; the end mark is not a string.\<close>

lemma takes_any:
  assumes "\<And>t. takes n w (f t)"
  shows "takes n w (sbind advance f)"
  unfolding takes_def
proof (intro allI impI)
  fix s assume s: "stream s \<and> length s \<le> n"
  then obtain t ts where ts: "s = t # ts" by (cases s) (auto simp: stream_def)
  define s' where "s' = (if ts = [] then s else ts)"
  have e: "sbind advance f s = f t s'" using ts by (simp add: sbind_def advance_def s'_def)
  have "stream s'" using s ts by (cases ts) (simp_all add: s'_def stream_def)
  moreover have l: "length s' \<le> length s" using ts by (simp add: s'_def)
  ultimately have "outcome w (length s') (f t s')" using s by (intro takesD [OF assms]) auto
  then show "outcome w (length s) (sbind advance f s)"
    unfolding e by (rule outcome_mono) (use l in simp)
qed

lemma takes_column_definition:
  "tok_type t \<noteq> T_EOF \<Longrightarrow> (\<And>c. takes (n - 1) (\<lambda>x. w x - 1) (f c)) \<Longrightarrow> takes_at n w t (sbind parse_column_definition f)"
  unfolding parse_column_definition_def
  by (intro takes_rules takes_any takes_bind [OF takes_loop [OF takes_constraint]]) simp_all

lemma takes_column_definitions: "takes n (\<lambda>x. 0) parse_column_definitions"
proof -
  have "takes n round_weight ((\<lambda>(cols, go). if \<not> go then sret None else
       sbind (check T_IDENT) (\<lambda>b. if \<not> b then sret None else
       sbind parse_column_definition (\<lambda>col.
       sbind (match T_COMMA) (\<lambda>c. sret (Some (cols @ [col], c)))))) st)" for st :: "ColumnDefAST list \<times> bool"
    unfolding case_prod_unfold by (intro takes_rules takes_column_definition) auto
  then show ?thesis
    unfolding parse_column_definitions_def by (rule takes_bind [OF takes_loop]) (simp add: takes_sret split: prod.split)
qed

lemma takes_create: "takes_one n parse_create"
  unfolding parse_create_def by (intro takes_rules takes_bind [OF takes_column_definitions]) auto

lemma takes_drop: "takes_one n parse_drop"
  unfolding parse_drop_def by (intro takes_rules takes_zero [OF takes_expect_name]) auto

lemma takes_statement: "takes_one n parse_statement"
  unfolding parse_statement_def
proof (rule takes_peek)
  fix t
  have r: "takes_at n (\<lambda>x. 1) t (sbind p (\<lambda>x. sret (c x)))" if "takes_one n p" for p :: "'a parser" and c :: "'a \<Rightarrow> statement"
    by (intro takes_atI [OF takes_sub [OF that order_refl]] takes_sret) simp
  show "takes_at n (\<lambda>x. 1) t (case tok_type t of
       T_SELECT \<Rightarrow> sbind parse_select (\<lambda>x. sret (Select x))
     | T_INSERT \<Rightarrow> sbind parse_insert (\<lambda>x. sret (Insert x))
     | T_UPDATE \<Rightarrow> sbind parse_update (\<lambda>x. sret (Update x))
     | T_DELETE \<Rightarrow> sbind parse_delete (\<lambda>x. sret (Delete x))
     | T_CREATE \<Rightarrow> sbind parse_create (\<lambda>x. sret (CreateTable x))
     | T_DROP \<Rightarrow> sbind parse_drop (\<lambda>x. sret (DropTable x))
     | _ \<Rightarrow> fail_at t)"
    using r [OF takes_select] r [OF takes_insert] r [OF takes_update] r [OF takes_delete] r [OF takes_create]
      r [OF takes_drop] by (simp add: takes_at_fail split: TokenType.split)
qed

lemma parse_stream:
  assumes "stream ts"
  shows "case parse ts of Inl e \<Rightarrow> parse_error e | Inr stmt \<Rightarrow> True"
proof -
  have "parse_error e" if "expect T_EOF s = (Inl e, s')" "stream s" for e s s'
    using that by (auto simp: expect_def sbind_def peek_stream fail_at_def parse_error_def advance_def stream_def
        split: if_splits list.splits)
  moreover have "outcome (\<lambda>x. 1) (length ts) (parse_statement ts)"
    using takesD [OF takes_statement assms order_refl] .
  ultimately show ?thesis
    by (auto simp: parse_def sbind_def outcome_def split: prod.splits sum.splits)
qed

section \<open>From the text\<close>

lemma laid_out_stream: "laid_out before ts rest \<Longrightarrow> stream ts"
proof (induction before ts rest rule: laid_out.induct)
  case (2 before t ts rest)
  from "2.prems" obtain w after where
    l: "if tok_type t = T_EOF then ts = [] else laid_out (before @ w @ tok_text t) ts after" by auto
  show ?case
  proof (cases "tok_type t = T_EOF")
    case True
    with l show ?thesis by (simp add: stream_def)
  next
    case False
    with l have "stream ts" using "2.IH" by simp
    with False show ?thesis by (auto simp: stream_def)
  qed
qed simp

lemma scan_token_error:
  assumes "scan_token c s = Inl e"
  shows "e = ValueError \<or> (\<exists>l k. e = LexerError l k)"
proof -
  have n: "e = ValueError" if "scan_number s = Inl e"
    using that unfolding scan_number_def Let_def float_of_text_def int_of_text_def by (simp split: if_split_asm)
  have w: "\<exists>l k. e = LexerError l k" if "scan_not_equal s = Inl e"
    using that unfolding scan_not_equal_def by (auto split: if_split_asm)
  have t: "\<exists>l k. e = LexerError l k" if "scan_string s = Inl e"
    using that unfolding scan_string_def Let_def by (auto split: if_split_asm)
  have "LexerError (lx_line s) (lx_col s) = e \<Longrightarrow> \<exists>l k. e = LexerError l k" by blast
  then show ?thesis using assms n w t unfolding scan_token_def by (simp split: if_split_asm)
qed

lemma lex_loop_error: "lex_loop s = Inl e \<Longrightarrow> e = ValueError \<or> (\<exists>l k. e = LexerError l k)"
proof (induction s rule: lex_loop.induct)
  case (1 s)
  show ?case
  proof (cases "lx_rest (skip_whitespace s)")
    case Nil
    then show ?thesis using "1.prems" by (subst (asm) lex_loop.simps) (simp add: Let_def)
  next
    case (Cons c cs)
    show ?thesis
    proof (cases "scan_token c (skip_whitespace s)")
      case (Inl e')
      then have "e' = e" using "1.prems" Cons by (subst (asm) lex_loop.simps) (simp add: Let_def)
      then show ?thesis using scan_token_error Inl by blast
    next
      case (Inr tu)
      obtain t u where tu: "tu = (t, u)" by (cases tu)
      have "lex_loop u = Inl e"
        using "1.prems" Cons Inr tu by (subst (asm) lex_loop.simps) (auto simp: Let_def rbind_Inl_iff)
      from "1.IH" [OF refl Cons Inr tu [symmetric] this] show ?thesis .
    qed
  qed
qed

text \<open>
  C28. Lexing and parsing end on every text: with a statement, with a syntax error that carries a
  position, or with one of two exceptions that are none: \<open>AttributeError\<close>, when a column is given a
  number as its type, and \<open>ValueError\<close>, for digits \<open>int\<close> does not read.
\<close>

theorem parse_ends:
  "case parse_sql sql of
     Inr stmt \<Rightarrow> True
   | Inl e \<Rightarrow> e \<in> {AttributeError, ValueError} \<or> (\<exists>l c. e = LexerError l c \<or> e = ParserError l c)"
proof (cases "tokenize sql")
  case (Inl e)
  then show ?thesis using lex_loop_error [of _ e] by (auto simp: parse_sql_def tokenize_def)
next
  case (Inr ts)
  then have "stream ts" using lex_loop_laid_out [of _ ts "''''"] laid_out_stream
    by (fastforce simp: tokenize_def line_col_def)
  from parse_stream [OF this] Inr show ?thesis
    by (auto simp: parse_sql_def parse_error_def split: sum.splits)
qed

text \<open>Both of the odd exceptions occur.\<close>

lemmas parser_eval = parse_sql_def parse_def parse_statement_def parse_create_def parse_column_definitions_def
  parse_column_definition_def loop_def check_def match_def expect_def expect_name_def peek_def advance_def str_of_def
  fail_at_def sbind_def

lemma number_as_type_is_attribute_error:
  "parse_sql ''CREATE TABLE t (a 5)'' = Inl AttributeError"
  by (simp add: lexer_eval sql_keywords_def parser_eval eval_nat_numeral Let_def nat_of_str_def digit_value_def)

lemma superscript_is_value_error: "tokenize [CHR 0xB2] = Inl ValueError"
  by (simp add: lexer_eval Let_def)

end
