(* ===== verification/Parser_Print.thy ===== *)
theory Parser_Print
  imports Parser_Ends
begin

text \<open>
  A printer for expressions and the round trip through lexer and parser: every operator in
  parentheses, every token followed by a space.
\<close>

section \<open>The printer\<close>

definition tok :: "TokenType \<Rightarrow> pval \<Rightarrow> string \<Rightarrow> Token" where
  "tok ty v w = \<lparr>tok_type = ty, tok_value = v, tok_line = 0, tok_column = 0, tok_offset = 0, tok_text = w\<rparr>"

lemma tok_simps [simp]: "tok_type (tok ty v w) = ty" "tok_value (tok ty v w) = v" "tok_text (tok ty v w) = w"
  by (simp_all add: tok_def)

definition word_tok :: "TokenType \<Rightarrow> string \<Rightarrow> Token" where
  "word_tok ty w = tok ty (PStr w) w"

definition in_parens :: "Token list \<Rightarrow> Token list" where
  "in_parens ts = word_tok T_LPAREN ''('' # ts @ [word_tok T_RPAREN '')'']"

fun literal_token :: "pval \<Rightarrow> Token" where
  "literal_token PNone = word_tok T_NULL ''NULL''"
| "literal_token (PBool b) = tok T_BOOL_LIT (PBool b) (if b then ''TRUE'' else ''FALSE'')"
| "literal_token (PInt i) = tok T_INT_LIT (PInt i) (nat_str (nat i))"
| "literal_token (PStr w) = tok T_STR_LIT (PStr w) (CHR 0x27 # w @ [CHR 0x27])"
| "literal_token v = tok T_FLOAT_LIT v []"

definition op_token :: "string \<Rightarrow> Token" where
  "op_token op = word_tok
     (if op = ''AND'' then T_AND else if op = ''OR'' then T_OR else if op = ''*'' then T_STAR else T_OP) op"

fun expr_tokens :: "expr \<Rightarrow> Token list" where
  "expr_tokens (Literal v) = [literal_token v]"
| "expr_tokens (ColumnRef a None) = [word_tok T_IDENT a]"
| "expr_tokens (ColumnRef a (Some t)) = [word_tok T_IDENT t, word_tok T_DOT ''.'', word_tok T_IDENT a]"
| "expr_tokens StarExpr = [word_tok T_STAR ''*'']"
| "expr_tokens (BinaryOp op l r) = in_parens (expr_tokens l @ op_token op # expr_tokens r)"
| "expr_tokens (UnaryOp op e) = in_parens ((if op = ''NOT'' then word_tok T_NOT op else word_tok T_OP op) # expr_tokens e)"
| "expr_tokens (AggregateExpr f arg d) = word_tok T_IDENT f # in_parens (expr_tokens arg)"
| "expr_tokens (IsNullExpr e neg) =
     in_parens (expr_tokens e @ [word_tok T_IDENT ''IS''] @ (if neg then [word_tok T_NOT ''NOT''] else []) @
       [word_tok T_NULL ''NULL''])"

text \<open>Expressions that can be written down: names are words but no keywords, integers are not negative.\<close>

definition aggregate_names :: "string set" where
  "aggregate_names = {''COUNT'', ''SUM'', ''AVG''}"

definition is_name :: "string \<Rightarrow> bool" where
  "is_name w \<longleftrightarrow> w \<noteq> [] \<and> (is_alpha (hd w) \<or> hd w = CHR ''_'') \<and> list_all word_char w \<and> map_of sql_keywords (upper w) = None"

fun literal_ok :: "pval \<Rightarrow> bool" where
  "literal_ok (PInt i) = (0 \<le> i \<and> length (nat_str (nat i)) \<le> 4300)"
| "literal_ok (PStr w) = (CHR 0x27 \<notin> set w)"
| "literal_ok (PBool b) = True"
| "literal_ok PNone = True"
| "literal_ok v = False"

definition binary_ops :: "string list" where
  "binary_ops = [''AND'', ''OR'', ''*'', ''/'', ''+'', ''-''] @ comp_ops"

fun printable :: "expr \<Rightarrow> bool" where
  "printable (Literal v) = literal_ok v"
| "printable (ColumnRef a None) = (is_name a \<and> upper a \<notin> aggregate_names)"
| "printable (ColumnRef a (Some t)) = (is_name a \<and> is_name t \<and> upper t \<notin> aggregate_names)"
| "printable StarExpr = False"
| "printable (BinaryOp op l r) = (op \<in> set binary_ops \<and> printable l \<and> printable r)"
| "printable (UnaryOp op e) = (op \<in> {''NOT'', ''-''} \<and> printable e)"
| "printable (AggregateExpr f arg d) = (f \<in> aggregate_names \<and> \<not> d \<and> (arg = StarExpr \<or> printable arg))"
| "printable (IsNullExpr e neg) = printable e"

section \<open>Where the levels of the grammar stop\<close>

text \<open>The level whose loop consumes a token; 7 for the tokens that end every expression.\<close>

definition tok_level :: "Token \<Rightarrow> nat" where
  "tok_level t = (case tok_type t of
     T_STAR \<Rightarrow> 1
   | T_OP \<Rightarrow> (if tok_value t = PStr ''/'' then 1 else if tok_value t \<in> {PStr ''+'', PStr ''-''} then 2 else 3)
   | T_IDENT \<Rightarrow> 4 | T_AND \<Rightarrow> 5 | T_OR \<Rightarrow> 6 | _ \<Rightarrow> 7)"

definition beyond :: "nat \<Rightarrow> Token list \<Rightarrow> bool" where
  "beyond k s \<longleftrightarrow> s \<noteq> [] \<and> k < tok_level (hd s)"

lemma beyond_mono: "beyond k s \<Longrightarrow> j \<le> k \<Longrightarrow> beyond j s"
  by (simp add: beyond_def)

lemma beyondD:
  assumes "beyond k s"
  shows "s \<noteq> []" and "1 \<le> k \<Longrightarrow> tok_type (hd s) \<noteq> T_STAR"
    and "1 \<le> k \<Longrightarrow> \<not> (tok_type (hd s) = T_OP \<and> tok_value (hd s) \<in> PStr ` set [''/''])"
    and "2 \<le> k \<Longrightarrow> \<not> (tok_type (hd s) = T_OP \<and> tok_value (hd s) \<in> PStr ` set [''+'', ''-''])"
    and "3 \<le> k \<Longrightarrow> tok_type (hd s) \<noteq> T_OP" and "4 \<le> k \<Longrightarrow> tok_type (hd s) \<noteq> T_IDENT"
    and "5 \<le> k \<Longrightarrow> tok_type (hd s) \<noteq> T_AND" and "6 \<le> k \<Longrightarrow> tok_type (hd s) \<noteq> T_OR"
  using assms unfolding beyond_def tok_level_def by (auto split: if_splits)

lemma parser_steps:
  "s \<noteq> [] \<Longrightarrow> peek s = (Inr (hd s), s)"
  "s \<noteq> [] \<Longrightarrow> check ty s = (Inr (tok_type (hd s) = ty), s)"
  "s \<noteq> [] \<Longrightarrow> peek_word ty ws s = (Inr (tok_type (hd s) = ty \<and> tok_value (hd s) \<in> PStr ` set ws), s)"
  "s \<noteq> [] \<Longrightarrow> advance (t # s) = (Inr t, s)"
  "s \<noteq> [] \<Longrightarrow> tok_type (hd s) \<noteq> ty \<Longrightarrow> match ty s = (Inr False, s)"
  "s \<noteq> [] \<Longrightarrow> tok_type t = ty \<Longrightarrow> match ty (t # s) = (Inr True, s)"
  "s \<noteq> [] \<Longrightarrow> tok_type t = ty \<Longrightarrow> expect ty (t # s) = (Inr t, s)"
  "str_of (word_tok ty w) s = (Inr w, s)"
  by (cases s; simp add: peek_def check_def peek_word_def advance_def match_def expect_def str_of_def word_tok_def sbind_def)+

lemma loop_stop:
  assumes "p s = (Inr x, t)" and "body x t = (Inr None, t)"
  shows "sbind p (loop body) s = (Inr x, t)"
  using assms by (simp add: sbind_def loop_def)

lemma loop_once:
  assumes "p s = (Inr x, t)" and "t \<noteq> []" and "body x t = (Inr (Some y), u)" and "body y u = (Inr None, u)"
  shows "sbind p (loop body) s = (Inr y, u)"
  using assms by (cases t) (simp_all add: sbind_def loop_def)

lemma when_match_stop: "s \<noteq> [] \<Longrightarrow> tok_type (hd s) \<noteq> ty \<Longrightarrow> when_match ty p s = (Inr None, s)"
  by (simp add: when_match_def sbind_def parser_steps)

lemma parse_ops_stop: "s \<noteq> [] \<Longrightarrow> \<not> (tok_type (hd s) = T_OP \<and> tok_value (hd s) \<in> PStr ` set ops) \<Longrightarrow>
    parse_ops ops p x s = (Inr None, s)"
proof -
  assume a: "s \<noteq> []" "\<not> (tok_type (hd s) = T_OP \<and> tok_value (hd s) \<in> PStr ` set ops)"
  have "peek_word T_OP ops s = (Inr False, s)" using parser_steps(3) [OF a(1), of T_OP ops] a(2) by (simp only:)
  then show ?thesis by (simp add: parse_ops_def sbind_def)
qed

lemma parse_ops_step:
  assumes "op \<in> set ops" and "s \<noteq> []" and "p s = (Inr r, t)"
  shows "parse_ops ops p l (word_tok T_OP op # s) = (Inr (Some (BinaryOp op l r)), t)"
  using assms by (simp add: parse_ops_def sbind_def parser_steps str_of_def word_tok_def)

lemma when_match_step:
  "s \<noteq> [] \<Longrightarrow> tok_type t = ty \<Longrightarrow> p s = (Inr x, u) \<Longrightarrow> when_match ty p (t # s) = (Inr (Some x), u)"
  by (simp add: when_match_def sbind_def parser_steps)

text \<open>Passing a level: what the level below returns, the level returns, if its own operators do not follow.\<close>

lemma multiplicative_pass:
  "parse_unary sub s = (Inr e, t) \<Longrightarrow> beyond 1 t \<Longrightarrow> parse_multiplicative sub s = (Inr e, t)"
  unfolding parse_multiplicative_def
  by (rule loop_stop) (simp_all add: sbind_def parse_ops_stop when_match_stop beyondD del: list.set)

lemma additive_pass:
  "parse_multiplicative sub s = (Inr e, t) \<Longrightarrow> beyond 2 t \<Longrightarrow> parse_additive sub s = (Inr e, t)"
  unfolding parse_additive_def
  by (rule loop_stop) (simp_all add: parse_ops_stop beyondD del: list.set)

lemma comparison_pass:
  "parse_additive sub s = (Inr e, t) \<Longrightarrow> beyond 3 t \<Longrightarrow> parse_comparison sub s = (Inr e, t)"
  unfolding parse_comparison_def
  by (rule loop_stop) (simp_all add: parse_ops_stop beyondD del: list.set)

lemma isnull_pass:
  "parse_comparison sub s = (Inr e, t) \<Longrightarrow> beyond 4 t \<Longrightarrow> parse_isnull sub s = (Inr e, t)"
  by (simp add: parse_isnull_def sbind_def parser_steps is_word_is_def beyondD)

lemma not_pass:
  "parse_isnull sub s = (Inr e, t) \<Longrightarrow> s \<noteq> [] \<Longrightarrow> tok_type (hd s) \<noteq> T_NOT \<Longrightarrow> parse_not sub s = (Inr e, t)"
  by (cases s) (simp_all add: parse_not_def sbind_def parser_steps)

lemma and_pass: "parse_not sub s = (Inr e, t) \<Longrightarrow> beyond 5 t \<Longrightarrow> parse_and sub s = (Inr e, t)"
  unfolding parse_and_def by (rule loop_stop) (simp_all add: when_match_stop beyondD)

lemma or_pass: "parse_and sub s = (Inr e, t) \<Longrightarrow> beyond 6 t \<Longrightarrow> parse_or sub s = (Inr e, t)"
  unfolding parse_or_def by (rule loop_stop) (simp_all add: when_match_stop beyondD)

section \<open>Operators\<close>

lemma binary_step:
  assumes op: "op \<in> set binary_ops" and l: "parse_unary sub s = (Inr l, op_token op # u)"
    and r: "parse_unary sub u = (Inr r, t)" and t: "beyond 6 t"
    and n: "s \<noteq> []" "tok_type (hd s) \<noteq> T_NOT" "u \<noteq> []" "tok_type (hd u) \<noteq> T_NOT"
  shows "parse_or sub s = (Inr (BinaryOp op l r), t)"
proof -
  have b: "beyond k t" if "k \<le> 6" for k using t that by (rule beyond_mono)
  note up = or_pass [OF and_pass [OF not_pass [OF isnull_pass [OF comparison_pass [OF additive_pass]]]]]
  show ?thesis
  proof -
    consider "op = ''AND''" | "op = ''OR''" | "op = ''*''" | "op = ''/''" | "op \<in> set [''+'', ''-'']" | "op \<in> set comp_ops"
      using op by (auto simp: binary_ops_def)
    then show ?thesis
    proof cases
      case 1
      have k: "beyond j (op_token op # u)" if "j \<le> 4" for j
        using that 1 by (simp add: beyond_def tok_level_def op_token_def word_tok_def)
      have "parse_not sub s = (Inr l, op_token op # u)"
        using l n k by (intro not_pass isnull_pass comparison_pass additive_pass multiplicative_pass) simp_all
      moreover have "parse_not sub u = (Inr r, t)"
        using r n b by (intro not_pass isnull_pass comparison_pass additive_pass multiplicative_pass) simp_all
      ultimately have "parse_and sub s = (Inr (BinaryOp op l r), t)"
        unfolding parse_and_def using n 1 beyondD [OF t]
        by (intro loop_once [of "parse_not sub" s l "op_token op # u"]) (simp_all add: when_match_stop when_match_step sbind_def op_token_def word_tok_def)
      then show ?thesis using b by (intro or_pass) simp_all
    next
      case 2
      have k: "beyond j (op_token op # u)" if "j \<le> 5" for j
        using that 2 by (simp add: beyond_def tok_level_def op_token_def word_tok_def)
      have "parse_and sub s = (Inr l, op_token op # u)"
        using l n k by (intro and_pass not_pass isnull_pass comparison_pass additive_pass multiplicative_pass) simp_all
      moreover have "parse_and sub u = (Inr r, t)"
        using r n b by (intro and_pass not_pass isnull_pass comparison_pass additive_pass multiplicative_pass) simp_all
      ultimately show ?thesis
        unfolding parse_or_def using n 2 beyondD [OF t]
        by (intro loop_once [of "parse_and sub" s l "op_token op # u"]) (simp_all add: when_match_stop when_match_step sbind_def op_token_def word_tok_def)
    next
      case 3
      have "parse_multiplicative sub s = (Inr (BinaryOp op l r), t)"
        unfolding parse_multiplicative_def using l r n 3 beyondD [OF t]
        by (intro loop_once [of "parse_unary sub" s l "op_token op # u"])
          (simp_all add: when_match_stop when_match_step parse_ops_stop sbind_def op_token_def word_tok_def del: list.set)
      then show ?thesis using b n by (intro up) simp_all
    next
      case 4
      have "parse_multiplicative sub s = (Inr (BinaryOp op l r), t)"
        unfolding parse_multiplicative_def using l r n 4 beyondD [OF t]
        by (intro loop_once [of "parse_unary sub" s l "op_token op # u"])
          (simp_all add: when_match_stop parse_ops_step parse_ops_stop sbind_def op_token_def)
      then show ?thesis using b n by (intro up) simp_all
    next
      case 5
      then have o: "op_token op = word_tok T_OP op" by (auto simp: op_token_def)
      have k: "beyond 1 (op_token op # u)"
        using 5 by (auto simp: beyond_def tok_level_def o word_tok_def)
      have "parse_multiplicative sub s = (Inr l, op_token op # u)"
        using l k by (intro multiplicative_pass) simp_all
      moreover have "parse_multiplicative sub u = (Inr r, t)"
        using r b by (intro multiplicative_pass) simp_all
      ultimately have "parse_additive sub s = (Inr (BinaryOp op l r), t)"
        unfolding parse_additive_def o using n beyondD [OF t]
        by (intro loop_once [of "parse_multiplicative sub" s l "word_tok T_OP op # u"]) (simp_all add: parse_ops_step [OF 5] parse_ops_stop)
      then show ?thesis using b n by (intro or_pass and_pass not_pass isnull_pass comparison_pass) simp_all
    next
      case 6
      then have o: "op_token op = word_tok T_OP op" by (auto simp: op_token_def comp_ops_def)
      have k: "beyond j (op_token op # u)" if "j \<le> 2" for j
        using 6 that by (auto simp: beyond_def tok_level_def o word_tok_def comp_ops_def)
      have "parse_additive sub s = (Inr l, op_token op # u)"
        using l k by (intro additive_pass multiplicative_pass) simp_all
      moreover have "parse_additive sub u = (Inr r, t)"
        using r b by (intro additive_pass multiplicative_pass) simp_all
      ultimately have "parse_comparison sub s = (Inr (BinaryOp op l r), t)"
        unfolding parse_comparison_def o using n beyondD [OF t]
        by (intro loop_once [of "parse_additive sub" s l "word_tok T_OP op # u"]) (simp_all add: parse_ops_step [OF 6] parse_ops_stop)
      then show ?thesis using b n by (intro or_pass and_pass not_pass isnull_pass) simp_all
    qed
  qed
qed

lemma unary_pass: "parse_primary sub s = (Inr e, t) \<Longrightarrow> s \<noteq> [] \<Longrightarrow> tok_type (hd s) \<noteq> T_OP \<Longrightarrow> parse_unary sub s = (Inr e, t)"
  by (simp add: parse_unary_def sbind_def parser_steps)

text \<open>The first token of a printed expression is a literal, a word or a parenthesis.\<close>

lemma expr_tokens_hd:
  "expr_tokens e \<noteq> []"
  "printable e \<Longrightarrow> tok_type (hd (expr_tokens e)) \<in> {T_INT_LIT, T_STR_LIT, T_BOOL_LIT, T_NULL, T_IDENT, T_LPAREN}"
  by (cases e rule: expr_tokens.cases; auto simp: in_parens_def word_tok_def elim!: literal_ok.elims)+

section \<open>Reading a printed expression\<close>

lemma paren_primary:
  assumes "sub s = (Inr e, word_tok T_RPAREN '')'' # t)" and "s \<noteq> []" and "t \<noteq> []"
  shows "parse_primary sub (word_tok T_LPAREN ''('' # s) = (Inr e, t)"
  using assms by (simp add: parse_primary_def sbind_def parser_steps is_aggregate_def word_tok_def)

text \<open>What the induction shows of an expression; the bound on the nesting is the number of its tokens.\<close>

definition reads :: "expr \<Rightarrow> bool" where
  "reads e \<longleftrightarrow> (\<forall>n t. length (expr_tokens e) \<le> n \<and> t \<noteq> [] \<and> tok_type (hd t) \<noteq> T_DOT \<longrightarrow>
     parse_primary (parse_expression_upto n) (expr_tokens e @ t) = (Inr e, t))"

lemma reads_unary:
  assumes "reads e" and "printable e" and "length (expr_tokens e) \<le> n" and "t \<noteq> []" and "tok_type (hd t) \<noteq> T_DOT"
  shows "parse_unary (parse_expression_upto n) (expr_tokens e @ t) = (Inr e, t)"
  using assms expr_tokens_hd [of e] by (intro unary_pass) (auto simp: reads_def)

lemma reads_isnull:
  assumes "reads e" and "printable e" and "length (expr_tokens e) \<le> n" and "beyond 3 t" and "tok_type (hd t) \<noteq> T_DOT"
  shows "parse_comparison (parse_expression_upto n) (expr_tokens e @ t) = (Inr e, t)"
  using assms beyond_mono [OF assms(4)] beyondD(1) [OF assms(4)]
  by (intro comparison_pass additive_pass multiplicative_pass reads_unary) (simp_all add: beyondD)

lemma reads_not:
  assumes "reads e" and "printable e" and "length (expr_tokens e) \<le> n" and "beyond 4 t" and "tok_type (hd t) \<noteq> T_DOT"
  shows "parse_not (parse_expression_upto n) (expr_tokens e @ t) = (Inr e, t)"
  using assms beyond_mono [OF assms(4)] expr_tokens_hd [of e]
  by (intro not_pass isnull_pass reads_isnull) auto

lemma reads_expression:
  assumes "reads e" and "printable e" and "length (expr_tokens e) \<le> n" and "beyond 6 t" and "tok_type (hd t) \<noteq> T_DOT"
  shows "parse_or (parse_expression_upto n) (expr_tokens e @ t) = (Inr e, t)"
  using assms beyond_mono [OF assms(4)] by (intro or_pass and_pass reads_not) simp_all

lemma name_not_aggregate: "upper w \<notin> aggregate_names \<Longrightarrow> \<not> is_aggregate (word_tok T_IDENT w)"
  by (simp add: is_aggregate_def word_tok_def aggregate_names_def)

lemma beyond_RPAREN: "k \<le> 6 \<Longrightarrow> beyond k (word_tok T_RPAREN '')'' # t)"
  by (simp add: beyond_def tok_level_def word_tok_def)

lemma reads_expr: "printable e \<Longrightarrow> reads e"
proof (induction e rule: expr_tokens.induct)
  case (1 v)
  then show ?case
    by (cases v) (auto simp: reads_def parse_primary_def sbind_def parser_steps word_tok_def)
next
  case (2 a)
  then show ?case using name_not_aggregate [of a]
    by (auto simp: reads_def parse_primary_def sbind_def parser_steps word_tok_def str_of_def)
next
  case (3 a t)
  then show ?case using name_not_aggregate [of t]
    by (auto simp: reads_def parse_primary_def sbind_def parser_steps word_tok_def str_of_def expect_name_def)
next
  case 4
  then show ?case by simp
next
  case (5 op l r)
  show ?case unfolding reads_def
  proof (intro allI impI)
    fix n and t :: "Token list" assume n: "length (expr_tokens (BinaryOp op l r)) \<le> n \<and> t \<noteq> [] \<and> tok_type (hd t) \<noteq> T_DOT"
    then obtain m where m: "n = Suc m" "length (expr_tokens l) \<le> m" "length (expr_tokens r) \<le> m"
      by (cases n) (simp_all add: in_parens_def)
    let ?u = "expr_tokens r @ word_tok T_RPAREN '')'' # t"
    have dot: "tok_type (op_token op) \<noteq> T_DOT" by (simp add: op_token_def word_tok_def)
    have "parse_or (parse_expression_upto m) (expr_tokens l @ op_token op # ?u) = (Inr (BinaryOp op l r), word_tok T_RPAREN '')'' # t)"
    proof (rule binary_step)
      show "parse_unary (parse_expression_upto m) (expr_tokens l @ op_token op # ?u) = (Inr l, op_token op # ?u)"
        using 5 m dot by (intro reads_unary) simp_all
      show "parse_unary (parse_expression_upto m) ?u = (Inr r, word_tok T_RPAREN '')'' # t)"
        using 5 m by (intro reads_unary) (simp_all add: word_tok_def)
    qed (use 5 expr_tokens_hd [of l] expr_tokens_hd [of r] in \<open>auto simp: beyond_RPAREN\<close>)
    then show "parse_primary (parse_expression_upto n) (expr_tokens (BinaryOp op l r) @ t) = (Inr (BinaryOp op l r), t)"
      unfolding m(1) using n paren_primary [of "parse_expression_upto (Suc m)"] by (simp add: in_parens_def)
  qed
next
  case (6 op e)
  show ?case unfolding reads_def
  proof (intro allI impI)
    fix n and t :: "Token list" assume n: "length (expr_tokens (UnaryOp op e)) \<le> n \<and> t \<noteq> [] \<and> tok_type (hd t) \<noteq> T_DOT"
    then obtain m where m: "n = Suc m" "length (expr_tokens e) \<le> m" by (cases n) (simp_all add: in_parens_def)
    let ?o = "if op = ''NOT'' then word_tok T_NOT op else word_tok T_OP op" and ?t = "word_tok T_RPAREN '')'' # t"
    have dot: "tok_type (hd ?t) \<noteq> T_DOT" by (simp add: word_tok_def)
    have "parse_or (parse_expression_upto m) (?o # expr_tokens e @ ?t) = (Inr (UnaryOp op e), ?t)"
    proof (cases "op = ''NOT''")
      case True
      have "parse_not_upto (length (expr_tokens e @ ?t)) (parse_expression_upto m) (expr_tokens e @ ?t) = (Inr e, ?t)"
        using reads_not [of e m ?t] 6 m dot by (simp add: parse_not_def beyond_RPAREN)
      then have "parse_not (parse_expression_upto m) (?o # expr_tokens e @ ?t) = (Inr (UnaryOp op e), ?t)"
        using True by (simp add: parse_not_def sbind_def parser_steps word_tok_def)
      then show ?thesis by (intro or_pass and_pass) (simp_all add: beyond_RPAREN)
    next
      case False
      then have o: "op = ''-''" using 6 by simp
      have "parse_primary (parse_expression_upto m) (expr_tokens e @ ?t) = (Inr e, ?t)"
        using 6 m dot unfolding reads_def by simp
      then have "parse_unary (parse_expression_upto m) (?o # expr_tokens e @ ?t) = (Inr (UnaryOp op e), ?t)"
        using o by (simp add: parse_unary_def sbind_def parser_steps word_tok_def)
      then show ?thesis
        using o by (intro or_pass and_pass not_pass isnull_pass comparison_pass additive_pass multiplicative_pass)
          (simp_all add: beyond_def tok_level_def word_tok_def)
    qed
    then show "parse_primary (parse_expression_upto n) (expr_tokens (UnaryOp op e) @ t) = (Inr (UnaryOp op e), t)"
      unfolding m(1) using n paren_primary [of "parse_expression_upto (Suc m)"] by (simp add: in_parens_def)
  qed
next
  case (7 f arg d)
  show ?case unfolding reads_def
  proof (intro allI impI)
    fix n and t :: "Token list" assume n: "length (expr_tokens (AggregateExpr f arg d)) \<le> n \<and> t \<noteq> [] \<and> tok_type (hd t) \<noteq> T_DOT"
    then obtain m where m: "n = Suc m" "length (expr_tokens arg) \<le> m" by (cases n) (simp_all add: in_parens_def)
    let ?t = "word_tok T_RPAREN '')'' # t" and ?f = "word_tok T_IDENT f" and ?p = "word_tok T_LPAREN ''(''"
    have f: "upper f = f" "f \<in> aggregate_names" "d = False"
      using 7 by (auto simp: aggregate_names_def upper_def upper_char_def)
    have agg: "is_aggregate ?f" using f by (simp add: is_aggregate_def word_tok_def aggregate_names_def)
    have arg: "sbind (check T_STAR) (\<lambda>b. if b then sbind advance (\<lambda>_. sret StarExpr) else parse_expression_upto n)
        (expr_tokens arg @ ?t) = (Inr arg, ?t)"
    proof (cases "arg = StarExpr")
      case True
      then show ?thesis by (simp add: sbind_def parser_steps word_tok_def)
    next
      case False
      then have p: "printable arg" using 7 by simp
      then have "parse_or (parse_expression_upto m) (expr_tokens arg @ ?t) = (Inr arg, ?t)"
        using 7 m by (intro reads_expression) (simp_all add: beyond_def tok_level_def word_tok_def)
      then show ?thesis unfolding m(1) using expr_tokens_hd [of arg] p
        by (auto simp: sbind_def parser_steps)
    qed
    have "parse_aggregate (parse_expression_upto n) (?f # ?p # expr_tokens arg @ ?t) = (Inr (AggregateExpr f arg False), t)"
      using arg n f(1) unfolding parse_aggregate_def
      by (simp add: sbind_step parser_steps word_tok_def str_of_def)
    then show "parse_primary (parse_expression_upto n) (expr_tokens (AggregateExpr f arg d) @ t) = (Inr (AggregateExpr f arg d), t)"
      using agg f(3) by (simp add: in_parens_def parse_primary_def sbind_def parser_steps word_tok_def)
  qed
next
  case (8 e neg)
  show ?case unfolding reads_def
  proof (intro allI impI)
    fix n and t :: "Token list" assume n: "length (expr_tokens (IsNullExpr e neg)) \<le> n \<and> t \<noteq> [] \<and> tok_type (hd t) \<noteq> T_DOT"
    then obtain m where m: "n = Suc m" "length (expr_tokens e) \<le> m" by (cases n) (simp_all add: in_parens_def)
    let ?t = "word_tok T_RPAREN '')'' # t"
    let ?u = "word_tok T_IDENT ''IS'' # (if neg then [word_tok T_NOT ''NOT''] else []) @ word_tok T_NULL ''NULL'' # ?t"
    have "beyond 3 ?u" "tok_type (hd ?u) \<noteq> T_DOT" by (simp_all add: beyond_def tok_level_def word_tok_def)
    then have "parse_comparison (parse_expression_upto m) (expr_tokens e @ ?u) = (Inr e, ?u)"
      using 8 m by (intro reads_isnull) simp_all
    then have "parse_isnull (parse_expression_upto m) (expr_tokens e @ ?u) = (Inr (IsNullExpr e neg), ?t)"
      by (simp add: parse_isnull_def sbind_def parser_steps is_word_is_def word_tok_def upper_def upper_char_def)
    then have "parse_or (parse_expression_upto m) (expr_tokens e @ ?u) = (Inr (IsNullExpr e neg), ?t)"
      using 8 expr_tokens_hd [of e] by (intro or_pass and_pass not_pass) (auto simp: beyond_RPAREN)
    then show "parse_primary (parse_expression_upto n) (expr_tokens (IsNullExpr e neg) @ t) = (Inr (IsNullExpr e neg), t)"
      unfolding m(1) using n paren_primary [of "parse_expression_upto (Suc m)"] by (simp add: in_parens_def)
  qed
qed

section \<open>A printed SELECT\<close>

definition comma :: Token where "comma = word_tok T_COMMA '',''"

definition list_tokens :: "expr list \<Rightarrow> Token list" where
  "list_tokens es = tl (concat (map (\<lambda>e. comma # expr_tokens e) es))"

definition select_tokens :: "expr list \<Rightarrow> string \<Rightarrow> expr option \<Rightarrow> Token list" where
  "select_tokens es table cond =
     word_tok T_SELECT ''SELECT'' # list_tokens es @ [word_tok T_FROM ''FROM'', word_tok T_IDENT table] @
     (case cond of None \<Rightarrow> [] | Some c \<Rightarrow> word_tok T_WHERE ''WHERE'' # expr_tokens c) @ [tok T_EOF PNone '''']"

definition ends_expr :: "Token list \<Rightarrow> bool" where
  "ends_expr t \<longleftrightarrow> beyond 6 t \<and> tok_type (hd t) \<noteq> T_DOT"

lemma parse_expression_reads:
  assumes "printable e" and "ends_expr t"
  shows "parse_expression (expr_tokens e @ t) = (Inr e, t)"
proof -
  obtain m where m: "length (expr_tokens e @ t) = Suc m" "length (expr_tokens e) \<le> m"
    using assms(2) by (cases t) (auto simp: ends_expr_def beyond_def)
  then show ?thesis unfolding parse_expression_def m(1) using assms
    by (simp add: reads_expression reads_expr ends_expr_def)
qed

lemma comma_loop:
  assumes "\<forall>e \<in> set es. printable e" and "ends_expr t" and "tok_type (hd t) \<noteq> T_COMMA"
  shows "length es < k \<Longrightarrow> loop_upto k (\<lambda>xs. when_match T_COMMA (sbind parse_expression (\<lambda>y. sret (xs @ [y])))) acc
      (concat (map (\<lambda>e. comma # expr_tokens e) es) @ t) = (Inr (acc @ es), t)"
  using assms(1)
proof (induction es arbitrary: acc k)
  case Nil
  then obtain j where "k = Suc j" by (cases k) auto
  moreover have "t \<noteq> []" using assms(2) by (auto simp: ends_expr_def beyond_def)
  ultimately show ?case using assms(3) by (simp add: sbind_def when_match_stop)
next
  case (Cons e es)
  then obtain j where k: "k = Suc j" by (cases k) auto
  let ?u = "concat (map (\<lambda>e. comma # expr_tokens e) es) @ t"
  have u: "ends_expr ?u" using assms(2)
    by (cases es) (auto simp: ends_expr_def beyond_def tok_level_def comma_def word_tok_def)
  have "when_match T_COMMA (sbind parse_expression (\<lambda>y. sret (acc @ [y]))) (comma # expr_tokens e @ ?u)
      = (Inr (Some (acc @ [e])), ?u)"
    using Cons.prems u by (intro when_match_step) (simp_all add: expr_tokens_hd comma_def word_tok_def sbind_def parse_expression_reads)
  then show ?case using Cons.IH [of j "acc @ [e]"] Cons.prems k by (simp add: sbind_step del: st_simps)
qed

lemma list_reads:
  assumes "\<forall>e \<in> set es. printable e" and "es \<noteq> []" and "ends_expr t" and "tok_type (hd t) \<noteq> T_COMMA"
  shows "parse_expression_list (list_tokens es @ t) = (Inr es, t)"
proof -
  obtain e es' where es: "es = e # es'" using assms(2) by (cases es) auto
  let ?u = "concat (map (\<lambda>e. comma # expr_tokens e) es') @ t"
  have "ends_expr ?u" using assms(3)
    by (cases es') (auto simp: ends_expr_def beyond_def tok_level_def comma_def word_tok_def)
  then have "parse_expression (expr_tokens e @ ?u) = (Inr e, ?u)" using assms(1) es by (intro parse_expression_reads) simp_all
  moreover have "length es' < Suc (length ?u)"
    by (induction es') (auto simp: comma_def)
  then have "loop (\<lambda>xs. when_match T_COMMA (sbind parse_expression (\<lambda>y. sret (xs @ [y])))) [e] ?u = (Inr es, t)"
    using comma_loop [OF _ assms(3,4), of es' "Suc (length ?u)" "[e]"] assms(1) es
    by (simp add: loop_def del: loop_upto.simps)
  ultimately show ?thesis
    by (simp add: parse_expression_list_def sep_list_def list_tokens_def es sbind_def)
qed

text \<open>
  C27. What is printed is read back: a SELECT of any list of printable expressions, with or without a
  condition, parses to the statement it was printed from; operators keep their operands, whatever
  their precedence.
\<close>

theorem parse_print_roundtrip:
  assumes "es \<noteq> []" and "\<forall>e \<in> set es. printable e" and "\<forall>c. cond = Some c \<longrightarrow> printable c"
  shows "parse (select_tokens es table cond) = Inr (Select \<lparr>sel_columns = es,
    from_table = \<lparr>tr_name = table, tr_alias = None\<rparr>, joins = [], sel_where = cond, order_by = None,
    limit_count = None, offset_count = None, group_by = None\<rparr>)"
proof -
  let ?eof = "[tok T_EOF PNone '''']"
  let ?w = "(case cond of None \<Rightarrow> [] | Some c \<Rightarrow> word_tok T_WHERE ''WHERE'' # expr_tokens c) @ ?eof"
  let ?f = "[word_tok T_FROM ''FROM'', word_tok T_IDENT table] @ ?w"
  obtain e es' where es: "es = e # es'" using assms(1) by (cases es) auto
  have hd: "list_tokens es = expr_tokens e @ concat (map (\<lambda>e. comma # expr_tokens e) es')"
    by (simp add: list_tokens_def es)
  have "hd (list_tokens es @ ?f) = hd (expr_tokens e)" unfolding hd using expr_tokens_hd(1) [of e] by simp
  moreover have "printable e" using assms(2) es by simp
  ultimately have t: "tok_type (hd (list_tokens es @ ?f)) \<noteq> T_STAR" "list_tokens es @ ?f \<noteq> []"
    using expr_tokens_hd(2) [of e] by fastforce+
  have "parse_expression_list (list_tokens es @ ?f) = (Inr es, ?f)"
    using assms(1,2) by (intro list_reads) (simp_all add: ends_expr_def beyond_def tok_level_def word_tok_def)
  then have cols: "parse_select_columns (list_tokens es @ ?f) = (Inr es, ?f)"
    using t by (simp add: parse_select_columns_def sbind_def parser_steps del: append.simps)
  have tbl: "parse_table_ref (word_tok T_IDENT table # ?w) = (Inr \<lparr>tr_name = table, tr_alias = None\<rparr>, ?w)"
    by (auto simp: parse_table_ref_def expect_name_def sbind_def parser_steps word_tok_def str_of_def split: option.splits)
  have js: "parse_join_clauses ?w = (Inr [], ?w)"
    by (auto simp: parse_join_clauses_def loop_def is_join_keyword_def sbind_def parser_steps join_keyword_types_def
        word_tok_def split: option.splits)
  have wh: "when_match T_WHERE parse_where ?w = (Inr cond, ?eof)"
  proof (cases cond)
    case None
    then show ?thesis by (simp add: when_match_stop)
  next
    case (Some c)
    have "parse_expression (expr_tokens c @ ?eof) = (Inr c, ?eof)"
      using assms(3) Some by (intro parse_expression_reads) (simp_all add: ends_expr_def beyond_def tok_level_def)
    then show ?thesis using Some by (simp add: when_match_step parse_where_def word_tok_def)
  qed
  have "parse_select (word_tok T_SELECT ''SELECT'' # list_tokens es @ ?f) = (Inr \<lparr>sel_columns = es,
    from_table = \<lparr>tr_name = table, tr_alias = None\<rparr>, joins = [], sel_where = cond, order_by = None,
    limit_count = None, offset_count = None, group_by = None\<rparr>, ?eof)"
    unfolding parse_select_def using t cols tbl js wh
    by (simp add: sbind_step parser_steps word_tok_def when_match_stop when_check_def)
  then show ?thesis
    by (simp add: parse_def parse_statement_def sbind_def parser_steps word_tok_def select_tokens_def expect_def
        advance_def peek_def)
qed

definition demo_exprs :: "expr list" where
  "demo_exprs = [BinaryOp ''*'' (BinaryOp ''+'' (ColumnRef ''a'' (Some ''t'')) (Literal (PInt 2))) (ColumnRef ''b'' None),
     AggregateExpr ''SUM'' (UnaryOp ''-'' (ColumnRef ''b'' None)) False]"

definition demo_where :: expr where
  "demo_where = UnaryOp ''NOT'' (BinaryOp ''OR'' (IsNullExpr (ColumnRef ''a'' None) True)
     (BinaryOp ''<='' (Literal (PStr ''x'')) (Literal PNone)))"

theorem parse_print_roundtrip_witness:
  "parse (select_tokens demo_exprs ''t'' (Some demo_where)) = Inr (Select \<lparr>sel_columns = demo_exprs,
    from_table = \<lparr>tr_name = ''t'', tr_alias = None\<rparr>, joins = [], sel_where = Some demo_where, order_by = None,
    limit_count = None, offset_count = None, group_by = None\<rparr>)"
proof -
  have u: "upper ''a'' = ''A''" "upper ''b'' = ''B''" "upper ''t'' = ''T''"
    by code_simp+
  have k: "map_of sql_keywords ''A'' = None" "map_of sql_keywords ''B'' = None" "map_of sql_keywords ''T'' = None"
    by (simp_all add: sql_keywords_def)
  have n: "is_name ''a''" "is_name ''b''" "is_name ''t''" "upper ''a'' \<notin> aggregate_names"
      "upper ''b'' \<notin> aggregate_names" "upper ''t'' \<notin> aggregate_names"
    unfolding u by (simp_all add: is_name_def u k aggregate_names_def word_char_def is_alnum_def is_alpha_def)
  have "\<forall>e \<in> set demo_exprs. printable e" "printable demo_where"
    by (simp_all add: demo_exprs_def demo_where_def n binary_ops_def comp_ops_def, simp add: aggregate_names_def nat_str.simps)
  then show ?thesis by (intro parse_print_roundtrip) (simp_all add: demo_exprs_def)
qed

end
