(* ===== verification/Btree_Facts.thy ===== *)
theory Btree_Facts
  imports Btree
begin

text \<open>
  What is written to an index page is read back: the bytes of a node, the page a node is written to, and
  the encoding of keys.
\<close>

section \<open>Bytes of a node\<close>

definition key_bytes :: "bytes \<Rightarrow> bytes" where
  "key_bytes k = le_bytes 2 (length k) @ k"

fun entry_bytes :: "bytes \<times> RowId \<Rightarrow> bytes" where
  "entry_bytes (k, rid) = key_bytes k @ le_bytes 4 (rid_page_id rid) @ le_bytes 4 (rid_slot_index rid)"

fun payload :: "node \<Rightarrow> bytes" where
  "payload (Leaf es nxt) = concat (map entry_bytes es) @ le_bytes 4 nxt"
| "payload (Inner ks cs) = concat (map key_bytes ks) @ concat (map (le_bytes 4) cs)"

definition rid_ok :: "RowId \<Rightarrow> bool" where
  "rid_ok rid \<longleftrightarrow> rid_page_id rid < 2 ^ 32 \<and> rid_slot_index rid < 2 ^ 32"

text \<open>Every number fits its field, and an inner node has a child more than keys.\<close>

fun node_ok :: "node \<Rightarrow> bool" where
  "node_ok (Leaf es nxt) \<longleftrightarrow> length es < 2 ^ 16 \<and> (\<forall>(k, rid) \<in> set es. length k < 2 ^ 16 \<and> rid_ok rid) \<and> nxt < 2 ^ 32"
| "node_ok (Inner ks cs) \<longleftrightarrow> length ks < 2 ^ 16 \<and> (\<forall>k \<in> set ks. length k < 2 ^ 16) \<and>
     (\<forall>c \<in> set cs. c < 2 ^ 32) \<and> length cs = length ks + 1"

definition node_fits :: "node \<Rightarrow> bool" where
  "node_fits nd \<longleftrightarrow> node_ok nd \<and> length (payload nd) \<le> 4060"

definition node_header :: "nat \<Rightarrow> page_header" where
  "node_header p = \<lparr>h_page_id = p, h_page_type = INDEX, h_slot_count = 0, h_free_space = 0,
     h_free_offset = 4096, h_next_page_id = 0, h_flags = 0\<rparr>"

definition node_prefix :: "nat \<Rightarrow> node \<Rightarrow> bytes" where
  "node_prefix p nd = header_bytes (node_header p) @ (if is_leaf nd then 1 else 0) # le_bytes 2 (key_count nd) @ [0]"

definition node_data :: "nat \<Rightarrow> node \<Rightarrow> bytes" where
  "node_data p nd = node_prefix p nd @ payload nd @ replicate (4060 - length (payload nd)) 0"

lemma length_key_bytes [simp]: "length (key_bytes k) = 2 + length k"
  by (simp add: key_bytes_def)

lemma length_entry_bytes [simp]: "length (entry_bytes e) = 10 + length (fst e)"
  by (cases e) simp

lemma length_node_prefix [simp]: "length (node_prefix p nd) = 36"
  by (simp add: node_prefix_def)

lemma length_node_data [simp]: "node_fits nd \<Longrightarrow> length (node_data p nd) = 4096"
  by (simp add: node_data_def node_fits_def)

section \<open>Writing\<close>

lemma overwrite_nil [simp]: "overwrite xs i [] = xs"
  by (simp add: overwrite_def)

lemma overwrite_overwrite:
  "j = i + length ys \<Longrightarrow> j + length zs \<le> length xs \<Longrightarrow> overwrite (overwrite xs i ys) j zs = overwrite xs i (ys @ zs)"
  by (simp add: overwrite_def ac_simps)

lemma slice_set_key:
  "i + length ys \<le> length xs \<Longrightarrow> slice_set xs (int i) (int (i + length ys)) ys = overwrite xs i ys"
  using slice_set_overwrite [of i ys xs] by simp

lemma put_key_ok:
  assumes "length k < 2 ^ 16" and "off + 2 + length k \<le> length data"
  shows "put_key k data off = Inr (overwrite data off (key_bytes k), off + (2 + length k))"
proof -
  have "pack_u 2 (int (length k)) = Inr (le_bytes 2 (length k))" using assms(1) by (intro pack_u_ok) simp
  moreover have "pack_into data off (le_bytes 2 (length k)) = Inr (overwrite data off (le_bytes 2 (length k)))"
    using assms(2) by (simp add: pack_into_def)
  moreover have "slice_set (overwrite data off (le_bytes 2 (length k))) (int (off + 2)) (int (off + 2 + length k)) k =
      overwrite data off (key_bytes k)"
    using slice_set_key [of "off + 2" k "overwrite data off (le_bytes 2 (length k))"]
      overwrite_overwrite [of "off + 2" off "le_bytes 2 (length k)" k data] assms(2)
    by (simp add: key_bytes_def)
  ultimately show ?thesis unfolding put_key_def by (simp del: le_bytes.simps)
qed

lemma put_entries_ok:
  "\<forall>(k, rid) \<in> set es. length k < 2 ^ 16 \<and> rid_ok rid \<Longrightarrow> off + length (concat (map entry_bytes es)) \<le> length data \<Longrightarrow>
   put_entries es data off = Inr (overwrite data off (concat (map entry_bytes es)), off + length (concat (map entry_bytes es)))"
proof (induction es arbitrary: data off)
  case (Cons e es)
  obtain k rid where e: "e = (k, rid)" by (cases e)
  have k: "length k < 2 ^ 16" "rid_ok rid" using Cons.prems(1) e by auto
  let ?b = "le_bytes 4 (rid_page_id rid) @ le_bytes 4 (rid_slot_index rid)"
  have len: "off + 2 + length k + 8 + length (concat (map entry_bytes es)) \<le> length data"
    using Cons.prems(2) e by simp
  have p: "pack_u 4 (int (rid_page_id rid)) = Inr (le_bytes 4 (rid_page_id rid))"
    "pack_u 4 (int (rid_slot_index rid)) = Inr (le_bytes 4 (rid_slot_index rid))"
    using k(2) by (intro pack_u_ok; simp add: rid_ok_def)+
  have "pack_into (overwrite data off (key_bytes k)) (off + (2 + length k)) ?b = Inr (overwrite data off (entry_bytes e))"
    using len overwrite_overwrite [of "off + (2 + length k)" off "key_bytes k" ?b data] e
    by (simp add: pack_into_def del: le_bytes.simps)
  moreover have "put_key k data off = Inr (overwrite data off (key_bytes k), off + (2 + length k))"
    using put_key_ok [OF k(1)] len by simp
  moreover have "put_entries es (overwrite data off (entry_bytes e)) (off + (2 + length k) + 8) =
      Inr (overwrite (overwrite data off (entry_bytes e)) (off + (2 + length k) + 8) (concat (map entry_bytes es)),
        off + (2 + length k) + 8 + length (concat (map entry_bytes es)))"
    by (rule Cons.IH) (use Cons.prems(1) len e in auto)
  moreover have "overwrite (overwrite data off (entry_bytes e)) (off + (2 + length k) + 8) (concat (map entry_bytes es)) =
      overwrite data off (entry_bytes e @ concat (map entry_bytes es))"
    by (rule overwrite_overwrite) (use len e in simp_all)
  ultimately show ?case using e p by (simp add: add.assoc del: le_bytes.simps entry_bytes.simps)
qed simp

lemma put_keys_ok:
  "\<forall>k \<in> set ks. length k < 2 ^ 16 \<Longrightarrow> off + length (concat (map key_bytes ks)) \<le> length data \<Longrightarrow>
   put_keys ks data off = Inr (overwrite data off (concat (map key_bytes ks)), off + length (concat (map key_bytes ks)))"
proof (induction ks arbitrary: data off)
  case (Cons k ks)
  have len: "off + 2 + length k + length (concat (map key_bytes ks)) \<le> length data" using Cons.prems(2) by simp
  have "put_key k data off = Inr (overwrite data off (key_bytes k), off + (2 + length k))"
    using put_key_ok Cons.prems(1) len by simp
  moreover have "put_keys ks (overwrite data off (key_bytes k)) (off + (2 + length k)) =
      Inr (overwrite (overwrite data off (key_bytes k)) (off + (2 + length k)) (concat (map key_bytes ks)),
        off + (2 + length k) + length (concat (map key_bytes ks)))"
    by (rule Cons.IH) (use Cons.prems(1) len in auto)
  ultimately show ?case
    using overwrite_overwrite [of "off + (2 + length k)" off "key_bytes k" "concat (map key_bytes ks)" data] len
    by (simp add: add.assoc)
qed simp

lemma put_children_ok:
  "\<forall>c \<in> set cs. c < 2 ^ 32 \<Longrightarrow> off + length (concat (map (le_bytes 4) cs)) \<le> length data \<Longrightarrow>
   put_children cs data off = Inr (overwrite data off (concat (map (le_bytes 4) cs)))"
proof (induction cs arbitrary: data off)
  case (Cons c cs)
  have len: "off + 4 + length (concat (map (le_bytes 4) cs)) \<le> length data"
    using Cons.prems(2) by (simp del: le_bytes.simps)
  have "pack_u 4 (int c) = Inr (le_bytes 4 c)" using Cons.prems(1) by (intro pack_u_ok) simp
  moreover have "pack_into data off (le_bytes 4 c) = Inr (overwrite data off (le_bytes 4 c))"
    using len by (simp add: pack_into_def)
  moreover have "put_children cs (overwrite data off (le_bytes 4 c)) (off + 4) =
      Inr (overwrite (overwrite data off (le_bytes 4 c)) (off + 4) (concat (map (le_bytes 4) cs)))"
    by (rule Cons.IH) (use Cons.prems(1) len in auto)
  ultimately show ?case
    using overwrite_overwrite [of "off + 4" off "le_bytes 4 c" "concat (map (le_bytes 4) cs)" data] len
    by (simp del: le_bytes.simps)
qed simp


lemma node_bytes_ok:
  assumes "node_fits nd" and "p < 2 ^ 32"
  shows "node_bytes p nd = Inr (node_data p nd)"
proof -
  let ?h = "header_bytes (node_header p)"
  let ?f = "(if is_leaf nd then 1 else 0) :: byte" and ?c = "le_bytes 2 (key_count nd)"
  let ?base = "?h @ replicate 4064 (0 :: byte)"
  have ok: "node_ok nd" and len: "length (payload nd) \<le> 4060" using assms(1) by (auto simp: node_fits_def)
  have h: "pack_page_header (node_header p) = Inr ?h"
    using assms(2) by (intro pack_page_header_ok) (simp add: header_fits_def node_header_def)
  have base: "slice_set (replicate 4096 0) 0 32 ?h = ?base"
    by (simp add: slice_set_def slice_idx_def)
  have c: "pack_u 2 (int (key_count nd)) = Inr ?c" using ok by (cases nd) (auto intro!: pack_u_ok)
  define d where "d = overwrite ?base 32 (?f # ?c @ [0])"
  have d0: "pack_into (?base[32 := ?f]) 33 ?c = Inr (overwrite ?base 32 (?f # ?c))"
  proof -
    have "?base[32 := ?f] = overwrite ?base 32 [?f]"
      by (simp add: overwrite_def list_update_append del: le_bytes.simps) (simp add: upd_conv_take_nth_drop)
    moreover have "overwrite (overwrite ?base 32 [?f]) 33 ?c = overwrite ?base 32 ([?f] @ ?c)"
      by (rule overwrite_overwrite) simp_all
    ultimately show ?thesis by (simp add: pack_into_def)
  qed
  have d1: "(overwrite ?base 32 (?f # ?c))[35 := 0] = d"
  proof -
    have "(overwrite ?base 32 (?f # ?c))[35 := 0] = overwrite (overwrite ?base 32 (?f # ?c)) 35 [0]"
      by (simp add: upd_conv_take_nth_drop overwrite_def)
    also have "\<dots> = overwrite ?base 32 ((?f # ?c) @ [0])" by (rule overwrite_overwrite) simp_all
    finally show ?thesis by (simp add: d_def)
  qed
  have ld: "length d = 4096" by (simp add: d_def)
  have fin: "overwrite d 36 (payload nd) = node_data p nd"
  proof -
    have "d = node_prefix p nd @ replicate 4060 0" by (simp add: d_def node_prefix_def overwrite_def del: le_bytes.simps)
    then show ?thesis using len by (simp add: overwrite_def node_data_def)
  qed
  have eqn: "node_bytes p nd = (case nd of
       Leaf es nxt \<Rightarrow> rbind (put_entries es d 36) (\<lambda>(d, off). rbind (pack_u 4 (int nxt)) (\<lambda>b. pack_into d off b))
     | Inner ks cs \<Rightarrow> rbind (put_keys ks d 36) (\<lambda>(d, off). put_children cs d off))"
    using h c d0 d1 base unfolding node_bytes_def node_header_def [symmetric]
    by (cases nd) (simp_all add: page_consts NODE_DATA_OFFSET_def NODE_HEADER_SIZE_def node_header_def Let_def
      del: le_bytes.simps)
  show ?thesis
  proof (cases nd)
    case (Leaf es nxt)
    have "put_entries es d 36 = Inr (overwrite d 36 (concat (map entry_bytes es)), 36 + length (concat (map entry_bytes es)))"
      using ok len ld Leaf by (intro put_entries_ok) auto
    moreover have "pack_u 4 (int nxt) = Inr (le_bytes 4 nxt)" using ok Leaf by (intro pack_u_ok) simp
    moreover have "pack_into (overwrite d 36 (concat (map entry_bytes es))) (36 + length (concat (map entry_bytes es)))
        (le_bytes 4 nxt) = Inr (overwrite d 36 (payload nd))"
      using len ld Leaf overwrite_overwrite [of _ 36 "concat (map entry_bytes es)" "le_bytes 4 nxt" d]
      by (simp add: pack_into_def del: le_bytes.simps entry_bytes.simps)
    ultimately show ?thesis using eqn fin Leaf by simp
  next
    case (Inner ks cs)
    have "put_keys ks d 36 = Inr (overwrite d 36 (concat (map key_bytes ks)), 36 + length (concat (map key_bytes ks)))"
      using ok len ld Inner by (intro put_keys_ok) auto
    moreover have "put_children cs (overwrite d 36 (concat (map key_bytes ks))) (36 + length (concat (map key_bytes ks))) =
        Inr (overwrite d 36 (payload nd))"
      using put_children_ok [of cs "36 + length (concat (map key_bytes ks))" "overwrite d 36 (concat (map key_bytes ks))"]
        ok len ld Inner overwrite_overwrite [of _ 36 "concat (map key_bytes ks)" "concat (map (le_bytes 4) cs)" d]
      by (simp del: le_bytes.simps)
    ultimately show ?thesis using eqn fin Inner by simp
  qed
qed


section \<open>Reading\<close>

lemma unpack_u_at: "off = length pre \<Longrightarrow> x < 256 ^ n \<Longrightarrow> unpack_u n (pre @ le_bytes n x @ post) off = Inr x"
  by simp

lemma read_key_at:
  assumes "length k < 2 ^ 16" and "off = length pre"
  shows "read_key (pre @ key_bytes k @ post) off = Inr (k, off + 2 + length k)"
proof -
  have "unpack_u 2 (pre @ le_bytes 2 (length k) @ k @ post) off = Inr (length k)"
    using unpack_u_at [of off pre "length k" 2] assms by simp
  moreover have "slice_get (pre @ le_bytes 2 (length k) @ k @ post) (int (off + 2)) (int (off + 2 + length k)) = k"
    using assms(2) by (subst slice_get_nat) simp_all
  ultimately show ?thesis unfolding read_key_def key_bytes_def by (simp del: le_bytes.simps)
qed

lemma read_entries_at:
  "\<forall>(k, rid) \<in> set es. length k < 2 ^ 16 \<and> rid_ok rid \<Longrightarrow> off = length pre \<Longrightarrow>
   read_entries (pre @ concat (map entry_bytes es) @ post) off (length es) =
     Inr (es, off + length (concat (map entry_bytes es)))"
proof (induction es arbitrary: pre off)
  case (Cons e es)
  obtain k rid where e: "e = (k, rid)" by (cases e)
  have k: "length k < 2 ^ 16" "rid_ok rid" using Cons.prems(1) e by auto
  let ?p = "le_bytes 4 (rid_page_id rid)" and ?s = "le_bytes 4 (rid_slot_index rid)"
  let ?rest = "concat (map entry_bytes es) @ post"
  have 1: "read_key (pre @ key_bytes k @ ?p @ ?s @ ?rest) off = Inr (k, off + 2 + length k)"
    using read_key_at [OF k(1) Cons.prems(2)] .
  have 2: "unpack_u 4 ((pre @ key_bytes k) @ ?p @ ?s @ ?rest) (off + 2 + length k) = Inr (rid_page_id rid)"
    using k(2) Cons.prems(2) by (intro unpack_u_at) (simp_all add: rid_ok_def)
  have 3: "unpack_u 4 ((pre @ key_bytes k @ ?p) @ ?s @ ?rest) (off + 2 + length k + 4) = Inr (rid_slot_index rid)"
    using k(2) Cons.prems(2) by (intro unpack_u_at) (simp_all add: rid_ok_def)
  have 4: "read_entries ((pre @ entry_bytes e) @ ?rest) (off + 2 + length k + 8) (length es) =
      Inr (es, off + 2 + length k + 8 + length (concat (map entry_bytes es)))"
    using Cons.prems e by (intro Cons.IH) auto
  from 1 2 3 4 e show ?case by (simp add: add.assoc del: le_bytes.simps)
qed simp

lemma read_keys_at:
  "\<forall>k \<in> set ks. length k < 2 ^ 16 \<Longrightarrow> off = length pre \<Longrightarrow>
   read_keys (pre @ concat (map key_bytes ks) @ post) off (length ks) = Inr (ks, off + length (concat (map key_bytes ks)))"
proof (induction ks arbitrary: pre off)
  case (Cons k ks)
  have 1: "read_key (pre @ key_bytes k @ concat (map key_bytes ks) @ post) off = Inr (k, off + 2 + length k)"
    using read_key_at [of k off pre] Cons.prems by simp
  have 2: "read_keys ((pre @ key_bytes k) @ concat (map key_bytes ks) @ post) (off + 2 + length k) (length ks) =
      Inr (ks, off + 2 + length k + length (concat (map key_bytes ks)))"
    using Cons.prems by (intro Cons.IH) auto
  from 1 2 show ?case by (simp add: add.assoc)
qed simp

lemma read_children_at:
  "\<forall>c \<in> set cs. c < 2 ^ 32 \<Longrightarrow> off = length pre \<Longrightarrow>
   read_children (pre @ concat (map (le_bytes 4) cs) @ post) off (length cs) = Inr cs"
proof (induction cs arbitrary: pre off)
  case (Cons c cs)
  have 1: "unpack_u 4 (pre @ le_bytes 4 c @ concat (map (le_bytes 4) cs) @ post) off = Inr c"
    using Cons.prems by (intro unpack_u_at) simp_all
  have 2: "read_children ((pre @ le_bytes 4 c) @ concat (map (le_bytes 4) cs) @ post) (off + 4) (length cs) = Inr cs"
    using Cons.prems by (intro Cons.IH) auto
  from 1 2 show ?case by (simp del: le_bytes.simps)
qed simp

lemma parse_node_data:
  assumes "node_fits nd"
  shows "parse_node (node_data p nd) = Inr nd"
proof -
  have ok: "node_ok nd" using assms by (simp add: node_fits_def)
  have flag: "unat (node_data p nd ! 32) = (if is_leaf nd then 1 else 0)"
    by (simp add: node_data_def node_prefix_def nth_append)
  have "key_count nd < 2 ^ 16" using ok by (cases nd) auto
  then have cnt: "unpack_u 2 (node_data p nd) 33 = Inr (key_count nd)"
    unfolding node_data_def node_prefix_def
    using unpack_u_at [of 33 "header_bytes (node_header p) @ [if is_leaf nd then 1 else 0]" "key_count nd" 2]
    by (simp del: le_bytes.simps)
  note c = page_consts NODE_DATA_OFFSET_def NODE_HEADER_SIZE_def
  have len: "length (node_data p nd) = 4096" using assms by simp
  show ?thesis
  proof (cases nd)
    case (Leaf es nxt)
    let ?post = "replicate (4060 - length (payload nd)) 0"
    have d: "node_data p nd = node_prefix p nd @ concat (map entry_bytes es) @ le_bytes 4 nxt @ ?post"
      using Leaf by (simp add: node_data_def)
    have 1: "read_entries (node_data p nd) 36 (length es) = Inr (es, 36 + length (concat (map entry_bytes es)))"
      unfolding d using ok Leaf by (intro read_entries_at) auto
    have 2: "unpack_u 4 ((node_prefix p nd @ concat (map entry_bytes es)) @ le_bytes 4 nxt @ ?post)
        (36 + length (concat (map entry_bytes es))) = Inr nxt"
      using ok Leaf by (intro unpack_u_at) simp_all
    have 2: "unpack_u 4 (node_data p nd) (36 + length (concat (map entry_bytes es))) = Inr nxt"
      using 2 unfolding d by simp
    show ?thesis using flag cnt 1 2 len Leaf by (simp add: parse_node_def c Let_def)
  next
    case (Inner ks cs)
    let ?post = "replicate (4060 - length (payload nd)) 0"
    have d: "node_data p nd = node_prefix p nd @ concat (map key_bytes ks) @ concat (map (le_bytes 4) cs) @ ?post"
      using Inner by (simp add: node_data_def)
    have 1: "read_keys (node_data p nd) 36 (length ks) = Inr (ks, 36 + length (concat (map key_bytes ks)))"
      unfolding d using ok Inner by (intro read_keys_at) auto
    have 2: "read_children ((node_prefix p nd @ concat (map key_bytes ks)) @ concat (map (le_bytes 4) cs) @ ?post)
        (36 + length (concat (map key_bytes ks))) (length cs) = Inr cs"
      using ok Inner by (intro read_children_at) simp_all
    have 2: "read_children (node_data p nd) (36 + length (concat (map key_bytes ks))) (length ks + 1) = Inr cs"
      using 2 ok Inner unfolding d by simp
    show ?thesis using flag cnt 1 2 len Inner by (simp add: parse_node_def c Let_def)
  qed
qed

lemma node_data_parses:
  assumes "node_fits nd" and "p < 2 ^ 32"
  shows "parses (node_data p nd)"
proof -
  have f: "header_fits (node_header p)" using assms(2) by (simp add: header_fits_def node_header_def)
  have "node_data p nd = overwrite (node_data p nd) 0 (header_bytes (node_header p))"
    using assms(1) by (simp add: overwrite_def node_data_def node_prefix_def)
  then have "parse_page_header (node_data p nd) = Inr (node_header p)"
    using parse_overwrite_header [OF f, of "node_data p nd"] assms(1) by simp
  then show ?thesis using assms(1) by (auto simp: parses_def)
qed


section \<open>A page that overflows\<close>

lemma put_key_full:
  assumes "length k < 2 ^ 16" and "length data < off + 2 + length k" and "off \<le> length data"
  shows "put_key k data off = Inl StructError \<or>
    (\<exists>d. put_key k data off = Inr (d, off + (2 + length k)) \<and> length d = off + (2 + length k))"
proof -
  have p: "pack_u 2 (int (length k)) = Inr (le_bytes 2 (length k))" using assms(1) by (intro pack_u_ok) simp
  show ?thesis
  proof (cases "off + 2 \<le> length data")
    case True
    have "length (slice_set (overwrite data off (le_bytes 2 (length k))) (int (off + 2)) (int (off + 2 + length k)) k)
        = off + (2 + length k)"
      using True assms(2) by (simp add: slice_set_def slice_idx_def Let_def)
    then show ?thesis using p True by (simp add: put_key_def pack_into_def del: le_bytes.simps)
  next
    case False
    then show ?thesis using p by (simp add: put_key_def pack_into_def del: le_bytes.simps)
  qed
qed

lemma put_entries_full:
  "\<forall>(k, rid) \<in> set es. length k < 2 ^ 16 \<and> rid_ok rid \<Longrightarrow> off \<le> length data \<Longrightarrow>
   length data < off + length (concat (map entry_bytes es)) \<Longrightarrow> put_entries es data off = Inl StructError"
proof (induction es arbitrary: data off)
  case (Cons e es)
  obtain k rid where e: "e = (k, rid)" by (cases e)
  have k: "length k < 2 ^ 16" "rid_ok rid" using Cons.prems(1) e by auto
  let ?b = "le_bytes 4 (rid_page_id rid) @ le_bytes 4 (rid_slot_index rid)"
  have p: "pack_u 4 (int (rid_page_id rid)) = Inr (le_bytes 4 (rid_page_id rid))"
    "pack_u 4 (int (rid_slot_index rid)) = Inr (le_bytes 4 (rid_slot_index rid))"
    using k(2) by (intro pack_u_ok; simp add: rid_ok_def)+
  consider "length data < off + 2 + length k" | "off + 2 + length k \<le> length data" "length data < off + 10 + length k"
    | "off + 10 + length k \<le> length data" by linarith
  then show ?case
  proof cases
    case 1
    from put_key_full [OF k(1) 1 Cons.prems(2)] show ?thesis
      using e p by (auto simp: pack_into_def simp del: le_bytes.simps)
  next
    case 2
    then show ?thesis using put_key_ok [OF k(1) 2(1)] e p by (simp add: pack_into_def del: le_bytes.simps)
  next
    case 3
    have a: "pack_into (overwrite data off (key_bytes k)) (off + (2 + length k)) ?b =
        Inr (overwrite (overwrite data off (key_bytes k)) (off + (2 + length k)) ?b)"
      using 3 by (simp add: pack_into_def)
    have "put_entries es (overwrite (overwrite data off (key_bytes k)) (off + (2 + length k)) ?b) (off + (2 + length k) + 8) =
        Inl StructError"
      by (rule Cons.IH) (use Cons.prems(1,3) 3 e in \<open>auto simp del: le_bytes.simps\<close>)
    then show ?thesis using put_key_ok [OF k(1), of off data] a 3 e p by (simp del: le_bytes.simps)
  qed
qed simp


lemma node_bytes_full:
  assumes "node_ok (Leaf es nxt)" and "4060 < length (payload (Leaf es nxt))"
  shows "node_bytes p (Leaf es nxt) = Inl StructError"
proof -
  let ?bs = "concat (map entry_bytes es)"
  have full: "rbind (put_entries es d 36) (\<lambda>(d, off). rbind (pack_u 4 (int nxt)) (pack_into d off)) = Inl StructError"
    if d: "length d = 4096" for d :: bytes
  proof (cases "36 + length ?bs \<le> 4096")
    case True
    have "put_entries es d 36 = Inr (overwrite d 36 ?bs, 36 + length ?bs)"
      using assms(1) True d by (intro put_entries_ok) auto
    moreover have "pack_u 4 (int nxt) = Inr (le_bytes 4 nxt)" using assms(1) by (intro pack_u_ok) simp
    ultimately show ?thesis using assms(2) True d by (simp add: pack_into_def del: le_bytes.simps)
  next
    case False
    have "put_entries es d 36 = Inl StructError"
      using assms(1) False d by (intro put_entries_full) auto
    then show ?thesis by simp
  qed
  have c: "pack_u 2 (int (length es)) = Inr (le_bytes 2 (length es))" using assms(1) by (intro pack_u_ok) simp
  show ?thesis
  proof (cases "header_fits (node_header p)")
    case True
    then have h: "pack_page_header (node_header p) = Inr (header_bytes (node_header p))" by (rule pack_page_header_ok)
    have len: "length (slice_set (replicate 4096 0) 0 32 (header_bytes (node_header p))) = 4096"
      by (simp add: slice_set_def slice_idx_def)
    show ?thesis
      using h c full len unfolding node_bytes_def node_header_def
      by (simp add: page_consts NODE_DATA_OFFSET_def NODE_HEADER_SIZE_def Let_def pack_into_def del: le_bytes.simps)
  next
    case False
    then show ?thesis unfolding node_bytes_def
      by (simp add: pack_page_header_cases node_header_def page_consts)
  qed
qed

section \<open>Index pages in a store\<close>

text \<open>
  The index writes a page to the cache and to the file. \<open>persist_law\<close> is what it needs beyond the laws of
  \<open>page_store\<close>: a live page may be overwritten so, cached or not.
\<close>

locale node_store = page_store inv live view ready fresh ops
  for inv :: "nat \<Rightarrow> 's \<Rightarrow> bool" and live :: "'s \<Rightarrow> nat \<Rightarrow> bool" and view :: "'s \<Rightarrow> nat \<Rightarrow> bytes option"
    and ready fresh :: "'s \<Rightarrow> nat \<Rightarrow> bool" and ops :: "'s pool_ops" +
  assumes live_small: "inv n s \<Longrightarrow> live s p \<Longrightarrow> p < 2 ^ 32"
    and persist_law: "inv n s \<Longrightarrow> live s p \<Longrightarrow> parses d \<Longrightarrow>
      \<exists>s'. sbind (po_set ops p d) (\<lambda>_. po_write ops p d) s = (Inr (), s') \<and> inv n s' \<and> live s' = live s \<and>
        (\<forall>q. live s q \<longrightarrow> view s' q = (if q = p then Some d else view s q))"
begin

definition node_at :: "'s \<Rightarrow> nat \<Rightarrow> node \<Rightarrow> bool" where
  "node_at s p nd \<longleftrightarrow> live s p \<and> node_fits nd \<and> view s p = Some (node_data p nd)"

text \<open>The pages outside \<open>P\<close> are as they were.\<close>

definition same_outside :: "nat set \<Rightarrow> 's \<Rightarrow> 's \<Rightarrow> bool" where
  "same_outside P s s' \<longleftrightarrow> (\<forall>q. live s q \<longrightarrow> live s' q) \<and> (\<forall>q. live s q \<longrightarrow> q \<notin> P \<longrightarrow> view s' q = view s q)"

lemma same_outside_refl [simp]: "same_outside P s s"
  by (simp add: same_outside_def)

lemma same_outside_trans: "same_outside P s t \<Longrightarrow> same_outside Q t u \<Longrightarrow> same_outside (P \<union> Q) s u"
  by (simp add: same_outside_def)

lemma same_outside_mono: "same_outside P s t \<Longrightarrow> P \<subseteq> Q \<Longrightarrow> same_outside Q s t"
  by (auto simp: same_outside_def)

lemma node_at_frame: "node_at s p nd \<Longrightarrow> same_outside P s s' \<Longrightarrow> p \<notin> P \<Longrightarrow> node_at s' p nd"
  by (simp add: node_at_def same_outside_def)

lemma read_node_ok:
  assumes "inv n s" and "node_at s p nd"
  shows "\<exists>s'. read_node ops p s = (Inr nd, s') \<and> inv n s' \<and> live s' = live s \<and> same_outside {} s s'"
proof -
  have l: "live s p" "view s p = Some (node_data p nd)" and f: "node_fits nd" using assms(2) by (auto simp: node_at_def)
  have "parses (node_data p nd)" using node_data_parses [OF f] live_small [OF assms(1) l(1)] .
  from get_law [OF assms(1) l this] obtain s' where "po_get ops p None s = (Inr (node_data p nd), s')" "inv n s'"
    "live s' = live s" "\<forall>q. live s q \<longrightarrow> view s' q = view s q" by blast
  then show ?thesis using parse_node_data [OF f] by (auto simp: read_node_def sbind_def same_outside_def)
qed

lemma persist_node_ok:
  assumes "inv n s" and "live s p" and "node_fits nd"
  shows "\<exists>s'. persist_node ops p nd s = (Inr (), s') \<and> inv n s' \<and> live s' = live s \<and> node_at s' p nd \<and> same_outside {p} s s'"
proof -
  have p: "p < 2 ^ 32" using live_small assms(1,2) .
  have "node_bytes p nd = Inr (node_data p nd)" using node_bytes_ok [OF assms(3) p] .
  moreover from persist_law [OF assms(1,2) node_data_parses [OF assms(3) p]] obtain s' where
    "sbind (po_set ops p (node_data p nd)) (\<lambda>_. po_write ops p (node_data p nd)) s = (Inr (), s')" "inv n s'"
    "live s' = live s" "\<forall>q. live s q \<longrightarrow> view s' q = (if q = p then Some (node_data p nd) else view s q)" by blast
  ultimately show ?thesis using assms by (auto simp: persist_node_def node_at_def same_outside_def)
qed

lemma persist_node_full:
  assumes "node_ok (Leaf es nxt)" and "4060 < length (payload (Leaf es nxt))"
  shows "persist_node ops p (Leaf es nxt) s = (Inl StructError, s)"
  using node_bytes_full [OF assms] by (simp add: persist_node_def sbind_def)

lemma new_index_ok:
  assumes "inv (Suc n) s"
  shows "\<exists>p s'. new_index ops s = (Inr p, s') \<and> inv n s' \<and> \<not> live s p \<and> live s' = (live s)(p := True) \<and>
    node_at s' p (Leaf [] 0) \<and> (\<forall>q. live s q \<longrightarrow> view s' q = view s q)"
proof -
  from alloc_law [OF assms] obtain p s1 where a: "po_alloc ops s = (Inr p, s1)" "\<not> live s p" "inv n s1"
    "live s1 = (live s)(p := True)" "\<forall>r. live s r \<longrightarrow> view s1 r = view s r" by blast
  have "node_fits (Leaf [] 0)" by (simp add: node_fits_def)
  from persist_node_ok [OF a(3) _ this, of p] obtain s2 where b: "persist_node ops p (Leaf [] 0) s1 = (Inr (), s2)"
    "inv n s2" "live s2 = live s1" "node_at s2 p (Leaf [] 0)" "same_outside {p} s1 s2" using a(4) by auto
  have "view s2 q = view s q" if "live s q" for q
  proof -
    have "q \<noteq> p" "live s1 q" "view s1 q = view s q" using that a(2,4,5) by auto
    then show ?thesis using b(5) by (simp add: same_outside_def)
  qed
  then show ?thesis using a b by (auto simp: new_index_def sbind_def)
qed

end

lemma persist_live:
  assumes ok: "store_ok n bp" and l: "pool_live bp p" and d: "parses d"
  shows "\<exists>bp'. on_fm (write_page p d) (set_page_data p d bp) = (Inr (), bp') \<and> store_ok n bp' \<and>
    pool_live bp' = pool_live bp \<and> pool_view bp' = (pool_view bp)(p := Some d)"
proof (cases "cached bp p")
  case False
  then have "set_page_data p d bp = bp"
    by (auto simp: set_page_data_def cache_update_def cached_def split: option.splits)
  with write_live [OF ok l False d] show ?thesis by auto
next
  case True
  let ?b = "set_page_data p d bp"
  have inv: "pool_inv bp" "has_frame bp" using ok by (auto simp: store_ok_def)
  note f = set_page_data_facts [OF inv(1) True d] and g = set_page_live [OF ok True d]
  obtain xs where xs: "free_list (bp_fm ?b) xs" "\<forall>x \<in> set xs. \<not> cached ?b x"
    using g(1) by (auto simp: store_ok_def)
  have l': "pool_live ?b p" using l g(2) by simp
  then have q: "p < fm_page_count (bp_fm ?b)" "p \<notin> set xs" "length d = 4096"
    using is_free_eq [OF xs(1)] d by (auto simp: pool_live_def parses_def)
  define fm where "fm = snd (write_page p d (bp_fm ?b))"
  note fmi = pool_invD(1) [OF f(1)]
  note w = write_page_facts [OF fmi q(1,3), folded fm_def] and fl = same_fields [OF w(4)]
  let ?c = "?b\<lparr>bp_fm := fm\<rparr>"
  have e: "on_fm (write_page p d) ?b = (Inr (), ?c)"
    using w(1) by (cases "write_page p d (bp_fm ?b)") (simp add: szoom_def fm_def)
  have "cached ?b p" using True f(3) by simp
  then obtain pg where pg: "dict_get (bp_cache ?b) p = Some pg" by (auto simp: cached_def)
  moreover have "pool_view ?b p = Some d" using f(2) by simp
  ultimately have pd: "p_data pg = d" by (simp add: pool_view_def)
  have "page_ok fm k pk" if "dict_get (bp_cache ?b) k = Some pk" for k pk
    using pool_invD(3) [OF f(1) that] that pg pd fl w(3) by (auto simp: page_ok_def)
  then have "pool_inv ?c" using f(1) w(2) by (auto simp: pool_inv_def)
  moreover have x: "free_list fm xs"
    using xs(1) fl q(2) w(3) by (auto simp: free_list_def intro: free_chain_cong)
  moreover have "has_frame ?c" using g(1) by (simp add: store_ok_def has_frame_def)
  ultimately have "store_ok n ?c" using g(1) xs(2) fl by (auto simp: store_ok_def cached_def)
  moreover have "pool_live ?c = pool_live bp"
    using g(2) is_free_eq [OF x] is_free_eq [OF xs(1)] fl by (simp add: pool_live_def fun_eq_iff)
  moreover have "pool_view ?c = pool_view ?b"
    using pg w(3) by (auto simp: pool_view_def fun_eq_iff split: option.splits)
  then have "pool_view ?c = (pool_view bp)(p := Some d)" using f(2) by simp
  ultimately show ?thesis using e by auto
qed

interpretation main_nodes: node_store
  "\<lambda>n (s :: session). store_ok n (ss_pool s)" "\<lambda>s. pool_live (ss_pool s)" "\<lambda>s. pool_view (ss_pool s)"
  "\<lambda>s. cached (ss_pool s)" "\<lambda>s q. \<not> cached (ss_pool s) q \<and> pool_live (ss_pool s) q" main_ops
proof
  fix n p and s :: session assume "store_ok n (ss_pool s)" "pool_live (ss_pool s) p"
  then show "p < 2 ^ 32" by (auto simp: store_ok_def pool_live_def)
next
  fix n p d and s :: session
  assume a: "store_ok n (ss_pool s)" "pool_live (ss_pool s) p" "parses d"
  from persist_live [OF a] obtain bp' where "on_fm (write_page p d) (set_page_data p d (ss_pool s)) = (Inr (), bp')"
    "store_ok n bp'" "pool_live bp' = pool_live (ss_pool s)" "pool_view bp' = (pool_view (ss_pool s))(p := Some d)" by blast
  then show "\<exists>s'. sbind (po_set main_ops p d) (\<lambda>_. po_write main_ops p d) s = (Inr (), s') \<and> store_ok n (ss_pool s') \<and>
      pool_live (ss_pool s') = pool_live (ss_pool s) \<and>
      (\<forall>q. pool_live (ss_pool s) q \<longrightarrow> pool_view (ss_pool s') q = (if q = p then Some d else pool_view (ss_pool s) q))"
    by (auto simp: main_ops_def sbind_def szoom_def [of ss_pool])
qed

end
