(* ===== verification/Btree_Tree.thy ===== *)
theory Btree_Tree
  imports Btree_Facts
begin

text \<open>
  The B-tree as a tree: its pages with their nodes, without the store. A tree is well formed when every key
  in a subtree is routed to it by the separators above. Splitting a node and inserting into a leaf keep
  that.
\<close>

section \<open>The order of keys\<close>

lemma bytes_lt_irrefl [simp]: "\<not> bytes_lt x x"
  by (induction x) auto

lemma bytes_lt_trans: "bytes_lt x y \<Longrightarrow> bytes_lt y z \<Longrightarrow> bytes_lt x z"
proof (induction x y arbitrary: z rule: bytes_lt.induct)
  case (2 y ys)
  then show ?case by (cases z) auto
next
  case (3 x xs y ys)
  then show ?case by (cases z) auto
qed simp

lemma bytes_lt_total: "bytes_lt x y \<or> x = y \<or> bytes_lt y x"
proof (induction x y rule: bytes_lt.induct)
  case (1 xs)
  then show ?case by (cases xs) auto
next
  case (3 x xs y ys)
  then show ?case by (metis bytes_lt.simps(3) linorder_neqE_nat unsigned_word_eqI)
qed simp

lemma bytes_lt_asym: "bytes_lt x y \<Longrightarrow> \<not> bytes_lt y x"
  using bytes_lt_trans bytes_lt_irrefl by blast

lemma bytes_lt_le_trans: "bytes_lt x y \<Longrightarrow> \<not> bytes_lt z y \<Longrightarrow> bytes_lt x z"
  using bytes_lt_trans bytes_lt_total by blast

lemma bytes_le_lt_trans: "\<not> bytes_lt y x \<Longrightarrow> bytes_lt y z \<Longrightarrow> bytes_lt x z"
  using bytes_lt_trans bytes_lt_total by blast

lemma child_index_le: "child_index k ks \<le> length ks"
  by (induction ks) auto

lemma child_index_iff:
  "child_index k ks = i \<longleftrightarrow> i \<le> length ks \<and> (\<forall>j < i. \<not> bytes_lt k (ks ! j)) \<and> (i < length ks \<longrightarrow> bytes_lt k (ks ! i))"
proof (induction ks arbitrary: i)
  case (Cons x ks)
  show ?case
    by (cases i) (auto simp: Cons.IH All_less_Suc2)
qed auto

section \<open>Trees\<close>

datatype tree =
    TLeaf (tpage: nat) "(bytes \<times> RowId) list" nat
  | TNode (tpage: nat) "bytes list" "tree list"

fun node_of :: "tree \<Rightarrow> node" where
  "node_of (TLeaf p es nxt) = Leaf es nxt"
| "node_of (TNode p ks ts) = Inner ks (map tpage ts)"

fun pages :: "tree \<Rightarrow> nat list" where
  "pages (TLeaf p es nxt) = [p]"
| "pages (TNode p ks ts) = p # concat (map pages ts)"

fun entries :: "tree \<Rightarrow> (bytes \<times> RowId) set" where
  "entries (TLeaf p es nxt) = set es"
| "entries (TNode p ks ts) = \<Union> (entries ` set ts)"

fun all_keys :: "tree \<Rightarrow> bytes set" where
  "all_keys (TLeaf p es nxt) = fst ` set es"
| "all_keys (TNode p ks ts) = set ks \<union> \<Union> (all_keys ` set ts)"

fun height :: "tree \<Rightarrow> nat" where
  "height (TLeaf p es nxt) = 0"
| "height (TNode p ks ts) = Suc (Max (insert 0 (height ` set ts)))"

text \<open>\<open>L\<close> bounds the length of the keys.\<close>

definition max_of :: "DataType \<Rightarrow> tree \<Rightarrow> nat" where
  "max_of ty t = max_keys ty (node_of t)"

definition count_of :: "tree \<Rightarrow> nat" where
  "count_of t = key_count (node_of t)"

definition routed :: "bytes list \<Rightarrow> tree list \<Rightarrow> bool" where
  "routed ks ts \<longleftrightarrow> length ts = length ks + 1 \<and> (\<forall>i < length ts. \<forall>k \<in> all_keys (ts ! i). child_index k ks = i)"

fun well :: "DataType \<Rightarrow> nat \<Rightarrow> tree \<Rightarrow> bool" where
  "well ty L (TLeaf p es nxt) \<longleftrightarrow> sorted_wrt bytes_lt (map fst es) \<and> length es \<le> max_of ty (TLeaf p es nxt) \<and>
     (\<forall>(k, rid) \<in> set es. length k \<le> L \<and> rid_ok rid) \<and> nxt < 2 ^ 32"
| "well ty L (TNode p ks ts) \<longleftrightarrow> sorted_wrt bytes_lt ks \<and> length ks \<le> max_of ty (TNode p ks ts) \<and>
     (\<forall>k \<in> set ks. length k \<le> L) \<and> routed ks ts \<and> list_all (well ty L) ts"

text \<open>The capacities that the index computes leave room for keys of length \<open>L\<close>.\<close>

definition roomy :: "DataType \<Rightarrow> nat \<Rightarrow> bool" where
  "roomy ty L \<longleftrightarrow> L < 2 ^ 16 \<and>
     2 \<le> compute_max_keys (key_size ty) True \<and> compute_max_keys (key_size ty) True \<le> compute_max_keys (key_size ty) False \<and>
     compute_max_keys (key_size ty) True * (10 + L) + 4 \<le> 4060 \<and>
     compute_max_keys (key_size ty) False * (6 + L) + 4 \<le> 4060"

lemma tpage_in_pages [simp]: "tpage t \<in> set (pages t)"
  by (cases t) auto

lemma height_child: "u \<in> set ts \<Longrightarrow> height u < height (TNode p ks ts)"
  by (simp add: less_Suc_eq_le)

lemma height_node_le: "(\<And>u. u \<in> set ts \<Longrightarrow> height u \<le> h) \<Longrightarrow> height (TNode p ks ts) \<le> Suc h"
  by auto

lemma sum_list_bound: "(\<And>x. x \<in> set xs \<Longrightarrow> f x \<le> (b :: nat)) \<Longrightarrow> sum_list (map f xs) \<le> length xs * b"
  by (induction xs) (auto intro: add_mono)

lemma well_fits:
  assumes "well ty L t" and "roomy ty L" and "\<forall>p \<in> set (pages t). p < 2 ^ 32"
  shows "node_fits (node_of t)"
proof (cases t)
  case (TLeaf p es nxt)
  let ?M = "compute_max_keys (key_size ty) True"
  have n: "length es \<le> ?M" "\<forall>(k, rid) \<in> set es. length k \<le> L \<and> rid_ok rid" "nxt < 2 ^ 32"
    using assms(1) TLeaf by (auto simp: max_of_def max_keys_def)
  have "sum_list (map (length \<circ> entry_bytes) es) \<le> length es * (10 + L)"
    by (rule sum_list_bound) (use n(2) in fastforce)
  also have "\<dots> \<le> ?M * (10 + L)" using n(1) by (rule mult_le_mono1)
  also have "\<dots> \<le> 4056" using assms(2) by (simp add: roomy_def)
  finally have p: "length (payload (node_of t)) \<le> 4060"
    using TLeaf by (simp add: length_concat del: le_bytes.simps)
  have "?M * (10 + L) \<le> 4056" using assms(2) by (simp add: roomy_def)
  then have "?M * 10 \<le> 4056" using mult_le_mono2 [of 10 "10 + L" ?M] by linarith
  then show ?thesis using p n assms(2) TLeaf by (fastforce simp: node_fits_def roomy_def)
next
  case (TNode p ks ts)
  let ?M = "compute_max_keys (key_size ty) False"
  have n: "length ks \<le> ?M" "\<forall>k \<in> set ks. length k \<le> L" "length ts = length ks + 1"
    using assms(1) TNode by (auto simp: max_of_def max_keys_def routed_def)
  have "sum_list (map (length \<circ> key_bytes) ks) \<le> length ks * (2 + L)"
    by (rule sum_list_bound) (use n(2) in fastforce)
  moreover have "length (payload (node_of t)) = sum_list (map (length \<circ> key_bytes) ks) + length ts * 4"
    using TNode by (simp add: length_concat comp_def sum_list_triv del: le_bytes.simps)
  moreover have "length ks * (2 + L) + length ks * 4 + 4 = length ks * (6 + L) + 4"
    by (simp add: algebra_simps)
  moreover have "length ks * (6 + L) \<le> ?M * (6 + L)" using n(1) by (rule mult_le_mono1)
  moreover have "?M * (6 + L) + 4 \<le> 4060" using assms(2) by (simp add: roomy_def)
  ultimately have p: "length (payload (node_of t)) \<le> 4060" using n(3) by linarith
  have "?M * 6 \<le> 4056" using assms(2) mult_le_mono2 [of 6 "6 + L" ?M] unfolding roomy_def by linarith
  moreover have "\<forall>u \<in> set ts. tpage u < 2 ^ 32" using assms(3) TNode by (auto dest: bspec [OF _ tpage_in_pages])
  ultimately show ?thesis using p n assms(2) TNode by (fastforce simp: node_fits_def roomy_def)
qed


section \<open>Routing\<close>

lemma child_index_append:
  "child_index k (xs @ ys) = (if child_index k xs < length xs then child_index k xs else length xs + child_index k ys)"
  by (induction xs) auto

lemma child_index_insert:
  assumes "i \<le> length ks" and "i < length ks \<Longrightarrow> bytes_lt m (ks ! i)"
  shows "child_index k (take i ks @ m # drop i ks) =
    (let c = child_index k ks in if c < i then c else if c = i then (if bytes_lt k m then i else Suc i) else Suc c)"
proof -
  let ?a = "child_index k (take i ks)" and ?b = "child_index k (drop i ks)"
  have c: "child_index k ks = (if ?a < i then ?a else i + ?b)"
    using child_index_append [of k "take i ks" "drop i ks"] assms(1) by simp
  have a: "?a \<le> i" using child_index_le [of k "take i ks"] assms(1) by simp
  have "child_index k (take i ks @ m # drop i ks) = (if ?a < i then ?a else i + (if bytes_lt k m then 0 else Suc ?b))"
    using child_index_append [of k "take i ks" "m # drop i ks"] assms(1) by simp
  moreover have "\<not> bytes_lt k m" if "0 < ?b"
  proof -
    have "drop i ks \<noteq> []" using that by auto
    then have i: "i < length ks" by simp
    then have "drop i ks = ks ! i # drop (Suc i) ks" by (rule Cons_nth_drop_Suc [symmetric])
    then have "\<not> bytes_lt k (ks ! i)" using that by (auto split: if_splits)
    then show ?thesis using assms(2) [OF i] bytes_lt_trans by blast
  qed
  ultimately show ?thesis using c a by (auto simp: Let_def)
qed

lemma routed_child:
  assumes "routed ks ts" and "child_index k ks = i"
  shows "i < length ts"
  using assms child_index_le [of k ks] by (auto simp: routed_def)

lemma nth_split_list: "i < length ts \<Longrightarrow> j < length ts + 1 \<Longrightarrow>
   (take i ts @ l # r # drop (Suc i) ts) ! j = (if j < i then ts ! j else if j = i then l else if j = Suc i then r else ts ! (j - 1))"
proof -
  assume i: "i < length ts" and j: "j < length ts + 1"
  show ?thesis
  proof (cases "j < i")
    case False
    then obtain d where d: "j = i + d" using le_Suc_ex by fastforce
    then show ?thesis using i j by (cases d; cases "d - 1") (simp_all add: nth_append)
  qed (use i in \<open>simp add: nth_append\<close>)
qed

lemma routed_split:
  assumes r: "routed ks ts" and i: "i < length ts"
    and m: "m \<in> all_keys (ts ! i)" and keys: "all_keys l \<union> all_keys rt \<subseteq> all_keys (ts ! i)"
    and lt: "\<forall>k \<in> all_keys l. bytes_lt k m" and ge: "\<forall>k \<in> all_keys rt. \<not> bytes_lt k m"
  shows "routed (take i ks @ m # drop i ks) (take i ts @ l # rt # drop (Suc i) ts)"
proof -
  let ?ks = "take i ks @ m # drop i ks" and ?ts = "take i ts @ l # rt # drop (Suc i) ts"
  have len: "length ts = length ks + 1" using r by (simp add: routed_def)
  have rt: "child_index k ks = j" if "j < length ts" "k \<in> all_keys (ts ! j)" for j k
    using r that by (auto simp: routed_def)
  have "child_index m ks = i" using rt [OF i m] .
  then have mi: "i < length ks \<Longrightarrow> bytes_lt m (ks ! i)" by (simp add: child_index_iff)
  have "i \<le> length ks" using i len by simp
  note ins = child_index_insert [OF this mi]
  have "child_index k ?ks = j" if j: "j < length ts + 1" and k: "k \<in> all_keys (?ts ! j)" for j k
  proof -
    consider "j < i" "k \<in> all_keys (ts ! j)" | "j = i" "k \<in> all_keys l" | "j = Suc i" "k \<in> all_keys rt"
      | "Suc i < j" "k \<in> all_keys (ts ! (j - 1))"
      using k nth_split_list [OF i j, of l rt] by (auto split: if_splits)
    then show ?thesis
    proof cases
      case 1
      then show ?thesis using rt [of j k] i by (simp add: ins Let_def)
    next
      case 2
      then show ?thesis using rt [OF i, of k] keys lt by (auto simp: ins Let_def)
    next
      case 3
      then show ?thesis using rt [OF i, of k] keys ge by (auto simp: ins Let_def)
    next
      case 4
      then obtain c where "j = Suc c" "i < c" by (cases j) auto
      then show ?thesis using 4 rt [of c k] j by (simp add: ins Let_def)
    qed
  qed
  then show ?thesis using len i by (simp add: routed_def)
qed

lemma sorted_split:
  assumes "sorted_wrt bytes_lt ks" and "i \<le> length ks" and "i < length ks \<Longrightarrow> bytes_lt m (ks ! i)"
    and "\<forall>j < i. bytes_lt (ks ! j) m"
  shows "sorted_wrt bytes_lt (take i ks @ m # drop i ks)"
proof -
  have "sorted_wrt bytes_lt (take i ks @ drop i ks)" using assms(1) by simp
  then have s: "sorted_wrt bytes_lt (take i ks)" "sorted_wrt bytes_lt (drop i ks)"
    "\<forall>x \<in> set (take i ks). \<forall>y \<in> set (drop i ks). bytes_lt x y" unfolding sorted_wrt_append by blast+
  have a: "\<forall>x \<in> set (take i ks). bytes_lt x m" using assms(2,4) by (auto simp: in_set_conv_nth)
  have b: "\<forall>y \<in> set (drop i ks). bytes_lt m y"
  proof (cases "i < length ks")
    case True
    then have d: "drop i ks = ks ! i # drop (Suc i) ks" by (rule Cons_nth_drop_Suc [symmetric])
    then have "\<forall>y \<in> set (drop (Suc i) ks). bytes_lt (ks ! i) y" using s(2) by simp
    then show ?thesis using d assms(3) [OF True] bytes_lt_trans by auto
  qed simp
  show ?thesis using s a b by (simp add: sorted_wrt_append)
qed

section \<open>Splitting\<close>

fun split_tree :: "nat \<Rightarrow> tree \<Rightarrow> tree \<times> bytes \<times> tree" where
  "split_tree q (TLeaf p es nxt) =
     (let mid = length es div 2 in (TLeaf p (take mid es) 0, fst (es ! mid), TLeaf q (drop mid es) nxt))"
| "split_tree q (TNode p ks ts) =
     (let mid = length ks div 2 in
      (TNode p (take mid ks) (take (mid + 1) ts), ks ! mid, TNode q (drop (mid + 1) ks) (drop (mid + 1) ts)))"

text \<open>The pages below a tree, and a predicate on every page of it.\<close>

fun everywhere :: "(nat \<Rightarrow> node \<Rightarrow> bool) \<Rightarrow> tree \<Rightarrow> bool" where
  "everywhere N (TLeaf p es nxt) = N p (Leaf es nxt)"
| "everywhere N (TNode p ks ts) = (N p (Inner ks (map tpage ts)) \<and> list_all (everywhere N) ts)"

fun below :: "(nat \<Rightarrow> node \<Rightarrow> bool) \<Rightarrow> tree \<Rightarrow> bool" where
  "below N (TLeaf p es nxt) = True"
| "below N (TNode p ks ts) = list_all (everywhere N) ts"

lemma everywhere_iff: "everywhere N t \<longleftrightarrow> N (tpage t) (node_of t) \<and> below N t"
  by (cases t) auto

lemma everywhere_mono: "everywhere N t \<Longrightarrow> (\<And>p nd. p \<in> set (pages t) \<Longrightarrow> N p nd \<Longrightarrow> N' p nd) \<Longrightarrow> everywhere N' t"
  by (induction t) (auto simp: list_all_iff)

lemma split_node_of:
  assumes "split_tree q t = (l, m, r)" and "2 \<le> count_of t"
  shows "split_node (node_of t) = Inr (node_of l, m, node_of r)"
proof (cases t)
  case (TLeaf p es nxt)
  let ?mid = "length es div 2"
  have "?mid < length es" using assms(2) TLeaf by (simp add: count_of_def)
  then have d: "drop ?mid es = es ! ?mid # drop (Suc ?mid) es" by (rule Cons_nth_drop_Suc [symmetric])
  have l: "l = TLeaf p (take ?mid es) 0" "m = fst (es ! ?mid)" "r = TLeaf q (drop ?mid es) nxt"
    using assms(1) TLeaf by (simp_all add: Let_def)
  show ?thesis unfolding TLeaf node_of.simps split_node.simps Let_def l
    using d by (auto split: list.splits prod.splits)
next
  case (TNode p ks ts)
  then show ?thesis using assms by (auto simp: Let_def take_map drop_map count_of_def)
qed


lemma max_of_simps:
  "max_of ty (TLeaf p es nxt) = compute_max_keys (key_size ty) True"
  "max_of ty (TNode p ks ts) = compute_max_keys (key_size ty) False"
  by (simp_all add: max_of_def max_keys_def)

lemma count_of_simps [simp]: "count_of (TLeaf p es nxt) = length es" "count_of (TNode p ks ts) = length ks"
  by (simp_all add: count_of_def)

text \<open>The halves of a tree keep its rows and keys, and the key between separates them.\<close>

definition halves :: "tree \<Rightarrow> nat \<Rightarrow> tree \<Rightarrow> bytes \<Rightarrow> tree \<Rightarrow> bool" where
  "halves t q l m r \<longleftrightarrow> tpage l = tpage t \<and> tpage r = q \<and> entries t = entries l \<union> entries r \<and>
     all_keys t = insert m (all_keys l \<union> all_keys r) \<and> all_keys l \<noteq> {} \<and>
     (\<forall>k \<in> all_keys l. bytes_lt k m) \<and> (\<forall>k \<in> all_keys r. \<not> bytes_lt k m) \<and>
     count_of l < count_of t \<and> count_of r < count_of t \<and> height l \<le> height t \<and> height r \<le> height t \<and>
     set (pages l) \<union> set (pages r) = insert q (set (pages t)) \<and>
     (distinct (pages t) \<and> q \<notin> set (pages t) \<longrightarrow> distinct (pages l @ pages r)) \<and>
     (\<forall>N. below N t \<longrightarrow> below N l \<and> below N r) \<and> (\<forall>ty. max_of ty l = max_of ty t \<and> max_of ty r = max_of ty t)"

lemma height_sub: "set us \<subseteq> set ts \<Longrightarrow> height (TNode q ks' us) \<le> height (TNode p ks ts)"
  by (auto intro!: Max_mono)

lemma split_leaf_halves:
  assumes s: "split_tree q (TLeaf p es nxt) = (l, m, r)" and n: "2 \<le> length es" and so: "sorted_wrt bytes_lt (map fst es)"
  shows "halves (TLeaf p es nxt) q l m r"
proof -
  let ?mid = "length es div 2"
  have mid: "0 < ?mid" "?mid < length es" using n by auto
  have l: "l = TLeaf p (take ?mid es) 0" "m = fst (es ! ?mid)" "r = TLeaf q (drop ?mid es) nxt"
    using s by (simp_all add: Let_def)
  have es: "set es = set (take ?mid es) \<union> set (drop ?mid es)" by (metis append_take_drop_id set_append)
  have d: "drop ?mid es = es ! ?mid # drop (Suc ?mid) es" using mid(2) by (rule Cons_nth_drop_Suc [symmetric])
  have "sorted_wrt bytes_lt (map fst (take ?mid es) @ map fst (drop ?mid es))" using so by (simp flip: map_append)
  then have w: "sorted_wrt bytes_lt (map fst (drop ?mid es))"
    "\<forall>x \<in> set (map fst (take ?mid es)). \<forall>y \<in> set (map fst (drop ?mid es)). bytes_lt x y"
    unfolding sorted_wrt_append by blast+
  have mem: "es ! ?mid \<in> set (drop ?mid es)" using d by simp
  have lt: "\<forall>k \<in> fst ` set (take ?mid es). bytes_lt k m" using w(2) mem l(2) by auto
  have ge: "\<forall>k \<in> fst ` set (drop ?mid es). \<not> bytes_lt k m"
    using w(1) l(2) bytes_lt_asym unfolding d by auto
  have ne: "take ?mid es \<noteq> []" using mid by auto
  show ?thesis unfolding halves_def l
    using es lt ge ne mid mem l(2) by (auto simp: max_of_simps image_Un)
qed

lemma split_node_halves:
  assumes s: "split_tree q (TNode p ks ts) = (l, m, r)" and n: "2 \<le> length ks" and so: "sorted_wrt bytes_lt ks"
    and ro: "routed ks ts"
  shows "halves (TNode p ks ts) q l m r"
proof -
  let ?mid = "length ks div 2"
  have mid: "0 < ?mid" "?mid < length ks" using n by auto
  have l: "l = TNode p (take ?mid ks) (take (?mid + 1) ts)" "m = ks ! ?mid" "r = TNode q (drop (?mid + 1) ks) (drop (?mid + 1) ts)"
    using s by (simp_all add: Let_def)
  have ts: "ts = take (?mid + 1) ts @ drop (?mid + 1) ts" by simp
  have ks: "ks = take ?mid ks @ ks ! ?mid # drop (?mid + 1) ks" using mid(2) by (simp add: id_take_nth_drop)
  have lts: "set ts = set (take (?mid + 1) ts) \<union> set (drop (?mid + 1) ts)" by (metis ts set_append)
  have lks: "set ks = insert m (set (take ?mid ks) \<union> set (drop (?mid + 1) ks))"
    using arg_cong [OF ks, of set] l(2) by auto
  have "sorted_wrt bytes_lt (take ?mid ks @ ks ! ?mid # drop (?mid + 1) ks)" using so ks by simp
  then have w: "\<forall>x \<in> set (take ?mid ks). bytes_lt x m" "\<forall>y \<in> set (drop (?mid + 1) ks). bytes_lt m y"
    unfolding l(2) sorted_wrt_append by auto
  have le: "bytes_lt k m" if "i \<le> ?mid" "i < length ts" "k \<in> all_keys (ts ! i)" for i k
  proof -
    have "child_index k ks = i" using ro that by (auto simp: routed_def)
    then have "bytes_lt k (ks ! i)" using that(1) mid(2) by (simp add: child_index_iff)
    moreover have "i = ?mid \<or> bytes_lt (ks ! i) m"
      using so mid(2) that(1) l(2) sorted_wrt_nth_less [of bytes_lt ks i ?mid]
      by (cases "i = ?mid") simp_all
    ultimately show ?thesis using bytes_lt_trans l(2) by blast
  qed
  have gt: "\<not> bytes_lt k m" if "?mid < i" "i < length ts" "k \<in> all_keys (ts ! i)" for i k
  proof -
    have "child_index k ks = i" using ro that by (auto simp: routed_def)
    then show ?thesis using that(1) l(2) by (simp add: child_index_iff)
  qed
  have "bytes_lt k m" if "u \<in> set (take (?mid + 1) ts)" "k \<in> all_keys u" for u k
  proof -
    from that(1) obtain j where "j < length ts" "j < ?mid + 1" "u = ts ! j"
      by (auto simp: in_set_conv_nth)
    then show ?thesis using le [of j k] that(2) by simp
  qed
  then have lt: "\<forall>k \<in> all_keys l. bytes_lt k m" using w(1) l(1) by auto
  have "\<not> bytes_lt k m" if "u \<in> set (drop (?mid + 1) ts)" "k \<in> all_keys u" for u k
  proof -
    from that(1) obtain j where "j < length ts - (?mid + 1)" "u = ts ! (?mid + 1 + j)"
      by (auto simp: in_set_conv_nth)
    then show ?thesis using gt [of "?mid + 1 + j" k] that(2) by simp
  qed
  then have ge: "\<forall>k \<in> all_keys r. \<not> bytes_lt k m" using w(2) l(3) bytes_lt_asym by auto
  have h: "height l \<le> height (TNode p ks ts)" "height r \<le> height (TNode p ks ts)"
    unfolding l by (rule height_sub; simp add: set_take_subset set_drop_subset)+
  have pg: "set (pages l) \<union> set (pages r) = insert q (set (pages (TNode p ks ts)))"
    using lts l(1,3) by auto
  have "concat (map pages ts) = concat (map pages (take (?mid + 1) ts)) @ concat (map pages (drop (?mid + 1) ts))"
    by (metis ts concat_append map_append)
  then have dp: "distinct (pages (TNode p ks ts)) \<and> q \<notin> set (pages (TNode p ks ts)) \<longrightarrow> distinct (pages l @ pages r)"
    unfolding l pages.simps by (simp del: concat_append)
  have nb: "below N (TNode p ks ts) \<longrightarrow> below N l \<and> below N r" for N
    using lts l(1,3) by (simp add: list_all_iff)
  have e: "entries (TNode p ks ts) = entries l \<union> entries r" using lts l(1,3) by auto
  have k: "all_keys (TNode p ks ts) = insert m (all_keys l \<union> all_keys r)" using lts lks l(1,3) by auto
  have ne: "all_keys l \<noteq> {}" using mid l(1) by auto
  show ?thesis unfolding halves_def
    using lt ge h pg dp nb e k ne mid l by (auto simp: max_of_simps simp del: entries.simps all_keys.simps height.simps pages.simps)
qed


lemma split_halves:
  assumes "well ty L t" and "2 \<le> count_of t" and "split_tree q t = (l, m, r)"
  shows "halves t q l m r"
  using assms by (cases t) (auto intro: split_leaf_halves split_node_halves)

lemma split_well:
  assumes w: "well ty L t" and n: "2 \<le> count_of t" and s: "split_tree q t = (l, m, r)"
  shows "well ty L l" and "well ty L r" and "length m \<le> L"
proof -
  have "well ty L l \<and> well ty L r \<and> length m \<le> L"
  proof (cases t)
    case (TLeaf p es nxt)
    let ?mid = "length es div 2"
    have mid: "?mid < length es" using n TLeaf by auto
    have l: "l = TLeaf p (take ?mid es) 0" "m = fst (es ! ?mid)" "r = TLeaf q (drop ?mid es) nxt"
      using s TLeaf by (simp_all add: Let_def)
    have "sorted_wrt bytes_lt (take ?mid (map fst es))" "sorted_wrt bytes_lt (drop ?mid (map fst es))"
      using w TLeaf by (simp_all add: sorted_wrt_take sorted_wrt_drop)
    then have "sorted_wrt bytes_lt (map fst (take ?mid es))" "sorted_wrt bytes_lt (map fst (drop ?mid es))"
      by (simp_all add: take_map drop_map)
    moreover have "es ! ?mid \<in> set es" using mid by simp
    ultimately show ?thesis
      using w TLeaf l by (fastforce simp: max_of_simps dest: in_set_takeD in_set_dropD)
  next
    case (TNode p ks ts)
    let ?mid = "length ks div 2"
    have mid: "?mid < length ks" using n TNode by auto
    have l: "l = TNode p (take ?mid ks) (take (?mid + 1) ts)" "m = ks ! ?mid"
      "r = TNode q (drop (?mid + 1) ks) (drop (?mid + 1) ts)"
      using s TNode by (simp_all add: Let_def)
    have ro: "routed ks ts" and len: "length ts = length ks + 1" using w TNode by (auto simp: routed_def)
    have rt: "child_index k ks = i" if "i < length ts" "k \<in> all_keys (ts ! i)" for i k
      using ro that by (auto simp: routed_def)
    have ks: "ks = take ?mid ks @ ks ! ?mid # drop (?mid + 1) ks" using mid by (simp add: id_take_nth_drop)
    have c: "child_index k ks = (if child_index k (take ?mid ks) < ?mid then child_index k (take ?mid ks)
        else ?mid + (if bytes_lt k m then 0 else Suc (child_index k (drop (?mid + 1) ks))))" for k
      using child_index_append [of k "take ?mid ks" "ks ! ?mid # drop (?mid + 1) ks"] ks mid l(2) by simp
    have a: "child_index k (take ?mid ks) \<le> ?mid" for k using child_index_le [of k "take ?mid ks"] by simp
    have "child_index k (take ?mid ks) = i" if "i < ?mid + 1" "k \<in> all_keys (ts ! i)" for i k
      using rt [of i k] that len mid c [of k] a [of k] by (auto split: if_splits)
    then have r1: "routed (take ?mid ks) (take (?mid + 1) ts)" using len mid by (simp add: routed_def)
    have "child_index k (drop (?mid + 1) ks) = i" if "i + (?mid + 1) < length ts" "k \<in> all_keys (ts ! (i + (?mid + 1)))" for i k
      using rt [OF that] c [of k] by (auto split: if_splits)
    then have r2: "routed (drop (?mid + 1) ks) (drop (?mid + 1) ts)"
      using len mid by (auto simp: routed_def add.commute)
    have "sorted_wrt bytes_lt (take ?mid ks)" "sorted_wrt bytes_lt (drop (?mid + 1) ks)"
      using w TNode by (simp_all add: sorted_wrt_take sorted_wrt_drop)
    moreover have "list_all (well ty L) (take (?mid + 1) ts)" "list_all (well ty L) (drop (?mid + 1) ts)"
      using w TNode by (auto simp: list_all_iff dest: in_set_takeD in_set_dropD)
    moreover have "ks ! ?mid \<in> set ks" using mid by simp
    ultimately show ?thesis
      using w TNode l r1 r2 by (auto simp: max_of_simps dest: in_set_takeD in_set_dropD)
  qed
  then show "well ty L l" and "well ty L r" and "length m \<le> L" by simp_all
qed

section \<open>A split child and a changed child\<close>

lemma well_split_child:
  assumes w: "well ty L (TNode p ks ts)" and i: "i < length ts" and n: "length ks < max_of ty (TNode p ks ts)"
    and h: "halves (ts ! i) q l m r" and wl: "well ty L l" "well ty L r" "length m \<le> L"
  shows "well ty L (TNode p (take i ks @ m # drop i ks) (take i ts @ l # r # drop (Suc i) ts))"
proof -
  have ro: "routed ks ts" and len: "length ts = length ks + 1" using w by (auto simp: routed_def)
  have hk: "m \<in> all_keys (ts ! i)" "all_keys l \<union> all_keys r \<subseteq> all_keys (ts ! i)" "all_keys l \<noteq> {}"
    "\<forall>k \<in> all_keys l. bytes_lt k m" "\<forall>k \<in> all_keys r. \<not> bytes_lt k m" using h by (auto simp: halves_def)
  have rt: "child_index k ks = i" if "k \<in> all_keys (ts ! i)" for k using ro i that by (auto simp: routed_def)
  have mi: "i < length ks \<Longrightarrow> bytes_lt m (ks ! i)" using rt [OF hk(1)] by (simp add: child_index_iff)
  have "bytes_lt (ks ! j) m" if "j < i" for j
  proof -
    obtain x where x: "x \<in> all_keys l" using hk(3) by blast
    then have "child_index x ks = i" using rt hk(2) by blast
    then have "\<not> bytes_lt x (ks ! j)" using that by (simp add: child_index_iff)
    moreover have "bytes_lt x m" using hk(4) x by blast
    ultimately show ?thesis by (rule bytes_le_lt_trans)
  qed
  then have "sorted_wrt bytes_lt (take i ks @ m # drop i ks)"
    using w i len mi by (intro sorted_split) simp_all
  moreover have "routed (take i ks @ m # drop i ks) (take i ts @ l # r # drop (Suc i) ts)"
    by (rule routed_split [OF ro i hk(1,2,4,5)])
  moreover have "list_all (well ty L) (take i ts @ l # r # drop (Suc i) ts)"
    using w wl(1,2) by (auto simp: list_all_iff dest: in_set_takeD in_set_dropD)
  ultimately show ?thesis using w n wl(3) i len
    by (auto simp: max_of_simps dest: in_set_takeD in_set_dropD)
qed

lemma well_replace:
  assumes w: "well ty L (TNode p ks ts)" and i: "i < length ts" and u: "well ty L u"
    and k: "all_keys u \<subseteq> insert k (all_keys (ts ! i))" "child_index k ks = i"
  shows "well ty L (TNode p ks (ts[i := u]))"
proof -
  have "routed ks (ts[i := u])"
    using w i k unfolding well.simps routed_def by (auto simp: nth_list_update)
  moreover have "list_all (well ty L) (ts[i := u])"
    using w u by (auto simp: list_all_iff dest!: set_update_subset_insert [THEN subsetD])
  ultimately show ?thesis using w by (simp add: max_of_simps)
qed

end
