(* ===== verification/Btree_Search.thy ===== *)
theory Btree_Search
  imports Btree_Tree
begin

text \<open>
  The operations of the index on the pages of a store, against the tree of those pages: a search finds the rows
  of a key, an insertion adds one row and a deletion removes one, through any number of splits.
\<close>

lemma entries_keys: "(k, rid) \<in> entries t \<Longrightarrow> k \<in> all_keys t"
  by (induction t) force+

lemma distinct_middle:
  "distinct (a @ x @ b) \<Longrightarrow> distinct y \<Longrightarrow> (\<And>p. p \<in> set y \<Longrightarrow> p \<in> set x \<or> p \<notin> set a \<union> set b) \<Longrightarrow> distinct (a @ y @ b)"
  by auto

lemma pages_split:
  assumes "i < length ts"
  shows "pages (TNode p ks ts) = (p # concat (map pages (take i ts))) @ pages (ts ! i) @ concat (map pages (drop (Suc i) ts))"
proof -
  have "ts = take i ts @ ts ! i # drop (Suc i) ts" using assms by (rule id_take_nth_drop)
  then have "map pages ts = map pages (take i ts) @ pages (ts ! i) # map pages (drop (Suc i) ts)"
    by (metis list.simps(9) map_append)
  then show ?thesis by simp
qed

lemma distinct_child: "i < length ts \<Longrightarrow> distinct (pages (TNode p ks ts)) \<Longrightarrow> distinct (pages (ts ! i))"
  by (simp add: pages_split del: pages.simps)

lemma pages_child: "i < length ts \<Longrightarrow> set (pages (ts ! i)) \<subseteq> set (pages (TNode p ks ts))"
  by auto

context node_store
begin

definition tree_at :: "'s \<Rightarrow> tree \<Rightarrow> bool" where
  "tree_at s t \<longleftrightarrow> everywhere (node_at s) t"

lemma tree_at_simps:
  "tree_at s (TLeaf p es nxt) \<longleftrightarrow> node_at s p (Leaf es nxt)"
  "tree_at s (TNode p ks ts) \<longleftrightarrow> node_at s p (Inner ks (map tpage ts)) \<and> list_all (tree_at s) ts"
  by (simp_all add: tree_at_def [abs_def])

lemma tree_at_root: "tree_at s t \<Longrightarrow> node_at s (tpage t) (node_of t)"
  by (simp add: tree_at_def everywhere_iff)

lemma tree_at_live: "tree_at s t \<Longrightarrow> p \<in> set (pages t) \<Longrightarrow> live s p"
  by (induction t) (auto simp: tree_at_simps list_all_iff node_at_def)

lemma tree_at_frame: "tree_at s t \<Longrightarrow> same_outside P s s' \<Longrightarrow> P \<inter> set (pages t) = {} \<Longrightarrow> tree_at s' t"
  unfolding tree_at_def by (erule everywhere_mono) (auto intro: node_at_frame)

lemma read_tree_ok:
  assumes "inv n s" and "tree_at s t"
  shows "\<exists>s'. read_node ops (tpage t) s = (Inr (node_of t), s') \<and> inv n s' \<and> live s' = live s \<and> same_outside {} s s'"
  using read_node_ok [OF assms(1) tree_at_root [OF assms(2)]] .

section \<open>Search\<close>

lemma search_node_ok:
  "tree_at s t \<Longrightarrow> well ty L t \<Longrightarrow> inv n s \<Longrightarrow> height t < fuel \<Longrightarrow>
   \<exists>rids s'. search_node ops fuel (tpage t) k s = (Inr rids, s') \<and> inv n s' \<and> live s' = live s \<and> same_outside {} s s' \<and>
     set rids = {rid. (k, rid) \<in> entries t} \<and> length rids \<le> 1"
proof (induction fuel arbitrary: t s)
  case (Suc fuel)
  obtain s1 where s1: "read_node ops (tpage t) s = (Inr (node_of t), s1)" "inv n s1" "live s1 = live s" "same_outside {} s s1"
    using read_tree_ok [OF Suc.prems(3,1)] by blast
  show ?case
  proof (cases t)
    case (TLeaf p es nxt)
    have so: "sorted_wrt bytes_lt (map fst es)" using Suc.prems(2) TLeaf by simp
    have one: "length (filter (\<lambda>(k', rid). k' = k) es) \<le> 1"
      using so
    proof (induction es)
      case (Cons e es)
      then have "\<forall>e' \<in> set es. fst e \<noteq> fst e'" by (force simp: sorted_wrt_map)
      then have "fst e = k \<Longrightarrow> filter (\<lambda>(k', rid). k' = k) es = []" by (auto simp: filter_empty_conv)
      moreover have "length (filter (\<lambda>(k', rid). k' = k) es) \<le> 1" using Cons by simp
      ultimately show ?case by (cases e) auto
    qed simp
    have "search_node ops (Suc fuel) (tpage t) k s = (Inr (map snd (filter (\<lambda>(k', rid). k' = k) es)), s1)"
      using s1(1) TLeaf by (simp add: sbind_def)
    moreover have "set (map snd (filter (\<lambda>(k', rid). k' = k) es)) = {rid. (k, rid) \<in> entries t}"
      using TLeaf by force
    ultimately show ?thesis using s1 one by auto
  next
    case (TNode p ks ts)
    define i where "i = child_index k ks"
    have ro: "routed ks ts" using Suc.prems(2) TNode by simp
    then have i: "i < length ts" using routed_child i_def by blast
    then have u: "ts ! i \<in> set ts" by simp
    have tu: "tree_at s (ts ! i)" "well ty L (ts ! i)" using Suc.prems(1,2) TNode u by (auto simp: tree_at_simps list_all_iff)
    have "height (ts ! i) < height t" unfolding TNode by (rule height_child [OF u])
    then have "height (ts ! i) < fuel" using Suc.prems(4) by linarith
    moreover have "tree_at s1 (ts ! i)" using tree_at_frame [OF tu(1) s1(4)] by simp
    ultimately obtain rids s2 where s2: "search_node ops fuel (tpage (ts ! i)) k s1 = (Inr rids, s2)" "inv n s2"
      "live s2 = live s1" "same_outside {} s1 s2" "set rids = {rid. (k, rid) \<in> entries (ts ! i)}" "length rids \<le> 1"
      using Suc.IH [OF _ tu(2) s1(2)] by blast
    have "search_node ops (Suc fuel) (tpage t) k s = (Inr rids, s2)"
      using s1(1) s2(1) TNode i by (simp add: sbind_def i_def Let_def)
    moreover have "(k, rid) \<in> entries (ts ! i)" if "(k, rid) \<in> entries t" for rid
    proof -
      from that TNode obtain j where j: "j < length ts" "(k, rid) \<in> entries (ts ! j)" by (auto simp: in_set_conv_nth)
      then have "child_index k ks = j" using ro entries_keys by (auto simp: routed_def)
      then show ?thesis using j i_def by simp
    qed
    ultimately show ?thesis using s1 s2 u TNode same_outside_trans [OF s1(4) s2(4)] by auto
  qed
qed simp

section \<open>Growing a tree\<close>

definition grown :: "'s \<Rightarrow> tree \<Rightarrow> 's \<Rightarrow> tree \<Rightarrow> bool" where
  "grown s t s' t' \<longleftrightarrow> tpage t' = tpage t \<and> tree_at s' t' \<and> distinct (pages t') \<and> set (pages t) \<subseteq> set (pages t') \<and>
     (\<forall>p \<in> set (pages t'). p \<in> set (pages t) \<or> \<not> live s p) \<and> same_outside (set (pages t)) s s'"

lemma grown_live: "grown s t s' t' \<Longrightarrow> live s p \<Longrightarrow> live s' p"
  by (simp add: grown_def same_outside_def)

lemma grown_trans:
  assumes g: "grown s t s1 t1" and h: "grown s1 t1 s2 t2"
  shows "grown s t s2 t2"
proof -
  have "live s q \<longrightarrow> q \<notin> set (pages t) \<longrightarrow> view s2 q = view s q" for q
    using g h unfolding grown_def same_outside_def by metis
  moreover have "live s q \<longrightarrow> live s2 q" for q using g h unfolding grown_def same_outside_def by blast
  ultimately have "same_outside (set (pages t)) s s2" by (simp add: same_outside_def)
  moreover have "p \<in> set (pages t) \<or> \<not> live s p" if "p \<in> set (pages t2)" for p
    using that g h grown_live [OF g] unfolding grown_def by blast
  ultimately show ?thesis using g h unfolding grown_def by auto
qed

lemma grown_child:
  assumes t: "tree_at s (TNode p ks ts)" and d: "distinct (pages (TNode p ks ts))" and i: "i < length ts"
    and g: "grown s (ts ! i) s' u"
  shows "grown s (TNode p ks ts) s' (TNode p ks (ts[i := u]))"
proof -
  let ?A = "p # concat (map pages (take i ts))" and ?B = "concat (map pages (drop (Suc i) ts))"
  note pg = pages_split [OF i, of p ks]
  have lu: "ts[i := u] = take i ts @ u # drop (Suc i) ts" using i by (rule upd_conv_take_nth_drop)
  have lv: "live s q" if "q \<in> set ?A \<union> set ?B \<union> set (pages (ts ! i))" for q
    using tree_at_live [OF t, of q] that unfolding pg by auto
  have dis: "set (pages (ts ! i)) \<inter> (set ?A \<union> set ?B) = {}" using d [unfolded pg] by auto
  have gu: "tpage u = tpage (ts ! i)" "tree_at s' u" "distinct (pages u)" "set (pages (ts ! i)) \<subseteq> set (pages u)"
    "\<forall>q \<in> set (pages u). q \<in> set (pages (ts ! i)) \<or> \<not> live s q" "same_outside (set (pages (ts ! i))) s s'"
    using g by (simp_all add: grown_def)
  have npg: "pages (TNode p ks (ts[i := u])) = ?A @ pages u @ ?B" by (simp add: lu)
  have "distinct (?A @ pages u @ ?B)"
    by (rule distinct_middle [OF d [unfolded pg] gu(3)]) (use gu(5) lv in blast)
  moreover have "map tpage (ts[i := u]) = map tpage ts" using gu(1) i by (simp add: map_update list_update_same_conv)
  moreover have "node_at s' p (Inner ks (map tpage ts))"
    using t d [unfolded pg] by (intro node_at_frame [OF _ gu(6)]) (auto simp: tree_at_simps \<open>map tpage (ts[i := u]) = map tpage ts\<close>)
  moreover have "tree_at s' x" if "x \<in> set (ts[i := u])" for x
  proof -
    from that i obtain j where j: "j < length ts" "x = (if j = i then u else ts ! j)"
      by (auto simp: in_set_conv_nth nth_list_update)
    show ?thesis
    proof (cases "j = i")
      case False
      have "tree_at s (ts ! j)" using t j(1) by (simp add: tree_at_simps list_all_length)
      moreover have "ts ! j \<in> set (take i ts) \<union> set (drop (Suc i) ts)"
      proof (cases "j < i")
        case True
        then have "take i ts ! j = ts ! j" "j < length (take i ts)" using i by simp_all
        then show ?thesis by (metis UnI1 nth_mem)
      next
        case False
        with \<open>j \<noteq> i\<close> have "drop (Suc i) ts ! (j - Suc i) = ts ! j" "j - Suc i < length (drop (Suc i) ts)"
          using j(1) by simp_all
        then show ?thesis by (metis UnI2 nth_mem)
      qed
      then have "set (pages (ts ! j)) \<subseteq> set ?A \<union> set ?B" by auto
      then have "set (pages (ts ! i)) \<inter> set (pages (ts ! j)) = {}" using dis by blast
      ultimately show ?thesis using tree_at_frame [OF _ gu(6)] j(2) False by simp
    qed (use gu(2) j(2) in simp)
  qed
  ultimately have "tree_at s' (TNode p ks (ts[i := u]))" by (simp add: tree_at_simps list_all_iff)
  moreover have "same_outside (set (pages (TNode p ks ts))) s s'"
    using same_outside_mono [OF gu(6)] pages_child [OF i] by blast
  moreover have "q \<in> set (pages (TNode p ks ts)) \<or> \<not> live s q" if "q \<in> set (pages (TNode p ks (ts[i := u])))" for q
    using that gu(5) unfolding npg pg by auto
  moreover have "set (pages (TNode p ks ts)) \<subseteq> set (pages (TNode p ks (ts[i := u])))"
    using gu(4) unfolding npg pg by auto
  ultimately show ?thesis using \<open>distinct (?A @ pages u @ ?B)\<close> unfolding grown_def npg by simp
qed

section \<open>Splitting a child\<close>

lemma same_outside_dead: "same_outside (insert q S) s s' \<Longrightarrow> \<not> live s q \<Longrightarrow> same_outside S s s'"
  by (auto simp: same_outside_def)

lemma split_tree_at:
  assumes "halves u q l m r" and "tree_at s u" and "node_at s' (tpage l) (node_of l)" and "node_at s' q (node_of r)"
    and "same_outside {tpage u, q} s s'" and "distinct (pages u)" and "q \<notin> set (pages u)"
  shows "tree_at s' l" and "tree_at s' r"
proof -
  have "below (node_at s') u"
  proof (cases u)
    case (TNode p ks ts)
    have "tree_at s' x" if "x \<in> set ts" for x
      using that assms(2,6,7) TNode by (intro tree_at_frame [OF _ assms(5)]) (auto simp: tree_at_simps list_all_iff)
    then show ?thesis using TNode by (simp add: list_all_iff tree_at_def)
  qed simp
  then show "tree_at s' l" "tree_at s' r"
    using assms(1,3,4) by (auto simp: tree_at_def everywhere_iff halves_def)
qed

lemma node_fits_tree:
  assumes "well ty L t" and "roomy ty L" and "inv n s" and "\<forall>p \<in> set (pages t). live s p"
  shows "node_fits (node_of t)"
  using assms live_small by (intro well_fits [OF assms(1,2)]) blast

lemma split_child_ok:
  assumes t: "tree_at s (TNode p ks ts)" and d: "distinct (pages (TNode p ks ts))" and w: "well ty L (TNode p ks ts)"
    and ro: "roomy ty L" and i: "i < length ts" and n: "length ks < max_of ty (TNode p ks ts)"
    and c: "2 \<le> count_of (ts ! i)" and inv: "inv (Suc n) s"
  shows "\<exists>q l m r s'. split_child ops p i s = (Inr (), s') \<and> inv n s' \<and> halves (ts ! i) q l m r \<and> well ty L l \<and> well ty L r \<and>
    length m \<le> L \<and> grown s (TNode p ks ts) s' (TNode p (take i ks @ m # drop i ks) (take i ts @ l # r # drop (Suc i) ts))"
proof -
  let ?u = "ts ! i"
  have u: "?u \<in> set ts" using i by simp
  have tu: "tree_at s ?u" "well ty L ?u" using t w u by (auto simp: tree_at_simps list_all_iff)
  obtain s1 where s1: "read_node ops p s = (Inr (Inner ks (map tpage ts)), s1)" "inv (Suc n) s1" "live s1 = live s" "same_outside {} s s1"
    using read_tree_ok [OF inv t] by auto
  obtain s2 where s2: "read_node ops (tpage ?u) s1 = (Inr (node_of ?u), s2)" "inv (Suc n) s2" "live s2 = live s1" "same_outside {} s1 s2"
    using read_tree_ok [OF s1(2) tree_at_frame [OF tu(1) s1(4)]] by auto
  have so2: "same_outside {} s s2" using same_outside_trans [OF s1(4) s2(4)] by simp
  obtain q s3 where s3: "po_alloc ops s2 = (Inr q, s3)" "\<not> live s2 q" "inv n s3" "live s3 = (live s2)(q := True)"
    "\<forall>r. live s2 r \<longrightarrow> view s3 r = view s2 r" using alloc_law [OF s2(2)] by blast
  have q: "\<not> live s q" using s3(2) s2(3) s1(3) by simp
  have so3: "same_outside {} s s3" using so2 s3(2,4,5) s2(3) s1(3) by (auto simp: same_outside_def)
  obtain l m r where sp: "split_tree q ?u = (l, m, r)" by (cases "split_tree q ?u")
  note h = split_halves [OF tu(2) c sp] and sw = split_well [OF tu(2) c sp] and sn = split_node_of [OF sp c]
  let ?ks = "take i ks @ m # drop i ks" and ?ts = "take i ts @ l # r # drop (Suc i) ts"
  let ?t = "TNode p ?ks ?ts"
  note wt = well_split_child [OF w i n h sw]
  have hp: "tpage l = tpage ?u" "tpage r = q" "set (pages l) \<union> set (pages r) = insert q (set (pages ?u))"
    using h by (auto simp: halves_def)
  have lt: "live s x" if "x \<in> set (pages (TNode p ks ts))" for x using tree_at_live [OF t that] .
  have lu: "live s x" if "x \<in> set (pages ?u)" for x using tree_at_live [OF tu(1) that] .
  have l3: "live s3 = (live s)(q := True)" using s3(4) s2(3) s1(3) by simp
  have "\<forall>x \<in> set (pages l) \<union> set (pages r). live s3 x" using hp(3) lu l3 by auto
  then have fits: "node_fits (node_of l)" "node_fits (node_of r)"
    using node_fits_tree [OF sw(1) ro s3(3)] node_fits_tree [OF sw(2) ro s3(3)] by auto
  have l3u: "live s3 (tpage ?u)" using lu [OF tpage_in_pages] l3 by simp
  obtain s4 where s4: "persist_node ops (tpage ?u) (node_of l) s3 = (Inr (), s4)" "inv n s4" "live s4 = live s3"
    "node_at s4 (tpage ?u) (node_of l)" "same_outside {tpage ?u} s3 s4"
    using persist_node_ok [OF s3(3) l3u fits(1)] by blast
  obtain s5 where s5: "persist_node ops q (node_of r) s4 = (Inr (), s5)" "inv n s5" "live s5 = live s4"
    "node_at s5 q (node_of r)" "same_outside {q} s4 s5"
    using persist_node_ok [OF s4(2) _ fits(2), of q] s4(3) l3 by auto
  have npg: "pages ?t = (p # concat (map pages (take i ts))) @ (pages l @ pages r) @ concat (map pages (drop (Suc i) ts))" by simp
  note pg = pages_split [OF i, of p ks]
  have qu: "q \<noteq> tpage ?u" "q \<notin> set (pages ?u)" "q \<noteq> p" using q lu lt by auto
  have du: "distinct (pages ?u)" using d unfolding pg by auto
  have "distinct (pages l @ pages r)" using h du qu(2) by (simp add: halves_def)
  then have dt: "distinct (pages ?t)" unfolding npg
  proof (rule distinct_middle [OF d [unfolded pg]])
    fix x assume "x \<in> set (pages l @ pages r)"
    then have "x \<in> set (pages ?u) \<or> x = q" using hp(3) by auto
    then show "x \<in> set (pages ?u) \<or> x \<notin> set (p # concat (map pages (take i ts))) \<union> set (concat (map pages (drop (Suc i) ts)))"
      using q lt unfolding pg by auto
  qed
  have pt: "set (pages ?t) = insert q (set (pages (TNode p ks ts)))" unfolding npg pg using hp(3) by auto
  have "\<forall>x \<in> set (pages ?t). live s5 x" using pt lt s5(3) s4(3) l3 by auto
  from node_fits_tree [OF wt ro s5(2) this] have "node_fits (Inner ?ks (map tpage ?ts))" by simp
  moreover have "live s5 p" using lt [of p] s5(3) s4(3) l3 by simp
  ultimately obtain s6 where s6: "persist_node ops p (Inner ?ks (map tpage ?ts)) s5 = (Inr (), s6)" "inv n s6" "live s6 = live s5"
    "node_at s6 p (Inner ?ks (map tpage ?ts))" "same_outside {p} s5 s6"
    using persist_node_ok [OF s5(2)] by blast
  have cs: "take (i + 1) (map tpage ts) @ q # drop (i + 1) (map tpage ts) = map tpage ?ts"
    using hp(1,2) i by (simp add: take_Suc_conv_app_nth take_map drop_map)
  have run: "split_child ops p i s = (Inr (), s6)"
    using s1(1) s2(1) s3(1) s4(1) s5(1) s6(1) sn cs i by (simp add: split_child_def nth_child_def sbind_def)
  have so6: "same_outside {tpage ?u, q, p} s s6"
    using same_outside_trans [OF same_outside_trans [OF same_outside_trans [OF so3 s4(5)] s5(5)] s6(5)]
    by (simp add: insert_commute)
  have pu: "p \<notin> set (pages ?u)" using d unfolding pg by auto
  have so5: "same_outside {tpage ?u, q} s s5" using same_outside_trans [OF same_outside_trans [OF so3 s4(5)] s5(5)]
    by (simp add: insert_commute)
  have "node_at s5 (tpage l) (node_of l)" using node_at_frame [OF s4(4) s5(5)] qu(1) hp(1) by simp
  note lr5 = split_tree_at [OF h tu(1) this s5(4) so5 du qu(2)]
  have "p \<notin> set (pages l) \<union> set (pages r)" using hp(3) pu qu(3) by auto
  then have lr: "tree_at s6 l" "tree_at s6 r" using tree_at_frame [OF lr5(1) s6(5)] tree_at_frame [OF lr5(2) s6(5)] by auto
  have sib: "tree_at s6 x" if "x \<in> set (take i ts) \<union> set (drop (Suc i) ts)" for x
  proof (rule tree_at_frame [OF _ so6])
    show "tree_at s x" using t that by (auto simp: tree_at_simps list_all_iff dest: in_set_takeD in_set_dropD)
    have "set (pages x) \<inter> set (pages ?u) = {}" "p \<notin> set (pages x)" "\<forall>y \<in> set (pages x). live s y"
      using d that lt unfolding pg by auto
    then show "{tpage ?u, q, p} \<inter> set (pages x) = {}" using q tpage_in_pages [of ?u] by auto
  qed
  have "tree_at s6 ?t" using s6(4) lr sib by (auto simp: tree_at_simps list_all_iff)
  moreover have "same_outside (set (pages (TNode p ks ts))) s s6"
  proof (rule same_outside_dead [OF same_outside_mono [OF so6] q])
    show "{tpage ?u, q, p} \<subseteq> insert q (set (pages (TNode p ks ts)))"
      using subsetD [OF pages_child [OF i, of p ks] tpage_in_pages] by auto
  qed
  ultimately have "grown s (TNode p ks ts) s6 ?t" using dt pt q by (auto simp: grown_def simp del: pages.simps)
  then show ?thesis using run s6(2) h sw by blast
qed

section \<open>Insertion\<close>

lemma insert_entry_facts:
  assumes "sorted_wrt bytes_lt (map fst es)" and "k \<notin> fst ` set es"
  shows "sorted_wrt bytes_lt (map fst (insert_entry k rid es))" and "set (insert_entry k rid es) = insert (k, rid) (set es)"
    and "length (insert_entry k rid es) = Suc (length es)"
proof -
  define i where "i = child_index k (map fst es)"
  have c: "i \<le> length (map fst es)" "\<forall>j < i. \<not> bytes_lt k (map fst es ! j)"
    "i < length (map fst es) \<Longrightarrow> bytes_lt k (map fst es ! i)"
    using child_index_iff [of k "map fst es" i] i_def by auto
  have "bytes_lt (map fst es ! j) k" if "j < i" for j
  proof -
    have j: "j < length es" using that c(1) by simp
    then have "fst (es ! j) \<in> fst ` set es" by simp
    then have "map fst es ! j \<noteq> k" using assms(2) j by auto
    then show ?thesis using c(2) that bytes_lt_total by blast
  qed
  then have "\<forall>j < i. bytes_lt (map fst es ! j) k" by blast
  from sorted_split [OF assms(1) c(1,3) this]
  show "sorted_wrt bytes_lt (map fst (insert_entry k rid es))"
    by (simp add: insert_entry_def i_def take_map drop_map Let_def)
  have "set es = set (take i es) \<union> set (drop i es)" by (metis append_take_drop_id set_append)
  then show "set (insert_entry k rid es) = insert (k, rid) (set es)" by (auto simp: insert_entry_def i_def Let_def)
  show "length (insert_entry k rid es) = Suc (length es)" using c(1) by (simp add: insert_entry_def i_def Let_def)
qed

lemma insert_leaf_ok:
  assumes t: "tree_at s (TLeaf p es nxt)" and so: "sorted_wrt bytes_lt (map fst es)" and k: "k \<notin> fst ` set es"
    and f: "node_fits (Leaf (insert_entry k rid es) nxt)" and inv: "inv n s"
  shows "\<exists>s'. insert_nonfull ops ty (Suc fuel) p k rid s = (Inr (), s') \<and> inv n s' \<and>
    grown s (TLeaf p es nxt) s' (TLeaf p (insert_entry k rid es) nxt)"
proof -
  obtain s1 where s1: "read_node ops p s = (Inr (Leaf es nxt), s1)" "inv n s1" "live s1 = live s" "same_outside {} s s1"
    using read_tree_ok [OF inv t] by auto
  have "live s1 p" using tree_at_live [OF t] s1(3) by simp
  from persist_node_ok [OF s1(2) this f] obtain s2 where s2:
    "persist_node ops p (Leaf (insert_entry k rid es) nxt) s1 = (Inr (), s2)" "inv n s2" "live s2 = live s1"
    "node_at s2 p (Leaf (insert_entry k rid es) nxt)" "same_outside {p} s1 s2" by blast
  have "insert_nonfull ops ty (Suc fuel) p k rid s = (Inr (), s2)" using s1(1) s2(1) by (simp add: sbind_def)
  then show ?thesis using s2 same_outside_trans [OF s1(4) s2(5)] by (auto simp: grown_def tree_at_simps)
qed

text \<open>What an insertion into a tree does.\<close>

definition inserted :: "DataType \<Rightarrow> nat \<Rightarrow> nat \<Rightarrow> bytes \<Rightarrow> RowId \<Rightarrow> 's \<Rightarrow> tree \<Rightarrow> 's \<Rightarrow> tree \<Rightarrow> bool" where
  "inserted ty L n k rid s t s' t' \<longleftrightarrow> inv n s' \<and> grown s t s' t' \<and> well ty L t' \<and>
     all_keys t' = insert k (all_keys t) \<and> entries t' = insert (k, rid) (entries t) \<and> height t' \<le> height t"

lemma inserted_child:
  assumes t: "tree_at s (TNode p ks ts)" "distinct (pages (TNode p ks ts))" "well ty L (TNode p ks ts)"
    and i: "i < length ts" "child_index k ks = i" and u: "inserted ty L n k rid s (ts ! i) s' u"
  shows "inserted ty L n k rid s (TNode p ks ts) s' (TNode p ks (ts[i := u]))"
proof -
  have lu: "ts[i := u] = take i ts @ u # drop (Suc i) ts" using i(1) by (rule upd_conv_take_nth_drop)
  have ts: "set ts = set (take i ts) \<union> {ts ! i} \<union> set (drop (Suc i) ts)"
    using arg_cong [OF id_take_nth_drop [OF i(1)], of set] by simp
  have iu: "grown s (ts ! i) s' u" "well ty L u" "all_keys u = insert k (all_keys (ts ! i))"
    "entries u = insert (k, rid) (entries (ts ! i))" "height u \<le> height (ts ! i)" "inv n s'"
    using u by (auto simp: inserted_def)
  have "well ty L (TNode p ks (ts[i := u]))" using well_replace [OF t(3) i(1) iu(2) _ i(2)] iu(3) by simp
  moreover have "all_keys (TNode p ks (ts[i := u])) = insert k (all_keys (TNode p ks ts))"
    unfolding all_keys.simps lu ts using iu(3) by auto
  moreover have "entries (TNode p ks (ts[i := u])) = insert (k, rid) (entries (TNode p ks ts))"
    unfolding entries.simps lu ts using iu(4) by auto
  moreover have "height (TNode p ks (ts[i := u])) \<le> height (TNode p ks ts)"
  proof (subst height.simps(2) [of p ks ts], rule height_node_le)
    fix x assume "x \<in> set (ts[i := u])"
    then have "x = u \<or> x \<in> set ts" using set_update_subset_insert [of ts i u] by auto
    moreover have "height y \<le> Max (insert 0 (height ` set ts))" if "y \<in> set ts" for y using that by simp
    ultimately show "height x \<le> Max (insert 0 (height ` set ts))" using iu(5) nth_mem [OF i(1)] le_trans by blast
  qed
  ultimately show ?thesis using grown_child [OF t(1,2) i(1) iu(1)] iu(6) by (simp add: inserted_def)
qed

lemma inserted_after:
  assumes g: "grown s t s1 t1" and k: "all_keys t1 = all_keys t" and e: "entries t1 = entries t" and h: "height t1 \<le> height t"
    and ins: "inserted ty L n k rid s1 t1 s2 t2"
  shows "inserted ty L n k rid s t s2 t2"
  using ins k e h grown_trans [OF g] by (auto simp: inserted_def)

lemma split_node_tree:
  assumes i: "i < length ts" and h: "halves (ts ! i) q l m r"
  shows "all_keys (TNode p (take i ks @ m # drop i ks) (take i ts @ l # r # drop (Suc i) ts)) = all_keys (TNode p ks ts)"
    and "entries (TNode p (take i ks @ m # drop i ks) (take i ts @ l # r # drop (Suc i) ts)) = entries (TNode p ks ts)"
    and "height (TNode p (take i ks @ m # drop i ks) (take i ts @ l # r # drop (Suc i) ts)) \<le> height (TNode p ks ts)"
proof -
  have ts: "set ts = set (take i ts) \<union> {ts ! i} \<union> set (drop (Suc i) ts)"
    using arg_cong [OF id_take_nth_drop [OF i], of set] by simp
  have ks: "set ks = set (take i ks) \<union> set (drop i ks)" by (metis append_take_drop_id set_append)
  have hh: "entries (ts ! i) = entries l \<union> entries r" "all_keys (ts ! i) = insert m (all_keys l \<union> all_keys r)"
    "height l \<le> height (ts ! i)" "height r \<le> height (ts ! i)" using h by (auto simp: halves_def)
  show "all_keys (TNode p (take i ks @ m # drop i ks) (take i ts @ l # r # drop (Suc i) ts)) = all_keys (TNode p ks ts)"
    unfolding all_keys.simps ts ks using hh(2) by auto
  show "entries (TNode p (take i ks @ m # drop i ks) (take i ts @ l # r # drop (Suc i) ts)) = entries (TNode p ks ts)"
    unfolding entries.simps ts using hh(1) by auto
  show "height (TNode p (take i ks @ m # drop i ks) (take i ts @ l # r # drop (Suc i) ts)) \<le> height (TNode p ks ts)"
  proof (subst height.simps(2) [of p ks ts], rule height_node_le)
    fix x assume "x \<in> set (take i ts @ l # r # drop (Suc i) ts)"
    then have "x = l \<or> x = r \<or> x \<in> set ts" using ts by auto
    moreover have "height y \<le> Max (insert 0 (height ` set ts))" if "y \<in> set ts" for y using that by simp
    ultimately show "height x \<le> Max (insert 0 (height ` set ts))" using hh(3,4) nth_mem [OF i] le_trans by blast
  qed
qed

lemma insert_nonfull_ok:
  "tree_at s t \<Longrightarrow> distinct (pages t) \<Longrightarrow> well ty L t \<Longrightarrow> roomy ty L \<Longrightarrow> count_of t < max_of ty t \<Longrightarrow> k \<notin> all_keys t \<Longrightarrow>
   length k \<le> L \<Longrightarrow> rid_ok rid \<Longrightarrow> height t < fuel \<Longrightarrow> inv (height t + n) s \<Longrightarrow>
   \<exists>s' t'. insert_nonfull ops ty fuel (tpage t) k rid s = (Inr (), s') \<and> inserted ty L n k rid s t s' t'"
proof (induction fuel arbitrary: t s)
  case (Suc fuel)
  show ?case
  proof (cases t)
    case (TLeaf p es nxt)
    have so: "sorted_wrt bytes_lt (map fst es)" and k: "k \<notin> fst ` set es" using Suc.prems(3,6) TLeaf by simp_all
    note f = insert_entry_facts [OF so k, of rid]
    let ?t = "TLeaf p (insert_entry k rid es) nxt"
    have w: "well ty L ?t" using Suc.prems(3,5,7,8) TLeaf f by (auto simp: max_of_simps)
    have "\<forall>x \<in> set (pages ?t). live s x" using tree_at_live [OF Suc.prems(1)] TLeaf by simp
    from node_fits_tree [OF w Suc.prems(4,10) this] have "node_fits (Leaf (insert_entry k rid es) nxt)" by simp
    from insert_leaf_ok [OF _ so k this Suc.prems(10), where ty = ty and fuel = fuel] Suc.prems(1) TLeaf obtain s' where
      "insert_nonfull ops ty (Suc fuel) p k rid s = (Inr (), s')" "inv n s'" "grown s (TLeaf p es nxt) s' ?t" by auto
    moreover have "all_keys ?t = insert k (all_keys t)" "entries ?t = insert (k, rid) (entries t)"
      using f(2) TLeaf by auto
    ultimately have "insert_nonfull ops ty (Suc fuel) (tpage t) k rid s = (Inr (), s') \<and> inserted ty L n k rid s t s' ?t"
      using w TLeaf by (simp add: inserted_def del: insert_nonfull.simps)
    then show ?thesis by blast
  next
    case (TNode p ks ts)
    define i where "i = child_index k ks"
    let ?u = "ts ! i"
    have ro: "routed ks ts" using Suc.prems(3) TNode by simp
    then have i: "i < length ts" using routed_child i_def by blast
    then have u: "?u \<in> set ts" by simp
    have hu: "height ?u < height t" unfolding TNode by (rule height_child [OF u])
    have t: "tree_at s (TNode p ks ts)" "distinct (pages (TNode p ks ts))" "well ty L (TNode p ks ts)"
      "k \<notin> all_keys (TNode p ks ts)" "length ks < max_of ty (TNode p ks ts)" using Suc.prems(1-3,5,6) TNode by simp_all
    obtain s1 where s1: "read_node ops p s = (Inr (Inner ks (map tpage ts)), s1)" "inv (height t + n) s1" "live s1 = live s"
      "same_outside {} s s1" using read_tree_ok [OF Suc.prems(10) t(1)] by auto
    have t1: "tree_at s1 (TNode p ks ts)" using tree_at_frame [OF t(1) s1(4)] by simp
    then have "tree_at s1 ?u" using u by (auto simp: tree_at_simps list_all_iff)
    then obtain s2 where s2: "read_node ops (tpage ?u) s1 = (Inr (node_of ?u), s2)" "inv (height t + n) s2" "live s2 = live s1"
      "same_outside {} s1 s2" using read_tree_ok [OF s1(2)] by blast
    have t2: "tree_at s2 (TNode p ks ts)" using tree_at_frame [OF t1 s2(4)] by simp
    have so2: "same_outside {} s s2" using same_outside_trans [OF s1(4) s2(4)] by simp
    have g2: "grown s (TNode p ks ts) s2 (TNode p ks ts)"
      using t2 t(2) same_outside_mono [OF so2] by (simp add: grown_def del: pages.simps)
    have wu: "well ty L ?u" using t(3) u by (simp add: list_all_iff)
    show ?thesis
    proof (cases "max_of ty ?u \<le> count_of ?u")
      case False
      have "inv (height ?u + n) s2" using inv_weaken [OF _ s2(2)] hu by simp
      moreover have "k \<notin> all_keys ?u" "tree_at s2 ?u" "distinct (pages ?u)"
        using t(4) t2 t(2) u pages_split [OF i, of p ks] by (auto simp: tree_at_simps list_all_iff)
      ultimately obtain s3 u' where s3: "insert_nonfull ops ty fuel (tpage ?u) k rid s2 = (Inr (), s3)"
        "inserted ty L n k rid s2 ?u s3 u'"
        using Suc.IH [of s2 ?u] wu Suc.prems(4,7,8,9) hu False by auto
      have "insert_nonfull ops ty (Suc fuel) (tpage t) k rid s = (Inr (), s3)"
        using s1(1) s2(1) s3(1) TNode i False
        by (simp add: sbind_def nth_child_def Let_def i_def max_of_def count_of_def)
      moreover have "inserted ty L n k rid s t s3 (TNode p ks (ts[i := u']))"
        using inserted_after [OF g2 _ _ _ inserted_child [OF t2 t(2,3) i _ s3(2)]] i_def TNode by simp
      ultimately show ?thesis by blast
    next
      case True
      have "2 \<le> max_of ty ?u" using Suc.prems(4) by (cases ?u) (auto simp: max_of_simps roomy_def)
      then have c2: "2 \<le> count_of ?u" using True by simp
      have "inv (Suc (height t - 1 + n)) s2" using s2(2) hu by simp
      from split_child_ok [OF t2 t(2,3) Suc.prems(4) i t(5) c2 this] obtain q l m r s3 where
        s3: "split_child ops p i s2 = (Inr (), s3)" "inv (height t - 1 + n) s3" "halves ?u q l m r" "well ty L l" "well ty L r"
          "length m \<le> L" and
        g3: "grown s2 (TNode p ks ts) s3 (TNode p (take i ks @ m # drop i ks) (take i ts @ l # r # drop (Suc i) ts))" by blast
      let ?ks = "take i ks @ m # drop i ks" and ?ts = "take i ts @ l # r # drop (Suc i) ts"
      let ?t = "TNode p ?ks ?ts"
      have t3: "tree_at s3 ?t" "distinct (pages ?t)" using g3 by (simp_all add: grown_def del: pages.simps)
      note w3 = well_split_child [OF t(3) i t(5) s3(3-6)] and st = split_node_tree [OF i s3(3), of p ks]
      obtain s4 where s4: "read_node ops p s3 = (Inr (Inner ?ks (map tpage ?ts)), s4)" "inv (height t - 1 + n) s4"
        "live s4 = live s3" "same_outside {} s3 s4" using read_tree_ok [OF s3(2) t3(1)] by auto
      have t4: "tree_at s4 ?t" using tree_at_frame [OF t3(1) s4(4)] by simp
      have g4: "grown s3 ?t s4 ?t" using t4 t3(2) same_outside_mono [OF s4(4)] by (simp add: grown_def del: pages.simps)
      have g: "grown s (TNode p ks ts) s4 ?t" by (rule grown_trans [OF g2 grown_trans [OF g3 g4]])
      have len: "length ts = length ks + 1" using ro by (simp add: routed_def)
      have mk: "m \<in> all_keys ?u" using s3(3) by (auto simp: halves_def)
      then have "child_index m ks = i" using ro i by (auto simp: routed_def)
      then have "i < length ks \<Longrightarrow> bytes_lt m (ks ! i)" by (simp add: child_index_iff)
      moreover have il: "i \<le> length ks" using i len by simp
      ultimately have ci: "child_index k ?ks = (if bytes_lt k m then i else Suc i)"
        using child_index_insert [OF il, of m k] i_def by (simp add: Let_def)
      have "m \<noteq> k" using mk u t(4) by auto
      then have mk2: "bytes_lt m k \<longleftrightarrow> \<not> bytes_lt k m" using bytes_lt_total bytes_lt_asym by blast
      define j where "j = (if bytes_lt k m then i else Suc i)"
      have j: "j < length ?ts" "child_index k ?ks = j" using i len ci j_def by auto
      let ?v = "?ts ! j"
      have v: "?v = (if bytes_lt k m then l else r)" using nth_split_list [OF i, of j l r] i j_def by auto
      have hv: "height ?v \<le> height ?u" "count_of ?v < max_of ty ?v" "well ty L ?v"
        using v s3(3-5) True wu by (auto simp: halves_def split: if_splits) (cases ?u; auto simp: max_of_simps)+
      have vs: "?v \<in> set ?ts" using j(1) by (rule nth_mem)
      have "inv (height ?v + n) s4" using inv_weaken [OF _ s4(2)] hv(1) hu by simp
      moreover have "k \<notin> all_keys ?v" using t(4) st(1) vs by auto
      moreover have "tree_at s4 ?v" using t4 vs by (auto simp: tree_at_simps list_all_iff simp del: set_append)
      moreover have "distinct (pages ?v)" using distinct_child [OF j(1) t3(2)] .
      ultimately obtain s5 v' where s5: "insert_nonfull ops ty fuel (tpage ?v) k rid s4 = (Inr (), s5)"
        "inserted ty L n k rid s4 ?v s5 v'"
        using Suc.IH [of s4 ?v] hv Suc.prems(4,7,8,9) hu by auto
      have ki: "?ks ! i = m" "length ?ks = Suc (length ks)" "i < Suc (length ks)" using il by (simp_all add: nth_append)
      have jc: "j = (if bytes_lt m k then Suc i else i)" using mk2 by (simp add: j_def)
      have tv: "nth_child (map tpage ?ts) j = Inr (tpage ?v)" using j(1) by (simp add: nth_child_def del: map_append list.map)
      have "insert_nonfull ops ty (Suc fuel) (tpage t) k rid s = (Inr (), s5)"
        using s1(1) s2(1) s3(1) s4(1) s5(1) TNode i True ki tv unfolding jc
        by (simp add: sbind_def nth_child_def [of "map tpage ts"] Let_def i_def [symmetric] max_of_def count_of_def
            del: map_append list.map length_append split: if_splits)
      moreover have "inserted ty L n k rid s t s5 (TNode p ?ks (?ts[j := v']))"
        using inserted_after [OF g st inserted_child [OF t4 t3(2) w3 j s5(2)]] TNode by simp
      ultimately show ?thesis by blast
    qed
  qed
qed simp

end

end
