(* ===== verification/Btree_Index.thy ===== *)
theory Btree_Index
  imports Btree_Search
begin

text \<open>
  The index as a whole: the root may split and move, keys are encoded, and the fuel of the descents is
  enough. An index on a TEXT column behaves as a map from words to rows as long as no word is inserted
  twice and words are short; an index on numbers runs out of its page before it thinks it does.
\<close>

section \<open>Fuel\<close>

lemma height_pages: "height t \<le> length (pages t)"
proof (induction t)
  case (TNode p ks ts)
  have "height u \<le> length (concat (map pages ts))" if "u \<in> set ts" for u
  proof -
    have "length (pages u) \<le> length (concat (map pages ts))"
      using that by (induction ts) auto
    then show ?thesis using TNode.IH [OF that] by linarith
  qed
  then have "Max (insert 0 (height ` set ts)) \<le> length (concat (map pages ts))" by simp
  then show ?case by simp
qed simp

context node_store
begin

lemma height_fuel:
  assumes "inv n s" and "tree_at s t" and "distinct (pages t)"
  shows "height t < po_count ops s + 1"
proof -
  have "set (pages t) \<subseteq> {0<..<po_count ops s}"
    using live_page [OF assms(1)] tree_at_live [OF assms(2)] by auto
  then have "card (set (pages t)) \<le> card {0<..<po_count ops s}" by (intro card_mono) auto
  then have "length (pages t) \<le> po_count ops s" using distinct_card [OF assms(3)] by simp
  then show ?thesis using height_pages [of t] by simp
qed

section \<open>Deletion\<close>

definition deleted :: "DataType \<Rightarrow> nat \<Rightarrow> nat \<Rightarrow> bytes \<Rightarrow> RowId \<Rightarrow> 's \<Rightarrow> tree \<Rightarrow> 's \<Rightarrow> tree \<Rightarrow> bool" where
  "deleted ty L n k rid s t s' t' \<longleftrightarrow> inv n s' \<and> grown s t s' t' \<and> well ty L t' \<and>
     all_keys t' \<subseteq> all_keys t \<and> entries t' = entries t - {(k, rid)} \<and> height t' \<le> height t"

lemma deleted_child:
  assumes t: "tree_at s (TNode p ks ts)" "distinct (pages (TNode p ks ts))" "well ty L (TNode p ks ts)"
    and i: "i < length ts" "child_index k ks = i" and u: "deleted ty L n k rid s (ts ! i) s' u"
  shows "deleted ty L n k rid s (TNode p ks ts) s' (TNode p ks (ts[i := u]))"
proof -
  have lu: "ts[i := u] = take i ts @ u # drop (Suc i) ts" using i(1) by (rule upd_conv_take_nth_drop)
  have ts: "set ts = set (take i ts) \<union> {ts ! i} \<union> set (drop (Suc i) ts)"
    using arg_cong [OF id_take_nth_drop [OF i(1)], of set] by simp
  have iu: "grown s (ts ! i) s' u" "well ty L u" "all_keys u \<subseteq> all_keys (ts ! i)"
    "entries u = entries (ts ! i) - {(k, rid)}" "height u \<le> height (ts ! i)" "inv n s'"
    using u by (auto simp: deleted_def)
  have other: "(k, rid) \<notin> entries x" if "x \<in> set (take i ts) \<union> set (drop (Suc i) ts)" for x
  proof
    assume "(k, rid) \<in> entries x"
    then have k: "k \<in> all_keys x" by (rule entries_keys)
    from that obtain j where "j < length ts" "j \<noteq> i" "x = ts ! j"
    proof
      assume "x \<in> set (take i ts)"
      then obtain j where "j < i" "j < length ts" "x = ts ! j" by (auto simp: in_set_conv_nth)
      then show ?thesis using that by auto
    next
      assume "x \<in> set (drop (Suc i) ts)"
      then obtain j where "j < length ts - Suc i" "x = ts ! (Suc i + j)" by (auto simp: in_set_conv_nth)
      then show ?thesis using that [of "Suc i + j"] by auto
    qed
    then show False using t(3) k i(2) by (auto simp: routed_def)
  qed
  have "well ty L (TNode p ks (ts[i := u]))" using well_replace [OF t(3) i(1) iu(2) _ i(2)] iu(3) by blast
  moreover have "all_keys (TNode p ks (ts[i := u])) \<subseteq> all_keys (TNode p ks ts)"
    unfolding all_keys.simps lu ts using iu(3) by auto
  moreover have "entries (TNode p ks (ts[i := u])) = entries (TNode p ks ts) - {(k, rid)}"
    unfolding entries.simps lu ts using iu(4) other by auto
  moreover have "height (TNode p ks (ts[i := u])) \<le> height (TNode p ks ts)"
  proof (subst height.simps(2) [of p ks ts], rule height_node_le)
    fix x assume "x \<in> set (ts[i := u])"
    then have "x = u \<or> x \<in> set ts" using set_update_subset_insert [of ts i u] by auto
    moreover have "height y \<le> Max (insert 0 (height ` set ts))" if "y \<in> set ts" for y using that by simp
    ultimately show "height x \<le> Max (insert 0 (height ` set ts))" using iu(5) nth_mem [OF i(1)] le_trans by blast
  qed
  ultimately show ?thesis using grown_child [OF t(1,2) i(1) iu(1)] iu(6) by (simp add: deleted_def)
qed

lemma delete_from_node_ok:
  "tree_at s t \<Longrightarrow> distinct (pages t) \<Longrightarrow> well ty L t \<Longrightarrow> roomy ty L \<Longrightarrow> height t < fuel \<Longrightarrow> inv n s \<Longrightarrow>
   \<exists>s' t'. delete_from_node ops fuel (tpage t) k rid s = (Inr (), s') \<and> deleted ty L n k rid s t s' t'"
proof (induction fuel arbitrary: t s)
  case (Suc fuel)
  obtain s1 where s1: "read_node ops (tpage t) s = (Inr (node_of t), s1)" "inv n s1" "live s1 = live s" "same_outside {} s s1"
    using read_tree_ok [OF Suc.prems(6,1)] by blast
  show ?case
  proof (cases t)
    case (TLeaf p es nxt)
    let ?es = "filter (\<lambda>e. e \<noteq> (k, rid)) es" and ?t = "TLeaf p (filter (\<lambda>e. e \<noteq> (k, rid)) es) nxt"
    have "sorted_wrt bytes_lt (map fst ?es)"
      using Suc.prems(3) TLeaf sorted_wrt_filter [of "\<lambda>x y. bytes_lt (fst x) (fst y)" es] by (simp add: sorted_wrt_map)
    then have w: "well ty L ?t" using Suc.prems(3) TLeaf le_trans [OF length_filter_le [of "\<lambda>e. e \<noteq> (k, rid)" es]]
      by (auto simp: max_of_simps)
    have l: "live s1 p" using tree_at_live [OF Suc.prems(1)] s1(3) TLeaf by simp
    then have "node_fits (Leaf ?es nxt)" using node_fits_tree [OF w Suc.prems(4) s1(2)] by simp
    from persist_node_ok [OF s1(2) l this] obtain s2 where s2: "persist_node ops p (Leaf ?es nxt) s1 = (Inr (), s2)" "inv n s2"
      "live s2 = live s1" "node_at s2 p (Leaf ?es nxt)" "same_outside {p} s1 s2" by blast
    have "delete_from_node ops (Suc fuel) (tpage t) k rid s = (Inr (), s2)" using s1(1) s2(1) TLeaf by (simp add: sbind_def)
    moreover have "grown s t s2 ?t"
      using s2 same_outside_trans [OF s1(4) s2(5)] TLeaf by (auto simp: grown_def tree_at_simps)
    ultimately show ?thesis using w s2(2) TLeaf by (intro exI [of _ s2] exI [of _ ?t]) (auto simp: deleted_def)
  next
    case (TNode p ks ts)
    define i where "i = child_index k ks"
    have i: "i < length ts" using Suc.prems(3) TNode routed_child i_def by auto
    then have u: "ts ! i \<in> set ts" by simp
    have "height (ts ! i) < height t" unfolding TNode by (rule height_child [OF u])
    then have hu: "height (ts ! i) < fuel" using Suc.prems(5) by linarith
    have t: "tree_at s (TNode p ks ts)" "distinct (pages (TNode p ks ts))" "well ty L (TNode p ks ts)"
      using Suc.prems(1-3) TNode by simp_all
    have t1: "tree_at s1 (TNode p ks ts)" using tree_at_frame [OF t(1) s1(4)] by simp
    then have "tree_at s1 (ts ! i)" "well ty L (ts ! i)" using t(3) u by (auto simp: tree_at_simps list_all_iff)
    from Suc.IH [OF this(1) distinct_child [OF i t(2)] this(2) Suc.prems(4) hu s1(2)] obtain s2 u' where
      s2: "delete_from_node ops fuel (tpage (ts ! i)) k rid s1 = (Inr (), s2)" "deleted ty L n k rid s1 (ts ! i) s2 u'" by blast
    have "delete_from_node ops (Suc fuel) (tpage t) k rid s = (Inr (), s2)"
      using s1(1) s2(1) TNode i by (simp add: sbind_def i_def Let_def)
    moreover have "grown s (TNode p ks ts) s1 (TNode p ks ts)"
      using t1 t(2) same_outside_mono [OF s1(4)] by (simp add: grown_def del: pages.simps)
    then have "deleted ty L n k rid s t s2 (TNode p ks (ts[i := u']))"
      using deleted_child [OF t1 t(2,3) i i_def [symmetric] s2(2)] grown_trans TNode by (auto simp: deleted_def)
    ultimately show ?thesis by blast
  qed
qed simp

section \<open>The operations of an index\<close>

definition index_ok :: "DataType \<Rightarrow> nat \<Rightarrow> nat \<Rightarrow> 's index \<Rightarrow> tree \<Rightarrow> bool" where
  "index_ok ty L n i t \<longleftrightarrow> ix_root i = tpage t \<and> tree_at (ix_store i) t \<and> distinct (pages t) \<and> well ty L t \<and> inv n (ix_store i)"

text \<open>\<open>P\<close> are the pages of the index when it was created or first looked at.\<close>

definition index_frame :: "'s index \<Rightarrow> tree \<Rightarrow> 's index \<Rightarrow> tree \<Rightarrow> bool" where
  "index_frame i t i' t' \<longleftrightarrow> same_outside (set (pages t)) (ix_store i) (ix_store i') \<and>
     (\<forall>p \<in> set (pages t'). p \<in> set (pages t) \<or> \<not> live (ix_store i) p)"

lemma index_frame_trans: "index_frame i t i1 t1 \<Longrightarrow> index_frame i1 t1 i2 t2 \<Longrightarrow> index_frame i t i2 t2"
  unfolding index_frame_def same_outside_def by metis

lemma btree_search_ok:
  assumes ok: "index_ok ty L n i t" and k: "encode_key key ty = Inr k"
  shows "\<exists>rids i'. btree_search ops ty key i = (Inr rids, i') \<and> index_ok ty L n i' t \<and> index_frame i t i' t \<and>
    set rids = {rid. (k, rid) \<in> entries t} \<and> length rids \<le> 1"
proof -
  have t: "tree_at (ix_store i) t" "distinct (pages t)" "well ty L t" "inv n (ix_store i)" "ix_root i = tpage t"
    using ok by (auto simp: index_ok_def)
  from search_node_ok [OF t(1,3,4) height_fuel [OF t(4,1,2)], of k] obtain rids s' where
    s: "search_node ops (po_count ops (ix_store i) + 1) (tpage t) k (ix_store i) = (Inr rids, s')" "inv n s'"
      "live s' = live (ix_store i)" "same_outside {} (ix_store i) s'" "set rids = {rid. (k, rid) \<in> entries t}" "length rids \<le> 1"
    by blast
  have "btree_search ops ty key i = (Inr rids, i\<lparr>ix_store := s'\<rparr>)"
    using k s(1) t(5) by (simp add: btree_search_def szoom_def del: search_node.simps)
  moreover have "tree_at s' t" using tree_at_frame [OF t(1) s(4)] by simp
  moreover have "same_outside (set (pages t)) (ix_store i) s'" using same_outside_mono [OF s(4)] by simp
  ultimately show ?thesis using s t by (auto simp: index_ok_def index_frame_def)
qed

lemma btree_delete_ok:
  assumes ok: "index_ok ty L n i t" and k: "encode_key key ty = Inr k" and r: "roomy ty L"
  shows "\<exists>i' t'. btree_delete ops ty key rid i = (Inr (), i') \<and> index_ok ty L n i' t' \<and> index_frame i t i' t' \<and>
    entries t' = entries t - {(k, rid)} \<and> all_keys t' \<subseteq> all_keys t \<and> height t' \<le> height t"
proof -
  have t: "tree_at (ix_store i) t" "distinct (pages t)" "well ty L t" "inv n (ix_store i)" "ix_root i = tpage t"
    using ok by (auto simp: index_ok_def)
  from delete_from_node_ok [OF t(1-3) r height_fuel [OF t(4,1,2)] t(4), of k rid] obtain s' t' where
    s: "delete_from_node ops (po_count ops (ix_store i) + 1) (tpage t) k rid (ix_store i) = (Inr (), s')"
      "deleted ty L n k rid (ix_store i) t s' t'" by blast
  have "btree_delete ops ty key rid i = (Inr (), i\<lparr>ix_store := s'\<rparr>)"
    using k s(1) t(5) by (simp add: btree_delete_def szoom_def del: delete_from_node.simps)
  then show ?thesis using s(2) t(5)
    by (intro exI [of _ "i\<lparr>ix_store := s'\<rparr>"] exI [of _ t']) (simp add: index_ok_def index_frame_def deleted_def grown_def)
qed

text \<open>A full root moves below a new one.\<close>

lemma split_root_ok:
  assumes t: "tree_at s t" "distinct (pages t)" "well ty L t" and ro: "roomy ty L" and c: "2 \<le> count_of t"
    and inv: "inv (Suc (Suc n)) s"
  shows "\<exists>a q l m r s1 s2 s3 s4 s5. po_alloc ops s = (Inr a, s1) \<and> po_alloc ops s1 = (Inr q, s2) \<and>
    split_node (node_of t) = Inr (node_of l, m, node_of r) \<and> persist_node ops (tpage t) (node_of l) s2 = (Inr (), s3) \<and>
    persist_node ops q (node_of r) s3 = (Inr (), s4) \<and> persist_node ops a (Inner [m] [tpage t, q]) s4 = (Inr (), s5) \<and>
    inv n s5 \<and> tree_at s5 (TNode a [m] [l, r]) \<and> distinct (pages (TNode a [m] [l, r])) \<and> well ty L (TNode a [m] [l, r]) \<and>
    halves t q l m r \<and> \<not> live s a \<and> \<not> live s q \<and> same_outside (set (pages t)) s s5"
proof -
  obtain a s1 where s1: "po_alloc ops s = (Inr a, s1)" "\<not> live s a" "inv (Suc n) s1" "live s1 = (live s)(a := True)"
    "\<forall>x. live s x \<longrightarrow> view s1 x = view s x" using alloc_law [OF inv] by blast
  obtain q s2 where s2: "po_alloc ops s1 = (Inr q, s2)" "\<not> live s1 q" "inv n s2" "live s2 = (live s1)(q := True)"
    "\<forall>x. live s1 x \<longrightarrow> view s2 x = view s1 x" using alloc_law [OF s1(3)] by blast
  have aq: "a \<noteq> q" "\<not> live s q" using s1(4) s2(2) by (auto split: if_splits)
  have lt: "live s x" if "x \<in> set (pages t)" for x using tree_at_live [OF t(1) that] .
  have so2: "same_outside {} s s2" using s1 s2 by (simp add: same_outside_def)
  have l2: "live s2 x \<longleftrightarrow> live s x \<or> x = a \<or> x = q" for x using s1(4) s2(4) by simp
  obtain l m r where sp: "split_tree q t = (l, m, r)" by (cases "split_tree q t")
  note h = split_halves [OF t(3) c sp] and sw = split_well [OF t(3) c sp] and sn = split_node_of [OF sp c]
  let ?t = "TNode a [m] [l, r]"
  have hp: "tpage l = tpage t" "tpage r = q" "set (pages l) \<union> set (pages r) = insert q (set (pages t))"
    using h by (auto simp: halves_def)
  have "\<forall>x \<in> set (pages l) \<union> set (pages r). live s2 x" using hp(3) lt l2 by auto
  then have fits: "node_fits (node_of l)" "node_fits (node_of r)"
    using node_fits_tree [OF sw(1) ro s2(3)] node_fits_tree [OF sw(2) ro s2(3)] by auto
  have lv: "live s2 (tpage t)" "live s2 q" "live s2 a" using lt l2 by auto
  obtain s3 where s3: "persist_node ops (tpage t) (node_of l) s2 = (Inr (), s3)" "inv n s3" "live s3 = live s2"
    "node_at s3 (tpage t) (node_of l)" "same_outside {tpage t} s2 s3" using persist_node_ok [OF s2(3) lv(1) fits(1)] by blast
  obtain s4 where s4: "persist_node ops q (node_of r) s3 = (Inr (), s4)" "inv n s4" "live s4 = live s3"
    "node_at s4 q (node_of r)" "same_outside {q} s3 s4" using persist_node_ok [OF s3(2) _ fits(2)] lv(2) s3(3) by auto
  have q: "q \<notin> set (pages t)" "a \<notin> set (pages t)" using lt aq(2) s1(2) by auto
  have dl: "distinct (pages l @ pages r)" using h t(2) q(1) by (simp add: halves_def)
  have dt: "distinct (pages ?t)" using dl hp(3) q(2) aq(1) by auto
  have mk: "all_keys l \<noteq> {}" "\<forall>k \<in> all_keys l. bytes_lt k m" "\<forall>k \<in> all_keys r. \<not> bytes_lt k m" using h by (auto simp: halves_def)
  have "routed [m] [l, r]" using mk by (auto simp: routed_def less_Suc_eq)
  moreover have "1 \<le> compute_max_keys (key_size ty) False" using ro unfolding roomy_def by linarith
  ultimately have w: "well ty L ?t" using sw by (simp add: max_of_simps)
  have "\<forall>x \<in> set (pages ?t). live s4 x" using hp(3) lt l2 s3(3) s4(3) by auto
  from node_fits_tree [OF w ro s4(2) this] have "node_fits (Inner [m] [tpage t, q])" using hp by simp
  then obtain s5 where s5: "persist_node ops a (Inner [m] [tpage t, q]) s4 = (Inr (), s5)" "inv n s5" "live s5 = live s4"
    "node_at s5 a (Inner [m] [tpage t, q])" "same_outside {a} s4 s5"
    using persist_node_ok [OF s4(2)] lv(3) s3(3) s4(3) by (metis (no_types, lifting))
  have so4: "same_outside {tpage t, q} s s4"
    using same_outside_trans [OF same_outside_trans [OF so2 s3(5)] s4(5)] by (simp add: insert_commute)
  have "tpage t \<noteq> q" using q(1) tpage_in_pages [of t] by metis
  then have "node_at s4 (tpage l) (node_of l)" using node_at_frame [OF s3(4) s4(5)] hp(1) by simp
  note lr = split_tree_at [OF h t(1) this s4(4) so4 t(2) q(1)]
  have "a \<notin> set (pages l) \<union> set (pages r)" using hp(3) q(2) aq(1) by auto
  then have "tree_at s5 l" "tree_at s5 r" using tree_at_frame [OF lr(1) s5(5)] tree_at_frame [OF lr(2) s5(5)] by auto
  then have tt: "tree_at s5 ?t" using s5(4) hp by (simp add: tree_at_simps)
  have "same_outside {tpage t, q, a} s s5" using same_outside_trans [OF so4 s5(5)] by (simp add: insert_commute)
  then have "same_outside (insert q (insert a (set (pages t)))) s s5" by (rule same_outside_mono) auto
  then have "same_outside (set (pages t)) s s5" using same_outside_dead aq(2) s1(2) by blast
  then show ?thesis using s1(1,2) s2(1) s3(1) s4(1) s5(1,2) sn tt dt w h aq(2) by blast
qed

lemma btree_insert_ok:
  assumes ok: "index_ok ty L (height t + 3 + n) i t" and k: "encode_key key ty = Inr k" and ro: "roomy ty L"
    and new: "k \<notin> all_keys t" "length k \<le> L" "rid_ok rid"
  shows "\<exists>i' t'. btree_insert ops ty key rid i = (Inr (), i') \<and> index_ok ty L n i' t' \<and> index_frame i t i' t' \<and>
    entries t' = insert (k, rid) (entries t) \<and> all_keys t' = insert k (all_keys t) \<and> height t' \<le> Suc (height t)"
proof -
  have t: "tree_at (ix_store i) t" "distinct (pages t)" "well ty L t" "inv (height t + 3 + n) (ix_store i)" "ix_root i = tpage t"
    using ok by (auto simp: index_ok_def)
  have caps: "2 \<le> compute_max_keys (key_size ty) True"
    "compute_max_keys (key_size ty) True \<le> compute_max_keys (key_size ty) False" using ro by (simp_all add: roomy_def)
  obtain s1 where s1: "read_node ops (tpage t) (ix_store i) = (Inr (node_of t), s1)" "inv (height t + 3 + n) s1"
    "live s1 = live (ix_store i)" "same_outside {} (ix_store i) s1" using read_tree_ok [OF t(4,1)] by blast
  have t1: "tree_at s1 t" using tree_at_frame [OF t(1) s1(4)] by simp
  show ?thesis
  proof (cases "compute_max_keys (key_size ty) True \<le> count_of t")
    case False
    then have "count_of t < max_of ty t" using caps(2) by (cases t) (auto simp: max_of_simps)
    moreover have "inv (height t + n) s1" using inv_weaken [OF _ s1(2)] by simp
    ultimately obtain s2 t' where s2: "insert_nonfull ops ty (po_count ops s1 + 1) (tpage t) k rid s1 = (Inr (), s2)"
      "inserted ty L n k rid s1 t s2 t'"
      using insert_nonfull_ok [OF t1 t(2,3) ro _ new height_fuel [OF s1(2) t1 t(2)]] by blast
    have "btree_insert ops ty key rid i = (Inr (), i\<lparr>ix_store := s2\<rparr>)"
      using k s1(1) s2(1) t(5) False
      by (simp add: btree_insert_def szoom_def sbind_def count_of_def del: insert_nonfull.simps)
    moreover have "grown (ix_store i) t s1 t" using t1 t(2) same_outside_mono [OF s1(4)] by (simp add: grown_def)
    then have "inserted ty L n k rid (ix_store i) t s2 t'" using inserted_after [OF _ _ _ _ s2(2)] by simp
    ultimately show ?thesis using t(5)
      by (intro exI [of _ "i\<lparr>ix_store := s2\<rparr>"] exI [of _ t']) (simp add: inserted_def grown_def index_ok_def index_frame_def)
  next
    case True
    then have c: "2 \<le> count_of t" using caps(1) by simp
    have "inv (Suc (Suc (height t + 1 + n))) s1" using s1(2) by (simp add: eval_nat_numeral)
    from split_root_ok [OF t1 t(2,3) ro c this] obtain a q l m r u1 u2 u3 u4 u5 where
      run: "po_alloc ops s1 = (Inr a, u1)" "po_alloc ops u1 = (Inr q, u2)"
        "split_node (node_of t) = Inr (node_of l, m, node_of r)" "persist_node ops (tpage t) (node_of l) u2 = (Inr (), u3)"
        "persist_node ops q (node_of r) u3 = (Inr (), u4)" "persist_node ops a (Inner [m] [tpage t, q]) u4 = (Inr (), u5)" and
      u5: "inv (height t + 1 + n) u5" "tree_at u5 (TNode a [m] [l, r])" "distinct (pages (TNode a [m] [l, r]))"
        "well ty L (TNode a [m] [l, r])" "halves t q l m r" "\<not> live s1 a" "\<not> live s1 q" "same_outside (set (pages t)) s1 u5"
      by blast
    let ?t = "TNode a [m] [l, r]"
    have hh: "height ?t \<le> Suc (height t)" using u5(5) by (simp add: halves_def)
    then have hi: "inv (height ?t + n) u5" using inv_weaken [OF _ u5(1)] by simp
    have kt: "all_keys ?t = all_keys t" "entries ?t = entries t" using u5(5) by (auto simp: halves_def)
    have "count_of ?t < max_of ty ?t" using caps by (simp add: max_of_simps)
    then obtain s2 t' where s2: "insert_nonfull ops ty (po_count ops u5 + 1) (tpage ?t) k rid u5 = (Inr (), s2)"
      "inserted ty L n k rid u5 ?t s2 t'"
      using insert_nonfull_ok [OF u5(2-4) ro _ _ new(2,3) height_fuel [OF u5(1-3)] hi] kt new(1) by auto
    have e: "btree_insert ops ty key rid i = (Inr (), i\<lparr>ix_store := s2, ix_root := a\<rparr>)"
      using k s1(1) s2(1) t(5) True run
      by (simp add: btree_insert_def szoom_def sbind_def count_of_def del: insert_nonfull.simps)
    have g: "grown u5 ?t s2 t'" "inv n s2" "well ty L t'" "all_keys t' = insert k (all_keys t)"
      "entries t' = insert (k, rid) (entries t)" "height t' \<le> Suc (height t)"
      using s2(2) kt hh by (auto simp: inserted_def)
    have pt: "set (pages ?t) = insert a (insert q (set (pages t)))" using u5(5) by (auto simp: halves_def)
    have lv: "live (ix_store i) x \<longleftrightarrow> live s1 x" for x using s1(3) by simp
    have "same_outside (set (pages t)) (ix_store i) s2"
    proof -
      have "same_outside (set (pages t) \<union> set (pages ?t)) s1 s2"
      proof (rule same_outside_trans [OF u5(8)])
        show "same_outside (set (pages ?t)) u5 s2" using g(1) unfolding grown_def by blast
      qed
      then have "same_outside (insert a (insert q (set (pages t)))) s1 s2" unfolding pt by (simp add: insert_commute)
      then have "same_outside (set (pages t)) s1 s2" using same_outside_dead u5(6,7) by blast
      then show ?thesis using same_outside_trans [OF s1(4)] by simp
    qed
    moreover have "x \<in> set (pages t) \<or> \<not> live (ix_store i) x" if "x \<in> set (pages t')" for x
    proof -
      have "x \<in> set (pages ?t) \<or> \<not> live u5 x" using g(1) that by (simp add: grown_def)
      moreover have "live u5 x" if "live s1 x" using u5(8) that by (simp add: same_outside_def)
      ultimately show ?thesis unfolding pt using u5(6,7) lv by blast
    qed
    ultimately show ?thesis using e g by (auto simp: grown_def index_ok_def index_frame_def)
  qed
qed

end

end
