(* ===== verification/Lock_Progress.thy ===== *)
theory Lock_Progress
  imports Lock_Manager
begin

text \<open>
  Progress of the lock manager: whom a release wakes, and whether the woken transaction gets its lock.
  \<open>release\<close> returns the queue entries it notifies; a transaction that is not notified sleeps until its
  timeout.
\<close>

section \<open>A page becomes free\<close>

definition waiters :: "nat \<Rightarrow> lock_manager \<Rightarrow> (nat \<times> LockMode) list" where
  "waiters page lm = (case dict_get (lm_wait_queue lm) page of None \<Rightarrow> [] | Some q \<Rightarrow> q)"

lemma waiters_dequeue: "waiters page (dequeue t page lm) = filter (\<lambda>e. fst e \<noteq> t) (waiters page lm)"
  by (auto simp: waiters_def dequeue_def split: option.splits)

lemma dict_del_only: "set (dict_keys hs) = {t} \<Longrightarrow> dict_del t hs = []"
  by (force simp: AList.delete_eq filter_empty_conv)

lemma release_last_holder:
  assumes "get_lock_holders page lm = {t}"
  shows "fst (release t page lm) = filter (\<lambda>e. fst e \<noteq> t) (waiters page lm)"
    and "holders_of (snd (release t page lm)) page = []"
proof -
  have k: "set (dict_keys (holders_of lm page)) = {t}" using assms by (simp add: get_lock_holders_def)
  then obtain hs where hs: "dict_get (lm_holders lm) page = Some hs" "holders_of lm page = hs"
    by (cases "dict_get (lm_holders lm) page") (simp_all add: holders_of_def)
  have t: "t \<in> set (dict_keys hs)" "dict_del t hs = []" using k hs(2) dict_del_only by auto
  let ?lm = "lm\<lparr>lm_holders := dict_del page (lm_holders lm)\<rparr>"
  have "waiters page ?lm = waiters page lm" by (simp add: waiters_def)
  then show "fst (release t page lm) = filter (\<lambda>e. fst e \<noteq> t) (waiters page lm)"
    using hs(1) t waiters_dequeue [of page t ?lm] by (simp add: release_def Let_def waiters_def delete_idem)
  show "holders_of (snd (release t page lm)) page = []"
    using hs(2) t by (simp add: holders_of_release)
qed

text \<open>
  When the only holder of a page releases it, every other transaction that waits for the page is
  notified, and whichever of them runs first is granted the lock in the mode it asked for.
\<close>

theorem free_page_goes_to_a_waiter:
  assumes "get_lock_holders page lm = {t}" and "(u, m) \<in> set (waiters page lm)" and "u \<noteq> t"
  shows "(u, m) \<in> set (fst (release t page lm)) \<and>
    (\<exists>lm'. acquire_wake u page m (snd (release t page lm)) = (Granted, lm') \<and> holders_of lm' page = [(u, m)])"
  using assms release_last_holder [OF assms(1)] by (simp add: acquire_wake_def try_acquire_def)

theorem free_page_goes_to_a_waiter_witness:
  "(1, EXCLUSIVE) \<in> set (fst (release 2 20 lm_crossed)) \<and>
   fst (acquire_wake 1 20 EXCLUSIVE (snd (release 2 20 lm_crossed))) = Granted"
proof -
  have "get_lock_holders 20 lm_crossed = {2}" "(1, EXCLUSIVE) \<in> set (waiters 20 lm_crossed)"
    by (simp_all add: get_lock_holders_def holders_of_def waiters_def lm_crossed_eq)
  from free_page_goes_to_a_waiter [OF this] show ?thesis by auto
qed

section \<open>A page stays shared\<close>

text \<open>
  C38. While a page is still held, a release notifies only the head of the queue. There is a reachable
  state in which that one cannot proceed and another waiting transaction could, so the latter sleeps
  until its timeout although its lock is free: transactions 1 and 2 share a page, 3 asks for it
  exclusively, then 1 asks to upgrade, and 2 releases the page.
\<close>

theorem release_wakes_the_wrong_waiter:
  "\<exists>lm. lm_reachable (Some []) lm \<and> (1, EXCLUSIVE) \<in> set (waiters 5 lm) \<and>
     fst (release 2 5 lm) = [(3, EXCLUSIVE)] \<and>
     fst (acquire_wake 3 5 EXCLUSIVE (snd (release 2 5 lm))) = Waiting \<and>
     fst (acquire_wake 1 5 EXCLUSIVE (snd (release 2 5 lm))) = Granted"
proof -
  let ?lm2 = "snd (acquire_enter 2 5 SHARED (snd (acquire_enter 1 5 SHARED (new_lock_manager (Some [])))))"
  let ?lm3 = "snd (acquire_enter 3 5 EXCLUSIVE ?lm2)"
  let ?lm = "snd (acquire_enter 1 5 EXCLUSIVE ?lm3)"
  have r: "lm_reachable (Some []) ?lm" by (intro lm_reachable_enter_any lm_reachable_new)
  have "?lm2 = \<lparr>lm_holders = [(5, [(1, SHARED), (2, SHARED)])], lm_wait_queue = [], lm_detector = Some []\<rparr>"
    by (simp add: acquire_enter_def try_acquire_def holders_of_def set_holders_def new_lock_manager_def)
  then have "?lm3 = \<lparr>lm_holders = [(5, [(1, SHARED), (2, SHARED)])], lm_wait_queue = [(5, [(3, EXCLUSIVE)])],
      lm_detector = Some [(3, [1, 2])]\<rparr>"
    by (simp add: acquire_enter_def try_acquire_def holders_of_def add_edges_def other_holders_def add_wait_edge_def
        succs_def enqueue_def detect_cycle_def graph_nodes_def Let_def)
  then have e: "?lm = \<lparr>lm_holders = [(5, [(1, SHARED), (2, SHARED)])],
      lm_wait_queue = [(5, [(3, EXCLUSIVE), (1, EXCLUSIVE)])], lm_detector = Some [(3, [1, 2]), (1, [2])]\<rparr>"
    by (simp add: acquire_enter_def try_acquire_def try_upgrade_locked_def holders_of_def add_edges_def other_holders_def
        add_wait_edge_def succs_def enqueue_def detect_cycle_def graph_nodes_def Let_def)
  have w: "release 2 5 ?lm = ([(3, EXCLUSIVE)], \<lparr>lm_holders = [(5, [(1, SHARED)])],
      lm_wait_queue = [(5, [(3, EXCLUSIVE), (1, EXCLUSIVE)])], lm_detector = Some [(3, [1, 2]), (1, [2])]\<rparr>)"
    unfolding e by (simp add: release_def dequeue_def Let_def)
  have "(1, EXCLUSIVE) \<in> set (waiters 5 ?lm)" unfolding e by (simp add: waiters_def)
  moreover have "fst (acquire_wake 3 5 EXCLUSIVE (snd (release 2 5 ?lm))) = Waiting"
    "fst (acquire_wake 1 5 EXCLUSIVE (snd (release 2 5 ?lm))) = Granted"
    unfolding w by (simp_all add: acquire_wake_def try_acquire_def try_upgrade_locked_def holders_of_def)
  ultimately show ?thesis using r w by (intro exI [of _ ?lm]) simp
qed

end
