(* ===== verification/Index_Facts.thy ===== *)
theory Index_Facts
  imports Btree_Index Index_Manager Shadow_Paging
begin

text \<open>
  An index as its users see it: a program of insertions, deletions and searches on a new index, against
  the same program on a set of pairs of a key and a row id. For TEXT keys of at most 26 bytes the two
  agree. The capacities that the code computes ignore the length prefix of a key, so an INTEGER index
  overflows its first page long before it would split; both are theorems here.
\<close>

section \<open>Programs\<close>

datatype index_op = IxInsert pval RowId | IxDelete pval RowId | IxSearch pval

fun index_step :: "'s pool_ops \<Rightarrow> DataType \<Rightarrow> index_op \<Rightarrow> ('s index, RowId list) st" where
  "index_step ops ty (IxInsert v rid) = sbind (btree_insert ops ty v rid) (\<lambda>_. sret [])"
| "index_step ops ty (IxDelete v rid) = sbind (btree_delete ops ty v rid) (\<lambda>_. sret [])"
| "index_step ops ty (IxSearch v) = btree_search ops ty v"

fun index_run :: "'s pool_ops \<Rightarrow> DataType \<Rightarrow> index_op list \<Rightarrow> ('s index, RowId list list) st" where
  "index_run ops ty [] = sret []"
| "index_run ops ty (x # xs) =
     sbind (index_step ops ty x) (\<lambda>r. sbind (index_run ops ty xs) (\<lambda>rs. sret (r # rs)))"

definition index_exec :: "'s pool_ops \<Rightarrow> DataType \<Rightarrow> index_op list \<Rightarrow> 's \<Rightarrow> RowId list list res \<times> 's index" where
  "index_exec ops ty xs s = (case new_index ops s of
     (Inl e, s') \<Rightarrow> (Inl e, \<lparr>ix_store = s', ix_root = 0\<rparr>)
   | (Inr p, s') \<Rightarrow> index_run ops ty xs \<lparr>ix_store = s', ix_root = p\<rparr>)"

text \<open>The same on a set.\<close>

fun set_step :: "index_op \<Rightarrow> (pval \<times> RowId) set \<Rightarrow> RowId set \<times> (pval \<times> RowId) set" where
  "set_step (IxInsert v rid) S = ({}, insert (v, rid) S)"
| "set_step (IxDelete v rid) S = ({}, S - {(v, rid)})"
| "set_step (IxSearch v) S = ({rid. (v, rid) \<in> S}, S)"

fun set_run :: "index_op list \<Rightarrow> (pval \<times> RowId) set \<Rightarrow> RowId set list" where
  "set_run [] S = []"
| "set_run (x # xs) S = (let (r, S') = set_step x S in r # set_run xs S')"

fun op_value :: "index_op \<Rightarrow> pval" where
  "op_value (IxInsert v rid) = v"
| "op_value (IxDelete v rid) = v"
| "op_value (IxSearch v) = v"

fun op_rid_ok :: "index_op \<Rightarrow> bool" where
  "op_rid_ok (IxInsert v rid) = rid_ok rid"
| "op_rid_ok x = True"

fun inserted_values :: "index_op list \<Rightarrow> pval list" where
  "inserted_values [] = []"
| "inserted_values (IxInsert v rid # xs) = v # inserted_values xs"
| "inserted_values (x # xs) = inserted_values xs"

fun int_insert :: "index_op \<Rightarrow> bool" where
  "int_insert (IxInsert (PInt x) rid) = (- (2 ^ 63) \<le> x \<and> x < 2 ^ 63 \<and> rid_ok rid)"
| "int_insert x = False"

section \<open>Words as keys\<close>

fun short_word :: "pval \<Rightarrow> bool" where
  "short_word (PStr w) = (length (utf8_encode w) \<le> 26)"
| "short_word v = False"

fun text_key :: "pval \<Rightarrow> bytes" where
  "text_key (PStr w) = be_bytes 4 (length (utf8_encode w)) @ utf8_encode w"
| "text_key v = []"

lemma encode_short: "short_word v \<Longrightarrow> encode_key v TEXT = Inr (text_key v)"
  by (cases v) (auto simp: encode_key_def Let_def)

lemma length_text_key: "short_word v \<Longrightarrow> length (text_key v) \<le> 30"
  by (cases v) auto

lemma text_key_inj: "short_word v \<Longrightarrow> short_word w \<Longrightarrow> text_key v = text_key w \<longleftrightarrow> v = w"
  by (cases v; cases w) (auto dest: utf8_encode_inj)

lemma roomy_text: "roomy TEXT 30"
  by (simp add: roomy_def compute_max_keys_def NODE_HEADER_SIZE_def page_consts)

section \<open>The tree stands for the set\<close>

definition stands_for :: "tree \<Rightarrow> (pval \<times> RowId) set \<Rightarrow> bool" where
  "stands_for t S \<longleftrightarrow> (\<forall>(v, rid) \<in> S. short_word v) \<and> entries t = (\<lambda>(v, rid). (text_key v, rid)) ` S"

lemma stands_for_member:
  assumes "stands_for t S" and "short_word v"
  shows "(text_key v, rid) \<in> entries t \<longleftrightarrow> (v, rid) \<in> S"
  using assms text_key_inj by (fastforce simp: stands_for_def)

lemma stands_for_insert:
  "stands_for t S \<Longrightarrow> short_word v \<Longrightarrow> entries t' = insert (text_key v, rid) (entries t) \<Longrightarrow> stands_for t' (insert (v, rid) S)"
  by (auto simp: stands_for_def)

lemma stands_for_delete:
  assumes "stands_for t S" and "short_word v" and "entries t' = entries t - {(text_key v, rid)}"
  shows "stands_for t' (S - {(v, rid)})"
  using assms text_key_inj by (fastforce simp: stands_for_def)

text \<open>
  One step: \<open>used\<close> are the values inserted so far. Every insertion may need a page per level, and two for a
  new root.
\<close>

context node_store
begin

definition index_state :: "nat \<Rightarrow> 's index \<Rightarrow> tree \<Rightarrow> pval set \<Rightarrow> (pval \<times> RowId) set \<Rightarrow> bool" where
  "index_state n i t used S \<longleftrightarrow> index_ok TEXT 30 n i t \<and> stands_for t S \<and> all_keys t \<subseteq> text_key ` used \<and>
     (\<forall>v \<in> used. short_word v)"

lemma index_ok_weaken: "m \<le> n \<Longrightarrow> index_ok ty L n i t \<Longrightarrow> index_ok ty L m i t"
  using inv_weaken unfolding index_ok_def by blast

lemma index_step_refines:
  assumes st: "index_state (height t + 3 + n) i t used S" and v: "short_word (op_value x)" "op_rid_ok x"
    and new: "set (inserted_values [x]) \<inter> used = {}"
  shows "\<exists>r i' t'. index_step ops TEXT x i = (Inr r, i') \<and> set r = fst (set_step x S) \<and> index_frame i t i' t' \<and>
    index_state n i' t' (set (inserted_values [x]) \<union> used) (snd (set_step x S)) \<and> height t' \<le> Suc (height t)"
proof -
  have s: "index_ok TEXT 30 (height t + 3 + n) i t" "stands_for t S" "all_keys t \<subseteq> text_key ` used" "\<forall>v \<in> used. short_word v"
    using st by (auto simp: index_state_def)
  have low: "index_ok TEXT 30 n i t" by (rule index_ok_weaken [OF _ s(1)]) simp
  note k = encode_short [OF v(1)]
  show ?thesis
  proof (cases x)
    case (IxInsert w rid)
    then have w: "short_word w" "rid_ok rid" "w \<notin> used" using v new by auto
    then have "text_key w \<notin> all_keys t" using s(3,4) text_key_inj by blast
    from btree_insert_ok [OF s(1) encode_short [OF w(1)] roomy_text this length_text_key [OF w(1)] w(2)] obtain i' t' where
      i: "btree_insert ops TEXT w rid i = (Inr (), i')" "index_ok TEXT 30 n i' t'" "index_frame i t i' t'"
        "entries t' = insert (text_key w, rid) (entries t)" "all_keys t' = insert (text_key w) (all_keys t)"
        "height t' \<le> Suc (height t)" by blast
    have "index_state n i' t' (insert w used) (insert (w, rid) S)"
      using i(2,5) s(3,4) w(1) stands_for_insert [OF s(2) w(1) i(4)] by (auto simp: index_state_def)
    then show ?thesis using i IxInsert by (intro exI [of _ "[]"] exI [of _ i'] exI [of _ t']) (simp add: sbind_def)
  next
    case (IxDelete w rid)
    then have w: "short_word w" using v by simp
    from btree_delete_ok [OF low encode_short [OF w] roomy_text, of rid] obtain i' t' where
      i: "btree_delete ops TEXT w rid i = (Inr (), i')" "index_ok TEXT 30 n i' t'" "index_frame i t i' t'"
        "entries t' = entries t - {(text_key w, rid)}" "all_keys t' \<subseteq> all_keys t" "height t' \<le> height t" by blast
    have "index_state n i' t' used (S - {(w, rid)})"
      using i(2,5) s(3,4) stands_for_delete [OF s(2) w i(4)] by (auto simp: index_state_def)
    then show ?thesis using i IxDelete by (intro exI [of _ "[]"] exI [of _ i'] exI [of _ t']) (simp add: sbind_def)
  next
    case (IxSearch w)
    then have w: "short_word w" using v by simp
    from btree_search_ok [OF low encode_short [OF w]] obtain r i' where
      i: "btree_search ops TEXT w i = (Inr r, i')" "index_ok TEXT 30 n i' t" "index_frame i t i' t"
        "set r = {rid. (text_key w, rid) \<in> entries t}" by blast
    then have "set r = {rid. (w, rid) \<in> S}" using stands_for_member [OF s(2) w] by simp
    then show ?thesis using i s(2-4) IxSearch
      by (intro exI [of _ r] exI [of _ i'] exI [of _ t]) (simp add: index_state_def)
  qed
qed

lemma inserted_values_Cons: "inserted_values (x # xs) = inserted_values [x] @ inserted_values xs"
  by (cases x) auto

lemma index_run_refines:
  "index_state (length xs * (N + 3)) i t used S \<Longrightarrow> height t + length xs \<le> N \<Longrightarrow>
   \<forall>x \<in> set xs. short_word (op_value x) \<and> op_rid_ok x \<Longrightarrow> distinct (inserted_values xs) \<Longrightarrow>
   set (inserted_values xs) \<inter> used = {} \<Longrightarrow>
   \<exists>rs i' t'. index_run ops TEXT xs i = (Inr rs, i') \<and> map set rs = set_run xs S \<and> index_frame i t i' t'"
proof (induction xs arbitrary: i t used S)
  case Nil
  then show ?case by (auto simp: index_frame_def)
next
  case (Cons x xs)
  let ?n = "length xs * (N + 3)"
  have "index_ok TEXT 30 (height t + 3 + ?n) i t"
    using Cons.prems(1,2) by (auto simp: index_state_def intro: index_ok_weaken [rotated])
  then have st: "index_state (height t + 3 + ?n) i t used S" using Cons.prems(1) by (simp add: index_state_def)
  have x: "short_word (op_value x)" "op_rid_ok x" using Cons.prems(3) by simp_all
  have d: "distinct (inserted_values xs)" "set (inserted_values [x]) \<inter> used = {}"
    "set (inserted_values xs) \<inter> (set (inserted_values [x]) \<union> used) = {}"
    using Cons.prems(4,5) inserted_values_Cons [of x xs] by auto
  from index_step_refines [OF st x d(2)] obtain r i1 t1 where
    1: "index_step ops TEXT x i = (Inr r, i1)" "set r = fst (set_step x S)" "index_frame i t i1 t1"
      "index_state ?n i1 t1 (set (inserted_values [x]) \<union> used) (snd (set_step x S))" "height t1 \<le> Suc (height t)" by blast
  have h: "height t1 + length xs \<le> N" using 1(5) Cons.prems(2) by simp
  from Cons.IH [OF 1(4) h _ d(1,3)] Cons.prems(3) obtain rs i2 t2 where
    2: "index_run ops TEXT xs i1 = (Inr rs, i2)" "map set rs = set_run xs (snd (set_step x S))" "index_frame i1 t1 i2 t2"
    by auto
  have "index_run ops TEXT (x # xs) i = (Inr (r # rs), i2)" using 1(1) 2(1) by (simp add: sbind_def)
  moreover have "map set (r # rs) = set_run (x # xs) S" using 1(2) 2(2) by (simp add: case_prod_beta Let_def)
  ultimately show ?case using index_frame_trans [OF 1(3) 2(3)] by blast
qed

lemma index_exec_refines:
  assumes "inv (1 + length xs * (length xs + 3)) s" and "\<forall>x \<in> set xs. short_word (op_value x) \<and> op_rid_ok x"
    and "distinct (inserted_values xs)"
  shows "\<exists>rs i. index_exec ops TEXT xs s = (Inr rs, i) \<and> map set rs = set_run xs {} \<and>
    (\<forall>p. live s p \<longrightarrow> live (ix_store i) p \<and> view (ix_store i) p = view s p)"
proof -
  have "inv (Suc (length xs * (length xs + 3))) s" using assms(1) by simp
  from new_index_ok [OF this] obtain p s1 where
    n: "new_index ops s = (Inr p, s1)" "inv (length xs * (length xs + 3)) s1" "\<not> live s p" "live s1 = (live s)(p := True)"
      "node_at s1 p (Leaf [] 0)" "\<forall>q. live s q \<longrightarrow> view s1 q = view s q" by blast
  let ?i = "\<lparr>ix_store = s1, ix_root = p\<rparr>" and ?t = "TLeaf p [] 0"
  have "index_state (length xs * (length xs + 3)) ?i ?t {} {}"
    using n(2,5) by (simp add: index_state_def index_ok_def stands_for_def tree_at_simps)
  from index_run_refines [OF this _ assms(2,3)] obtain rs i' t' where
    r: "index_run ops TEXT xs ?i = (Inr rs, i')" "map set rs = set_run xs {}" "index_frame ?i ?t i' t'" by auto
  have fr: "same_outside {p} s1 (ix_store i')" using r(3) by (simp add: index_frame_def)
  have "live (ix_store i') q \<and> view (ix_store i') q = view s q" if q: "live s q" for q
  proof -
    have "q \<noteq> p" "live s1 q" using q n(3,4) by auto
    then show ?thesis using fr n(6) q by (simp add: same_outside_def)
  qed
  then show ?thesis using n(1) r(1,2) by (simp add: index_exec_def)
qed

text \<open>
  A page holds 225 entries with keys of eight bytes, two bytes of length each; the code counts with 253.
\<close>

definition int_leaf :: "nat \<Rightarrow> nat \<Rightarrow> 's index \<Rightarrow> bool" where
  "int_leaf n m i \<longleftrightarrow> inv n (ix_store i) \<and>
     (\<exists>es. node_at (ix_store i) (ix_root i) (Leaf es 0) \<and> length es = m \<and> (\<forall>(k, rid) \<in> set es. length k = 8 \<and> rid_ok rid))"

lemma length_int_payload:
  "\<forall>(k, rid) \<in> set es. length k = 8 \<and> rid_ok rid \<Longrightarrow> length (payload (Leaf es nxt)) = 4 + 18 * length es"
  by (induction es) auto

lemma set_insert_entry: "set (insert_entry k rid es) = insert (k, rid) (set es)"
  using arg_cong [OF append_take_drop_id [of "child_index k (map fst es)" es], of set]
  by (simp only: insert_entry_def Let_def set_append list.set Un_insert_right)

lemma length_insert_entry: "length (insert_entry k rid es) = Suc (length es)"
  by (simp add: insert_entry_def Let_def)

lemma int_leaf_insert:
  assumes l: "int_leaf n m i" and m: "m \<le> 225" and k: "encode_key v INTEGER = Inr k" "length k = 8" and rid: "rid_ok rid"
  shows "m < 225 \<Longrightarrow> \<exists>i'. btree_insert ops INTEGER v rid i = (Inr (), i') \<and> int_leaf n (Suc m) i'"
    and "m = 225 \<Longrightarrow> \<exists>i'. btree_insert ops INTEGER v rid i = (Inl StructError, i')"
proof -
  obtain es where es: "inv n (ix_store i)" "node_at (ix_store i) (ix_root i) (Leaf es 0)" "length es = m"
    "\<forall>(k, rid) \<in> set es. length k = 8 \<and> rid_ok rid" using l by (auto simp: int_leaf_def)
  let ?es = "insert_entry k rid es" and ?r = "ix_root i"
  have new: "\<forall>(k, rid) \<in> set ?es. length k = 8 \<and> rid_ok rid" "length ?es = Suc m"
    using es(3,4) k(2) rid by (auto simp: set_insert_entry length_insert_entry)
  from read_node_ok [OF es(1,2)] obtain s1 where s1: "read_node ops ?r (ix_store i) = (Inr (Leaf es 0), s1)" "inv n s1"
    "live s1 = live (ix_store i)" "same_outside {} (ix_store i) s1" by blast
  have at1: "node_at s1 ?r (Leaf es 0)" using node_at_frame [OF es(2) s1(4)] by simp
  from read_node_ok [OF s1(2) at1] obtain s2 where s2: "read_node ops ?r s1 = (Inr (Leaf es 0), s2)" "inv n s2"
    "live s2 = live s1" "same_outside {} s1 s2" by blast
  have l2: "live s2 ?r" using es(2) s1(3) s2(3) by (simp add: node_at_def)
  have small: "\<not> compute_max_keys (key_size INTEGER) True \<le> length es"
    using es(3) m by (simp add: compute_max_keys_def NODE_HEADER_SIZE_def page_consts)
  have run: "btree_insert ops INTEGER v rid i =
      (case persist_node ops ?r (Leaf ?es 0) s2 of (r, s3) \<Rightarrow> (r, i\<lparr>ix_store := s3\<rparr>))"
    using k(1) s1(1) s2(1) small by (simp add: btree_insert_def szoom_def sbind_def case_prod_beta)
  have ok: "node_ok (Leaf ?es 0)" using new m by (auto simp: case_prod_beta)
  {
    assume "m < 225"
    then have "node_fits (Leaf ?es 0)" using ok length_int_payload [OF new(1)] new(2) by (simp add: node_fits_def)
    from persist_node_ok [OF s2(2) l2 this] obtain s3 where
      "persist_node ops ?r (Leaf ?es 0) s2 = (Inr (), s3)" "inv n s3" "node_at s3 ?r (Leaf ?es 0)" by blast
    then show "\<exists>i'. btree_insert ops INTEGER v rid i = (Inr (), i') \<and> int_leaf n (Suc m) i'"
      using run new by (intro exI [of _ "i\<lparr>ix_store := s3\<rparr>"]) (auto simp: int_leaf_def)
  next
    assume "m = 225"
    then have "4060 < length (payload (Leaf ?es 0))" using length_int_payload [OF new(1)] new(2) by simp
    then show "\<exists>i'. btree_insert ops INTEGER v rid i = (Inl StructError, i')"
      using run persist_node_full [OF ok] by simp
  }
qed

lemma encode_integer: "- (2 ^ 63) \<le> x \<Longrightarrow> x < 2 ^ 63 \<Longrightarrow> \<exists>k. encode_key (PInt x) INTEGER = Inr k \<and> length k = 8"
  by (simp add: encode_key_def pack_i64_def flip_bytes_def in_i64_def)

lemma int_insertE:
  assumes "int_insert x"
  obtains k v rid where "x = IxInsert v rid" "encode_key v INTEGER = Inr k" "length k = 8" "rid_ok rid"
proof -
  from assms obtain i rid where x: "x = IxInsert (PInt i) rid" "- (2 ^ 63) \<le> i" "i < 2 ^ 63" "rid_ok rid"
    by (cases x rule: int_insert.cases) auto
  from encode_integer [OF x(2,3)] obtain k where "encode_key (PInt i) INTEGER = Inr k" "length k = 8" by blast
  then show thesis using that x by blast
qed

lemma int_leaf_run:
  "int_leaf n m i \<Longrightarrow> \<forall>x \<in> set xs. int_insert x \<Longrightarrow>
   (m + length xs \<le> 225 \<longrightarrow> (\<exists>i'. index_run ops INTEGER xs i = (Inr (replicate (length xs) []), i') \<and>
     int_leaf n (m + length xs) i')) \<and>
   (m \<le> 225 \<and> 225 < m + length xs \<longrightarrow> (\<exists>i'. index_run ops INTEGER xs i = (Inl StructError, i')))"
proof (induction xs arbitrary: m i)
  case (Cons x xs)
  have "int_insert x" using Cons.prems(2) by simp
  then obtain k v rid where x: "x = IxInsert v rid" and k: "encode_key v INTEGER = Inr k" "length k = 8" "rid_ok rid"
    by (rule int_insertE)
  show ?case
  proof (cases "m < 225")
    case True
    with int_leaf_insert(1) [OF Cons.prems(1) _ k] obtain i1 where
      i1: "btree_insert ops INTEGER v rid i = (Inr (), i1)" "int_leaf n (Suc m) i1" by auto
    have "index_run ops INTEGER (x # xs) i = sbind (index_run ops INTEGER xs) (\<lambda>rs. sret ([] # rs)) i1"
      using i1(1) x by (simp add: sbind_def)
    then show ?thesis using Cons.IH [OF i1(2)] Cons.prems(2) True by (auto simp: sbind_def)
  next
    case False
    then show ?thesis
      using int_leaf_insert(2) [OF Cons.prems(1) _ k] x by (auto simp: sbind_def)
  qed
qed auto

lemma index_exec_overflow:
  assumes "inv 1 s" and "\<forall>x \<in> set xs. int_insert x"
  shows "fst (index_exec ops INTEGER xs s) =
    (if length xs \<le> 225 then Inr (replicate (length xs) []) else Inl StructError)"
proof -
  have "inv (Suc 0) s" using assms(1) by simp
  from new_index_ok [OF this] obtain p s1 where
    n: "new_index ops s = (Inr p, s1)" "inv 0 s1" "node_at s1 p (Leaf [] 0)" by blast
  then have "int_leaf 0 0 \<lparr>ix_store = s1, ix_root = p\<rparr>" by (simp add: int_leaf_def)
  from int_leaf_run [OF this assms(2)] show ?thesis using n(1) by (auto simp: index_exec_def)
qed

end

section \<open>Properties\<close>

text \<open>
  C8. A new index on a TEXT column behaves as a set of pairs of a word and a row id: every program of
  insertions, deletions and searches runs to its end, each search returns exactly the row ids of the word,
  and no page that was in use before has changed. The words have at most 26 bytes and no word is inserted
  twice; there is room for the pages that the splits can need.
\<close>

theorem text_index_refines_set:
  assumes "store_ok (1 + length xs * (length xs + 3)) (ss_pool s)"
    and "\<forall>x \<in> set xs. short_word (op_value x) \<and> op_rid_ok x" and "distinct (inserted_values xs)"
  shows "\<exists>rs i. index_exec main_ops TEXT xs s = (Inr rs, i) \<and> map set rs = set_run xs {} \<and>
    (\<forall>p. pool_live (ss_pool s) p \<longrightarrow> pool_live (ss_pool (ix_store i)) p \<and>
       pool_view (ss_pool (ix_store i)) p = pool_view (ss_pool s) p)"
  using main_nodes.index_exec_refines [OF assms] .

definition demo_program :: "index_op list" where
  "demo_program = [IxInsert (PStr ''b'') \<lparr>rid_page_id = 1, rid_slot_index = 0\<rparr>,
     IxInsert (PStr ''a'') \<lparr>rid_page_id = 1, rid_slot_index = 1\<rparr>, IxSearch (PStr ''a''),
     IxDelete (PStr ''a'') \<lparr>rid_page_id = 1, rid_slot_index = 1\<rparr>, IxSearch (PStr ''a'')]"

theorem text_index_refines_set_witness:
  "\<exists>rs i. index_exec main_ops TEXT demo_program (new_session 2) = (Inr rs, i) \<and>
     map set rs = [{}, {}, {\<lparr>rid_page_id = 1, rid_slot_index = 1\<rparr>}, {}, {}]"
proof -
  have "(2 :: nat) + 1 + 41 < 2 ^ 32" by simp
  then have "store_ok 41 (ss_pool (new_session 2))" by (rule new_session_facts)
  then have ok: "store_ok (1 + length demo_program * (length demo_program + 3)) (ss_pool (new_session 2))"
    by (simp add: demo_program_def)
  have w: "\<forall>x \<in> set demo_program. short_word (op_value x) \<and> op_rid_ok x"
    by (simp add: demo_program_def rid_ok_def utf8_encode_def utf8_char_def Let_def)
  have d: "distinct (inserted_values demo_program)" by (simp add: demo_program_def)
  from text_index_refines_set [OF ok w d] obtain rs i where
    "index_exec main_ops TEXT demo_program (new_session 2) = (Inr rs, i)" "map set rs = set_run demo_program {}" by blast
  moreover have "set_run demo_program {} = [{}, {}, {\<lparr>rid_page_id = 1, rid_slot_index = 1\<rparr>}, {}, {}]"
    by (auto simp: demo_program_def)
  ultimately show ?thesis by auto
qed

text \<open>
  C36. A new index on an INTEGER column takes 225 insertions and then raises \<open>struct.error\<close> for every
  further one: the first page is full, while the tree would split only with 253 entries.
\<close>

theorem integer_index_overflows:
  assumes "store_ok 1 (ss_pool s)" and "\<forall>x \<in> set xs. int_insert x"
  shows "fst (index_exec main_ops INTEGER xs s) = (if length xs \<le> 225 then Inr (replicate (length xs) []) else Inl StructError)"
  using main_nodes.index_exec_overflow [OF assms] .

theorem integer_index_overflows_witness:
  "fst (index_exec main_ops INTEGER
     (map (\<lambda>j. IxInsert (PInt (int j)) \<lparr>rid_page_id = 1, rid_slot_index = j\<rparr>) [0..<226]) (new_session 2)) = Inl StructError"
proof -
  have "(2 :: nat) + 1 + 1 < 2 ^ 32" by simp
  then have ok: "store_ok 1 (ss_pool (new_session 2))" by (rule new_session_facts)
  have "\<forall>x \<in> set (map (\<lambda>j. IxInsert (PInt (int j)) \<lparr>rid_page_id = 1, rid_slot_index = j\<rparr>) [0..<226]). int_insert x"
    by (auto simp: rid_ok_def)
  from integer_index_overflows [OF ok this] show ?thesis by simp
qed

end
