(* ===== verification/Index_Checks.thy ===== *)
theory Index_Checks
  imports Dml_Invariants Index_Facts
begin

text \<open>
  The uniqueness check through an index: what CREATE INDEX does to it.
\<close>

section \<open>A new index is empty\<close>

context node_store
begin

lemma empty_index_search:
  assumes "inv n s" and "node_at s p (Leaf [] 0)" and "encode_key v ty = Inr k"
  shows "\<exists>i. btree_search ops ty v \<lparr>ix_store = s, ix_root = p\<rparr> = (Inr [], i)"
proof -
  have "index_ok ty 0 n \<lparr>ix_store = s, ix_root = p\<rparr> (TLeaf p [] 0)"
    using assms(1,2) by (simp add: index_ok_def tree_at_simps)
  from btree_search_ok [OF this assms(3)] show ?thesis by auto
qed

lemma create_index_ok:
  assumes inv: "inv (Suc n) (ie_store e)" and new: "dict_get (indexes (ie_mgr e)) name = None"
    and meta: "dict_get tables tname = Some meta" and c: "find (\<lambda>c. col_name c = column) (meta_columns meta) = Some c"
  shows "\<exists>im e1. create_index ops tables tname column name e = (Inr im, e1) \<and> im_name im = name \<and>
    (\<forall>p. live (ie_store e) p \<longrightarrow> live (ie_store e1) p \<and> view (ie_store e1) p = view (ie_store e) p) \<and>
    dict_get (indexes (ie_mgr e1)) name = Some im \<and>
    Option.bind (dict_get (table_indexes (ie_mgr e1)) tname) (\<lambda>cm. dict_get cm column) = Some name \<and>
    dict_get (btrees (ie_mgr e1)) name = Some \<lparr>bt_key_type = data_type c, bt_root = im_root im\<rparr> \<and>
    inv n (ie_store e1) \<and> node_at (ie_store e1) (im_root im) (Leaf [] 0)"
proof -
  from new_index_ok [OF inv] obtain p s1 where n: "new_index ops (ie_store e) = (Inr p, s1)" "inv n s1"
    "\<not> live (ie_store e) p" "live s1 = (live (ie_store e))(p := True)" "node_at s1 p (Leaf [] 0)"
    "\<forall>q. live (ie_store e) q \<longrightarrow> view s1 q = view (ie_store e) q" by blast
  let ?im = "\<lparr>im_name = name, im_table = tname, im_column = column, im_type = data_type c, im_root = p\<rparr>"
  let ?b = "\<lparr>bt_key_type = data_type c, bt_root = p\<rparr>"
  let ?e1 = "e\<lparr>ie_store := s1, ie_mgr := add_index ?im ?b (ie_mgr e)\<rparr>"
  have "create_index ops tables tname column name e = (Inr ?im, ?e1)"
    using n(1) new meta c by (simp add: create_index_def sbind_def szoom_def Let_def)
  then show ?thesis using n
    by (intro exI [of _ ?im] exI [of _ ?e1]) (auto simp: add_index_def Let_def split: option.splits)
qed

end

text \<open>
  C37. CREATE INDEX switches a uniqueness check off: the new index does not hold the rows of the table, and from
  then on the check asks the index only. A value that an INSERT was refused before, because a row has it, is
  accepted afterwards, while all pages of the table are as they were.
\<close>

theorem create_index_hides_rows:
  assumes "store_ok 1 (ss_pool (ie_store e))" and "unindexed (ie_mgr e) tname" and "dict_get (indexes (ie_mgr e)) name = None"
    and "name \<noteq> []" and "tname \<noteq> []" and "dict_get tables tname = Some meta" and "i < length (meta_columns meta)"
    and "find (\<lambda>c. col_name c = col_name (meta_columns meta ! i)) (meta_columns meta) = Some (meta_columns meta ! i)"
    and "table_ok (pool_live (ss_pool (ie_store e))) (pool_view (ss_pool (ie_store e))) (table_of_meta meta) ps"
    and "decode_rows (meta_columns meta) (contents (pool_view (ss_pool (ie_store e))) ps) = Inr rows"
    and "\<forall>(rid, vs) \<in> set rows. i < length vs" and "(rid, vs) \<in> set rows" and "py_eq (vs ! i) v"
    and "encode_key v (data_type (meta_columns meta ! i)) = Inr k"
  shows "fst (check_unique main_ops (Some main_ops) (table_of_meta meta) tname i v None e) = Inl ConstraintError \<and>
    (\<exists>im e1. create_index main_ops tables tname (col_name (meta_columns meta ! i)) name e = (Inr im, e1) \<and>
      fst (check_unique main_ops (Some main_ops) (table_of_meta meta) tname i v None e1) = Inr () \<and>
      (\<forall>p. pool_live (ss_pool (ie_store e)) p \<longrightarrow> pool_view (ss_pool (ie_store e1)) p = pool_view (ss_pool (ie_store e)) p))"
proof -
  have cols: "tbl_columns (table_of_meta meta) = meta_columns meta" by (simp add: table_of_meta_def)
  have st: "main_stmt.stored (table_of_meta meta) ps (ie_store e) rows"
    using assms(9,10) cols by (simp add: main_stmt.stored_def)
  have "clashes i v None rows" using assms(12,13) by (auto simp: clashes_def)
  then have before: "fst (check_unique main_ops (Some main_ops) (table_of_meta meta) tname i v None e) = Inl ConstraintError"
    using main_stmt.check_unique_ok [OF assms(1) main_stmt.stored_seen [OF st] assms(2,11), of "Some main_ops" v None] by auto
  have "store_ok (Suc 0) (ss_pool (ie_store e))" using assms(1) by simp
  from main_nodes.create_index_ok [OF this assms(3,6,8)] obtain im e1 where
    c: "create_index main_ops tables tname (col_name (meta_columns meta ! i)) name e = (Inr im, e1)" "im_name im = name"
      "\<forall>p. pool_live (ss_pool (ie_store e)) p \<longrightarrow> pool_live (ss_pool (ie_store e1)) p \<and>
         pool_view (ss_pool (ie_store e1)) p = pool_view (ss_pool (ie_store e)) p"
      "dict_get (indexes (ie_mgr e1)) name = Some im"
      "Option.bind (dict_get (table_indexes (ie_mgr e1)) tname) (\<lambda>cm. dict_get cm (col_name (meta_columns meta ! i))) = Some name"
      "dict_get (btrees (ie_mgr e1)) name = Some \<lparr>bt_key_type = data_type (meta_columns meta ! i), bt_root = im_root im\<rparr>"
      "store_ok 0 (ss_pool (ie_store e1))" "main_nodes.node_at (ie_store e1) (im_root im) (Leaf [] 0)" by blast
  have g: "get_index (ie_mgr e1) tname (col_name (meta_columns meta ! i)) = Some im"
    using c(4,5) assms(4) by (simp add: get_index_def)
  from main_nodes.empty_index_search [OF c(7,8) assms(14)] have
    "fst (on_btree name (\<lambda>t. btree_search main_ops t v) e1) = Inr []" using c(6) by (auto simp: on_btree_def)
  then have "fst (check_unique main_ops (Some main_ops) (table_of_meta meta) tname i v None e1) = Inr ()"
    using g c(2) cols assms(5,7)
    by (cases "on_btree name (\<lambda>t. btree_search main_ops t v) e1") (simp add: check_unique_def sbind_def)
  then show ?thesis using before c(1,3) by blast
qed

theorem create_index_hides_rows_witness:
  "\<exists>s im e1. (let tables = [(''t'', \<lparr>meta_name = ''t'', meta_columns = [int_col], meta_root = 1, meta_primary_key = []\<rparr>)];
       e = \<lparr>ie_store = s, ie_mgr = new_index_manager\<rparr> in
     fst (check_unique main_ops (Some main_ops) demo_table ''t'' 0 (PInt 7) None e) = Inl ConstraintError \<and>
     create_index main_ops tables ''t'' ''n'' ''ix'' e = (Inr im, e1) \<and>
     fst (check_unique main_ops (Some main_ops) demo_table ''t'' 0 (PInt 7) None e1) = Inr ())"
proof -
  obtain rid s ps where "table_insert main_ops demo_table [PInt 7] None (new_session 2) = (Inr rid, s)" and
    s: "store_ok 1 (ss_pool s)" "table_ok (pool_live (ss_pool s)) (pool_view (ss_pool s)) demo_table ps"
    "decode_rows (tbl_columns demo_table) (contents (pool_view (ss_pool s)) ps) = Inr [(rid, [PInt 7])]"
    using demo_inserted by blast
  let ?meta = "\<lparr>meta_name = ''t'', meta_columns = [int_col], meta_root = 1, meta_primary_key = []\<rparr>"
  let ?e = "\<lparr>ie_store = s, ie_mgr = new_index_manager\<rparr>"
  have t: "table_of_meta ?meta = demo_table" by (simp add: table_of_meta_def demo_table_def)
  have cols: "tbl_columns demo_table = [int_col]" by (simp add: demo_table_def)
  have "- (2 ^ 63) \<le> (7 :: int)" "(7 :: int) < 2 ^ 63" by simp_all
  from main_nodes.encode_integer [OF this] obtain k where k: "encode_key (PInt 7) INTEGER = Inr k" by blast
  from create_index_hides_rows [of ?e "''t''" "''ix''" "[(''t'', ?meta)]" ?meta 0 ps "[(rid, [PInt 7])]" rid "[PInt 7]" "PInt 7" k]
    s t cols k obtain im e1 where
    "fst (check_unique main_ops (Some main_ops) demo_table ''t'' 0 (PInt 7) None ?e) = Inl ConstraintError"
    "create_index main_ops [(''t'', ?meta)] ''t'' ''n'' ''ix'' ?e = (Inr im, e1)"
    "fst (check_unique main_ops (Some main_ops) demo_table ''t'' 0 (PInt 7) None e1) = Inr ()"
    by (auto simp: unindexed_def new_index_manager_def int_col_def)
  then show ?thesis by (intro exI [of _ s] exI [of _ im] exI [of _ e1]) (simp add: Let_def)
qed

end
