(* ===== verification/Planner.thy ===== *)
theory Planner
  imports Dml Py_Repr
begin

text \<open>
  \<open>tinydb/sql/planner.py\<close>: from a statement to the operators that execute it. Planning reads tables,
  too: joins are chosen by the number of rows, which \<open>estimate_rows\<close> counts through the plain pool.
\<close>

section \<open>Join inputs\<close>

record join_input =
  ji_op :: operator
  ji_table :: string
  ji_alias :: "string option"
  ji_columns :: "string list"

definition build_join_input :: "(string, TableMeta) dict \<Rightarrow> TableRef \<Rightarrow> join_input res" where
  "build_join_input tables ref =
     rbind (get_table tables (tr_name ref)) (\<lambda>tbl.
       Inr \<lparr>ji_op = ScanOperator tbl, ji_table = tr_name ref, ji_alias = tr_alias ref, ji_columns = names_of tbl\<rparr>)"

text \<open>\<open>sorted(common)[0]\<close> of a non-empty list.\<close>

definition least_name :: "string list \<Rightarrow> string" where
  "least_name names = fold (\<lambda>a b. if str_lt a b then a else b) (tl names) (hd names)"

definition resolve_natural_join :: "(string, TableMeta) dict \<Rightarrow> join_input \<Rightarrow> JoinClause \<Rightarrow> JoinClause res" where
  "resolve_natural_join tables left join =
     rbind (get_table tables (tr_name (right_table join))) (\<lambda>tbl.
       let common = filter (\<lambda>c. c \<in> set (names_of tbl)) (ji_columns left) in
       if common = [] then
         Inr \<lparr>jc_type = ''CROSS'', right_table = right_table join, jc_on = None, using_columns = None\<rparr>
       else let key = least_name common in
         Inr \<lparr>jc_type = ''INNER'', right_table = right_table join,
           jc_on = Some (BinaryOp ''='' (ColumnRef key None) (ColumnRef key None)), using_columns = Some [key]\<rparr>)"

fun get_eq_keys :: "expr \<Rightarrow> string list" where
  "get_eq_keys (ColumnRef name t) = [name]"
| "get_eq_keys _ = []"

text \<open>A unary operator has an \<open>op\<close> but no \<open>left\<close>.\<close>

definition extract_join_keys :: "JoinClause \<Rightarrow> string list res" where
  "extract_join_keys join = (case using_columns join of
     Some (k # ks) \<Rightarrow> Inr (k # ks)
   | _ \<Rightarrow> (case jc_on join of
       Some (BinaryOp op l r) \<Rightarrow>
         Inr (if op = ''='' \<and> get_eq_keys l \<noteq> [] \<and> get_eq_keys r \<noteq> [] then get_eq_keys l else [])
     | Some (UnaryOp op x) \<Rightarrow> if op = ''='' then Inl AttributeError else Inr []
     | _ \<Rightarrow> Inr []))"

section \<open>Choice of the algorithm\<close>

datatype algorithm = Nested_Loop | Hash

definition choose_algorithm ::
  "(string, TableMeta) dict \<Rightarrow> JoinClause \<Rightarrow> join_input \<Rightarrow> join_input \<Rightarrow> string list \<Rightarrow> (session, algorithm) st" where
  "choose_algorithm tables join left right keys =
     (if jc_type join = ''CROSS'' \<or> keys = [] then sret Nested_Loop
      else sbind (estimate_rows tables (ji_table left)) (\<lambda>left_rows.
        sbind (estimate_rows tables (ji_table right)) (\<lambda>right_rows.
          sret (if left_rows < 50 \<and> right_rows < 50 then Nested_Loop else Hash))))"

definition spec_of_join :: "join_input \<Rightarrow> join_input \<Rightarrow> JoinClause \<Rightarrow> string list \<Rightarrow> join_spec" where
  "spec_of_join left right join keys =
     \<lparr>join_type = jc_type join, on_condition = jc_on join, left_name = ji_table left, left_alias = ji_alias left,
      right_name = ji_table right, right_alias = ji_alias right, right_cols = ji_columns right, join_keys = keys\<rparr>"

definition build_join_operator ::
  "algorithm \<Rightarrow> join_input \<Rightarrow> join_input \<Rightarrow> JoinClause \<Rightarrow> string list \<Rightarrow> operator" where
  "build_join_operator alg left right join keys = (case alg of
     Hash \<Rightarrow> HashJoinOperator (ji_op left) (ji_op right) (spec_of_join left right join keys)
   | Nested_Loop \<Rightarrow> NestedLoopJoinOperator (ji_op left) (ji_op right) (spec_of_join left right join keys))"

text \<open>The joined rows keep the name, the alias and the columns of the leftmost table.\<close>

fun plan_join_list :: "(string, TableMeta) dict \<Rightarrow> join_input \<Rightarrow> JoinClause list \<Rightarrow> (session, join_input) st" where
  "plan_join_list tables left [] = sret left"
| "plan_join_list tables left (j # js) =
     sbind (slift (if jc_type j = ''NATURAL'' then resolve_natural_join tables left j else Inr j)) (\<lambda>join.
     sbind (slift (build_join_input tables (right_table join))) (\<lambda>right.
     sbind (slift (extract_join_keys join)) (\<lambda>keys.
     sbind (choose_algorithm tables join left right keys) (\<lambda>alg.
       plan_join_list tables (left\<lparr>ji_op := build_join_operator alg left right join keys\<rparr>) js))))"

definition plan_joins :: "(string, TableMeta) dict \<Rightarrow> TableRef \<Rightarrow> JoinClause list \<Rightarrow> (session, operator) st" where
  "plan_joins tables from js =
     sbind (slift (build_join_input tables from)) (\<lambda>left.
     sbind (plan_join_list tables left js) (\<lambda>out. sret (ji_op out)))"

section \<open>SELECT\<close>

definition lower_char :: "char \<Rightarrow> char" where
  "lower_char c = (let n = of_char c :: nat in
     if 65 \<le> n \<and> n \<le> 90 \<or> 192 \<le> n \<and> n \<le> 222 \<and> n \<noteq> 215 then char_of (n + 32) else c)"

definition lower :: "string \<Rightarrow> string" where
  "lower s = map lower_char s"

fun is_aggregate_expr :: "expr \<Rightarrow> bool" where
  "is_aggregate_expr (AggregateExpr f arg d) = True"
| "is_aggregate_expr _ = False"

fun aggregation_of :: "expr \<Rightarrow> aggregation" where
  "aggregation_of (AggregateExpr f arg d) = (if arg = StarExpr then lower f @ ''_*'' else lower f, f, arg)"
| "aggregation_of (ColumnRef name t) = (name, ''VALUE'', ColumnRef name t)"
| "aggregation_of col = (expr_repr col, ''VALUE'', col)"

fun projection_of :: "expr \<Rightarrow> string \<times> expr" where
  "projection_of StarExpr = (''*'', StarExpr)"
| "projection_of (ColumnRef name t) = (name, ColumnRef name t)"
| "projection_of (AggregateExpr f arg d) = (lower f, AggregateExpr f arg d)"
| "projection_of col = (expr_repr col, col)"

definition or_empty :: "'a list option \<Rightarrow> 'a list" where
  "or_empty x = (case x of None \<Rightarrow> [] | Some xs \<Rightarrow> xs)"

text \<open>What is put on top of FROM and JOIN, in this order.\<close>

definition plan_filter :: "SelectStatement \<Rightarrow> operator \<Rightarrow> operator" where
  "plan_filter stmt src = (case sel_where stmt of None \<Rightarrow> src | Some e \<Rightarrow> FilterOperator src e)"

definition plan_columns :: "SelectStatement \<Rightarrow> operator \<Rightarrow> operator" where
  "plan_columns stmt src =
     (if list_ex is_aggregate_expr (sel_columns stmt) \<or> or_empty (group_by stmt) \<noteq> []
      then AggregateOperator src (or_empty (group_by stmt)) (map aggregation_of (sel_columns stmt))
      else ProjectOperator src (map projection_of (sel_columns stmt)))"

definition plan_order :: "SelectStatement \<Rightarrow> operator \<Rightarrow> operator" where
  "plan_order stmt src = (if or_empty (order_by stmt) = [] then src else SortOperator src (or_empty (order_by stmt)))"

text \<open>A negative count, which the parser never gives, acts as 0 in \<open>LimitOperator\<close>.\<close>

definition plan_limit :: "SelectStatement \<Rightarrow> operator \<Rightarrow> operator" where
  "plan_limit stmt src =
     (let offset = (case offset_count stmt of None \<Rightarrow> 0 | Some n \<Rightarrow> n) in
      if limit_count stmt \<noteq> None \<or> offset \<noteq> 0 then LimitOperator src (map_option nat (limit_count stmt)) (nat offset)
      else src)"

definition plan_select :: "(string, TableMeta) dict \<Rightarrow> SelectStatement \<Rightarrow> (session, operator) st" where
  "plan_select tables stmt =
     sbind (if joins stmt \<noteq> [] then plan_joins tables (from_table stmt) (joins stmt)
            else slift (rbind (get_table tables (tr_name (from_table stmt))) (\<lambda>tbl. Inr (ScanOperator tbl)))) (\<lambda>src.
       sret (plan_limit stmt (plan_order stmt (plan_columns stmt (plan_filter stmt src)))))"

section \<open>All statements\<close>

datatype plan =
    QueryPlan operator
  | DmlPlan statement
  | CreatePlan CreateTableStatement
  | DropPlan string

definition plan_statement :: "(string, TableMeta) dict \<Rightarrow> statement \<Rightarrow> (session, plan) st" where
  "plan_statement tables stmt = (case stmt of
     Select q \<Rightarrow> sbind (plan_select tables q) (\<lambda>x. sret (QueryPlan x))
   | Insert i \<Rightarrow> sret (DmlPlan (Insert i))
   | Update u \<Rightarrow> sret (DmlPlan (Update u))
   | Delete d \<Rightarrow> sret (DmlPlan (Delete d))
   | CreateTable c \<Rightarrow> sret (CreatePlan c)
   | DropTable t \<Rightarrow> sret (DropPlan t))"

end
