(* ===== verification/Database.thy ===== *)
theory Database
  imports Txn_Manager Planner Parser
begin

text \<open>
  \<open>tinydb/database.py\<close>: the database as its users see it. One state holds what the objects of the source
  share: the transaction manager with the pool and the file (\<open>engine\<close>), the catalog's tables and the index
  manager. A statement runs on a part of that state, which \<open>on_catalog\<close>, \<open>on_session\<close> and \<open>on_statement\<close>
  cut out and put back.

  The three regular expressions of the source are parsers here; no backtracking of theirs can
  succeed where the first try failed.
\<close>

section \<open>State\<close>

record database =
  db_engine :: engine
  db_tables :: "(string, TableMeta) dict"
  db_catalog_page :: nat
  db_indexes :: index_manager

definition catalog_of :: "database \<Rightarrow> catalog" where
  "catalog_of d = \<lparr>cat_pool = en_pool (db_engine d), cat_tables = db_tables d, cat_page_id = db_catalog_page d\<rparr>"

definition put_catalog :: "catalog \<Rightarrow> database \<Rightarrow> database" where
  "put_catalog c d = d\<lparr>db_engine := (db_engine d)\<lparr>en_pool := cat_pool c\<rparr>, db_tables := cat_tables c,
     db_catalog_page := cat_page_id c\<rparr>"

abbreviation on_catalog :: "(catalog, 'a) st \<Rightarrow> (database, 'a) st" where
  "on_catalog \<equiv> szoom catalog_of put_catalog"

abbreviation on_engine :: "(engine, 'a) st \<Rightarrow> (database, 'a) st" where
  "on_engine \<equiv> szoom db_engine (\<lambda>e d. d\<lparr>db_engine := e\<rparr>)"

text \<open>
  \<open>_get_pool\<close>: the pool of a statement is the plain one, or the shadow pool of the active transaction with
  the smallest id. A session always has a transaction; without an active one it is not looked at.
\<close>

definition current_txn :: "engine \<Rightarrow> nat option" where
  "current_txn e = (if en_active e = [] then None else Some (Min (set (dict_keys (en_active e)))))"

definition idle_txn :: Transaction where
  "idle_txn = \<lparr>txn_id = 0, txn_state = Aborted, shadow_pages = [], snapshot_root = 0, new_root = 0\<rparr>"

definition statement_session :: "engine \<Rightarrow> session" where
  "statement_session e = (case Option.bind (current_txn e) (dict_get (en_active e)) of
     Some entry \<Rightarrow> session_of e entry
   | None \<Rightarrow> \<lparr>ss_pool = en_pool e, ss_txn = idle_txn, ss_locks = en_locks e\<rparr>)"

definition put_session :: "session \<Rightarrow> engine \<Rightarrow> engine" where
  "put_session s e =
     (let e' = e\<lparr>en_pool := ss_pool s, en_locks := ss_locks s\<rparr> in
      case current_txn e of
        None \<Rightarrow> e'
      | Some t \<Rightarrow> (case dict_get (en_active e) t of
          None \<Rightarrow> e'
        | Some entry \<Rightarrow> e'\<lparr>en_active := dict_set t (entry\<lparr>te_txn := ss_txn s\<rparr>) (en_active e)\<rparr>))"

definition statement_ops :: "engine \<Rightarrow> session pool_ops" where
  "statement_ops e = (if has_active_txn e then shadow_ops else main_ops)"

abbreviation on_session :: "(session, 'a) st \<Rightarrow> (database, 'a) st" where
  "on_session m \<equiv> on_engine (szoom statement_session put_session m)"

definition statement_env :: "database \<Rightarrow> session index_env" where
  "statement_env d = \<lparr>ie_store = statement_session (db_engine d), ie_mgr = db_indexes d\<rparr>"

definition put_env :: "session index_env \<Rightarrow> database \<Rightarrow> database" where
  "put_env x d = d\<lparr>db_engine := put_session (ie_store x) (db_engine d), db_indexes := ie_mgr x\<rparr>"

abbreviation on_statement :: "(session index_env, 'a) st \<Rightarrow> (database, 'a) st" where
  "on_statement \<equiv> szoom statement_env put_env"

section \<open>Opening and closing\<close>

definition DEFAULT_BUFFER_POOL_CAPACITY :: nat where "DEFAULT_BUFFER_POOL_CAPACITY = 100"

text \<open>The constructor, on the content of the file, if there is one.\<close>

definition db_open :: "bytes option \<Rightarrow> (err + unit) \<times> database" where
  "db_open content =
     (let (r, fm) = fm_open content;
          d = \<lparr>db_engine = new_engine (new_pool fm DEFAULT_BUFFER_POOL_CAPACITY), db_tables = [],
            db_catalog_page = 0, db_indexes = new_index_manager\<rparr>
      in case r of Inl e \<Rightarrow> (Inl e, d) | Inr u \<Rightarrow> on_catalog catalog_load d)"

definition db_close :: "(database, unit) st" where
  "db_close =
     sbind (on_engine (on_engine_pool flush)) (\<lambda>_.
     sbind (on_catalog catalog_save) (\<lambda>_.
       on_engine (on_engine_pool (on_fm fm_close))))"

definition db_commit :: "(database, unit) st" where
  "db_commit = on_engine (txn_commit None)"

definition db_rollback :: "(database, unit) st" where
  "db_rollback = on_engine (txn_rollback None)"

record column_info =
  ci_name :: string
  ci_type :: string
  ci_nullable :: bool
  ci_primary_key :: bool

definition get_table_info :: "database \<Rightarrow> string \<Rightarrow> column_info list" where
  "get_table_info d name = (case get_table (db_tables d) name of
     Inl e \<Rightarrow> []
   | Inr tbl \<Rightarrow> map (\<lambda>c. \<lparr>ci_name = col_name c, ci_type = type_name (data_type c), ci_nullable = nullable c,
       ci_primary_key = primary_key c\<rparr>) (tbl_columns tbl))"

section \<open>Text\<close>

text \<open>\<open>str.isspace\<close>, which \<open>strip\<close>, \<open>split\<close> and \<open>\s\<close> use; \<open>\w\<close> is \<open>word_char\<close> of the lexer.\<close>

definition py_space :: "char \<Rightarrow> bool" where
  "py_space c = (let n = of_char c :: nat in 9 \<le> n \<and> n \<le> 13 \<or> 28 \<le> n \<and> n \<le> 32 \<or> n = 133 \<or> n = 160)"

definition rstrip_if :: "(char \<Rightarrow> bool) \<Rightarrow> string \<Rightarrow> string" where
  "rstrip_if p s = rev (dropWhile p (rev s))"

definition strip :: "string \<Rightarrow> string" where
  "strip s = rstrip_if py_space (dropWhile py_space s)"

definition clean_sql :: "string \<Rightarrow> string" where
  "clean_sql sql = strip (rstrip_if (\<lambda>c. c = CHR '';'') (strip sql))"

fun split_on :: "char \<Rightarrow> string \<Rightarrow> string list" where
  "split_on sep [] = [[]]"
| "split_on sep (c # s) = (if c = sep then [] # split_on sep s
     else case split_on sep s of [] \<Rightarrow> [[c]] | w # ws \<Rightarrow> (c # w) # ws)"

text \<open>\<open>s.split()\<close>: the words between stretches of white space.\<close>

fun words_of :: "string \<Rightarrow> string \<Rightarrow> string list" where
  "words_of w [] = (if w = [] then [] else [w])"
| "words_of w (c # s) =
     (if py_space c then (if w = [] then words_of [] s else w # words_of [] s) else words_of (w @ [c]) s)"

fun starts :: "string \<Rightarrow> string \<Rightarrow> bool" where
  "starts [] s = True"
| "starts (c # w) [] = False"
| "starts (c # w) (d # s) = (c = d \<and> starts w s)"

fun contains_word :: "string \<Rightarrow> string \<Rightarrow> bool" where
  "contains_word w [] = (w = [])"
| "contains_word w (c # s) = (starts w (c # s) \<or> contains_word w s)"

section \<open>Regular expressions\<close>

text \<open>A literal under \<open>IGNORECASE\<close>; the literals of the source are ASCII.\<close>

definition rx_literal :: "string \<Rightarrow> string \<Rightarrow> string option" where
  "rx_literal w s = (if length w \<le> length s \<and> map lower_char (take (length w) s) = map lower_char w
     then Some (drop (length w) s) else None)"

text \<open>\<open>(\w+)\<close>, \<open>\s*\<close> and \<open>\s+\<close>.\<close>

definition rx_word :: "string \<Rightarrow> (string \<times> string) option" where
  "rx_word s = (let w = takeWhile word_char s in if w = [] then None else Some (w, dropWhile word_char s))"

definition rx_spaces :: "string \<Rightarrow> string" where
  "rx_spaces s = dropWhile py_space s"

definition rx_some_spaces :: "string \<Rightarrow> string option" where
  "rx_some_spaces s = (case s of c # t \<Rightarrow> if py_space c then Some (rx_spaces t) else None | [] \<Rightarrow> None)"

text \<open>\<open>(.+)\)\<close>: up to the last parenthesis of the line.\<close>

definition rx_to_last_paren :: "string \<Rightarrow> string option" where
  "rx_to_last_paren s =
     (let line = takeWhile (\<lambda>c. c \<noteq> CHR 0x0A) s; front = dropWhile (\<lambda>c. c \<noteq> CHR '')'') (rev line) in
      if length front < 2 then None else Some (rev (tl front)))"

definition match_create_table :: "string \<Rightarrow> (string \<times> string) option" where
  "match_create_table sql =
     Option.bind (rx_literal ''CREATE TABLE '' sql) (\<lambda>s.
     Option.bind (rx_word s) (\<lambda>(name, s).
     Option.bind (rx_literal ''('' (rx_spaces s)) (\<lambda>s.
     map_option (\<lambda>cols. (name, cols)) (rx_to_last_paren s))))"

definition match_drop_table :: "string \<Rightarrow> string option" where
  "match_drop_table sql = Option.bind (rx_literal ''DROP TABLE '' sql) (\<lambda>s. map_option fst (rx_word s))"

definition match_create_index :: "string \<Rightarrow> (string \<times> string \<times> string) option" where
  "match_create_index sql =
     Option.bind (rx_literal ''CREATE INDEX '' sql) (\<lambda>s.
     Option.bind (rx_word s) (\<lambda>(name, s).
     Option.bind (rx_some_spaces s) (\<lambda>s.
     Option.bind (rx_literal ''ON'' s) (\<lambda>s.
     Option.bind (rx_some_spaces s) (\<lambda>s.
     Option.bind (rx_word s) (\<lambda>(tbl, s).
     Option.bind (rx_literal ''('' (rx_spaces s)) (\<lambda>s.
     Option.bind (rx_word s) (\<lambda>(col, s).
     map_option (\<lambda>s. (name, tbl, col)) (rx_literal '')'' s)))))))))"

section \<open>Statements\<close>

text \<open>One column of CREATE TABLE; a column with the word PRIMARY and the word KEY anywhere is a key.\<close>

definition column_of_text :: "string \<Rightarrow> ColumnDef res" where
  "column_of_text w = (case words_of [] (strip w) of
     a # t # rest \<Rightarrow>
       rbind (data_type_of (upper t)) (\<lambda>ty.
         let u = upper w; pk = contains_word ''PRIMARY'' u \<and> contains_word ''KEY'' u in
         Inr \<lparr>col_name = a, data_type = ty, nullable = \<not> contains_word ''NOT NULL'' u \<and> \<not> pk, primary_key = pk,
           is_unique = contains_word ''UNIQUE'' u\<rparr>)
   | _ \<Rightarrow> Inl IndexError)"

definition exec_create_table :: "string \<Rightarrow> (database, QueryResult) st" where
  "exec_create_table sql = (case match_create_table sql of
     None \<Rightarrow> sraise DatabaseError
   | Some (name, cols_str) \<Rightarrow>
       sbind (slift (rmap column_of_text (split_on (CHR '','') cols_str))) (\<lambda>cols.
       sbind (on_catalog (create_table name cols (last_primary_key cols))) (\<lambda>_.
       sbind (on_catalog catalog_save) (\<lambda>_. sret (affected 0)))))"

definition exec_drop_table :: "string \<Rightarrow> (database, QueryResult) st" where
  "exec_drop_table sql = (case match_drop_table sql of
     None \<Rightarrow> sraise DatabaseError
   | Some name \<Rightarrow>
       sbind (on_catalog (drop_table name)) (\<lambda>_.
       sbind (on_catalog catalog_save) (\<lambda>_. sret (affected 0))))"

text \<open>The pages of an index come from the plain pool, also inside a transaction.\<close>

definition exec_create_index :: "string \<Rightarrow> (database, QueryResult) st" where
  "exec_create_index sql = (case match_create_index sql of
     None \<Rightarrow> sraise DatabaseError
   | Some (name, tbl, col) \<Rightarrow> (\<lambda>d.
       sbind (on_statement (create_index main_ops (db_tables d) tbl col name)) (\<lambda>_. sret (affected 0)) d))"

definition row_columns :: "row \<Rightarrow> string list" where
  "row_columns r = filter (\<lambda>k. k \<noteq> ''_rowid'') (dict_keys r)"

definition query_result :: "(string, TableMeta) dict \<Rightarrow> string \<Rightarrow> row list \<Rightarrow> QueryResult res" where
  "query_result tables name rows = (case rows of
     r # rs \<Rightarrow> Inr \<lparr>qr_columns = row_columns r, qr_rows = map (\<lambda>x. map (row_get x) (row_columns r)) rows,
       row_count = length rows\<rparr>
   | [] \<Rightarrow> rbind (get_table tables name) (\<lambda>tbl. Inr \<lparr>qr_columns = names_of tbl, qr_rows = [], row_count = 0\<rparr>))"

text \<open>
  A text that begins with SELECT parses to nothing else; should it, the source would put a
  \<open>QueryResult\<close> into a row, and the model stops.
\<close>

definition exec_select :: "string \<Rightarrow> (database, QueryResult) st" where
  "exec_select sql d =
     sbind (slift (parse_sql sql)) (\<lambda>stmt. case stmt of
       Select q \<Rightarrow>
         sbind (on_session (plan_select (db_tables d) q)) (\<lambda>op.
         sbind (on_session (to_list (op_rows (statement_ops (db_engine d)) op))) (\<lambda>rows.
           slift (query_result (db_tables d) (tr_name (from_table q)) rows)))
     | _ \<Rightarrow> sraise NotImplementedError) d"

text \<open>
  All other statements. CREATE TABLE and DROP TABLE come here when their two words are not separated by
  exactly one space; SELECT does not come here.
\<close>

definition exec_dml :: "nat \<Rightarrow> string \<Rightarrow> (database, QueryResult) st" where
  "exec_dml fuel sql d =
     (let ops = statement_ops (db_engine d); tables = db_tables d in
      sbind (slift (parse_sql sql)) (\<lambda>stmt. case stmt of
        Insert i \<Rightarrow> on_statement (execute_insert ops (Some main_ops) tables i)
      | Update u \<Rightarrow> on_statement (execute_update ops (Some main_ops) tables fuel u)
      | Delete x \<Rightarrow> on_statement (execute_delete ops (Some main_ops) tables x)
      | CreateTable c \<Rightarrow> on_catalog (execute_create c)
      | DropTable t \<Rightarrow> on_catalog (execute_drop t)
      | Select q \<Rightarrow> sraise NotImplementedError)) d"

definition dispatch :: "nat \<Rightarrow> string \<Rightarrow> (database, QueryResult) st" where
  "dispatch fuel sql =
     (let u = upper sql in
      if starts ''CREATE TABLE'' u then exec_create_table sql
      else if starts ''DROP TABLE'' u then exec_drop_table sql
      else if starts ''CREATE INDEX'' u then exec_create_index sql
      else if starts ''BEGIN'' u then
        sbind (on_engine (\<lambda>e. (Inr (), snd (txn_begin None e)))) (\<lambda>_. sret (affected 0))
      else if starts ''COMMIT'' u then sbind db_commit (\<lambda>_. sret (affected 0))
      else if starts ''ROLLBACK'' u then sbind db_rollback (\<lambda>_. sret (affected 0))
      else if starts ''SHOW TABLES'' u then
        sbind (sget (\<lambda>d. list_tables (db_tables d))) (\<lambda>names.
          sret \<lparr>qr_columns = [''table_name''], qr_rows = map (\<lambda>t. [PStr t]) names, row_count = length names\<rparr>)
      else if starts ''SELECT'' u then exec_select sql
      else exec_dml fuel sql)"

text \<open>The subclasses of \<open>SQLError\<close>.\<close>

fun is_sql_error :: "err \<Rightarrow> bool" where
  "is_sql_error (LexerError l c) = True"
| "is_sql_error (ParserError l c) = True"
| "is_sql_error PlanningError = True"
| "is_sql_error ExecutionError = True"
| "is_sql_error ConstraintError = True"
| "is_sql_error _ = False"

text \<open>
  Every exception becomes a \<open>DatabaseError\<close>; one that is no \<open>SQLError\<close> first rolls the transaction back,
  and when that raises, its exception goes out as it is.
\<close>

definition handle_error :: "err \<Rightarrow> (database, 'a) st" where
  "handle_error err d =
     (if err = DatabaseError \<or> err = NonTermination then (Inl err, d)
      else sbind (if \<not> is_sql_error err \<and> has_active_txn (db_engine d) then db_rollback else sret ())
        (\<lambda>_. sraise DatabaseError) d)"

definition execute :: "nat \<Rightarrow> string \<Rightarrow> (database, QueryResult) st" where
  "execute fuel sql d = (case dispatch fuel (clean_sql sql) d of
     (Inr r, d') \<Rightarrow> (Inr r, d')
   | (Inl err, d') \<Rightarrow> handle_error err d')"

text \<open>A script: the results of its statements, up to the first that raises.\<close>

fun execute_all :: "nat \<Rightarrow> string list \<Rightarrow> (database, QueryResult list) st" where
  "execute_all fuel [] = sret []"
| "execute_all fuel (q # qs) = sbind (execute fuel q) (\<lambda>r. sbind (execute_all fuel qs) (\<lambda>rs. sret (r # rs)))"

end
