(* ===== verification/Database_Facts.thy ===== *)
theory Database_Facts
  imports Database Dml_Invariants Query_Store Index_Facts
begin

text \<open>
  Statements as text: what \<open>Database.execute\<close> does with an INSERT, a SELECT of a whole table and the
  statements of transactions, from the text to the rows.
\<close>

section \<open>Dispatch\<close>

lemma starts_iff: "starts w s \<longleftrightarrow> (\<exists>t. s = w @ t)"
  by (induction w s rule: starts.induct) auto

lemma dispatch_select: "starts ''SELECT'' (upper q) \<Longrightarrow> dispatch fuel q = exec_select q"
  by (auto simp: dispatch_def starts_iff)

lemma dispatch_insert: "starts ''INSERT'' (upper q) \<Longrightarrow> dispatch fuel q = exec_dml fuel q"
  by (auto simp: dispatch_def starts_iff)

lemma execute_ok: "dispatch fuel (clean_sql q) d = (Inr r, d') \<Longrightarrow> execute fuel q d = (Inr r, d')"
  by (simp add: execute_def)

section \<open>Without a transaction\<close>

definition idle :: "database \<Rightarrow> bool" where
  "idle d \<longleftrightarrow> en_active (db_engine d) = []"

definition db_session :: "database \<Rightarrow> session" where
  "db_session d = statement_session (db_engine d)"

lemma idle_session:
  assumes "idle d"
  shows "statement_ops (db_engine d) = main_ops" and "ss_pool (db_session d) = en_pool (db_engine d)"
    and "put_session s (db_engine d) = (db_engine d)\<lparr>en_pool := ss_pool s, en_locks := ss_locks s\<rparr>"
  using assms by (simp_all add: idle_def statement_ops_def has_active_txn_def db_session_def statement_session_def
    current_txn_def put_session_def Let_def)

lemma idle_put:
  assumes "idle d"
  shows "idle (put_env x d)" and "db_session (put_env x d) = (ie_store x)\<lparr>ss_txn := idle_txn\<rparr>"
    and "db_tables (put_env x d) = db_tables d" and "db_indexes (put_env x d) = ie_mgr x"
  using assms by (simp_all add: put_env_def idle_session(3) idle_def db_session_def statement_session_def current_txn_def)

section \<open>Rows\<close>

lemma fold_dict_set:
  "distinct (map fst kvs) \<Longrightarrow> set (map fst kvs) \<inter> set (dict_keys acc) = {} \<Longrightarrow>
   fold (\<lambda>(k, v). dict_set k v) kvs acc = acc @ kvs"
proof (induction kvs arbitrary: acc)
  case (Cons kv kvs)
  obtain k v where kv: "kv = (k, v)" by (cases kv)
  have "dict_set k v acc = acc @ [(k, v)]" using Cons.prems(2) kv by (intro dict_set_new) auto
  moreover have "set (map fst kvs) \<inter> set (dict_keys (acc @ [(k, v)])) = {}" using Cons.prems kv by auto
  ultimately show ?case using Cons.IH [of "acc @ [(k, v)]"] Cons.prems(1) kv by simp
qed simp

definition plain_names :: "string list \<Rightarrow> bool" where
  "plain_names names \<longleftrightarrow> distinct names \<and> ''_rowid'' \<notin> set names"

lemma fold_names:
  assumes "plain_names names" and "length vs = length names" and "set names \<inter> set (dict_keys acc) = {}"
  shows "fold (\<lambda>(k, v). dict_set k v) (zip names vs) acc = acc @ zip names vs"
  using assms by (intro fold_dict_set) (simp_all add: plain_names_def)

lemma visible_zip: "plain_names names \<Longrightarrow> visible (zip names vs) = zip names vs"
  by (auto simp: visible_def plain_names_def filter_id_conv dest: set_zip_leftD)

lemma star_row:
  assumes "plain_names (names_of tbl)" and "length vs = length (tbl_columns tbl)"
  shows "project_row [(''*'', StarExpr)] (scan_row tbl (rid, vs)) [] = Inr (zip (names_of tbl) vs)"
proof -
  have l: "length vs = length (names_of tbl)" using assms(2) by (simp add: names_of_def)
  have "row_dict (names_of tbl) vs = zip (names_of tbl) vs"
    using fold_names [OF assms(1) l, of "[]"] by (simp add: row_dict_def)
  then have "scan_row tbl (rid, vs) = (''_rowid'', PRowId (rid_page_id rid) (rid_slot_index rid)) # zip (names_of tbl) vs"
    using fold_names [OF assms(1) l, of "[(''_rowid'', PRowId (rid_page_id rid) (rid_slot_index rid))]"] assms(1)
    by (simp add: scan_row_def names_of_def plain_names_def)
  then have "visible (scan_row tbl (rid, vs)) = zip (names_of tbl) vs"
    using visible_zip [OF assms(1)] by (simp add: visible_def)
  then show ?thesis using fold_names [OF assms(1) l, of "[]"] by (simp add: put_all_def)
qed

lemma row_of_zip:
  assumes "plain_names names" and "length vs = length names"
  shows "row_columns (zip names vs) = names" and "map (row_get (zip names vs)) names = vs"
proof -
  show "row_columns (zip names vs) = names"
    using assms by (auto simp: row_columns_def plain_names_def filter_id_conv)
  have "row_get (zip names vs) (names ! i) = vs ! i" if "i < length names" for i
    using that assms by (simp add: row_get_def plain_names_def map_of_zip_nth)
  then show "map (row_get (zip names vs)) names = vs" using assms(2) by (simp add: list_eq_iff_nth_eq)
qed

section \<open>SELECT * FROM a table\<close>

definition select_star :: "string \<Rightarrow> SelectStatement" where
  "select_star t = \<lparr>sel_columns = [StarExpr], from_table = \<lparr>tr_name = t, tr_alias = None\<rparr>, joins = [], sel_where = None,
     order_by = None, limit_count = None, offset_count = None, group_by = None\<rparr>"

definition table_result :: "Table \<Rightarrow> pval list list \<Rightarrow> QueryResult" where
  "table_result tbl vss = \<lparr>qr_columns = names_of tbl, qr_rows = vss, row_count = length vss\<rparr>"

lemma plan_select_star:
  "get_table tables t = Inr tbl \<Longrightarrow>
   plan_select tables (select_star t) s = (Inr (ProjectOperator (ScanOperator tbl) [(''*'', StarExpr)]), s)"
  by (simp add: plan_select_def select_star_def plan_limit_def plan_order_def plan_columns_def plan_filter_def or_empty_def
    sbind_def)

lemma star_rows:
  assumes "plain_names (names_of tbl)" and "main_stmt.full_rows tbl rows"
  shows "rmap (\<lambda>row. project_row [(''*'', StarExpr)] row []) (map (scan_row tbl) rows) = Inr (map (zip (names_of tbl) \<circ> snd) rows)"
  using assms(2)
proof (induction rows)
  case (Cons r rows)
  obtain rid vs where "r = (rid, vs)" by (cases r)
  then show ?case using Cons star_row [OF assms(1), of vs rid] by (simp add: main_stmt.full_rows_def)
qed simp

lemma star_result:
  assumes "plain_names (names_of tbl)" and "main_stmt.full_rows tbl rows" and "get_table tables t = Inr tbl"
  shows "query_result tables t (map (zip (names_of tbl) \<circ> snd) rows) = Inr (table_result tbl (map snd rows))"
proof (cases rows)
  case Nil
  then show ?thesis using assms(3) by (simp add: query_result_def table_result_def)
next
  case (Cons r rs)
  have l: "length (snd x) = length (names_of tbl)" if "x \<in> set rows" for x
    using assms(2) that by (auto simp: main_stmt.full_rows_def names_of_def)
  note z = row_of_zip [OF assms(1) l]
  have "row_columns (zip (names_of tbl) (snd r)) = names_of tbl" using z(1) [of r] Cons by simp
  moreover have "map (row_get (zip (names_of tbl) (snd x))) (names_of tbl) = snd x" if "x \<in> set rows" for x
    using z(2) [OF that] .
  then have "map (\<lambda>x. map (row_get x) (names_of tbl)) (map (zip (names_of tbl) \<circ> snd) rows) = map snd rows" by simp
  ultimately show ?thesis using Cons by (simp add: query_result_def table_result_def)
qed

lemma exec_select_star:
  assumes idle: "idle d" and ok: "store_ok n (ss_pool (db_session d))" and q: "parse_sql q = Inr (Select (select_star t))"
    and t: "get_table (db_tables d) t = Inr tbl" and st: "main_stmt.stored tbl ps (db_session d) rows"
    and full: "main_stmt.full_rows tbl rows" and names: "plain_names (names_of tbl)"
  shows "\<exists>d'. exec_select q d = (Inr (table_result tbl (map snd rows)), d')"
proof -
  let ?op = "ProjectOperator (ScanOperator tbl) [(''*'', StarExpr)]"
  have same: "put_session (statement_session (db_engine d)) (db_engine d) = db_engine d"
    using idle_session(3) [OF idle] idle_session(2) [OF idle] idle
    by (simp add: db_session_def statement_session_def idle_def current_txn_def)
  have "op_sem (\<lambda>_. rows) ?op = Inr (map (zip (names_of tbl) \<circ> snd) rows)" using star_rows [OF names full] by simp
  from main.query_ok [OF ok, of ?op "\<lambda>_. ps" "\<lambda>_. rows", OF _ _ this] st obtain s' where
    s: "to_list (op_rows main_ops ?op) (db_session d) = (Inr (map (zip (names_of tbl) \<circ> snd) rows), s')"
    by (auto simp: main_stmt.stored_def)
  let ?d = "d\<lparr>db_engine := put_session s' (db_engine d)\<rparr>"
  have tr: "tr_name (from_table (select_star t)) = t" by (simp add: select_star_def)
  have "exec_select q d = (query_result (db_tables d) t (map (zip (names_of tbl) \<circ> snd) rows), ?d)"
    using q s plan_select_star [OF t] idle_session(1) [OF idle] same tr
    by (simp add: exec_select_def sbind_def szoom_def db_session_def)
  then show ?thesis using star_result [OF names full t] by simp
qed

section \<open>INSERT\<close>

lemma exec_insert_text:
  assumes idle: "idle d" and q: "parse_sql q = Inr (Insert stmt)"
    and ok: "store_ok (3 * length (ins_values stmt) + n) (ss_pool (db_session d))"
    and t: "get_table (db_tables d) (ins_table stmt) = Inr tbl" and st: "main_stmt.stored tbl ps (db_session d) rows"
    and ix: "unindexed (db_indexes d) (ins_table stmt)" and full: "main_stmt.full_rows tbl rows"
    and fits: "rows_fit tbl (ins_columns stmt) (ins_values stmt)"
  shows "\<exists>d' ps' rows'. exec_dml fuel q d =
      (rbind (fst (insert_all tbl (ins_columns stmt) (ins_values stmt) (map snd rows)))
         (\<lambda>_. Inr (affected (length (ins_values stmt)))), d') \<and>
    idle d' \<and> store_ok n (ss_pool (db_session d')) \<and> db_tables d' = db_tables d \<and> db_indexes d' = db_indexes d \<and>
    main_stmt.stored tbl ps' (db_session d') rows' \<and>
    mset (map snd rows') = mset (snd (insert_all tbl (ins_columns stmt) (ins_values stmt) (map snd rows)))"
proof -
  let ?e = "statement_env d"
  have e: "ie_store ?e = db_session d" "ie_mgr ?e = db_indexes d" by (simp_all add: statement_env_def db_session_def)
  from main_stmt.execute_insert_ok [of stmt n ?e, OF _ t _ _ full fits, of ps "Some main_ops"] ok st ix e
  obtain e' ps' rows' where
    r: "execute_insert main_ops (Some main_ops) (db_tables d) stmt ?e =
      (rbind (fst (insert_all tbl (ins_columns stmt) (ins_values stmt) (map snd rows)))
         (\<lambda>_. Inr (affected (length (ins_values stmt)))), e')" "store_ok n (ss_pool (ie_store e'))" "ie_mgr e' = db_indexes d"
      "main_stmt.stored tbl ps' (ie_store e') rows'"
      "mset (map snd rows') = mset (snd (insert_all tbl (ins_columns stmt) (ins_values stmt) (map snd rows)))" by auto
  have "exec_dml fuel q d = (rbind (fst (insert_all tbl (ins_columns stmt) (ins_values stmt) (map snd rows)))
         (\<lambda>_. Inr (affected (length (ins_values stmt)))), put_env e' d)"
    using q r(1) idle_session(1) [OF idle] by (simp add: exec_dml_def Let_def sbind_def szoom_def)
  moreover have "main_stmt.stored tbl ps' (db_session (put_env e' d)) rows'"
    using r(4) idle_put(2) [OF idle] by (simp add: main_stmt.stored_def)
  ultimately show ?thesis using r(2,3,5) idle_put [OF idle, of e']
    by (intro exI [of _ "put_env e' d"] exI [of _ ps'] exI [of _ rows']) simp
qed

section \<open>Transactions\<close>

lemma resolve_two: "2 \<le> length (en_active e) \<Longrightarrow> resolve_txn None e = Inl TransactionError"
  by (auto simp: resolve_txn_def split: list.splits)

lemma two_txns_stuck:
  assumes "2 \<le> length (en_active (db_engine d))"
  shows "db_commit d = (Inl TransactionError, d)" and "db_rollback d = (Inl TransactionError, d)"
  using resolve_two [OF assms] by (simp_all add: db_commit_def db_rollback_def szoom_def txn_commit_def txn_rollback_def sbind_def)

lemma handle_stuck:
  assumes "2 \<le> length (en_active (db_engine d))"
  shows "handle_error TransactionError d = (Inl TransactionError, d)"
proof -
  have "has_active_txn (db_engine d)" using assms by (auto simp: has_active_txn_def)
  then show ?thesis using two_txns_stuck(2) [OF assms] by (simp add: handle_error_def sbind_def)
qed

lemma dispatch_txn:
  "dispatch fuel ''BEGIN'' = sbind (on_engine (\<lambda>e. (Inr (), snd (txn_begin None e)))) (\<lambda>_. sret (affected 0))"
  "dispatch fuel ''COMMIT'' = sbind db_commit (\<lambda>_. sret (affected 0))"
  "dispatch fuel ''ROLLBACK'' = sbind db_rollback (\<lambda>_. sret (affected 0))"
  by (simp_all add: dispatch_def upper_def upper_char_def Let_def)

lemma clean_txn: "clean_sql ''BEGIN'' = ''BEGIN''" "clean_sql ''COMMIT'' = ''COMMIT''" "clean_sql ''ROLLBACK'' = ''ROLLBACK''"
  by code_simp+

section \<open>Properties\<close>

text \<open>
  C1. What SQL inserts, SQL reads: outside a transaction, the text of an INSERT into a table without an index
  whose rows are all accepted reports their number, and the text of a SELECT * after it returns the
  columns of the table and its old and new rows, converted to the column types, each as often as it is there.
  Every new row has a value for each column and takes at most 4060 bytes (\<open>rows_fit\<close>): a shorter row is written
  as it is and cannot be read back, and a longer one does not fit an empty page.
\<close>

theorem sql_insert_then_select:
  assumes "idle d" and "store_ok (3 * length (ins_values stmt)) (ss_pool (db_session d))"
    and "starts ''INSERT'' (upper (clean_sql q1))" and "parse_sql (clean_sql q1) = Inr (Insert stmt)"
    and "starts ''SELECT'' (upper (clean_sql q2))" and "parse_sql (clean_sql q2) = Inr (Select (select_star (ins_table stmt)))"
    and "get_table (db_tables d) (ins_table stmt) = Inr tbl" and "unindexed (db_indexes d) (ins_table stmt)"
    and "table_ok (pool_live (ss_pool (db_session d))) (pool_view (ss_pool (db_session d))) tbl ps"
    and "decode_rows (tbl_columns tbl) (contents (pool_view (ss_pool (db_session d))) ps) = Inr rows"
    and "table_valid (tbl_columns tbl) (map snd rows)" and "plain_names (names_of tbl)"
    and "rows_fit tbl (ins_columns stmt) (ins_values stmt)"
    and "insert_all tbl (ins_columns stmt) (ins_values stmt) (map snd rows) = (Inr (), vss)"
  shows "\<exists>d' vss'. execute_all fuel [q1, q2] d = (Inr [affected (length (ins_values stmt)), table_result tbl vss'], d') \<and>
    mset vss' = mset vss"
proof -
  have st: "main_stmt.stored tbl ps (db_session d) rows" using assms(9,10) by (simp add: main_stmt.stored_def)
  have ok: "store_ok (3 * length (ins_values stmt) + 0) (ss_pool (db_session d))" using assms(2) by simp
  note full = main_stmt.full_valid [OF assms(11)]
  from exec_insert_text [OF assms(1,4) ok assms(7) st assms(8) full assms(13), of fuel] assms(14) obtain d1 ps1 rows1 where
    i: "exec_dml fuel (clean_sql q1) d = (Inr (affected (length (ins_values stmt))), d1)" "idle d1"
      "store_ok 0 (ss_pool (db_session d1))" "db_tables d1 = db_tables d" "main_stmt.stored tbl ps1 (db_session d1) rows1"
      "mset (map snd rows1) = mset vss" by auto
  have "table_valid (tbl_columns tbl) vss" using insert_all_valid [OF assms(11,13)] assms(14) by simp
  then have full1: "main_stmt.full_rows tbl rows1"
    using table_valid_mset [OF i(6) [symmetric]] by (intro main_stmt.full_valid) blast
  have t: "get_table (db_tables d1) (ins_table stmt) = Inr tbl" using assms(7) i(4) by simp
  from exec_select_star [OF i(2,3) assms(6) t i(5) full1 assms(12)] obtain d2 where
    s: "exec_select (clean_sql q2) d1 = (Inr (table_result tbl (map snd rows1)), d2)" by blast
  have "execute fuel q1 d = (Inr (affected (length (ins_values stmt))), d1)"
    "execute fuel q2 d1 = (Inr (table_result tbl (map snd rows1)), d2)"
    using i(1) s dispatch_insert [OF assms(3)] dispatch_select [OF assms(5)] by (simp_all add: execute_ok)
  then show ?thesis using i(6) by (intro exI [of _ d2] exI [of _ "map snd rows1"]) (simp add: sbind_def)
qed

definition key_db :: database where
  "key_db = \<lparr>db_engine = new_engine (new_pool (data_fm 2) 8), db_tables = [(''t'', key_meta)], db_catalog_page = 0,
     db_indexes = new_index_manager\<rparr>"

theorem sql_insert_then_select_witness:
  "\<exists>d' vss'. execute_all 5 [''INSERT INTO t VALUES (2), (1);'', ''SELECT * FROM t''] key_db =
      (Inr [affected 2, table_result key_table vss'], d') \<and> mset vss' = {#[PInt 1], [PInt 2]#}"
proof -
  let ?q1 = "''INSERT INTO t VALUES (2), (1);''" and ?q2 = "''SELECT * FROM t''" and ?i = "key_insert [PInt 2, PInt 1]"
  have s: "ss_pool (db_session key_db) = ss_pool (ie_store key_env)"
    by (simp add: db_session_def statement_session_def current_txn_def key_db_def new_engine_def key_env_def new_session_def)
  have "2 + 1 + 6 < (2 ^ 32 :: nat)" by simp
  note e = key_env_facts [OF this, folded s]
  have p: "parse_sql (clean_sql ?q1) = Inr (Insert ?i)" "parse_sql (clean_sql ?q2) = Inr (Select (select_star (ins_table ?i)))"
    unfolding key_insert_def select_star_def by code_simp+
  have u: "starts ''INSERT'' (upper (clean_sql ?q1))" "starts ''SELECT'' (upper (clean_sql ?q2))" by code_simp+
  have f: "rows_fit key_table (ins_columns ?i) (ins_values ?i)"
    using key_insert_fits [of "[2, 1]"] by (simp add: key_insert_def)
  have a: "insert_all key_table (ins_columns ?i) (ins_values ?i) (map snd ([] :: rows)) = (Inr (), [[PInt 2], [PInt 1]])"
    by (simp add: key_insert_def ordered_row_def key_table_facts key_insert_spec in_i64_def)
  have "\<exists>d' vss'. execute_all 5 [?q1, ?q2] key_db = (Inr [affected (length (ins_values ?i)), table_result key_table vss'], d') \<and>
      mset vss' = mset [[PInt 2], [PInt 1]]"
    by (rule sql_insert_then_select [OF _ _ u(1) p(1) u(2) p(2) _ _ e(2) _ _ _ f a])
      (use e(1,3) key_table_facts in \<open>simp_all add: key_db_def idle_def new_engine_def key_insert_def table_valid_def
        plain_names_def names_of_def key_col_def unindexed_def new_index_manager_def\<close>)
  moreover have "length (ins_values ?i) = 2" by (simp add: key_insert_def)
  ultimately show ?thesis by (simp only: mset.simps add_mset_commute)
qed

text \<open>
  C35. A second BEGIN cannot be undone: with two transactions begun, COMMIT and ROLLBACK raise
  \<open>TransactionError\<close> (not as the \<open>DatabaseError\<close> that \<open>execute\<close> promises) and change nothing, however often they are
  tried, so neither transaction ever ends.
\<close>

theorem second_begin_never_ends:
  assumes "2 \<le> length (en_active (db_engine d))" and "set qs \<subseteq> {''COMMIT'', ''ROLLBACK''}"
  shows "(\<forall>q \<in> set qs. execute fuel q d = (Inl TransactionError, d)) \<and>
    foldl (\<lambda>d q. snd (execute fuel q d)) d qs = d"
proof -
  have one: "execute fuel q d = (Inl TransactionError, d)" if "q \<in> {''COMMIT'', ''ROLLBACK''}" for q
    using that two_txns_stuck [OF assms(1)] handle_stuck [OF assms(1)]
    by (auto simp: execute_def clean_txn dispatch_txn sbind_def)
  have "foldl (\<lambda>d q. snd (execute fuel q d)) d qs = d" using assms(2) one by (induction qs) auto
  then show ?thesis using one assms(2) by blast
qed

theorem second_begin_never_ends_witness:
  "\<exists>d. execute_all 5 [''BEGIN'', ''BEGIN''] key_db = (Inr [affected 0, affected 0], d) \<and>
     execute 5 ''COMMIT'' d = (Inl TransactionError, d)"
proof -
  let ?d = "key_db\<lparr>db_engine := snd (txn_begin None (snd (txn_begin None (db_engine key_db))))\<rparr>"
  have r: "execute_all 5 [''BEGIN'', ''BEGIN''] key_db = (Inr [affected 0, affected 0], ?d)"
    by (simp add: execute_def clean_txn dispatch_txn sbind_def szoom_def)
  have "2 \<le> length (en_active (db_engine ?d))"
    by (simp add: txn_begin_def Let_def key_db_def new_engine_def)
  from second_begin_never_ends [OF this, of "[''COMMIT'']" 5] r show ?thesis by auto
qed

end
