(* ===== verification/Table_Update.thy ===== *)
theory Table_Update
  imports Table
begin

text \<open>
  Updating rows in place. A row that fits is written below the rows of its page and its slot is pointed to it;
  the page then counts more free space than it has, so afterwards a table is only \<open>readable\<close>.
\<close>

section \<open>The page\<close>

definition updated_data :: "bytes \<Rightarrow> page_header \<Rightarrow> nat \<Rightarrow> bytes \<Rightarrow> bytes" where
  "updated_data d h i row =
     overwrite
       (overwrite (overwrite d (h_free_offset h - length row) row)
          (32 + 4 * i) (le_bytes 2 (h_free_offset h - length row) @ le_bytes 2 (length row)))
       0 (header_bytes (h\<lparr>h_free_space := h_free_space h + slot_len d i - length row,
            h_free_offset := h_free_offset h - length row\<rparr>))"

lemma update_in_place_ok:
  assumes wf: "open_page d" and h: "parse_page_header d = Inr h" and i: "i < h_slot_count h"
    and gap: "32 + 4 * h_slot_count h + length row \<le> h_free_offset h"
    and sp: "length row \<le> h_free_space h + slot_len d i" and ne: "row \<noteq> []"
    and small: "h_free_space h + slot_len d i < 65536 + length row"
  shows "update_in_place d (32 + i * 4) row = Inr (updated_data d h i row)"
    and "parse_page_header (updated_data d h i row) =
      Inr (h\<lparr>h_free_space := h_free_space h + slot_len d i - length row,
             h_free_offset := h_free_offset h - length row\<rparr>)"
    and "page_rows (updated_data d h i row) = (page_rows d)[i := Some row]"
    and "open_page (updated_data d h i row)"
proof -
  from wf h have len: "length d = 4096" and fo: "h_free_offset h \<le> 4096"
    and sl: "32 + 4 * h_slot_count h \<le> h_free_offset h" and fits: "header_fits h"
    and ok: "\<And>k. k < h_slot_count h \<Longrightarrow> slot_len d k = 0 \<or>
       (h_free_offset h \<le> slot_off d k \<and> slot_off d k + slot_len d k \<le> 4096)"
    by (auto elim!: open_pageE)
  let ?fo = "h_free_offset h" and ?n = "length row"
  let ?h = "h\<lparr>h_free_space := h_free_space h + slot_len d i - ?n, h_free_offset := ?fo - ?n\<rparr>"
  let ?s = "le_bytes 2 (?fo - ?n) @ le_bytes 2 ?n"
  let ?d1 = "overwrite d (?fo - ?n) row"
  let ?d2 = "overwrite ?d1 (32 + 4 * i) ?s"
  let ?e = "updated_data d h i row"
  have old: "slot_len d i \<le> 4096 - ?fo" using ok [OF i] fo by auto
  have fits': "header_fits ?h" using fits small fo gap unfolding header_fits_def by simp arith
  have l1: "length ?d1 = 4096" using len fo gap by simp
  have l2: "length ?d2 = 4096" using l1 gap fo i by simp
  have e: "?e = overwrite ?d2 0 (header_bytes ?h)" by (simp add: updated_data_def)
  have nfo: "int ?fo - int ?n = int (?fo - ?n)" using gap by simp
  have s1: "slice_set d (int (?fo - ?n)) (int (?fo - ?n) + int ?n) row = ?d1"
    by (rule slice_set_overwrite) (use len fo gap in simp)
  have s1': "slice_set d (int (?fo - ?n)) (int ?fo) row = ?d1" using s1 gap by (simp add: of_nat_diff)
  have pk: "pack_u 2 (int (?fo - ?n)) = Inr (le_bytes 2 (?fo - ?n))" "pack_u 2 (int ?n) = Inr (le_bytes 2 ?n)"
    using fo gap by (simp_all add: pack_u_def nat_diff_distrib')
  have p2: "pack_into ?d1 (32 + i * 4) ?s = Inr ?d2"
    using l1 gap fo i by (simp add: pack_into_def mult.commute del: le_bytes.simps)
  have s3: "slice_set ?d2 0 32 (header_bytes ?h) = ?e"
    using slice_set_header [of ?d2 ?h] l2 by (simp add: e page_consts)
  have u: "unpack_u 2 d (32 + i * 4) = Inr (slot_off d i)" "unpack_u 2 d (34 + i * 4) = Inr (slot_len d i)"
    using len gap fo i by (simp_all add: unpack_u_def slot_off_def slot_len_def fld_def mult.commute)
  show "update_in_place d (32 + i * 4) row = Inr ?e"
    using h u pack_page_header_ok [OF fits'] pk p2 s3
    by (simp add: update_in_place_def Let_def nfo s1' del: le_bytes.simps)
  show p: "parse_page_header ?e = Inr ?h"
    unfolding e using l2 fits' by (simp add: parse_overwrite_header)
  have same: "slot_off ?e k = slot_off d k" "slot_len ?e k = slot_len d k" if "k \<noteq> i" "k < h_slot_count h" for k
    unfolding e using that len l1 l2 fo gap i
    by (simp_all add: slot_overwrite_other slot_overwrite_slot del: le_bytes.simps)
  have new: "slot_off ?e i = ?fo - ?n" "slot_len ?e i = ?n"
    unfolding e using l1 l2 fo gap i
    by (simp_all add: slot_overwrite_other slot_overwrite_same del: le_bytes.simps)
  have body: "take m (drop a ?e) = take m (drop a d)" if "?fo \<le> a" "a + m \<le> 4096" for a m
    unfolding e using that len l1 l2 fo gap i by (simp add: take_drop_overwrite_other del: le_bytes.simps)
  have row: "take ?n (drop (?fo - ?n) ?e) = row"
    unfolding e using len l1 l2 fo gap i by (simp add: take_drop_overwrite_other del: le_bytes.simps)
  have "slot_row ?e k = (if k = i then Some row else slot_row d k)" if "k < h_slot_count h" for k
    using same [OF _ that] new ok [OF that] body row ne by (auto simp: slot_row_def)
  then show "page_rows ?e = (page_rows d)[i := Some row]"
    by (simp add: page_rows_eq [OF h] page_rows_eq [OF p] list_eq_iff_nth_eq nth_list_update)
  have "slot_len ?e k = 0 \<or> ?fo - ?n \<le> slot_off ?e k \<and> slot_off ?e k + slot_len ?e k \<le> 4096" if "k < h_slot_count h" for k
    using same [OF _ that] new ok [OF that] fo gap by (cases "k = i") auto
  moreover have "length ?e = 4096" using l2 by (simp add: e)
  ultimately show "open_page ?e" unfolding open_page_def using p fo gap by auto
qed

section \<open>The table\<close>

lemma live_slots_update:
  assumes "i < length rs" and "rs ! i = Some old"
  shows "live_slots p (rs[i := Some d]) =
    map (\<lambda>(r, x). (r, if r = \<lparr>rid_page_id = p, rid_slot_index = i\<rparr> then d else x)) (live_slots p rs)"
proof -
  have "List.map_filter (\<lambda>j. map_option (\<lambda>r. (\<lparr>rid_page_id = p, rid_slot_index = j\<rparr>, r)) (rs[i := Some d] ! j)) xs =
     map (\<lambda>(r, x). (r, if r = \<lparr>rid_page_id = p, rid_slot_index = i\<rparr> then d else x))
       (List.map_filter (\<lambda>j. map_option (\<lambda>r. (\<lparr>rid_page_id = p, rid_slot_index = j\<rparr>, r)) (rs ! j)) xs)"
    if "\<forall>j \<in> set xs. j < length rs" for xs
    using that
  proof (induction xs)
    case (Cons j xs)
    then have "rs[i := Some d] ! j = (if j = i then Some d else rs ! j)" by (simp add: nth_list_update)
    then show ?case using Cons assms(2) by (cases "rs ! j") (auto simp: map_filter_simps)
  qed (simp add: map_filter_simps)
  then show ?thesis by (simp add: live_slots_def)
qed

definition put_row :: "RowId \<Rightarrow> 'a \<Rightarrow> (RowId \<times> 'a) list \<Rightarrow> (RowId \<times> 'a) list" where
  "put_row rid d xs = map (\<lambda>(r, x). (r, if r = rid then d else x)) xs"

lemma put_row_append [simp]: "put_row rid d (xs @ ys) = put_row rid d xs @ put_row rid d ys"
  by (simp add: put_row_def)

lemma put_row_other: "\<forall>e \<in> set xs. fst e \<noteq> rid \<Longrightarrow> put_row rid d xs = xs"
  unfolding put_row_def by (intro map_idI) auto

context page_store
begin

lemma table_update_ok:
  assumes inv: "inv (Suc n) s" and ok: "readable (live s) (view s) tbl ps" and p: "rid_page_id rid \<in> set ps"
    and i: "rid_slot_index rid < length (page_rows pg)" "page_rows pg ! rid_slot_index rid = Some old"
    and pg: "view s (rid_page_id rid) = Some pg" "parse_page_header pg = Inr h"
    and conv: "convert_row row (tbl_columns tbl) = Inr vs" and ser: "serialize_row vs (tbl_columns tbl) = Inr d"
    and ne: "d \<noteq> []" and room: "length d \<le> h_free_space h" "32 + 4 * h_slot_count h + length d \<le> h_free_offset h"
    and small: "h_free_space h + length old < 65536 + length d"
  shows "\<exists>s'. table_update ops tbl rid row None s = (Inr rid, s') \<and> inv n s' \<and> readable (live s') (view s') tbl ps \<and>
    contents (view s') ps = put_row rid d (contents (view s) ps) \<and> live s' = live s \<and>
    (\<forall>q. live s q \<longrightarrow> view s' q = (if q = rid_page_id rid then Some (updated_data pg h (rid_slot_index rid) d) else view s q)) \<and>
    slot_len pg (rid_slot_index rid) = length old"
proof -
  let ?p = "rid_page_id rid" and ?i = "rid_slot_index rid"
  have ch: "chain_of open_data (live s) (view s) (tbl_root tbl) ps 0" and dist: "distinct ps" and nn: "ps \<noteq> []"
    using ok by (auto simp: readable_def)
  have lp: "live s ?p" "open_data pg" using chain_pages [OF ch p] pg(1) by auto
  then have op: "open_page pg" and ty: "h_page_type h = DATA" using pg(2) by (auto simp: open_data_def)
  have len: "length pg = 4096" using op by (auto simp: open_page_def)
  have ih: "?i < h_slot_count h" using i(1) page_rows_eq [OF pg(2)] by simp
  then have sr: "slot_row pg ?i = Some old" using i(2) page_rows_eq [OF pg(2)] by simp
  then have ol: "slot_len pg ?i = length old"
    using op pg(2) ih by (auto simp: slot_row_def open_page_def split: if_splits)
  have sp: "length d \<le> h_free_space h + slot_len pg ?i" using room(1) by simp
  have sm: "h_free_space h + slot_len pg ?i < 65536 + length d" using small ol by simp
  note u = update_in_place_ok [OF op pg(2) ih room(2) sp ne sm]
  let ?e = "updated_data pg h ?i d"
  obtain s1 where s1: "po_get ops ?p None s = (Inr pg, s1)" "inv (Suc n) s1" "unchanged s s1" "ready s1 ?p"
    using get_open [OF inv lp(1) pg(1) lp(2)] by blast
  have od: "open_data ?e" "page_next ?e = page_next pg"
    using u(2,4) ty page_next_parse [OF u(2)] page_next_parse [OF pg(2)] by (simp_all add: open_data_def)
  have "parses ?e" using od(1) by (rule open_dataE)
  moreover have "live s1 ?p" using s1(3) lp(1) by (simp add: unchanged_def)
  ultimately obtain s2 where s2: "po_set ops ?p ?e s1 = (Inr (), s2)" "inv n s2" "live s2 = live s1"
    "\<forall>q. live s1 q \<longrightarrow> view s2 q = (if q = ?p then Some ?e else view s1 q)" using set_law [OF s1(2) _ s1(4)] by blast
  have l2: "live s2 = live s" using s2(3) s1(3) by (simp add: unchanged_def)
  have v2: "view s2 q = (if q = ?p then Some ?e else view s q)" if "live s q" for q
    using s2(4) s1(3) that by (simp add: unchanged_def)
  have un: "unpack_u 2 pg (32 + ?i * 4) = Inr (slot_off pg ?i)" "unpack_u 2 pg (34 + ?i * 4) = Inr (slot_len pg ?i)"
    using len room(2) ih op pg(2) by (auto simp: unpack_u_def slot_off_def slot_len_def fld_def mult.commute open_page_def)
  have run: "table_update ops tbl rid row None s = (Inr rid, s2)"
    using s1(1) s2(1) conv ser pg(2) un sp u(1) by (simp add: table_update_def Let_def sbind_def)
  have "chain_of open_data (live s2) (view s2) (tbl_root tbl) ps 0"
    by (rule chain_mono [OF ch]) (use l2 v2 od pg in auto)
  then have rd: "readable (live s2) (view s2) tbl ps" using dist nn by (simp add: readable_def)
  have lv: "live s q" if "q \<in> set ps" for q using chain_pages [OF ch that] by simp
  obtain xs ys where c: "contents (view s) ps = xs @ live_slots ?p (rows_at (view s) ?p) @ ys"
    "contents (view s2) ps = xs @ live_slots ?p (rows_at (view s2) ?p) @ ys"
    and o: "\<forall>e \<in> set xs \<union> set ys. rid_page_id (fst e) \<noteq> ?p"
    by (rule contents_split [OF p dist, of "view s2" "view s"]) (use v2 lv in \<open>auto simp: rows_at_def\<close>)
  have "live_slots ?p (rows_at (view s2) ?p) = put_row rid d (live_slots ?p (rows_at (view s) ?p))"
    using live_slots_update [OF i, of ?p d] u(3) v2 [OF lp(1)] pg(1) by (simp add: rows_at_def put_row_def)
  moreover have "put_row rid d xs = xs" "put_row rid d ys = ys" using o by (auto intro!: put_row_other)
  ultimately have "contents (view s2) ps = put_row rid d (contents (view s) ps)" using c by simp
  then show ?thesis using run s2(2) rd l2 v2 ol by blast
qed

end

section \<open>Properties\<close>

text \<open>
  An in-place update stores the new row, but it also adds the length of the old row to the free
  space of the page although the space between slots and rows only shrinks: on a page whose free
  space was exact, the header afterwards promises exactly the old row's length more than there is,
  so the page is no longer well formed and a later insertion can run into the slot array.
\<close>

theorem update_overcounts_free_space:
  assumes "wf_page d" and "parse_page_header d = Inr h" and "i < h_slot_count h"
    and "32 + 4 * h_slot_count h + h_free_space h = h_free_offset h" and "0 < slot_len d i"
    and "row \<noteq> []" and "length row \<le> h_free_space h"
  shows "\<exists>d' h'. update_in_place d (32 + i * 4) row = Inr d' \<and> parse_page_header d' = Inr h' \<and>
    page_rows d' = (page_rows d)[i := Some row] \<and> h_slot_count h' = h_slot_count h \<and>
    32 + 4 * h_slot_count h' + h_free_space h' = h_free_offset h' + slot_len d i \<and> \<not> wf_page d'"
proof -
  have gap: "32 + 4 * h_slot_count h + length row \<le> h_free_offset h"
    and sp: "length row \<le> h_free_space h + slot_len d i"
    using assms(4,7) by simp_all
  have "h_free_space h + slot_len d i < 65536 + length row"
    using assms(1-3) by (auto elim!: wf_pageE)
  note u = update_in_place_ok [OF wf_page_open [OF assms(1)] assms(2,3) gap sp assms(6) this]
  let ?h = "h\<lparr>h_free_space := h_free_space h + slot_len d i - length row,
      h_free_offset := h_free_offset h - length row\<rparr>"
  have "32 + 4 * h_slot_count ?h + h_free_space ?h = h_free_offset ?h + slot_len d i"
    using assms(4,7) gap by simp
  moreover from this have "\<not> wf_page (updated_data d h i row)"
    using u(2) assms(5) by (auto simp: wf_page_def)
  ultimately show ?thesis using u by (intro exI [of _ "updated_data d h i row"] exI [of _ ?h]) simp
qed

theorem update_overcounts_free_space_witness:
  "\<exists>d d' h'. wf_page d \<and> page_rows d = [Some [1, 2, 3]] \<and> update_in_place d 32 [9] = Inr d' \<and>
     parse_page_header d' = Inr h' \<and> page_rows d' = [Some [9]] \<and> \<not> wf_page d'"
proof -
  let ?e = "empty_page_data 1 DATA"
  let ?h = "\<lparr>h_page_id = 1, h_page_type = DATA, h_slot_count = 0, h_free_space = 4064,
       h_free_offset = 4096, h_next_page_id = 0, h_flags = 0\<rparr>"
  have e: "wf_page ?e" "parse_page_header ?e = Inr ?h" "page_rows ?e = []"
    using wf_empty_page [of 1 DATA] parse_empty_page [of 1 DATA] page_rows_empty_page [of 1 DATA] by simp_all
  let ?d = "inserted_data ?e ?h [1, 2, 3]"
  have sp: "length [1, 2, 3 :: byte] + 4 \<le> h_free_space ?h" by simp
  note f = inserted_data_facts [OF e(1,2) sp] and w = inserted_data_wf [OF e(1,2) sp]
  have r: "page_rows ?d = [Some [1, 2, 3]]" using page_rows_inserted [OF e(1,2) sp] e(3) by simp
  have "slot_len ?d 0 = 3" using f(6) by simp
  with update_overcounts_free_space [OF w f(2), of 0 "[9]"] r obtain d' h' where
    "update_in_place ?d 32 [9] = Inr d'" "parse_page_header d' = Inr h'" "page_rows d' = [Some [9]]" "\<not> wf_page d'"
    by auto
  with w r show ?thesis by blast
qed

end
