(* ===== verification/Dml_Update.thy ===== *)
theory Dml_Update
  imports Dml_Invariants Table_Update
begin

text \<open>
  UPDATE against its meaning on the rows of a table: the statement visits the rows that the table had, and each
  selected one is checked against the rows as they are by then, converted and put in the place of the old one
  (\<open>update_all\<close>). The pages have room for the new versions, so no row moves; the old versions are never reclaimed.
\<close>

lemma rbind_assoc: "rbind (rbind m f) g = rbind m (\<lambda>x. rbind (f x) g)"
  by (cases m) auto

section \<open>The rows\<close>

definition update_spec :: "Table \<Rightarrow> UpdateStatement \<Rightarrow> RowId \<Rightarrow> pval list \<Rightarrow> rows \<Rightarrow> pval list option res" where
  "update_spec tbl stmt rid vs cur =
     (let row = row_dict (names_of tbl) vs in
      rbind (selects (upd_where stmt) row) (\<lambda>sel.
        if \<not> sel then Inr None
        else
          rbind (assign (names_of tbl) row (assignments stmt) vs) (\<lambda>new_row.
          rbind (check_spec 0 (zip new_row (tbl_columns tbl)) (Some rid) cur) (\<lambda>_.
          rbind (convert_row new_row (tbl_columns tbl)) (\<lambda>ws.
          rbind (serialize_row ws (tbl_columns tbl)) (\<lambda>_. Inr (Some ws)))))))"

text \<open>Rows still to visit, number of rows updated, rows of the table; an exception keeps what has been done.\<close>

fun update_all :: "Table \<Rightarrow> UpdateStatement \<Rightarrow> rows \<Rightarrow> nat \<Rightarrow> rows \<Rightarrow> nat res \<times> rows" where
  "update_all tbl stmt [] n cur = (Inr n, cur)"
| "update_all tbl stmt ((rid, vs) # todo) n cur =
     (case update_spec tbl stmt rid vs cur of
        Inl err \<Rightarrow> (Inl err, cur)
      | Inr None \<Rightarrow> update_all tbl stmt todo n cur
      | Inr (Some ws) \<Rightarrow> update_all tbl stmt todo (n + 1) (put_row rid ws cur))"

text \<open>The new version of the row, if there is one, takes at most \<open>M\<close> bytes.\<close>

definition update_fits :: "Table \<Rightarrow> UpdateStatement \<Rightarrow> nat \<Rightarrow> pval list \<Rightarrow> bool" where
  "update_fits tbl stmt M vs \<longleftrightarrow> (\<forall>new_row ws d.
     assign (names_of tbl) (row_dict (names_of tbl) vs) (assignments stmt) vs = Inr new_row \<longrightarrow>
     convert_row new_row (tbl_columns tbl) = Inr ws \<longrightarrow> serialize_row ws (tbl_columns tbl) = Inr d \<longrightarrow>
     length d \<le> M)"

lemma decode_rows_put:
  "decode_rows cols xs = Inr out \<Longrightarrow> deserialize_row d cols = Inr vs \<Longrightarrow>
   decode_rows cols (put_row rid d xs) = Inr (put_row rid vs out)"
  by (induction xs arbitrary: out) (auto simp: decode_rows_def put_row_def)

lemma put_row_keys [simp]: "map fst (put_row rid d xs) = map fst xs"
  by (induction xs) (auto simp: put_row_def)

lemma put_row_mem: "(r, x) \<in> set (put_row rid d xs) \<Longrightarrow> x = d \<or> (r, x) \<in> set xs"
  by (auto simp: put_row_def split: if_splits)

lemma assign_length: "assign names row as vs = Inr vs' \<Longrightarrow> length vs' = length vs"
  by (induction names row as vs rule: assign.induct) auto

lemma assigned_length:
  assumes "assign names row as vs = Inr new_row" and "convert_row new_row cols = Inr ws" and "length vs = length cols"
  shows "length ws = length cols"
  using assign_length [OF assms(1)] convert_row_conforms(1) [OF assms(2)] assms(3) by simp

section \<open>The room on a page\<close>

definition room_for :: "nat \<Rightarrow> bytes \<Rightarrow> bool" where
  "room_for k d \<longleftrightarrow> (\<exists>h. parse_page_header d = Inr h \<and> k \<le> h_free_space h \<and>
     32 + 4 * h_slot_count h + k \<le> h_free_offset h \<and> h_free_space h + k < 65536)"

lemma wf_room_for:
  assumes "wf_page d" and "parse_page_header d = Inr h" and "k \<le> h_free_space h"
  shows "room_for k d"
  using assms by (auto simp: room_for_def elim!: wf_pageE)

lemma room_for_updated:
  assumes "room_for (M + k) d" and op: "open_page d" and h: "parse_page_header d = Inr h" and i: "i < h_slot_count h"
    and "slot_len d i \<le> M" and "length row \<le> M" and ne: "row \<noteq> []"
  shows "room_for k (updated_data d h i row)"
proof -
  have r: "M + k \<le> h_free_space h" "32 + 4 * h_slot_count h + (M + k) \<le> h_free_offset h" "h_free_space h + (M + k) < 65536"
    using assms(1) h by (auto simp: room_for_def)
  have "32 + 4 * h_slot_count h + length row \<le> h_free_offset h" "length row \<le> h_free_space h + slot_len d i"
    "h_free_space h + slot_len d i < 65536 + length row" using r assms(5,6) by simp_all
  note u = update_in_place_ok(2) [OF op h i this(1,2) ne this(3)]
  have "k \<le> h_free_space h + slot_len d i - length row" "h_free_space h + slot_len d i - length row + k < 65536"
    "32 + 4 * h_slot_count h + k \<le> h_free_offset h - length row" using r assms(5,6) by arith+
  with u show ?thesis by (simp add: room_for_def)
qed

section \<open>One row\<close>

definition short_rows :: "nat \<Rightarrow> (nat \<Rightarrow> bytes option) \<Rightarrow> nat list \<Rightarrow> bool" where
  "short_rows M V ps \<longleftrightarrow> (\<forall>(rid, d) \<in> set (contents V ps). length d \<le> M)"

lemma table_update_refused:
  "rbind (convert_row row (tbl_columns tbl)) (\<lambda>vs. rbind (serialize_row vs (tbl_columns tbl)) (\<lambda>_. Inr vs)) = Inl err \<Longrightarrow>
   table_update ops tbl rid row None s = (Inl err, s)"
  by (auto simp: table_update_def acquire_lock_def rbind_Inl_iff sbind_def)

context statement_store
begin

lemma seen_row:
  assumes "seen tbl ps s rows" and "rid \<in> fst ` set rows"
  obtains pg old where "rid_page_id rid \<in> set ps" "view s (rid_page_id rid) = Some pg" "open_page pg"
    "rid_slot_index rid < length (page_rows pg)" "page_rows pg ! rid_slot_index rid = Some old"
    "(rid, old) \<in> set (contents (view s) ps)"
proof -
  have rd: "readable (live s) (view s) tbl ps" and "decode_rows (tbl_columns tbl) (contents (view s) ps) = Inr rows"
    using assms(1) by (auto simp: seen_def)
  from arg_cong [OF decode_rows_keys [OF this(2)], of set] have "fst ` set rows = fst ` set (contents (view s) ps)" by simp
  then obtain d where d: "(rid, d) \<in> set (contents (view s) ps)" using assms(2) by force
  then have p: "rid_page_id rid \<in> set ps" by (rule contents_page)
  then obtain pg where pg: "view s (rid_page_id rid) = Some pg" "open_data pg"
    using rd chain_pages by (fastforce simp: readable_def)
  have "(rid, d) \<in> set (live_slots (rid_page_id rid) (page_rows pg))"
    using d pg(1) live_slots_page by (fastforce simp: contents_def rows_at_def)
  then have "rid_slot_index rid < length (page_rows pg)" "page_rows pg ! rid_slot_index rid = Some d"
    using live_slots_mem [of "rid_page_id rid" "rid_slot_index rid" d] by (simp_all del: live_slots_mem)
  then show thesis using that p pg d by (auto simp: open_data_def)
qed

lemma update_row_ok:
  assumes inv: "inv (Suc n) (ie_store e)" and seen: "seen tbl ps (ie_store e) cur" and ix: "unindexed (ie_mgr e) (upd_table stmt)"
    and full: "full_rows tbl cur" and rid: "rid \<in> fst ` set cur" and vs: "length vs = length (tbl_columns tbl)"
    and fits: "update_fits tbl stmt M vs" and few: "length (tbl_columns tbl) < 65536"
    and room: "\<forall>d. view (ie_store e) (rid_page_id rid) = Some d \<longrightarrow> room_for (M + k) d"
    and short: "short_rows M (view (ie_store e)) ps"
  shows "\<exists>e'. case update_spec tbl stmt rid vs cur of
      Inl err \<Rightarrow> update_row ops iops tables tbl stmt rid vs c e = (Inl err, e') \<and> looked (Suc n) e e'
    | Inr None \<Rightarrow> update_row ops iops tables tbl stmt rid vs c e = (Inr c, e') \<and> looked (Suc n) e e'
    | Inr (Some ws) \<Rightarrow> update_row ops iops tables tbl stmt rid vs c e = (Inr (c + 1), e') \<and> inv n (ie_store e') \<and>
        ie_mgr e' = ie_mgr e \<and> seen tbl ps (ie_store e') (put_row rid ws cur) \<and> full_rows tbl (put_row rid ws cur) \<and>
        live (ie_store e') = live (ie_store e) \<and>
        (\<forall>q. live (ie_store e) q \<longrightarrow> q \<noteq> rid_page_id rid \<longrightarrow> view (ie_store e') q = view (ie_store e) q) \<and>
        (\<forall>d. view (ie_store e') (rid_page_id rid) = Some d \<longrightarrow> room_for k d) \<and> short_rows M (view (ie_store e')) ps"
proof -
  let ?cols = "tbl_columns tbl" and ?row = "row_dict (names_of tbl) vs"
  have stay: "looked (Suc n) e e" using inv by (simp add: looked_def)
  show ?thesis
  proof (cases "rbind (selects (upd_where stmt) ?row) (\<lambda>sel. if sel then assign (names_of tbl) ?row (assignments stmt) vs else Inr [])")
    case (Inl err)
    then show ?thesis using stay by (intro exI [of _ e])
      (auto simp: update_spec_def update_row_def Let_def sbind_def rbind_Inl_iff split: if_splits)
  next
    case new: (Inr new_row)
    then obtain sel where sel: "selects (upd_where stmt) ?row = Inr sel" by auto
    show ?thesis
    proof (cases sel)
      case False
      then show ?thesis using sel stay by (intro exI [of _ e]) (simp add: update_spec_def update_row_def Let_def)
    next
      case True
      then have as: "assign (names_of tbl) ?row (assignments stmt) vs = Inr new_row" using new sel by simp
      have "\<forall>(rid, vs) \<in> set cur. 0 + length (zip new_row ?cols) \<le> length vs"
        using full by (auto simp: full_rows_def)
      from check_columns_ok [OF inv seen ix this, of iops "Some rid"] obtain e1 where
        c: "check_constraints_update ops iops tbl rid new_row (upd_table stmt) e =
          (check_spec 0 (zip new_row ?cols) (Some rid) cur, e1)" "looked (Suc n) e e1"
        by (auto simp: check_constraints_update_def)
      have l: "inv (Suc n) (ie_store e1)" "ie_mgr e1 = ie_mgr e" "unchanged (ie_store e) (ie_store e1)"
        using c(2) by (auto simp: looked_def)
      note h = unindexed_hooks(3) [OF ix [folded l(2)]]
      have run: "update_row ops iops tables tbl stmt rid vs c e =
          sbind (slift (check_spec 0 (zip new_row ?cols) (Some rid) cur)) (\<lambda>_.
          sbind (on_ie_store (table_update ops tbl rid new_row None)) (\<lambda>_. sret (c + 1))) e1"
        using sel True as c(1) h
        by (cases "check_spec 0 (zip new_row ?cols) (Some rid) cur") (auto simp: update_row_def Let_def sbind_def split: option.split)
      have spec: "update_spec tbl stmt rid vs cur = rbind (check_spec 0 (zip new_row ?cols) (Some rid) cur) (\<lambda>_.
          rbind (rbind (convert_row new_row ?cols) (\<lambda>ws. rbind (serialize_row ws ?cols) (\<lambda>_. Inr ws))) (\<lambda>ws. Inr (Some ws)))"
        using sel True as by (simp add: update_spec_def rbind_assoc)
      show ?thesis
      proof (cases "rbind (check_spec 0 (zip new_row ?cols) (Some rid) cur) (\<lambda>_.
          rbind (convert_row new_row ?cols) (\<lambda>ws. rbind (serialize_row ws ?cols) (\<lambda>_. Inr ws)))")
        case (Inl err)
        then have "update_row ops iops tables tbl stmt rid vs c e = (Inl err, e1)"
          using run table_update_refused [of new_row tbl err ops rid "ie_store e1"]
          by (cases "check_spec 0 (zip new_row ?cols) (Some rid) cur") (auto simp: sbind_def szoom_def)
        moreover have "update_spec tbl stmt rid vs cur = Inl err"
          using spec Inl by (cases "check_spec 0 (zip new_row ?cols) (Some rid) cur") auto
        ultimately show ?thesis using c(2) by (intro exI [of _ e1]) simp
      next
        case (Inr ws)
        then obtain d where ok: "check_spec 0 (zip new_row ?cols) (Some rid) cur = Inr ()"
          "convert_row new_row ?cols = Inr ws" "serialize_row ws ?cols = Inr d" by auto
        then have sv: "storable_row ws ?cols" "length d \<le> M"
          using fits as serialized_storable assigned_length [OF as _ vs] by (auto simp: update_fits_def)
        have de: "deserialize_row d ?cols = Inr ws" "d \<noteq> []"
          using storable_row_serialized [OF sv(1) few] ok(3) by auto
        let ?p = "rid_page_id rid" and ?s1 = "ie_store e1"
        have seen1: "seen tbl ps ?s1 cur" using seen_unchanged [OF l(3) seen] .
        then have rd: "readable (live ?s1) (view ?s1) tbl ps" and dec: "decode_rows ?cols (contents (view ?s1) ps) = Inr cur"
          by (auto simp: seen_def)
        have rd0: "readable (live (ie_store e)) (view (ie_store e)) tbl ps" using seen by (simp add: seen_def)
        then have same: "contents (view ?s1) ps = contents (view (ie_store e)) ps"
          using unchanged_rows [OF l(3)] by (auto simp: readable_def)
        obtain pg old where pg: "?p \<in> set ps" "view ?s1 ?p = Some pg" "open_page pg"
          "rid_slot_index rid < length (page_rows pg)" "page_rows pg ! rid_slot_index rid = Some old"
          "(rid, old) \<in> set (contents (view ?s1) ps)" by (rule seen_row [OF seen1 rid])
        have old: "length old \<le> M" using short pg(6) same by (auto simp: short_rows_def)
        have "live (ie_store e) ?p" using rd0 pg(1) chain_pages by (fastforce simp: readable_def)
        then have v: "view (ie_store e) ?p = Some pg" using l(3) pg(2) by (simp add: unchanged_def)
        have rm: "room_for (M + k) pg" using room v by simp
        then obtain hd where hd: "parse_page_header pg = Inr hd" "M + k \<le> h_free_space hd"
          "32 + 4 * h_slot_count hd + (M + k) \<le> h_free_offset hd" "h_free_space hd + (M + k) < 65536"
          by (auto simp: room_for_def)
        have g: "length d \<le> h_free_space hd" "32 + 4 * h_slot_count hd + length d \<le> h_free_offset hd"
          "h_free_space hd + length old < 65536 + length d" using hd sv(2) old by simp_all
        obtain s2 where s2: "table_update ops tbl rid new_row None ?s1 = (Inr rid, s2)" "inv n s2"
          "readable (live s2) (view s2) tbl ps" "contents (view s2) ps = put_row rid d (contents (view ?s1) ps)" "live s2 = live ?s1"
          "\<forall>q. live ?s1 q \<longrightarrow> view s2 q = (if q = ?p then Some (updated_data pg hd (rid_slot_index rid) d) else view ?s1 q)"
          "slot_len pg (rid_slot_index rid) = length old"
          using table_update_ok [OF l(1) rd pg(1,4,5,2) hd(1) ok(2,3) de(2) g] by blast
        let ?e2 = "e1\<lparr>ie_store := s2\<rparr>"
        have lv: "live ?s1 = live (ie_store e)" using l(3) by (simp add: unchanged_def)
        have "rid_slot_index rid < h_slot_count hd" using pg(4) page_rows_eq [OF hd(1)] by simp
        from room_for_updated [OF rm pg(3) hd(1) this _ sv(2) de(2)]
        have r2: "room_for k (updated_data pg hd (rid_slot_index rid) d)" using s2(7) old by simp
        have "update_row ops iops tables tbl stmt rid vs c e = (Inr (c + 1), ?e2)"
          using run ok(1) s2(1) by (simp add: sbind_def szoom_def)
        moreover have "seen tbl ps s2 (put_row rid ws cur)"
          using s2(3,4) decode_rows_put [OF dec de(1)] by (simp add: seen_def)
        moreover have "full_rows tbl (put_row rid ws cur)"
          using full sv(1) by (auto simp: full_rows_def storable_row_def list_all2_lengthD dest!: put_row_mem)
        moreover have "short_rows M (view s2) ps"
          using short sv(2) unfolding short_rows_def s2(4) same by (auto dest!: put_row_mem)
        moreover have "\<forall>q. live (ie_store e) q \<longrightarrow> q \<noteq> ?p \<longrightarrow> view s2 q = view (ie_store e) q"
          using s2(6) l(3) lv by (simp add: unchanged_def)
        moreover have "\<forall>d. view s2 ?p = Some d \<longrightarrow> room_for k d" using s2(6) r2 lv \<open>live (ie_store e) ?p\<close> by simp
        moreover have "update_spec tbl stmt rid vs cur = Inr (Some ws)" using spec ok by simp
        ultimately show ?thesis using s2(2,5) l(2) lv by (intro exI [of _ ?e2]) simp
      qed
    qed
  qed
qed

end

section \<open>The statement\<close>

text \<open>The number of rows of a page.\<close>

definition on_page :: "nat \<Rightarrow> rows \<Rightarrow> nat" where
  "on_page p rows = length (filter (\<lambda>x. rid_page_id (fst x) = p) rows)"

lemma on_page_simps [simp]:
  "on_page p [] = 0" "on_page p (x # rows) = (if rid_page_id (fst x) = p then Suc (on_page p rows) else on_page p rows)"
  by (simp_all add: on_page_def)

lemma room_for_mono: "room_for k d \<Longrightarrow> k' \<le> k \<Longrightarrow> room_for k' d"
  by (auto simp: room_for_def)

definition to_visit :: "Table \<Rightarrow> UpdateStatement \<Rightarrow> nat \<Rightarrow> rows \<Rightarrow> rows \<Rightarrow> bool" where
  "to_visit tbl stmt M todo cur \<longleftrightarrow> (\<forall>x \<in> set todo. update_fits tbl stmt M (snd x) \<and>
     length (snd x) = length (tbl_columns tbl) \<and> fst x \<in> fst ` set cur)"

context statement_store
begin

text \<open>
  The statement has been started in \<open>e0\<close> and has come to \<open>e\<close>: the pages \<open>qs\<close> are unread, the rows \<open>todo\<close> are to be visited,
  and \<open>update_all\<close> gives the same result from here as from the start.
\<close>

definition room_on :: "nat \<Rightarrow> rows \<Rightarrow> 's \<Rightarrow> nat list \<Rightarrow> bool" where
  "room_on M todo s ps \<longleftrightarrow> (\<forall>p \<in> set ps. \<forall>d. view s p = Some d \<longrightarrow> room_for (M * on_page p todo) d)"

definition same_outside :: "nat list \<Rightarrow> 's \<Rightarrow> 's \<Rightarrow> bool" where
  "same_outside ps s s' \<longleftrightarrow> live s' = live s \<and> (\<forall>q. live s q \<longrightarrow> q \<notin> set ps \<longrightarrow> view s' q = view s q)"

definition midway where
  "midway tbl stmt M ps n e0 result qs todo c e \<longleftrightarrow> (\<exists>cur. update_all tbl stmt todo c cur = result \<and>
     inv (length todo + n) (ie_store e) \<and> ie_mgr e = ie_mgr e0 \<and> seen tbl ps (ie_store e) cur \<and> full_rows tbl cur \<and>
     to_visit tbl stmt M todo cur \<and> same_outside ps (ie_store e0) (ie_store e) \<and> room_on M todo (ie_store e) ps \<and>
     short_rows M (view (ie_store e)) ps \<and> set qs \<subseteq> set ps \<and> (\<forall>q \<in> set qs. view (ie_store e) q = view (ie_store e0) q))"

definition finished where
  "finished tbl ps n e0 result r e \<longleftrightarrow> r = fst result \<and> inv n (ie_store e) \<and> ie_mgr e = ie_mgr e0 \<and>
     seen tbl ps (ie_store e) (snd result) \<and> same_outside ps (ie_store e0) (ie_store e)"

lemma midway_looked:
  assumes "midway tbl stmt M ps n e0 result qs todo c e" and l: "looked (length todo + n) e e'" and "set qs' \<subseteq> set qs"
  shows "midway tbl stmt M ps n e0 result qs' todo c e'"
proof -
  obtain cur where m: "update_all tbl stmt todo c cur = result" "ie_mgr e = ie_mgr e0" "seen tbl ps (ie_store e) cur"
    "full_rows tbl cur" "to_visit tbl stmt M todo cur" "same_outside ps (ie_store e0) (ie_store e)" "room_on M todo (ie_store e) ps"
    "short_rows M (view (ie_store e)) ps" "set qs \<subseteq> set ps" "\<forall>q \<in> set qs. view (ie_store e) q = view (ie_store e0) q"
    using assms(1) by (auto simp: midway_def)
  have u: "unchanged (ie_store e) (ie_store e')" "inv (length todo + n) (ie_store e')" "ie_mgr e' = ie_mgr e"
    using l by (auto simp: looked_def)
  have rd: "readable (live (ie_store e)) (view (ie_store e)) tbl ps" using m(3) by (simp add: seen_def)
  then have lv: "live (ie_store e) q" if "q \<in> set ps" for q
    using that chain_pages by (fastforce simp: readable_def)
  have v: "view (ie_store e') q = view (ie_store e) q" if "q \<in> set ps" for q using lv [OF that] u(1) by (simp add: unchanged_def)
  have "contents (view (ie_store e')) ps = contents (view (ie_store e)) ps"
    using unchanged_rows [OF u(1)] rd by (auto simp: readable_def)
  then have "short_rows M (view (ie_store e')) ps" using m(8) by (simp add: short_rows_def)
  moreover have "room_on M todo (ie_store e') ps" using m(7) v by (simp add: room_on_def)
  moreover have "same_outside ps (ie_store e0) (ie_store e')" using m(6) u(1) by (simp add: same_outside_def unchanged_def)
  moreover have "\<forall>q \<in> set qs'. view (ie_store e') q = view (ie_store e0) q" using m(9,10) v assms(3) by (metis subsetD)
  ultimately show ?thesis unfolding midway_def using m(1,2,4,5,9) u(2,3) seen_unchanged [OF u(1) m(3)] assms(3)
    by (intro exI [of _ cur]) simp
qed

lemma midway_body:
  assumes rid: "rid_page_id rid \<notin> set qs" and m: "midway tbl stmt M ps n e0 result qs ((rid, vs) # todo) c e"
    and ix: "unindexed (ie_mgr e0) (upd_table stmt)" and few: "length (tbl_columns tbl) < 65536"
  shows "case update_row ops iops tables tbl stmt rid vs c e of
      (Inl err, e') \<Rightarrow> finished tbl ps n e0 result (Inl err) e'
    | (Inr c', e') \<Rightarrow> midway tbl stmt M ps n e0 result qs todo c' e'"
proof -
  obtain cur where m: "update_all tbl stmt ((rid, vs) # todo) c cur = result" "ie_mgr e = ie_mgr e0" "seen tbl ps (ie_store e) cur"
    "full_rows tbl cur" "to_visit tbl stmt M ((rid, vs) # todo) cur" "same_outside ps (ie_store e0) (ie_store e)"
    "room_on M ((rid, vs) # todo) (ie_store e) ps"
    "short_rows M (view (ie_store e)) ps" "set qs \<subseteq> set ps" "\<forall>q \<in> set qs. view (ie_store e) q = view (ie_store e0) q"
    and i: "inv (Suc (length todo + n)) (ie_store e)"
    using m by (auto simp: midway_def)
  let ?p = "rid_page_id rid" and ?k = "M * on_page (rid_page_id rid) todo"
  have v: "rid \<in> fst ` set cur" "length vs = length (tbl_columns tbl)" "update_fits tbl stmt M vs" "to_visit tbl stmt M todo cur"
    using m(5) by (auto simp: to_visit_def)
  obtain pg old where p: "?p \<in> set ps" by (rule seen_row [OF m(3) v(1)])
  have rm: "\<forall>d. view (ie_store e) ?p = Some d \<longrightarrow> room_for (M + ?k) d"
    using bspec [OF m(7) [unfolded room_on_def] p] by simp
  have ix': "unindexed (ie_mgr e) (upd_table stmt)" using ix m(2) by simp
  have rest: "room_on M todo (ie_store e) ps"
    unfolding room_on_def
  proof (intro ballI allI impI)
    fix q d assume "q \<in> set ps" "view (ie_store e) q = Some d"
    then have "room_for (M * on_page q ((rid, vs) # todo)) d" using m(7) by (simp only: room_on_def)
    then show "room_for (M * on_page q todo) d" by (rule room_for_mono) simp
  qed
  have skip: "midway tbl stmt M ps n e0 result qs todo c e'"
    if "update_spec tbl stmt rid vs cur = Inr None" "looked (Suc (length todo + n)) e e'" for e'
  proof -
    have "midway tbl stmt M ps n e0 result qs todo c e"
      unfolding midway_def using m that(1) i inv_mono v(4) rest by (intro exI [of _ cur]) simp
    moreover have "looked (length todo + n) e e'" using that(2) inv_mono by (simp add: looked_def)
    ultimately show ?thesis by (rule midway_looked) simp
  qed
  from update_row_ok [OF i m(3) ix' m(4) v(1-3) few rm m(8), of iops tables c] obtain e' where
    u: "case update_spec tbl stmt rid vs cur of
      Inl err \<Rightarrow> update_row ops iops tables tbl stmt rid vs c e = (Inl err, e') \<and> looked (Suc (length todo + n)) e e'
    | Inr None \<Rightarrow> update_row ops iops tables tbl stmt rid vs c e = (Inr c, e') \<and> looked (Suc (length todo + n)) e e'
    | Inr (Some ws) \<Rightarrow> update_row ops iops tables tbl stmt rid vs c e = (Inr (c + 1), e') \<and> inv (length todo + n) (ie_store e') \<and>
        ie_mgr e' = ie_mgr e \<and> seen tbl ps (ie_store e') (put_row rid ws cur) \<and> full_rows tbl (put_row rid ws cur) \<and>
        live (ie_store e') = live (ie_store e) \<and>
        (\<forall>q. live (ie_store e) q \<longrightarrow> q \<noteq> ?p \<longrightarrow> view (ie_store e') q = view (ie_store e) q) \<and>
        (\<forall>d. view (ie_store e') ?p = Some d \<longrightarrow> room_for ?k d) \<and> short_rows M (view (ie_store e')) ps" by blast
  show ?thesis
  proof (cases "update_spec tbl stmt rid vs cur")
    case (Inl err)
    then have l: "update_row ops iops tables tbl stmt rid vs c e = (Inl err, e')" "looked (Suc (length todo + n)) e e'"
      using u by simp_all
    have "result = (Inl err, cur)" using m(1) Inl by simp
    moreover have "inv n (ie_store e')" using l(2) inv_weaken [of n "Suc (length todo + n)"] by (simp add: looked_def)
    moreover have "seen tbl ps (ie_store e') cur" using l(2) m(3) seen_unchanged by (auto simp: looked_def)
    moreover have "same_outside ps (ie_store e0) (ie_store e')" "ie_mgr e' = ie_mgr e0"
      using l(2) m(2,6) by (simp_all add: looked_def same_outside_def unchanged_def)
    ultimately show ?thesis using l(1) by (simp add: finished_def)
  next
    case (Inr x)
    show ?thesis
    proof (cases x)
      case None
      then show ?thesis using u Inr skip by simp
    next
      case (Some ws)
      then have s: "update_row ops iops tables tbl stmt rid vs c e = (Inr (c + 1), e')" "inv (length todo + n) (ie_store e')"
        "ie_mgr e' = ie_mgr e" "seen tbl ps (ie_store e') (put_row rid ws cur)" "full_rows tbl (put_row rid ws cur)"
        "live (ie_store e') = live (ie_store e)" "\<forall>q. live (ie_store e) q \<longrightarrow> q \<noteq> ?p \<longrightarrow> view (ie_store e') q = view (ie_store e) q"
        "\<forall>d. view (ie_store e') ?p = Some d \<longrightarrow> room_for ?k d" "short_rows M (view (ie_store e')) ps"
        using u Inr by simp_all
      have lv: "live (ie_store e) q" if "q \<in> set ps" for q
        using that m(3) chain_pages by (fastforce simp: seen_def readable_def)
      have "room_on M todo (ie_store e') ps"
        using rest s(7,8) lv by (fastforce simp: room_on_def)
      moreover have "fst ` set (put_row rid ws cur) = fst ` set cur" using arg_cong [OF put_row_keys, of set rid ws cur] by (simp only: set_map)
      then have "to_visit tbl stmt M todo (put_row rid ws cur)" using v(4) by (simp add: to_visit_def)
      moreover have "same_outside ps (ie_store e0) (ie_store e')" using m(6) s(6,7) p by (auto simp: same_outside_def)
      moreover have "\<forall>q \<in> set qs. view (ie_store e') q = view (ie_store e0) q" using m(9,10) s(7) lv rid by (metis subsetD)
      moreover have "update_all tbl stmt todo (c + 1) (put_row rid ws cur) = result" using m(1) Inr Some by simp
      ultimately have "midway tbl stmt M ps n e0 result qs todo (c + 1) e'"
        unfolding midway_def using s(2-5,9) m(2,9) by (intro exI [of _ "put_row rid ws cur"]) simp
      then show ?thesis using s(1) by simp
    qed
  qed
qed

lemma execute_update_ok:
  assumes inv: "inv (length rows + n) (ie_store e)" and tbl: "get_table tables (upd_table stmt) = Inr tbl"
    and seen: "seen tbl ps (ie_store e) rows" and ix: "unindexed (ie_mgr e) (upd_table stmt)" and full: "full_rows tbl rows"
    and fits: "\<forall>x \<in> set rows. update_fits tbl stmt M (snd x)" and few: "length (tbl_columns tbl) < 65536"
    and room: "room_on M rows (ie_store e) ps" and short: "short_rows M (view (ie_store e)) ps" and fuel: "length ps < fuel"
  shows "\<exists>e'. execute_update ops iops tables fuel stmt e =
      (rbind (fst (update_all tbl stmt rows 0 rows)) (\<lambda>k. Inr (affected k)), e') \<and>
    finished tbl ps n e (update_all tbl stmt rows 0 rows) (fst (update_all tbl stmt rows 0 rows)) e'"
proof -
  let ?res = "update_all tbl stmt rows 0 rows"
  let ?P = "midway tbl stmt M ps n e ?res" and ?Q = "finished tbl ps n e ?res"
  have ch: "chain_of open_data (live (ie_store e)) (view (ie_store e)) (tbl_root tbl) ps 0" and dist: "distinct ps"
    and dec: "decode_rows (tbl_columns tbl) (contents (view (ie_store e)) ps) = Inr rows"
    using seen by (auto simp: seen_def readable_def)
  have get: "\<exists>e2. po_get (lift_ops ops) x None e1 = (Inr d, e2) \<and> ?P qs todo c e2"
    if P: "?P (x # qs) todo c e1" and d: "view (ie_store e) x = Some d" "open_data d" for x qs todo c e1 d
  proof -
    have i: "inv (length todo + n) (ie_store e1) \<and> ie_mgr e1 = ie_mgr e1" and x: "x \<in> set ps" "view (ie_store e1) x = Some d"
      and so: "same_outside ps (ie_store e) (ie_store e1)" using P d(1) by (auto simp: midway_def)
    have "live (ie_store e1) x" using chain_pages [OF ch x(1)] so by (auto simp: same_outside_def)
    from env.get_open [OF i this x(2) d(2)] obtain e2 where
      "po_get (lift_ops ops) x None e1 = (Inr d, e2)" "looked (length todo + n) e1 e2"
      by (auto simp: looked_def unchanged_def env.unchanged_def)
    then show ?thesis using midway_looked [OF P] by (intro exI [of _ e2]) auto
  qed
  have body: "case update_row ops iops tables tbl stmt rid vs c e1 of (Inl err, e2) \<Rightarrow> ?Q (Inl err) e2
      | (Inr c', e2) \<Rightarrow> ?P qs todo c' e2"
    if "rid_page_id rid \<notin> set qs" "?P qs ((rid, vs) # todo) c e1" for qs rid vs todo c e1
    using midway_body [OF that ix few] .
  have fin: "?Q (Inr c) e1" if m: "?P [] [] c e1" for c e1
  proof -
    obtain cur where "update_all tbl stmt [] c cur = ?res" "inv (length ([] :: rows) + n) (ie_store e1)" "ie_mgr e1 = ie_mgr e"
      "seen tbl ps (ie_store e1) cur" "same_outside ps (ie_store e) (ie_store e1)" using m unfolding midway_def by auto
    moreover from this(1) have "?res = (Inr c, cur)" by simp
    ultimately show ?thesis by (simp add: finished_def)
  qed
  have "?P ps rows 0 e" unfolding midway_def using inv seen full fits room short
    by (intro exI [of _ rows]) (auto simp: to_visit_def full_rows_def same_outside_def)
  from scan_loop [where P = ?P and V = "view (ie_store e)" and ops = "lift_ops ops" and Q = ?Q and
    body = "update_row ops iops tables tbl stmt", OF get body fin ch dist fuel dec this]
  obtain r e' where r: "table_scan (lift_ops ops) tbl None (update_row ops iops tables tbl stmt) fuel 0 e = (r, e')" "?Q r e'"
    by (auto simp: table_scan_def)
  have "r = fst ?res" using r(2) by (simp add: finished_def)
  then have "execute_update ops iops tables fuel stmt e = (rbind (fst ?res) (\<lambda>k. Inr (affected k)), e')"
    using tbl r(1) by (cases "fst ?res") (simp_all add: execute_update_def sbind_def)
  then show ?thesis using r(2) \<open>r = fst ?res\<close> by blast
qed

end

section \<open>Constraints\<close>

lemma check_spec_nth:
  "check_spec j vcs exclude rows = Inr () \<Longrightarrow> k < length vcs \<Longrightarrow> primary_key (snd (vcs ! k)) \<or> is_unique (snd (vcs ! k)) \<Longrightarrow>
   (rid, vs) \<in> set rows \<Longrightarrow> Some rid \<noteq> exclude \<Longrightarrow> \<not> py_eq (vs ! (j + k)) (fst (vcs ! k))"
proof (induction j vcs exclude rows arbitrary: k rule: check_spec.induct)
  case (2 i v c vcs exclude rows)
  then show ?case by (cases k) (auto simp: clashes_def split: if_splits)
qed simp

lemma put_row_nth:
  "k < length xs \<Longrightarrow> map snd (put_row rid d xs) ! k = (if fst (xs ! k) = rid then d else snd (xs ! k))"
  by (cases "xs ! k") (simp add: put_row_def)

lemma update_spec_valid:
  assumes v: "table_valid (tbl_columns tbl) (map snd cur)" and s: "update_spec tbl stmt rid vs cur = Inr (Some ws)"
    and len: "length ws = length (tbl_columns tbl)" and dist: "distinct (map fst cur)"
  shows "table_valid (tbl_columns tbl) (map snd (put_row rid ws cur))"
proof -
  let ?cols = "tbl_columns tbl"
  obtain new_row where n: "check_spec 0 (zip new_row ?cols) (Some rid) cur = Inr ()" "convert_row new_row ?cols = Inr ws"
    using s by (auto simp: update_spec_def Let_def split: if_splits)
  note conv = convert_row_conforms [OF n(2)]
  have far: "differ i y ws" if "i < length ?cols" "checked (?cols ! i)" "(r, y) \<in> set cur" "r \<noteq> rid" for i r y
  proof -
    have i: "i < length ws" "i < length (zip new_row ?cols)" using that(1) len conv(1) by auto
    have "ws ! i = new_row ! i" using convert_keeps [OF convert_row_nth [OF n(2) i(1)]] that(2) by (simp add: checked_def)
    moreover have "\<not> py_eq (y ! i) (new_row ! i)"
      using check_spec_nth [OF n(1) i(2) _ that(3)] i(2) that(2,4) by (simp add: checked_def)
    ultimately show ?thesis by (simp add: differ_def)
  qed
  have "sorted_wrt (differ i) (map snd (put_row rid ws cur))" if i: "i < length ?cols" "checked (?cols ! i)" for i
    unfolding sorted_wrt_iff_nth_less
  proof (intro allI impI)
    fix a b assume ab: "a < b" "b < length (map snd (put_row rid ws cur))"
    then have b: "a < length cur" "b < length cur" by (simp_all add: put_row_def)
    have "differ i (snd (cur ! a)) (snd (cur ! b))"
      using v i ab(1) b sorted_wrt_nth_less [of "differ i" "map snd cur" a b] by (simp add: table_valid_def)
    moreover have "fst (cur ! a) \<noteq> fst (cur ! b)" using dist ab(1) b by (simp add: distinct_conv_nth)
    moreover have "differ i (snd (cur ! k)) ws" if "k < length cur" "fst (cur ! k) \<noteq> rid" for k
      using far [OF i, of "fst (cur ! k)" "snd (cur ! k)"] that by simp
    ultimately show "differ i (map snd (put_row rid ws cur) ! a) (map snd (put_row rid ws cur) ! b)"
      using b differ_sym by (auto simp: put_row_nth)
  qed
  moreover have "length x = length ?cols \<and> (\<forall>i < length ?cols. conforms (x ! i) (?cols ! i))"
    if "x \<in> set (map snd (put_row rid ws cur))" for x
    using that v conv(2) len by (auto simp: table_valid_def dest!: put_row_mem)
  ultimately show ?thesis by (simp add: table_valid_def)
qed

lemma update_all_valid:
  "table_valid (tbl_columns tbl) (map snd cur) \<Longrightarrow> distinct (map fst cur) \<Longrightarrow> \<forall>x \<in> set todo. length (snd x) = length (tbl_columns tbl) \<Longrightarrow>
   table_valid (tbl_columns tbl) (map snd (snd (update_all tbl stmt todo c cur)))"
proof (induction tbl stmt todo c cur rule: update_all.induct)
  case (2 tbl stmt rid vs todo n cur)
  show ?case
  proof (cases "update_spec tbl stmt rid vs cur")
    case (Inr x)
    show ?thesis
    proof (cases x)
      case (Some ws)
      then have s: "update_spec tbl stmt rid vs cur = Inr (Some ws)" using Inr by simp
      then have "length ws = length (tbl_columns tbl)"
        using 2(5) by (auto simp: update_spec_def Let_def split: if_splits intro: assigned_length)
      from update_spec_valid [OF 2(3) s this 2(4)] show ?thesis using 2 s by simp
    qed (use 2 Inr in simp)
  qed (use 2 in simp)
qed simp

lemma update_all_keys: "map fst (snd (update_all tbl stmt todo c cur)) = map fst cur"
  by (induction tbl stmt todo c cur rule: update_all.induct) (auto split: sum.split option.split)


text \<open>On the plain pool, from a well-formed table.\<close>

lemma updated_scan:
  assumes "store_ok (length rows) (ss_pool (ie_store e))" and "length ps < fuel"
    and "get_table tables (upd_table stmt) = Inr tbl" and "unindexed (ie_mgr e) (upd_table stmt)"
    and "table_ok (pool_live (ss_pool (ie_store e))) (pool_view (ss_pool (ie_store e))) tbl ps"
    and "decode_rows (tbl_columns tbl) (contents (pool_view (ss_pool (ie_store e))) ps) = Inr rows"
    and full: "main_stmt.full_rows tbl rows" and fits: "\<forall>x \<in> set rows. update_fits tbl stmt M (snd x)"
    and "length (tbl_columns tbl) < 65536" and "\<forall>(rid, d) \<in> set (contents (pool_view (ss_pool (ie_store e))) ps). length d \<le> M"
    and "\<forall>p \<in> set ps. \<forall>d h. pool_view (ss_pool (ie_store e)) p = Some d \<longrightarrow> parse_page_header d = Inr h \<longrightarrow>
       M * on_page p rows \<le> h_free_space h"
  shows "\<exists>e'. execute_update main_ops iops tables fuel stmt e =
      (rbind (fst (update_all tbl stmt rows 0 rows)) (\<lambda>k. Inr (affected k)), e') \<and>
    fst (scan_all main_ops tbl None (ie_store e')) = Inr (snd (update_all tbl stmt rows 0 rows))"
proof -
  have ch: "chain (pool_live (ss_pool (ie_store e))) (pool_view (ss_pool (ie_store e))) (tbl_root tbl) ps 0"
    using assms(5) by (simp add: table_ok_def)
  have "main_stmt.room_on M rows (ie_store e) ps" unfolding main_stmt.room_on_def
  proof (intro ballI allI impI)
    fix p d assume p: "p \<in> set ps" "pool_view (ss_pool (ie_store e)) p = Some d"
    then have "data_page d" using chain_pages [OF ch p(1)] by auto
    then obtain h where h: "wf_page d" "parse_page_header d = Inr h" by (rule data_pageE)
    have "M * on_page p rows \<le> h_free_space h" using assms(11) p h(2) by blast
    with h show "room_for (M * on_page p rows) d" by (rule wf_room_for)
  qed
  moreover have "main_stmt.seen tbl ps (ie_store e) rows"
    using assms(5,6) by (intro main_stmt.stored_seen) (simp add: main_stmt.stored_def)
  moreover have "short_rows M (pool_view (ss_pool (ie_store e))) ps" using assms(10) by (simp add: short_rows_def)
  moreover have "store_ok (length rows + 0) (ss_pool (ie_store e))" using assms(1) by simp
  ultimately obtain e' where r: "execute_update main_ops iops tables fuel stmt e =
      (rbind (fst (update_all tbl stmt rows 0 rows)) (\<lambda>k. Inr (affected k)), e')"
      "main_stmt.finished tbl ps 0 e (update_all tbl stmt rows 0 rows) (fst (update_all tbl stmt rows 0 rows)) e'"
    using main_stmt.execute_update_ok [OF _ assms(3) _ assms(4) full fits assms(9) _ _ assms(2)] by blast
  then show ?thesis using main_stmt.scan_seen by (auto simp: main_stmt.finished_def)
qed

section \<open>Properties\<close>

text \<open>
  C4. UPDATE maps the selected rows: on a table without an index whose pages have room for the new versions, the
  statement answers as \<open>update_all\<close> on the rows that the table had, and a scan afterwards returns the rows of that
  function: every row keeps its place and its row id, each selected one has its new values, checked against the
  rows as they were when its turn came. An exception stops the statement, and the rows before it are updated.
\<close>

theorem update_maps_rows:
  assumes "store_ok (length rows) (ss_pool (ie_store e))" and "length ps < fuel"
    and "get_table tables (upd_table stmt) = Inr tbl" and "unindexed (ie_mgr e) (upd_table stmt)"
    and "table_ok (pool_live (ss_pool (ie_store e))) (pool_view (ss_pool (ie_store e))) tbl ps"
    and "decode_rows (tbl_columns tbl) (contents (pool_view (ss_pool (ie_store e))) ps) = Inr rows"
    and "\<forall>(rid, vs) \<in> set rows. length vs = length (tbl_columns tbl) \<and> update_fits tbl stmt M vs"
    and "length (tbl_columns tbl) < 65536" and "\<forall>(rid, d) \<in> set (contents (pool_view (ss_pool (ie_store e))) ps). length d \<le> M"
    and "\<forall>p \<in> set ps. \<forall>d h. pool_view (ss_pool (ie_store e)) p = Some d \<longrightarrow> parse_page_header d = Inr h \<longrightarrow>
       M * on_page p rows \<le> h_free_space h"
  shows "\<exists>e'. execute_update main_ops iops tables fuel stmt e =
      (rbind (fst (update_all tbl stmt rows 0 rows)) (\<lambda>k. Inr (affected k)), e') \<and>
    fst (scan_all main_ops tbl None (ie_store e')) = Inr (snd (update_all tbl stmt rows 0 rows))"
proof -
  have "main_stmt.full_rows tbl rows" "\<forall>x \<in> set rows. update_fits tbl stmt M (snd x)"
    using assms(7) by (auto simp: main_stmt.full_rows_def)
  from updated_scan [OF assms(1-6) this assms(8-10)] show ?thesis .
qed

lemma demo_bytes: "in_i64 i \<Longrightarrow> \<exists>d. serialize_row [PInt i] (tbl_columns demo_table) = Inr d \<and> length d = 11 \<and> d \<noteq> [] \<and>
    deserialize_row d (tbl_columns demo_table) = Inr [PInt i]"
proof -
  assume i: "in_i64 i"
  have "length (tbl_columns demo_table) < 65536" by (simp add: demo_table_def)
  from storable_row_serialized [OF demo_row(2) [OF i] this] obtain d where
    d: "serialize_row [PInt i] (tbl_columns demo_table) = Inr d" "deserialize_row d (tbl_columns demo_table) = Inr [PInt i]" "d \<noteq> []"
    by blast
  have "\<exists>b. pack_i64 i = Inr b \<and> length b = 8" using i by (auto simp: pack_i64_Inr_iff)
  then have "length d = 11" using d(1)
    by (auto simp: serialize_row_def demo_table_def int_col_def serialize_value_def pack_u_Inr_iff encode_null_flags_def bitmap_size_def)
  then show ?thesis using d by blast
qed

text \<open>A session whose table has one row.\<close>

lemma demo_page:
  assumes "length d = 11"
  obtains s :: session where "store_ok 1 (ss_pool s)" "table_ok (pool_live (ss_pool s)) (pool_view (ss_pool s)) demo_table [1]"
    "contents (pool_view (ss_pool s)) [1] = [(\<lparr>rid_page_id = 1, rid_slot_index = 0\<rparr>, d)]"
    "\<forall>x h. pool_view (ss_pool s) 1 = Some x \<longrightarrow> parse_page_header x = Inr h \<longrightarrow> h_free_space h = 4049"
proof -
  let ?e = "empty_page_data 1 DATA" and ?s = "new_session 2 :: session"
  let ?h = "\<lparr>h_page_id = 1, h_page_type = DATA, h_slot_count = 0, h_free_space = 4064,
       h_free_offset = 4096, h_next_page_id = 0, h_flags = 0\<rparr>"
  have n: "(2 :: nat) + 1 + 4 < 2 ^ 32" "0 < (2 :: nat)" by simp_all
  note t = demo_table_ok [OF n] and f = new_session_facts [OF n(1)]
  have e: "wf_page ?e" "parse_page_header ?e = Inr ?h" "data_page ?e"
    using wf_empty_page [of 1 DATA] parse_empty_page [of 1 DATA] data_page_empty [of 1] by simp_all
  have sp: "length d + 4 \<le> h_free_space ?h" and ne: "d \<noteq> []" using assms by auto
  have l: "pool_live (ss_pool ?s) 1" "pool_view (ss_pool ?s) 1 = Some ?e" using f(3-6) by simp_all
  have ok: "store_ok (Suc 1) (ss_pool ?s)" by (rule new_session_facts(2)) simp
  obtain s1 :: session where s1: "store_ok (Suc 1) (ss_pool s1)" "main.unchanged ?s s1" "cached (ss_pool s1) 1"
    using main.get_ok [OF ok l e(3)] by blast
  let ?d = "inserted_data ?e ?h d"
  have "parses ?d" using inserted_data_facts(2) [OF e(1,2) sp] inserted_data_wf [OF e(1,2) sp] by (auto simp: parses_def wf_page_def)
  moreover have "pool_live (ss_pool s1) 1" using s1(2) l by (simp add: main.unchanged_def)
  ultimately obtain s2 :: session where s2: "store_ok 1 (ss_pool s2)" "pool_live (ss_pool s2) = pool_live (ss_pool s1)"
    "\<forall>q. pool_live (ss_pool s1) q \<longrightarrow> pool_view (ss_pool s2) q = (if q = 1 then Some ?d else pool_view (ss_pool s1) q)"
    using main.set_law [OF s1(1) _ s1(3)] by blast
  have v: "pool_live (ss_pool s2) = pool_live (ss_pool ?s)"
    "pool_view (ss_pool s2) q = (if q = 1 then Some ?d else pool_view (ss_pool ?s) q)" if "pool_live (ss_pool ?s) q" for q
    using s2(2,3) s1(2) that l by (simp_all add: main.unchanged_def)
  note ti = main.table_inserted [OF t(1) _ l(2) e(2) sp ne v(2)]
  have "table_ok (pool_live (ss_pool s2)) (pool_view (ss_pool s2)) demo_table [1]" using ti(1) v(1) [OF l(1)] by simp
  moreover have "contents (pool_view (ss_pool s2)) [1] = [(\<lparr>rid_page_id = 1, rid_slot_index = 0\<rparr>, d)]"
    using ti(2) t(3) by auto
  moreover have "\<forall>x h. pool_view (ss_pool s2) 1 = Some x \<longrightarrow> parse_page_header x = Inr h \<longrightarrow> h_free_space h = 4049"
    using v(2) [OF l(1)] inserted_data_facts(2) [OF e(1,2) sp] assms by auto
  ultimately show thesis using that s2(1) by blast
qed

theorem update_maps_rows_witness:
  "\<exists>s e'. fst (scan_all main_ops demo_table None s) = Inr [(\<lparr>rid_page_id = 1, rid_slot_index = 0\<rparr>, [PInt 7])] \<and>
    execute_update main_ops None [(''t'', \<lparr>meta_name = ''t'', meta_columns = [int_col], meta_root = 1, meta_primary_key = []\<rparr>)] 3
      \<lparr>upd_table = ''t'', assignments = [(''n'', Literal (PInt 8))], upd_where = None\<rparr>
      \<lparr>ie_store = s, ie_mgr = new_index_manager\<rparr> = (Inr (affected 1), e') \<and>
    fst (scan_all main_ops demo_table None (ie_store e')) = Inr [(\<lparr>rid_page_id = 1, rid_slot_index = 0\<rparr>, [PInt 8])]"
proof -
  let ?r = "\<lparr>rid_page_id = 1, rid_slot_index = 0\<rparr>"
  let ?tables = "[(''t'', \<lparr>meta_name = ''t'', meta_columns = [int_col], meta_root = 1, meta_primary_key = []\<rparr>)]"
  let ?u = "\<lparr>upd_table = ''t'', assignments = [(''n'', Literal (PInt 8))], upd_where = None\<rparr>"
  have i: "in_i64 7" "in_i64 8" by (simp_all add: in_i64_def)
  from demo_bytes [OF i(1)] obtain d where d: "length d = 11" "deserialize_row d (tbl_columns demo_table) = Inr [PInt 7]" by blast
  from demo_bytes [OF i(2)] obtain d8 where d8: "serialize_row [PInt 8] (tbl_columns demo_table) = Inr d8" "length d8 = 11" by blast
  obtain s :: session where s: "store_ok 1 (ss_pool s)" "table_ok (pool_live (ss_pool s)) (pool_view (ss_pool s)) demo_table [1]"
    "contents (pool_view (ss_pool s)) [1] = [(?r, d)]"
    "\<forall>x h. pool_view (ss_pool s) 1 = Some x \<longrightarrow> parse_page_header x = Inr h \<longrightarrow> h_free_space h = 4049"
    by (rule demo_page [OF d(1)])
  let ?e = "\<lparr>ie_store = s, ie_mgr = new_index_manager\<rparr>"
  have dec: "decode_rows (tbl_columns demo_table) (contents (pool_view (ss_pool s)) [1]) = Inr [(?r, [PInt 7])]"
    using s(3) d(2) by (simp add: decode_rows_def)
  have as: "index_of (names_of demo_table) ''n'' = Inr 0"
    by (simp add: index_of_def names_of_def demo_table_def int_col_def)
  have fits: "update_fits demo_table ?u 11 [PInt 7]"
    using as demo_row(1,2) [OF i(2)] d8 by (simp add: update_fits_def)
  have spec: "update_spec demo_table ?u ?r [PInt 7] [(?r, [PInt 7])] = Inr (Some [PInt 8])"
    using as demo_row(1) [OF i(2)] d8(1)
    by (simp add: update_spec_def selects_def) (simp add: demo_table_def int_col_def)
  have t: "get_table ?tables (upd_table ?u) = Inr demo_table" by (simp add: get_table_def table_of_meta_def demo_table_def)
  have u: "unindexed (ie_mgr ?e) (upd_table ?u)" by (simp add: unindexed_def new_index_manager_def)
  have few: "length (tbl_columns demo_table) < 65536" "length [PInt 7] = length (tbl_columns demo_table)" by (simp_all add: demo_table_def)
  have "\<exists>e'. execute_update main_ops None ?tables 3 ?u ?e =
      (rbind (fst (update_all demo_table ?u [(?r, [PInt 7])] 0 [(?r, [PInt 7])])) (\<lambda>k. Inr (affected k)), e') \<and>
    fst (scan_all main_ops demo_table None (ie_store e')) = Inr (snd (update_all demo_table ?u [(?r, [PInt 7])] 0 [(?r, [PInt 7])]))"
    by (rule update_maps_rows [OF _ _ t u, where ps = "[1]" and M = 11])
      (use s dec fits few d(1) in simp_all)
  moreover have "main_stmt.seen demo_table [1] s [(?r, [PInt 7])]"
    using s(2) dec by (intro main_stmt.stored_seen) (simp add: main_stmt.stored_def)
  ultimately show ?thesis using main_stmt.scan_seen [OF s(1)] spec by (auto simp: put_row_def)
qed

text \<open>
  C34. UPDATE respects the constraints on a table without an index whose pages have room: no stored row and no new
  version of one takes more than \<open>M\<close> bytes, and the free space of each page holds \<open>M\<close> bytes for every row on it
  (without room the new version is written over its neighbours). If every stored row has values of its types in all columns, NULL only where it
  is allowed, and no two rows are equal in a primary key or unique column that is not of type FLOAT, then the rows
  that a scan returns after the statement, successful or not, are like that again.
\<close>

theorem update_keeps_table_valid:
  assumes "store_ok (length rows) (ss_pool (ie_store e))" and "length ps < fuel"
    and "get_table tables (upd_table stmt) = Inr tbl" and "unindexed (ie_mgr e) (upd_table stmt)"
    and "table_ok (pool_live (ss_pool (ie_store e))) (pool_view (ss_pool (ie_store e))) tbl ps"
    and "decode_rows (tbl_columns tbl) (contents (pool_view (ss_pool (ie_store e))) ps) = Inr rows"
    and "\<forall>(rid, vs) \<in> set rows. update_fits tbl stmt M vs" and "length (tbl_columns tbl) < 65536"
    and "\<forall>(rid, d) \<in> set (contents (pool_view (ss_pool (ie_store e))) ps). length d \<le> M"
    and "\<forall>p \<in> set ps. \<forall>d h. pool_view (ss_pool (ie_store e)) p = Some d \<longrightarrow> parse_page_header d = Inr h \<longrightarrow>
       M * on_page p rows \<le> h_free_space h"
    and "table_valid (tbl_columns tbl) (map snd rows)"
  shows "\<exists>rows'. fst (scan_all main_ops tbl None (ie_store (snd (execute_update main_ops iops tables fuel stmt e)))) = Inr rows' \<and>
    map fst rows' = map fst rows \<and> table_valid (tbl_columns tbl) (map snd rows')"
proof -
  have st: "main_stmt.stored tbl ps (ie_store e) rows" using assms(5,6) by (simp add: main_stmt.stored_def)
  note full = main_stmt.full_valid [OF assms(11)]
  have fits: "\<forall>x \<in> set rows. update_fits tbl stmt M (snd x)" using assms(7) by auto
  obtain e' where r: "snd (execute_update main_ops iops tables fuel stmt e) = e'"
      "fst (scan_all main_ops tbl None (ie_store e')) = Inr (snd (update_all tbl stmt rows 0 rows))"
    using updated_scan [OF assms(1-6) full fits assms(8-10), of iops] by auto
  moreover have "table_valid (tbl_columns tbl) (map snd (snd (update_all tbl stmt rows 0 rows)))"
    using full by (intro update_all_valid [OF assms(11) main_stmt.distinct_stored [OF st]]) (auto simp: main_stmt.full_rows_def)
  ultimately show ?thesis using update_all_keys by auto
qed

theorem update_keeps_table_valid_witness:
  "\<exists>(s :: session) rows'. fst (scan_all main_ops key_table None (ie_store (snd (execute_update main_ops None [(''t'', key_meta)] 3
      \<lparr>upd_table = ''t'', assignments = [(''id'', Literal (PInt 8))], upd_where = None\<rparr>
      \<lparr>ie_store = s, ie_mgr = new_index_manager\<rparr>)))) = Inr rows' \<and>
    map fst rows' = [\<lparr>rid_page_id = 1, rid_slot_index = 0\<rparr>] \<and> table_valid [key_col] (map snd rows')"
proof -
  let ?r = "\<lparr>rid_page_id = 1, rid_slot_index = 0\<rparr>"
  let ?u = "\<lparr>upd_table = ''t'', assignments = [(''id'', Literal (PInt 8))], upd_where = None\<rparr>"
  have few: "length [key_col] < 65536" by simp
  have "storable_row [PInt 7] [key_col]" by (simp add: storable_row_def key_col_def in_i64_def)
  from storable_row_serialized [OF this few] key_serialized [of 7] obtain d where
    d: "deserialize_row d [key_col] = Inr [PInt 7]" "length d = 11" by (auto simp: in_i64_def)
  obtain s :: session where s: "store_ok 1 (ss_pool s)" "table_ok (pool_live (ss_pool s)) (pool_view (ss_pool s)) demo_table [1]"
    "contents (pool_view (ss_pool s)) [1] = [(?r, d)]"
    "\<forall>x h. pool_view (ss_pool s) 1 = Some x \<longrightarrow> parse_page_header x = Inr h \<longrightarrow> h_free_space h = 4049"
    by (rule demo_page [OF d(2)])
  have ok: "table_ok (pool_live (ss_pool s)) (pool_view (ss_pool s)) key_table [1]"
    using s(2) by (simp add: table_ok_def key_table_facts demo_table_def)
  have dec: "decode_rows (tbl_columns key_table) (contents (pool_view (ss_pool s)) [1]) = Inr [(?r, [PInt 7])]"
    using s(3) d(1) by (simp add: decode_rows_def key_table_facts)
  have "index_of (names_of key_table) ''id'' = Inr 0"
    by (simp add: index_of_def names_of_def key_table_facts) (simp add: key_col_def)
  then have fits: "update_fits key_table ?u 11 [PInt 7]"
    using key_row_fits [of 8] key_serialized [of 8]
    by (auto simp: update_fits_def row_fits_def key_table_facts convert_row_def key_col_def convert_value_def validate_value_def
        split: if_splits)
  have v: "table_valid (tbl_columns key_table) (map snd [(?r, [PInt 7])])"
    by (simp add: table_valid_def key_table_facts) (simp add: conforms_def key_col_def)
  let ?e = "\<lparr>ie_store = s, ie_mgr = new_index_manager\<rparr>"
  have u: "unindexed (ie_mgr ?e) (upd_table ?u)" by (simp add: unindexed_def new_index_manager_def)
  have "\<exists>rows'. fst (scan_all main_ops key_table None (ie_store (snd (execute_update main_ops None [(''t'', key_meta)] 3 ?u ?e)))) =
      Inr rows' \<and> map fst rows' = map fst [(?r, [PInt 7])] \<and> table_valid (tbl_columns key_table) (map snd rows')"
    by (rule update_keeps_table_valid [OF _ _ _ u, where ps = "[1]" and M = 11])
      (use s ok dec fits v few d(2) key_table_facts in simp_all)
  then show ?thesis unfolding key_table_facts(2) list.map fst_conv by (rule exI [of _ s])
qed

end
