(* ===== verification/Rollback.thy ===== *)
theory Rollback
  imports Database_Facts
begin

text \<open>
  ROLLBACK undoes the statements of its transaction. Freeing a shadow page reads its header from the file, so the
  proof also follows the file: every page in it has a type byte of zero or a header (\<open>well_typed\<close>), which all
  operations of the shadow pool keep.
\<close>

section \<open>Pages of the file\<close>

definition well_typed :: "file_manager \<Rightarrow> bool" where
  "well_typed fm \<longleftrightarrow> (\<forall>p. 0 < p \<and> p < fm_page_count fm \<longrightarrow> freeable fm p)"

lemma freeable_data: "disk fm p = Some d \<Longrightarrow> p \<noteq> 0 \<Longrightarrow> parses d \<Longrightarrow> freeable fm p"
  by (auto simp: freeable_def parses_def)

lemma freeable_same: "disk fm' p = disk fm p \<Longrightarrow> freeable fm' p = freeable fm p"
  by (simp add: freeable_def)

lemma well_typed_write:
  assumes "fm_inv fm" and "well_typed fm" and "q < fm_page_count fm" and "parses d"
  shows "well_typed (snd (write_page q d fm))"
proof -
  note w = write_page_facts [OF assms(1,3)] 
  have l: "length d = 4096" using assms(4) by (simp add: parses_def)
  have "freeable (snd (write_page q d fm)) p" if "0 < p" "p < fm_page_count fm" for p
    using w(3) [OF l, of p] freeable_data [of _ p d] freeable_same [of _ p fm] assms(2,4) that
    by (cases "p = q") (simp_all add: well_typed_def)
  then show ?thesis using same_fields(1) [OF w(4) [OF l]] by (simp add: well_typed_def)
qed

lemma well_typed_alloc:
  assumes "fm_inv fm" and "well_typed fm" and "free_list fm xs" and "fm_page_count fm + 1 < 2 ^ 32"
  shows "well_typed (snd (alloc_page fm))"
proof (cases xs)
  case Nil
  note a = alloc_page_grow [OF assms(1) assms(3) [unfolded Nil] assms(4)]
  have "freeable (snd (alloc_page fm)) p" if "0 < p" "p < fm_page_count fm + 1" for p
    using a(4) [of p] freeable_same [of _ p fm] assms(2) that
    by (cases "p = fm_page_count fm") (simp_all add: well_typed_def, simp add: freeable_def)
  then show ?thesis using a(5) by (simp add: well_typed_def)
next
  case (Cons x ys)
  note a = alloc_page_reuse [OF assms(1) assms(3) [unfolded Cons]]
  have "freeable (snd (alloc_page fm)) p" if "0 < p" "p < fm_page_count fm" for p
    using a(4) [of p] freeable_same [of _ p fm] assms(2) that by (simp add: well_typed_def)
  then show ?thesis using a(5) by (simp add: well_typed_def)
qed

section \<open>The pool\<close>

lemma well_typed_evict:
  assumes "pool_inv bp" and "well_typed (bp_fm bp)"
  shows "well_typed (bp_fm (snd (evict_one bp)))"
proof (cases "find (\<lambda>(pid, page). pid \<notin> bp_pinned bp) (bp_cache bp)")
  case (Some kp)
  obtain k page where kp: "kp = (k, page)" by (cases kp)
  from Some kp have "(k, page) \<in> set (bp_cache bp)" by (auto simp: find_Some_iff dest: nth_mem)
  then have "page_ok (bp_fm bp) k page" using pool_invD(2,3) [OF assms(1)] by (simp add: dict_get_Some_iff)
  then have "well_typed (snd (write_page k (p_data page) (bp_fm bp)))"
    using assms pool_invD(1) [OF assms(1)] by (intro well_typed_write) (auto simp: page_ok_def)
  then show ?thesis using assms(2) Some kp
    by (auto simp: evict_one_def sbind_def szoom_def split: prod.splits sum.splits)
qed (use assms in \<open>simp add: evict_one_def\<close>)

lemma well_typed_make_room: "pool_inv bp \<Longrightarrow> well_typed (bp_fm bp) \<Longrightarrow> well_typed (bp_fm (snd (make_room bp)))"
proof (induction bp rule: make_room.induct)
  case (1 bp)
  obtain r b where e: "evict_one bp = (r, b)" by (cases "evict_one bp")
  have "pool_inv b" "well_typed (bp_fm b)"
    using evict_one_same [OF 1(2) e] same_pagesD(1) well_typed_evict [OF 1(2,3)] e by auto
  then show ?case using 1 e by (subst make_room.simps) (auto split: sum.split)
qed

lemma touch_fm: "bp_fm (touch k bp) = bp_fm bp"
  by (simp add: touch_def cache_put_def split: option.split)

lemma well_typed_get:
  assumes "pool_inv bp" and "well_typed (bp_fm bp)"
  shows "well_typed (bp_fm (snd (get_page k None bp)))"
  using assms well_typed_make_room [OF assms]
  by (auto simp: get_page_def touch_fm sbind_def fetch_eq insert_page_def cache_put_def split: option.split sum.split prod.split)

section \<open>The shadow pool\<close>

definition typed_session :: "nat \<Rightarrow> session \<Rightarrow> bool" where
  "typed_session t s \<longleftrightarrow> well_typed (bp_fm (ss_pool s)) \<and> txn_id (ss_txn s) = t"

lemma shadow_ok_pool_inv: "shadow_ok n s \<Longrightarrow> pool_inv (ss_pool s)"
  by (simp add: shadow_ok_def store_ok_def)

lemma typed_get: "shadow_ok n s \<Longrightarrow> typed_session t s \<Longrightarrow> typed_session t (snd (shadow_get p None s))"
  using well_typed_get [OF shadow_ok_pool_inv]
  by (auto simp: typed_session_def shadow_get_def szoom_def split: option.split prod.split) (metis snd_conv)+

lemma typed_alloc:
  assumes "shadow_ok (Suc n) s" and "typed_session t s"
  shows "typed_session t (snd (on_pool (on_fm alloc_page) s))"
proof -
  let ?fm = "bp_fm (ss_pool s)"
  have st: "store_ok (Suc n) (ss_pool s)" using assms(1) by (simp add: shadow_ok_def)
  then obtain xs where "free_list ?fm xs" "fm_page_count ?fm + 1 < 2 ^ 32" by (auto simp: store_ok_def)
  from well_typed_alloc [OF pool_invD(1) [OF shadow_ok_pool_inv [OF assms(1)]] _ this] assms(2) show ?thesis
    by (simp add: typed_session_def szoom_def split_beta)
qed

lemma typed_write:
  assumes "shadow_ok n s" and "typed_session t s" and "q < fm_page_count (bp_fm (ss_pool s))" and "parses d"
  shows "typed_session t (snd (on_pool (on_fm (write_page q d)) s))"
  using well_typed_write [OF pool_invD(1) [OF shadow_ok_pool_inv [OF assms(1)]] _ assms(3,4)] assms(2)
  by (simp add: typed_session_def szoom_def split_beta)

lemma typed_ensure:
  assumes ok: "shadow_ok (Suc n) s" and l: "shadow_live s p" and v: "shadow_view s p = Some d" and d: "parses d"
    and ty: "typed_session t s"
  shows "typed_session t (snd (ensure_shadow p s))"
proof (cases "shadow_of s p")
  case None
  let ?bp = "ss_pool s"
  have st: "store_ok (Suc n) ?bp" using ok by (simp add: shadow_ok_def)
  have lp: "pool_live ?bp p" using l by (simp add: shadow_live_def)
  obtain q fm where a: "on_fm alloc_page ?bp = (Inr q, ?bp\<lparr>bp_fm := fm\<rparr>)" "\<not> pool_live ?bp q" "\<not> cached ?bp q"
      "store_ok n (?bp\<lparr>bp_fm := fm\<rparr>)" "pool_live (?bp\<lparr>bp_fm := fm\<rparr>) = (pool_live ?bp)(q := True)"
      "\<forall>p. p \<noteq> 0 \<longrightarrow> p \<noteq> q \<longrightarrow> pool_view (?bp\<lparr>bp_fm := fm\<rparr>) p = pool_view ?bp p"
    using alloc_live [OF st] by blast
  define b1 where "b1 = ?bp\<lparr>bp_fm := fm\<rparr>"
  note a = a [folded b1_def]
  have t1: "well_typed (bp_fm b1)" using typed_alloc [OF ok ty] a(1) by (simp add: typed_session_def szoom_def [of ss_pool])
  have pq: "p \<noteq> q" "p \<noteq> 0" using a(2) lp by (auto simp: pool_live_def)
  have v1: "pool_view b1 p = Some d" using a(6) pq v None by (simp add: shadow_view_def resolve_def)
  have lp1: "pool_live b1 p" using a(5) lp by simp
  obtain b2 where b2: "get_page p None b1 = (Inr d, b2)" "store_ok n b2" "pool_live b2 = pool_live b1" "same_pages {p} b1 b2"
    using get_page_live [OF a(4) lp1 v1 d] by blast
  have "pool_inv b1" using a(4) by (simp add: store_ok_def)
  then have t2: "well_typed (bp_fm b2)" using well_typed_get [OF _ t1, of p] b2(1) by simp
  have nc: "\<not> cached b2 q" using b2(4) a(3) pq by (auto simp: same_pages_def b1_def cached_def)
  have lq: "pool_live b2 q" using b2(3) a(5) by simp
  obtain fm3 where w: "on_fm (write_page q d) b2 = (Inr (), b2\<lparr>bp_fm := fm3\<rparr>)" using write_live [OF b2(2) lq nc d] by blast
  have "pool_inv b2" "q < fm_page_count (bp_fm b2)" using b2(2) lq by (simp_all add: store_ok_def pool_live_def)
  then have "well_typed (snd (write_page q d (bp_fm b2)))" using well_typed_write [OF pool_invD(1) _ _ d] t2 by blast
  then have "well_typed fm3" using w by (auto simp: szoom_def dest!: arg_cong [of _ _ bp_fm] split: prod.splits)
  then show ?thesis using a(1) b2(1) w None ty
    by (simp add: ensure_shadow_def sbind_def szoom_def [of ss_pool] typed_session_def cache_put_def add_shadow_def)
qed (use ty in \<open>simp add: ensure_shadow_def\<close>)

lemma typed_set:
  assumes ok: "shadow_ok (Suc n) s" and l: "shadow_live s p" and c: "cached (ss_pool s) (resolve s p)" and ty: "typed_session t s"
  shows "typed_session t (snd (shadow_set p d s))"
proof -
  obtain page where pg: "dict_get (bp_cache (ss_pool s)) (resolve s p) = Some page" using c by (auto simp: cached_def)
  then have "shadow_view s p = Some (p_data page)" "parses (p_data page)"
    using pool_invD(3) [OF shadow_ok_pool_inv [OF ok] pg] by (simp_all add: shadow_view_def pool_view_def page_ok_def)
  from typed_ensure [OF ok l this ty] show ?thesis
    by (cases "ensure_shadow p s")
      (auto simp: shadow_set_def sbind_def szoom_def typed_session_def mark_dirty_def set_page_data_def cache_update_def
        split: sum.split option.split)
qed

interpretation undo: page_store "\<lambda>n s. shadow_inv D n s \<and> typed_session t s" shadow_live shadow_view
  "\<lambda>s p. cached (ss_pool s) (resolve s p)" "\<lambda>s q. shadow_fresh s q \<and> D q = None" shadow_ops
  for D t
proof
  fix n s assume "shadow_inv D (Suc n) s \<and> typed_session t s"
  then show "shadow_inv D n s \<and> typed_session t s" using shadow.inv_mono by blast
next
  fix n s p assume "shadow_inv D n s \<and> typed_session t s" "shadow_live s p"
  then show "0 < p \<and> p < po_count shadow_ops s" using shadow.live_page by blast
next
  fix n s p d
  assume i: "shadow_inv D n s \<and> typed_session t s" and a: "shadow_live s p" "shadow_view s p = Some d" "parses d"
  have ok: "shadow_ok n s" using i by (simp add: shadow_inv_def)
  have "typed_session t (snd (po_get shadow_ops p None s))" using typed_get [OF ok] i by (simp add: shadow_ops_def)
  with shadow.get_law [OF conjunct1 [OF i] a] show "\<exists>s'. po_get shadow_ops p None s = (Inr d, s') \<and>
      (shadow_inv D n s' \<and> typed_session t s') \<and> shadow_live s' = shadow_live s \<and>
      (\<forall>q. shadow_live s q \<longrightarrow> shadow_view s' q = shadow_view s q) \<and> cached (ss_pool s') (resolve s' p) \<and>
      (\<forall>q. shadow_fresh s q \<and> D q = None \<longrightarrow> q \<noteq> p \<longrightarrow> shadow_fresh s' q \<and> D q = None)" by auto
next
  fix n s p d
  assume i: "shadow_inv D (Suc n) s \<and> typed_session t s"
    and a: "shadow_live s p" "cached (ss_pool s) (resolve s p)" "parses d"
  have ok: "shadow_ok (Suc n) s" using i by (simp add: shadow_inv_def)
  have "typed_session t (snd (po_set shadow_ops p d s))" using typed_set [OF ok a(1,2)] i by (simp add: shadow_ops_def)
  with shadow.set_law [OF conjunct1 [OF i] a] show "\<exists>s'. po_set shadow_ops p d s = (Inr (), s') \<and>
      (shadow_inv D n s' \<and> typed_session t s') \<and> shadow_live s' = shadow_live s \<and>
      (\<forall>q. shadow_live s q \<longrightarrow> shadow_view s' q = (if q = p then Some d else shadow_view s q)) \<and>
      (\<forall>q. shadow_fresh s q \<and> D q = None \<longrightarrow> q \<noteq> p \<longrightarrow> shadow_fresh s' q \<and> D q = None)" by auto
next
  fix n s
  assume i: "shadow_inv D (Suc n) s \<and> typed_session t s"
  then have "shadow_ok (Suc n) s" by (simp add: shadow_inv_def)
  from typed_alloc [OF this] i have "typed_session t (snd (po_alloc shadow_ops s))" by (simp add: shadow_ops_def)
  with shadow.alloc_law [OF conjunct1 [OF i]] show "\<exists>q s'. po_alloc shadow_ops s = (Inr q, s') \<and> \<not> shadow_live s q \<and> q < 2 ^ 32 \<and>
      (shadow_inv D n s' \<and> typed_session t s') \<and> shadow_live s' = (shadow_live s)(q := True) \<and>
      (\<forall>r. shadow_live s r \<longrightarrow> shadow_view s' r = shadow_view s r) \<and> shadow_fresh s' q \<and> D q = None" by auto
next
  fix n s q d
  assume i: "shadow_inv D n s \<and> typed_session t s" and a: "shadow_live s q" "shadow_fresh s q \<and> D q = None" "parses d"
  have ok: "shadow_ok n s" using i by (simp add: shadow_inv_def)
  have "q < fm_page_count (bp_fm (ss_pool s))" using a(1) by (simp add: shadow_live_def pool_live_def)
  from typed_write [OF ok _ this a(3)] i have "typed_session t (snd (po_write shadow_ops q d s))" by (simp add: shadow_ops_def)
  with shadow.write_law [OF conjunct1 [OF i] a] show "\<exists>s'. po_write shadow_ops q d s = (Inr (), s') \<and>
      (shadow_inv D n s' \<and> typed_session t s') \<and> shadow_live s' = shadow_live s \<and>
      (\<forall>r. shadow_live s r \<longrightarrow> shadow_view s' r = (if r = q then Some d else shadow_view s r))" by auto
qed

interpretation undo_stmt: statement_store "\<lambda>n s. shadow_inv D n s \<and> typed_session t s" shadow_live shadow_view
  "\<lambda>s p. cached (ss_pool s) (resolve s p)" "\<lambda>s q. shadow_fresh s q \<and> D q = None" shadow_ops
  for D t
  by unfold_locales

section \<open>Rolling back\<close>

lemma smap_map: "smap (\<lambda>x. f (g x)) xs = smap f (map g xs)"
  by (induction xs) simp_all

lemma txn_rollback_ok:
  assumes txn: "resolve_txn txn e = Inr entry" and ok: "shadow_ok n (session_of e entry)"
    and ty: "well_typed (bp_fm (en_pool e))"
  shows "\<exists>e'. txn_rollback txn e = (Inr (), e') \<and> en_active e' = dict_del (txn_id (te_txn entry)) (en_active e) \<and>
    (\<forall>p. shadow_live (session_of e entry) p \<longrightarrow>
       pool_view (en_pool e') p = pool_view (en_pool e) p \<and> \<not> is_free (bp_fm (en_pool e')) p)"
proof -
  let ?s = "session_of e entry" and ?sh = "shadow_pages (te_txn entry)" and ?fm = "bp_fm (en_pool e)"
  define qs where "qs = map snd ?sh"
  have s: "ss_pool ?s = en_pool e" "shadow_of ?s p = dict_get ?sh p" for p by (simp_all add: session_of_def shadow_of_def)
  have st: "store_ok n (en_pool e)" and d: "distinct (dict_keys ?sh)" using ok s by (simp_all add: shadow_ok_def session_of_def)
  then have inv: "fm_inv ?fm" using pool_invD(1) by (auto simp: store_ok_def)
  obtain xs where xs: "free_list ?fm xs" using st by (auto simp: store_ok_def)
  have mem: "(p, q) \<in> set ?sh \<longleftrightarrow> shadow_of ?s p = Some q" for p q using d by (simp add: s(2) dict_get_Some_iff)
  have live: "pool_live (en_pool e) q" if "q \<in> set qs" for q using ok mem that s(1) by (auto simp: qs_def shadow_ok_def)
  have "inj_on snd (set ?sh)" using ok mem by (auto simp: inj_on_def shadow_ok_def)
  then have "distinct qs" using d by (auto simp: qs_def distinct_map)
  moreover have "set qs \<inter> set xs = {}" using live is_free_eq [OF xs] by (auto simp: pool_live_def)
  moreover have "\<forall>q \<in> set qs. freeable ?fm q" using live ty by (auto simp: well_typed_def pool_live_def)
  ultimately obtain fm where fm: "smap free_page qs ?fm = (Inr (replicate (length qs) ()), fm)" "free_list fm (rev qs @ xs)"
    "\<forall>q. q \<noteq> 0 \<longrightarrow> q \<notin> set qs \<longrightarrow> disk fm q = disk ?fm q"
    using fm.free_many [of ?fm xs qs] inv xs by blast
  define e1 where "e1 = drop_locks (txn_id (te_txn entry)) (e\<lparr>en_pool := (en_pool e)\<lparr>bp_fm := fm\<rparr>\<rparr>)"
  define e' where "e' = e1\<lparr>en_active := dict_del (txn_id (te_txn entry)) (en_active e1)\<rparr>"
  have m: "smap (\<lambda>(orig, shadow). free_page shadow) ?sh = smap free_page qs"
    using smap_map [of free_page snd ?sh] by (simp add: qs_def case_prod_unfold)
  have "txn_rollback txn e = (Inr (), e')"
    using txn fm(1) by (simp add: txn_rollback_def m Let_def sbind_def szoom_def e1_def e'_def)
  moreover have pool: "en_pool e' = (en_pool e)\<lparr>bp_fm := fm\<rparr>" and "en_active e' = dict_del (txn_id (te_txn entry)) (en_active e)"
    by (simp_all add: e'_def e1_def drop_locks_def Let_def)
  moreover have "pool_view (en_pool e') p = pool_view (en_pool e) p \<and> \<not> is_free (bp_fm (en_pool e')) p"
    if p: "shadow_live ?s p" for p
  proof -
    have "p \<notin> set qs" using p mem by (auto simp: qs_def shadow_live_def is_shadow_def)
    moreover have "p \<noteq> 0" "p \<notin> set xs" using p s(1) is_free_eq [OF xs] by (auto simp: shadow_live_def pool_live_def)
    ultimately show ?thesis using fm(3) is_free_eq [OF fm(2)] by (simp add: pool pool_view_def split: option.split)
  qed
  ultimately show ?thesis by blast
qed

lemma chain_live: "chain_of P L V p ps r \<Longrightarrow> q \<in> set ps \<Longrightarrow> L q"
  by (induction ps arbitrary: p) auto

section \<open>Properties\<close>

text \<open>
  C11. ROLLBACK undoes its transaction: after any sequence of INSERT and DELETE statements on a valid table without an
  index, run through the shadow pages of the only transaction, a rollback succeeds and ends the transaction; every page
  that was in use when it began reads as it did then and is still in use, so the pages of the table hold the rows they
  held. Every row inserted has a value for each column and takes at most 4060 bytes (\<open>change_fits\<close>). Of a table with an
  index it is not true: the entries are written to the pages of the index in the plain pool, and stay.
\<close>

theorem rollback_undoes_statements:
  assumes "en_active e = [(t, entry)]" and "txn_id (te_txn entry) = t" and "shadow_pages (te_txn entry) = []"
    and "store_ok (length cs * (3 * K)) (en_pool e)" and "well_typed (bp_fm (en_pool e))" and "length rows + added cs \<le> K"
    and "\<forall>c \<in> set cs. get_table tables (change_table c) = Inr tbl \<and> unindexed mgr (change_table c) \<and> change_fits tbl c"
    and "table_ok (pool_live (en_pool e)) (pool_view (en_pool e)) tbl ps"
    and "decode_rows (tbl_columns tbl) (contents (pool_view (en_pool e)) ps) = Inr rows"
    and "table_valid (tbl_columns tbl) (map snd rows)"
    and "e1 = put_session (ie_store (run_changes shadow_ops iops tables cs \<lparr>ie_store = statement_session e, ie_mgr = mgr\<rparr>)) e"
  shows "\<exists>e2. txn_rollback None e1 = (Inr (), e2) \<and> en_active e2 = [] \<and>
    (\<forall>p. pool_live (en_pool e) p \<longrightarrow> pool_view (en_pool e2) p = pool_view (en_pool e) p \<and> \<not> is_free (bp_fm (en_pool e2)) p) \<and>
    decode_rows (tbl_columns tbl) (contents (pool_view (en_pool e2)) ps) = Inr rows"
proof -
  let ?s = "statement_session e" and ?x = "\<lparr>ie_store = statement_session e, ie_mgr = mgr\<rparr>"
  let ?r = "ie_store (run_changes shadow_ops iops tables cs ?x)"
  have cur: "current_txn e = Some t" using assms(1) by (simp add: current_txn_def)
  have s: "?s = session_of e entry" using assms(1) cur by (simp add: statement_session_def)
  have sh: "shadow_of ?s p = None" "\<not> is_shadow ?s p" "resolve ?s p = p" for p
    using assms(3) by (simp_all add: s session_of_def shadow_of_def is_shadow_def resolve_def)
  have pool: "ss_pool ?s = en_pool e" by (simp add: s session_of_def)
  have lv: "shadow_live ?s = pool_live (en_pool e)" "shadow_view ?s = pool_view (en_pool e)"
    by (simp_all add: shadow_live_def shadow_view_def sh pool fun_eq_iff)
  have ok: "shadow_ok (length cs * (3 * K)) ?s" using assms(3,4) sh pool by (simp add: shadow_ok_def s session_of_def)
  then have i: "shadow_inv (originals ?s) (length cs * (3 * K) + 0) ?s \<and> typed_session t ?s"
    using shadow_inv_originals assms(5) pool by (simp add: typed_session_def s session_of_def assms(2))
  have st: "undo_stmt.stored tbl ps (ie_store ?x) rows" using assms(8,9) lv by (simp add: undo_stmt.stored_def)
  have "shadow_inv (originals ?s) 0 ?r \<and> typed_session t ?r"
    using undo_stmt.run_changes_ok [of "originals ?s" cs K 0 ?x t rows tables tbl ps iops] i assms(6,7,10) st by auto
  then have r: "shadow_inv (originals ?s) 0 ?r" "well_typed (bp_fm (ss_pool ?r))" and id: "txn_id (ss_txn ?r) = t" by (simp_all add: typed_session_def)
  let ?entry = "entry\<lparr>te_txn := ss_txn ?r\<rparr>"
  have e1: "en_active e1 = [(t, ?entry)]" "en_pool e1 = ss_pool ?r" "session_of e1 ?entry = ?r"
    using assms(1) cur by (simp_all add: assms(11) put_session_def session_of_def Let_def)
  have "resolve_txn None e1 = Inr ?entry" using e1(1) by (simp add: resolve_txn_def)
  from txn_rollback_ok [OF this, of 0] e1 r obtain e2 where
    e2: "txn_rollback None e1 = (Inr (), e2)" "en_active e2 = dict_del (txn_id (ss_txn ?r)) (en_active e1)"
      "\<forall>p. shadow_live ?r p \<longrightarrow> pool_view (en_pool e2) p = pool_view (ss_pool ?r) p \<and> \<not> is_free (bp_fm (en_pool e2)) p"
    by (auto simp: shadow_inv_def)
  have same: "pool_view (en_pool e2) p = pool_view (en_pool e) p \<and> \<not> is_free (bp_fm (en_pool e2)) p"
    if p: "pool_live (en_pool e) p" for p
  proof -
    obtain d where "pool_view (en_pool e) p = Some d"
      using shadow_live_view [OF ok, of p] p pool by auto
    from originals_kept [OF r(1), of p d] this p lv pool e2(3) show ?thesis by auto
  qed
  have "contents (pool_view (en_pool e2)) ps = contents (pool_view (en_pool e)) ps"
    using same chain_live [of data_page "pool_live (en_pool e)"] assms(8)
    by (intro contents_cong rows_at_cong) (simp add: table_ok_def, blast)
  then show ?thesis using e2 same assms(9) id e1(1) by simp
qed

theorem rollback_undoes_statements_witness:
  "\<exists>e2. txn_rollback None (put_session (ie_store (run_changes shadow_ops None [(''t'', key_meta)]
       [Add (key_insert [PInt 1, PInt 2]), Remove \<lparr>del_table = ''t'', del_where = None\<rparr>]
       \<lparr>ie_store = statement_session (demo_engine 2), ie_mgr = new_index_manager\<rparr>)) (demo_engine 2)) = (Inr (), e2) \<and>
     en_active e2 = [] \<and> decode_rows [key_col] (contents (pool_view (en_pool e2)) [1]) = Inr []"
proof -
  let ?cs = "[Add (key_insert [PInt 1, PInt 2]), Remove \<lparr>del_table = ''t'', del_where = None\<rparr>]" and ?e = "demo_engine 2"
  have "(2 :: nat) + 1 + 12 < 2 ^ 32" by simp
  note k = key_env_facts [OF this]
  have pool: "en_pool ?e = ss_pool (ie_store key_env)" by (simp add: demo_engine_facts(3) key_env_def new_session_def)
  have n: "length ?cs * (3 * 2) = 12" "length ([] :: rows) + added ?cs \<le> 2" by (simp_all add: key_insert_def)
  have "freeable (data_fm 2) p" if "0 < p" "p < 3" for p
    using that data_fm_facts(3) [of 2 p] freeable_data [of "data_fm 2" p "empty_page_data p DATA"]
    by (simp add: parses_def parse_empty_page)
  then have ty: "well_typed (bp_fm (en_pool ?e))"
    using data_fm_facts(4) [of 2] by (simp add: well_typed_def demo_engine_facts(3) new_pool_def)
  have f: "\<forall>c \<in> set ?cs. get_table [(''t'', key_meta)] (change_table c) = Inr key_table \<and>
      unindexed new_index_manager (change_table c) \<and> change_fits key_table c"
    using key_table_facts key_insert_fits [of "[1, 2]"] by (simp add: key_insert_def key_env_def)
  have v: "table_valid (tbl_columns key_table) (map snd ([] :: rows))" by (simp add: table_valid_def)
  from rollback_undoes_statements [OF demo_engine_facts(4) _ _ _ ty n(2) f _ _ v refl, of "[1]" None] k pool n(1) show ?thesis
    by (auto simp: demo_entry_def key_table_facts)
qed

end
