(* ===== verification/Csv.thy ===== *)
theory Csv
  imports Database
begin

text \<open>
  What \<open>tinydb/cli/commands.py\<close> uses of Python's \<open>csv\<close> module: the writer and the reader of the default dialect.
  The reader is the state machine of the module, which is fed with one line of the file at a time (a line ends
  with LF, CR or CRLF) and a mark for its end. A file is its text.
\<close>

section \<open>Reading\<close>

datatype csv_state = START_RECORD | START_FIELD | IN_FIELD | IN_QUOTED_FIELD | QUOTE_IN_QUOTED_FIELD | EAT_CRNL

record csv_reader =
  cr_state :: csv_state
  cr_field :: string
  cr_fields :: "string list"

definition start_reader :: csv_reader where
  "start_reader = \<lparr>cr_state = START_RECORD, cr_field = [], cr_fields = []\<rparr>"

abbreviation LF :: char where "LF \<equiv> CHR 0x0A"
abbreviation CR :: char where "CR \<equiv> CHR 0x0D"

text \<open>A character, or \<open>None\<close> for the end of a line.\<close>

definition line_end :: "char option \<Rightarrow> bool" where
  "line_end c \<longleftrightarrow> c = None \<or> c = Some LF \<or> c = Some CR"

definition FIELD_LIMIT :: nat where "FIELD_LIMIT = 131072"

definition add_char :: "char \<Rightarrow> csv_state \<Rightarrow> csv_reader \<Rightarrow> csv_reader res" where
  "add_char c st r =
     (if FIELD_LIMIT \<le> length (cr_field r) then Inl CsvError
      else Inr (r\<lparr>cr_field := cr_field r @ [c], cr_state := st\<rparr>))"

definition save_field :: "csv_state \<Rightarrow> csv_reader \<Rightarrow> csv_reader" where
  "save_field st r = r\<lparr>cr_fields := cr_fields r @ [cr_field r], cr_field := [], cr_state := st\<rparr>"

definition end_line :: "char option \<Rightarrow> csv_state" where
  "end_line c = (if c = None then START_RECORD else EAT_CRNL)"

definition start_field :: "char option \<Rightarrow> csv_reader \<Rightarrow> csv_reader res" where
  "start_field c r =
     (if line_end c then Inr (save_field (end_line c) r)
      else if c = Some dquote then Inr (r\<lparr>cr_state := IN_QUOTED_FIELD\<rparr>)
      else if c = Some CHR '','' then Inr (save_field START_FIELD r)
      else add_char (the c) IN_FIELD r)"

definition csv_step :: "char option \<Rightarrow> csv_reader \<Rightarrow> csv_reader res" where
  "csv_step c r = (case cr_state r of
     START_RECORD \<Rightarrow> if c = None then Inr r else if line_end c then Inr (r\<lparr>cr_state := EAT_CRNL\<rparr>) else start_field c r
   | START_FIELD \<Rightarrow> start_field c r
   | IN_FIELD \<Rightarrow>
       if line_end c then Inr (save_field (end_line c) r)
       else if c = Some CHR '','' then Inr (save_field START_FIELD r)
       else add_char (the c) IN_FIELD r
   | IN_QUOTED_FIELD \<Rightarrow>
       if c = None then Inr r
       else if c = Some dquote then Inr (r\<lparr>cr_state := QUOTE_IN_QUOTED_FIELD\<rparr>)
       else add_char (the c) IN_QUOTED_FIELD r
   | QUOTE_IN_QUOTED_FIELD \<Rightarrow>
       if c = Some dquote then add_char dquote IN_QUOTED_FIELD r
       else if c = Some CHR '','' then Inr (save_field START_FIELD r)
       else if line_end c then Inr (save_field (end_line c) r)
       else add_char (the c) IN_FIELD r
   | EAT_CRNL \<Rightarrow>
       if c = None then Inr (r\<lparr>cr_state := START_RECORD\<rparr>)
       else if line_end c then Inr r
       else Inl CsvError)"

text \<open>The next line of the file with its end, and what follows.\<close>

fun next_line :: "string \<Rightarrow> string \<times> string" where
  "next_line [] = ([], [])"
| "next_line (c # s) =
     (if c = LF then ([c], s)
      else if c = CR then (if take 1 s = [LF] then ([c, LF], drop 1 s) else ([c], s))
      else (case next_line s of (l, t) \<Rightarrow> (c # l, t)))"

lemma next_line_shorter: "s \<noteq> [] \<Longrightarrow> length (snd (next_line s)) < length s"
  by (induction s rule: next_line.induct) (auto split: prod.splits, (metis less_SucI snd_conv next_line.simps(1) zero_less_Suc list.size(3))+)

text \<open>One record: \<open>None\<close> at the end of the file.\<close>

function read_record :: "csv_reader \<Rightarrow> string \<Rightarrow> (string list \<times> string) option res" where
  "read_record r s =
     (if s = [] then
        Inr (if cr_field r \<noteq> [] \<or> cr_state r = IN_QUOTED_FIELD then Some (cr_fields (save_field START_RECORD r), []) else None)
      else
        rbind (rfold csv_step (map Some (fst (next_line s)) @ [None]) r) (\<lambda>r'.
          if cr_state r' = START_RECORD then Inr (Some (cr_fields r', snd (next_line s)))
          else read_record r' (snd (next_line s))))"
  by pat_completeness auto
termination by (relation "measure (length \<circ> snd)") (simp_all add: next_line_shorter)

declare read_record.simps [simp del]

lemma read_record_shorter: "read_record r s = Inr (Some (fs, t)) \<Longrightarrow> s \<noteq> [] \<Longrightarrow> length t < length s"
proof (induction r s rule: read_record.induct)
  case (1 r s)
  from 1(2,3) obtain r' where r': "rfold csv_step (map Some (fst (next_line s)) @ [None]) r = Inr r'"
    "(if cr_state r' = START_RECORD then Inr (Some (cr_fields r', snd (next_line s))) else read_record r' (snd (next_line s)))
      = Inr (Some (fs, t))"
    by (subst (asm) read_record.simps) auto
  show ?case
  proof (cases "cr_state r' = START_RECORD \<or> snd (next_line s) = []")
    case True
    then show ?thesis using r'(2) 1(3) next_line_shorter [OF 1(3)]
      by (auto simp: read_record.simps [of r' "[]"] split: if_splits)
  next
    case False
    then show ?thesis using 1(1) [OF 1(3) r'(1)] r'(2) next_line_shorter [OF 1(3)] by (auto split: if_splits)
  qed
qed

lemma read_record_end: "read_record start_reader [] = Inr None"
  by (simp add: read_record.simps start_reader_def)

section \<open>Values and rows\<close>

definition parse_value :: "string \<Rightarrow> pval" where
  "parse_value w =
     (if upper w = ''NULL'' \<or> w = '''' then PNone
      else case int_literal w of
          Some i \<Rightarrow> PInt i
        | None \<Rightarrow> (case float_literal w of Some x \<Rightarrow> PFloat x | None \<Rightarrow> PStr w))"

type_synonym data_row = "(string, pval) dict"

definition dict_of :: "(string \<times> 'a) list \<Rightarrow> (string, 'a) dict" where
  "dict_of kvs = fold (\<lambda>(k, v). dict_set k v) kvs []"

text \<open>
  A row of \<open>DictReader\<close>: with a field too many there is a key \<open>None\<close>, with a field too few a value \<open>None\<close>, and
  neither has a method \<open>strip\<close>.
\<close>

definition csv_row :: "string list \<Rightarrow> string list \<Rightarrow> data_row res" where
  "csv_row header cells =
     (if length cells \<noteq> length header then Inl AttributeError
      else Inr (dict_of (map (\<lambda>(k, v). (strip k, parse_value (strip v))) (dict_of (zip header cells)))))"

text \<open>Empty lines are skipped.\<close>

function csv_rows :: "string list \<Rightarrow> string \<Rightarrow> data_row list res" where
  "csv_rows header s =
     (if s = [] then Inr []
      else
        rbind (read_record start_reader s) (\<lambda>rec. case rec of
          None \<Rightarrow> Inr []
        | Some (cells, t) \<Rightarrow>
            if cells = [] then csv_rows header t
            else rbind (csv_row header cells) (\<lambda>d. rbind (csv_rows header t) (\<lambda>ds. Inr (d # ds)))))"
  by pat_completeness auto
termination by (relation "measure (length \<circ> snd)") (auto simp: read_record_shorter)

declare csv_rows.simps [simp del]

text \<open>\<open>_read_csv\<close>, on the text of the file.\<close>

definition read_csv :: "string \<Rightarrow> data_row list res" where
  "read_csv s =
     rbind (read_record start_reader s) (\<lambda>rec. case rec of
       None \<Rightarrow> Inr []
     | Some (header, t) \<Rightarrow> csv_rows header t)"

section \<open>Writing\<close>

definition csv_special :: "char \<Rightarrow> bool" where
  "csv_special c \<longleftrightarrow> c = CHR '','' \<or> c = dquote \<or> c = CR \<or> c = LF"

definition double_quotes :: "string \<Rightarrow> string" where
  "double_quotes f = concat (map (\<lambda>c. if c = dquote then [dquote, dquote] else [c]) f)"

definition csv_field :: "string \<Rightarrow> string" where
  "csv_field f = (if list_ex csv_special f then dquote # double_quotes f @ [dquote] else f)"

definition csv_record :: "string list \<Rightarrow> string" where
  "csv_record cells = (if cells = [[]] then [dquote, dquote] else join_with '','' (map csv_field cells))"

fun csv_cell :: "pval \<Rightarrow> string" where
  "csv_cell PNone = ''''"
| "csv_cell (PStr w) = w"
| "csv_cell v = value_repr v"

definition format_csv :: "string list \<Rightarrow> pval list list \<Rightarrow> string" where
  "format_csv columns rows =
     rstrip_if (\<lambda>c. c = CR \<or> c = LF) (concat (map (\<lambda>fs. csv_record fs @ [CR, LF]) (columns # map (map csv_cell) rows)))"

section \<open>The reader on what was written\<close>

abbreviation reader :: "csv_state \<Rightarrow> string \<Rightarrow> string list \<Rightarrow> csv_reader" where
  "reader st f fs \<equiv> \<lparr>cr_state = st, cr_field = f, cr_fields = fs\<rparr>"

definition after_line :: "csv_reader \<Rightarrow> string \<Rightarrow> (string list \<times> string) option res" where
  "after_line r t = (if cr_state r = START_RECORD then Inr (Some (cr_fields r, t)) else read_record r t)"

text \<open>Reading on in the middle of a line.\<close>

definition reading :: "csv_reader \<Rightarrow> string \<Rightarrow> (string list \<times> string) option res" where
  "reading r s =
     rbind (rfold csv_step (map Some (fst (next_line s)) @ [None]) r) (\<lambda>r'. after_line r' (snd (next_line s)))"

lemma read_record_reading: "s \<noteq> [] \<Longrightarrow> read_record r s = reading r s"
  by (simp add: reading_def after_line_def read_record.simps [of r s])

lemma reading_char: "c \<noteq> CR \<Longrightarrow> c \<noteq> LF \<Longrightarrow> reading r (c # s) = rbind (csv_step (Some c) r) (\<lambda>r'. reading r' s)"
proof -
  assume "c \<noteq> CR" "c \<noteq> LF"
  then have "next_line (c # s) = (c # fst (next_line s), snd (next_line s))" by (simp split: prod.split)
  then show ?thesis by (cases "csv_step (Some c) r") (simp_all add: reading_def del: next_line.simps)
qed

lemma reading_in_quotes:
  assumes "c \<noteq> dquote" and "length f < FIELD_LIMIT" and "s \<noteq> []"
  shows "reading (reader IN_QUOTED_FIELD f fs) (c # s) = reading (reader IN_QUOTED_FIELD (f @ [c]) fs) s"
proof -
  have step: "csv_step (Some c) (reader IN_QUOTED_FIELD f fs) = Inr (reader IN_QUOTED_FIELD (f @ [c]) fs)"
    using assms by (simp add: csv_step_def add_char_def)
  have e: "csv_step None (reader IN_QUOTED_FIELD g fs) = Inr (reader IN_QUOTED_FIELD g fs)" for g
    by (simp add: csv_step_def)
  consider "c \<noteq> CR" "c \<noteq> LF" | "c = LF \<or> c = CR \<and> take 1 s \<noteq> [LF]" | t where "c = CR" "s = LF # t"
    using assms(3) by (cases s) auto
  then show ?thesis
  proof cases
    case 1
    then show ?thesis by (simp add: reading_char step)
  next
    case 2
    then have "next_line (c # s) = ([c], s)" by auto
    then show ?thesis
      by (simp add: reading_def [of _ "c # s"] after_line_def step e read_record_reading assms(3) del: next_line.simps)
  next
    case 3
    then have "next_line (c # s) = ([c, LF], t)" "next_line s = ([LF], t)" by simp_all
    then show ?thesis using step 3(1) by (simp add: reading_def del: next_line.simps)
  qed
qed

lemma reading_quoted:
  "length (f @ w) \<le> FIELD_LIMIT \<Longrightarrow>
    reading (reader IN_QUOTED_FIELD f fs) (double_quotes w @ dquote # s) = reading (reader QUOTE_IN_QUOTED_FIELD (f @ w) fs) s"
proof (induction w arbitrary: f)
  case Nil
  then show ?case by (simp add: double_quotes_def reading_char csv_step_def dquote_def)
next
  case (Cons c w)
  have l: "length f < FIELD_LIMIT" "length ((f @ [c]) @ w) \<le> FIELD_LIMIT" using Cons.prems by simp_all
  show ?case
  proof (cases "c = dquote")
    case True
    have "double_quotes (c # w) = dquote # dquote # double_quotes w" using True by (simp add: double_quotes_def)
    moreover have "reading (reader IN_QUOTED_FIELD f fs) (dquote # dquote # t) = reading (reader IN_QUOTED_FIELD (f @ [dquote]) fs) t" for t
      using l(1) by (simp add: reading_char csv_step_def add_char_def dquote_def)
    ultimately show ?thesis using Cons.IH [OF l(2)] True by simp
  next
    case False
    have "double_quotes (c # w) = c # double_quotes w" using False by (simp add: double_quotes_def)
    then show ?thesis using Cons.IH [OF l(2)] reading_in_quotes [OF False l(1)] by simp
  qed
qed

lemma reading_plain:
  "\<not> list_ex csv_special w \<Longrightarrow> length (f @ w) \<le> FIELD_LIMIT \<Longrightarrow>
    reading (reader IN_FIELD f fs) (w @ s) = reading (reader IN_FIELD (f @ w) fs) s"
proof (induction w arbitrary: f)
  case (Cons c w)
  have "reading (reader IN_FIELD f fs) (c # w @ s) = reading (reader IN_FIELD (f @ [c]) fs) (w @ s)"
    using Cons.prems by (simp add: reading_char csv_step_def add_char_def line_end_def csv_special_def)
  then show ?case using Cons by simp
qed simp

definition field_read :: "csv_state \<Rightarrow> string \<Rightarrow> bool" where
  "field_read st f \<longleftrightarrow> st = IN_FIELD \<or> st = QUOTE_IN_QUOTED_FIELD \<or> st = START_FIELD \<and> f = []"

lemma reading_field:
  assumes "length f \<le> FIELD_LIMIT"
  obtains st where "field_read st f"
    "\<And>s. reading (reader START_FIELD [] fs) (csv_field f @ s) = reading (reader st f fs) s"
proof (cases "list_ex csv_special f")
  case True
  have "reading (reader START_FIELD [] fs) (csv_field f @ s) = reading (reader QUOTE_IN_QUOTED_FIELD f fs) s" for s
    using reading_quoted [of "[]" f fs s] assms True
    by (simp add: csv_field_def reading_char csv_step_def start_field_def line_end_def dquote_def)
  then show thesis by (intro that) (simp_all add: field_read_def)
next
  case False
  show thesis
  proof (cases f)
    case Nil
    then show thesis by (intro that [of START_FIELD]) (simp_all add: field_read_def csv_field_def)
  next
    case (Cons c w)
    have "reading (reader START_FIELD [] fs) (csv_field f @ s) = reading (reader IN_FIELD f fs) s" for s
      using reading_plain [of w "[c]" fs s] assms False Cons
      by (simp add: csv_field_def reading_char csv_step_def start_field_def add_char_def line_end_def csv_special_def)
    then show thesis by (intro that [of IN_FIELD]) (simp_all add: field_read_def)
  qed
qed

lemma reading_comma:
  "field_read st f \<Longrightarrow> reading (reader st f fs) (CHR '','' # s) = reading (reader START_FIELD [] (fs @ [f])) s"
  by (auto simp: field_read_def reading_char csv_step_def start_field_def save_field_def line_end_def dquote_def)

lemma reading_end:
  assumes "field_read st f"
  shows "reading (reader st f fs) [] = Inr (Some (fs @ [f], []))"
    and "reading (reader st f fs) (CR # LF # s) = Inr (Some (fs @ [f], s))"
  using assms by (auto simp: field_read_def reading_def after_line_def csv_step_def start_field_def save_field_def line_end_def end_line_def dquote_def)

text \<open>What may stand behind a record, and what is left then.\<close>

definition record_end :: "string \<Rightarrow> string \<Rightarrow> bool" where
  "record_end e t \<longleftrightarrow> e = [] \<and> t = [] \<or> e = CR # LF # t"

lemma reading_fields:
  "cells \<noteq> [] \<Longrightarrow> \<forall>f \<in> set cells. length f \<le> FIELD_LIMIT \<Longrightarrow> record_end e t \<Longrightarrow>
    reading (reader START_FIELD [] fs) (join_with '','' (map csv_field cells) @ e) = Inr (Some (fs @ cells, t))"
proof (induction cells arbitrary: fs)
  case (Cons f cells)
  from Cons.prems(2) obtain st where st: "field_read st f"
    "\<And>s. reading (reader START_FIELD [] fs) (csv_field f @ s) = reading (reader st f fs) s"
    using reading_field [of f fs thesis] by auto
  show ?case
  proof (cases cells)
    case Nil
    then show ?thesis using st Cons.prems(3) reading_end [OF st(1)] by (auto simp: record_end_def)
  next
    case (Cons g gs)
    then have j: "join_with '','' (map csv_field (f # cells)) = csv_field f @ CHR '','' # join_with '','' (map csv_field cells)"
      by simp
    have "reading (reader START_FIELD [] (fs @ [f])) (join_with '','' (map csv_field cells) @ e) = Inr (Some ((fs @ [f]) @ cells, t))"
      using Cons.IH Cons.prems Cons by simp
    then show ?thesis unfolding j using st reading_comma [OF st(1)] by simp
  qed
qed simp

definition sound_ends :: "string \<Rightarrow> bool" where
  "sound_ends s \<longleftrightarrow> s \<noteq> [] \<and> hd s \<noteq> CR \<and> hd s \<noteq> LF \<and> last s \<noteq> CR \<and> last s \<noteq> LF"

lemma csv_field_ends: "f \<noteq> [] \<Longrightarrow> sound_ends (csv_field f)"
proof -
  assume f: "f \<noteq> []"
  show ?thesis
  proof (cases "list_ex csv_special f")
    case True
    then show ?thesis by (simp add: csv_field_def sound_ends_def dquote_def)
  next
    case False
    then have "\<forall>c \<in> set f. c \<noteq> CR \<and> c \<noteq> LF" by (auto simp: list_ex_iff csv_special_def)
    then show ?thesis using f False by (simp add: csv_field_def sound_ends_def)
  qed
qed

lemma csv_fields_ends: "cells \<noteq> [] \<Longrightarrow> cells \<noteq> [[]] \<Longrightarrow> sound_ends (join_with '','' (map csv_field cells))"
proof (induction cells)
  case (Cons f gs)
  show ?case
  proof (cases gs)
    case Nil
    then show ?thesis using csv_field_ends [of f] Cons.prems by simp
  next
    case (Cons h hs)
    let ?j = "join_with '','' (map csv_field gs)"
    have j: "join_with '','' (map csv_field (f # gs)) = csv_field f @ CHR '','' # ?j" using Cons by simp
    have l: "?j = [] \<or> sound_ends ?j" proof (cases "gs = [[]]")
      case True
      then show ?thesis by (simp add: csv_field_def)
    next
      case False
      then show ?thesis using Cons.IH Cons by blast
    qed
    have "csv_field f = [] \<or> sound_ends (csv_field f)" using csv_field_ends [of f] by (cases "f = []") (simp_all add: csv_field_def)
    then show ?thesis unfolding j using l by (auto simp: sound_ends_def hd_append)
  qed
qed simp

lemma csv_record_ends: "cells \<noteq> [] \<Longrightarrow> sound_ends (csv_record cells)"
  using csv_fields_ends [of cells] by (auto simp: csv_record_def sound_ends_def dquote_def)

definition storable :: "string list \<Rightarrow> bool" where
  "storable cells \<longleftrightarrow> cells \<noteq> [] \<and> (\<forall>f \<in> set cells. length f \<le> FIELD_LIMIT)"

lemma read_written:
  assumes "storable cells" and "record_end e t"
  shows "read_record start_reader (csv_record cells @ e) = Inr (Some (cells, t))"
proof (cases "cells = [[]]")
  case True
  have "reading (reader START_RECORD [] []) (dquote # dquote # e) = reading (reader QUOTE_IN_QUOTED_FIELD [] []) e"
    by (simp add: reading_char csv_step_def start_field_def line_end_def dquote_def)
  then show ?thesis using True assms(2) reading_end [of QUOTE_IN_QUOTED_FIELD "[]" "[]"]
    by (auto simp: csv_record_def read_record_reading start_reader_def field_read_def record_end_def)
next
  case False
  from assms(1) obtain c u where c: "csv_record cells = c # u" "c \<noteq> CR" "c \<noteq> LF"
    using csv_record_ends [of cells] by (cases "csv_record cells") (auto simp: storable_def sound_ends_def)
  have "reading start_reader (c # v) = reading (reader START_FIELD [] []) (c # v)" for v
    using c by (simp add: reading_char csv_step_def start_reader_def line_end_def start_field_def add_char_def save_field_def)
  then have "read_record start_reader (csv_record cells @ e) = reading (reader START_FIELD [] []) (csv_record cells @ e)"
    using c by (simp add: read_record_reading)
  then show ?thesis using reading_fields [of cells e t "[]"] assms False by (simp add: storable_def csv_record_def)
qed

definition csv_file :: "string list list \<Rightarrow> string" where
  "csv_file recs = join_with [CR, LF] (map csv_record recs)"

lemma csv_file_Cons:
  "csv_file (r # recs) = csv_record r @ (if recs = [] then [] else CR # LF # csv_file recs)"
  by (cases recs) (simp_all add: csv_file_def)

lemma csv_file_stripped:
  assumes "recs \<noteq> []" and "\<forall>r \<in> set recs. r \<noteq> []"
  shows "rstrip_if (\<lambda>c. c = CR \<or> c = LF) (concat (map (\<lambda>fs. csv_record fs @ [CR, LF]) recs)) = csv_file recs"
proof -
  have c: "concat (map (\<lambda>fs. csv_record fs @ [CR, LF]) recs) = csv_file recs @ [CR, LF]"
    using assms(1) by (induction recs rule: list_nonempty_induct) (simp_all add: csv_file_Cons csv_file_def [of "[]"])
  have "sound_ends (csv_file recs)"
    using assms
  proof (induction recs rule: list_nonempty_induct)
    case (single r)
    then show ?case using csv_record_ends [of r] by (simp add: csv_file_Cons)
  next
    case (cons r recs)
    then show ?case using csv_record_ends [of r] by (simp add: csv_file_Cons sound_ends_def)
  qed
  then have "rev (csv_file recs) \<noteq> []" "hd (rev (csv_file recs)) \<noteq> CR" "hd (rev (csv_file recs)) \<noteq> LF"
    by (simp_all add: sound_ends_def hd_rev)
  then show ?thesis unfolding c by (cases "rev (csv_file recs)") (auto simp: rstrip_if_def)
qed

lemma csv_rows_file:
  "\<forall>r \<in> set recs. storable r \<and> length r = length header \<Longrightarrow> recs \<noteq> [] \<Longrightarrow>
    csv_rows header (csv_file recs) = rmap (csv_row header) recs"
proof (induction recs)
  case (Cons r recs)
  from Cons.prems have r: "storable r" "r \<noteq> []" by (simp_all add: storable_def)
  define t where "t = (if recs = [] then [] else csv_file recs)"
  obtain e where e: "csv_file (r # recs) = csv_record r @ e" "record_end e t"
    by (auto simp: t_def record_end_def csv_file_Cons)
  have "csv_record r \<noteq> []" using csv_record_ends [OF r(2)] by (simp add: sound_ends_def)
  moreover have "csv_rows header t = rmap (csv_row header) recs"
    using Cons by (cases "recs = []") (simp_all add: t_def csv_rows.simps)
  ultimately show ?case using read_written [OF r(1) e(2)] r(2) e(1) by (simp add: csv_rows.simps [of header "csv_record r @ e"])
qed simp

lemma read_csv_file:
  assumes "storable header" and "\<forall>r \<in> set recs. storable r \<and> length r = length header"
  shows "read_csv (csv_file (header # recs)) = rmap (csv_row header) recs"
proof (cases "recs = []")
  case True
  then show ?thesis using read_written [OF assms(1), of "[]" "[]"]
    by (simp add: csv_file_Cons read_csv_def record_end_def csv_rows.simps)
next
  case False
  then have "csv_file (header # recs) = csv_record header @ CR # LF # csv_file recs" by (simp add: csv_file_Cons)
  then show ?thesis using read_written [OF assms(1), of _ "csv_file recs"] csv_rows_file [OF assms(2) False]
    by (simp add: read_csv_def record_end_def)
qed

section \<open>A dump that is read back\<close>

lemma dict_of_distinct: "distinct (map fst kvs) \<Longrightarrow> dict_of kvs = kvs"
proof -
  have "distinct (map fst (d @ kvs)) \<Longrightarrow> fold (\<lambda>(k, v). dict_set k v) kvs d = d @ kvs" for d
  proof (induction kvs arbitrary: d)
    case (Cons kv kvs)
    then show ?case using Cons.IH [of "d @ [kv]"] by (cases kv) (simp add: dict_set_new)
  qed simp
  from this [of "[]"] show "distinct (map fst kvs) \<Longrightarrow> dict_of kvs = kvs" by (simp add: dict_of_def)
qed

text \<open>
  The values that come back as they were: texts with white space at an end, empty texts and texts that read as
  a number or as NULL do not, and neither do truth values.
\<close>

fun importable :: "pval \<Rightarrow> bool" where
  "importable PNone = True"
| "importable (PInt i) = (length (nat_str (nat \<bar>i\<bar>)) \<le> 4300)"
| "importable (PStr w) =
     (strip w = w \<and> w \<noteq> '''' \<and> upper w \<noteq> ''NULL'' \<and> int_literal w = None \<and> float_literal w = None \<and> length w \<le> FIELD_LIMIT)"
| "importable v = False"

lemma int_str_chars: "c \<in> set (int_str i) \<Longrightarrow> c = CHR ''-'' \<or> is_decimal c"
  using nat_str_digits by (auto simp: int_str_def is_decimal_def split: if_splits)

lemma int_str_plain:
  assumes "c \<in> set (int_str i)"
  shows "c \<noteq> CHR ''_'' \<and> \<not> py_space c \<and> upper_char c = [c] \<and> c \<noteq> CHR ''N''"
proof -
  have "(of_char c :: nat) = 45 \<or> 48 \<le> (of_char c :: nat) \<and> (of_char c :: nat) \<le> 57"
    using int_str_chars [OF assms] by (auto simp: is_decimal_def Let_def)
  then show ?thesis by (auto simp: py_space_def upper_char_def Let_def)
qed

lemma drop_underscores_none: "\<forall>c \<in> set s. c \<noteq> CHR ''_'' \<Longrightarrow> p \<noteq> CHR ''_'' \<Longrightarrow> drop_underscores p s = Some s"
  by (induction s arbitrary: p) auto

lemma int_literal_str: "importable (PInt i) \<Longrightarrow> int_literal (int_str i) = Some i"
proof -
  assume i: "importable (PInt i)"
  have d: "list_all is_decimal (nat_str n)" for n using nat_str_digits by (auto simp: list_all_iff is_decimal_def Let_def)
  have u: "drop_underscores (CHR 0x00) (int_str i) = Some (int_str i)"
    using int_str_plain [of _ i] by (intro drop_underscores_none) auto
  have "hd (nat_str n) \<noteq> CHR ''-'' \<and> hd (nat_str n) \<noteq> CHR ''+''" for n
    using d [of n] by (cases "nat_str n") (auto simp: is_decimal_def)
  then have "take_sign (nat_str n) = (False, nat_str n)" for n
    by (cases "nat_str n") (simp_all add: take_sign_def, metis list.sel(1))
  then have "take_sign (int_str i) = (i < 0, nat_str (nat \<bar>i\<bar>))" by (auto simp: int_str_def take_sign_def)
  then show ?thesis using u d i by (simp add: int_literal_def signed_int_def)
qed

lemma importable_back:
  assumes "importable v"
  shows "parse_value (strip (csv_cell v)) = v" and "length (csv_cell v) \<le> FIELD_LIMIT"
proof -
  show "length (csv_cell v) \<le> FIELD_LIMIT" using assms by (cases v) (auto simp: FIELD_LIMIT_def int_str_def)
  show "parse_value (strip (csv_cell v)) = v"
  proof (cases v)
    case PNone
    then show ?thesis by (simp add: parse_value_def strip_def rstrip_if_def)
  next
    case (PInt i)
    have p: "\<not> py_space c \<and> upper_char c = [c] \<and> c \<noteq> CHR ''N''" if "c \<in> set (int_str i)" for c
      using int_str_plain [OF that] by blast
    have ne: "int_str i \<noteq> ''''" by (simp add: int_str_def)
    have "dropWhile py_space (int_str i) = int_str i" "dropWhile py_space (rev (int_str i)) = rev (int_str i)"
      using p ne by (simp_all add: dropWhile_eq_self_iff hd_rev)
    then have s: "strip (int_str i) = int_str i" by (simp add: strip_def rstrip_if_def)
    have "concat (map upper_char w) = w" if "\<forall>c \<in> set w. upper_char c = [c]" for w using that by (induction w) auto
    then have "upper (int_str i) = int_str i" unfolding upper_def using p by blast
    moreover have "int_str i \<noteq> ''NULL''" using p [of "CHR ''N''"] by auto
    moreover note ne
    ultimately show ?thesis using PInt assms s int_literal_str [of i] by (simp add: parse_value_def)
  next
    case (PStr w)
    then show ?thesis using assms by (simp add: parse_value_def)
  qed (use assms in simp_all)
qed

lemma read_format_csv:
  assumes "columns \<noteq> []" and "distinct columns" and "\<forall>c \<in> set columns. strip c = c \<and> length c \<le> FIELD_LIMIT"
    and "\<forall>row \<in> set rows. length row = length columns \<and> (\<forall>v \<in> set row. importable v)"
  shows "read_csv (format_csv columns rows) = Inr (map (zip columns) rows)"
proof -
  let ?recs = "map (map csv_cell) rows"
  have ok: "storable columns" "\<forall>r \<in> set ?recs. storable r \<and> length r = length columns"
    using assms importable_back(2) by (auto simp: storable_def)
  have "csv_row columns (map csv_cell row) = Inr (zip columns row)" if "row \<in> set rows" for row
  proof -
    have l: "length row = length columns" and v: "\<forall>v \<in> set row. importable v" using assms(4) that by auto
    have "map (\<lambda>(k, v). (strip k, parse_value (strip v))) (zip columns (map csv_cell row)) = zip columns row"
      using assms(3) l v importable_back(1) by (intro nth_equalityI) simp_all
    then show ?thesis using assms(2) l by (simp add: csv_row_def dict_of_distinct)
  qed
  then have "rmap (csv_row columns) ?recs = Inr (map (zip columns) rows)"
    by (induction rows) auto
  moreover have "format_csv columns rows = csv_file (columns # ?recs)"
    using csv_file_stripped [of "columns # ?recs"] ok by (auto simp: format_csv_def storable_def)
  ultimately show ?thesis using read_csv_file [OF ok] by simp
qed

end
