(* ===== verification/Commands.thy ===== *)
theory Commands
  imports Csv
begin

text \<open>
  \<open>tinydb/cli/commands.py\<close>: the dot-commands of the shell that have a handler of their own. The file system is a
  dict from paths to texts; every file in it can be read, and every path can be written. A reply is a text, or
  the text of an exception behind \<open>Error: \<close>.
\<close>

section \<open>State\<close>

record command_handler =
  ch_db :: database
  ch_files :: "(string, string) dict"
  timing_enabled :: bool
  highlight_enabled :: bool

definition new_handler :: "database \<Rightarrow> (string, string) dict \<Rightarrow> command_handler" where
  "new_handler d files = \<lparr>ch_db = d, ch_files = files, timing_enabled = False, highlight_enabled = True\<rparr>"

datatype reply = Text string | Problem err

abbreviation on_db :: "(database, 'a) st \<Rightarrow> (command_handler, 'a) st" where
  "on_db \<equiv> szoom ch_db (\<lambda>d h. h\<lparr>ch_db := d\<rparr>)"

text \<open>\<open>except Exception as e: return f"Error: {e}"\<close>; what does not end is not caught.\<close>

definition is_exception :: "err \<Rightarrow> bool" where
  "is_exception e \<longleftrightarrow> e \<noteq> NonTermination"

definition or_problem :: "('s, reply) st \<Rightarrow> ('s, reply) st" where
  "or_problem m s = (case m s of
     (Inr x, t) \<Rightarrow> (Inr x, t)
   | (Inl e, t) \<Rightarrow> if is_exception e then (Inr (Problem e), t) else (Inl e, t))"

section \<open>.explain\<close>

definition list_repr :: "string list \<Rightarrow> string" where
  "list_repr ws = ''['' @ join_with '', '' ws @ '']''"

fun op_name :: "operator \<Rightarrow> string" where
  "op_name (ScanOperator tbl) = ''Scan''"
| "op_name (NestedLoopJoinOperator l r j) = ''NestedLoopJoin''"
| "op_name (HashJoinOperator l r j) = ''HashJoin''"
| "op_name (SortMergeJoinOperator l r j) = ''SortMergeJoin''"
| "op_name (FilterOperator src e) = ''Filter''"
| "op_name (ProjectOperator src cols) = ''Project''"
| "op_name (AggregateOperator src keys aggs) = ''Aggregate''"
| "op_name (SortOperator src keys) = ''Sort''"
| "op_name (LimitOperator src n off) = ''Limit''"

definition sort_key_repr :: "expr \<times> string \<Rightarrow> string" where
  "sort_key_repr k = ''('' @ expr_repr (fst k) @ '', '' @ str_repr (snd k) @ '')''"

fun describe_op :: "operator \<Rightarrow> string" where
  "describe_op (ScanOperator tbl) = ''table='' @ table_name tbl"
| "describe_op (FilterOperator src e) = ''condition='' @ expr_repr e"
| "describe_op (ProjectOperator src cols) = ''columns='' @ list_repr (map fst cols)"
| "describe_op (AggregateOperator src keys aggs) = ''groups='' @ list_repr (map expr_repr keys)"
| "describe_op (SortOperator src keys) = ''keys='' @ list_repr (map sort_key_repr keys)"
| "describe_op (LimitOperator src n off) =
     ''limit='' @ (case n of None \<Rightarrow> ''None'' | Some k \<Rightarrow> nat_str k) @ '', offset='' @ nat_str off"
| "describe_op _ = ''''"

text \<open>The attribute \<open>source\<close>; the joins have \<open>left_op\<close> and \<open>right_op\<close> instead.\<close>

fun get_child :: "operator \<Rightarrow> operator option" where
  "get_child (FilterOperator src e) = Some src"
| "get_child (ProjectOperator src cols) = Some src"
| "get_child (AggregateOperator src keys aggs) = Some src"
| "get_child (SortOperator src keys) = Some src"
| "get_child (LimitOperator src n off) = Some src"
| "get_child _ = None"

lemma get_child_size [termination_simp]: "get_child x = Some y \<Longrightarrow> size y < size x"
  by (cases x) auto

definition plan_line :: "nat \<Rightarrow> string \<Rightarrow> string \<Rightarrow> string" where
  "plan_line indent name detail =
     replicate (2 * indent) CHR '' '' @ name @ (if detail = '''' then '''' else '' ['' @ detail @ '']'')"

fun format_plan :: "operator \<Rightarrow> nat \<Rightarrow> string list" where
  "format_plan x indent =
     plan_line indent (op_name x) (describe_op x) #
       (case get_child x of None \<Rightarrow> [] | Some y \<Rightarrow> format_plan y (indent + 1))"

declare format_plan.simps [simp del]

fun stmt_name :: "statement \<Rightarrow> string" where
  "stmt_name (Select q) = ''SelectStatement''"
| "stmt_name (Insert i) = ''InsertStatement''"
| "stmt_name (Update u) = ''UpdateStatement''"
| "stmt_name (Delete d) = ''DeleteStatement''"
| "stmt_name (CreateTable c) = ''CreateTableStatement''"
| "stmt_name (DropTable t) = ''DropTableStatement''"

fun plan_lines :: "plan \<Rightarrow> string list" where
  "plan_lines (QueryPlan x) = format_plan x 0"
| "plan_lines (DmlPlan stmt) = [plan_line 0 ''Dml'' (stmt_name stmt)]"
| "plan_lines (CreatePlan c) = [plan_line 0 ''CreateTable'' (''table='' @ create_table_name c)]"
| "plan_lines (DropPlan t) = [plan_line 0 ''DropTable'' (''table='' @ t)]"

definition explain :: "string \<Rightarrow> (command_handler, reply) st" where
  "explain sql = or_problem (
     sbind (slift (parse_sql sql)) (\<lambda>stmt h.
       sbind (on_db (\<lambda>d. on_session (plan_statement (db_tables d) stmt) d)) (\<lambda>p.
         sret (Text (join_with [LF] (plan_lines p)))) h))"

section \<open>.timing and .highlight\<close>

definition on_off :: "bool \<Rightarrow> string" where
  "on_off b = (if b then ''on'' else ''off'')"

definition timing :: "string \<Rightarrow> (command_handler, reply) st" where
  "timing arg h =
     (let a = lower (strip arg) in
      if a = ''on'' then (Inr (Text ''Timing enabled.''), h\<lparr>timing_enabled := True\<rparr>)
      else if a = ''off'' then (Inr (Text ''Timing disabled.''), h\<lparr>timing_enabled := False\<rparr>)
      else (Inr (Text (''Timing is '' @ on_off (timing_enabled h) @ ''. Usage: .timing on|off'')), h))"

definition highlight :: "string \<Rightarrow> (command_handler, reply) st" where
  "highlight arg h =
     (let a = lower (strip arg) in
      if a = ''on'' then (Inr (Text ''Highlighting enabled.''), h\<lparr>highlight_enabled := True\<rparr>)
      else if a = ''off'' then (Inr (Text ''Highlighting disabled.''), h\<lparr>highlight_enabled := False\<rparr>)
      else (Inr (Text (''Highlighting is '' @ on_off (highlight_enabled h) @ ''. Usage: .highlight on|off'')), h))"

section \<open>.import\<close>

text \<open>\<open>os.path.splitext(path)[1]\<close>: dots in front of a file name start no extension.\<close>

definition path_ext :: "string \<Rightarrow> string" where
  "path_ext path =
     (let base = rev (takeWhile (\<lambda>c. c \<noteq> CHR ''/'') (rev path));
          ext = rev (takeWhile (\<lambda>c. c \<noteq> CHR ''.'') (rev base));
          front = take (length base - length ext - 1) base
      in if CHR ''.'' \<in> set base \<and> (\<exists>c \<in> set front. c \<noteq> CHR ''.'') then CHR ''.'' # ext else '''')"

text \<open>\<open>_read_json\<close>: an array, or one object.\<close>

definition read_json :: "string \<Rightarrow> json list res" where
  "read_json s = rbind (loads s) (\<lambda>j. case j of
     JArr js \<Rightarrow> Inr js
   | JObj kvs \<Rightarrow> Inr [JObj kvs]
   | _ \<Rightarrow> Inl ValueError)"

fun json_of_value :: "pval \<Rightarrow> json" where
  "json_of_value PNone = JNull"
| "json_of_value (PBool b) = JBool b"
| "json_of_value (PStr w) = JStr w"
| "json_of_value v = JNum v"

definition csv_objects :: "string \<Rightarrow> json list res" where
  "csv_objects s = rbind (read_csv s) (\<lambda>ds. Inr (map (\<lambda>d. JObj (map (\<lambda>(k, v). (k, json_of_value v)) d)) ds))"

definition read_rows :: "string \<Rightarrow> string \<Rightarrow> json list res" where
  "read_rows ext s =
     (if ext = ''.csv'' then csv_objects s
      else if ext = ''.json'' then read_json s
      else case csv_objects s of Inr js \<Rightarrow> Inr js | Inl e \<Rightarrow> read_json s)"

text \<open>\<open>str\<close> of what a JSON text denotes.\<close>

fun json_repr :: "json \<Rightarrow> string" where
  "json_repr JNull = ''None''"
| "json_repr (JBool b) = bool_repr b"
| "json_repr (JStr w) = str_repr w"
| "json_repr (JNum v) = value_repr v"
| "json_repr (JArr js) = list_repr (map json_repr js)"
| "json_repr (JObj kvs) =
     ''{'' @ join_with '', '' (map (\<lambda>(k, v). str_repr k @ '': '' @ v) (dict_of (map (\<lambda>(k, v). (k, json_repr v)) kvs))) @ ''}''"

text \<open>The text of a value in the INSERT; the quotes inside of a text are not doubled.\<close>

fun sql_value :: "json \<Rightarrow> string" where
  "sql_value JNull = ''NULL''"
| "sql_value (JStr w) = CHR 0x27 # w @ [CHR 0x27]"
| "sql_value j = json_repr j"

fun members :: "json \<Rightarrow> (string \<times> json) list res" where
  "members (JObj kvs) = Inr (dict_of kvs)"
| "members _ = Inl AttributeError"

definition row_values :: "string list \<Rightarrow> json \<Rightarrow> string list res" where
  "row_values cols j = rbind (members j) (\<lambda>d.
     Inr (map (\<lambda>c. case dict_get d c of None \<Rightarrow> ''NULL'' | Some v \<Rightarrow> sql_value v) cols))"

definition insert_text :: "string \<Rightarrow> string list \<Rightarrow> string" where
  "insert_text table vs = ''INSERT INTO '' @ table @ '' VALUES ('' @ join_with '', '' vs @ '')''"

fun import_rows :: "nat \<Rightarrow> string \<Rightarrow> string list \<Rightarrow> json list \<Rightarrow> nat \<Rightarrow> (database, nat) st" where
  "import_rows fuel table cols [] n = sret n"
| "import_rows fuel table cols (j # js) n =
     sbind (slift (row_values cols j)) (\<lambda>vs.
     sbind (execute fuel (insert_text table vs)) (\<lambda>_.
       import_rows fuel table cols js (n + 1)))"

definition import_file :: "nat \<Rightarrow> string \<Rightarrow> (command_handler, reply) st" where
  "import_file fuel arg h = (case words_of [] (strip arg) of
     table # path # _ \<Rightarrow>
       (case dict_get (ch_files h) path of
          None \<Rightarrow> (Inr (Text (''Error: file not found: '' @ path)), h)
        | Some content \<Rightarrow> or_problem (
            sbind (slift (read_rows (lower (path_ext path)) content)) (\<lambda>js. case js of
              [] \<Rightarrow> sret (Text ''Error: no data found in file'')
            | j # _ \<Rightarrow>
                sbind (slift (members j)) (\<lambda>d.
                sbind (on_db (import_rows fuel table (dict_keys d) js 0)) (\<lambda>n.
                  sret (Text (nat_str n @ '' rows imported into '' @ table)))))) h)
   | _ \<Rightarrow> (Inr (Text ''Usage: .import <table> <filepath>''), h))"

section \<open>.dump\<close>

text \<open>\<open>json.dumps(rows, indent=2, ensure_ascii=False)\<close>.\<close>

definition json_char :: "char \<Rightarrow> string" where
  "json_char c =
     (let n = of_char c :: nat in
      case map_of short_escapes n of
        Some e \<Rightarrow> [backslash, e]
      | None \<Rightarrow> if 32 \<le> n then [c] else [backslash, CHR ''u'', CHR ''0'', CHR ''0'', hex_char (n div 16), hex_char (n mod 16)])"

definition json_text :: "string \<Rightarrow> string" where
  "json_text w = dquote # concat (map json_char w) @ [dquote]"

fun json_cell :: "pval \<Rightarrow> string res" where
  "json_cell PNone = Inr ''null''"
| "json_cell (PBool b) = Inr (if b then ''true'' else ''false'')"
| "json_cell (PInt i) = Inr (int_str i)"
| "json_cell (PFloat w) = Inr (number_text (PFloat w))"
| "json_cell (PStr w) = Inr (json_text w)"
| "json_cell (PRowId p i) = Inl TypeError"

definition json_object :: "string list \<Rightarrow> pval list \<Rightarrow> string res" where
  "json_object columns row =
     rbind (rmap (\<lambda>(k, v). rbind (json_cell v) (\<lambda>t. Inr (''    '' @ json_text k @ '': '' @ t))) (dict_of (zip columns row))) (\<lambda>ms.
       Inr (if ms = [] then ''{}'' else ''{'' @ [LF] @ join_with ('','' @ [LF]) ms @ [LF] @ ''  }''))"

definition format_json :: "string list \<Rightarrow> pval list list \<Rightarrow> string res" where
  "format_json columns rows =
     rbind (rmap (json_object columns) rows) (\<lambda>objs.
       Inr (if objs = [] then ''[]''
         else ''['' @ [LF] @ join_with ('','' @ [LF]) (map (\<lambda>s. ''  '' @ s) objs) @ [LF] @ '']''))"

definition dump_rows :: "string option \<Rightarrow> QueryResult \<Rightarrow> (command_handler, reply) st" where
  "dump_rows path r =
     sbind (slift (
       if (case path of None \<Rightarrow> False | Some p \<Rightarrow> lower (path_ext p) = ''.json'')
       then format_json (qr_columns r) (qr_rows r) else Inr (format_csv (qr_columns r) (qr_rows r)))) (\<lambda>output.
     case path of
       None \<Rightarrow> sret (Text output)
     | Some p \<Rightarrow>
         sbind (smod (\<lambda>h. h\<lparr>ch_files := dict_set p output (ch_files h)\<rparr>)) (\<lambda>_.
           sret (Text (nat_str (length (qr_rows r)) @ '' rows dumped to '' @ p))))"

definition dump :: "nat \<Rightarrow> string \<Rightarrow> (command_handler, reply) st" where
  "dump fuel arg h = (case words_of [] (strip arg) of
     [] \<Rightarrow> (Inr (Text ''Usage: .dump <table> [filepath]''), h)
   | table # rest \<Rightarrow>
       (case on_db (execute fuel (''SELECT * FROM '' @ table)) h of
          (Inl e, h') \<Rightarrow> if is_exception e then (Inr (Problem e), h') else (Inl e, h')
        | (Inr r, h') \<Rightarrow>
            if qr_rows r = [] then (Inr (Text (''0 rows (table '' @ table @ '' is empty)'')), h')
            else dump_rows (case rest of [] \<Rightarrow> None | p # _ \<Rightarrow> Some p) r h'))"

section \<open>Dispatch\<close>

definition handle :: "nat \<Rightarrow> string \<Rightarrow> string \<Rightarrow> (command_handler, reply option) st" where
  "handle fuel cmd arg =
     (if cmd = ''explain'' then sbind (explain arg) (\<lambda>r. sret (Some r))
      else if cmd = ''timing'' then sbind (timing arg) (\<lambda>r. sret (Some r))
      else if cmd = ''highlight'' then sbind (highlight arg) (\<lambda>r. sret (Some r))
      else if cmd = ''import'' then sbind (import_file fuel arg) (\<lambda>r. sret (Some r))
      else if cmd = ''dump'' then sbind (dump fuel arg) (\<lambda>r. sret (Some r))
      else sret None)"

end
