(* ===== verification/Import_Facts.thy ===== *)
theory Import_Facts
  imports Commands Database_Facts
begin

text \<open>
  \<open>.dump\<close> and \<open>.import\<close> against the tables: a dump is read back, and an import is an INSERT of the rows of the
  file, one by one.
\<close>

section \<open>Lists of rows\<close>

lemma insert_all_append:
  "insert_all tbl names (ess @ ess') vss = (case insert_all tbl names ess vss of
     (Inl e, us) \<Rightarrow> (Inl e, us) | (Inr u, us) \<Rightarrow> insert_all tbl names ess' us)"
  by (induction tbl names ess vss rule: insert_all.induct) (auto split: sum.split)

lemma insert_all_cong:
  "mset vss = mset vss' \<Longrightarrow> fst (insert_all tbl names ess vss) = fst (insert_all tbl names ess vss') \<and>
    mset (snd (insert_all tbl names ess vss)) = mset (snd (insert_all tbl names ess vss'))"
proof (induction ess arbitrary: vss vss')
  case (Cons es ess)
  have "set vss = set vss'" using Cons.prems mset_eq_setD by blast
  then have c: "insert_spec cols row vss = insert_spec cols row vss'" for cols row
    unfolding insert_spec_def using refused_cong by metis
  show ?case
  proof (cases "rbind (rmap (\<lambda>x. evaluate x []) es) (\<lambda>vals. insert_spec (tbl_columns tbl) (ordered_row tbl names vals) vss')")
    case (Inl e)
    then show ?thesis using Cons.prems by (simp add: c)
  next
    case (Inr vs)
    then have "insert_all tbl names (es # ess) us = insert_all tbl names ess (us @ [vs])" if "us \<in> {vss, vss'}" for us
      using that unfolding insert_all.simps by (auto simp only: c sum.case insert_iff empty_iff)
    then show ?thesis using Cons.IH [of "vss @ [vs]" "vss' @ [vs]"] Cons.prems by (simp del: insert_all.simps)
  qed
qed simp

section \<open>The INSERT of a row\<close>

lemma clean_insert_text: "clean_sql (insert_text table vs) = insert_text table vs"
  by (simp add: clean_sql_def insert_text_def strip_def rstrip_if_def py_space_def)

lemma insert_text_starts: "starts ''INSERT'' (upper (insert_text table vs))"
  by (simp add: insert_text_def upper_def upper_char_def Let_def)

text \<open>The row of a file whose INSERT parses to one row of expressions.\<close>

definition imports_as :: "string \<Rightarrow> string list \<Rightarrow> json \<Rightarrow> expr list \<Rightarrow> bool" where
  "imports_as table cols j es \<longleftrightarrow> (\<exists>vs. row_values cols j = Inr vs \<and>
     parse_sql (insert_text table vs) = Inr (Insert \<lparr>ins_table = table, ins_columns = None, ins_values = [es]\<rparr>))"

definition as_database_error :: "err \<Rightarrow> err" where
  "as_database_error e = (if e = NonTermination then NonTermination else DatabaseError)"

lemma execute_idle:
  assumes "dispatch fuel (clean_sql q) d = (r, d')" and "idle d'"
  shows "execute fuel q d = (case r of Inl e \<Rightarrow> Inl (as_database_error e) | Inr x \<Rightarrow> Inr x, d')"
  using assms by (cases r) (simp_all add: execute_def handle_error_def as_database_error_def idle_def has_active_txn_def)

lemma import_one:
  assumes "imports_as table cols j es" and "idle d" and "store_ok (3 + n) (ss_pool (db_session d))"
    and "get_table (db_tables d) table = Inr tbl" and "main_stmt.stored tbl ps (db_session d) rows"
    and "unindexed (db_indexes d) table" and "table_valid (tbl_columns tbl) (map snd rows)" and "rows_fit tbl None [es]"
  shows "\<exists>vs d' ps' rows'. row_values cols j = Inr vs \<and>
      execute fuel (insert_text table vs) d = (case fst (insert_all tbl None [es] (map snd rows)) of
        Inl e \<Rightarrow> Inl (as_database_error e) | Inr u \<Rightarrow> Inr (affected 1), d') \<and>
      idle d' \<and> store_ok n (ss_pool (db_session d')) \<and> db_tables d' = db_tables d \<and> db_indexes d' = db_indexes d \<and>
      main_stmt.stored tbl ps' (db_session d') rows' \<and>
      mset (map snd rows') = mset (snd (insert_all tbl None [es] (map snd rows))) \<and>
      table_valid (tbl_columns tbl) (map snd rows')"
proof -
  let ?i = "\<lparr>ins_table = table, ins_columns = None, ins_values = [es]\<rparr>"
  from assms(1) obtain vs where vs: "row_values cols j = Inr vs" "parse_sql (insert_text table vs) = Inr (Insert ?i)"
    by (auto simp: imports_as_def)
  from exec_insert_text [OF assms(2) vs(2), of n tbl ps rows fuel] assms(3-8) main_stmt.full_valid [OF assms(7)]
  obtain d' ps' rows' where r: "exec_dml fuel (insert_text table vs) d =
      (rbind (fst (insert_all tbl None [es] (map snd rows))) (\<lambda>_. Inr (affected 1)), d')"
    "idle d'" "store_ok n (ss_pool (db_session d'))" "db_tables d' = db_tables d" "db_indexes d' = db_indexes d"
    "main_stmt.stored tbl ps' (db_session d') rows'"
    "mset (map snd rows') = mset (snd (insert_all tbl None [es] (map snd rows)))" by auto
  have "dispatch fuel (clean_sql (insert_text table vs)) d =
      (rbind (fst (insert_all tbl None [es] (map snd rows))) (\<lambda>_. Inr (affected 1)), d')"
    using r(1) by (simp add: clean_insert_text dispatch_insert [OF insert_text_starts])
  from execute_idle [OF this r(2)] have "execute fuel (insert_text table vs) d =
      (case fst (insert_all tbl None [es] (map snd rows)) of Inl e \<Rightarrow> Inl (as_database_error e) | Inr u \<Rightarrow> Inr (affected 1), d')"
    by (simp add: rbind_def split: sum.splits)
  moreover have "table_valid (tbl_columns tbl) (map snd rows')"
    using insert_all_valid [OF assms(7,8)] table_valid_mset [OF r(7) [symmetric]] by blast
  ultimately show ?thesis using vs(1) r(2-7) by blast
qed

lemma import_rows_ok:
  "list_all2 (imports_as table cols) js ess \<Longrightarrow> idle d \<Longrightarrow> store_ok (3 * length js) (ss_pool (db_session d)) \<Longrightarrow>
   get_table (db_tables d) table = Inr tbl \<Longrightarrow> main_stmt.stored tbl ps (db_session d) rows \<Longrightarrow>
   unindexed (db_indexes d) table \<Longrightarrow> table_valid (tbl_columns tbl) (map snd rows) \<Longrightarrow> rows_fit tbl None ess \<Longrightarrow>
   \<exists>d' ps' rows'. import_rows fuel table cols js n d = (case fst (insert_all tbl None ess (map snd rows)) of
       Inl e \<Rightarrow> Inl (as_database_error e) | Inr u \<Rightarrow> Inr (n + length js), d') \<and>
     main_stmt.stored tbl ps' (db_session d') rows' \<and>
     mset (map snd rows') = mset (snd (insert_all tbl None ess (map snd rows)))"
proof (induction js ess arbitrary: d n ps rows rule: list_all2_induct)
  case Nil
  then show ?case by (intro exI [of _ d] exI [of _ ps] exI [of _ rows]) simp
next
  case (Cons j js es ess)
  have ok: "store_ok (3 + 3 * length js) (ss_pool (db_session d))" using Cons.prems(2) by simp
  have fit: "rows_fit tbl None [es]" "rows_fit tbl None ess" using Cons.prems(7) by (auto simp: rows_fit_def)
  let ?one = "insert_all tbl None [es] (map snd rows)"
  have all: "insert_all tbl None (es # ess) (map snd rows) =
      (case ?one of (Inl e, us) \<Rightarrow> (Inl e, us) | (Inr u, us) \<Rightarrow> insert_all tbl None ess us)"
    using insert_all_append [of tbl None "[es]" ess "map snd rows"] by simp
  from import_one [OF Cons.hyps(1) Cons.prems(1) ok Cons.prems(3-6) fit(1), of fuel] obtain vs d1 ps1 rows1 where
    o: "row_values cols j = Inr vs"
      "execute fuel (insert_text table vs) d = (case fst ?one of Inl e \<Rightarrow> Inl (as_database_error e) | Inr u \<Rightarrow> Inr (affected 1), d1)"
      "idle d1" "store_ok (3 * length js) (ss_pool (db_session d1))" "db_tables d1 = db_tables d" "db_indexes d1 = db_indexes d"
      "main_stmt.stored tbl ps1 (db_session d1) rows1" "mset (map snd rows1) = mset (snd ?one)"
      "table_valid (tbl_columns tbl) (map snd rows1)" by blast
  show ?case
  proof (cases "fst ?one")
    case (Inl e)
    then have "insert_all tbl None (es # ess) (map snd rows) = (Inl e, snd ?one)" unfolding all by (cases ?one) simp
    moreover have "import_rows fuel table cols (j # js) n d = (Inl (as_database_error e), d1)"
      using o(1,2) Inl by (simp add: sbind_def)
    ultimately show ?thesis using o(7,8) by (intro exI [of _ d1] exI [of _ ps1] exI [of _ rows1]) simp
  next
    case (Inr u)
    then have a: "insert_all tbl None (es # ess) (map snd rows) = insert_all tbl None ess (snd ?one)"
      unfolding all by (cases ?one) simp
    note c = insert_all_cong [OF o(8), of tbl None ess]
    from Cons.IH [OF o(3,4) _ o(7) _ o(9) fit(2), of "n + 1"] Cons.prems(3,5) o(5,6) obtain d2 ps2 rows2 where
      r: "import_rows fuel table cols js (n + 1) d1 = (case fst (insert_all tbl None ess (map snd rows1)) of
          Inl e \<Rightarrow> Inl (as_database_error e) | Inr u \<Rightarrow> Inr (n + 1 + length js), d2)"
        "main_stmt.stored tbl ps2 (db_session d2) rows2"
        "mset (map snd rows2) = mset (snd (insert_all tbl None ess (map snd rows1)))" by auto
    have "import_rows fuel table cols (j # js) n d = import_rows fuel table cols js (n + 1) d1"
      using o(1,2) Inr by (simp add: sbind_def)
    moreover have "n + 1 + length js = n + length (j # js)" by simp
    note r' = r [unfolded this]
    ultimately show ?thesis using r' c unfolding a
      by (intro exI [of _ d2] exI [of _ ps2] exI [of _ rows2]) (simp del: insert_all.simps import_rows.simps)
  qed
qed

text \<open>The rows of a table, with the pages they are on, outside of a transaction.\<close>

definition holds_rows :: "database \<Rightarrow> Table \<Rightarrow> nat list \<Rightarrow> rows \<Rightarrow> bool" where
  "holds_rows d tbl ps rows \<longleftrightarrow>
     table_ok (pool_live (ss_pool (db_session d))) (pool_view (ss_pool (db_session d))) tbl ps \<and>
     decode_rows (tbl_columns tbl) (contents (pool_view (ss_pool (db_session d))) ps) = Inr rows"

lemma stored_holds: "main_stmt.stored tbl ps (db_session d) rows = holds_rows d tbl ps rows"
  by (simp add: holds_rows_def main_stmt.stored_def)

section \<open>Properties\<close>

text \<open>
  C12. \<open>.import\<close> of a file, outside a transaction and into a valid table without an index, is the INSERT of its rows, one
  by one: when each row of the file makes an INSERT that parses to one row of expressions (\<open>imports_as\<close>), with a value for
  every column and of at most 4060 bytes (\<open>rows_fit\<close>), the table afterwards holds, as a bag, what inserting those rows into
  its rows gives. All accepted, the reply counts them; else the reply is an error, and the rows before the first refused
  one stay. The specification \<open>cli-enhancements\<close> wants the import wrapped in a transaction; the code begins none.
\<close>

theorem import_inserts_rows:
  assumes "words_of [] (strip arg) = table # path # opts" and "dict_get (ch_files h) path = Some content"
    and "read_rows (lower (path_ext path)) content = Inr (j # js)" and "members j = Inr m"
    and "list_all2 (imports_as table (dict_keys m)) (j # js) ess" and "idle (ch_db h)"
    and "store_ok (3 * length ess) (ss_pool (db_session (ch_db h)))"
    and "get_table (db_tables (ch_db h)) table = Inr tbl" and "holds_rows (ch_db h) tbl ps rows"
    and "unindexed (db_indexes (ch_db h)) table" and "table_valid (tbl_columns tbl) (map snd rows)" and "rows_fit tbl None ess"
  shows "\<exists>d' ps' rows'. import_file fuel arg h = (case fst (insert_all tbl None ess (map snd rows)) of
       Inr u \<Rightarrow> Inr (Text (nat_str (length ess) @ '' rows imported into '' @ table))
     | Inl e \<Rightarrow> if e = NonTermination then Inl e else Inr (Problem DatabaseError), h\<lparr>ch_db := d'\<rparr>) \<and>
     holds_rows d' tbl ps' rows' \<and>
     mset (map snd rows') = mset (snd (insert_all tbl None ess (map snd rows)))"
proof -
  have l: "length (j # js) = length ess" using assms(5) by (rule list_all2_lengthD)
  from import_rows_ok [unfolded stored_holds, OF assms(5,6) _ assms(8-12), of fuel 0, unfolded l add_0] assms(7) obtain d' ps' rows' where
    r: "import_rows fuel table (dict_keys m) (j # js) 0 (ch_db h) = (case fst (insert_all tbl None ess (map snd rows)) of
       Inl e \<Rightarrow> Inl (as_database_error e) | Inr u \<Rightarrow> Inr (length ess), d')"
    "holds_rows d' tbl ps' rows'"
    "mset (map snd rows') = mset (snd (insert_all tbl None ess (map snd rows)))" by blast
  have "import_file fuel arg h = (case fst (insert_all tbl None ess (map snd rows)) of
       Inr u \<Rightarrow> Inr (Text (nat_str (length ess) @ '' rows imported into '' @ table))
     | Inl e \<Rightarrow> if e = NonTermination then Inl e else Inr (Problem DatabaseError), h\<lparr>ch_db := d'\<rparr>)"
    using assms(1-4) r(1)
    by (simp add: import_file_def or_problem_def sbind_def szoom_def is_exception_def as_database_error_def
        del: import_rows.simps split: sum.split)
  then show ?thesis using r(2,3) by blast
qed

definition key_handler :: command_handler where
  "key_handler = new_handler key_db [(''k.csv'', format_csv [''id''] [[PInt 2], [PInt 1], [PInt 2]])]"

theorem import_inserts_rows_witness:
  "\<exists>d' ps' rows'. import_file 5 ''t k.csv'' key_handler = (Inr (Problem DatabaseError), key_handler\<lparr>ch_db := d'\<rparr>) \<and>
     holds_rows d' key_table ps' rows' \<and> mset (map snd rows') = {#[PInt 2], [PInt 1]#}"
proof -
  let ?js = "[JObj [(''id'', JNum (PInt 2))], JObj [(''id'', JNum (PInt 1))], JObj [(''id'', JNum (PInt 2))]]"
  let ?ess = "ins_values (key_insert (map PInt [2, 1, 2]))" and ?s = "db_session key_db"
  have s: "ss_pool ?s = ss_pool (ie_store key_env)"
    by (simp add: db_session_def statement_session_def current_txn_def key_db_def new_engine_def key_env_def new_session_def)
  have "2 + 1 + 9 < (2 ^ 32 :: nat)" by simp
  note e = key_env_facts [OF this, folded s]
  have w: "words_of [] (strip ''t k.csv'') = ''t'' # ''k.csv'' # []" "lower (path_ext ''k.csv'') = ''.csv''" "strip ''id'' = ''id''"
    by code_simp+
  have "read_csv (format_csv [''id''] [[PInt 2], [PInt 1], [PInt 2]]) = Inr [[(''id'', PInt 2)], [(''id'', PInt 1)], [(''id'', PInt 2)]]"
    using w(3) by (subst read_format_csv) (simp_all add: FIELD_LIMIT_def nat_str.simps)
  then have r: "read_rows ''.csv'' (format_csv [''id''] [[PInt 2], [PInt 1], [PInt 2]]) = Inr ?js"
    by (simp add: read_rows_def csv_objects_def)
  have p: "parse_sql (insert_text ''t'' [''2'']) = Inr (Insert \<lparr>ins_table = ''t'', ins_columns = None, ins_values = [[Literal (PInt 2)]]\<rparr>)"
    "parse_sql (insert_text ''t'' [''1'']) = Inr (Insert \<lparr>ins_table = ''t'', ins_columns = None, ins_values = [[Literal (PInt 1)]]\<rparr>)"
    by code_simp+
  have "row_values [''id''] (JObj [(''id'', JNum (PInt 2))]) = Inr [''2'']" "row_values [''id''] (JObj [(''id'', JNum (PInt 1))]) = Inr [''1'']"
    by code_simp+
  then have i: "list_all2 (imports_as ''t'' [''id'']) ?js ?ess" using p by (simp add: imports_as_def key_insert_def)
  have a: "insert_all key_table None ?ess (map snd ([] :: rows)) = (Inl ConstraintError, [[PInt 2], [PInt 1]])"
    by (simp add: key_insert_def ordered_row_def key_table_facts key_insert_spec in_i64_def)
  have "\<exists>d' ps' rows'. import_file 5 ''t k.csv'' key_handler = (case fst (insert_all key_table None ?ess (map snd ([] :: rows))) of
       Inr u \<Rightarrow> Inr (Text (nat_str (length ?ess) @ '' rows imported into '' @ ''t''))
     | Inl e \<Rightarrow> if e = NonTermination then Inl e else Inr (Problem DatabaseError), key_handler\<lparr>ch_db := d'\<rparr>) \<and>
     holds_rows d' key_table ps' rows' \<and>
     mset (map snd rows') = mset (snd (insert_all key_table None ?ess (map snd ([] :: rows))))"
    by (rule import_inserts_rows [OF w(1), where m = "[(''id'', JNum (PInt 2))]" and js = "tl ?js" and j = "hd ?js" and ps = "[1]"])
      (use e i r w key_table_facts key_insert_fits [of "[2, 1, 2]"] in
        \<open>simp_all add: key_handler_def new_handler_def dict_of_def key_db_def idle_def new_engine_def key_insert_def
          table_valid_def unindexed_def new_index_manager_def holds_rows_def\<close>)
  then show ?thesis unfolding a by simp
qed

text \<open>
  C16. What \<open>.dump\<close> writes to a file as CSV, \<open>.import\<close> reads from it: commas, quotes and line ends inside a text are
  quoted by the writer and undone by the reader, and every value is found again under the name of its column. This
  holds for NULL, for integers and for texts that are trimmed, not empty and not the spelling of a number or of NULL.
\<close>

theorem csv_dump_reads_back:
  assumes "lower (path_ext path) \<noteq> ''.json''" and "qr_columns r \<noteq> []" and "distinct (qr_columns r)"
    and "\<forall>c \<in> set (qr_columns r). strip c = c \<and> length c \<le> FIELD_LIMIT"
    and "\<forall>row \<in> set (qr_rows r). length row = length (qr_columns r) \<and> (\<forall>v \<in> set row. importable v)"
  shows "\<exists>reply h' content. dump_rows (Some path) r h = (Inr reply, h') \<and> dict_get (ch_files h') path = Some content \<and>
     read_csv content = Inr (map (zip (qr_columns r)) (qr_rows r))"
  using assms(1) read_format_csv [OF assms(2-5)] by (simp add: dump_rows_def smod_def sbind_def)

theorem csv_dump_reads_back_witness:
  "\<exists>reply h' content. dump_rows (Some ''k.csv'')
       \<lparr>qr_columns = [''id'', ''name''], qr_rows = [[PInt (- 7), PStr ''a,b''], [PInt 20, PNone]], row_count = 2\<rparr>
       (new_handler key_db []) = (Inr reply, h') \<and> dict_get (ch_files h') ''k.csv'' = Some content \<and>
     read_csv content = Inr [[(''id'', PInt (- 7)), (''name'', PStr ''a,b'')], [(''id'', PInt 20), (''name'', PNone)]]"
proof -
  have "strip ''a,b'' = ''a,b''" "upper ''a,b'' = ''A,B''" "int_literal ''a,b'' = None" "float_literal ''a,b'' = None"
    by code_simp+
  then have "importable (PStr ''a,b'')" by (simp add: FIELD_LIMIT_def)
  moreover have "importable (PInt (- 7))" "importable (PInt 20)" by (simp_all add: nat_str.simps)
  moreover have "strip ''id'' = ''id''" "strip ''name'' = ''name''" "lower (path_ext ''k.csv'') \<noteq> ''.json''" by code_simp+
  ultimately show ?thesis using csv_dump_reads_back [of "''k.csv''"
      "\<lparr>qr_columns = [''id'', ''name''], qr_rows = [[PInt (- 7), PStr ''a,b''], [PInt 20, PNone]], row_count = 2\<rparr>" "new_handler key_db []"]
    by (simp add: FIELD_LIMIT_def del: importable.simps(2,3))
qed

end
