(* ===== verification/Repl_Text.thy ===== *)
theory Repl_Text
  imports Database
begin

text \<open>
  The text that the shell of \<open>tinydb/cli/repl.py\<close> reads and prints: the test whether a statement is complete, and
  the layout of results as tables of characters. A table is a list of lines.
\<close>

section \<open>Complete statements\<close>

definition bracket_pairs :: "(char \<times> char) list" where
  "bracket_pairs = [(CHR ''('', CHR '')''), (CHR ''['', CHR '']''), (CHR ''{'', CHR ''}'')]"

definition is_opening :: "char \<Rightarrow> bool" where
  "is_opening c \<longleftrightarrow> c \<in> set (map fst bracket_pairs)"

definition is_closing :: "char \<Rightarrow> bool" where
  "is_closing c \<longleftrightarrow> c \<in> set (map snd bracket_pairs)"

definition is_quote :: "char \<Rightarrow> bool" where
  "is_quote c \<longleftrightarrow> c = CHR 0x27 \<or> c = CHR 0x22"

text \<open>The loop of \<open>_brackets_balanced\<close>: the quote of the string it is in, if any, and the stack, top first.\<close>

fun brackets_loop :: "char option \<Rightarrow> string \<Rightarrow> string \<Rightarrow> bool" where
  "brackets_loop q stack [] = (stack = [])"
| "brackets_loop (Some q) stack (c # s) = brackets_loop (if c = q then None else Some q) stack s"
| "brackets_loop None stack (c # s) =
     (if is_quote c then brackets_loop (Some c) stack s
      else if is_opening c then brackets_loop None (c # stack) s
      else if is_closing c then
        (case stack of
           [] \<Rightarrow> False
         | b # stack' \<Rightarrow> if map_of bracket_pairs b \<noteq> Some c then False else brackets_loop None stack' s)
      else brackets_loop None stack s)"

definition brackets_balanced :: "string \<Rightarrow> bool" where
  "brackets_balanced sql = brackets_loop None [] sql"

definition is_complete :: "string \<Rightarrow> bool" where
  "is_complete sql =
     (let t = rstrip_if py_space sql in
      if t = [] \<or> last t \<noteq> CHR '';'' then False else brackets_balanced sql)"

text \<open>The reference: a grammar of nested brackets, on the brackets outside of quotes.\<close>

inductive nested :: "string \<Rightarrow> bool" where
  empty: "nested []"
| pair: "(c, d) \<in> set bracket_pairs \<Longrightarrow> nested u \<Longrightarrow> nested v \<Longrightarrow> nested (c # u @ d # v)"

fun brackets_outside :: "char option \<Rightarrow> string \<Rightarrow> string" where
  "brackets_outside q [] = []"
| "brackets_outside (Some q) (c # s) = brackets_outside (if c = q then None else Some q) s"
| "brackets_outside None (c # s) =
     (if is_quote c then brackets_outside (Some c) s
      else if is_opening c \<or> is_closing c then c # brackets_outside None s
      else brackets_outside None s)"

lemma bracket_kinds:
  "(c, d) \<in> set bracket_pairs \<Longrightarrow> is_opening c \<and> is_closing d \<and> \<not> is_opening d \<and> map_of bracket_pairs c = Some d \<and>
    \<not> is_quote c \<and> \<not> is_quote d"
  "is_opening c \<Longrightarrow> \<not> is_closing c \<and> \<not> is_quote c \<and> (\<exists>d. map_of bracket_pairs c = Some d)"
  "map_of bracket_pairs c = Some d \<Longrightarrow> (c, d) \<in> set bracket_pairs"
  by (auto simp: bracket_pairs_def is_opening_def is_closing_def is_quote_def split: if_splits)

definition only_brackets :: "string \<Rightarrow> bool" where
  "only_brackets w \<longleftrightarrow> (\<forall>c \<in> set w. (is_opening c \<or> is_closing c) \<and> \<not> is_quote c)"

lemma only_brackets_simps [simp]:
  "only_brackets []" "only_brackets (c # w) = ((is_opening c \<or> is_closing c) \<and> \<not> is_quote c \<and> only_brackets w)"
  by (auto simp: only_brackets_def)

lemma brackets_loop_outside: "brackets_loop q stack s = brackets_loop None stack (brackets_outside q s)"
  by (induction q stack s rule: brackets_loop.induct) (auto split: list.split)

lemma brackets_outside_only: "only_brackets (brackets_outside q s)"
  by (induction q s rule: brackets_outside.induct) simp_all

lemma nested_accepted: "nested u \<Longrightarrow> brackets_loop None stack (u @ w) = brackets_loop None stack w"
proof (induction u arbitrary: stack w rule: nested.induct)
  case (pair c d u v)
  note k = bracket_kinds(1) [OF pair.hyps(1)]
  have "brackets_loop None stack ((c # u @ d # v) @ w) = brackets_loop None (c # stack) (u @ d # v @ w)" using k by simp
  also have "\<dots> = brackets_loop None (c # stack) (d # v @ w)" by (rule pair.IH(1))
  also have "\<dots> = brackets_loop None stack (v @ w)" using k by simp
  finally show ?case using pair.IH(2) by simp
qed simp

lemma nested_insert: "nested w \<Longrightarrow> w = x @ y \<Longrightarrow> (c, d) \<in> set bracket_pairs \<Longrightarrow> nested (x @ c # d # y)"
proof (induction w arbitrary: x y rule: nested.induct)
  case empty
  then show ?case using nested.pair [OF _ nested.empty nested.empty] by simp
next
  case (pair a b u v)
  show ?case
  proof (cases x)
    case Nil
    then show ?thesis using nested.pair [OF pair.prems(2) nested.empty nested.pair [OF pair.hyps]] pair.prems(1) by simp
  next
    case (Cons z x')
    then have z: "z = a" and "u @ b # v = x' @ y" using pair.prems(1) by simp_all
    then consider t where "u = x' @ t" "y = t @ b # v" | t where "x' = u @ b # t" "v = t @ y"
      by (auto simp: append_eq_append_conv2 Cons_eq_append_conv)
    then show ?thesis
    proof cases
      case 1
      from nested.pair [OF pair.hyps(1) pair.IH(1) [OF 1(1) pair.prems(2)] pair.hyps(3)] show ?thesis using Cons z 1 by simp
    next
      case 2
      from nested.pair [OF pair.hyps(1,2) pair.IH(2) [OF 2(2) pair.prems(2)]] show ?thesis using Cons z 2 by simp
    qed
  qed
qed

lemma accepted_nested: "only_brackets w \<Longrightarrow> brackets_loop None stack w \<Longrightarrow> nested (rev stack @ w)"
proof (induction w arbitrary: stack)
  case Nil
  then show ?case by (simp add: nested.empty)
next
  case (Cons c w)
  have o: "only_brackets w" "is_opening c \<or> is_closing c" "\<not> is_quote c" using Cons.prems(1) by simp_all
  show ?case
  proof (cases "is_opening c")
    case True
    then show ?thesis using Cons.IH [OF o(1), of "c # stack"] Cons.prems(2) o(3) by simp
  next
    case False
    then obtain b stack' where s: "stack = b # stack'" "map_of bracket_pairs b = Some c" "brackets_loop None stack' w"
      using Cons.prems(2) o by (auto split: list.splits if_splits)
    from nested_insert [OF Cons.IH [OF o(1) s(3)] refl bracket_kinds(3) [OF s(2)]] show ?thesis using s(1) by simp
  qed
qed

section \<open>Tables of characters\<close>

text \<open>\<open>str(value)\<close>.\<close>

fun value_str :: "pval \<Rightarrow> string" where
  "value_str (PStr s) = s"
| "value_str v = value_repr v"

definition ljust :: "nat \<Rightarrow> string \<Rightarrow> string" where
  "ljust w s = s @ replicate (w - length s) CHR '' ''"

text \<open>
  The widths grow with every row; a row that is longer than the header raises. A row that is shorter prints
  with fewer cells, as \<open>zip\<close> stops at the shorter list.
\<close>

fun widen :: "nat list \<Rightarrow> string list \<Rightarrow> nat list res" where
  "widen ws [] = Inr ws"
| "widen [] (c # cs) = Inl IndexError"
| "widen (w # ws) (c # cs) = rbind (widen ws cs) (\<lambda>ws'. Inr (max w (length c) # ws'))"

definition rule_line :: "nat list \<Rightarrow> string" where
  "rule_line ws = ''+'' @ join_with ''+'' (map (\<lambda>w. replicate (w + 2) CHR ''-'') ws) @ ''+''"

definition cell_line :: "nat list \<Rightarrow> string list \<Rightarrow> string" where
  "cell_line ws cells = ''|'' @ join_with ''|'' (map (\<lambda>(c, w). '' '' @ ljust w c @ '' '') (zip cells ws)) @ ''|''"

definition rows_in_set :: "nat \<Rightarrow> string" where
  "rows_in_set n = nat_str n @ '' rows in set''"

text \<open>The lines that \<open>_format_output\<close> joins.\<close>

definition format_output :: "QueryResult \<Rightarrow> string list res" where
  "format_output r =
     (if qr_rows r = [] then Inr [rows_in_set (row_count r)]
      else
        rbind (rfold (\<lambda>row ws. widen ws (map value_str row)) (qr_rows r) (map length (qr_columns r))) (\<lambda>ws.
          Inr ([rule_line ws, cell_line ws (qr_columns r), rule_line ws] @
            map (\<lambda>row. cell_line ws (map value_str row)) (qr_rows r) @ [rule_line ws, rows_in_set (row_count r)])))"

text \<open>\<open>_print_columns\<close> with its one header, and \<open>_print_schema\<close>.\<close>

definition print_columns :: "string \<Rightarrow> string list \<Rightarrow> string list" where
  "print_columns header rows =
     (if rows = [] then []
      else
        let w = max (length header) (fold max (map length rows) 0); sep = ''+'' @ replicate (w + 2) CHR ''-'' @ ''+'';
            line = (\<lambda>c. ''| '' @ ljust w c @ '' |'')
        in [sep, line header, sep] @ map line rows @ [sep, rows_in_set (length rows)])"

definition print_schema :: "string list \<Rightarrow> string list \<Rightarrow> string list \<Rightarrow> string list" where
  "print_schema names types flags =
     (let w1 = max 6 (fold max (map length names) 0); w2 = max 4 (fold max (map length types) 0);
          w3 = max 11 (fold max (map length flags) 0);
          sep = ''+-'' @ replicate w1 CHR ''-'' @ ''-+-'' @ replicate w2 CHR ''-'' @ ''-+-'' @ replicate w3 CHR ''-'' @ ''-+'';
          line = (\<lambda>(a, b, c). ''| '' @ ljust w1 a @ '' | '' @ ljust w2 b @ '' | '' @ ljust w3 c @ '' |'')
      in [sep, line (''Column'', ''Type'', ''Constraints''), sep] @ map line (zip names (zip types flags)) @ [sep])"

lemma length_join: "ws \<noteq> [] \<Longrightarrow> length (join_with [c] ws) + 1 = sum_list (map length ws) + length ws"
  by (induction "[c]" ws rule: join_with.induct) auto

lemma widen_facts:
  "widen ws cs = Inr ws' \<Longrightarrow> length ws' = length ws \<and> length cs \<le> length ws \<and>
    (\<forall>i < length ws. ws ! i \<le> ws' ! i) \<and> (\<forall>i < length cs. length (cs ! i) \<le> ws' ! i)"
proof (induction ws cs arbitrary: ws' rule: widen.induct)
  case (3 w ws c cs)
  then obtain vs where v: "widen ws cs = Inr vs" "ws' = max w (length c) # vs" by auto
  from "3.IH" [OF this(1)] v(2) show ?case by (auto simp: nth_Cons split: nat.split)
qed simp_all

lemma widen_all_facts:
  "rfold (\<lambda>row ws. widen ws (f row)) rows ws = Inr ws' \<Longrightarrow> length ws' = length ws \<and> (\<forall>i < length ws. ws ! i \<le> ws' ! i) \<and>
    (\<forall>row \<in> set rows. length (f row) \<le> length ws \<and> (\<forall>i < length (f row). length (f row ! i) \<le> ws' ! i))"
proof (induction rows arbitrary: ws)
  case (Cons row rows)
  then obtain vs where v: "widen ws (f row) = Inr vs" "rfold (\<lambda>row ws. widen ws (f row)) rows vs = Inr ws'" by auto
  note w = widen_facts [OF v(1)] and i = Cons.IH [OF v(2)]
  have "\<forall>i < length (f row). length (f row ! i) \<le> ws' ! i" using w i by (metis le_trans less_le_trans)
  then show ?case using w i by (auto intro: le_trans)
qed simp

lemma cell_line_length:
  assumes "length cells = length ws" and "\<forall>i < length ws. length (cells ! i) \<le> ws ! i"
  shows "length (cell_line ws cells) = length (rule_line ws)"
proof -
  have "map length (map (\<lambda>(c, w). '' '' @ ljust w c @ '' '') (zip cells ws)) =
      map length (map (\<lambda>w. replicate (w + 2) CHR ''-'') ws)"
    using assms by (intro nth_equalityI) (auto simp: ljust_def)
  then have e: "sum_list (map length (map (\<lambda>(c, w). '' '' @ ljust w c @ '' '') (zip cells ws))) =
      sum_list (map length (map (\<lambda>w. replicate (w + 2) CHR ''-'') ws))" by metis
  show ?thesis
  proof (cases "ws = []")
    case False
    then have z: "map (\<lambda>(c, w). '' '' @ ljust w c @ '' '') (zip cells ws) \<noteq> []" "map (\<lambda>w. replicate (w + 2) CHR ''-'') ws \<noteq> []"
      using assms(1) by auto
    have "length (map (\<lambda>(c, w). '' '' @ ljust w c @ '' '') (zip cells ws)) = length (map (\<lambda>w. replicate (w + 2) CHR ''-'') ws)"
      using assms(1) by simp
    with length_join [OF z(1), of "CHR ''|''"] length_join [OF z(2), of "CHR ''+''"] e show ?thesis
      by (simp add: cell_line_def rule_line_def)
  qed (use assms(1) in \<open>simp add: cell_line_def rule_line_def\<close>)
qed

section \<open>Properties\<close>

text \<open>
  C40. The shell takes a statement for complete exactly when its text, without white space at the end, ends with a
  semicolon and its brackets outside of quotes are nested: the loop with its stack accepts the language of the
  bracket grammar.
\<close>

theorem complete_iff_nested:
  "is_complete sql \<longleftrightarrow> rstrip_if py_space sql \<noteq> [] \<and> last (rstrip_if py_space sql) = CHR '';'' \<and>
     nested (brackets_outside None sql)"
proof -
  have "brackets_loop None [] sql \<longleftrightarrow> nested (brackets_outside None sql)"
    using accepted_nested [OF brackets_outside_only, of "[]"] nested_accepted [of _ "[]" "[]"] brackets_loop_outside [of None "[]" sql]
    by auto
  then show ?thesis by (auto simp: is_complete_def brackets_balanced_def Let_def)
qed

text \<open>
  A result prints as a rectangle: when every row has a value for every column, the table is printed, with a line for
  the header, one for every row and three rules, and all of these lines have the same length.
\<close>

theorem output_is_rectangle:
  assumes "qr_rows r \<noteq> []" and "\<forall>row \<in> set (qr_rows r). length row = length (qr_columns r)"
  shows "\<exists>ls. format_output r = Inr (ls @ [rows_in_set (row_count r)]) \<and> length ls = length (qr_rows r) + 4 \<and>
    (\<exists>n. \<forall>l \<in> set ls. length l = n)"
proof -
  have "\<exists>ws. rfold (\<lambda>row ws. widen ws (map value_str row)) rows vs = Inr ws"
    if "\<forall>row \<in> set rows. length row = length vs" for rows vs
    using that
  proof (induction rows arbitrary: vs)
    case (Cons row rows)
    have "\<exists>us. widen vs (map value_str row) = Inr us" if "length row = length vs" for row vs
      using that by (induction row vs rule: list_induct2) auto
    from this [of row vs] Cons.prems obtain us where u: "widen vs (map value_str row) = Inr us" by auto
    then have "length us = length vs" using widen_facts by blast
    with Cons.IH [of us] Cons.prems u show ?case by auto
  qed simp
  from this [of "qr_rows r" "map length (qr_columns r)"] assms(2) obtain ws where
    w: "rfold (\<lambda>row ws. widen ws (map value_str row)) (qr_rows r) (map length (qr_columns r)) = Inr ws" by auto
  note f = widen_all_facts [OF w]
  let ?ls = "[rule_line ws, cell_line ws (qr_columns r), rule_line ws] @
      map (\<lambda>row. cell_line ws (map value_str row)) (qr_rows r) @ [rule_line ws]"
  have "length (cell_line ws (qr_columns r)) = length (rule_line ws)" using f by (intro cell_line_length) auto
  moreover have "length (cell_line ws (map value_str row)) = length (rule_line ws)" if "row \<in> set (qr_rows r)" for row
    using f that assms(2) by (intro cell_line_length) auto
  ultimately have "\<forall>l \<in> set ?ls. length l = length (rule_line ws)" by auto
  moreover have "format_output r = Inr (?ls @ [rows_in_set (row_count r)])" using assms(1) w by (simp add: format_output_def)
  moreover have "length ?ls = length (qr_rows r) + 4" by simp
  ultimately show ?thesis by blast
qed

theorem output_is_rectangle_witness:
  "\<exists>ls. format_output \<lparr>qr_columns = [''id'', ''name''], qr_rows = [[PInt 1, PStr ''alice''], [PInt 20, PNone]], row_count = 2\<rparr> =
      Inr (ls @ [rows_in_set 2]) \<and> length ls = 6 \<and> (\<exists>n. \<forall>l \<in> set ls. length l = n)"
  using output_is_rectangle [of "\<lparr>qr_columns = [''id'', ''name''], qr_rows = [[PInt 1, PStr ''alice''], [PInt 20, PNone]],
    row_count = 2\<rparr>"] by simp

end
