(* ===== verification/Completer.thy ===== *)
theory Completer
  imports Commands Repl_Text "HOL-Library.List_Lexorder" "HOL-Library.Char_ord"
begin

text \<open>
  \<open>tinydb/cli/completer.py\<close>: the completion of words by the shell. The cache maps the tables to their columns.
  \<open>_all_column_names\<close> goes through a set, whose order is not fixed, but its only caller sorts the result, so a
  list without duplicates stands for it. Strings are ordered by code points, as \<open>sorted\<close> does.
\<close>

section \<open>Candidates\<close>

definition completer_keywords :: "string list" where
  "completer_keywords =
     [''SELECT'', ''FROM'', ''WHERE'', ''INSERT'', ''UPDATE'', ''DELETE'', ''CREATE'', ''DROP'', ''TABLE'', ''INDEX'',
      ''JOIN'', ''ON'', ''AND'', ''OR'', ''NOT'', ''NULL'', ''ORDER'', ''GROUP'', ''BY'', ''LIMIT'', ''OFFSET'', ''AS'',
      ''INTO'', ''VALUES'', ''SET'', ''BEGIN'', ''COMMIT'', ''ROLLBACK'', ''SHOW'', ''TABLES'', ''EXPLAIN'', ''INNER'',
      ''LEFT'', ''RIGHT'', ''OUTER'', ''CROSS'', ''HAVING'', ''DISTINCT'', ''ALL'', ''UNION'', ''EXCEPT'', ''INTERSECT'',
      ''CASE'', ''WHEN'', ''THEN'', ''ELSE'', ''END'', ''BETWEEN'', ''LIKE'', ''IN'', ''IS'', ''EXISTS'', ''PRIMARY'',
      ''KEY'', ''UNIQUE'', ''DEFAULT'', ''AUTOINCREMENT'', ''INTEGER'', ''TEXT'', ''REAL'', ''BLOB'', ''NUMERIC'',
      ''REFERENCES'', ''CONSTRAINT'', ''FOREIGN'', ''CHECK'', ''CASCADE'', ''NO'', ''ACTION'']"

type_synonym table_cache = "(string, string list) dict"

definition ends_with :: "string \<Rightarrow> string \<Rightarrow> bool" where
  "ends_with s w = starts (rev w) (rev s)"

definition after_keyword :: "string \<Rightarrow> string list \<Rightarrow> bool" where
  "after_keyword line kws = list_ex (\<lambda>kw. ends_with line kw \<or> ends_with line (kw @ '' '')) kws"

definition filter_matches :: "string \<Rightarrow> string list \<Rightarrow> string list" where
  "filter_matches text candidates =
     (if text = '''' then sort candidates else sort (filter (\<lambda>c. starts (upper text) (upper c)) candidates))"

definition all_column_names :: "table_cache \<Rightarrow> string list" where
  "all_column_names cache = remdups (concat (map snd cache))"

definition get_candidates :: "table_cache \<Rightarrow> string \<Rightarrow> string \<Rightarrow> string list" where
  "get_candidates cache text line =
     (let u = strip (upper line) in
      if after_keyword u [''FROM'', ''JOIN'', ''INTO'', ''UPDATE''] then filter_matches text (dict_keys cache)
      else if after_keyword u [''SELECT''] \<or> text = ''.'' then filter_matches text (all_column_names cache)
      else filter_matches text (completer_keywords @ dict_keys cache))"

definition complete :: "table_cache \<Rightarrow> string \<Rightarrow> string \<Rightarrow> nat \<Rightarrow> string option" where
  "complete cache line text state =
     (let cs = get_candidates cache text line in if state < length cs then Some (cs ! state) else None)"

section \<open>The cache\<close>

text \<open>\<open>SELECT * FROM t LIMIT 0\<close> returns no rows, and the columns with them.\<close>

definition schema_query :: "string \<Rightarrow> string" where
  "schema_query table = ''SELECT * FROM '' @ table @ '' LIMIT 0''"

fun refresh_tables :: "nat \<Rightarrow> pval list list \<Rightarrow> table_cache \<Rightarrow> (database, table_cache) st" where
  "refresh_tables fuel [] cache d = (Inr cache, d)"
| "refresh_tables fuel (row # rows) cache d =
     (let table = value_str (row ! 0) in
      case execute fuel (schema_query table) d of
        (Inr r, d') \<Rightarrow> refresh_tables fuel rows (dict_set table (qr_columns r) cache) d'
      | (Inl e, d') \<Rightarrow> if is_exception e then refresh_tables fuel rows (dict_set table [] cache) d' else (Inl e, d'))"

definition refresh_schema :: "nat \<Rightarrow> (database, table_cache) st" where
  "refresh_schema fuel d = (case execute fuel ''SHOW TABLES'' d of
     (Inr r, d') \<Rightarrow> refresh_tables fuel (qr_rows r) [] d'
   | (Inl e, d') \<Rightarrow> if is_exception e then (Inr [], d') else (Inl e, d'))"

end
