(* ===== verification/Highlighter.thy ===== *)
theory Highlighter
  imports Prelude
begin

text \<open>
  \<open>tinydb/cli/highlighter.py\<close>: colours for the echo of a statement. The package \<open>pygments\<close> is a parameter: its SQL
  lexer, if it is installed, and the attribute \<open>__mro__[1:]\<close> of a token type, empty for a type without it. A token
  type is the tuple of its names, as in \<open>pygments.token\<close>.
\<close>

type_synonym token_type = "string list"

record pygments =
  sql_lexer :: "(string \<Rightarrow> (token_type \<times> string) list) option"
  mro_parents :: "token_type \<Rightarrow> token_type list"

definition ansi :: "string \<Rightarrow> string" where
  "ansi n = CHR 0x1B # ''['' @ n @ ''m''"

definition token_colors :: "(token_type \<times> string) list" where
  "token_colors =
     map (\<lambda>t. (t, ansi ''34'')) [[''Keyword''], [''Keyword'', ''Constant''], [''Keyword'', ''Declaration''],
       [''Keyword'', ''Namespace''], [''Keyword'', ''Reserved'']] @
     map (\<lambda>t. (t, ansi ''32'')) [[''Literal'', ''String''], [''Literal'', ''String'', ''Single''],
       [''Literal'', ''String'', ''Double'']] @
     map (\<lambda>t. (t, ansi ''33'')) [[''Literal'', ''Number''], [''Literal'', ''Number'', ''Integer''],
       [''Literal'', ''Number'', ''Float'']] @
     map (\<lambda>t. (t, ansi ''90'')) [[''Comment''], [''Comment'', ''Single''], [''Comment'', ''Multiline'']]"

text \<open>The walk over the parents; it has no result when it does not end.\<close>

partial_function (option) find_color :: "(token_type \<Rightarrow> token_type list) \<Rightarrow> token_type \<Rightarrow> string option option" where
  "find_color parents t =
     (case map_of token_colors t of
        Some c \<Rightarrow> Some (Some c)
      | None \<Rightarrow> (case parents t of [] \<Rightarrow> Some None | p # ps \<Rightarrow> find_color parents p))"

declare find_color.simps [code]

definition color_token :: "pygments \<Rightarrow> token_type \<times> string \<Rightarrow> string res" where
  "color_token pyg tv = (case find_color (mro_parents pyg) (fst tv) of
     None \<Rightarrow> Inl NonTermination
   | Some None \<Rightarrow> Inr (snd tv)
   | Some (Some c) \<Rightarrow> Inr (c @ snd tv @ ansi ''0''))"

definition highlight_sql :: "pygments \<Rightarrow> string \<Rightarrow> string res" where
  "highlight_sql pyg sql = (case sql_lexer pyg of
     None \<Rightarrow> Inr sql
   | Some tokens_of \<Rightarrow> if sql = '''' then Inr sql else rbind (rmap (color_token pyg) (tokens_of sql)) (\<lambda>parts. Inr (concat parts)))"

text \<open>A chain of parents without an end is the only way to fail.\<close>

lemma highlight_raises: "highlight_sql pyg sql = Inl e \<Longrightarrow> e = NonTermination"
proof -
  have "rmap (color_token pyg) ts = Inl e \<Longrightarrow> e = NonTermination" for ts
    by (induction ts) (auto simp: rbind_Inl_iff color_token_def split: option.splits)
  then show "highlight_sql pyg sql = Inl e \<Longrightarrow> e = NonTermination"
    by (auto simp: highlight_sql_def rbind_Inl_iff split: option.splits if_splits)
qed

text \<open>The types of \<open>pygments\<close> are tuples, not classes, so the walk stops where it starts.\<close>

lemma find_color_tuples: "find_color (\<lambda>t. []) t = Some (map_of token_colors t)"
  by (subst find_color.simps) (simp split: option.split)

end
