(* ===== verification/Repl.thy ===== *)
theory Repl
  imports Completer Highlighter Database_Facts
begin

text \<open>
  \<open>tinydb/cli/repl.py\<close>: the shell. Its state is the handler of the dot-commands, which holds the database, the lines
  of the statement that is being typed, the cache of the completer and what has been printed so far. The terminal
  is a list of lines to be read; its end is the end of the session. The clock and the file of the history are left out.
\<close>

section \<open>State\<close>

text \<open>What is printed: a text, the text of an exception behind \<open>Error: \<close>, or the time a statement took.\<close>

datatype printed = Line string | ErrorLine err | TimeLine

record repl =
  rp_handler :: command_handler
  rp_buffer :: "string list"
  rp_cache :: table_cache
  rp_printed :: "printed list"

definition new_repl :: "database \<Rightarrow> (string, string) dict \<Rightarrow> repl" where
  "new_repl d files = \<lparr>rp_handler = new_handler d files, rp_buffer = [], rp_cache = [], rp_printed = []\<rparr>"

abbreviation on_handler :: "(command_handler, 'a) st \<Rightarrow> (repl, 'a) st" where
  "on_handler \<equiv> szoom rp_handler (\<lambda>h r. r\<lparr>rp_handler := h\<rparr>)"

definition emit :: "printed list \<Rightarrow> (repl, unit) st" where
  "emit ls = smod (\<lambda>r. r\<lparr>rp_printed := rp_printed r @ ls\<rparr>)"

definition get_prompt :: "repl \<Rightarrow> string" where
  "get_prompt r = (if rp_buffer r \<noteq> [] then ''.. '' else ''tinydb> '')"

definition readline_complete :: "repl \<Rightarrow> string \<Rightarrow> string \<Rightarrow> nat \<Rightarrow> string option" where
  "readline_complete r line text state = complete (rp_cache r) line text state"

section \<open>Statements\<close>

definition buffered :: "string list \<Rightarrow> string" where
  "buffered ls = join_with '' '' ls"

definition needs_refresh :: "string \<Rightarrow> bool" where
  "needs_refresh sql =
     list_ex (\<lambda>kw. starts kw (upper (strip sql))) [''CREATE TABLE'', ''DROP TABLE'', ''INSERT INTO'', ''UPDATE'', ''DELETE FROM'']"

definition time_lines :: "repl \<Rightarrow> printed list" where
  "time_lines r = (if timing_enabled (rp_handler r) then [TimeLine] else [])"

definition run_statement :: "nat \<Rightarrow> string \<Rightarrow> (repl, unit) st" where
  "run_statement fuel sql r =
     (case sbind (on_handler (on_db (execute fuel sql))) (\<lambda>res. slift (format_output res)) r of
        (Inr ls, r') \<Rightarrow> emit (Line (join_with [LF] ls) # time_lines r') r'
      | (Inl e, r') \<Rightarrow> if is_exception e then emit (ErrorLine e # time_lines r') r' else (Inl e, r'))"

definition refresh_cache :: "nat \<Rightarrow> (repl, unit) st" where
  "refresh_cache fuel =
     sbind (on_handler (on_db (refresh_schema fuel))) (\<lambda>cache. smod (\<lambda>r. r\<lparr>rp_cache := cache\<rparr>))"

definition submit :: "nat \<Rightarrow> pygments \<Rightarrow> string \<Rightarrow> (repl, unit) st" where
  "submit fuel pyg sql r =
     sbind (if highlight_enabled (rp_handler r) then sbind (slift (highlight_sql pyg sql)) (\<lambda>w. emit [Line w]) else sret ()) (\<lambda>_.
     sbind (run_statement fuel sql) (\<lambda>_.
       if needs_refresh sql then refresh_cache fuel else sret ())) r"

definition execute_buffer :: "nat \<Rightarrow> pygments \<Rightarrow> (repl, unit) st" where
  "execute_buffer fuel pyg r = submit fuel pyg (buffered (rp_buffer r)) (r\<lparr>rp_buffer := []\<rparr>)"

section \<open>Commands\<close>

definition help_lines :: "string list" where
  "help_lines =
     [''Meta-commands:'',
      ''  .exit              Exit the REPL'',
      ''  .quit              Exit the REPL'',
      ''  .tables            List all tables'',
      ''  .schema <table>    Show table columns'',
      ''  .explain <sql>     Show query execution plan'',
      ''  .import <table> <file>  Import data from CSV/JSON'',
      ''  .dump <table> [file]   Export table data to CSV/JSON'',
      ''  .timing on|off     Toggle query timing display'',
      ''  .highlight on|off  Toggle SQL syntax highlighting'',
      ''  .help              Show this help message'']"

definition split_command :: "string \<Rightarrow> string \<times> string" where
  "split_command s =
     (takeWhile (\<lambda>c. \<not> py_space c) s, dropWhile py_space (dropWhile (\<lambda>c. \<not> py_space c) s))"

definition show_tables :: "nat \<Rightarrow> (repl, unit) st" where
  "show_tables fuel =
     sbind (on_handler (on_db (execute fuel ''SHOW TABLES''))) (\<lambda>res.
       let tables = map (\<lambda>row. value_str (row ! 0)) (qr_rows res) in
       emit (map Line (if tables = [] then [''(no tables)''] else print_columns ''table_name'' tables)))"

definition schema_flags :: "column_info \<Rightarrow> string" where
  "schema_flags c = (if ci_primary_key c then ''PK'' else '''') @ (if ci_nullable c then '''' else '' NOT NULL'')"

definition show_schema :: "string \<Rightarrow> (repl, unit) st" where
  "show_schema arg r =
     (let info = get_table_info (ch_db (rp_handler r)) arg in
      emit (map Line
        (if arg = '''' then [''Usage: .schema <table>'']
         else if info = [] then [''Table '' @ [CHR 0x27] @ arg @ [CHR 0x27] @ '' not found'']
         else print_schema (map ci_name info) (map ci_type info) (map schema_flags info))) r)"

definition reply_line :: "reply \<Rightarrow> printed" where
  "reply_line x = (case x of Text w \<Rightarrow> Line w | Problem e \<Rightarrow> ErrorLine e)"

text \<open>The result tells whether the session goes on; \<open>SystemExit\<close> ends it.\<close>

definition handle_command :: "nat \<Rightarrow> string \<Rightarrow> (repl, bool) st" where
  "handle_command fuel cmd =
     (let (command, arg) = split_command cmd in
      if command = ''.exit'' \<or> command = ''.quit'' then sret False
      else if command = ''.tables'' then sbind (show_tables fuel) (\<lambda>_. sret True)
      else if command = ''.schema'' then sbind (show_schema arg) (\<lambda>_. sret True)
      else if command = ''.help'' then sbind (emit (map Line help_lines)) (\<lambda>_. sret True)
      else
        sbind (on_handler (handle fuel (dropWhile (\<lambda>c. c = CHR ''.'') command) arg)) (\<lambda>out.
        sbind (emit [case out of None \<Rightarrow> Line (''Unknown command: '' @ command) | Some x \<Rightarrow> reply_line x]) (\<lambda>_. sret True)))"

section \<open>The loop\<close>

definition feed_line :: "nat \<Rightarrow> pygments \<Rightarrow> string \<Rightarrow> (repl, unit) st" where
  "feed_line fuel pyg line r =
     (let r' = r\<lparr>rp_buffer := rp_buffer r @ [line]\<rparr> in
      if is_complete (buffered (rp_buffer r')) then execute_buffer fuel pyg r' else (Inr (), r'))"

definition run_line :: "nat \<Rightarrow> pygments \<Rightarrow> string \<Rightarrow> (repl, bool) st" where
  "run_line fuel pyg line =
     (let s = strip line in
      if s = '''' then sret True
      else if starts ''.'' s then handle_command fuel s
      else sbind (feed_line fuel pyg line) (\<lambda>_. sret True))"

fun run :: "nat \<Rightarrow> pygments \<Rightarrow> string list \<Rightarrow> (repl, unit) st" where
  "run fuel pyg [] = emit [Line (LF # ''Bye.'')]"
| "run fuel pyg (l # ls) = sbind (run_line fuel pyg l) (\<lambda>going. if going then run fuel pyg ls else sret ())"

section \<open>The command line\<close>

text \<open>
  \<open>cli/__main__.py\<close>, on the contents of the files of the machine. The database is closed whether the session returns or
  raises, and an exception of \<open>close\<close> replaces that of the session.
\<close>

definition main_path :: "string list \<Rightarrow> string" where
  "main_path argv = (case argv of [] \<Rightarrow> ''tinydb.db'' | path # _ \<Rightarrow> path)"

definition cli_main :: "nat \<Rightarrow> pygments \<Rightarrow> (string \<Rightarrow> bytes option) \<Rightarrow> (string, string) dict \<Rightarrow> string list \<Rightarrow> string list
    \<Rightarrow> (err + unit) \<times> repl" where
  "cli_main fuel pyg storage files argv lines =
     (case db_open (storage (main_path argv)) of
        (Inl e, d) \<Rightarrow> (Inl e, new_repl d files)
      | (Inr _, d) \<Rightarrow>
          (let (res, r) = run fuel pyg lines (new_repl d files);
               (closed, r') = on_handler (on_db db_close) r
           in (case closed of Inl e \<Rightarrow> Inl e | Inr _ \<Rightarrow> res, r')))"

section \<open>What a session does\<close>

text \<open>
  A reading of the session without exceptions: an error is something that is printed. A statement is \<open>stuck\<close> when
  running it, formatting its result, echoing it or reading the schema after it never ends; nothing else stops the session.
\<close>

definition printing :: "printed list \<Rightarrow> repl \<Rightarrow> repl" where
  "printing ls r = r\<lparr>rp_printed := rp_printed r @ ls\<rparr>"

definition with_db :: "database \<Rightarrow> repl \<Rightarrow> repl" where
  "with_db d r = r\<lparr>rp_handler := (rp_handler r)\<lparr>ch_db := d\<rparr>\<rparr>"

definition echo :: "pygments \<Rightarrow> string \<Rightarrow> repl \<Rightarrow> printed list" where
  "echo pyg sql r = (if highlight_enabled (rp_handler r) then (case highlight_sql pyg sql of Inr w \<Rightarrow> [Line w] | Inl _ \<Rightarrow> []) else [])"

definition answer :: "err + QueryResult \<Rightarrow> printed" where
  "answer res = (case rbind res format_output of Inr ls \<Rightarrow> Line (join_with [LF] ls) | Inl e \<Rightarrow> ErrorLine e)"

definition stuck :: "nat \<Rightarrow> pygments \<Rightarrow> string \<Rightarrow> repl \<Rightarrow> bool" where
  "stuck fuel pyg sql r =
     (let (res, d) = execute fuel sql (ch_db (rp_handler r)) in
      highlight_enabled (rp_handler r) \<and> highlight_sql pyg sql = Inl NonTermination \<or>
      rbind res format_output = Inl NonTermination \<or>
      needs_refresh sql \<and> fst (refresh_schema fuel d) = Inl NonTermination)"

definition after_statement :: "nat \<Rightarrow> pygments \<Rightarrow> string \<Rightarrow> repl \<Rightarrow> repl" where
  "after_statement fuel pyg sql r =
     (let (res, d) = execute fuel sql (ch_db (rp_handler r));
          r' = printing (echo pyg sql r @ answer res # time_lines r) (with_db d r)
      in if needs_refresh sql then
           (case refresh_schema fuel d of (Inr cache, d') \<Rightarrow> (with_db d' r')\<lparr>rp_cache := cache\<rparr> | (Inl _, d') \<Rightarrow> with_db d' r')
         else r')"

definition after_line :: "nat \<Rightarrow> pygments \<Rightarrow> string \<Rightarrow> repl \<Rightarrow> repl option" where
  "after_line fuel pyg line r =
     (let ls = rp_buffer r @ [line]; r' = r\<lparr>rp_buffer := []\<rparr> in
      if strip line = '''' then Some r
      else if \<not> is_complete (buffered ls) then Some (r\<lparr>rp_buffer := ls\<rparr>)
      else if stuck fuel pyg (buffered ls) r' then None
      else Some (after_statement fuel pyg (buffered ls) r'))"

fun session :: "nat \<Rightarrow> pygments \<Rightarrow> string list \<Rightarrow> repl \<Rightarrow> repl option" where
  "session fuel pyg [] r = Some r"
| "session fuel pyg (l # ls) r = Option.bind (after_line fuel pyg l r) (session fuel pyg ls)"

lemma refresh_raises: "fst (refresh_schema fuel d) = Inl e \<Longrightarrow> e = NonTermination"
proof -
  have t: "fst (refresh_tables fuel rows cache d) = Inl e \<Longrightarrow> e = NonTermination" for rows cache d e
    by (induction fuel rows cache d rule: refresh_tables.induct)
      (auto simp: is_exception_def Let_def split: prod.splits sum.splits if_splits)
  then show "fst (refresh_schema fuel d) = Inl e \<Longrightarrow> e = NonTermination" unfolding refresh_schema_def
    by (auto simp: is_exception_def split: prod.splits sum.splits if_splits)
qed

lemma run_statement_session:
  assumes "execute fuel sql (ch_db (rp_handler r)) = (res, d)"
  shows "run_statement fuel sql r = (if rbind res format_output = Inl NonTermination then (Inl NonTermination, with_db d r)
    else (Inr (), printing (answer res # time_lines r) (with_db d r)))"
  using assms
  by (auto simp: run_statement_def sbind_def szoom_def slift_def emit_def smod_def is_exception_def answer_def printing_def
      with_db_def time_lines_def split: sum.splits)

lemma refresh_cache_session:
  "refresh_cache fuel r = (case refresh_schema fuel (ch_db (rp_handler r)) of
     (Inr cache, d) \<Rightarrow> (Inr (), (with_db d r)\<lparr>rp_cache := cache\<rparr>) | (Inl e, d) \<Rightarrow> (Inl e, with_db d r))"
  by (simp add: refresh_cache_def sbind_def szoom_def smod_def with_db_def split: prod.splits sum.splits)

lemma echo_session:
  "(if highlight_enabled (rp_handler r) then sbind (slift (highlight_sql pyg sql)) (\<lambda>w. emit [Line w]) else sret ()) r =
     (if highlight_enabled (rp_handler r) \<and> highlight_sql pyg sql = Inl NonTermination then (Inl NonTermination, r)
      else (Inr (), printing (echo pyg sql r) r))"
  using highlight_raises [of pyg sql]
  by (auto simp: sbind_def slift_def emit_def smod_def echo_def printing_def split: sum.splits)

lemma submit_session:
  "if stuck fuel pyg sql r then fst (submit fuel pyg sql r) = Inl NonTermination
   else submit fuel pyg sql r = (Inr (), after_statement fuel pyg sql r)"
proof -
  obtain res d where e: "execute fuel sql (ch_db (rp_handler r)) = (res, d)" by fastforce
  let ?r = "printing (echo pyg sql r) r"
  have "execute fuel sql (ch_db (rp_handler ?r)) = (res, d)" using e by (simp add: printing_def)
  note s = run_statement_session [OF this]
  have r: "printing (answer res # time_lines ?r) (with_db d ?r) =
      printing (echo pyg sql r @ answer res # time_lines r) (with_db d r)"
    by (simp add: printing_def with_db_def time_lines_def)
  have d: "ch_db (rp_handler (printing ls (with_db d r))) = d" for ls by (simp add: printing_def with_db_def)
  show ?thesis
    using refresh_raises [of fuel d]
    unfolding submit_def stuck_def after_statement_def sbind_def echo_session
    by (auto simp: e s r d refresh_cache_session Let_def split: prod.splits sum.splits)
qed

lemma run_line_session:
  assumes "\<not> starts ''.'' (strip l)"
  shows "case after_line fuel pyg l r of None \<Rightarrow> fst (run_line fuel pyg l r) = Inl NonTermination
    | Some r' \<Rightarrow> run_line fuel pyg l r = (Inr True, r')"
  using assms submit_session [of fuel pyg "buffered (rp_buffer r @ [l])" "r\<lparr>rp_buffer := []\<rparr>"]
  by (auto simp: after_line_def run_line_def feed_line_def execute_buffer_def Let_def sbind_def split: if_splits prod.splits sum.splits)

section \<open>Properties\<close>

text \<open>Lines that make up one statement: no command among them, and only the whole is complete.\<close>

definition typed_line :: "string \<Rightarrow> bool" where
  "typed_line l \<longleftrightarrow> strip l \<noteq> '''' \<and> \<not> starts ''.'' (strip l)"

definition statement_lines :: "string list \<Rightarrow> bool" where
  "statement_lines ls \<longleftrightarrow> ls \<noteq> [] \<and> list_all typed_line ls \<and> is_complete (buffered ls) \<and>
     list_all (\<lambda>k. \<not> is_complete (buffered (take k ls))) [1..<length ls]"

lemma run_line_typed: "typed_line l \<Longrightarrow> run_line fuel pyg l = sbind (feed_line fuel pyg l) (\<lambda>_. sret True)"
  by (simp add: run_line_def typed_line_def)

text \<open>
  C17. A statement may be typed over several lines: the shell collects the lines until their brackets are closed and a
  semicolon ends them, runs their text, joined by blanks, once and as a whole, and reads on with an empty buffer.
\<close>

theorem statement_over_lines:
  assumes "statement_lines ls" and "rp_buffer r = []"
  shows "run fuel pyg (ls @ rest) r = sbind (submit fuel pyg (buffered ls)) (\<lambda>_. run fuel pyg rest) r"
proof -
  have "run fuel pyg (ls @ rest) r = sbind (submit fuel pyg (buffered (b @ ls))) (\<lambda>_. run fuel pyg rest) (r\<lparr>rp_buffer := []\<rparr>)"
    if "ls \<noteq> []" "list_all typed_line ls" "is_complete (buffered (b @ ls))" "rp_buffer r = b"
      "\<forall>k \<in> {1..<length ls}. \<not> is_complete (buffered (b @ take k ls))" for b r
    using that
  proof (induction ls arbitrary: b r)
    case (Cons l ls)
    let ?r = "r\<lparr>rp_buffer := b @ [l]\<rparr>"
    have t: "typed_line l" using Cons.prems(2) by simp
    show ?case
    proof (cases "ls = []")
      case True
      then have "run_line fuel pyg l r = sbind (submit fuel pyg (buffered (b @ [l]))) (\<lambda>_. sret True) (r\<lparr>rp_buffer := []\<rparr>)"
        using Cons.prems(3,4) by (simp add: run_line_typed [OF t] feed_line_def sbind_def execute_buffer_def)
      then show ?thesis using True by (simp add: sbind_def split: prod.split sum.split)
    next
      case False
      then have "\<not> is_complete (buffered (b @ [l]))" using Cons.prems(5) by (force dest: bspec [of _ _ 1])
      then have "run_line fuel pyg l r = (Inr True, ?r)"
        using Cons.prems(4) by (simp add: run_line_typed [OF t] feed_line_def sbind_def)
      then have s: "run fuel pyg ((l # ls) @ rest) r = run fuel pyg (ls @ rest) ?r" by (simp add: sbind_def)
      have "\<not> is_complete (buffered ((b @ [l]) @ take k ls))" if "k \<in> {1..<length ls}" for k
        using Cons.prems(5) that by (force dest: bspec [of _ _ "Suc k"])
      then show ?thesis unfolding s using Cons.IH [OF False, of "b @ [l]" ?r] Cons.prems(2,3) by simp
    qed
  qed simp
  from this [of "[]" r] assms have "run fuel pyg (ls @ rest) r =
      sbind (submit fuel pyg (buffered ls)) (\<lambda>_. run fuel pyg rest) (r\<lparr>rp_buffer := []\<rparr>)"
    by (simp add: statement_lines_def list_all_iff)
  moreover have "r\<lparr>rp_buffer := []\<rparr> = r" using assms(2) by (cases r) simp
  ultimately show ?thesis by simp
qed

definition plain_text :: pygments where
  "plain_text = \<lparr>sql_lexer = None, mro_parents = (\<lambda>t. [])\<rparr>"

theorem statement_over_lines_witness:
  "rp_printed (snd (run 5 plain_text [''BEGIN'', '';''] (new_repl key_db []))) =
     [Line ''BEGIN ;'', Line ''0 rows in set'', Line (LF # ''Bye.'')]"
proof -
  have s: "statement_lines [''BEGIN'', '';'']" "needs_refresh ''BEGIN ;'' = False" "clean_sql ''BEGIN ;'' = ''BEGIN''" "buffered [''BEGIN'', '';''] = ''BEGIN ;''"
    by code_simp+
  have "rp_buffer (new_repl key_db []) = []" by (simp add: new_repl_def)
  note r = statement_over_lines [OF s(1) this, of 5 plain_text "[]", unfolded s(4) append_Nil2]
  have n: "rows_in_set 0 = ''0 rows in set''" by code_simp
  obtain d where d: "execute 5 ''BEGIN ;'' key_db = (Inr (affected 0), d)"
    by (simp add: execute_def s(3) dispatch_txn sbind_def szoom_def)
  then show ?thesis unfolding r using s(2) n
    by (simp add: submit_def run_statement_def emit_def new_repl_def new_handler_def plain_text_def highlight_sql_def
      format_output_def affected_def time_lines_def sbind_def szoom_def)
qed

text \<open>
  C39. No exception of a statement ends the session: when no line is a command, the loop reads the lines to the end of the
  input and runs every statement on the database as the ones before it have left it, printing its result or, behind
  \<open>Error:\<close>, its exception, and takes its leave after the last line. It does so exactly when no statement on the way is
  stuck; otherwise the session never ends.
\<close>

theorem session_survives_errors:
  assumes "\<forall>l \<in> set ls. \<not> starts ''.'' (strip l)"
  shows "case session fuel pyg ls r of
      Some r' \<Rightarrow> run fuel pyg ls r = (Inr (), printing [Line (LF # ''Bye.'')] r')
    | None \<Rightarrow> fst (run fuel pyg ls r) = Inl NonTermination"
  using assms
proof (induction ls arbitrary: r)
  case Nil
  show ?case by (simp add: emit_def smod_def printing_def)
next
  case (Cons l ls)
  have "\<not> starts ''.'' (strip l)" using Cons.prems by simp
  note line = run_line_session [OF this, of fuel pyg r]
  show ?case
  proof (cases "after_line fuel pyg l r")
    case None
    with line show ?thesis by (cases "run_line fuel pyg l r") (simp add: sbind_def)
  next
    case (Some r')
    then have "run fuel pyg (l # ls) r = run fuel pyg ls r'" "session fuel pyg (l # ls) r = session fuel pyg ls r'"
      using line by (simp_all add: sbind_def)
    then show ?thesis using Cons.IH [of r'] Cons.prems by (cases "session fuel pyg ls r'") (simp_all del: run.simps session.simps)
  qed
qed

theorem session_survives_errors_witness:
  "rp_printed (snd (run 5 plain_text [''COMMIT;'', ''  '', ''BEGIN'', '';''] (new_repl key_db []))) =
     [Line ''COMMIT;'', ErrorLine DatabaseError, Line ''BEGIN ;'', Line ''0 rows in set'', Line (LF # ''Bye.'')]"
proof -
  let ?ls = "[''COMMIT;'', ''  '', ''BEGIN'', '';'']"
  have s: "needs_refresh ''BEGIN ;'' = False" "clean_sql ''BEGIN ;'' = ''BEGIN''" "needs_refresh ''COMMIT;'' = False"
    "clean_sql ''COMMIT;'' = ''COMMIT''" "strip ''COMMIT;'' = ''COMMIT;''" "strip ''  '' = ''''" "strip ''BEGIN'' = ''BEGIN''"
    "strip '';'' = '';''" "rows_in_set 0 = ''0 rows in set''" "is_complete ''COMMIT;''" "\<not> is_complete ''BEGIN''" "is_complete ''BEGIN ;''"
    "buffered [''BEGIN''] = ''BEGIN''" "buffered [''COMMIT;''] = ''COMMIT;''" "buffered [''BEGIN'', '';''] = ''BEGIN ;''" "\<forall>l \<in> set ?ls. \<not> starts ''.'' (strip l)"
    by code_simp+
  have c: "execute 5 ''COMMIT;'' key_db = (Inl DatabaseError, key_db)"
    by (simp add: execute_def s dispatch_txn sbind_def szoom_def slift_def db_commit_def txn_commit_def resolve_txn_def
        handle_error_def has_active_txn_def key_db_def new_engine_def Let_def)
  obtain d where b: "execute 5 ''BEGIN ;'' key_db = (Inr (affected 0), d)"
    by (simp add: execute_def s dispatch_txn sbind_def szoom_def)
  show ?thesis
    using session_survives_errors [OF s(16), of 5 plain_text "new_repl key_db []"]
    by (simp add: after_line_def stuck_def after_statement_def answer_def echo_def plain_text_def highlight_sql_def s c b
      new_repl_def new_handler_def format_output_def affected_def time_lines_def with_db_def printing_def Let_def del: run.simps)
qed

end
