(* ===== verification/Spec2Isabelle.thy ===== *)
theory Spec2Isabelle
  imports Txn_Table Txn_Life Mvcc_Heap Query_Props Parser_Print Catalog Btree_Index Lock_Progress Index_Checks Database_Facts Dml_Update
    Rollback Import_Facts Repl
begin

text \<open>
  A model of the database \<open>tinydb\<close> (\<open>src/tinydb\<close>) and the theorems that make it correct. Definitions follow the source
  function by function and keep its names. Where they differ, the opening text of a theory says how.

  \<^bold>\<open>The program.\<close> A database is one file of 4096-byte pages. \<open>file_manager.py\<close> reads and writes pages and keeps the
  list of free ones; \<open>buffer_pool.py\<close> caches pages; \<open>page.py\<close> and \<open>row_format.py\<close> lay out rows in a page, and \<open>table.py\<close>
  keeps the rows of a table in a chain of pages. \<open>catalog.py\<close> keeps the tables, \<open>index/\<close> B-trees over columns.
  \<open>transaction/\<close> gives a transaction its own copies of pages (\<open>shadow_paging.py\<close>), which commit copies back
  (\<open>txn_manager.py\<close>), with page locks, deadlock detection and page versions from \<open>concurrency/\<close>. \<open>sql/\<close> turns a text
  into tokens, a statement and a tree of operators and runs it; \<open>database.py\<close> ties all of it together, and \<open>cli/\<close> is the
  shell on top.

  \<^bold>\<open>How it is modelled.\<close> A Python object is a record; a method is a function of that record. A method that changes
  its object and may raise is a state transformer \<open>'s \<Rightarrow> (err + 'a) \<times> 's\<close>, which also returns the state an exception
  leaves behind (\<open>Prelude\<close>, with \<open>szoom\<close> to run a method on a part of a larger state). Generators are a datatype of
  events (\<open>Generators\<close>), so a lazy query interleaves with changes of the storage as it does in Python. A text is a list of
  characters with code points up to 255; a float is its 64 bits.

  \<^bold>\<open>The theories and the files they model.\<close>

  \<^item> \<open>Prelude\<close>: exceptions (\<open>exceptions.py\<close>, \<open>sql/errors.py\<close>), results, state transformers, dicts, slices.
    \<open>Struct_Pack\<close>, \<open>Py_Float\<close>, \<open>Py_Repr\<close>, \<open>Py_Sort\<close>, \<open>Json\<close>, \<open>Csv\<close>: what the program uses of Python's library.
  \<^item> \<open>Py_Types\<close> (\<open>types.py\<close>), \<open>Row_Format\<close> (\<open>row_format.py\<close>), \<open>Page\<close> (\<open>page.py\<close>, \<open>constants.py\<close>), \<open>File_Manager\<close>
    (\<open>file_manager.py\<close>), \<open>Buffer_Pool\<close> (\<open>buffer_pool.py\<close>): the storage. What is written is read back, a page is a list
    of optional rows, freed pages form a stack, the cache is invisible.
  \<^item> \<open>Deadlock_Detector\<close>, \<open>Lock_Manager\<close>, \<open>Lock_Progress\<close> (\<open>concurrency/\<close>): locks as a step relation over all
    interleavings, with mutual exclusion, exact deadlock detection and the wake-ups. A thread has a phase: every block of
    \<open>acquire\<close> under the mutex, and every call of the detector outside of it, is a step of its own, between which other
    threads run; calls of the detector inside of a block belong to the step of the block.
  \<^item> \<open>Mvcc\<close>, \<open>Mvcc_Heap\<close> (\<open>concurrency/mvcc_manager.py\<close>): the versions of a page as objects linked by \<open>next\<close>, with the
    surgery on the links that a collection does in place, and their refinement to lists of versions, which is what the
    transaction manager works with. A collection keeps what the code keeps, which is less than its docstring says.
  \<^item> \<open>Page_Store\<close>, \<open>Shadow_Paging\<close>, \<open>Txn_Manager\<close>, \<open>Txn_Life\<close>, \<open>Txn_Table\<close> (\<open>transaction/\<close>): the two kinds of pool
    behind one interface, the transactions that the table of the manager lists after any sequence of calls, isolation until commit and visibility after it.
  \<^item> \<open>Table\<close>, \<open>Table_Update\<close> (\<open>table.py\<close>), \<open>Catalog\<close> (\<open>catalog.py\<close>): insertion, deletion, update and scans of a chain
    of pages; saving and loading the catalog.
  \<^item> \<open>Btree\<close>, \<open>Btree_Facts\<close>, \<open>Btree_Tree\<close>, \<open>Btree_Search\<close>, \<open>Btree_Index\<close> (\<open>index/btree.py\<close>), \<open>Index_Manager\<close>
    (\<open>index/index_manager.py\<close>), \<open>Index_Facts\<close>, \<open>Index_Checks\<close>: the nodes as bytes, the tree they form, and a TEXT index as
    a set of pairs; where an INTEGER index overflows and what CREATE INDEX does to the uniqueness check.
  \<^item> \<open>Expressions\<close> (\<open>sql/expressions.py\<close>), \<open>Ast\<close> (\<open>sql/ast.py\<close>), \<open>Lexer\<close>, \<open>Parser\<close>, \<open>Parser_Ends\<close>, \<open>Parser_Print\<close>
    (\<open>sql/lexer.py\<close>, \<open>sql/parser.py\<close>): from text to statement; tokens spell the text, parsing ends on every text, and what
    a printer writes is parsed back.
  \<^item> \<open>Generators\<close>, \<open>Operators\<close>, \<open>Query_Algebra\<close>, \<open>Query_Store\<close>, \<open>Query_Facts\<close>, \<open>Query_Props\<close> (\<open>sql/executor.py\<close>),
    \<open>Planner\<close> (\<open>sql/planner.py\<close>): the lazy operators against a semantics on lists of rows (\<open>op_sem\<close>, which is a
    specification and translates no code); what joins, sorting by several keys and grouping hand out.
  \<^item> \<open>Dml\<close>, \<open>Dml_Facts\<close>, \<open>Dml_Invariants\<close>, \<open>Dml_Update\<close> (\<open>sql/executor.py\<close>): INSERT, UPDATE and DELETE against functions
    on the rows of a table, and the constraints as invariants of all statements. They are about tables without an index
    (\<open>unindexed\<close>): with one, uniqueness is asked of the index, which need not hold every row (\<open>Index_Checks\<close>). A row
    that is written has a value for each column and fits an empty page (\<open>rows_fit\<close>), and UPDATE finds room in the pages.
  \<^item> \<open>Database\<close>, \<open>Database_Facts\<close> (\<open>database.py\<close>): statements as texts, dispatch, transactions and errors;
    \<open>Rollback\<close>: a transaction that is rolled back leaves every page as it was; not so the pages of an index, which are
    written through the plain pool at once.
  \<^item> \<open>Commands\<close>, \<open>Import_Facts\<close> (\<open>cli/commands.py\<close>), \<open>Completer\<close> (\<open>cli/completer.py\<close>), \<open>Highlighter\<close>
    (\<open>cli/highlighter.py\<close>), \<open>Repl_Text\<close>, \<open>Repl\<close> (\<open>cli/repl.py\<close>): the shell; what it takes for a complete statement, that
    errors are printed and do not end it, and export and import of tables.

  \<^bold>\<open>Interfaces.\<close> \<open>page_allocator\<close> (\<open>File_Manager\<close>) is the contract of allocation, interpreted as \<open>fm\<close>; \<open>row_store\<close> (\<open>Page\<close>)
  that of a slotted page, interpreted as \<open>page\<close>. \<open>page_store\<close> is what the table code needs of a pool: it is interpreted as
  \<open>main\<close> on the plain pool and as \<open>shadow\<close> on the pool of a transaction, so every fact about tables and queries holds
  for both. \<open>statement_store\<close> extends it for statements with their index manager (\<open>main_stmt\<close>, \<open>shadow_stmt\<close>;
  \<open>undo\<close> and \<open>undo_stmt\<close> add to it what a rollback needs), and \<open>node_store\<close> for the pages of an index (\<open>main_nodes\<close>).

  \<^bold>\<open>Loops and bounds.\<close> A loop along a chain of pages and a descent of a B-tree carry \<open>page_count + 1\<close> units of fuel, more
  than a path without a cycle has pages; \<open>NonTermination\<close> stands for a loop of the source that does not end, and the
  theorems show where that cannot happen. UPDATE scans the chain that it may extend, so its fuel is an argument of the
  statement. The bounds of the parser and of the JSON reader are the lengths of their inputs; \<open>parse_ends\<close> shows that
  the parser's are never reached, and the JSON reader takes at least one character in two calls.

  \<^bold>\<open>Not modelled.\<close> Threads: the mutex of an object makes each method one step, and only the lock manager is
  interleaved. Timeouts, timestamps, \<open>fsync\<close>, the messages of exceptions, the limits of the interpreter (recursion depth,
  memory), characters beyond 255, the identity of NaN objects. Failures of the operating system (a full disk, a file that
  cannot be opened). Of the shell: the set-up of \<open>readline\<close>, its history file and the clock. The package
  \<open>pygments\<close> is a parameter. The \<open>__init__\<close> files only re-export names.
\<close>

end
